(* ===== verification/Prelude.thy ===== *)
theory Prelude
  imports Main
    "HOL-Library.Word"
    "HOL-Library.AList"
    "HOL-Library.Multiset"
    "HOL-Library.List_Lexorder"
    "HOL-Library.Product_Lexorder"
begin

text \<open>
  Shared ground of the TitanKV development.

  \<^item> The machine types of the C++ code: a \<open>char\<close> of a \<open>std::string\<close> is a byte
    (\<open>8 word\<close>, compared unsigned as \<open>char_traits<char>\<close> and \<open>memcmp\<close> do), a
    \<open>std::string\<close> or \<open>Slice\<close> is a list of bytes, \<open>uint32_t\<close> and \<open>uint64_t\<close> are
    words of their width; \<open>size_t\<close> values that count bytes held in memory are \<open>nat\<close>.
    The order \<open><\<close> on byte strings is the lexicographic one of \<open>List_Lexorder\<close>, which is
    what \<open>std::string::operator<\<close> computes.
  \<^item> The theorem collections used by the components.
  \<^item> Generic facts on lists, association lists and words.
  \<^item> The interface \<open>comparator\<close> of a three-way comparison function, and the model of
    \<open>std::sort\<close> and \<open>std::lower_bound\<close> the sources use.
\<close>

unbundle bit_operations_syntax

type_synonym byte = "8 word"
type_synonym bytes = "byte list"
type_synonym u8 = "8 word"
type_synonym u16 = "16 word"
type_synonym u32 = "32 word"
type_synonym u64 = "64 word"

text \<open>A C++ string literal as the bytes it denotes.\<close>

definition str :: "string \<Rightarrow> bytes" where
  "str cs = map of_char cs"

lemma str_eq_Nil [simp]: "str cs = [] \<longleftrightarrow> cs = []"
  by (simp add: str_def)

text \<open>\<open>std::to_string\<close> of an unsigned value: decimal digits, most significant first.\<close>

fun to_digits :: "nat \<Rightarrow> bytes" where
  "to_digits n =
     (if n < 10 then [48 + word_of_nat n]
      else to_digits (n div 10) @ [48 + word_of_nat (n mod 10)])"

declare to_digits.simps [simp del]

text \<open>Conversion of a byte count to the narrower types the code casts it to.\<close>

definition size_u32 :: "'a list \<Rightarrow> u32" where
  "size_u32 xs = word_of_nat (length xs)"

definition size_u64 :: "'a list \<Rightarrow> u64" where
  "size_u64 xs = word_of_nat (length xs)"

text \<open>\<open>static_cast<int>\<close> of a size: the low 32 bits read as two's complement.\<close>

definition size_int :: "'a list \<Rightarrow> int" where
  "size_int xs = sint (word_of_nat (length xs) :: 32 word)"

text \<open>
  Theorem collections: \<open>codec\<close> holds "decode after encode" equations and the widths of
  the encodings, \<open>frame\<close> the facts that an operation leaves a field alone, \<open>fs_simps\<close>
  the effects of the file system calls on the file map.
\<close>

named_theorems codec
named_theorems frame
named_theorems fs_simps

section \<open>Words and bytes\<close>

lemma and_255_take_bit: "(x :: 'a::len word) AND 255 = take_bit 8 x"
proof -
  have "(255 :: 'a word) = mask 8" by (simp add: mask_eq_exp_minus_1)
  then show ?thesis by (simp only: take_bit_eq_mask)
qed

lemma ucast_byte_and_255 [simp]: "(ucast ((x :: 'a::len word) AND 255) :: byte) = ucast x"
  by (rule bit_word_eqI) (auto simp: and_255_take_bit bit_simps)

lemma bit_byte_less: "bit (b :: byte) n \<Longrightarrow> n < 8"
  using bit_imp_le_length [of b n] by simp

lemma take_bit_self_mono:
  assumes "take_bit m (y :: 'a::len word) = y" and "m \<le> n"
  shows "take_bit n y = y"
proof -
  have "take_bit n (take_bit m y) = take_bit m y"
    using assms(2) by (simp add: min_absorb2)
  with assms(1) show ?thesis by simp
qed

lemma xor_left_cancel: "(s :: 'a::len word) XOR a = s XOR b \<Longrightarrow> a = b"
proof -
  assume "s XOR a = s XOR b"
  then have "s XOR (s XOR a) = s XOR (s XOR b)" by simp
  then show "a = b" by (simp flip: xor.assoc)
qed

lemma upt_8: "[0..<8] = [0, 1, 2, 3, 4, 5, 6, 7]"
  by (simp add: upt_rec)

lemma unat_size_u32: "length xs < 2 ^ 32 \<Longrightarrow> unat (size_u32 xs) = length xs"
  by (simp add: size_u32_def unat_word_ariths unat_of_nat)

lemma unat_size_u64: "length xs < 2 ^ 64 \<Longrightarrow> unat (size_u64 xs) = length xs"
  by (simp add: size_u64_def unat_word_ariths unat_of_nat)

lemma size_u32_Nil [simp]: "size_u32 [] = 0"
  by (simp add: size_u32_def)

lemma size_u32_eq_0: "length xs < 2 ^ 32 \<Longrightarrow> size_u32 xs = 0 \<longleftrightarrow> xs = []"
  using unat_size_u32 [of xs] by (auto simp: unat_eq_zero)

lemma size_int_small: "length xs < 2 ^ 31 \<Longrightarrow> size_int xs = int (length xs)"
  using sint_sbintrunc' [of "int (length xs)", where 'a = 32]
  by (simp add: size_int_def signed_take_bit_int_eq_self)

section \<open>Lists\<close>

lemma take_length_append [simp]: "take (length xs) (xs @ ys) = xs"
  by simp

lemma drop_length_append [simp]: "drop (length xs) (xs @ ys) = ys"
  by simp

lemma nth_append_left: "i < length xs \<Longrightarrow> (xs @ ys) ! i = xs ! i"
  by (simp add: nth_append)

lemma last_Cons_filter_append:
  "last (a # filter P (xs @ ys)) = last (last (a # filter P xs) # filter P ys)"
  by (simp add: last_append)

lemma map_of_filter_key:
  "map_of (filter (\<lambda>p. P (fst p)) al) k = (if P k then map_of al k else None)"
  by (induction al) auto

lemma sum_list_filter_split:
  fixes f :: "'a \<Rightarrow> nat"
  shows "sum_list (map f xs) = sum_list (map f (filter P xs)) + sum_list (map f (filter (\<lambda>x. \<not> P x) xs))"
  by (induction xs) auto

section \<open>Decimal numbers\<close>

lemma to_digits_nonempty [simp]: "to_digits n \<noteq> []"
  by (subst to_digits.simps) simp

section \<open>Three-way comparison\<close>

text \<open>
  The contract of a \<open>strcmp\<close>-like function: on the values it is meant for (\<open>ok\<close>) it is
  the three-way comparison of a rank in a linear order, and only equal values compare
  equal. \<open>SkipList\<close>, the iterators, \<open>std::sort\<close> and \<open>std::lower_bound\<close> rely on it.
\<close>

locale comparator =
  fixes cmp :: "'a \<Rightarrow> 'a \<Rightarrow> int"
    and rank :: "'a \<Rightarrow> 'r::linorder"
    and ok :: "'a \<Rightarrow> bool"
  assumes cmp_neg: "ok a \<Longrightarrow> ok b \<Longrightarrow> cmp a b < 0 \<longleftrightarrow> rank a < rank b"
    and cmp_pos: "ok a \<Longrightarrow> ok b \<Longrightarrow> 0 < cmp a b \<longleftrightarrow> rank b < rank a"
    and rank_inj: "ok a \<Longrightarrow> ok b \<Longrightarrow> rank a = rank b \<Longrightarrow> a = b"
begin

lemma cmp_zero: "ok a \<Longrightarrow> ok b \<Longrightarrow> cmp a b = 0 \<longleftrightarrow> a = b"
  by (metis cmp_neg cmp_pos rank_inj linorder_less_linear order_less_irrefl)

lemma cmp_trans: "ok a \<Longrightarrow> ok b \<Longrightarrow> ok c \<Longrightarrow> cmp a b < 0 \<Longrightarrow> cmp b c < 0 \<Longrightarrow> cmp a c < 0"
  by (metis cmp_neg order_less_trans)

lemma cmp_swap: "ok a \<Longrightarrow> ok b \<Longrightarrow> cmp a b < 0 \<longleftrightarrow> 0 < cmp b a"
  by (simp add: cmp_neg cmp_pos)

lemma cmp_refl: "ok a \<Longrightarrow> cmp a a = 0"
  by (simp add: cmp_zero)

end

section \<open>std::sort and std::lower_bound\<close>

text \<open>
  \<open>std::sort\<close> with a strict comparison \<open>lt\<close>. The standard leaves the order of equivalent
  elements open; the model is the stable choice, and the facts used of it (permutation and
  sortedness) hold of every choice.
\<close>

fun insert_by :: "('a \<Rightarrow> 'a \<Rightarrow> bool) \<Rightarrow> 'a \<Rightarrow> 'a list \<Rightarrow> 'a list" where
  "insert_by lt x [] = [x]"
| "insert_by lt x (y # ys) = (if lt y x then y # insert_by lt x ys else x # y # ys)"

fun sort_by :: "('a \<Rightarrow> 'a \<Rightarrow> bool) \<Rightarrow> 'a list \<Rightarrow> 'a list" where
  "sort_by lt [] = []"
| "sort_by lt (x # xs) = insert_by lt x (sort_by lt xs)"

lemma mset_insert_by: "mset (insert_by lt x xs) = add_mset x (mset xs)"
  by (induction xs) auto

lemma mset_sort_by [simp]: "mset (sort_by lt xs) = mset xs"
  by (induction xs) (auto simp: mset_insert_by)

lemma set_sort_by [simp]: "set (sort_by lt xs) = set xs"
  by (metis mset_sort_by set_mset_mset)

lemma length_sort_by [simp]: "length (sort_by lt xs) = length xs"
  by (metis mset_sort_by size_mset)

lemma set_insert_by [simp]: "set (insert_by lt x xs) = insert x (set xs)"
  by (metis mset_insert_by set_mset_add_mset_insert set_mset_mset)

text \<open>When \<open>lt\<close> is the order of a rank, the result is sorted by that rank.\<close>

lemma sorted_insert_by:
  fixes rank :: "'a \<Rightarrow> 'r::linorder"
  assumes lt: "\<And>a b. a \<in> insert x (set xs) \<Longrightarrow> b \<in> insert x (set xs) \<Longrightarrow> lt a b \<longleftrightarrow> rank a < rank b"
    and "sorted (map rank xs)"
  shows "sorted (map rank (insert_by lt x xs))"
  using assms
proof (induction xs)
  case (Cons y ys)
  have "sorted (map rank (insert_by lt x ys))"
    by (rule Cons.IH) (use Cons.prems in auto)
  moreover have "lt y x \<longleftrightarrow> rank y < rank x"
    using Cons.prems(1) by simp
  ultimately show ?case
    using Cons.prems(2) by (auto simp: not_less dest: order_trans)
qed simp

lemma sorted_sort_by:
  fixes rank :: "'a \<Rightarrow> 'r::linorder"
  assumes "\<And>a b. a \<in> set xs \<Longrightarrow> b \<in> set xs \<Longrightarrow> lt a b \<longleftrightarrow> rank a < rank b"
  shows "sorted (map rank (sort_by lt xs))"
  using assms by (induction xs) (auto intro!: sorted_insert_by)

text \<open>A list already in order is left alone, which is all a \<open>std::sort\<close> of sorted data does.\<close>

lemma sort_by_sorted:
  fixes rank :: "'a \<Rightarrow> 'r::linorder"
  assumes "\<And>a b. a \<in> set xs \<Longrightarrow> b \<in> set xs \<Longrightarrow> lt a b \<longleftrightarrow> rank a < rank b"
    and "sorted (map rank xs)"
  shows "sort_by lt xs = xs"
  using assms
proof (induction xs)
  case (Cons x xs)
  then have IH: "sort_by lt xs = xs" by simp
  show ?case
  proof (cases xs)
    case (Cons y ys)
    then have "\<not> lt y x" using Cons.prems by (auto simp: not_less)
    with IH Cons show ?thesis by simp
  qed simp
qed simp

text \<open>
  \<open>std::lower_bound\<close> with the predicate "element lies before the key": on a range the
  predicate partitions, the first element for which it fails.
\<close>

fun lower_bound :: "('a \<Rightarrow> bool) \<Rightarrow> 'a list \<Rightarrow> 'a option" where
  "lower_bound before [] = None"
| "lower_bound before (x # xs) = (if before x then lower_bound before xs else Some x)"

lemma lower_bound_None: "lower_bound before xs = None \<longleftrightarrow> (\<forall>x\<in>set xs. before x)"
  by (induction xs) auto

lemma lower_bound_SomeD:
  assumes "lower_bound before xs = Some x"
  obtains ys zs where "xs = ys @ x # zs" "\<forall>y\<in>set ys. before y" "\<not> before x"
  using assms
proof (induction xs arbitrary: thesis)
  case (Cons a xs)
  show ?case
  proof (cases "before a")
    case True
    with Cons.prems(2) have "lower_bound before xs = Some x" by simp
    then obtain ys zs where "xs = ys @ x # zs" "\<forall>y\<in>set ys. before y" "\<not> before x"
      using Cons.IH by blast
    with True show ?thesis by (intro Cons.prems(1) [of "a # ys" zs]) auto
  next
    case False
    with Cons.prems(2) show ?thesis by (intro Cons.prems(1) [of "[]" xs]) auto
  qed
qed simp

lemma lower_bound_append:
  "\<forall>y\<in>set ys. before y \<Longrightarrow> \<not> before x \<Longrightarrow> lower_bound before (ys @ x # zs) = Some x"
  by (induction ys) auto

end
