(* ===== verification/Framed_Log.thy ===== *)
theory Framed_Log
  imports Prelude
begin

text \<open>
  Logs of framed records, the structure the write-ahead log and the MANIFEST share: the file
  is a sequence of frames, and the reader takes frames off its front until it meets one that
  is not complete. The locale states what a frame format has to guarantee; its lemmas show
  what replaying a whole log and a log cut off at an arbitrary byte returns.
\<close>

text \<open>The records whose frames lie completely within the first \<open>n\<close> bytes.\<close>

fun complete_frames :: "('r \<Rightarrow> bytes) \<Rightarrow> nat \<Rightarrow> 'r list \<Rightarrow> 'r list" where
  "complete_frames frame n [] = []"
| "complete_frames frame n (r # rs) =
     (if length (frame r) \<le> n then r # complete_frames frame (n - length (frame r)) rs else [])"

lemma complete_frames_prefix: "\<exists>k. complete_frames frame n rs = take k rs"
proof (induction rs arbitrary: n)
  case (Cons r rs)
  show ?case
  proof (cases "length (frame r) \<le> n")
    case True
    obtain k where "complete_frames frame (n - length (frame r)) rs = take k rs"
      using Cons.IH by blast
    with True show ?thesis by (intro exI [of _ "Suc k"]) simp
  qed (auto intro: exI [of _ 0])
qed simp

lemma complete_frames_append:
  "length (concat (map frame rs)) \<le> n \<Longrightarrow>
     complete_frames frame n (rs @ ss) = rs @ complete_frames frame (n - length (concat (map frame rs))) ss"
  by (induction rs arbitrary: n) (auto simp: diff_diff_left)

lemma complete_frames_all:
  "length (concat (map frame rs)) \<le> n \<Longrightarrow> complete_frames frame n rs = rs"
  using complete_frames_append [of frame rs n "[]"] by simp

text \<open>What an interrupted append may leave behind the last complete frame.\<close>

definition torn_frame :: "('r \<Rightarrow> bytes) \<Rightarrow> ('r \<Rightarrow> bool) \<Rightarrow> bytes \<Rightarrow> bool" where
  "torn_frame frame ok x \<longleftrightarrow> x = [] \<or> (\<exists>r i. ok r \<and> i < length (frame r) \<and> x = take i (frame r))"

lemma torn_frame_take: "torn_frame frame ok x \<Longrightarrow> torn_frame frame ok (take n x)"
  by (auto simp: torn_frame_def) (metis min.strict_coboundedI2)

lemma complete_frames_take:
  assumes "k \<le> length rs" "length (concat (map frame (take k rs))) \<le> n"
  shows "\<exists>j\<ge>k. j \<le> length rs \<and> complete_frames frame n rs = take j rs"
proof -
  let ?n = "n - length (concat (map frame (take k rs)))"
  obtain i where "complete_frames frame ?n (drop k rs) = take i (drop k rs)" using complete_frames_prefix by blast
  then have "complete_frames frame n rs = take (k + i) rs"
    using complete_frames_append [OF assms(2), of "drop k rs"] by (simp add: take_add)
  then show ?thesis using assms(1) by (intro exI [of _ "min (k + i) (length rs)"]) (auto simp: min_def)
qed

locale framed_log =
  fixes frame :: "'r \<Rightarrow> bytes" and ok :: "'r \<Rightarrow> bool"
    and decode :: "bytes \<Rightarrow> ('r \<times> bytes) option" and parse :: "bytes \<Rightarrow> 'r list"
  assumes decode_frame: "ok r \<Longrightarrow> decode (frame r @ input) = Some (r, input)"
    and decode_torn: "ok r \<Longrightarrow> n < length (frame r) \<Longrightarrow> decode (take n (frame r)) = None"
    and decode_Nil: "decode [] = None"
    and parse_step: "parse input = (case decode input of None \<Rightarrow> [] | Some (r, input) \<Rightarrow> r # parse input)"
begin

lemma parse_frame: "ok r \<Longrightarrow> parse (frame r @ input) = r # parse input"
  by (subst parse_step) (simp add: decode_frame)

lemma parse_Nil [simp]: "parse [] = []"
  by (subst parse_step) (simp add: decode_Nil)

lemma parse_frames: "list_all ok rs \<Longrightarrow> parse (concat (map frame rs) @ input) = rs @ parse input"
  by (induction rs) (simp_all add: parse_frame)

text \<open>A log cut off anywhere: the complete records, in order, and nothing else.\<close>

lemma parse_torn: "list_all ok rs \<Longrightarrow> parse (take n (concat (map frame rs))) = complete_frames frame n rs"
proof (induction rs arbitrary: n)
  case (Cons r rs)
  show ?case
  proof (cases "length (frame r) \<le> n")
    case True
    with Cons show ?thesis by (simp add: parse_frame)
  next
    case False
    then have "take n (concat (map frame (r # rs))) = take n (frame r)" by simp
    with False Cons.prems decode_torn [of r n] show ?thesis
      by (subst parse_step) simp
  qed
qed simp

lemma parse_torn_frame: "torn_frame frame ok x \<Longrightarrow> parse x = []"
  by (subst parse_step) (auto simp: torn_frame_def decode_torn decode_Nil)

text \<open>A log with a torn frame at its end, cut off behind the first \<open>k\<close> records.\<close>

lemma parse_cut:
  assumes "list_all ok rs" "torn_frame frame ok x" "k \<le> length rs" "length (concat (map frame (take k rs))) \<le> n"
  shows "\<exists>j\<ge>k. j \<le> length rs \<and> parse (take n (concat (map frame rs) @ x)) = take j rs"
proof (cases "n \<le> length (concat (map frame rs))")
  case True
  then show ?thesis using parse_torn [OF assms(1), of n] complete_frames_take [OF assms(3,4)] by simp
next
  case False
  then show ?thesis
    using parse_frames [OF assms(1)] parse_torn_frame [OF torn_frame_take [OF assms(2)]] assms(3)
    by (intro exI [of _ "length rs"]) simp
qed

end

end
