(* ===== verification/Core_Types.thy ===== *)
theory Core_Types
  imports Prelude
begin

text \<open>
  The public vocabulary of minikv (\<open>minikv/include/minikv\<close>): \<open>Slice\<close>, \<open>Status\<close>,
  \<open>WriteBatch\<close> and \<open>Options\<close>. A \<open>Slice\<close> is the byte string its pointer and size
  delimit. The lemmas show that \<open>Slice::compare\<close> is the lexicographic order, that is, it
  satisfies the \<open>comparator\<close> contract with the byte string itself as rank.
\<close>

section \<open>Slice\<close>

type_synonym Slice = bytes

text \<open>
  \<open>memcmp(a, b, n)\<close>: the sign of the first difference among the first \<open>n\<close> bytes, read as
  unsigned. The callers never pass an \<open>n\<close> beyond either buffer.
\<close>

fun memcmp :: "bytes \<Rightarrow> bytes \<Rightarrow> nat \<Rightarrow> int" where
  "memcmp (x # xs) (y # ys) (Suc n) =
     (if x < y then -1 else if y < x then 1 else memcmp xs ys n)"
| "memcmp _ _ _ = 0"

definition Slice_size :: "Slice \<Rightarrow> nat" where
  "Slice_size s = length s"

definition Slice_empty :: "Slice \<Rightarrow> bool" where
  "Slice_empty s \<longleftrightarrow> Slice_size s = 0"

definition Slice_remove_prefix :: "Slice \<Rightarrow> nat \<Rightarrow> Slice" where
  "Slice_remove_prefix s n = drop n s"

definition Slice_startsWith :: "Slice \<Rightarrow> Slice \<Rightarrow> bool" where
  "Slice_startsWith s prefix \<longleftrightarrow>
     length prefix \<le> length s \<and> memcmp s prefix (length prefix) = 0"

definition Slice_compare :: "Slice \<Rightarrow> Slice \<Rightarrow> int" where
  "Slice_compare a b =
     (let min_len = (if length a < length b then length a else length b);
          r = memcmp a b min_len
      in if r = 0 then
           (if length a < length b then -1 else if length a > length b then 1 else r)
         else r)"

section \<open>Status\<close>

datatype StatusCode = kOk | kNotFound | kCorruption | kNotSupported | kInvalidArgument | kIOError

record Status =
  status_code :: StatusCode
  status_msg :: bytes

definition Status_Ok :: Status where
  "Status_Ok = \<lparr>status_code = kOk, status_msg = []\<rparr>"

definition Status_NotFound :: "bytes \<Rightarrow> Status" where
  "Status_NotFound msg = \<lparr>status_code = kNotFound, status_msg = msg\<rparr>"

definition Status_Corruption :: "bytes \<Rightarrow> Status" where
  "Status_Corruption msg = \<lparr>status_code = kCorruption, status_msg = msg\<rparr>"

definition Status_NotSupported :: "bytes \<Rightarrow> Status" where
  "Status_NotSupported msg = \<lparr>status_code = kNotSupported, status_msg = msg\<rparr>"

definition Status_InvalidArgument :: "bytes \<Rightarrow> Status" where
  "Status_InvalidArgument msg = \<lparr>status_code = kInvalidArgument, status_msg = msg\<rparr>"

definition Status_IOError :: "bytes \<Rightarrow> Status" where
  "Status_IOError msg = \<lparr>status_code = kIOError, status_msg = msg\<rparr>"

definition Status_ok :: "Status \<Rightarrow> bool" where
  "Status_ok s \<longleftrightarrow> status_code s = kOk"

definition Status_ToString :: "Status \<Rightarrow> bytes" where
  "Status_ToString s =
     (case status_code s of
        kOk \<Rightarrow> str ''OK''
      | kNotFound \<Rightarrow> str ''NotFound: ''
      | kCorruption \<Rightarrow> str ''Corruption: ''
      | kNotSupported \<Rightarrow> str ''NotSupported: ''
      | kInvalidArgument \<Rightarrow> str ''InvalidArgument: ''
      | kIOError \<Rightarrow> str ''IOError: '')
     @ (if status_msg s \<noteq> [] then status_msg s else [])"

section \<open>WriteBatch\<close>

datatype BatchOpType = kPut | kDelete

definition BatchOpType_u8 :: "BatchOpType \<Rightarrow> u8" where
  "BatchOpType_u8 t = (case t of kPut \<Rightarrow> 1 | kDelete \<Rightarrow> 2)"

record BatchOp =
  op_type :: BatchOpType
  op_key :: bytes
  op_value :: bytes

type_synonym WriteBatch = "BatchOp list"

definition WriteBatch_put :: "WriteBatch \<Rightarrow> Slice \<Rightarrow> Slice \<Rightarrow> WriteBatch" where
  "WriteBatch_put ops key value =
     ops @ [\<lparr>op_type = kPut, op_key = key, op_value = value\<rparr>]"

definition WriteBatch_del :: "WriteBatch \<Rightarrow> Slice \<Rightarrow> WriteBatch" where
  "WriteBatch_del ops key =
     ops @ [\<lparr>op_type = kDelete, op_key = key, op_value = []\<rparr>]"

definition WriteBatch_clear :: "WriteBatch \<Rightarrow> WriteBatch" where
  "WriteBatch_clear ops = []"

definition WriteBatch_count :: "WriteBatch \<Rightarrow> nat" where
  "WriteBatch_count ops = length ops"

section \<open>Options\<close>

text \<open>
  The options the engine reads. \<open>bloom_filter_enabled\<close> and \<open>bloom_false_positive_rate\<close>
  are declared by the source and read nowhere.
\<close>

record Options =
  memtable_size :: nat
  block_size :: nat
  lru_cache_capacity :: nat
  max_level :: int
  level0_compaction_trigger :: nat
  wal_sync :: bool
  db_path :: bytes
  opt_compression :: u8

definition Options_default :: Options where
  "Options_default =
     \<lparr>memtable_size = 4 * 1024 * 1024, block_size = 4 * 1024,
      lru_cache_capacity = 8 * 1024 * 1024, max_level = 7,
      level0_compaction_trigger = 4, wal_sync = True, db_path = [],
      opt_compression = 1\<rparr>"

record WriteOptions =
  wopt_sync :: bool

section \<open>Facts\<close>

lemma Status_ok_simps [simp]:
  "Status_ok Status_Ok"
  "\<not> Status_ok (Status_NotFound m)"
  "\<not> Status_ok (Status_Corruption m)"
  "\<not> Status_ok (Status_NotSupported m)"
  "\<not> Status_ok (Status_InvalidArgument m)"
  "\<not> Status_ok (Status_IOError m)"
  by (simp_all add: Status_ok_def Status_Ok_def Status_NotFound_def Status_Corruption_def
      Status_NotSupported_def Status_InvalidArgument_def Status_IOError_def)

lemma Status_ok_eq: "Status_ok s \<Longrightarrow> s = Status_Ok \<or> status_msg s \<noteq> []"
  by (cases s) (auto simp: Status_ok_def Status_Ok_def)

lemma memcmp_0 [simp]: "memcmp a b 0 = 0"
  by (cases a; cases b) auto

lemma Slice_compare_simps [simp]:
  "Slice_compare [] [] = 0"
  "Slice_compare [] (y # ys) = -1"
  "Slice_compare (x # xs) [] = 1"
  "Slice_compare (x # xs) (y # ys) =
     (if x < y then -1 else if y < x then 1 else Slice_compare xs ys)"
  by (auto simp: Slice_compare_def Let_def)

lemma Slice_compare_lex:
  "(Slice_compare a b < 0 \<longleftrightarrow> a < b) \<and> (0 < Slice_compare a b \<longleftrightarrow> b < a)"
proof (induction a arbitrary: b)
  case Nil
  show ?case by (cases b) auto
next
  case (Cons x xs)
  show ?case
    using Cons.IH by (cases b) (auto simp: not_less_iff_gr_or_eq)
qed

lemma Slice_compare_less [simp]: "Slice_compare a b < 0 \<longleftrightarrow> a < b"
  using Slice_compare_lex by blast

lemma Slice_compare_greater [simp]: "0 < Slice_compare a b \<longleftrightarrow> b < a"
  using Slice_compare_lex by blast

interpretation slice_cmp: comparator Slice_compare "\<lambda>s. s" "\<lambda>_. True"
  by unfold_locales simp_all

lemma Slice_compare_eq_0 [simp]: "Slice_compare a b = 0 \<longleftrightarrow> a = b"
  using slice_cmp.cmp_zero by simp

lemma Slice_startsWith_iff: "Slice_startsWith s p \<longleftrightarrow> (\<exists>t. s = p @ t)"
proof (induction p arbitrary: s)
  case Nil
  then show ?case by (simp add: Slice_startsWith_def)
next
  case (Cons x p)
  show ?case
  proof (cases s)
    case Nil
    then show ?thesis by (simp add: Slice_startsWith_def)
  next
    case (Cons y ys)
    with Cons.IH [of ys] show ?thesis
      by (auto simp: Slice_startsWith_def)
  qed
qed

end
