(* ===== verification/Coding.thy ===== *)
theory Coding
  imports Prelude
begin

text \<open>
  The integer codecs of \<open>minikv/src/utils/coding.h\<close>: little-endian fixed 32 and 64 bit
  integers and 7-bit variable-length integers. A \<open>decodeFixed\<close> reads the bytes at the
  front of its buffer; every caller in the model checks or establishes that they exist.
  The lemmas give the widths of the encodings and that every decoder inverts its encoder,
  also with more bytes behind the encoding (collection \<open>codec\<close>).
\<close>

section \<open>Definitions\<close>

definition encodeFixed32 :: "u32 \<Rightarrow> bytes" where
  "encodeFixed32 val =
     [ucast (val AND 0xFF), ucast (drop_bit 8 val AND 0xFF),
      ucast (drop_bit 16 val AND 0xFF), ucast (drop_bit 24 val AND 0xFF)]"

definition encodeFixed64 :: "u64 \<Rightarrow> bytes" where
  "encodeFixed64 val = map (\<lambda>i. ucast (drop_bit (i * 8) val AND 0xFF)) [0..<8]"

definition decodeFixed32 :: "bytes \<Rightarrow> u32" where
  "decodeFixed32 buf =
     ucast (buf ! 0) OR push_bit 8 (ucast (buf ! 1)) OR
     push_bit 16 (ucast (buf ! 2)) OR push_bit 24 (ucast (buf ! 3))"

definition decodeFixed64 :: "bytes \<Rightarrow> u64" where
  "decodeFixed64 buf =
     foldl (\<lambda>result i. result OR push_bit (i * 8) (ucast (buf ! i))) 0 [0..<8]"

function encodeVariant32 :: "bytes \<Rightarrow> u32 \<Rightarrow> bytes" where
  "encodeVariant32 dst val =
     (if 0x80 \<le> val then encodeVariant32 (dst @ [ucast (val OR 0x80)]) (drop_bit 7 val)
      else dst @ [ucast val])"
  by pat_completeness auto

text \<open>Shifting a value of at least 128 right by seven bits makes it smaller.\<close>

lemma unat_drop_bit_7: "unat (drop_bit 7 (v :: u32)) = unat v div 128"
  by (simp only: unat_drop_bit_eq) (simp add: drop_bit_eq_div)

termination encodeVariant32
  by (relation "measure (\<lambda>(dst, val). unat val)")
    (auto simp: unat_drop_bit_7 word_le_nat_alt)

declare encodeVariant32.simps [simp del]

text \<open>
  The decoding loop: \<open>p\<close> are the bytes up to \<open>limit\<close>; the result is the value and the
  number of consumed bytes, \<open>None\<close> where the function returns false.
\<close>

fun decodeVariant32_loop :: "bytes \<Rightarrow> u32 \<Rightarrow> nat \<Rightarrow> nat \<Rightarrow> (u32 \<times> nat) option" where
  "decodeVariant32_loop [] value consumed shift = None"
| "decodeVariant32_loop (c # p) value consumed shift =
     (if 32 \<le> shift then None
      else
        let value' = value OR push_bit shift (ucast (c AND 0x7F))
        in if c AND 0x80 = 0 then Some (value', Suc consumed)
           else decodeVariant32_loop p value' (Suc consumed) (shift + 7))"

definition decodeVariant32 :: "bytes \<Rightarrow> (u32 \<times> nat) option" where
  "decodeVariant32 p = decodeVariant32_loop p 0 0 0"

section \<open>Fixed width\<close>

lemma length_encodeFixed32 [simp]: "length (encodeFixed32 v) = 4"
  by (simp add: encodeFixed32_def)

lemma length_encodeFixed64 [simp]: "length (encodeFixed64 v) = 8"
  by (simp add: encodeFixed64_def)

lemma decodeFixed32_encode_id: "decodeFixed32 (encodeFixed32 v) = v"
proof (rule bit_word_eqI)
  fix n assume "n < LENGTH(32)"
  then consider "n < 8" | "8 \<le> n \<and> n < 16" | "16 \<le> n \<and> n < 24" | "24 \<le> n \<and> n < 32"
    by fastforce
  then show "bit (decodeFixed32 (encodeFixed32 v)) n = bit v n"
    by cases (simp_all add: decodeFixed32_def encodeFixed32_def bit_simps less_diff_conv2)
qed

lemma decodeFixed64_encode_id: "decodeFixed64 (encodeFixed64 v) = v"
proof (rule bit_word_eqI)
  fix n assume "n < LENGTH(64)"
  then consider "n < 8" | "8 \<le> n \<and> n < 16" | "16 \<le> n \<and> n < 24" | "24 \<le> n \<and> n < 32"
    | "32 \<le> n \<and> n < 40" | "40 \<le> n \<and> n < 48" | "48 \<le> n \<and> n < 56" | "56 \<le> n \<and> n < 64"
    by fastforce
  then show "bit (decodeFixed64 (encodeFixed64 v)) n = bit v n"
    by cases (simp_all add: decodeFixed64_def encodeFixed64_def upt_8 bit_simps less_diff_conv2)
qed

text \<open>Only the first four, respectively eight, bytes matter.\<close>

lemma decodeFixed32_append: "4 \<le> length xs \<Longrightarrow> decodeFixed32 (xs @ ys) = decodeFixed32 xs"
  by (auto simp: decodeFixed32_def nth_append)

lemma decodeFixed64_append: "8 \<le> length xs \<Longrightarrow> decodeFixed64 (xs @ ys) = decodeFixed64 xs"
  by (auto simp: decodeFixed64_def nth_append upt_8)

lemma decodeFixed32_encode [simp, codec]: "decodeFixed32 (encodeFixed32 v @ ys) = v"
  by (simp add: decodeFixed32_append decodeFixed32_encode_id)

lemma decodeFixed64_encode [simp, codec]: "decodeFixed64 (encodeFixed64 v @ ys) = v"
  by (simp add: decodeFixed64_append decodeFixed64_encode_id)

lemma decodeFixed_encode_nil [simp, codec]:
  "decodeFixed32 (encodeFixed32 v) = v" "decodeFixed64 (encodeFixed64 w) = w"
  by (rule decodeFixed32_encode_id, rule decodeFixed64_encode_id)

text \<open>Conversely, encoding what was decoded gives the bytes back.\<close>

lemma encodeFixed64_decode:
  assumes "length bs = 8"
  shows "encodeFixed64 (decodeFixed64 bs) = bs"
proof (rule nth_equalityI)
  show "length (encodeFixed64 (decodeFixed64 bs)) = length bs"
    using assms by simp
next
  fix i assume "i < length (encodeFixed64 (decodeFixed64 bs))"
  then have "i < 8" by simp
  then consider "i = 0" | "i = 1" | "i = 2" | "i = 3" | "i = 4" | "i = 5" | "i = 6" | "i = 7"
    by fastforce
  then show "encodeFixed64 (decodeFixed64 bs) ! i = bs ! i"
    by cases (rule bit_word_eqI;
        simp add: encodeFixed64_def decodeFixed64_def upt_8 bit_simps less_diff_conv2;
        (auto dest: bit_imp_le_length)?)+
qed

lemma encodeFixed64_inject [simp]: "encodeFixed64 v = encodeFixed64 w \<longleftrightarrow> v = w"
  by (metis decodeFixed64_encode_id)

section \<open>Variable length\<close>

lemma encodeVariant32_append: "encodeVariant32 (a @ b) v = a @ encodeVariant32 b v"
proof (induction b v rule: encodeVariant32.induct)
  case (1 b v)
  then show ?case
    by (simp add: encodeVariant32.simps [of "a @ b" v] encodeVariant32.simps [of b v])
qed

lemma encodeVariant32_acc: "encodeVariant32 dst v = dst @ encodeVariant32 [] v"
  using encodeVariant32_append [of dst "[]" v] by simp

lemma encodeVariant32_small: "v < 0x80 \<Longrightarrow> encodeVariant32 [] v = [ucast v]"
  by (auto simp: encodeVariant32.simps [of "[]" v])

lemma encodeVariant32_big:
  "0x80 \<le> v \<Longrightarrow> encodeVariant32 [] v = ucast (v OR 0x80) # encodeVariant32 [] (drop_bit 7 v)"
  by (simp add: encodeVariant32.simps [of "[]" v] encodeVariant32_acc [of "[_]"])

lemma bit_128: "bit (128 :: 'a::len word) n \<longleftrightarrow> n = 7 \<and> 7 < LENGTH('a)"
proof -
  have "(128 :: 'a word) = push_bit 7 1" by simp
  then show ?thesis by (simp only: bit_push_bit_iff bit_1_iff) auto
qed

lemma and_127_take_bit: "(x :: 'a::len word) AND 127 = take_bit 7 x"
proof -
  have "(127 :: 'a word) = mask 7" by (simp add: mask_eq_exp_minus_1)
  then show ?thesis by (simp only: take_bit_eq_mask)
qed

text \<open>The low seven bits of a group, and its continuation bit.\<close>

lemma ucast_and_127: "(ucast ((ucast (w :: u32) :: byte) AND 127) :: u32) = take_bit 7 w"
  by (rule bit_word_eqI) (auto simp: and_127_take_bit bit_simps)

lemma bit_or_128: "bit ((v :: u32) OR 128) n \<longleftrightarrow> bit v n \<or> n = 7"
  by (simp only: bit_or_iff bit_128) auto

lemma byte_and_128: "(b :: byte) AND 128 = 0 \<longleftrightarrow> \<not> bit b 7"
proof
  assume "b AND 128 = 0"
  then have "\<not> bit (b AND 128) 7" by simp
  then show "\<not> bit b 7" by (simp only: bit_and_iff bit_128) auto
next
  assume "\<not> bit b 7"
  then show "b AND 128 = 0"
    by (intro bit_word_eqI) (simp only: bit_and_iff bit_128 bit_0_eq bot_apply bot_bool_def, auto)
qed

lemma varint_group_bits:
  "(ucast ((ucast ((v :: u32) OR 128) :: byte) AND 127) :: u32) = take_bit 7 v"
  "(ucast (v OR 128) :: byte) AND 128 \<noteq> 0"
proof -
  have "take_bit 7 (v OR 128) = take_bit 7 v"
    by (rule bit_word_eqI) (simp only: bit_take_bit_iff bit_or_128, auto)
  then show "(ucast ((ucast (v OR 128) :: byte) AND 127) :: u32) = take_bit 7 v"
    by (simp only: ucast_and_127)
  have "bit (ucast (v OR 128) :: byte) 7"
    by (simp only: bit_ucast_iff bit_or_128) simp
  then show "(ucast (v OR 128) :: byte) AND 128 \<noteq> 0"
    by (simp only: byte_and_128) simp
qed

lemma varint_last_bits:
  assumes "(v :: u32) < 0x80"
  shows "(ucast ((ucast v :: byte) AND 127) :: u32) = v" "(ucast v :: byte) AND 128 = 0"
proof -
  have v: "take_bit 7 v = v"
    using assms
    by (simp add: word_unat_eq_iff unsigned_take_bit_eq take_bit_nat_eq_self_iff word_less_nat_alt)
  then show "(ucast ((ucast v :: byte) AND 127) :: u32) = v"
    by (simp only: ucast_and_127)
  have "\<not> bit v 7" by (metis v bit_take_bit_iff less_irrefl)
  then show "(ucast v :: byte) AND 128 = 0"
    by (simp only: byte_and_128 bit_ucast_iff) simp
qed

lemma push_bit_split_7:
  "push_bit s (take_bit 7 (v :: u32)) OR push_bit (s + 7) (drop_bit 7 v) = push_bit s v"
proof (rule bit_word_eqI)
  fix n
  show "bit (push_bit s (take_bit 7 v) OR push_bit (s + 7) (drop_bit 7 v)) n = bit (push_bit s v) n"
    by (cases "s + 7 \<le> n") (auto simp: bit_simps)
qed

text \<open>
  The loop invariant of the round trip: a value below \<open>2 ^ (32 - shift)\<close> still fits, so
  the overflow check of the decoder never fires on an encoder's output.
\<close>

lemma decodeVariant32_loop_encode:
  assumes "shift < 32" and "unat v < 2 ^ (32 - shift)"
  shows "decodeVariant32_loop (encodeVariant32 [] v @ rest) acc n shift =
           Some (acc OR push_bit shift v, n + length (encodeVariant32 [] v))"
  using assms
proof (induction "unat v" arbitrary: v acc n shift rule: less_induct)
  case less
  show ?case
  proof (cases "0x80 \<le> v")
    case False
    then show ?thesis
      using less.prems varint_last_bits [of v]
      by (simp add: encodeVariant32_small not_le)
  next
    case True
    then have v128: "128 \<le> unat v" by (simp add: word_le_nat_alt)
    have shift: "shift + 7 < 32"
    proof (rule ccontr)
      assume "\<not> shift + 7 < 32"
      then have "2 ^ (32 - shift) \<le> (2 :: nat) ^ 7"
        by (intro power_increasing) auto
      with less.prems v128 show False by simp
    qed
    have "32 - shift = 32 - (shift + 7) + 7"
      using shift by simp
    then have "(2 :: nat) ^ (32 - shift) = 2 ^ (32 - (shift + 7)) * 2 ^ 7"
      by (simp only: power_add)
    then have bound: "unat (drop_bit 7 v) < 2 ^ (32 - (shift + 7))"
      using less.prems(2) by (simp add: unat_drop_bit_7 less_mult_imp_div_less)
    have "decodeVariant32_loop (encodeVariant32 [] (drop_bit 7 v) @ rest)
            (acc OR push_bit shift (take_bit 7 v)) (Suc n) (shift + 7) =
          Some ((acc OR push_bit shift (take_bit 7 v)) OR push_bit (shift + 7) (drop_bit 7 v),
                Suc n + length (encodeVariant32 [] (drop_bit 7 v)))"
      using v128 by (intro less.hyps shift bound) (simp add: unat_drop_bit_7)
    then show ?thesis
      using True less.prems(1) varint_group_bits [of v]
      by (simp add: encodeVariant32_big Let_def or.assoc push_bit_split_7)
  qed
qed

lemma decodeVariant32_encode [simp, codec]:
  "decodeVariant32 (encodeVariant32 [] v @ rest) = Some (v, length (encodeVariant32 [] v))"
proof -
  have "unat v < 2 ^ LENGTH(32)" by (rule unsigned_less)
  then show ?thesis
    using decodeVariant32_loop_encode [of 0 v rest 0 0] by (simp add: decodeVariant32_def)
qed

lemma encodeVariant32_nonempty [simp]: "encodeVariant32 [] v \<noteq> []"
  by (subst encodeVariant32.simps) (simp add: encodeVariant32_acc [of "[_]"])

text \<open>A decoded value consumed at least one byte and none beyond the limit.\<close>

lemma decodeVariant32_loop_consumed:
  "decodeVariant32_loop p acc n shift = Some (v, m) \<Longrightarrow> n < m \<and> m \<le> n + length p"
proof (induction p arbitrary: acc n shift)
  case (Cons c p)
  then show ?case
    by (fastforce simp: Let_def split: if_splits)
qed simp

lemma decodeVariant32_consumed:
  "decodeVariant32 p = Some (v, m) \<Longrightarrow> 0 < m \<and> m \<le> length p"
  unfolding decodeVariant32_def by (drule decodeVariant32_loop_consumed) simp

text \<open>At most five groups of seven bits hold 32 bits.\<close>

lemma length_encodeVariant32_bound: "unat v < 2 ^ (7 * k) \<Longrightarrow> 0 < k \<Longrightarrow> length (encodeVariant32 [] v) \<le> k"
proof (induction k arbitrary: v)
  case (Suc k)
  show ?case
  proof (cases "0x80 \<le> v")
    case True
    then have v128: "128 \<le> unat v" by (simp add: word_le_nat_alt)
    with Suc.prems have "0 < k" by (cases k) auto
    moreover have "unat (drop_bit 7 v) < 2 ^ (7 * k)"
      using Suc.prems(1) by (simp add: unat_drop_bit_7 less_mult_imp_div_less power_add mult.commute)
    ultimately show ?thesis
      using Suc.IH True by (simp add: encodeVariant32_big)
  qed (simp add: encodeVariant32_small not_le)
qed simp

end
