(* ===== verification/Protocol.thy ===== *)
theory Protocol
  imports Framed_Log Core_Types Coding
begin

text \<open>
  The wire protocol of MiniKV, \<open>minikv/src/network/protocol.h\<close>, and one client connection,
  \<open>minikv/src/network/connection.{h,cpp}\<close>.

  The headers are packed structs copied to the wire, little-endian on the platforms the code
  builds for. A \<open>Connection\<close> is the record of its buffers and flags; \<open>conn_sent\<close> stands for
  what the kernel accepted from its socket. What \<open>read\<close> and \<open>write\<close> return is an argument of
  the handlers. The request handler is a parameter with a state of its own (the database).

  With a business pool a connection has one request in flight: \<open>conn_job\<close> is the closure
  \<open>tryDispatch\<close> submits, \<open>conn_result\<close> the one the pool thread queues in the event loop. The
  steps of the event loop and of the pool thread interleave freely in \<open>conn_step\<close>.
\<close>

section \<open>protocol.h\<close>

definition kProtocolMagic :: "16 word" where
  "kProtocolMagic = 0x4D4B"

datatype Cmd = Cmd_kPut | Cmd_kGet | Cmd_kDel | Cmd_kScan | Cmd_kBatch | Cmd_kDeleteRange

definition Cmd_u8 :: "Cmd \<Rightarrow> u8" where
  "Cmd_u8 c = (case c of Cmd_kPut \<Rightarrow> 1 | Cmd_kGet \<Rightarrow> 2 | Cmd_kDel \<Rightarrow> 3 | Cmd_kScan \<Rightarrow> 4 | Cmd_kBatch \<Rightarrow> 5
     | Cmd_kDeleteRange \<Rightarrow> 6)"

text \<open>\<open>static_cast<Cmd>\<close> followed by the \<open>switch\<close>: \<open>None\<close> is its \<open>default\<close>.\<close>

definition Cmd_of_u8 :: "u8 \<Rightarrow> Cmd option" where
  "Cmd_of_u8 b =
     (if b = 1 then Some Cmd_kPut else if b = 2 then Some Cmd_kGet else if b = 3 then Some Cmd_kDel
      else if b = 4 then Some Cmd_kScan else if b = 5 then Some Cmd_kBatch else if b = 6 then Some Cmd_kDeleteRange
      else None)"

datatype ResponseStatus = Resp_kOk | Resp_kNotFound | Resp_kError

definition ResponseStatus_u8 :: "ResponseStatus \<Rightarrow> u8" where
  "ResponseStatus_u8 s = (case s of Resp_kOk \<Rightarrow> 0 | Resp_kNotFound \<Rightarrow> 1 | Resp_kError \<Rightarrow> 2)"

record RequestHeader =
  hdr_magic :: "16 word"
  hdr_cmd :: u8
  hdr_key_len :: u32
  hdr_val_len :: u32

record ResponseHeader =
  rsp_magic :: "16 word"
  rsp_status :: u8
  rsp_val_len :: u32

definition store16 :: "16 word \<Rightarrow> bytes" where
  "store16 w = [ucast (w AND 0xFF), ucast (drop_bit 8 w)]"

definition load16 :: "bytes \<Rightarrow> 16 word" where
  "load16 buf = ucast (buf ! 0) OR push_bit 8 (ucast (buf ! 1))"

definition kRequestHeader :: nat where
  "kRequestHeader = 11"

definition RequestHeader_bytes :: "RequestHeader \<Rightarrow> bytes" where
  "RequestHeader_bytes h = store16 (hdr_magic h) @ [hdr_cmd h] @ encodeFixed32 (hdr_key_len h) @ encodeFixed32 (hdr_val_len h)"

text \<open>\<open>reinterpret_cast<const RequestHeader*>\<close> on a buffer of at least eleven bytes.\<close>

definition RequestHeader_at :: "bytes \<Rightarrow> RequestHeader" where
  "RequestHeader_at buf =
     \<lparr>hdr_magic = load16 buf, hdr_cmd = buf ! 2, hdr_key_len = decodeFixed32 (drop 3 buf),
      hdr_val_len = decodeFixed32 (drop 7 buf)\<rparr>"

definition ResponseHeader_bytes :: "ResponseHeader \<Rightarrow> bytes" where
  "ResponseHeader_bytes h = store16 (rsp_magic h) @ [rsp_status h] @ encodeFixed32 (rsp_val_len h)"

definition encode_request :: "u8 \<Rightarrow> Slice \<Rightarrow> Slice \<Rightarrow> bytes" where
  "encode_request cmd key val =
     RequestHeader_bytes \<lparr>hdr_magic = kProtocolMagic, hdr_cmd = cmd, hdr_key_len = size_u32 key, hdr_val_len = size_u32 val\<rparr> @
     key @ val"

definition encodeRequest :: "Cmd \<Rightarrow> Slice \<Rightarrow> Slice \<Rightarrow> bytes" where
  "encodeRequest cmd key val = encode_request (Cmd_u8 cmd) key val"

definition encodeResponse :: "ResponseStatus \<Rightarrow> Slice \<Rightarrow> bytes" where
  "encodeResponse status val =
     ResponseHeader_bytes \<lparr>rsp_magic = kProtocolMagic, rsp_status = ResponseStatus_u8 status, rsp_val_len = size_u32 val\<rparr> @ val"

section \<open>Connection\<close>

record Connection =
  conn_pooled :: bool
  conn_read_buf :: bytes
  conn_write_buf :: bytes
  conn_close :: bool
  conn_in_flight :: bool
  conn_sent :: bytes
  conn_job :: "bytes option"
  conn_result :: "bytes option"

definition Connection_new :: "bool \<Rightarrow> Connection" where
  "Connection_new pooled =
     \<lparr>conn_pooled = pooled, conn_read_buf = [], conn_write_buf = [], conn_close = False, conn_in_flight = False,
      conn_sent = [], conn_job = None, conn_result = None\<rparr>"

definition markClosed :: "Connection \<Rightarrow> Connection" where
  "markClosed c = c\<lparr>conn_close := True\<rparr>"

definition shouldClose :: "Connection \<Rightarrow> bool" where
  "shouldClose c = conn_close c"

text \<open>
  \<open>onWritable\<close>: the loop over \<open>write\<close>. The list holds the return values of the calls; a
  call that returns further than it was given does not exist, and the kernel blocks
  (\<open>EAGAIN\<close>) when the list is used up.
\<close>

fun write_loop :: "int list \<Rightarrow> bytes \<Rightarrow> bytes \<Rightarrow> bytes \<times> bytes" where
  "write_loop [] sent buf = (sent, buf)"
| "write_loop (n # ns) sent buf =
     (if buf = [] then (sent, buf)
      else if n > 0 then write_loop ns (sent @ take (nat n) buf) (drop (nat n) buf)
      else (sent, buf))"

definition onWritable :: "int list \<Rightarrow> Connection \<Rightarrow> Connection" where
  "onWritable ns c =
     (case write_loop ns (conn_sent c) (conn_write_buf c) of (sent, buf) \<Rightarrow> c\<lparr>conn_sent := sent, conn_write_buf := buf\<rparr>)"

definition total_size :: "bytes \<Rightarrow> nat" where
  "total_size buf =
     (let hdr = RequestHeader_at buf in kRequestHeader + unat (hdr_key_len hdr) + unat (hdr_val_len hdr))"

text \<open>
  The request loop of \<open>onReadable\<close> without a pool. The result is the handler's state, the
  two buffers and whether a bad magic number closed the connection and left the function.
\<close>

function serve_loop :: "('s \<Rightarrow> bytes \<Rightarrow> 's \<times> bytes) \<Rightarrow> 's \<Rightarrow> bytes \<Rightarrow> bytes \<Rightarrow> 's \<times> bytes \<times> bytes \<times> bool" where
  "serve_loop handler st buf out =
     (if length buf < kRequestHeader then (st, buf, out, False)
      else if hdr_magic (RequestHeader_at buf) \<noteq> kProtocolMagic then (st, buf, out, True)
      else if length buf < total_size buf then (st, buf, out, False)
      else
        case handler st (take (total_size buf) buf) of (st, response) \<Rightarrow>
          serve_loop handler st (drop (total_size buf) buf) (out @ response))"
  by pat_completeness auto
termination
  by (relation "measure (\<lambda>(handler, st, buf, out). length buf)")
    (auto simp: total_size_def kRequestHeader_def Let_def)

declare serve_loop.simps [simp del]

definition tryDispatch :: "Connection \<Rightarrow> Connection" where
  "tryDispatch c =
     (if conn_close c \<or> conn_in_flight c \<or> \<not> conn_pooled c then c
      else
        let buf = conn_read_buf c in
        if length buf < kRequestHeader then c
        else if hdr_magic (RequestHeader_at buf) \<noteq> kProtocolMagic then c\<lparr>conn_close := True\<rparr>
        else if length buf < total_size buf then c
        else c\<lparr>conn_read_buf := drop (total_size buf) buf, conn_in_flight := True,
               conn_job := Some (take (total_size buf) buf)\<rparr>)"

text \<open>What \<open>read\<close> returned: bytes, the end of the stream, an error to retry, another error.\<close>

datatype read_result = ReadBytes bytes | ReadEof | ReadAgain | ReadError

definition onReadable :: "('s \<Rightarrow> bytes \<Rightarrow> 's \<times> bytes) \<Rightarrow> read_result \<Rightarrow> int list \<Rightarrow> 's \<Rightarrow> Connection \<Rightarrow> 's \<times> Connection" where
  "onReadable handler r ns st c =
     (case r of
        ReadAgain \<Rightarrow> (st, c)
      | ReadError \<Rightarrow> (st, c\<lparr>conn_close := True\<rparr>)
      | ReadEof \<Rightarrow> (st, c\<lparr>conn_close := True\<rparr>)
      | ReadBytes data \<Rightarrow>
          let c = c\<lparr>conn_read_buf := conn_read_buf c @ data\<rparr> in
          if conn_pooled c then (st, tryDispatch c)
          else
            case serve_loop handler st (conn_read_buf c) (conn_write_buf c) of
              (st, buf, out, bad) \<Rightarrow>
                let c = c\<lparr>conn_read_buf := buf, conn_write_buf := out\<rparr> in
                if bad then (st, c\<lparr>conn_close := True\<rparr>)
                else (st, if out \<noteq> [] then onWritable ns c else c))"

text \<open>The closure the pool thread runs, and the closure it queues in the event loop.\<close>

definition pool_run :: "('s \<Rightarrow> bytes \<Rightarrow> 's \<times> bytes) \<Rightarrow> 's \<Rightarrow> Connection \<Rightarrow> 's \<times> Connection" where
  "pool_run handler st c =
     (case conn_job c of
        None \<Rightarrow> (st, c)
      | Some raw \<Rightarrow>
          (case (if \<not> conn_close c then handler st raw else (st, [])) of (st, response) \<Rightarrow>
             (st, c\<lparr>conn_job := None, conn_result := Some response\<rparr>)))"

definition loop_finish :: "int list \<Rightarrow> Connection \<Rightarrow> Connection" where
  "loop_finish ns c =
     (case conn_result c of
        None \<Rightarrow> c
      | Some response \<Rightarrow>
          let c = c\<lparr>conn_result := None\<rparr>;
              c = (if \<not> conn_close c then onWritable ns (c\<lparr>conn_write_buf := conn_write_buf c @ response\<rparr>) else c);
              c = c\<lparr>conn_in_flight := False\<rparr>
          in if \<not> conn_close c then tryDispatch c else c)"

section \<open>Frames of the request stream\<close>

lemma store16_load: "load16 (store16 w @ rest) = w"
  by (rule bit_word_eqI) (auto simp: load16_def store16_def bit_simps)

lemma length_store16 [simp]: "length (store16 w) = 2"
  by (simp add: store16_def)

lemma length_RequestHeader_bytes [simp]: "length (RequestHeader_bytes h) = kRequestHeader"
  by (simp add: RequestHeader_bytes_def kRequestHeader_def)

lemma RequestHeader_at_bytes [simp]: "RequestHeader_at (RequestHeader_bytes h @ rest) = h"
proof -
  have "store16 w = [store16 w ! 0, store16 w ! 1]" for w by (simp add: store16_def)
  then have "RequestHeader_bytes h @ rest = store16 (hdr_magic h) ! 0 # store16 (hdr_magic h) ! 1 # hdr_cmd h #
      encodeFixed32 (hdr_key_len h) @ encodeFixed32 (hdr_val_len h) @ rest"
    unfolding RequestHeader_bytes_def by (metis append.assoc append_Cons append_Nil)
  moreover have "load16 (RequestHeader_bytes h @ rest) = hdr_magic h"
    unfolding RequestHeader_bytes_def append.assoc by (rule store16_load)
  ultimately show ?thesis by (simp add: RequestHeader_at_def)
qed

text \<open>A header only depends on the first eleven bytes.\<close>

lemma RequestHeader_at_append: "kRequestHeader \<le> length buf \<Longrightarrow> RequestHeader_at (buf @ further) = RequestHeader_at buf"
  by (auto simp: RequestHeader_at_def load16_def decodeFixed32_def nth_append kRequestHeader_def)

lemma total_size_append: "kRequestHeader \<le> length buf \<Longrightarrow> total_size (buf @ further) = total_size buf"
  by (simp add: total_size_def RequestHeader_at_append)

text \<open>One complete request, and a buffer that holds the beginning of one.\<close>

definition whole_request :: "bytes \<Rightarrow> bool" where
  "whole_request raw \<longleftrightarrow> kRequestHeader \<le> length raw \<and> hdr_magic (RequestHeader_at raw) = kProtocolMagic \<and> length raw = total_size raw"

definition partial_request :: "bytes \<Rightarrow> bool" where
  "partial_request buf \<longleftrightarrow>
     length buf < kRequestHeader \<or> hdr_magic (RequestHeader_at buf) = kProtocolMagic \<and> length buf < total_size buf"

lemma encode_request_whole:
  assumes "length key < 2 ^ 32" "length val < 2 ^ 32"
  shows "whole_request (encode_request cmd key val)"
  using assms by (simp add: whole_request_def encode_request_def total_size_def unat_size_u32)

lemma whole_take:
  assumes "kRequestHeader \<le> length buf" "hdr_magic (RequestHeader_at buf) = kProtocolMagic" "total_size buf \<le> length buf"
  shows "whole_request (take (total_size buf) buf)"
proof -
  have k: "kRequestHeader \<le> total_size buf" by (simp add: total_size_def Let_def)
  let ?a = "take (total_size buf) buf" and ?b = "drop (total_size buf) buf"
  have "buf = ?a @ ?b" "kRequestHeader \<le> length ?a" using k assms by simp_all
  then have "RequestHeader_at buf = RequestHeader_at ?a" "total_size buf = total_size ?a"
    using RequestHeader_at_append total_size_append by metis+
  with k assms show ?thesis by (simp add: whole_request_def)
qed

lemma whole_front:
  assumes "whole_request raw"
  shows "kRequestHeader \<le> length (raw @ further)" "hdr_magic (RequestHeader_at (raw @ further)) = kProtocolMagic"
    "total_size (raw @ further) = length raw"
  using assms by (auto simp: whole_request_def RequestHeader_at_append total_size_append)

lemma partial_torn:
  assumes "whole_request raw" "n < length raw"
  shows "partial_request (take n raw)"
proof (cases "kRequestHeader \<le> n")
  case True
  then have "RequestHeader_at (take n raw) = RequestHeader_at raw" "total_size (take n raw) = total_size raw"
    using RequestHeader_at_append [of "take n raw" "drop n raw"] total_size_append [of "take n raw" "drop n raw"] assms by simp_all
  with assms show ?thesis by (simp add: partial_request_def whole_request_def)
qed (use assms in \<open>simp add: partial_request_def\<close>)

text \<open>The reader of the stream as a log of frames.\<close>

definition request_decode :: "bytes \<Rightarrow> (bytes \<times> bytes) option" where
  "request_decode buf =
     (if length buf < kRequestHeader \<or> hdr_magic (RequestHeader_at buf) \<noteq> kProtocolMagic \<or> length buf < total_size buf then None
      else Some (take (total_size buf) buf, drop (total_size buf) buf))"

function request_parse :: "bytes \<Rightarrow> bytes list" where
  "request_parse buf = (case request_decode buf of None \<Rightarrow> [] | Some (r, rest) \<Rightarrow> r # request_parse rest)"
  by pat_completeness auto
termination
  by (relation "measure length")
    (auto simp: request_decode_def total_size_def kRequestHeader_def Let_def split: if_splits)

declare request_parse.simps [simp del]

interpretation requests: framed_log "\<lambda>raw. raw" whole_request request_decode request_parse
proof
  show "request_decode (r @ input) = Some (r, input)" if "whole_request r" for r input
    using whole_front [OF that, of input] by (simp add: request_decode_def)
  show "request_decode (take n r) = None" if "whole_request r" "n < length r" for r n
    using partial_torn [OF that] by (auto simp: request_decode_def partial_request_def)
  show "request_decode [] = None" by (simp add: request_decode_def kRequestHeader_def)
  show "request_parse input = (case request_decode input of None \<Rightarrow> [] | Some (r, input) \<Rightarrow> r # request_parse input)" for input
    by (rule request_parse.simps)
qed

section \<open>Without a pool\<close>

text \<open>The reference: the handler runs over the requests one after the other.\<close>

fun run_requests :: "('s \<Rightarrow> bytes \<Rightarrow> 's \<times> bytes) \<Rightarrow> 's \<Rightarrow> bytes list \<Rightarrow> 's \<times> bytes" where
  "run_requests handler st [] = (st, [])"
| "run_requests handler st (raw # raws) =
     (case handler st raw of (st, response) \<Rightarrow>
        case run_requests handler st raws of (st, out) \<Rightarrow> (st, response @ out))"

lemma run_requests_append:
  "run_requests handler st (as @ bs) =
     (case run_requests handler st as of (st, out) \<Rightarrow> case run_requests handler st bs of (st, out') \<Rightarrow> (st, out @ out'))"
  by (induction as arbitrary: st) (auto split: prod.split)

lemma serve_partial: "partial_request buf \<Longrightarrow> serve_loop handler st buf out = (st, buf, out, False)"
  by (subst serve_loop.simps) (auto simp: partial_request_def)

lemma serve_whole:
  assumes "whole_request raw"
  shows "serve_loop handler st (raw @ further) out = (case handler st raw of (st, response) \<Rightarrow> serve_loop handler st further (out @ response))"
  by (subst serve_loop.simps) (use whole_front [OF assms, of further] in \<open>simp add: not_less\<close>)

lemma serve_requests:
  assumes "list_all whole_request raws" "partial_request further"
  shows "serve_loop handler st (concat raws @ further) out =
    (fst (run_requests handler st raws), further, out @ snd (run_requests handler st raws), False)"
  using assms
proof (induction raws arbitrary: st out)
  case Nil
  then show ?case by (simp add: serve_partial)
next
  case (Cons raw raws)
  then show ?case by (auto simp: serve_whole split: prod.split)
qed

text \<open>Writing: what the kernel accepted and what waits are together what was to be sent.\<close>

lemma write_loop_keeps: "write_loop ns sent buf = (sent', buf') \<Longrightarrow> sent' @ buf' = sent @ buf \<and> (\<exists>k. sent' = sent @ take k buf)"
proof (induction ns sent buf arbitrary: sent' buf' rule: write_loop.induct)
  case (1 sent buf)
  then show ?case by (auto intro: exI [of _ 0])
next
  case (2 n ns sent buf)
  show ?case
  proof (cases "buf = [] \<or> n \<le> 0")
    case True
    then show ?thesis using "2.prems" by (auto intro: exI [of _ 0] split: if_splits)
  next
    case False
    then have IH: "sent' @ buf' = (sent @ take (nat n) buf) @ drop (nat n) buf"
      "\<exists>k. sent' = (sent @ take (nat n) buf) @ take k (drop (nat n) buf)"
      using "2.IH" [of sent' buf'] "2.prems" by auto
    then obtain k where "sent' = sent @ take (nat n + k) buf" by (auto simp: take_add)
    with IH(1) show ?thesis by auto
  qed
qed

lemma onWritable_keeps:
  "conn_sent (onWritable ns c) @ conn_write_buf (onWritable ns c) = conn_sent c @ conn_write_buf c"
  "conn_read_buf (onWritable ns c) = conn_read_buf c" "conn_close (onWritable ns c) = conn_close c"
  "conn_pooled (onWritable ns c) = conn_pooled c" "conn_in_flight (onWritable ns c) = conn_in_flight c"
  "conn_job (onWritable ns c) = conn_job c" "conn_result (onWritable ns c) = conn_result c"
  using write_loop_keeps [of ns "conn_sent c" "conn_write_buf c"]
  by (auto simp: onWritable_def split: prod.split)

text \<open>A connection that reads chunk after chunk.\<close>

fun feed :: "('s \<Rightarrow> bytes \<Rightarrow> 's \<times> bytes) \<Rightarrow> (bytes \<times> int list) list \<Rightarrow> 's \<Rightarrow> Connection \<Rightarrow> 's \<times> Connection" where
  "feed handler [] st c = (st, c)"
| "feed handler ((data, ns) # chunks) st c =
     (case onReadable handler (ReadBytes data) ns st c of (st, c) \<Rightarrow> feed handler chunks st c)"

lemma onReadable_serves:
  assumes "\<not> conn_pooled c" "serve_loop handler st (conn_read_buf c @ data) (conn_write_buf c) = (st1, buf1, out1, False)"
  shows "\<exists>c'. onReadable handler (ReadBytes data) ns st c = (st1, c') \<and> conn_read_buf c' = buf1 \<and>
    conn_sent c' @ conn_write_buf c' = conn_sent c @ out1 \<and> conn_close c' = conn_close c \<and> \<not> conn_pooled c'"
proof -
  let ?c = "c\<lparr>conn_read_buf := buf1, conn_write_buf := out1\<rparr>"
  have "onReadable handler (ReadBytes data) ns st c = (st1, if out1 \<noteq> [] then onWritable ns ?c else ?c)"
    using assms by (simp add: onReadable_def Let_def)
  then show ?thesis using assms(1) onWritable_keeps [of ns ?c] by (cases "out1 = []") simp_all
qed

lemma partial_prefix: "partial_request (a @ b) \<Longrightarrow> partial_request a"
  by (cases "kRequestHeader \<le> length a")
    (auto simp: partial_request_def RequestHeader_at_append total_size_append)

text \<open>A part of a stream of requests ends within one of them.\<close>

lemma stream_split:
  assumes "buf @ rest = concat raws @ tail" "list_all whole_request raws" "partial_request tail"
  shows "\<exists>n part. n \<le> length raws \<and> buf = concat (take n raws) @ part \<and> partial_request part \<and>
    part @ rest = concat (drop n raws) @ tail"
  using assms
proof (induction raws arbitrary: buf)
  case Nil
  then show ?case using partial_prefix [of buf rest] by (intro exI [of _ 0] exI [of _ buf]) simp
next
  case (Cons raw raws)
  show ?case
  proof (cases "length raw \<le> length buf")
    case True
    let ?buf = "drop (length raw) buf"
    have "take (length raw) buf = raw" "?buf @ rest = concat raws @ tail"
      using arg_cong [OF Cons.prems(1), of "take (length raw)"] arg_cong [OF Cons.prems(1), of "drop (length raw)"] True by simp_all
    then obtain buf' where b: "buf = raw @ buf'" "buf' @ rest = concat raws @ tail"
      by (metis append_take_drop_id)
    then obtain n part where "n \<le> length raws" "buf' = concat (take n raws) @ part" "partial_request part"
      "part @ rest = concat (drop n raws) @ tail"
      using Cons.IH [OF b(2)] Cons.prems by auto
    then show ?thesis using b by (intro exI [of _ "Suc n"] exI [of _ part]) simp
  next
    case False
    then have "buf = take (length buf) raw" using arg_cong [OF Cons.prems(1), of "take (length buf)"] by simp
    then have "partial_request buf" using partial_torn [of raw "length buf"] False Cons.prems(2) by simp
    then show ?thesis using Cons.prems(1) by (intro exI [of _ 0] exI [of _ buf]) simp
  qed
qed

text \<open>
  However the stream is cut into chunks and however the kernel takes the answers: the
  handler sees the requests one after the other and the answers leave in their order.
\<close>

theorem feed_requests:
  assumes "conn_read_buf c @ concat (map fst chunks) = concat raws @ tail" "list_all whole_request raws" "partial_request tail"
    "\<not> conn_pooled c" "partial_request (conn_read_buf c)"
  shows "\<exists>c'. feed handler chunks st c = (fst (run_requests handler st raws), c') \<and> conn_read_buf c' = tail \<and>
    conn_sent c' @ conn_write_buf c' = conn_sent c @ conn_write_buf c @ snd (run_requests handler st raws) \<and>
    conn_close c' = conn_close c"
  using assms
proof (induction chunks arbitrary: st c raws)
  case Nil
  have "raws = []"
  proof (cases raws)
    case (Cons raw raws')
    then have "partial_request raw" using Nil.prems(1,5) partial_prefix [of raw "concat raws' @ tail"] by simp
    moreover have "whole_request raw" using Nil.prems(2) Cons by simp
    ultimately show ?thesis by (auto simp: partial_request_def whole_request_def)
  qed
  with Nil.prems show ?case by simp
next
  case (Cons chunk chunks)
  obtain data ns where ch: "chunk = (data, ns)" by fastforce
  have "(conn_read_buf c @ data) @ concat (map fst chunks) = concat raws @ tail" using Cons.prems(1) ch by simp
  from stream_split [OF this Cons.prems(2,3)] obtain n part where n: "n \<le> length raws"
    "conn_read_buf c @ data = concat (take n raws) @ part" "partial_request part"
    "part @ concat (map fst chunks) = concat (drop n raws) @ tail" by blast
  have all: "list_all whole_request (take n raws)" "list_all whole_request (drop n raws)"
    using Cons.prems(2) by (metis append_take_drop_id list_all_append)+
  let ?r = "run_requests handler st (take n raws)"
  have serve: "serve_loop handler st (conn_read_buf c @ data) (conn_write_buf c) = (fst ?r, part, conn_write_buf c @ snd ?r, False)"
    unfolding n(2) by (rule serve_requests [OF all(1) n(3)])
  obtain c1 where c1: "onReadable handler (ReadBytes data) ns st c = (fst ?r, c1)" "conn_read_buf c1 = part"
    "conn_sent c1 @ conn_write_buf c1 = conn_sent c @ conn_write_buf c @ snd ?r" "conn_close c1 = conn_close c" "\<not> conn_pooled c1"
    using onReadable_serves [OF Cons.prems(4) serve] by auto
  have "conn_read_buf c1 @ concat (map fst chunks) = concat (drop n raws) @ tail" using n(4) c1(2) by simp
  from Cons.IH [OF this all(2) Cons.prems(3) c1(5), of "fst ?r"] n(3) c1(2) obtain c' where c': "feed handler chunks (fst ?r) c1 =
      (fst (run_requests handler (fst ?r) (drop n raws)), c')" "conn_read_buf c' = tail"
    "conn_sent c' @ conn_write_buf c' = conn_sent c1 @ conn_write_buf c1 @ snd (run_requests handler (fst ?r) (drop n raws))"
    "conn_close c' = conn_close c1" by blast
  have "run_requests handler st raws = (fst (run_requests handler (fst ?r) (drop n raws)), snd ?r @ snd (run_requests handler (fst ?r) (drop n raws)))"
    using run_requests_append [of handler st "take n raws" "drop n raws"] by (simp split: prod.splits)
  with c' c1 ch show ?case by simp
qed

section \<open>With a pool\<close>

text \<open>
  The connection with its pool thread and event loop; the ghost fields hold the bytes received
  and the requests handled.
\<close>

record 's conn_sys =
  cs_state :: 's
  cs_conn :: Connection
  cs_stream :: bytes
  cs_handled :: "bytes list"

inductive conn_step :: "('s \<Rightarrow> bytes \<Rightarrow> 's \<times> bytes) \<Rightarrow> 's conn_sys \<Rightarrow> 's conn_sys \<Rightarrow> bool" for handler where
  readable: "\<not> conn_close (cs_conn s) \<Longrightarrow>
    onReadable handler r ns (cs_state s) (cs_conn s) = (st, c) \<Longrightarrow>
    conn_step handler s (s\<lparr>cs_state := st, cs_conn := c,
      cs_stream := cs_stream s @ (case r of ReadBytes data \<Rightarrow> data | _ \<Rightarrow> [])\<rparr>)"
| run: "conn_job (cs_conn s) = Some raw \<Longrightarrow> pool_run handler (cs_state s) (cs_conn s) = (st, c) \<Longrightarrow>
    conn_step handler s (s\<lparr>cs_state := st, cs_conn := c,
      cs_handled := cs_handled s @ (if conn_close (cs_conn s) then [] else [raw])\<rparr>)"
| finish: "conn_result (cs_conn s) = Some response \<Longrightarrow>
    conn_step handler s (s\<lparr>cs_conn := loop_finish ns (cs_conn s)\<rparr>)"
| close: "conn_step handler s (s\<lparr>cs_conn := markClosed (cs_conn s)\<rparr>)"

definition opt_bytes :: "bytes option \<Rightarrow> bytes" where
  "opt_bytes x = (case x of None \<Rightarrow> [] | Some b \<Rightarrow> b)"

definition flight_ok :: "Connection \<Rightarrow> bool" where
  "flight_ok c \<longleftrightarrow> conn_pooled c \<and> (conn_in_flight c \<longleftrightarrow> conn_job c \<noteq> None \<or> conn_result c \<noteq> None) \<and>
     (conn_job c = None \<or> conn_result c = None) \<and> (\<forall>raw. conn_job c = Some raw \<longrightarrow> whole_request raw)"

definition conn_inv :: "('s \<Rightarrow> bytes \<Rightarrow> 's \<times> bytes) \<Rightarrow> 's \<Rightarrow> 's conn_sys \<Rightarrow> bool" where
  "conn_inv handler st0 s \<longleftrightarrow>
     (let c = cs_conn s; out = snd (run_requests handler st0 (cs_handled s)) in
      flight_ok c \<and> list_all whole_request (cs_handled s) \<and> cs_state s = fst (run_requests handler st0 (cs_handled s)) \<and>
      (if conn_close c
       then (\<exists>rest. cs_stream s = concat (cs_handled s) @ rest) \<and> (\<exists>rest. out = conn_sent c @ conn_write_buf c @ rest)
       else cs_stream s = concat (cs_handled s) @ opt_bytes (conn_job c) @ conn_read_buf c \<and>
         out = conn_sent c @ conn_write_buf c @ opt_bytes (conn_result c)))"

lemma tryDispatch_flight:
  assumes "flight_ok c"
  shows "flight_ok (tryDispatch c)" "conn_close c \<Longrightarrow> tryDispatch c = c"
    "opt_bytes (conn_job (tryDispatch c)) @ conn_read_buf (tryDispatch c) = opt_bytes (conn_job c) @ conn_read_buf c"
    "conn_sent (tryDispatch c) = conn_sent c" "conn_write_buf (tryDispatch c) = conn_write_buf c"
    "conn_result (tryDispatch c) = conn_result c"
  using assms whole_take [of "conn_read_buf c"]
  by (auto simp: tryDispatch_def flight_ok_def Let_def opt_bytes_def not_less)

lemma conn_invI:
  assumes "flight_ok (cs_conn s)" "list_all whole_request (cs_handled s)" "cs_state s = fst (run_requests handler st0 (cs_handled s))"
    "cs_stream s = concat (cs_handled s) @ opt_bytes (conn_job (cs_conn s)) @ conn_read_buf (cs_conn s)"
    "snd (run_requests handler st0 (cs_handled s)) =
      conn_sent (cs_conn s) @ conn_write_buf (cs_conn s) @ opt_bytes (conn_result (cs_conn s))"
  shows "conn_inv handler st0 s"
  using assms by (auto simp: conn_inv_def Let_def)

lemma conn_step_inv:
  assumes "conn_step handler s s'" "conn_inv handler st0 s"
  shows "conn_inv handler st0 s'"
  using assms
proof (induction rule: conn_step.induct)
  case (readable s r ns st c)
  let ?c = "cs_conn s"
  have i: "flight_ok ?c" "list_all whole_request (cs_handled s)" "cs_state s = fst (run_requests handler st0 (cs_handled s))"
    "cs_stream s = concat (cs_handled s) @ opt_bytes (conn_job ?c) @ conn_read_buf ?c"
    "snd (run_requests handler st0 (cs_handled s)) = conn_sent ?c @ conn_write_buf ?c @ opt_bytes (conn_result ?c)"
    using readable(1,3) by (auto simp: conn_inv_def Let_def)
  show ?case
  proof (cases r)
    case (ReadBytes data)
    let ?d = "?c\<lparr>conn_read_buf := conn_read_buf ?c @ data\<rparr>"
    have f: "flight_ok ?d" using i(1) by (simp add: flight_ok_def)
    have r: "st = cs_state s" "c = tryDispatch ?d" using readable(2) i(1) ReadBytes by (auto simp: onReadable_def flight_ok_def)
    note t = tryDispatch_flight [OF f]
    have "cs_stream s @ data = concat (cs_handled s) @ opt_bytes (conn_job c) @ conn_read_buf c"
      using t(3) i(4) by (simp add: r)
    moreover have "snd (run_requests handler st0 (cs_handled s)) = conn_sent c @ conn_write_buf c @ opt_bytes (conn_result c)"
      using t(4-6) i(5) by (simp add: r)
    ultimately show ?thesis using t(1) i(2,3) ReadBytes r by (intro conn_invI) simp_all
  qed (use readable(2) i in \<open>auto simp: onReadable_def conn_inv_def flight_ok_def Let_def\<close>)
next
  case (run s raw st c)
  then show ?case
    by (auto simp: conn_inv_def pool_run_def flight_ok_def opt_bytes_def run_requests_append Let_def split: if_splits prod.splits)
next
  case (finish s response ns)
  let ?c = "cs_conn s" and ?out = "snd (run_requests handler st0 (cs_handled s))"
  have i: "flight_ok ?c" "list_all whole_request (cs_handled s)" "cs_state s = fst (run_requests handler st0 (cs_handled s))"
    using finish(2) by (auto simp: conn_inv_def Let_def)
  have job: "conn_job ?c = None" using i(1) finish(1) by (auto simp: flight_ok_def)
  show ?case
  proof (cases "conn_close ?c")
    case True
    then have "loop_finish ns ?c = ?c\<lparr>conn_result := None, conn_in_flight := False\<rparr>"
      using finish(1) by (simp add: loop_finish_def Let_def)
    moreover have "flight_ok (?c\<lparr>conn_result := None, conn_in_flight := False\<rparr>)" using i(1) job by (simp add: flight_ok_def)
    ultimately show ?thesis using finish(2) True by (simp add: conn_inv_def Let_def)
  next
    case False
    have o: "cs_stream s = concat (cs_handled s) @ conn_read_buf ?c" "?out = conn_sent ?c @ conn_write_buf ?c @ response"
      using finish False job by (simp_all add: conn_inv_def Let_def opt_bytes_def)
    let ?b = "?c\<lparr>conn_result := None, conn_write_buf := conn_write_buf ?c @ response\<rparr>"
    let ?d = "(onWritable ns ?b)\<lparr>conn_in_flight := False\<rparr>"
    note w = onWritable_keeps [of ns ?b]
    have fin: "loop_finish ns ?c = tryDispatch ?d" using finish(1) False w(3) by (simp add: loop_finish_def Let_def)
    have f: "flight_ok ?d" using i(1) w job by (simp add: flight_ok_def)
    note t = tryDispatch_flight [OF f]
    have "conn_sent (tryDispatch ?d) @ conn_write_buf (tryDispatch ?d) @ opt_bytes (conn_result (tryDispatch ?d)) = ?out"
      using t(4-6) w(1,7) o(2) by (simp add: opt_bytes_def)
    moreover have "opt_bytes (conn_job (tryDispatch ?d)) @ conn_read_buf (tryDispatch ?d) = conn_read_buf ?c"
      using t(3) w(2,6) job by (simp add: opt_bytes_def)
    ultimately show ?thesis using t(1) i(2,3) o(1) fin by (intro conn_invI) simp_all
  qed
next
  case (close s)
  then show ?case by (auto simp: conn_inv_def markClosed_def flight_ok_def Let_def split: if_splits)
qed

lemma conn_inv_new: "conn_inv handler st0 \<lparr>cs_state = st0, cs_conn = Connection_new True, cs_stream = [], cs_handled = []\<rparr>"
  by (rule conn_invI) (simp_all add: Connection_new_def flight_ok_def opt_bytes_def)

text \<open>Complete requests at the front of a stream of requests are its first ones.\<close>

lemma whole_prefix:
  assumes "concat hs @ rest = concat raws @ tail" "list_all whole_request hs" "list_all whole_request raws" "partial_request tail"
  shows "\<exists>n. hs = take n raws"
proof -
  have "request_parse (concat hs @ rest) = hs @ request_parse rest"
    using requests.parse_frames [OF assms(2), of rest] by simp
  moreover have "request_parse (concat raws @ tail) = raws"
    using requests.parse_frames [OF assms(3), of tail] assms(4)
    by (subst (asm) (2) request_parse.simps) (auto simp: request_decode_def partial_request_def)
  ultimately have "raws = hs @ request_parse rest" using assms(1) by simp
  then show ?thesis by (intro exI [of _ "length hs"]) simp
qed

theorem pooled_requests:
  assumes "(conn_step handler)\<^sup>*\<^sup>* \<lparr>cs_state = st0, cs_conn = Connection_new True, cs_stream = [], cs_handled = []\<rparr> s"
    "cs_stream s = concat raws @ tail" "list_all whole_request raws" "partial_request tail"
  shows "\<exists>n rest. cs_handled s = take n raws \<and> cs_state s = fst (run_requests handler st0 (take n raws)) \<and>
    snd (run_requests handler st0 (take n raws)) = conn_sent (cs_conn s) @ rest"
proof -
  have inv: "conn_inv handler st0 s"
    using assms(1) by (induction rule: rtranclp_induct) (auto intro: conn_inv_new conn_step_inv)
  then have "list_all whole_request (cs_handled s)" "\<exists>rest. cs_stream s = concat (cs_handled s) @ rest"
    by (auto simp: conn_inv_def Let_def split: if_splits)
  then obtain n where n: "cs_handled s = take n raws" using whole_prefix assms(2-4) by metis
  with inv show ?thesis by (auto simp: conn_inv_def Let_def split: if_splits)
qed

end
