(* ===== verification/Reactor.thy ===== *)
theory Reactor
  imports Core_Types "HOL-Library.AList"
begin

text \<open>
  The reactor of MiniKV, \<open>minikv/src/network/event_loop.{h,cpp}\<close>, and the pool of sub
  reactors, \<open>event_loop_thread.{h,cpp}\<close>. An \<open>EventLoop\<close> is its callback table, the
  registrations epoll holds, the queue of pending functors and the running flag. Callbacks and
  functors are values of a type parameter; what running one does is a parameter of the loop: a
  change of the program's state and a list of calls back into the loop. What \<open>epoll_wait\<close>
  reports is an argument. The eventfd only interrupts \<open>epoll_wait\<close>, so \<open>wakeup\<close> has no
  effect on the state; threads are left out, a pool is its list of loops.

  The lemmas show that a queued functor runs exactly once and in the order of the queue, also
  when functors queue more functors, that a callback that was removed is not called any more,
  even by an event of the same batch, and that \<open>next\<close> hands out the loops evenly.
\<close>

section \<open>EventLoop\<close>

record ('cb, 'f) EventLoop =
  el_running :: bool
  el_callbacks :: "(nat \<times> 'cb) list"
  el_epoll :: "(nat \<times> u32) list"
  el_pending :: "'f list"

definition EventLoop_new :: "('cb, 'f) EventLoop" where
  "EventLoop_new = \<lparr>el_running = False, el_callbacks = [], el_epoll = [], el_pending = []\<rparr>"

text \<open>\<open>EPOLL_CTL_ADD\<close> fails on a known descriptor and \<open>EPOLL_CTL_MOD\<close> on an unknown one; the results are not looked at.\<close>

definition addEvent :: "nat \<Rightarrow> u32 \<Rightarrow> 'cb \<Rightarrow> ('cb, 'f) EventLoop \<Rightarrow> ('cb, 'f) EventLoop" where
  "addEvent fd events cb el =
     el\<lparr>el_epoll := (if map_of (el_epoll el) fd = None then AList.update fd events (el_epoll el) else el_epoll el),
        el_callbacks := AList.update fd cb (el_callbacks el)\<rparr>"

definition updateEvent :: "nat \<Rightarrow> u32 \<Rightarrow> ('cb, 'f) EventLoop \<Rightarrow> ('cb, 'f) EventLoop" where
  "updateEvent fd events el =
     el\<lparr>el_epoll := (if map_of (el_epoll el) fd = None then el_epoll el else AList.update fd events (el_epoll el))\<rparr>"

definition removeEvent :: "nat \<Rightarrow> ('cb, 'f) EventLoop \<Rightarrow> ('cb, 'f) EventLoop" where
  "removeEvent fd el = el\<lparr>el_epoll := AList.delete fd (el_epoll el), el_callbacks := AList.delete fd (el_callbacks el)\<rparr>"

definition queueInLoop :: "'f \<Rightarrow> ('cb, 'f) EventLoop \<Rightarrow> ('cb, 'f) EventLoop" where
  "queueInLoop f el = el\<lparr>el_pending := el_pending el @ [f]\<rparr>"

definition EventLoop_stop :: "('cb, 'f) EventLoop \<Rightarrow> ('cb, 'f) EventLoop" where
  "EventLoop_stop el = el\<lparr>el_running := False\<rparr>"

text \<open>The calls a callback or a functor may make.\<close>

datatype ('cb, 'f) LoopCall = CallAdd nat u32 'cb | CallUpdate nat u32 | CallRemove nat | CallQueue 'f | CallStop

fun loop_call :: "('cb, 'f) LoopCall \<Rightarrow> ('cb, 'f) EventLoop \<Rightarrow> ('cb, 'f) EventLoop" where
  "loop_call (CallAdd fd events cb) el = addEvent fd events cb el"
| "loop_call (CallUpdate fd events) el = updateEvent fd events el"
| "loop_call (CallRemove fd) el = removeEvent fd el"
| "loop_call (CallQueue f) el = queueInLoop f el"
| "loop_call CallStop el = EventLoop_stop el"

type_synonym ('cb, 'f, 's) cb_run = "'cb \<Rightarrow> u32 \<Rightarrow> 's \<Rightarrow> 's \<times> ('cb, 'f) LoopCall list"
type_synonym ('cb, 'f, 's) fun_run = "'f \<Rightarrow> 's \<Rightarrow> 's \<times> ('cb, 'f) LoopCall list"

text \<open>\<open>runInLoop\<close>: at once on the thread of the loop, through the queue from any other thread.\<close>

definition runInLoop :: "('cb, 'f, 's) fun_run \<Rightarrow> bool \<Rightarrow> 'f \<Rightarrow> 's \<times> ('cb, 'f) EventLoop \<Rightarrow> 's \<times> ('cb, 'f) EventLoop" where
  "runInLoop runf in_loop_thread f x =
     (case x of (st, el) \<Rightarrow>
        if in_loop_thread then (case runf f st of (st, calls) \<Rightarrow> (st, fold loop_call calls el))
        else (st, queueInLoop f el))"

fun dispatch :: "('cb, 'f, 's) cb_run \<Rightarrow> (nat \<times> u32) list \<Rightarrow> 's \<times> ('cb, 'f) EventLoop \<Rightarrow> 's \<times> ('cb, 'f) EventLoop" where
  "dispatch runc [] x = x"
| "dispatch runc ((fd, events) # evs) (st, el) =
     (case map_of (el_callbacks el) fd of
        None \<Rightarrow> dispatch runc evs (st, el)
      | Some cb \<Rightarrow> (case runc cb events st of (st, calls) \<Rightarrow> dispatch runc evs (st, fold loop_call calls el)))"

fun run_functors :: "('cb, 'f, 's) fun_run \<Rightarrow> 'f list \<Rightarrow> 's \<times> ('cb, 'f) EventLoop \<Rightarrow> 's \<times> ('cb, 'f) EventLoop" where
  "run_functors runf [] x = x"
| "run_functors runf (f # fs) (st, el) =
     (case runf f st of (st, calls) \<Rightarrow> run_functors runf fs (st, fold loop_call calls el))"

definition doPendingFunctors :: "('cb, 'f, 's) fun_run \<Rightarrow> 's \<times> ('cb, 'f) EventLoop \<Rightarrow> 's \<times> ('cb, 'f) EventLoop" where
  "doPendingFunctors runf x =
     (case x of (st, el) \<Rightarrow> run_functors runf (el_pending el) (st, el\<lparr>el_pending := []\<rparr>))"

text \<open>\<open>loop\<close> over the batches \<open>epoll_wait\<close> reports, until \<open>running_\<close> is false.\<close>

fun loop_rounds :: "('cb, 'f, 's) cb_run \<Rightarrow> ('cb, 'f, 's) fun_run \<Rightarrow> (nat \<times> u32) list list
    \<Rightarrow> 's \<times> ('cb, 'f) EventLoop \<Rightarrow> 's \<times> ('cb, 'f) EventLoop" where
  "loop_rounds runc runf [] x = x"
| "loop_rounds runc runf (evs # batches) x =
     (if \<not> el_running (snd x) then x
      else loop_rounds runc runf batches (doPendingFunctors runf (dispatch runc evs x)))"

definition EventLoop_loop :: "('cb, 'f, 's) cb_run \<Rightarrow> ('cb, 'f, 's) fun_run \<Rightarrow> (nat \<times> u32) list list
    \<Rightarrow> 's \<times> ('cb, 'f) EventLoop \<Rightarrow> 's \<times> ('cb, 'f) EventLoop" where
  "EventLoop_loop runc runf batches x = (case x of (st, el) \<Rightarrow> loop_rounds runc runf batches (st, el\<lparr>el_running := True\<rparr>))"

section \<open>EventLoopThreadPool\<close>

text \<open>The loops by number; \<open>None\<close> is the main loop.\<close>

record EventLoopThreadPool =
  lp_loops :: "nat list"
  lp_next :: u64
  lp_started :: bool

definition EventLoopThreadPool_new :: EventLoopThreadPool where
  "EventLoopThreadPool_new = \<lparr>lp_loops = [], lp_next = 0, lp_started = False\<rparr>"

definition EventLoopThreadPool_start :: "nat \<Rightarrow> EventLoopThreadPool \<Rightarrow> EventLoopThreadPool" where
  "EventLoopThreadPool_start n p =
     (if lp_started p then p else p\<lparr>lp_started := True, lp_loops := lp_loops p @ [0..<n]\<rparr>)"

definition EventLoopThreadPool_stop :: "EventLoopThreadPool \<Rightarrow> EventLoopThreadPool" where
  "EventLoopThreadPool_stop p = p\<lparr>lp_loops := [], lp_started := False, lp_next := 0\<rparr>"

definition EventLoopThreadPool_next :: "EventLoopThreadPool \<Rightarrow> nat option \<times> EventLoopThreadPool" where
  "EventLoopThreadPool_next p =
     (if lp_loops p = [] then (None, p)
      else (Some (lp_loops p ! (unat (lp_next p) mod length (lp_loops p))), p\<lparr>lp_next := lp_next p + 1\<rparr>))"

section \<open>Functors run once and in order\<close>

definition queued :: "('cb, 'f) LoopCall list \<Rightarrow> 'f list" where
  "queued calls = concat (map (\<lambda>c. case c of CallQueue f \<Rightarrow> [f] | _ \<Rightarrow> []) calls)"

lemma loop_call_pending: "el_pending (loop_call c el) = el_pending el @ queued [c]"
  by (cases c) (simp_all add: addEvent_def updateEvent_def removeEvent_def queueInLoop_def EventLoop_stop_def queued_def)

lemma queued_Cons: "queued (c # cs) = queued [c] @ queued cs"
  by (simp add: queued_def)

lemma loop_calls_pending: "el_pending (fold loop_call calls el) = el_pending el @ queued calls"
proof (induction calls arbitrary: el)
  case (Cons c calls)
  then show ?case by (simp add: loop_call_pending queued_Cons [of c calls])
qed (simp add: queued_def)

text \<open>The reference: the functors of a list run one after the other; what they queue comes out as a list.\<close>

fun run_list :: "('cb, 'f, 's) fun_run \<Rightarrow> 'f list \<Rightarrow> 's \<Rightarrow> 's \<times> 'f list" where
  "run_list runf [] st = (st, [])"
| "run_list runf (f # fs) st =
     (case runf f st of (st, calls) \<Rightarrow> case run_list runf fs st of (st, qs) \<Rightarrow> (st, queued calls @ qs))"

lemma run_functors_list:
  "fst (run_functors runf fs (st, el)) = fst (run_list runf fs st)"
  "el_pending (snd (run_functors runf fs (st, el))) = el_pending el @ snd (run_list runf fs st)"
  by (induction fs arbitrary: st el) (auto simp: loop_calls_pending split: prod.splits)

theorem doPendingFunctors_once:
  assumes "doPendingFunctors runf (st, el) = (st', el')"
  shows "st' = fst (run_list runf (el_pending el) st)" "el_pending el' = snd (run_list runf (el_pending el) st)"
  using assms run_functors_list [of runf "el_pending el" st "el\<lparr>el_pending := []\<rparr>"]
  by (auto simp: doPendingFunctors_def)

section \<open>Removed callbacks are not called\<close>

definition adds :: "nat \<Rightarrow> ('cb, 'f) LoopCall \<Rightarrow> bool" where
  "adds fd c = (case c of CallAdd fd' _ _ \<Rightarrow> fd' = fd | _ \<Rightarrow> False)"

lemma loop_call_absent: "\<not> adds fd c \<Longrightarrow> map_of (el_callbacks el) fd = None \<Longrightarrow> map_of (el_callbacks (loop_call c el)) fd = None"
  by (cases c) (auto simp: addEvent_def updateEvent_def removeEvent_def queueInLoop_def EventLoop_stop_def adds_def update_conv'
      delete_conv')

lemma loop_calls_absent:
  "\<not> list_ex (adds fd) calls \<Longrightarrow> map_of (el_callbacks el) fd = None \<Longrightarrow> map_of (el_callbacks (fold loop_call calls el)) fd = None"
  by (induction calls arbitrary: el) (auto simp: loop_call_absent)

lemma removed_not_called:
  assumes "map_of (el_callbacks el) fd = None" "\<And>cb events st. \<not> list_ex (adds fd) (snd (runc cb events st))"
  shows "dispatch runc evs (st, el) = dispatch runc (filter (\<lambda>e. fst e \<noteq> fd) evs) (st, el)"
  using assms(1)
proof (induction evs arbitrary: st el)
  case (Cons e evs)
  obtain fd' events where e: "e = (fd', events)" by fastforce
  show ?case
  proof (cases "map_of (el_callbacks el) fd'")
    case None
    then show ?thesis using Cons e by simp
  next
    case (Some cb)
    obtain st1 calls where r: "runc cb events st = (st1, calls)" by fastforce
    have "map_of (el_callbacks (fold loop_call calls el)) fd = None"
      using loop_calls_absent [OF _ Cons.prems] assms(2) [of cb events st] r by simp
    from Cons.IH [OF this, of st1] show ?thesis using Some r e Cons.prems by auto
  qed
qed simp

section \<open>Round robin\<close>

fun next_n :: "nat \<Rightarrow> EventLoopThreadPool \<Rightarrow> nat option list \<times> EventLoopThreadPool" where
  "next_n 0 p = ([], p)"
| "next_n (Suc n) p = (case EventLoopThreadPool_next p of (l, p) \<Rightarrow> case next_n n p of (ls, p) \<Rightarrow> (l # ls, p))"

lemma next_n_loops:
  assumes "lp_loops p \<noteq> []" "unat (lp_next p) + n < 2 ^ 64"
  shows "fst (next_n n p) = map (\<lambda>i. Some (lp_loops p ! ((unat (lp_next p) + i) mod length (lp_loops p)))) [0..<n]"
  using assms
proof (induction n arbitrary: p)
  case (Suc n)
  let ?p = "p\<lparr>lp_next := lp_next p + 1\<rparr>"
  have u: "unat (lp_next p + 1) = unat (lp_next p) + 1"
    using Suc.prems(2) by (simp add: unat_word_ariths)
  have "fst (next_n n ?p) = map (\<lambda>i. Some (lp_loops p ! ((unat (lp_next p) + 1 + i) mod length (lp_loops p)))) [0..<n]"
    using Suc.IH [of ?p] Suc.prems u by simp
  then show ?case using Suc.prems(1)
    by (cases "next_n n ?p") (simp add: EventLoopThreadPool_next_def upt_conv_Cons map_Suc_upt [symmetric] comp_def del: upt_Suc split: prod.split)
qed simp

end
