(* ===== verification/Internal_Key.thy ===== *)
theory Internal_Key
  imports Core_Types Coding
begin

text \<open>
  \<open>minikv/src/core/internal_key.{h,cpp}\<close>: a user key followed by an 8-byte little-endian
  trailer that packs the sequence number (high 56 bits) and the value type (low 8 bits).

  The lemmas give the round trip of the codec for sequence numbers below \<open>2 ^ 56\<close>, and
  that \<open>InternalKeyCompare\<close> satisfies the \<open>comparator\<close> contract on keys that carry a
  trailer: its order is the lexicographic order of \<open>ikey_rank\<close>, that is, user key
  ascending, then sequence number descending, then type ascending.
\<close>

section \<open>Definitions\<close>

text \<open>
  \<open>enum class ValueType : uint8_t\<close>. A cast from a byte may produce a value without an
  enumerator; \<open>vtOther\<close> stands for those.
\<close>

datatype ValueType = vtNone | vtValue | vtDeletion | vtOther u8

definition ValueType_of_u8 :: "u8 \<Rightarrow> ValueType" where
  "ValueType_of_u8 b =
     (if b = 0 then vtNone else if b = 1 then vtValue else if b = 2 then vtDeletion
      else vtOther b)"

definition u8_of_ValueType :: "ValueType \<Rightarrow> u8" where
  "u8_of_ValueType t =
     (case t of vtNone \<Rightarrow> 0 | vtValue \<Rightarrow> 1 | vtDeletion \<Rightarrow> 2 | vtOther b \<Rightarrow> b)"

definition kTypeBits :: nat where
  "kTypeBits = 8"

definition kTrailerBytes :: nat where
  "kTrailerBytes = 8"

definition packTrailer :: "u64 \<Rightarrow> ValueType \<Rightarrow> u64" where
  "packTrailer seq type = push_bit kTypeBits seq OR ucast (u8_of_ValueType type)"

definition InternalKeyEncode :: "Slice \<Rightarrow> u64 \<Rightarrow> ValueType \<Rightarrow> bytes" where
  "InternalKeyEncode user_key seq type = user_key @ encodeFixed64 (packTrailer seq type)"

definition InternalKeyUserKey :: "Slice \<Rightarrow> Slice" where
  "InternalKeyUserKey internal_key =
     (if length internal_key < kTrailerBytes then []
      else take (length internal_key - kTrailerBytes) internal_key)"

text \<open>The packed trailer, read by the accessors below at \<open>size() - kTrailerBytes\<close>.\<close>

definition trailer_of :: "Slice \<Rightarrow> u64" where
  "trailer_of internal_key =
     decodeFixed64 (drop (length internal_key - kTrailerBytes) internal_key)"

definition InternalKeySequence :: "Slice \<Rightarrow> u64" where
  "InternalKeySequence internal_key =
     (if length internal_key < kTrailerBytes then 0
      else drop_bit kTypeBits (trailer_of internal_key))"

definition InternalKeyType :: "Slice \<Rightarrow> ValueType" where
  "InternalKeyType internal_key =
     (if length internal_key < kTrailerBytes then vtNone
      else ValueType_of_u8 (ucast (trailer_of internal_key AND 0xFF)))"

definition IsDeletion :: "Slice \<Rightarrow> bool" where
  "IsDeletion internal_key \<longleftrightarrow> InternalKeyType internal_key = vtDeletion"

definition InternalKeyCompare :: "Slice \<Rightarrow> Slice \<Rightarrow> int" where
  "InternalKeyCompare a b =
     (if length a < kTrailerBytes \<or> length b < kTrailerBytes then Slice_compare a b
      else
        let ua = InternalKeyUserKey a; ub = InternalKeyUserKey b; r = Slice_compare ua ub
        in if r \<noteq> 0 then r
           else
             let ta = trailer_of a; tb = trailer_of b;
                 sa = drop_bit kTypeBits ta; sb = drop_bit kTypeBits tb
             in if sa \<noteq> sb then (if sa > sb then -1 else 1)
                else
                  let tya = (ucast (ta AND 0xFF) :: u8); tyb = (ucast (tb AND 0xFF) :: u8)
                  in if tya \<noteq> tyb then (if tya < tyb then -1 else 1) else 0)"

section \<open>Round trip\<close>

abbreviation is_ikey :: "Slice \<Rightarrow> bool" where
  "is_ikey k \<equiv> kTrailerBytes \<le> length k"

lemma ValueType_roundtrip: "u8_of_ValueType (ValueType_of_u8 b) = b"
  by (simp add: ValueType_of_u8_def u8_of_ValueType_def)

lemma ValueType_named [simp]:
  "ValueType_of_u8 (u8_of_ValueType vtNone) = vtNone"
  "ValueType_of_u8 (u8_of_ValueType vtValue) = vtValue"
  "ValueType_of_u8 (u8_of_ValueType vtDeletion) = vtDeletion"
  by (simp_all add: ValueType_of_u8_def u8_of_ValueType_def)

lemma is_ikey_encode [simp]: "is_ikey (InternalKeyEncode uk seq t)"
  by (simp add: InternalKeyEncode_def kTrailerBytes_def)

lemma length_InternalKeyEncode [simp]:
  "length (InternalKeyEncode uk seq t) = length uk + 8"
  by (simp add: InternalKeyEncode_def)

lemma UserKey_encode [simp, codec]: "InternalKeyUserKey (InternalKeyEncode uk seq t) = uk"
  by (simp add: InternalKeyUserKey_def InternalKeyEncode_def kTrailerBytes_def)

lemma trailer_encode [simp]: "trailer_of (InternalKeyEncode uk seq t) = packTrailer seq t"
  by (simp add: trailer_of_def InternalKeyEncode_def kTrailerBytes_def)

lemma packTrailer_type: "(ucast (packTrailer seq t) :: u8) = u8_of_ValueType t"
  by (rule bit_word_eqI) (auto simp: packTrailer_def kTypeBits_def bit_simps)

lemma packTrailer_seq:
  assumes "unat seq < 2 ^ 56"
  shows "drop_bit kTypeBits (packTrailer seq t) = seq"
proof (rule bit_word_eqI)
  fix n assume "n < LENGTH(64)"
  have "take_bit 56 seq = seq"
    using assms by (simp add: word_unat_eq_iff unsigned_take_bit_eq take_bit_nat_eq_self_iff)
  then have high: "bit seq n \<Longrightarrow> n < 56"
    by (metis bit_take_bit_iff)
  then show "bit (drop_bit kTypeBits (packTrailer seq t)) n = bit seq n"
    by (auto simp: packTrailer_def kTypeBits_def bit_simps dest: bit_byte_less)
qed

lemma Type_encode [codec]:
  "InternalKeyType (InternalKeyEncode uk seq t) = ValueType_of_u8 (u8_of_ValueType t)"
  by (simp add: InternalKeyType_def kTrailerBytes_def packTrailer_type)

lemma IsDeletion_encode [simp]:
  "\<not> IsDeletion (InternalKeyEncode uk seq vtValue)"
  "IsDeletion (InternalKeyEncode uk seq vtDeletion)"
  by (simp_all add: IsDeletion_def Type_encode)

lemma Sequence_encode [codec]:
  "unat seq < 2 ^ 56 \<Longrightarrow> InternalKeySequence (InternalKeyEncode uk seq t) = seq"
  by (simp add: InternalKeySequence_def kTrailerBytes_def packTrailer_seq)

section \<open>The order of internal keys\<close>

text \<open>Newer first: an order-reversing image of the sequence number.\<close>

definition newer_first :: "u64 \<Rightarrow> nat" where
  "newer_first seq = 2 ^ 64 - 1 - unat seq"

definition ikey_rank :: "Slice \<Rightarrow> bytes \<times> nat \<times> u8" where
  "ikey_rank k =
     (InternalKeyUserKey k,
      newer_first (drop_bit kTypeBits (trailer_of k)),
      ucast (trailer_of k))"

lemma ikey_split:
  assumes "is_ikey k"
  shows "k = InternalKeyUserKey k @ encodeFixed64 (trailer_of k)"
proof -
  let ?n = "length k - kTrailerBytes"
  have "length (drop ?n k) = 8"
    using assms by (simp add: kTrailerBytes_def)
  then have "encodeFixed64 (trailer_of k) = drop ?n k"
    by (simp add: trailer_of_def encodeFixed64_decode)
  then show ?thesis
    using assms by (simp add: InternalKeyUserKey_def not_less)
qed

lemma trailer_parts_inj:
  assumes "drop_bit 8 (s :: u64) = drop_bit 8 t" and "(ucast s :: u8) = ucast t"
  shows "s = t"
proof (rule bit_word_eqI)
  fix n assume "n < LENGTH(64)"
  show "bit s n = bit t n"
  proof (cases "n < 8")
    case True
    have "bit (ucast s :: u8) n = bit (ucast t :: u8) n" by (simp only: assms(2))
    with True show ?thesis by (simp add: bit_ucast_iff)
  next
    case False
    have "bit (drop_bit 8 s) (n - 8) = bit (drop_bit 8 t) (n - 8)" by (simp only: assms(1))
    with False show ?thesis by (simp add: bit_drop_bit_eq)
  qed
qed

lemma newer_first_simps [simp]:
  shows "newer_first s < newer_first t \<longleftrightarrow> t < s"
    and "newer_first s \<le> newer_first t \<longleftrightarrow> t \<le> s"
    and "newer_first s = newer_first t \<longleftrightarrow> s = t"
proof -
  have "unat s < 2 ^ LENGTH(64)" "unat t < 2 ^ LENGTH(64)" by (rule unsigned_less)+
  then show "newer_first s < newer_first t \<longleftrightarrow> t < s"
    and "newer_first s \<le> newer_first t \<longleftrightarrow> t \<le> s"
    and "newer_first s = newer_first t \<longleftrightarrow> s = t"
    by (auto simp: newer_first_def word_less_nat_alt word_le_nat_alt word_unat_eq_iff)
qed

lemma ikey_rank_inj:
  assumes "is_ikey a" "is_ikey b" "ikey_rank a = ikey_rank b"
  shows "a = b"
proof -
  have "trailer_of a = trailer_of b"
    using assms(3) trailer_parts_inj [of "trailer_of a" "trailer_of b"]
    by (simp add: ikey_rank_def kTypeBits_def)
  with assms show ?thesis
    using ikey_split [of a] ikey_split [of b] by (simp add: ikey_rank_def)
qed

interpretation ikey_cmp: comparator InternalKeyCompare ikey_rank is_ikey
proof unfold_locales
  fix a b :: Slice
  assume ab: "is_ikey a" "is_ikey b"
  show "InternalKeyCompare a b < 0 \<longleftrightarrow> ikey_rank a < ikey_rank b"
    using ab by (auto simp: InternalKeyCompare_def ikey_rank_def Let_def not_less_iff_gr_or_eq)
  show "0 < InternalKeyCompare a b \<longleftrightarrow> ikey_rank b < ikey_rank a"
    using ab by (auto simp: InternalKeyCompare_def ikey_rank_def Let_def not_less_iff_gr_or_eq)
qed (rule ikey_rank_inj)

text \<open>Versions of one user key: the larger sequence number sorts first.\<close>

lemma ikey_rank_encode:
  "unat seq < 2 ^ 56 \<Longrightarrow>
     ikey_rank (InternalKeyEncode uk seq t) =
       (uk, newer_first seq, u8_of_ValueType t)"
  by (simp only: ikey_rank_def UserKey_encode trailer_encode packTrailer_seq packTrailer_type)

lemma ikey_rank_user [simp]: "fst (ikey_rank k) = InternalKeyUserKey k"
  by (simp add: ikey_rank_def)

lemma ikey_rank_user_mono: "ikey_rank a \<le> ikey_rank b \<Longrightarrow> InternalKeyUserKey a \<le> InternalKeyUserKey b"
  by (auto simp: ikey_rank_def)

end
