(* ===== verification/Skip_List.thy ===== *)
theory Skip_List
  imports Internal_Key "HOL-Library.Monad_Syntax"
begin

text \<open>
  \<open>minikv/src/core/skip_list.h\<close> at the level of its nodes: a store maps addresses to
  \<open>SkipNode\<close>s, whose \<open>forward\<close> vectors hold addresses (\<open>None\<close> is \<open>nullptr\<close>). Every
  operation returns \<open>None\<close> exactly where the code would dereference a dangling or null
  pointer, index a vector out of range or walk a cyclic list forever.

  The representation invariant \<open>SkipList_rep sl ns\<close> says that \<open>ns\<close> are the nodes in
  order and that the chain of every level \<open>i\<close> visits exactly the nodes of \<open>ns\<close> that are
  taller than \<open>i\<close>. The lemmas show that \<open>put\<close>, \<open>get\<close>, \<open>del\<close> and \<open>entries\<close> never
  get stuck under it, keep it, and act on the sorted entry list as an ordered map.

  \<open>std::mt19937\<close> behind \<open>randomLevel\<close> is a list of coin tosses consumed by the calls
  (a finite run consumes finitely many; after the end every toss is 0). The address 0 is
  the head node. \<open>sizeof(SkipNode)\<close> is the one of x86-64 with libstdc++.
\<close>

section \<open>Definitions\<close>

record SkipNode =
  node_key :: bytes
  node_value :: bytes
  node_forward :: "nat option list"

type_synonym node_heap = "nat \<rightharpoonup> SkipNode"

record SkipList =
  sl_heap :: node_heap
  sl_max_level :: nat
  sl_mem_usage :: u64
  sl_next :: nat
  sl_rng :: "bool list"

definition kMaxLevel :: nat where
  "kMaxLevel = 32"

definition sizeof_SkipNode :: nat where
  "sizeof_SkipNode = 88"

definition new_SkipNode :: "bytes \<Rightarrow> bytes \<Rightarrow> nat \<Rightarrow> SkipNode" where
  "new_SkipNode k v level =
     \<lparr>node_key = k, node_value = v, node_forward = replicate (level + 1) None\<rparr>"

definition SkipList_new :: "bool list \<Rightarrow> SkipList" where
  "SkipList_new rng =
     \<lparr>sl_heap = [0 \<mapsto> new_SkipNode [] [] kMaxLevel], sl_max_level = 0,
      sl_mem_usage = 0, sl_next = 1, sl_rng = rng\<rparr>"

text \<open>\<open>x->forward[i]\<close> read and written.\<close>

definition load_fwd :: "node_heap \<Rightarrow> nat \<Rightarrow> nat \<Rightarrow> nat option option" where
  "load_fwd h x i =
     do {
       nd \<leftarrow> h x;
       if i < length (node_forward nd) then Some (node_forward nd ! i) else None
     }"

definition store_fwd :: "node_heap \<Rightarrow> nat \<Rightarrow> nat \<Rightarrow> nat option \<Rightarrow> node_heap option" where
  "store_fwd h x i p =
     do {
       nd \<leftarrow> h x;
       if i < length (node_forward nd)
       then Some (h(x \<mapsto> nd\<lparr>node_forward := (node_forward nd)[i := p]\<rparr>)) else None
     }"

text \<open>The inner loop of a search: move right on level \<open>i\<close> while the next key is smaller.\<close>

partial_function (option) walk :: "node_heap \<Rightarrow> nat \<Rightarrow> bytes \<Rightarrow> nat \<Rightarrow> nat option" where
  "walk h i key x =
     do {
       p \<leftarrow> load_fwd h x i;
       case p of
         None \<Rightarrow> Some x
       | Some y \<Rightarrow>
           do {
             nd \<leftarrow> h y;
             if InternalKeyCompare (node_key nd) key < 0 then walk h i key y else Some x
           }
     }"

text \<open>The outer loop, from level \<open>i\<close> down to 0, filling \<open>update\<close>.\<close>

fun search_down :: "node_heap \<Rightarrow> bytes \<Rightarrow> nat \<Rightarrow> nat option list \<Rightarrow> nat
    \<Rightarrow> (nat \<times> nat option list) option" where
  "search_down h key x update 0 =
     do { y \<leftarrow> walk h 0 key x; Some (y, update[0 := Some y]) }"
| "search_down h key x update (Suc i) =
     do { y \<leftarrow> walk h (Suc i) key x; search_down h key y (update[Suc i := Some y]) i }"

text \<open>The same loop in \<open>get\<close>, which keeps no \<open>update\<close>.\<close>

fun descend :: "node_heap \<Rightarrow> bytes \<Rightarrow> nat \<Rightarrow> nat \<Rightarrow> nat option" where
  "descend h key x 0 = walk h 0 key x"
| "descend h key x (Suc i) = do { y \<leftarrow> walk h (Suc i) key x; descend h key y i }"

fun randomLevel :: "bool list \<Rightarrow> nat \<Rightarrow> nat \<times> bool list" where
  "randomLevel [] level = (level, [])"
| "randomLevel (toss # rng) level =
     (if toss \<and> level < kMaxLevel then randomLevel rng (level + 1) else (level, rng))"

text \<open>One round of the linking loop of \<open>put\<close>, and the rounds \<open>0 .. k - 1\<close>.\<close>

definition link_level :: "node_heap \<Rightarrow> nat \<Rightarrow> nat option list \<Rightarrow> nat \<Rightarrow> node_heap option" where
  "link_level h n update i =
     do {
       u \<leftarrow> (if i < length update then update ! i else None);
       p \<leftarrow> load_fwd h u i;
       h \<leftarrow> store_fwd h n i p;
       store_fwd h u i (Some n)
     }"

fun link_levels :: "node_heap \<Rightarrow> nat \<Rightarrow> nat option list \<Rightarrow> nat \<Rightarrow> node_heap option" where
  "link_levels h n update 0 = Some h"
| "link_levels h n update (Suc k) =
     do { h \<leftarrow> link_levels h n update k; link_level h n update k }"

definition SkipList_insert :: "SkipList \<Rightarrow> nat option list \<Rightarrow> bytes \<Rightarrow> bytes \<Rightarrow> SkipList option" where
  "SkipList_insert sl update key val =
     (let (level, rng) = randomLevel (sl_rng sl) 0;
          m = sl_max_level sl;
          update = (if level > m
                    then fold (\<lambda>i u. u[i := Some 0]) [m + 1..<level + 1] update else update);
          m = (if level > m then level else m);
          n = sl_next sl
      in do {
           h \<leftarrow> link_levels ((sl_heap sl)(n \<mapsto> new_SkipNode key val level)) n update (level + 1);
           Some (sl\<lparr>sl_heap := h, sl_max_level := m, sl_next := n + 1, sl_rng := rng,
                    sl_mem_usage := sl_mem_usage sl +
                      word_of_nat (sizeof_SkipNode + length key + length val)\<rparr>)
         })"

definition SkipList_put :: "SkipList \<Rightarrow> bytes \<Rightarrow> bytes \<Rightarrow> SkipList option" where
  "SkipList_put sl key val =
     do {
       (x, update) \<leftarrow> search_down (sl_heap sl) key 0 (replicate (kMaxLevel + 1) None) (sl_max_level sl);
       p \<leftarrow> load_fwd (sl_heap sl) x 0;
       case p of
         None \<Rightarrow> SkipList_insert sl update key val
       | Some y \<Rightarrow>
           do {
             nd \<leftarrow> sl_heap sl y;
             if node_key nd = key
             then Some (sl\<lparr>sl_heap := (sl_heap sl)(y \<mapsto> nd\<lparr>node_value := val\<rparr>),
                           sl_mem_usage := sl_mem_usage sl - word_of_nat (length (node_value nd))
                                             + word_of_nat (length val)\<rparr>)
             else SkipList_insert sl update key val
           }
     }"

definition SkipList_get :: "SkipList \<Rightarrow> bytes \<Rightarrow> bytes option option" where
  "SkipList_get sl key =
     do {
       x \<leftarrow> descend (sl_heap sl) key 0 (sl_max_level sl);
       p \<leftarrow> load_fwd (sl_heap sl) x 0;
       case p of
         None \<Rightarrow> Some None
       | Some y \<Rightarrow>
           do {
             nd \<leftarrow> sl_heap sl y;
             if node_key nd = key then Some (Some (node_value nd)) else Some None
           }
     }"

text \<open>The unlinking loop of \<open>del\<close> over the levels in \<open>is\<close>, leaving at the first miss.\<close>

fun unlink_levels :: "node_heap \<Rightarrow> nat \<Rightarrow> nat option list \<Rightarrow> nat list \<Rightarrow> node_heap option" where
  "unlink_levels h x update [] = Some h"
| "unlink_levels h x update (i # is) =
     do {
       u \<leftarrow> (if i < length update then update ! i else None);
       p \<leftarrow> load_fwd h u i;
       if p \<noteq> Some x then Some h
       else do {
         q \<leftarrow> load_fwd h x i;
         h \<leftarrow> store_fwd h u i q;
         unlink_levels h x update is
       }
     }"

fun shrink_level :: "node_heap \<Rightarrow> nat \<Rightarrow> nat option" where
  "shrink_level h 0 = Some 0"
| "shrink_level h (Suc m) =
     do {
       p \<leftarrow> load_fwd h 0 (Suc m);
       if p = None then shrink_level h m else Some (Suc m)
     }"

definition SkipList_del :: "SkipList \<Rightarrow> bytes \<Rightarrow> SkipList option" where
  "SkipList_del sl key =
     do {
       (x, update) \<leftarrow> search_down (sl_heap sl) key 0 (replicate (kMaxLevel + 1) None) (sl_max_level sl);
       p \<leftarrow> load_fwd (sl_heap sl) x 0;
       case p of
         None \<Rightarrow> Some sl
       | Some y \<Rightarrow>
           do {
             nd \<leftarrow> sl_heap sl y;
             if node_key nd = key then
               do {
                 h \<leftarrow> unlink_levels (sl_heap sl) y update [0..<sl_max_level sl + 1];
                 m \<leftarrow> shrink_level (h(y := None)) (sl_max_level sl);
                 Some (sl\<lparr>sl_heap := h(y := None), sl_max_level := m,
                          sl_mem_usage := sl_mem_usage sl -
                            word_of_nat (sizeof_SkipNode + length (node_key nd) + length (node_value nd))\<rparr>)
               }
             else Some sl
           }
     }"

text \<open>The level-0 walk of \<open>entries\<close>.\<close>

partial_function (option) entries_loop ::
    "node_heap \<Rightarrow> nat option \<Rightarrow> (bytes \<times> bytes) list \<Rightarrow> (bytes \<times> bytes) list option" where
  "entries_loop h p result =
     (case p of
        None \<Rightarrow> Some result
      | Some x \<Rightarrow>
          do {
            nd \<leftarrow> h x;
            q \<leftarrow> load_fwd h x 0;
            entries_loop h q (result @ [(node_key nd, node_value nd)])
          })"

definition SkipList_entries :: "SkipList \<Rightarrow> (bytes \<times> bytes) list option" where
  "SkipList_entries sl =
     do { p \<leftarrow> load_fwd (sl_heap sl) 0 0; entries_loop (sl_heap sl) p [] }"

definition SkipList_approximateMemoryUsage :: "SkipList \<Rightarrow> u64" where
  "SkipList_approximateMemoryUsage sl = sl_mem_usage sl"

definition SkipList_empty :: "SkipList \<Rightarrow> bool option" where
  "SkipList_empty sl = do { p \<leftarrow> load_fwd (sl_heap sl) 0 0; Some (p = None) }"

declare walk.simps [code]
declare entries_loop.simps [code]

section \<open>Reading and writing forward pointers\<close>

text \<open>What of a node the pointer updates leave alone: key, value and height.\<close>

definition shape :: "node_heap \<Rightarrow> nat \<Rightarrow> (bytes \<times> bytes \<times> nat) option" where
  "shape h a = map_option (\<lambda>nd. (node_key nd, node_value nd, length (node_forward nd))) (h a)"

lemma shape_None: "shape h a = None \<longleftrightarrow> h a = None"
  by (simp add: shape_def)

lemma shape_Some:
  "shape h a = Some (k, v, l) \<longleftrightarrow>
     (\<exists>nd. h a = Some nd \<and> node_key nd = k \<and> node_value nd = v \<and> length (node_forward nd) = l)"
  by (auto simp: shape_def)

lemma shape_upd_node:
  "shape (h(x \<mapsto> nd)) = (shape h)(x \<mapsto> (node_key nd, node_value nd, length (node_forward nd)))"
  by (auto simp: shape_def)

lemma shape_delete: "shape (h(x := None)) = (shape h)(x := None)"
  by (auto simp: shape_def)

lemma load_fwd_defined: "shape h a = Some (k, v, l) \<Longrightarrow> (\<exists>p. load_fwd h a i = Some p) \<longleftrightarrow> i < l"
  by (auto simp: shape_Some load_fwd_def split: if_splits)

lemma load_fwd_bound: "load_fwd h a i = Some p \<Longrightarrow> \<exists>k v l. shape h a = Some (k, v, l) \<and> i < l"
  by (auto simp: load_fwd_def shape_def bind_eq_Some_conv split: if_splits)

lemma store_fwd_ok:
  assumes "shape h x = Some (k, v, l)" "i < l"
  obtains h' where "store_fwd h x i p = Some h'" "shape h' = shape h"
    "\<And>a j. load_fwd h' a j = (if a = x \<and> j = i then Some p else load_fwd h a j)"
proof -
  from assms obtain nd where nd: "h x = Some nd" "i < length (node_forward nd)"
    by (auto simp: shape_Some)
  show thesis
  proof
    show "store_fwd h x i p = Some (h(x \<mapsto> nd\<lparr>node_forward := (node_forward nd)[i := p]\<rparr>))"
      using nd by (simp add: store_fwd_def)
    show "shape (h(x \<mapsto> nd\<lparr>node_forward := (node_forward nd)[i := p]\<rparr>)) = shape h"
      using nd by (auto simp: shape_def)
    show "load_fwd (h(x \<mapsto> nd\<lparr>node_forward := (node_forward nd)[i := p]\<rparr>)) a j =
        (if a = x \<and> j = i then Some p else load_fwd h a j)" for a j
      using nd by (auto simp: load_fwd_def)
  qed
qed

section \<open>Chains\<close>

fun path :: "node_heap \<Rightarrow> nat \<Rightarrow> nat \<Rightarrow> nat list \<Rightarrow> bool" where
  "path h i a [] \<longleftrightarrow> True"
| "path h i a (b # bs) \<longleftrightarrow> load_fwd h a i = Some (Some b) \<and> path h i b bs"

definition linked :: "node_heap \<Rightarrow> nat \<Rightarrow> nat \<Rightarrow> nat list \<Rightarrow> bool" where
  "linked h i a bs \<longleftrightarrow> path h i a bs \<and> load_fwd h (last (a # bs)) i = Some None"

definition tall :: "node_heap \<Rightarrow> nat \<Rightarrow> nat \<Rightarrow> bool" where
  "tall h i a = (case shape h a of None \<Rightarrow> False | Some (k, v, l) \<Rightarrow> i < l)"

definition key_of :: "node_heap \<Rightarrow> nat \<Rightarrow> bytes" where
  "key_of h a = (case shape h a of None \<Rightarrow> [] | Some (k, v, l) \<Rightarrow> k)"

definition val_of :: "node_heap \<Rightarrow> nat \<Rightarrow> bytes" where
  "val_of h a = (case shape h a of None \<Rightarrow> [] | Some (k, v, l) \<Rightarrow> v)"

lemma path_append: "path h i a (as @ bs) \<longleftrightarrow> path h i a as \<and> path h i (last (a # as)) bs"
  by (induction as arbitrary: a) auto

lemma path_cong:
  "(\<And>x. x \<in> set (butlast (a # bs)) \<Longrightarrow> load_fwd h x i = load_fwd h' x i) \<Longrightarrow>
     path h i a bs = path h' i a bs"
  by (induction bs arbitrary: a) auto

lemma linked_append:
  "linked h i a (as @ bs) \<longleftrightarrow> path h i a as \<and> linked h i (last (a # as)) bs"
  by (auto simp: linked_def path_append last_append)

lemma linked_cong:
  "(\<And>x. x \<in> set (a # bs) \<Longrightarrow> load_fwd h x i = load_fwd h' x i) \<Longrightarrow>
     linked h i a bs = linked h' i a bs"
  unfolding linked_def
  by (metis in_set_butlastD last_in_set list.distinct(1) path_cong)

lemma linked_load:
  "linked h i a bs \<Longrightarrow> load_fwd h a i = Some (case bs of [] \<Rightarrow> None | b # _ \<Rightarrow> Some b)"
  by (auto simp: linked_def split: list.splits)

text \<open>
  A walk along a chain stops at the last node whose key is smaller, provided that the keys
  before the split point are smaller and the first one behind it is not.
\<close>

lemma walk_linked:
  assumes "linked h i a (as @ bs)"
    and "\<And>x. x \<in> set as \<Longrightarrow> InternalKeyCompare (key_of h x) key < 0"
    and "\<And>b bs'. bs = b # bs' \<Longrightarrow> \<not> InternalKeyCompare (key_of h b) key < 0"
    and "\<And>x. x \<in> set (as @ bs) \<Longrightarrow> h x \<noteq> None"
  shows "walk h i key a = Some (last (a # as))"
  using assms
proof (induction as arbitrary: a)
  case Nil
  have load: "load_fwd h a i = Some (case bs of [] \<Rightarrow> None | b # _ \<Rightarrow> Some b)"
    using Nil.prems(1) by (simp add: linked_load)
  show ?case
  proof (cases bs)
    case Nil
    with load show ?thesis by (simp add: walk.simps)
  next
    case (Cons b bs')
    with Nil.prems(4) obtain nd where "h b = Some nd" by auto
    with load Cons Nil.prems(3) [OF Cons] show ?thesis
      by (simp add: walk.simps key_of_def shape_def)
  qed
next
  case (Cons b as)
  have load: "load_fwd h a i = Some (Some b)" and rest: "linked h i b (as @ bs)"
    using Cons.prems(1) by (auto simp: linked_def)
  from Cons.prems(4) obtain nd where nd: "h b = Some nd" by auto
  have "walk h i key b = Some (last (b # as))"
    by (rule Cons.IH [OF rest]) (use Cons.prems in auto)
  with load nd Cons.prems(2) [of b] show ?case
    by (simp add: walk.simps [of h i key a] key_of_def shape_def)
qed

section \<open>The representation invariant\<close>

definition node_bytes :: "node_heap \<Rightarrow> nat \<Rightarrow> nat" where
  "node_bytes h a = sizeof_SkipNode + length (key_of h a) + length (val_of h a)"

definition SkipList_rep :: "SkipList \<Rightarrow> nat list \<Rightarrow> bool" where
  "SkipList_rep sl ns \<longleftrightarrow>
     distinct (0 # ns) \<and> dom (sl_heap sl) = set (0 # ns) \<and>
     (\<forall>a\<in>set (0 # ns). a < sl_next sl) \<and>
     shape (sl_heap sl) 0 = Some ([], [], kMaxLevel + 1) \<and> sl_max_level sl \<le> kMaxLevel \<and>
     (\<forall>a\<in>set ns. is_ikey (key_of (sl_heap sl) a) \<and> tall (sl_heap sl) 0 a \<and>
        \<not> tall (sl_heap sl) (sl_max_level sl + 1) a) \<and>
     (\<forall>i\<le>kMaxLevel. linked (sl_heap sl) i 0 (filter (tall (sl_heap sl) i) ns)) \<and>
     sorted_wrt (\<lambda>a b. ikey_rank (key_of (sl_heap sl) a) < ikey_rank (key_of (sl_heap sl) b)) ns \<and>
     sl_mem_usage sl = word_of_nat (sum_list (map (node_bytes (sl_heap sl)) ns))"

definition SkipList_inv :: "SkipList \<Rightarrow> bool" where
  "SkipList_inv sl \<longleftrightarrow> (\<exists>ns. SkipList_rep sl ns)"

definition node_entries :: "node_heap \<Rightarrow> nat list \<Rightarrow> (bytes \<times> bytes) list" where
  "node_entries h ns = map (\<lambda>a. (key_of h a, val_of h a)) ns"

lemma tall_mono: "tall h j a \<Longrightarrow> i \<le> j \<Longrightarrow> tall h i a"
  by (auto simp: tall_def split: option.splits)

lemma SkipList_rep_new: "SkipList_rep (SkipList_new rng) []"
  by (auto simp: SkipList_rep_def SkipList_new_def new_SkipNode_def shape_def linked_def
      load_fwd_def kMaxLevel_def)

text \<open>A search key splits the nodes of a sorted list at one point.\<close>

lemma sorted_split_filter:
  fixes f :: "'a \<Rightarrow> 'r::linorder"
  assumes "sorted_wrt (\<lambda>a b. f a < f b) ns"
  shows "ns = filter (\<lambda>a. f a < r) ns @ filter (\<lambda>a. \<not> f a < r) ns"
  using assms
proof (induction ns)
  case (Cons a ns)
  show ?case
  proof (cases "f a < r")
    case False
    with Cons.prems have "\<forall>b\<in>set ns. \<not> f b < r" by auto
    then have "filter (\<lambda>a. f a < r) ns = []" "filter (\<lambda>a. \<not> f a < r) ns = ns"
      by (simp_all add: filter_empty_conv)
    with False show ?thesis by simp
  qed (use Cons in simp)
qed simp

text \<open>The situation of a search for \<open>key\<close>: \<open>xs\<close> are the nodes before it, \<open>ys\<close> the others.\<close>

definition skip_split :: "SkipList \<Rightarrow> bytes \<Rightarrow> nat list \<Rightarrow> nat list \<Rightarrow> bool" where
  "skip_split sl key xs ys \<longleftrightarrow>
     SkipList_rep sl (xs @ ys) \<and> is_ikey key \<and>
     (\<forall>a\<in>set xs. ikey_rank (key_of (sl_heap sl) a) < ikey_rank key) \<and>
     (\<forall>a\<in>set ys. ikey_rank key \<le> ikey_rank (key_of (sl_heap sl) a))"

definition before :: "node_heap \<Rightarrow> nat list \<Rightarrow> nat \<Rightarrow> nat" where
  "before h xs i = last (0 # filter (tall h i) xs)"

lemma skip_split_exists:
  assumes "SkipList_rep sl ns" "is_ikey key"
  obtains xs ys where "skip_split sl key xs ys" "ns = xs @ ys"
    "xs = filter (\<lambda>a. ikey_rank (key_of (sl_heap sl) a) < ikey_rank key) ns"
    "ys = filter (\<lambda>a. \<not> ikey_rank (key_of (sl_heap sl) a) < ikey_rank key) ns"
proof -
  let ?f = "\<lambda>a. ikey_rank (key_of (sl_heap sl) a)"
  have "sorted_wrt (\<lambda>a b. ?f a < ?f b) ns"
    using assms(1) by (simp add: SkipList_rep_def)
  then have eq: "ns = filter (\<lambda>a. ?f a < ikey_rank key) ns @ filter (\<lambda>a. \<not> ?f a < ikey_rank key) ns"
    by (rule sorted_split_filter)
  show thesis
  proof (rule that [OF _ eq refl refl])
    show "skip_split sl key (filter (\<lambda>a. ?f a < ikey_rank key) ns) (filter (\<lambda>a. \<not> ?f a < ikey_rank key) ns)"
      using assms eq by (simp add: skip_split_def not_less)
  qed
qed

lemma split_chain:
  "skip_split sl key xs ys \<Longrightarrow> i \<le> kMaxLevel \<Longrightarrow>
     linked (sl_heap sl) i 0 (filter (tall (sl_heap sl) i) xs @ filter (tall (sl_heap sl) i) ys)"
  by (auto simp: skip_split_def SkipList_rep_def)

lemma split_in_heap:
  "skip_split sl key xs ys \<Longrightarrow> a \<in> set (0 # xs @ ys) \<Longrightarrow> sl_heap sl a \<noteq> None"
proof -
  assume "skip_split sl key xs ys" "a \<in> set (0 # xs @ ys)"
  then have "a \<in> dom (sl_heap sl)" by (simp add: skip_split_def SkipList_rep_def)
  then show "sl_heap sl a \<noteq> None" by auto
qed

lemma split_compare:
  assumes "skip_split sl key xs ys"
  shows "a \<in> set xs \<Longrightarrow> InternalKeyCompare (key_of (sl_heap sl) a) key < 0"
    and "a \<in> set ys \<Longrightarrow> \<not> InternalKeyCompare (key_of (sl_heap sl) a) key < 0"
proof -
  have "a \<in> set (xs @ ys) \<Longrightarrow> is_ikey (key_of (sl_heap sl) a)" and "is_ikey key"
    using assms by (auto simp: skip_split_def SkipList_rep_def)
  then show "a \<in> set xs \<Longrightarrow> InternalKeyCompare (key_of (sl_heap sl) a) key < 0"
    and "a \<in> set ys \<Longrightarrow> \<not> InternalKeyCompare (key_of (sl_heap sl) a) key < 0"
    using assms by (auto simp: skip_split_def ikey_cmp.cmp_neg not_less)
qed

lemma before_mem: "before h xs i \<in> set (0 # filter (tall h i) xs)"
  unfolding before_def by (rule last_in_set) simp

lemma before_mem_down: "before h xs (Suc i) \<in> set (0 # filter (tall h i) xs)"
  using before_mem [of h xs "Suc i"] tall_mono [of h "Suc i" _ i] by auto

lemma walk_level:
  assumes sp: "skip_split sl key xs ys" and i: "i \<le> kMaxLevel"
    and x: "x \<in> set (0 # filter (tall (sl_heap sl) i) xs)"
  shows "walk (sl_heap sl) i key x = Some (before (sl_heap sl) xs i)"
proof -
  let ?h = "sl_heap sl"
  let ?as = "filter (tall ?h i) xs" and ?bs = "filter (tall ?h i) ys"
  have "\<exists>as1 as2. linked ?h i x (as2 @ ?bs) \<and> last (x # as2) = before ?h xs i \<and> ?as = as1 @ as2"
  proof (cases "x = 0")
    case True
    with split_chain [OF sp i] show ?thesis
      by (intro exI [of _ "[]"] exI [of _ ?as]) (simp add: before_def)
  next
    case False
    with x obtain as1 as2 where as: "?as = (as1 @ [x]) @ as2"
      using split_list [of x ?as] by auto
    with split_chain [OF sp i] have "linked ?h i 0 ((as1 @ [x]) @ (as2 @ ?bs))"
      by simp
    then have "linked ?h i x (as2 @ ?bs)"
      by (simp only: linked_append) simp
    with as show ?thesis
      by (intro exI [of _ "as1 @ [x]"] exI [of _ as2]) (simp add: before_def)
  qed
  then obtain as1 as2 where as: "linked ?h i x (as2 @ ?bs)" "last (x # as2) = before ?h xs i"
    "?as = as1 @ as2" by blast
  have sub: "set as2 \<subseteq> set xs"
    using as(3) by (metis Un_upper2 filter_is_subset order_trans set_append)
  have "walk ?h i key x = Some (last (x # as2))"
  proof (rule walk_linked [OF as(1)])
    show "InternalKeyCompare (key_of ?h a) key < 0" if "a \<in> set as2" for a
      using that sub split_compare(1) [OF sp] by blast
    show "\<not> InternalKeyCompare (key_of ?h b) key < 0" if "?bs = b # bs'" for b bs'
    proof -
      have "b \<in> set ?bs" by (simp add: that)
      then show ?thesis using split_compare(2) [OF sp] by simp
    qed
    show "?h a \<noteq> None" if "a \<in> set (as2 @ ?bs)" for a
      using that sub by (intro split_in_heap [OF sp]) auto
  qed
  with as(2) show ?thesis by simp
qed

lemma search_down_result:
  assumes sp: "skip_split sl key xs ys"
    and "i \<le> kMaxLevel" "x \<in> set (0 # filter (tall (sl_heap sl) i) xs)"
      "length update = kMaxLevel + 1"
  shows "\<exists>update'. search_down (sl_heap sl) key x update i = Some (before (sl_heap sl) xs 0, update') \<and>
    length update' = kMaxLevel + 1 \<and>
    (\<forall>j\<le>i. update' ! j = Some (before (sl_heap sl) xs j)) \<and> (\<forall>j>i. update' ! j = update ! j)"
  using assms(2-)
proof (induction i arbitrary: x update)
  case 0
  then show ?case
    using walk_level [OF sp, of 0 x] by auto
next
  case (Suc i)
  let ?b = "before (sl_heap sl) xs (Suc i)"
  have "length (update[Suc i := Some ?b]) = kMaxLevel + 1" "i \<le> kMaxLevel"
    using Suc.prems by simp_all
  with Suc.IH before_mem_down obtain update' where
    u: "search_down (sl_heap sl) key ?b (update[Suc i := Some ?b]) i =
          Some (before (sl_heap sl) xs 0, update')"
      "length update' = kMaxLevel + 1" "\<forall>j\<le>i. update' ! j = Some (before (sl_heap sl) xs j)"
      "\<forall>j>i. update' ! j = update[Suc i := Some ?b] ! j"
    by blast
  have "update' ! Suc i = Some ?b"
    using u(4) Suc.prems by simp
  with u Suc.prems show ?case
    by (intro exI [of _ update']) (auto simp: walk_level [OF sp] le_Suc_eq)
qed

lemma descend_result:
  assumes sp: "skip_split sl key xs ys"
    and "i \<le> kMaxLevel" "x \<in> set (0 # filter (tall (sl_heap sl) i) xs)"
  shows "descend (sl_heap sl) key x i = Some (before (sl_heap sl) xs 0)"
  using assms(2-)
proof (induction i arbitrary: x)
  case (Suc i)
  then show ?case
    using Suc.IH [OF _ before_mem_down] by (simp add: walk_level [OF sp])
qed (simp add: walk_level [OF sp])

lemma split_tall_0:
  assumes "skip_split sl key xs ys"
  shows "filter (tall (sl_heap sl) 0) xs = xs" "filter (tall (sl_heap sl) 0) ys = ys"
  using assms by (auto simp: skip_split_def SkipList_rep_def filter_id_conv)

lemma load_before:
  assumes "skip_split sl key xs ys" "i \<le> kMaxLevel"
  shows "load_fwd (sl_heap sl) (before (sl_heap sl) xs i) i =
    Some (case filter (tall (sl_heap sl) i) ys of [] \<Rightarrow> None | b # _ \<Rightarrow> Some b)"
  using split_chain [OF assms] unfolding before_def
  by (intro linked_load) (simp add: linked_append)

lemma load_before_0:
  assumes "skip_split sl key xs ys"
  shows "load_fwd (sl_heap sl) (before (sl_heap sl) xs 0) 0 =
    Some (case ys of [] \<Rightarrow> None | b # _ \<Rightarrow> Some b)"
  using load_before [OF assms, of 0] by (simp add: split_tall_0 [OF assms])

section \<open>get and entries\<close>

lemma split_keys:
  assumes "skip_split sl key xs ys"
  shows "a \<in> set xs \<Longrightarrow> key_of (sl_heap sl) a \<noteq> key"
    and "ys = y # ys' \<Longrightarrow> a \<in> set ys' \<Longrightarrow> key_of (sl_heap sl) a \<noteq> key"
proof -
  let ?r = "\<lambda>a. ikey_rank (key_of (sl_heap sl) a)"
  show "a \<in> set xs \<Longrightarrow> key_of (sl_heap sl) a \<noteq> key"
    using assms by (auto simp: skip_split_def)
  assume "ys = y # ys'" "a \<in> set ys'"
  moreover have "sorted_wrt (\<lambda>a b. ?r a < ?r b) (xs @ ys)"
    using assms by (simp add: skip_split_def SkipList_rep_def)
  ultimately have "?r y < ?r a" by (simp add: sorted_wrt_append)
  moreover have "ikey_rank key \<le> ?r y"
    using assms \<open>ys = y # ys'\<close> by (simp add: skip_split_def)
  ultimately show "key_of (sl_heap sl) a \<noteq> key" by auto
qed

lemma map_of_node_entries_None:
  "(\<And>a. a \<in> set ns \<Longrightarrow> key_of h a \<noteq> key) \<Longrightarrow> map_of (node_entries h ns) key = None"
  by (induction ns) (auto simp: node_entries_def)

lemma split_lookup:
  assumes "skip_split sl key xs ys"
  shows "map_of (node_entries (sl_heap sl) (xs @ ys)) key =
    (case ys of [] \<Rightarrow> None
     | y # _ \<Rightarrow> if key_of (sl_heap sl) y = key then Some (val_of (sl_heap sl) y) else None)"
proof -
  let ?h = "sl_heap sl"
  have "map_of (node_entries ?h xs) key = None"
    by (rule map_of_node_entries_None) (rule split_keys [OF assms])
  then have "map_of (node_entries ?h (xs @ ys)) key = map_of (node_entries ?h ys) key"
    by (simp add: node_entries_def map_add_def)
  also have "\<dots> = (case ys of [] \<Rightarrow> None
     | y # _ \<Rightarrow> if key_of ?h y = key then Some (val_of ?h y) else None)"
  proof (cases ys)
    case (Cons y ys')
    then have "map_of (node_entries ?h ys') key = None"
      using split_keys(2) [OF assms] by (intro map_of_node_entries_None) blast
    with Cons show ?thesis by (simp add: node_entries_def)
  qed (simp add: node_entries_def)
  finally show ?thesis .
qed

lemma key_val_of_node: "h a = Some nd \<Longrightarrow> key_of h a = node_key nd \<and> val_of h a = node_value nd"
  by (simp add: key_of_def val_of_def shape_def)

lemma SkipList_get_rep:
  assumes rep: "SkipList_rep sl ns" and key: "is_ikey key"
  shows "SkipList_get sl key = Some (map_of (node_entries (sl_heap sl) ns) key)"
proof -
  obtain xs ys where sp: "skip_split sl key xs ys" and ns: "ns = xs @ ys"
    using skip_split_exists [OF assms] by metis
  have "sl_max_level sl \<le> kMaxLevel" using rep by (simp add: SkipList_rep_def)
  then have d: "descend (sl_heap sl) key 0 (sl_max_level sl) = Some (before (sl_heap sl) xs 0)"
    by (rule descend_result [OF sp]) simp
  show ?thesis
  proof (cases ys)
    case Nil
    with d load_before_0 [OF sp] split_lookup [OF sp] ns show ?thesis
      by (simp add: SkipList_get_def)
  next
    case (Cons y ys')
    then obtain nd where nd: "sl_heap sl y = Some nd"
      using split_in_heap [OF sp, of y] by auto
    with Cons d load_before_0 [OF sp] split_lookup [OF sp] ns key_val_of_node [where nd = nd] show ?thesis
      by (simp add: SkipList_get_def)
  qed
qed

lemma entries_loop_linked:
  assumes "linked h 0 a ns" "\<And>x. x \<in> set ns \<Longrightarrow> h x \<noteq> None"
  shows "\<exists>p. load_fwd h a 0 = Some p \<and> entries_loop h p acc = Some (acc @ node_entries h ns)"
  using assms
proof (induction ns arbitrary: a acc)
  case Nil
  then show ?case by (simp add: linked_def node_entries_def entries_loop.simps)
next
  case (Cons b ns)
  have "h b \<noteq> None" using Cons.prems(2) by simp
  then obtain nd where nd: "h b = Some nd" by blast
  have load: "load_fwd h a 0 = Some (Some b)" and "linked h 0 b ns"
    using Cons.prems(1) by (auto simp: linked_def)
  with Cons obtain q where "load_fwd h b 0 = Some q"
    "entries_loop h q (acc @ [(node_key nd, node_value nd)]) =
       Some ((acc @ [(node_key nd, node_value nd)]) @ node_entries h ns)"
    by (metis list.set_intros(2))
  with load nd key_val_of_node [where nd = nd] show ?case
    by (simp add: entries_loop.simps [of h "Some b"] node_entries_def)
qed

lemma SkipList_rep_level0: "SkipList_rep sl ns \<Longrightarrow> linked (sl_heap sl) 0 0 ns"
proof -
  assume rep: "SkipList_rep sl ns"
  then have "filter (tall (sl_heap sl) 0) ns = ns"
    by (auto simp: SkipList_rep_def filter_id_conv)
  with rep show ?thesis by (auto simp: SkipList_rep_def dest: spec [of _ 0])
qed

lemma SkipList_rep_heap: "SkipList_rep sl ns \<Longrightarrow> x \<in> set ns \<Longrightarrow> sl_heap sl x \<noteq> None"
proof -
  assume "SkipList_rep sl ns" "x \<in> set ns"
  then have "x \<in> dom (sl_heap sl)" by (simp add: SkipList_rep_def)
  then show ?thesis by auto
qed

lemma SkipList_entries_rep:
  assumes "SkipList_rep sl ns"
  shows "SkipList_entries sl = Some (node_entries (sl_heap sl) ns)"
  using entries_loop_linked [OF SkipList_rep_level0 [OF assms] SkipList_rep_heap [OF assms], of "[]"]
  by (auto simp: SkipList_entries_def)

lemma SkipList_empty_rep:
  assumes "SkipList_rep sl ns"
  shows "SkipList_empty sl = Some (ns = [])"
  using linked_load [OF SkipList_rep_level0 [OF assms]]
  by (auto simp: SkipList_empty_def split: list.splits)

section \<open>put\<close>

text \<open>The ordered-map update that \<open>put\<close> performs on the entry list.\<close>

definition put_entries :: "bytes \<Rightarrow> bytes \<Rightarrow> (bytes \<times> bytes) list \<Rightarrow> (bytes \<times> bytes) list" where
  "put_entries k v es =
     filter (\<lambda>e. ikey_rank (fst e) < ikey_rank k) es @ (k, v) #
     filter (\<lambda>e. ikey_rank k < ikey_rank (fst e)) es"

lemma link_levels_ok:
  assumes n: "shape h n = Some (key, val, L + 1)" and "k \<le> L + 1" and len: "L < length update"
    and u: "\<And>i. i < k \<Longrightarrow> update ! i = Some (u i) \<and> u i \<noteq> n \<and> load_fwd h (u i) i \<noteq> None"
  shows "\<exists>H. link_levels h n update k = Some H \<and> shape H = shape h \<and>
    (\<forall>a j. load_fwd H a j =
       (if j < k \<and> a = n then load_fwd h (u j) j
        else if j < k \<and> a = u j then Some (Some n) else load_fwd h a j))"
  using assms(2) u
proof (induction k)
  case (Suc k)
  have "\<exists>H. link_levels h n update k = Some H \<and> shape H = shape h \<and>
    (\<forall>a j. load_fwd H a j =
       (if j < k \<and> a = n then load_fwd h (u j) j
        else if j < k \<and> a = u j then Some (Some n) else load_fwd h a j))"
    by (rule Suc.IH) (use Suc.prems in auto)
  then obtain H where H: "link_levels h n update k = Some H" "shape H = shape h"
    "\<And>a j. load_fwd H a j =
       (if j < k \<and> a = n then load_fwd h (u j) j
        else if j < k \<and> a = u j then Some (Some n) else load_fwd h a j)"
    by blast
  have uk: "update ! k = Some (u k)" "u k \<noteq> n" "load_fwd h (u k) k \<noteq> None"
    using Suc.prems(2) [of k] by simp_all
  then obtain p where p: "load_fwd h (u k) k = Some p" by blast
  have Hn: "shape H n = Some (key, val, L + 1)" "k < L + 1"
    using n H(2) Suc.prems(1) by simp_all
  from store_fwd_ok [OF this, of p] obtain H1 where H1: "store_fwd H n k p = Some H1"
    "shape H1 = shape H" "\<And>a j. load_fwd H1 a j = (if a = n \<and> j = k then Some p else load_fwd H a j)"
    by metis
  obtain k' v' l' where "shape H1 (u k) = Some (k', v', l')" "k < l'"
    using load_fwd_bound [OF p] H1(2) H(2) by metis
  from store_fwd_ok [OF this, of "Some n"] obtain H2 where H2: "store_fwd H1 (u k) k (Some n) = Some H2"
    "shape H2 = shape H1"
    "\<And>a j. load_fwd H2 a j = (if a = u k \<and> j = k then Some (Some n) else load_fwd H1 a j)"
    by metis
  have "link_levels h n update (Suc k) = Some H2"
    using H(1) H(3) [of "u k" k] uk p H1(1) H2(1) len Suc.prems(1)
    by (simp add: link_level_def)
  moreover have "load_fwd H2 a j =
       (if j < Suc k \<and> a = n then load_fwd h (u j) j
        else if j < Suc k \<and> a = u j then Some (Some n) else load_fwd h a j)" for a j
    using uk p by (auto simp: H2(3) H1(3) H(3) less_Suc_eq)
  ultimately show ?case
    using H2(2) H1(2) H(2) by auto
qed auto

lemma distinct_last_butlast: "distinct xs \<Longrightarrow> xs \<noteq> [] \<Longrightarrow> last xs \<notin> set (butlast xs)"
  by (induction xs rule: rev_induct) auto

lemma linked_insert:
  assumes old: "linked h i a (as @ bs)" and dist: "distinct (a # as @ bs)"
    and n: "n \<notin> set (a # as @ bs)" and u: "u = last (a # as)"
    and load: "\<And>x. load_fwd H x i =
      (if x = n then load_fwd h u i else if x = u then Some (Some n) else load_fwd h x i)"
  shows "linked H i a (as @ n # bs)"
proof -
  have path: "path h i a as" and rest: "linked h i u bs"
    using old by (auto simp: linked_append u)
  have "u \<notin> set (butlast (a # as))"
    using distinct_last_butlast [of "a # as"] dist by (simp add: u)
  moreover have "n \<notin> set (butlast (a # as))"
    using n in_set_butlastD [of n "a # as"] by auto
  ultimately have "path H i a as"
    using path path_cong [of a as h i H] by (metis load)
  have u_in: "u \<in> set (a # as)" by (simp only: u) (rule last_in_set, simp)
  have "linked H i n bs"
  proof (cases bs)
    case Nil
    with rest load show ?thesis by (simp add: linked_def)
  next
    case (Cons b bs')
    have "linked H i b bs' = linked h i b bs'"
    proof (rule linked_cong)
      fix x assume "x \<in> set (b # bs')"
      with Cons u_in dist n have "x \<noteq> n" "x \<noteq> u" by auto
      then show "load_fwd H x i = load_fwd h x i" by (simp add: load)
    qed
    with rest load Cons show ?thesis by (simp add: linked_def)
  qed
  moreover have "load_fwd H u i = Some (Some n)"
    using load u_in n by (auto simp: u)
  ultimately show ?thesis
    using \<open>path H i a as\<close> by (auto simp: u linked_def path_append split: if_splits)
qed

lemma fold_update_nth:
  "length update = N \<Longrightarrow> b \<le> N \<Longrightarrow>
     length (fold (\<lambda>i u. u[i := x]) [a..<b] update) = N \<and>
     (\<forall>j. fold (\<lambda>i u. u[i := x]) [a..<b] update ! j = (if a \<le> j \<and> j < b then x else update ! j))"
  by (induction b) (auto simp: less_Suc_eq nth_list_update)

lemma randomLevel_le: "l \<le> kMaxLevel \<Longrightarrow> fst (randomLevel rng l) \<le> kMaxLevel"
  by (induction rng l rule: randomLevel.induct) auto

lemma tall_key_val_upd:
  assumes "shape H = (shape h)(n \<mapsto> (k, v, l))"
  shows "tall H i a = (if a = n then i < l else tall h i a)"
    and "key_of H a = (if a = n then k else key_of h a)"
    and "val_of H a = (if a = n then v else val_of h a)"
  using assms by (simp_all add: tall_def key_of_def val_of_def)

lemma SkipList_repD:
  assumes "SkipList_rep sl ns"
  shows "distinct (0 # ns)" "dom (sl_heap sl) = set (0 # ns)" "\<forall>a\<in>set (0 # ns). a < sl_next sl"
    "shape (sl_heap sl) 0 = Some ([], [], kMaxLevel + 1)" "sl_max_level sl \<le> kMaxLevel"
    "\<forall>a\<in>set ns. is_ikey (key_of (sl_heap sl) a) \<and> tall (sl_heap sl) 0 a \<and>
        \<not> tall (sl_heap sl) (sl_max_level sl + 1) a"
    "\<forall>i\<le>kMaxLevel. linked (sl_heap sl) i 0 (filter (tall (sl_heap sl) i) ns)"
    "sorted_wrt (\<lambda>a b. ikey_rank (key_of (sl_heap sl) a) < ikey_rank (key_of (sl_heap sl) b)) ns"
    "sl_mem_usage sl = word_of_nat (sum_list (map (node_bytes (sl_heap sl)) ns))"
  using assms unfolding SkipList_rep_def by blast+

lemma not_tall_above: "SkipList_rep sl ns \<Longrightarrow> a \<in> set ns \<Longrightarrow> sl_max_level sl < j \<Longrightarrow> \<not> tall (sl_heap sl) j a"
  using SkipList_repD(6) tall_mono [of "sl_heap sl" j a "sl_max_level sl + 1"] by auto

text \<open>Linking a fresh node of height \<open>L + 1\<close> behind the predecessors of every level.\<close>

lemma insert_heap:
  assumes sp: "skip_split sl key xs ys" and L: "L \<le> kMaxLevel"
    and len: "length update = kMaxLevel + 1"
    and upd: "\<And>j. j \<le> L \<Longrightarrow> update ! j = Some (before (sl_heap sl) xs j)"
  shows "\<exists>H. link_levels ((sl_heap sl)(sl_next sl \<mapsto> new_SkipNode key val L)) (sl_next sl) update (L + 1) = Some H \<and>
    shape H = (shape (sl_heap sl))(sl_next sl \<mapsto> (key, val, L + 1)) \<and>
    (\<forall>i\<le>kMaxLevel. linked H i 0 (filter (tall H i) (xs @ sl_next sl # ys)))"
proof -
  let ?h = "sl_heap sl" and ?n = "sl_next sl"
  let ?hn = "?h(?n \<mapsto> new_SkipNode key val L)"
  have rep: "SkipList_rep sl (xs @ ys)" using sp by (simp add: skip_split_def)
  note R = SkipList_repD [OF rep]
  have fresh: "?n \<notin> set (0 # xs @ ys)" using R(3) by auto
  have shape0: "shape ?hn = (shape ?h)(?n \<mapsto> (key, val, L + 1))"
    by (simp add: shape_upd_node new_SkipNode_def)
  have load0: "load_fwd ?hn a j = load_fwd ?h a j" if "a \<noteq> ?n" for a j
    using that by (simp add: load_fwd_def)
  have b_in: "before ?h xs j \<in> set (0 # xs @ ys)" for j
    using before_mem [of ?h xs j] by auto
  have b_neq: "before ?h xs j \<noteq> ?n" for j
    using b_in fresh by metis
  note b_load = load0 [OF b_neq] b_neq
  have "\<exists>H. link_levels ?hn ?n update (L + 1) = Some H \<and> shape H = shape ?hn \<and>
    (\<forall>a j. load_fwd H a j =
       (if j < L + 1 \<and> a = ?n then load_fwd ?hn (before ?h xs j) j
        else if j < L + 1 \<and> a = before ?h xs j then Some (Some ?n) else load_fwd ?hn a j))"
  proof (rule link_levels_ok [where u = "before (sl_heap sl) xs" and L = L and key = key and val = val])
    show "shape ?hn ?n = Some (key, val, L + 1)"
      by (rule trans [OF fun_cong [OF shape0]]) (rule fun_upd_same)
    show "L < length update" using L len by simp
    fix i assume "i < L + 1"
    then show "update ! i = Some (before ?h xs i) \<and> before ?h xs i \<noteq> ?n \<and>
        load_fwd ?hn (before ?h xs i) i \<noteq> None"
      using upd [of i] load_before [OF sp, of i] L by (simp add: b_load)
  qed simp
  then obtain H where H: "link_levels ?hn ?n update (L + 1) = Some H" "shape H = shape ?hn"
    and load: "\<And>a j. load_fwd H a j =
       (if j < L + 1 \<and> a = ?n then load_fwd ?hn (before ?h xs j) j
        else if j < L + 1 \<and> a = before ?h xs j then Some (Some ?n) else load_fwd ?hn a j)"
    by blast
  have shapeH: "shape H = (shape ?h)(?n \<mapsto> (key, val, L + 1))"
    by (simp add: H(2) shape0)
  note tallH = tall_key_val_upd(1) [OF shapeH]
  have filt: "filter (tall H i) zs = filter (tall ?h i) zs" if "set zs \<subseteq> set (xs @ ys)" for i zs
    using that fresh by (intro filter_cong) (auto simp: tallH)
  have "linked H i 0 (filter (tall H i) (xs @ ?n # ys))" if i: "i \<le> kMaxLevel" for i
  proof (cases "i \<le> L")
    case True
    have "linked H i 0 (filter (tall ?h i) xs @ ?n # filter (tall ?h i) ys)"
    proof (rule linked_insert [OF split_chain [OF sp i]])
      show "distinct (0 # filter (tall ?h i) xs @ filter (tall ?h i) ys)"
        using R(1) by (auto simp flip: filter_append)
      show "?n \<notin> set (0 # filter (tall ?h i) xs @ filter (tall ?h i) ys)" using fresh by auto
      show "before ?h xs i = last (0 # filter (tall ?h i) xs)" by (simp add: before_def)
      show "load_fwd H x i = (if x = ?n then load_fwd ?h (before ?h xs i) i
          else if x = before ?h xs i then Some (Some ?n) else load_fwd ?h x i)" for x
        using True b_neq [of i] by (simp add: load load0)
    qed
    with True show ?thesis by (simp add: filt tallH)
  next
    case False
    then have "filter (tall H i) (xs @ ?n # ys) = filter (tall ?h i) (xs @ ys)"
      by (simp add: filt tallH)
    moreover have "linked H i 0 (filter (tall ?h i) (xs @ ys)) = linked ?h i 0 (filter (tall ?h i) (xs @ ys))"
    proof (rule linked_cong)
      fix x assume "x \<in> set (0 # filter (tall ?h i) (xs @ ys))"
      then have "x \<noteq> ?n" using fresh by auto
      then show "load_fwd H x i = load_fwd ?h x i" using False by (simp add: load load0)
    qed
    ultimately show ?thesis using R(7) i by simp
  qed
  with H(1) shapeH show ?thesis by blast
qed

text \<open>The entry list after the insertion, and the memory accounting.\<close>

lemma node_entries_cong:
  "(\<And>a. a \<in> set ns \<Longrightarrow> key_of H a = key_of h a \<and> val_of H a = val_of h a) \<Longrightarrow>
     node_entries H ns = node_entries h ns"
  by (simp add: node_entries_def)

lemma split_put_entries:
  assumes sp: "skip_split sl key xs ys"
  shows "put_entries key val (node_entries (sl_heap sl) (xs @ ys)) =
    node_entries (sl_heap sl) xs @ (key, val) #
      node_entries (sl_heap sl) (filter (\<lambda>a. key_of (sl_heap sl) a \<noteq> key) ys)"
proof -
  let ?h = "sl_heap sl"
  have key: "is_ikey key" and keys: "\<forall>a\<in>set (xs @ ys). is_ikey (key_of ?h a)"
    using sp SkipList_repD(6) by (auto simp: skip_split_def)
  have le: "\<forall>a\<in>set ys. ikey_rank key \<le> ikey_rank (key_of ?h a)"
    and less: "\<forall>a\<in>set xs. ikey_rank (key_of ?h a) < ikey_rank key"
    using sp by (auto simp: skip_split_def)
  have "filter (\<lambda>a. ikey_rank key < ikey_rank (key_of ?h a)) ys = filter (\<lambda>a. key_of ?h a \<noteq> key) ys"
  proof (rule filter_cong)
    fix a assume "a \<in> set ys"
    then have "is_ikey (key_of ?h a)" "ikey_rank key \<le> ikey_rank (key_of ?h a)" using keys le by auto
    then show "(ikey_rank key < ikey_rank (key_of ?h a)) = (key_of ?h a \<noteq> key)"
      using key ikey_rank_inj [of "key_of ?h a" key] by (auto simp: less_le)
  qed simp
  moreover have "filter (\<lambda>a. ikey_rank (key_of ?h a) < ikey_rank key) ys = []"
    using le by (auto simp: filter_empty_conv not_less)
  moreover have "filter (\<lambda>a. ikey_rank (key_of ?h a) < ikey_rank key) xs = xs"
    using less by (simp add: filter_id_conv)
  moreover have "filter (\<lambda>a. ikey_rank key < ikey_rank (key_of ?h a)) xs = []"
    using less by (auto simp: filter_empty_conv dest: order.asym)
  ultimately show ?thesis
    by (simp add: put_entries_def node_entries_def filter_map o_def)
qed

lemma sum_bytes_cong:
  "(\<And>a. a \<in> set ns \<Longrightarrow> key_of H a = key_of h a \<and> val_of H a = val_of h a) \<Longrightarrow>
     sum_list (map (node_bytes H) ns) = sum_list (map (node_bytes h) ns)"
  by (intro arg_cong [where f = sum_list] map_cong) (auto simp: node_bytes_def)

lemma insert_rep_keys:
  assumes sp: "skip_split sl key xs ys" and new: "\<forall>a\<in>set ys. key_of (sl_heap sl) a \<noteq> key"
    and shapeH: "shape H = (shape (sl_heap sl))(sl_next sl \<mapsto> (key, val, L + 1))"
  shows "\<forall>a\<in>set (xs @ sl_next sl # ys). is_ikey (key_of H a) \<and> tall H 0 a \<and>
      \<not> tall H (max (sl_max_level sl) L + 1) a"
    "sorted_wrt (\<lambda>a b. ikey_rank (key_of H a) < ikey_rank (key_of H b)) (xs @ sl_next sl # ys)"
    "word_of_nat (sum_list (map (node_bytes H) (xs @ sl_next sl # ys))) =
       sl_mem_usage sl + word_of_nat (sizeof_SkipNode + length key + length val)"
proof -
  let ?h = "sl_heap sl" and ?n = "sl_next sl" and ?m = "sl_max_level sl"
  have rep: "SkipList_rep sl (xs @ ys)" and key: "is_ikey key" using sp by (simp_all add: skip_split_def)
  note R = SkipList_repD [OF rep]
  have fresh: "a \<noteq> ?n" if "a \<in> set (xs @ ys)" for a using that R(3) by auto
  note T = tall_key_val_upd [OF shapeH]
  show "\<forall>a\<in>set (xs @ ?n # ys). is_ikey (key_of H a) \<and> tall H 0 a \<and> \<not> tall H (max ?m L + 1) a"
  proof
    fix a assume "a \<in> set (xs @ ?n # ys)"
    then consider "a = ?n" | "a \<in> set (xs @ ys)" by auto
    then show "is_ikey (key_of H a) \<and> tall H 0 a \<and> \<not> tall H (max ?m L + 1) a"
    proof cases
      case 2
      then show ?thesis
        using R(6) fresh [OF 2] not_tall_above [OF rep 2, of "max ?m L + 1"] by (simp add: T)
    qed (simp add: T key)
  qed
  have "ikey_rank key < ikey_rank (key_of ?h a)" if "a \<in> set ys" for a
  proof -
    have "ikey_rank key \<le> ikey_rank (key_of ?h a)" using sp that by (simp add: skip_split_def)
    moreover have "ikey_rank key \<noteq> ikey_rank (key_of ?h a)"
      using ikey_rank_inj [of "key_of ?h a" key] R(6) that new key by auto
    ultimately show ?thesis by simp
  qed
  moreover have "sorted_wrt (\<lambda>a b. ikey_rank (key_of H a) < ikey_rank (key_of H b)) (xs @ ys)"
    using R(8) by (rule sorted_wrt_mono_rel [rotated]) (use fresh in \<open>simp add: T\<close>)
  ultimately show "sorted_wrt (\<lambda>a b. ikey_rank (key_of H a) < ikey_rank (key_of H b)) (xs @ ?n # ys)"
    using sp fresh by (auto simp: sorted_wrt_append T skip_split_def)
  have bytes: "sum_list (map (node_bytes H) zs) = sum_list (map (node_bytes ?h) zs)"
    if "set zs \<subseteq> set (xs @ ys)" for zs
    using that fresh by (intro sum_bytes_cong) (auto simp: T)
  show "word_of_nat (sum_list (map (node_bytes H) (xs @ ?n # ys))) =
       sl_mem_usage sl + word_of_nat (sizeof_SkipNode + length key + length val)"
    using bytes [of xs] bytes [of ys] R(9) by (simp add: node_bytes_def [of H ?n] T algebra_simps)
qed

lemma SkipList_insert_rep:
  assumes sp: "skip_split sl key xs ys" and new: "\<forall>a\<in>set ys. key_of (sl_heap sl) a \<noteq> key"
    and len: "length update = kMaxLevel + 1"
    and upd: "\<And>j. j \<le> sl_max_level sl \<Longrightarrow> update ! j = Some (before (sl_heap sl) xs j)"
  shows "\<exists>sl'. SkipList_insert sl update key val = Some sl' \<and>
    SkipList_rep sl' (xs @ sl_next sl # ys) \<and>
    node_entries (sl_heap sl') (xs @ sl_next sl # ys) =
      put_entries key val (node_entries (sl_heap sl) (xs @ ys))"
proof -
  let ?h = "sl_heap sl" and ?n = "sl_next sl" and ?m = "sl_max_level sl"
  have rep: "SkipList_rep sl (xs @ ys)" and key: "is_ikey key" using sp by (simp_all add: skip_split_def)
  note R = SkipList_repD [OF rep]
  obtain L rng where L: "randomLevel (sl_rng sl) 0 = (L, rng)" by fastforce
  have L_le: "L \<le> kMaxLevel" using randomLevel_le [of 0 "sl_rng sl"] L by simp
  define update' where "update' =
    (if L > ?m then fold (\<lambda>i u. u[i := Some 0]) [?m + 1..<L + 1] update else update)"
  have above: "before ?h xs j = 0" if "?m < j" for j
  proof -
    have "filter (tall ?h j) xs = []" using not_tall_above [OF rep _ that] by (simp add: filter_empty_conv)
    then show ?thesis by (simp add: before_def)
  qed
  have "length update' = kMaxLevel + 1"
    using fold_update_nth [OF len, of "L + 1" "Some 0" "?m + 1"] L_le len
    by (simp add: update'_def del: upt_Suc)
  moreover have "update' ! j = Some (before ?h xs j)" if "j \<le> L" for j
    using fold_update_nth [OF len, of "L + 1" "Some 0" "?m + 1"] L_le upd [of j] that above [of j]
    by (auto simp: update'_def simp del: upt_Suc)
  ultimately obtain H where H: "link_levels (?h(?n \<mapsto> new_SkipNode key val L)) ?n update' (L + 1) = Some H"
    "shape H = (shape ?h)(?n \<mapsto> (key, val, L + 1))"
    "\<forall>i\<le>kMaxLevel. linked H i 0 (filter (tall H i) (xs @ ?n # ys))"
    using insert_heap [OF sp L_le] by metis
  let ?s = "sl\<lparr>sl_heap := H, sl_max_level := max ?m L, sl_next := ?n + 1, sl_rng := rng,
                    sl_mem_usage := sl_mem_usage sl + word_of_nat (sizeof_SkipNode + length key + length val)\<rparr>"
  have "SkipList_insert sl update key val = Some ?s"
    using H(1) L by (auto simp: SkipList_insert_def Let_def update'_def max_def
        simp del: link_levels.simps upt_Suc of_nat_add)
  have fresh: "?n \<notin> set (0 # xs @ ys)" using R(3) by auto
  note T = tall_key_val_upd [OF H(2)]
  have kv: "key_of H a = key_of ?h a" "val_of H a = val_of ?h a" "tall H i a = tall ?h i a"
    if "a \<in> set (xs @ ys)" for a i
    using that fresh by (auto simp: T)
  have "SkipList_rep ?s (xs @ ?n # ys)"
    unfolding SkipList_rep_def
  proof (intro conjI)
    show "distinct (0 # xs @ ?n # ys)" using R(1) fresh by auto
    have "dom (shape H) = dom (sl_heap ?s)" by (auto simp: dom_def shape_def)
    moreover have "dom (shape ?h) = dom ?h" by (auto simp: dom_def shape_def)
    ultimately show "dom (sl_heap ?s) = set (0 # xs @ ?n # ys)" using H(2) R(2) by auto
    show "\<forall>a\<in>set (0 # xs @ ?n # ys). a < sl_next ?s" using R(3) by (auto simp: less_Suc_eq)
    show "shape (sl_heap ?s) 0 = Some ([], [], kMaxLevel + 1)" using H(2) R(4) fresh by simp
    show "sl_max_level ?s \<le> kMaxLevel" using R(5) L_le by simp
    show "\<forall>i\<le>kMaxLevel. linked (sl_heap ?s) i 0 (filter (tall (sl_heap ?s) i) (xs @ ?n # ys))"
      using H(3) by simp
  qed (use insert_rep_keys [OF sp new H(2)] in simp_all)
  moreover have "node_entries (sl_heap ?s) (xs @ ?n # ys) = put_entries key val (node_entries ?h (xs @ ys))"
  proof -
    have "node_entries H xs = node_entries ?h xs" "node_entries H ys = node_entries ?h ys"
      by (rule node_entries_cong, simp add: kv)+
    moreover have "filter (\<lambda>a. key_of ?h a \<noteq> key) ys = ys" using new by (simp add: filter_id_conv)
    ultimately show ?thesis
      unfolding split_put_entries [OF sp] by (simp add: node_entries_def T(2,3) [of ?n])
  qed
  ultimately show ?thesis
    using \<open>SkipList_insert sl update key val = Some ?s\<close> by blast
qed

text \<open>Overwriting the value of the node that holds the key.\<close>

lemma load_fwd_value_upd: "h y = Some nd \<Longrightarrow> load_fwd (h(y \<mapsto> nd\<lparr>node_value := v\<rparr>)) a i = load_fwd h a i"
  by (simp add: load_fwd_def)

lemma value_upd_rep:
  assumes rep: "SkipList_rep sl ns" and y: "y \<in> set ns" and nd: "sl_heap sl y = Some nd"
  shows "SkipList_rep (sl\<lparr>sl_heap := (sl_heap sl)(y \<mapsto> nd\<lparr>node_value := val\<rparr>),
    sl_mem_usage := sl_mem_usage sl - word_of_nat (length (node_value nd)) + word_of_nat (length val)\<rparr>) ns"
    (is "SkipList_rep ?s ns")
proof -
  let ?h = "sl_heap sl" and ?H = "(sl_heap sl)(y \<mapsto> nd\<lparr>node_value := val\<rparr>)"
  note R = SkipList_repD [OF rep]
  have "shape ?h y = Some (node_key nd, node_value nd, length (node_forward nd))"
    by (simp add: shape_def nd)
  moreover have "shape ?H = (shape ?h)(y \<mapsto> (node_key nd, val, length (node_forward nd)))"
    by (simp add: shape_upd_node)
  ultimately have T: "tall ?H i a = tall ?h i a" "key_of ?H a = key_of ?h a"
    "val_of ?H a = (if a = y then val else val_of ?h a)" for i a
    by (auto simp: tall_def key_of_def val_of_def)
  have linked_eq: "linked ?H i 0 zs = linked ?h i 0 zs" for i zs
    by (rule linked_cong) (simp add: load_fwd_value_upd nd)
  have talls: "tall ?H i = tall ?h i" for i by (rule ext) (rule T(1))
  obtain as bs where ns: "ns = as @ y # bs" using y by (meson split_list)
  then have "y \<notin> set as" "y \<notin> set bs" using R(1) by auto
  then have "sum_list (map (node_bytes ?H) zs) = sum_list (map (node_bytes ?h) zs)"
    if "zs = as \<or> zs = bs" for zs
    using that by (intro sum_bytes_cong) (auto simp: T)
  then have "sl_mem_usage ?s = word_of_nat (sum_list (map (node_bytes ?H) ns))"
    using R(9) key_val_of_node [of "sl_heap sl" y nd, OF nd]
    by (simp add: ns node_bytes_def [of _ y] T nd algebra_simps)
  moreover have "0 \<noteq> y" using R(1) y by (metis distinct.simps(2))
  moreover have "dom ?H = set (0 # ns)" using R(2) y by auto
  ultimately show ?thesis
    using R unfolding SkipList_rep_def by (auto simp: T linked_eq talls shape_upd_node)
qed

theorem SkipList_put_rep:
  assumes rep: "SkipList_rep sl ns" and key: "is_ikey key"
  shows "\<exists>sl' ns'. SkipList_put sl key val = Some sl' \<and> SkipList_rep sl' ns' \<and>
    node_entries (sl_heap sl') ns' = put_entries key val (node_entries (sl_heap sl) ns)"
proof -
  let ?h = "sl_heap sl"
  obtain xs ys where sp: "skip_split sl key xs ys" and ns: "ns = xs @ ys"
    using skip_split_exists [OF assms] by metis
  have "sl_max_level sl \<le> kMaxLevel" using SkipList_repD(5) [OF rep] .
  then obtain update where
    s: "search_down ?h key 0 (replicate (kMaxLevel + 1) None) (sl_max_level sl) =
          Some (before ?h xs 0, update)"
    and len: "length update = kMaxLevel + 1"
    and upd: "\<forall>j. j \<le> sl_max_level sl \<longrightarrow> update ! j = Some (before ?h xs j)"
    using search_down_result [OF sp, of "sl_max_level sl" 0 "replicate (kMaxLevel + 1) None"] by auto
  note l0 = load_before_0 [OF sp]
  show ?thesis
  proof (cases "\<forall>a\<in>set ys. key_of ?h a \<noteq> key")
    case True
    have "SkipList_put sl key val = SkipList_insert sl update key val"
    proof (cases ys)
      case (Cons y ys')
      then obtain nd where "?h y = Some nd" using split_in_heap [OF sp, of y] by auto
      with s l0 Cons True key_val_of_node [of ?h y nd] show ?thesis
        by (simp add: SkipList_put_def)
    qed (use s l0 in \<open>simp add: SkipList_put_def\<close>)
    with SkipList_insert_rep [OF sp True len] upd ns show ?thesis by metis
  next
    case False
    then obtain y ys' where ys: "ys = y # ys'" and y: "key_of ?h y = key"
      using split_keys(2) [OF sp] by (cases ys) auto
    then obtain nd where nd: "?h y = Some nd" using split_in_heap [OF sp, of y] by auto
    let ?s = "sl\<lparr>sl_heap := ?h(y \<mapsto> nd\<lparr>node_value := val\<rparr>),
      sl_mem_usage := sl_mem_usage sl - word_of_nat (length (node_value nd)) + word_of_nat (length val)\<rparr>"
    have put: "SkipList_put sl key val = Some ?s"
      using s l0 ys nd y key_val_of_node [of "sl_heap sl" y nd, OF nd] by (simp add: SkipList_put_def)
    have "SkipList_rep ?s ns"
      by (rule value_upd_rep [OF rep _ nd]) (simp add: ns ys)
    moreover have "node_entries (sl_heap ?s) ns = put_entries key val (node_entries ?h ns)"
    proof -
      have "distinct (xs @ y # ys')" using SkipList_repD(1) [OF rep] ns ys by simp
      moreover have "\<forall>a\<in>set ys'. key_of ?h a \<noteq> key" using split_keys(2) [OF sp ys] by blast
      ultimately show ?thesis
        using y nd key_val_of_node [of "sl_heap sl" y nd, OF nd] unfolding ns split_put_entries [OF sp]
        by (auto simp: node_entries_def ys key_of_def val_of_def shape_upd_node filter_id_conv)
    qed
    ultimately show ?thesis using put by blast
  qed
qed

section \<open>del\<close>

lemma unlink_levels_ok:
  assumes "\<And>i. i \<in> set is \<Longrightarrow> i < length update \<and> update ! i = Some (u i) \<and> u i \<noteq> x"
    and "\<And>i. i \<in> set is \<Longrightarrow> load_fwd h (u i) i = Some (nxt i)"
    and "\<And>i. i \<in> set is \<Longrightarrow> nxt i = Some x \<longleftrightarrow> i < t" "sorted is" "distinct is"
    and "\<And>i. i \<in> set is \<Longrightarrow> i < t \<Longrightarrow> load_fwd h x i \<noteq> None"
  shows "\<exists>H. unlink_levels h x update is = Some H \<and> shape H = shape h \<and>
    (\<forall>a j. load_fwd H a j =
       (if j \<in> set is \<and> j < t \<and> a = u j then load_fwd h x j else load_fwd h a j))"
  using assms
proof (induction "is" arbitrary: h)
  case (Cons i "is")
  have ui: "i < length update" "update ! i = Some (u i)" "u i \<noteq> x" "load_fwd h (u i) i = Some (nxt i)"
    using Cons.prems(1,2) [of i] by simp_all
  show ?case
  proof (cases "i < t")
    case False
    then have "unlink_levels h x update (i # is) = Some h"
      using ui Cons.prems(3) [of i] by simp
    moreover have "\<not> j < t" if "j \<in> set (i # is)" for j
      using that False Cons.prems(4) by auto
    ultimately show ?thesis by (intro exI [of _ h]) auto
  next
    case True
    then obtain q where q: "load_fwd h x i = Some q" using Cons.prems(6) [of i] by auto
    obtain k' v' l' where "shape h (u i) = Some (k', v', l')" "i < l'"
      using load_fwd_bound [OF ui(4)] by metis
    from store_fwd_ok [OF this, of q] obtain H1 where H1: "store_fwd h (u i) i q = Some H1"
      "shape H1 = shape h" "\<And>a j. load_fwd H1 a j = (if a = u i \<and> j = i then Some q else load_fwd h a j)"
      by metis
    have ni: "j \<noteq> i" if "j \<in> set is" for j using that Cons.prems(5) by auto
    have "\<exists>H. unlink_levels H1 x update is = Some H \<and> shape H = shape H1 \<and>
      (\<forall>a j. load_fwd H a j =
         (if j \<in> set is \<and> j < t \<and> a = u j then load_fwd H1 x j else load_fwd H1 a j))"
      by (rule Cons.IH) (use Cons.prems ni in \<open>auto simp: H1(3)\<close>)
    then obtain H where H: "unlink_levels H1 x update is = Some H" "shape H = shape H1"
      "\<And>a j. load_fwd H a j =
         (if j \<in> set is \<and> j < t \<and> a = u j then load_fwd H1 x j else load_fwd H1 a j)"
      by blast
    have "unlink_levels h x update (i # is) = Some H"
      using ui q H1(1) H(1) True Cons.prems(3) [of i] by simp
    moreover have "load_fwd H a j =
       (if j \<in> set (i # is) \<and> j < t \<and> a = u j then load_fwd h x j else load_fwd h a j)" for a j
      using ui q True ni [of j] by (auto simp: H(3) H1(3))
    ultimately show ?thesis using H(2) H1(2) by auto
  qed
qed simp

lemma linked_delete:
  assumes old: "linked h i a (as @ x # bs)" and dist: "distinct (a # as @ x # bs)" and u: "u = last (a # as)"
    and load: "\<And>z. z \<in> set (a # as @ bs) \<Longrightarrow>
      load_fwd H z i = (if z = u then load_fwd h x i else load_fwd h z i)"
  shows "linked H i a (as @ bs)"
proof -
  have path: "path h i a as" and rest: "linked h i x bs"
    using old unfolding linked_append by (auto simp: linked_def)
  have u_in: "u \<in> set (a # as)" by (simp only: u) (rule last_in_set, simp)
  have nu: "u \<notin> set (butlast (a # as))"
    using distinct_last_butlast [of "a # as"] dist by (simp add: u)
  have "path h i a as = path H i a as"
  proof (rule path_cong)
    fix z assume z: "z \<in> set (butlast (a # as))"
    then have "z \<in> set (a # as)" by (rule in_set_butlastD)
    then show "load_fwd h z i = load_fwd H z i" using load [of z] nu z by auto
  qed
  moreover have "linked H i u bs"
  proof (cases bs)
    case Nil
    with rest load [of u] u_in show ?thesis by (auto simp: linked_def)
  next
    case (Cons b bs')
    have "linked H i b bs' = linked h i b bs'"
    proof (rule linked_cong)
      fix z assume "z \<in> set (b # bs')"
      with Cons u_in dist have "z \<noteq> u" "z \<in> set (a # as @ bs)" by auto
      then show "load_fwd H z i = load_fwd h z i" by (simp add: load)
    qed
    with rest load [of u] u_in Cons show ?thesis by (auto simp: linked_def)
  qed
  ultimately show ?thesis using path by (simp add: linked_append u)
qed

lemma shrink_level_ok:
  assumes "\<And>j. j \<le> m \<Longrightarrow> load_fwd h 0 j \<noteq> None"
  shows "\<exists>m'. shrink_level h m = Some m' \<and> m' \<le> m \<and> (\<forall>j. m' < j \<and> j \<le> m \<longrightarrow> load_fwd h 0 j = Some None)"
  using assms
proof (induction m)
  case (Suc m)
  have "\<exists>m'. shrink_level h m = Some m' \<and> m' \<le> m \<and> (\<forall>j. m' < j \<and> j \<le> m \<longrightarrow> load_fwd h 0 j = Some None)"
    by (rule Suc.IH) (use Suc.prems in auto)
  then show ?case using Suc.prems [of "Suc m"] by (auto simp: le_Suc_eq)
qed simp

text \<open>Unlinking the node \<open>y\<close> behind the nodes \<open>xs\<close> from every level.\<close>

lemma del_heap:
  assumes sp: "skip_split sl key xs (y # ys)" and len: "length update = kMaxLevel + 1"
    and upd: "\<And>j. j \<le> sl_max_level sl \<Longrightarrow> update ! j = Some (before (sl_heap sl) xs j)"
  shows "\<exists>H. unlink_levels (sl_heap sl) y update [0..<sl_max_level sl + 1] = Some H \<and>
    shape H = shape (sl_heap sl) \<and>
    (\<forall>i\<le>kMaxLevel. linked (H(y := None)) i 0 (filter (tall (sl_heap sl) i) (xs @ ys)))"
proof -
  let ?h = "sl_heap sl" and ?m = "sl_max_level sl"
  have rep: "SkipList_rep sl (xs @ y # ys)" using sp by (simp add: skip_split_def)
  note R = SkipList_repD [OF rep]
  obtain k v t where sh: "shape ?h y = Some (k, v, t)"
    using split_in_heap [OF sp, of y] by (auto simp: shape_def)
  have tall_y: "tall ?h i y \<longleftrightarrow> i < t" for i by (simp add: tall_def sh)
  have b_neq: "before ?h xs j \<noteq> y" for j
    using before_mem [of ?h xs j] R(1) by auto
  have "\<exists>H. unlink_levels ?h y update [0..<?m + 1] = Some H \<and> shape H = shape ?h \<and>
    (\<forall>a j. load_fwd H a j = (if j \<in> set [0..<?m + 1] \<and> j < t \<and> a = before ?h xs j
       then load_fwd ?h y j else load_fwd ?h a j))"
  proof (rule unlink_levels_ok [where
        nxt = "\<lambda>i. case filter (tall (sl_heap sl) i) (y # ys) of [] \<Rightarrow> None | b # _ \<Rightarrow> Some b"])
    fix i assume i: "i \<in> set [0..<?m + 1]"
    then have le: "i \<le> ?m" "i \<le> kMaxLevel" using R(5) by auto
    show "i < length update \<and> update ! i = Some (before ?h xs i) \<and> before ?h xs i \<noteq> y"
      using le len upd [of i] b_neq by simp
    show "load_fwd ?h (before ?h xs i) i =
        Some (case filter (tall ?h i) (y # ys) of [] \<Rightarrow> None | b # _ \<Rightarrow> Some b)"
      by (rule load_before [OF sp le(2)])
    have "filter (tall ?h i) ys \<noteq> y # zs" for zs
    proof
      assume "filter (tall ?h i) ys = y # zs"
      then have "y \<in> set (filter (tall ?h i) ys)" by simp
      then show False using R(1) by simp
    qed
    then show "((case filter (tall ?h i) (y # ys) of [] \<Rightarrow> None | b # _ \<Rightarrow> Some b) = Some y) = (i < t)"
      by (auto simp: tall_y split: list.split)
    show "load_fwd ?h y i \<noteq> None" if "i < t"
      using load_fwd_defined [OF sh, of i] that by auto
  qed (simp_all del: upt_Suc)
  then obtain H where H: "unlink_levels ?h y update [0..<?m + 1] = Some H" "shape H = shape ?h"
    and load: "\<And>a j. load_fwd H a j = (if j \<in> set [0..<?m + 1] \<and> j < t \<and> a = before ?h xs j
       then load_fwd ?h y j else load_fwd ?h a j)"
    by blast
  have load': "load_fwd (H(y := None)) a j = load_fwd H a j" if "a \<noteq> y" for a j
    using that by (simp add: load_fwd_def)
  have "linked (H(y := None)) i 0 (filter (tall ?h i) (xs @ ys))" if i: "i \<le> kMaxLevel" for i
  proof (cases "i < t")
    case True
    then have i_le: "i \<le> ?m" using not_tall_above [OF rep, of y i] by (auto simp: tall_y not_less [symmetric])
    have "linked (H(y := None)) i 0 (filter (tall ?h i) xs @ filter (tall ?h i) ys)"
    proof (rule linked_delete)
      show "linked ?h i 0 (filter (tall ?h i) xs @ y # filter (tall ?h i) ys)"
        using split_chain [OF sp i] True by (simp add: tall_y)
      show "distinct (0 # filter (tall ?h i) xs @ y # filter (tall ?h i) ys)" using R(1) by auto
      show "before ?h xs i = last (0 # filter (tall ?h i) xs)" by (simp add: before_def)
      fix z assume "z \<in> set (0 # filter (tall ?h i) xs @ filter (tall ?h i) ys)"
      then have "z \<noteq> y" using R(1) by auto
      with True i_le show "load_fwd (H(y := None)) z i =
          (if z = before ?h xs i then load_fwd ?h y i else load_fwd ?h z i)"
        by (simp add: load load' less_Suc_eq_le del: upt_Suc)
    qed
    then show ?thesis by simp
  next
    case False
    have "linked (H(y := None)) i 0 (filter (tall ?h i) (xs @ ys)) =
        linked ?h i 0 (filter (tall ?h i) (xs @ ys))"
    proof (rule linked_cong)
      fix z assume "z \<in> set (0 # filter (tall ?h i) (xs @ ys))"
      then have "z \<noteq> y" using R(1) by auto
      with False show "load_fwd (H(y := None)) z i = load_fwd ?h z i" by (simp add: load load' del: upt_Suc)
    qed
    with split_chain [OF sp i] False show ?thesis by (simp add: tall_y)
  qed
  with H show ?thesis by blast
qed

text \<open>The entries without the key \<open>k\<close>.\<close>

definition del_entries :: "bytes \<Rightarrow> (bytes \<times> bytes) list \<Rightarrow> (bytes \<times> bytes) list" where
  "del_entries k es = filter (\<lambda>e. fst e \<noteq> k) es"

lemma del_entries_absent:
  "\<forall>a\<in>set ns. key_of h a \<noteq> key \<Longrightarrow> del_entries key (node_entries h ns) = node_entries h ns"
  by (auto simp: del_entries_def node_entries_def filter_id_conv)

lemma del_found_rep:
  assumes sp: "skip_split sl key xs (y # ys)" and shapeH: "shape H = shape (sl_heap sl)"
    and links: "\<forall>i\<le>kMaxLevel. linked (H(y := None)) i 0 (filter (tall (sl_heap sl) i) (xs @ ys))"
    and m: "m \<le> sl_max_level sl" "\<forall>j. m < j \<and> j \<le> sl_max_level sl \<longrightarrow> load_fwd (H(y := None)) 0 j = Some None"
  shows "SkipList_rep (sl\<lparr>sl_heap := H(y := None), sl_max_level := m,
      sl_mem_usage := sl_mem_usage sl - word_of_nat (node_bytes (sl_heap sl) y)\<rparr>) (xs @ ys)"
    (is "SkipList_rep ?s _")
    and "node_entries (H(y := None)) (xs @ ys) = node_entries (sl_heap sl) (xs @ ys)"
proof -
  let ?h = "sl_heap sl" and ?H = "H(y := None)"
  have rep: "SkipList_rep sl (xs @ y # ys)" using sp by (simp add: skip_split_def)
  note R = SkipList_repD [OF rep]
  have shape': "shape ?H = (shape ?h)(y := None)" by (simp add: shape_delete shapeH)
  have y: "y \<notin> set (0 # xs @ ys)" using R(1) by auto
  have T: "tall ?H i a = tall ?h i a" "key_of ?H a = key_of ?h a" "val_of ?H a = val_of ?h a"
    if "a \<in> set (xs @ ys)" for i a
    using that y by (auto simp: tall_def key_of_def val_of_def shape')
  have filt: "filter (tall ?H i) (xs @ ys) = filter (tall ?h i) (xs @ ys)" for i
    by (rule filter_cong) (simp_all only: T)
  have low: "\<not> tall ?h (m + 1) a" if a: "a \<in> set (xs @ ys)" for a
  proof (cases "m < sl_max_level sl")
    case True
    then have "load_fwd ?H 0 (m + 1) = Some None" using m(2) by simp
    moreover have "linked ?H (m + 1) 0 (filter (tall ?h (m + 1)) (xs @ ys))"
      using links True R(5) by simp
    ultimately have "filter (tall ?h (m + 1)) (xs @ ys) = []"
      using linked_load by (fastforce split: list.splits)
    then show ?thesis using a by (auto simp: filter_empty_conv)
  next
    case False
    with m(1) R(6) a show ?thesis by auto
  qed
  have "dom (shape g) = dom g" for g by (simp add: dom_def shape_def)
  from this [of H] this [of ?h] have "dom H = dom ?h" by (simp only: shapeH)
  then have dom: "dom ?H = set (0 # xs @ ys)" using R(2) y by auto
  show "SkipList_rep ?s (xs @ ys)"
    unfolding SkipList_rep_def
  proof (intro conjI)
    show "shape (sl_heap ?s) 0 = Some ([], [], kMaxLevel + 1)" using shape' R(4) y by simp
    show "sl_max_level ?s \<le> kMaxLevel" using m(1) R(5) by simp
    show "\<forall>a\<in>set (xs @ ys). is_ikey (key_of (sl_heap ?s) a) \<and> tall (sl_heap ?s) 0 a \<and>
        \<not> tall (sl_heap ?s) (sl_max_level ?s + 1) a"
      using R(6) T low by simp
    show "\<forall>i\<le>kMaxLevel. linked (sl_heap ?s) i 0 (filter (tall (sl_heap ?s) i) (xs @ ys))"
      using links filt by simp
    have "sorted_wrt (\<lambda>a b. ikey_rank (key_of ?h a) < ikey_rank (key_of ?h b)) (xs @ ys)"
      using R(8) by (auto simp: sorted_wrt_append)
    then show "sorted_wrt (\<lambda>a b. ikey_rank (key_of (sl_heap ?s) a) < ikey_rank (key_of (sl_heap ?s) b)) (xs @ ys)"
      by (rule sorted_wrt_mono_rel [rotated]) (simp add: T)
    have "sum_list (map (node_bytes ?H) (xs @ ys)) = sum_list (map (node_bytes ?h) (xs @ ys))"
      by (rule sum_bytes_cong) (simp add: T)
    then show "sl_mem_usage ?s = word_of_nat (sum_list (map (node_bytes (sl_heap ?s)) (xs @ ys)))"
      using R(9) by simp
  qed (use R(1,3) dom in auto)
  show "node_entries ?H (xs @ ys) = node_entries ?h (xs @ ys)"
    by (rule node_entries_cong) (simp only: T)
qed

theorem SkipList_del_rep:
  assumes rep: "SkipList_rep sl ns" and key: "is_ikey key"
  shows "\<exists>sl' ns'. SkipList_del sl key = Some sl' \<and> SkipList_rep sl' ns' \<and>
    node_entries (sl_heap sl') ns' = del_entries key (node_entries (sl_heap sl) ns)"
proof -
  let ?h = "sl_heap sl" and ?m = "sl_max_level sl"
  obtain xs ys where sp: "skip_split sl key xs ys" and ns: "ns = xs @ ys"
    using skip_split_exists [OF assms] by metis
  have m: "?m \<le> kMaxLevel" using SkipList_repD(5) [OF rep] .
  then obtain update where
    s: "search_down ?h key 0 (replicate (kMaxLevel + 1) None) ?m = Some (before ?h xs 0, update)"
    and len: "length update = kMaxLevel + 1"
    and upd: "\<And>j. j \<le> ?m \<Longrightarrow> update ! j = Some (before ?h xs j)"
    using search_down_result [OF sp, of ?m 0 "replicate (kMaxLevel + 1) None"] by auto
  note l0 = load_before_0 [OF sp]
  have xs_key: "\<forall>a\<in>set xs. key_of ?h a \<noteq> key" using split_keys(1) [OF sp] by blast
  show ?thesis
  proof (cases "\<forall>a\<in>set ys. key_of ?h a \<noteq> key")
    case True
    have "SkipList_del sl key = Some sl"
    proof (cases ys)
      case (Cons y ys')
      then obtain nd where "?h y = Some nd" using split_in_heap [OF sp, of y] by auto
      with s l0 Cons True key_val_of_node [of ?h y nd] show ?thesis by (simp add: SkipList_del_def)
    qed (use s l0 in \<open>simp add: SkipList_del_def\<close>)
    moreover have "del_entries key (node_entries ?h ns) = node_entries ?h ns"
      by (rule del_entries_absent) (use True xs_key ns in auto)
    ultimately show ?thesis using rep by auto
  next
    case False
    then obtain y ys' where ys: "ys = y # ys'" and y: "key_of ?h y = key"
      using split_keys(2) [OF sp] by (cases ys) auto
    then obtain nd where nd: "?h y = Some nd" using split_in_heap [OF sp, of y] by auto
    note sp' = sp [unfolded ys]
    obtain H where H: "unlink_levels ?h y update [0..<?m + 1] = Some H" "shape H = shape ?h"
      "\<forall>i\<le>kMaxLevel. linked (H(y := None)) i 0 (filter (tall ?h i) (xs @ ys'))"
      using del_heap [OF sp' len upd] by blast
    have "load_fwd (H(y := None)) 0 j \<noteq> None" if "j \<le> ?m" for j
      using linked_load H(3) that m by (metis le_trans option.distinct(1))
    then obtain m' where m': "shrink_level (H(y := None)) ?m = Some m'" "m' \<le> ?m"
      "\<forall>j. m' < j \<and> j \<le> ?m \<longrightarrow> load_fwd (H(y := None)) 0 j = Some None"
      using shrink_level_ok by metis
    let ?s = "sl\<lparr>sl_heap := H(y := None), sl_max_level := m',
      sl_mem_usage := sl_mem_usage sl - word_of_nat (node_bytes ?h y)\<rparr>"
    have "SkipList_del sl key = Some ?s"
      using s l0 ys nd y key_val_of_node [of ?h y nd, OF nd] H(1) m'(1)
      by (simp add: SkipList_del_def node_bytes_def del: upt_Suc)
    moreover have "node_entries (sl_heap ?s) (xs @ ys') = del_entries key (node_entries ?h ns)"
    proof -
      have "\<forall>a\<in>set (xs @ ys'). key_of ?h a \<noteq> key" using xs_key split_keys(2) [OF sp ys] by auto
      then have "del_entries key (node_entries ?h ns) = node_entries ?h (xs @ ys')"
        using y by (simp add: ns ys del_entries_def node_entries_def filter_id_conv)
      then show ?thesis using del_found_rep(2) [OF sp' H(2,3) m'(2,3)] by simp
    qed
    ultimately show ?thesis using del_found_rep(1) [OF sp' H(2,3) m'(2,3)] by blast
  qed
qed

section \<open>The ordered store interface\<close>

definition sorted_entries :: "(bytes \<times> bytes) list \<Rightarrow> bool" where
  "sorted_entries es \<longleftrightarrow>
     sorted_wrt (\<lambda>a b. ikey_rank (fst a) < ikey_rank (fst b)) es \<and> (\<forall>e\<in>set es. is_ikey (fst e))"

lemma sorted_entries_put:
  assumes "sorted_entries es" "is_ikey k"
  shows "sorted_entries (put_entries k v es)"
proof -
  have f: "sorted_wrt (\<lambda>a b. ikey_rank (fst a) < ikey_rank (fst b)) (filter P es)" for P
    using assms(1) by (simp add: sorted_entries_def sorted_wrt_filter)
  show ?thesis
    using assms f unfolding sorted_entries_def put_entries_def sorted_wrt_append
    by (auto intro: order.strict_trans)
qed

lemma sorted_entries_del: "sorted_entries es \<Longrightarrow> sorted_entries (del_entries k es)"
  by (auto simp: sorted_entries_def del_entries_def sorted_wrt_filter)

lemma map_of_put_entries:
  assumes "sorted_entries es" "is_ikey k"
  shows "map_of (put_entries k v es) = (map_of es)(k \<mapsto> v)"
proof
  fix k'
  show "map_of (put_entries k v es) k' = ((map_of es)(k \<mapsto> v)) k'"
  proof (cases "k' = k")
    case False
    have "map_of es k' = None" if "ikey_rank k' = ikey_rank k"
    proof (rule ccontr)
      assume "map_of es k' \<noteq> None"
      then have "is_ikey k'"
        using assms(1) by (force simp: sorted_entries_def dest: map_of_SomeD)
      then show False using ikey_rank_inj [of k' k] that assms(2) False by simp
    qed
    with False show ?thesis
      using map_of_filter_key [of "\<lambda>a. ikey_rank a < ikey_rank k" es k']
        map_of_filter_key [of "\<lambda>a. ikey_rank k < ikey_rank a" es k']
      by (auto simp: put_entries_def map_add_def split: option.split)
  qed (use map_of_filter_key [of "\<lambda>a. ikey_rank a < ikey_rank k" es k] in
        \<open>simp add: put_entries_def map_add_def\<close>)
qed

lemma map_of_del_entries: "map_of (del_entries k es) = (map_of es)(k := None)"
  using map_of_filter_key [of "\<lambda>a. a \<noteq> k" es] by (auto simp: del_entries_def)

text \<open>
  What the write buffer relies on: \<open>put\<close>, \<open>get\<close>, \<open>del\<close> and \<open>entries\<close> return on every
  store that satisfies the invariant and act as an ordered map on its content.
\<close>

locale ordered_store =
  fixes put :: "'s \<Rightarrow> bytes \<Rightarrow> bytes \<Rightarrow> 's option" and get :: "'s \<Rightarrow> bytes \<Rightarrow> bytes option option"
    and del :: "'s \<Rightarrow> bytes \<Rightarrow> 's option" and entries :: "'s \<Rightarrow> (bytes \<times> bytes) list option"
    and content :: "'s \<Rightarrow> (bytes \<times> bytes) list" and inv :: "'s \<Rightarrow> bool"
  assumes entries_content: "inv s \<Longrightarrow> entries s = Some (content s)"
    and content_sorted: "inv s \<Longrightarrow> sorted_entries (content s)"
    and get_content: "inv s \<Longrightarrow> is_ikey k \<Longrightarrow> get s k = Some (map_of (content s) k)"
    and put_content: "inv s \<Longrightarrow> is_ikey k \<Longrightarrow>
      \<exists>s'. put s k v = Some s' \<and> inv s' \<and> content s' = put_entries k v (content s)"
    and del_content: "inv s \<Longrightarrow> is_ikey k \<Longrightarrow>
      \<exists>s'. del s k = Some s' \<and> inv s' \<and> content s' = del_entries k (content s)"
begin

lemma get_put:
  assumes "inv s" "is_ikey k" "is_ikey k'" "put s k v = Some s'"
  shows "get s' k' = (if k' = k then Some (Some v) else get s k')"
  using assms put_content [OF assms(1,2), of v]
  by (auto simp: get_content map_of_put_entries content_sorted)

lemma get_del:
  assumes "inv s" "is_ikey k" "is_ikey k'" "del s k = Some s'"
  shows "get s' k' = (if k' = k then Some None else get s k')"
  using assms del_content [OF assms(1,2)] by (auto simp: get_content map_of_del_entries)

text \<open>A sequence of insertions, as a log replay or a batch performs it.\<close>

lemma put_run:
  assumes "inv s" "\<forall>e\<in>set es. is_ikey (fst e)"
  shows "\<exists>s'. foldl (\<lambda>os (k, v). Option.bind os (\<lambda>s. put s k v)) (Some s) es = Some s' \<and> inv s' \<and>
    content s' = fold (\<lambda>(k, v). put_entries k v) es (content s)"
  using assms
proof (induction es arbitrary: s)
  case (Cons e es)
  obtain k v where e: "e = (k, v)" by fastforce
  with Cons.prems put_content [of s k v] obtain s1 where
    s1: "put s k v = Some s1" "inv s1" "content s1 = put_entries k v (content s)" by auto
  from Cons.IH [OF s1(2)] Cons.prems e s1 show ?case by simp
qed simp

end

definition SkipList_content :: "SkipList \<Rightarrow> (bytes \<times> bytes) list" where
  "SkipList_content sl = (case SkipList_entries sl of None \<Rightarrow> [] | Some es \<Rightarrow> es)"

lemma SkipList_content_rep:
  "SkipList_rep sl ns \<Longrightarrow> SkipList_content sl = node_entries (sl_heap sl) ns"
  by (simp add: SkipList_content_def SkipList_entries_rep)

interpretation skip: ordered_store SkipList_put SkipList_get SkipList_del SkipList_entries
  SkipList_content SkipList_inv
proof
  fix s k v
  assume "SkipList_inv s"
  then obtain ns where ns: "SkipList_rep s ns" by (auto simp: SkipList_inv_def)
  note C = SkipList_content_rep [OF ns]
  show "SkipList_entries s = Some (SkipList_content s)" by (simp add: C SkipList_entries_rep [OF ns])
  show "sorted_entries (SkipList_content s)"
    using SkipList_repD(6,8) [OF ns]
    by (auto simp: C sorted_entries_def node_entries_def sorted_wrt_map)
  assume k: "is_ikey k"
  show "SkipList_get s k = Some (map_of (SkipList_content s) k)"
    by (simp add: C SkipList_get_rep [OF ns k])
  show "\<exists>s'. SkipList_put s k v = Some s' \<and> SkipList_inv s' \<and>
      SkipList_content s' = put_entries k v (SkipList_content s)"
    using SkipList_put_rep [OF ns k, of v] C SkipList_content_rep by (auto simp: SkipList_inv_def)
  show "\<exists>s'. SkipList_del s k = Some s' \<and> SkipList_inv s' \<and>
      SkipList_content s' = del_entries k (SkipList_content s)"
    using SkipList_del_rep [OF ns k] C SkipList_content_rep by (auto simp: SkipList_inv_def)
qed

lemma SkipList_inv_new [simp]: "SkipList_inv (SkipList_new rng)"
  using SkipList_rep_new by (auto simp: SkipList_inv_def)

lemma SkipList_content_new [simp]: "SkipList_content (SkipList_new rng) = []"
  using SkipList_content_rep [OF SkipList_rep_new] by (simp add: node_entries_def)

lemma SkipList_empty_content: "SkipList_inv sl \<Longrightarrow> SkipList_empty sl = Some (SkipList_content sl = [])"
  using SkipList_empty_rep SkipList_content_rep by (auto simp: SkipList_inv_def node_entries_def)

text \<open>
  The byte count the flush decision reads is the size of the content: it counts
  \<open>sizeof(SkipNode)\<close>, the key and the value of every entry, modulo \<open>2 ^ 64\<close>.
\<close>

lemma SkipList_mem_content:
  assumes "SkipList_inv sl"
  shows "SkipList_approximateMemoryUsage sl =
    word_of_nat (\<Sum>(k, v)\<leftarrow>SkipList_content sl. sizeof_SkipNode + length k + length v)"
proof -
  obtain ns where ns: "SkipList_rep sl ns" using assms by (auto simp: SkipList_inv_def)
  have "map (\<lambda>(k, v). sizeof_SkipNode + length k + length v) (node_entries (sl_heap sl) ns) =
      map (node_bytes (sl_heap sl)) ns"
    by (simp add: node_entries_def node_bytes_def)
  then show ?thesis
    using SkipList_repD(9) [OF ns] by (simp add: SkipList_content_rep [OF ns] SkipList_approximateMemoryUsage_def)
qed

end
