(* ===== verification/Iterator_Spec.thy ===== *)
theory Iterator_Spec
  imports Core_Types
begin

text \<open>
  The contract behind \<open>minikv/include/minikv/iterator.h\<close>. The abstract class only fixes the
  signatures; the locale adds what the callers of \<open>valid\<close>, \<open>key\<close>, \<open>value\<close> and \<open>next\<close>
  rely on, with \<open>rest\<close> for the entries the iterator still has to deliver. The memtable
  iterator, the table iterator and the merging iterator are interpretations of it.

  The client is the loop \<open>for (; it.valid(); it.next())\<close>, which the server's scan, the range
  delete and the compaction run. Its fuel is an upper bound on the number of entries: the
  lemma \<open>drain_rest\<close> shows that every bound from \<open>length (rest it)\<close> on gives the whole rest.
\<close>

fun iter_drain :: "('i \<Rightarrow> bool) \<Rightarrow> ('i \<Rightarrow> bytes) \<Rightarrow> ('i \<Rightarrow> bytes) \<Rightarrow> ('i \<Rightarrow> 'i) \<Rightarrow> nat \<Rightarrow> 'i
    \<Rightarrow> (bytes \<times> bytes) list" where
  "iter_drain valid key val nxt 0 it = []"
| "iter_drain valid key val nxt (Suc n) it =
     (if valid it then (key it, val it) # iter_drain valid key val nxt n (nxt it) else [])"

locale kv_iterator =
  fixes valid :: "'i \<Rightarrow> bool" and key :: "'i \<Rightarrow> bytes" and val :: "'i \<Rightarrow> bytes"
    and nxt :: "'i \<Rightarrow> 'i" and rest :: "'i \<Rightarrow> (bytes \<times> bytes) list" and ok :: "'i \<Rightarrow> bool"
  assumes valid_rest: "ok it \<Longrightarrow> valid it \<longleftrightarrow> rest it \<noteq> []"
    and entry_rest: "ok it \<Longrightarrow> valid it \<Longrightarrow> (key it, val it) = hd (rest it)"
    and next_rest: "ok it \<Longrightarrow> valid it \<Longrightarrow> ok (nxt it) \<and> rest (nxt it) = tl (rest it)"
begin

lemma drain_rest: "ok it \<Longrightarrow> length (rest it) \<le> n \<Longrightarrow> iter_drain valid key val nxt n it = rest it"
proof (induction n arbitrary: it)
  case (Suc n)
  show ?case
  proof (cases "rest it")
    case (Cons e es)
    then have "valid it" using valid_rest Suc.prems by simp
    then show ?thesis
      using Suc.IH [of "nxt it"] Suc.prems next_rest entry_rest Cons by simp
  qed (use valid_rest Suc.prems in simp)
qed simp

lemma drain_take: "ok it \<Longrightarrow> iter_drain valid key val nxt n it = take n (rest it)"
proof (induction n arbitrary: it)
  case (Suc n)
  then show ?case
    using valid_rest [of it] entry_rest [of it] next_rest [of it]
    by (cases "rest it") auto
qed simp

end

end
