(* ===== verification/Memtable.thy ===== *)
theory Memtable
  imports Skip_List Iterator_Spec
begin

text \<open>
  \<open>minikv/src/core/memtable.{h,cpp}\<close> and \<open>memtable_iterator.{h,cpp}\<close>: the write buffer over
  the skip list and its iterator. \<open>MemTable_run\<close> replays a history of writes; the lemmas
  show that for writes with increasing sequence numbers the versions of a user key are kept
  newest first, so that \<open>get\<close> answers with the last write of the key. As in the code the
  sequence argument of \<open>get\<close> is not used, and a deleted key is reported the same way as an
  absent one. The mutexes make every operation atomic and have no counterpart here.
\<close>

section \<open>Definitions\<close>

record MemTableEntry =
  internal_key :: bytes
  entry_value :: bytes

record MemTable =
  mt_table :: SkipList
  mt_max_size :: u64
  mt_entry_count :: u64

definition MemTable_new :: "u64 \<Rightarrow> bool list \<Rightarrow> MemTable" where
  "MemTable_new max_size rng =
     \<lparr>mt_table = SkipList_new rng, mt_max_size = max_size, mt_entry_count = 0\<rparr>"

definition MemTable_put :: "MemTable \<Rightarrow> Slice \<Rightarrow> Slice \<Rightarrow> u64 \<Rightarrow> bool \<Rightarrow> MemTable option" where
  "MemTable_put mt userKey val seq isDelete =
     (let type = (if isDelete then vtDeletion else vtValue);
          ikey = InternalKeyEncode userKey seq type;
          v = (if isDelete then [] else val)
      in do {
           t \<leftarrow> SkipList_put (mt_table mt) ikey v;
           Some (mt\<lparr>mt_table := t, mt_entry_count := mt_entry_count mt + 1\<rparr>)
         })"

fun memtable_scan :: "(bytes \<times> bytes) list \<Rightarrow> Slice \<Rightarrow> bytes option" where
  "memtable_scan [] userKey = None"
| "memtable_scan ((ik, v) # es) userKey =
     (let cmp = Slice_compare (InternalKeyUserKey ik) userKey
      in if cmp < 0 then memtable_scan es userKey
         else if cmp > 0 then None
         else if IsDeletion ik then None
         else Some v)"

definition MemTable_get :: "MemTable \<Rightarrow> Slice \<Rightarrow> u64 \<Rightarrow> bytes option option" where
  "MemTable_get mt userKey seq =
     do { es \<leftarrow> SkipList_entries (mt_table mt); Some (memtable_scan es userKey) }"

definition MemTable_entries :: "MemTable \<Rightarrow> MemTableEntry list option" where
  "MemTable_entries mt =
     do {
       raw \<leftarrow> SkipList_entries (mt_table mt);
       Some (map (\<lambda>(k, v). \<lparr>internal_key = k, entry_value = v\<rparr>) raw)
     }"

definition MemTable_approximateMemoryUsage :: "MemTable \<Rightarrow> u64" where
  "MemTable_approximateMemoryUsage mt = SkipList_approximateMemoryUsage (mt_table mt)"

definition MemTable_shouldFlush :: "MemTable \<Rightarrow> bool" where
  "MemTable_shouldFlush mt \<longleftrightarrow> MemTable_approximateMemoryUsage mt \<ge> mt_max_size mt"

definition MemTable_empty :: "MemTable \<Rightarrow> bool option" where
  "MemTable_empty mt = SkipList_empty (mt_table mt)"

subsection \<open>The iterator\<close>

record MemTableIterator =
  mti_entries :: "MemTableEntry list"
  mti_index :: nat
  mti_status :: Status

definition MemTableIterator_new :: "MemTableEntry list \<Rightarrow> MemTableIterator" where
  "MemTableIterator_new es =
     \<lparr>mti_entries = sort_by (\<lambda>a b. InternalKeyCompare (internal_key a) (internal_key b) < 0) es,
      mti_index = 0, mti_status = Status_Ok\<rparr>"

definition MemTableIterator_valid :: "MemTableIterator \<Rightarrow> bool" where
  "MemTableIterator_valid it \<longleftrightarrow> Status_ok (mti_status it) \<and> mti_index it < length (mti_entries it)"

definition MemTableIterator_seekToFirst :: "MemTableIterator \<Rightarrow> MemTableIterator" where
  "MemTableIterator_seekToFirst it = it\<lparr>mti_index := 0\<rparr>"

fun seek_index :: "MemTableEntry list \<Rightarrow> Slice \<Rightarrow> nat \<Rightarrow> nat" where
  "seek_index [] target i = i"
| "seek_index (e # es) target i =
     (if InternalKeyCompare (internal_key e) target < 0 then seek_index es target (i + 1) else i)"

definition MemTableIterator_seek :: "MemTableIterator \<Rightarrow> Slice \<Rightarrow> MemTableIterator" where
  "MemTableIterator_seek it target = it\<lparr>mti_index := seek_index (mti_entries it) target 0\<rparr>"

definition MemTableIterator_next :: "MemTableIterator \<Rightarrow> MemTableIterator" where
  "MemTableIterator_next it =
     (if \<not> MemTableIterator_valid it then it else it\<lparr>mti_index := mti_index it + 1\<rparr>)"

definition MemTableIterator_key :: "MemTableIterator \<Rightarrow> Slice" where
  "MemTableIterator_key it =
     (if \<not> MemTableIterator_valid it then [] else internal_key (mti_entries it ! mti_index it))"

definition MemTableIterator_value :: "MemTableIterator \<Rightarrow> Slice" where
  "MemTableIterator_value it =
     (if \<not> MemTableIterator_valid it then [] else entry_value (mti_entries it ! mti_index it))"

definition MemTableIterator_status :: "MemTableIterator \<Rightarrow> Status" where
  "MemTableIterator_status it = mti_status it"

section \<open>Write histories\<close>

text \<open>A write as the callers issue it: user key, value, sequence number, deletion flag.\<close>

record write_op =
  w_key :: bytes
  w_value :: bytes
  w_seq :: u64
  w_delete :: bool

definition MemTable_apply :: "MemTable \<Rightarrow> write_op \<Rightarrow> MemTable option" where
  "MemTable_apply mt w = MemTable_put mt (w_key w) (w_value w) (w_seq w) (w_delete w)"

fun MemTable_run :: "MemTable \<Rightarrow> write_op list \<Rightarrow> MemTable option" where
  "MemTable_run mt [] = Some mt"
| "MemTable_run mt (w # ws) = do { mt \<leftarrow> MemTable_apply mt w; MemTable_run mt ws }"

definition MemTable_content :: "MemTable \<Rightarrow> (bytes \<times> bytes) list" where
  "MemTable_content mt = SkipList_content (mt_table mt)"

definition MemTable_inv :: "MemTable \<Rightarrow> bool" where
  "MemTable_inv mt \<longleftrightarrow> SkipList_inv (mt_table mt)"

definition entry_of :: "write_op \<Rightarrow> bytes \<times> bytes" where
  "entry_of w =
     (InternalKeyEncode (w_key w) (w_seq w) (if w_delete w then vtDeletion else vtValue),
      if w_delete w then [] else w_value w)"

text \<open>The versions of a user key in a sorted entry list, newest first.\<close>

definition versions :: "bytes \<Rightarrow> (bytes \<times> bytes) list \<Rightarrow> (bytes \<times> bytes) list" where
  "versions uk es = filter (\<lambda>e. InternalKeyUserKey (fst e) = uk) es"

text \<open>The specification of a read: the last write of the key decides.\<close>

definition last_write :: "write_op list \<Rightarrow> bytes \<Rightarrow> write_op option" where
  "last_write ws uk =
     (let us = filter (\<lambda>w. w_key w = uk) ws in if us = [] then None else Some (last us))"

definition read_write :: "write_op option \<Rightarrow> bytes option" where
  "read_write w = (case w of None \<Rightarrow> None | Some w \<Rightarrow> if w_delete w then None else Some (w_value w))"

definition seqs_increasing :: "write_op list \<Rightarrow> bool" where
  "seqs_increasing ws \<longleftrightarrow> sorted_wrt (\<lambda>a b. w_seq a < w_seq b) ws \<and> (\<forall>w\<in>set ws. unat (w_seq w) < 2 ^ 56)"

section \<open>Correctness of the write buffer\<close>

lemma MemTable_inv_new [simp]: "MemTable_inv (MemTable_new n rng)"
  by (simp add: MemTable_inv_def MemTable_new_def)

lemma MemTable_content_new [simp]: "MemTable_content (MemTable_new n rng) = []"
  by (simp add: MemTable_content_def MemTable_new_def)

lemma MemTable_content_sorted: "MemTable_inv mt \<Longrightarrow> sorted_entries (MemTable_content mt)"
  by (simp add: MemTable_inv_def MemTable_content_def skip.content_sorted)

lemma MemTable_apply_content:
  assumes "MemTable_inv mt"
  shows "\<exists>mt'. MemTable_apply mt w = Some mt' \<and> MemTable_inv mt' \<and>
    MemTable_content mt' = put_entries (fst (entry_of w)) (snd (entry_of w)) (MemTable_content mt) \<and>
    mt_max_size mt' = mt_max_size mt"
proof -
  have "SkipList_inv (mt_table mt)" "is_ikey (fst (entry_of w))"
    using assms by (simp_all add: MemTable_inv_def entry_of_def kTrailerBytes_def)
  from skip.put_content [OF this, of "snd (entry_of w)"] show ?thesis
    by (auto simp: MemTable_apply_def MemTable_put_def Let_def entry_of_def MemTable_inv_def
        MemTable_content_def)
qed

lemma versions_append [simp]: "versions uk (xs @ ys) = versions uk xs @ versions uk ys"
  by (simp add: versions_def)

lemma versions_put_other:
  assumes "sorted_entries es" "is_ikey k" "InternalKeyUserKey k \<noteq> uk"
  shows "versions uk (put_entries k v es) = versions uk es"
proof -
  let ?lt = "filter (\<lambda>e. ikey_rank (fst e) < ikey_rank k) es"
  have "versions uk (filter (\<lambda>e. \<not> ikey_rank (fst e) < ikey_rank k) es) =
      versions uk (filter (\<lambda>e. ikey_rank k < ikey_rank (fst e)) es)"
    unfolding versions_def filter_filter
  proof (rule filter_cong)
    fix e assume "e \<in> set es"
    then have "is_ikey (fst e)" using assms(1) by (simp add: sorted_entries_def)
    then have "ikey_rank k \<noteq> ikey_rank (fst e)" if "InternalKeyUserKey (fst e) = uk"
      using ikey_rank_inj [of "fst e" k] assms(2,3) that by auto
    then show "(\<not> ikey_rank (fst e) < ikey_rank k \<and> InternalKeyUserKey (fst e) = uk) =
        (ikey_rank k < ikey_rank (fst e) \<and> InternalKeyUserKey (fst e) = uk)"
      by (metis less_asym not_less_iff_gr_or_eq)
  qed simp
  moreover have "es = ?lt @ filter (\<lambda>e. \<not> ikey_rank (fst e) < ikey_rank k) es"
    using sorted_split_filter [of "\<lambda>e. ikey_rank (fst e)" es "ikey_rank k"] assms(1)
    by (simp add: sorted_entries_def)
  ultimately have "versions uk es = versions uk ?lt @ versions uk (filter (\<lambda>e. ikey_rank k < ikey_rank (fst e)) es)"
    by (metis versions_append)
  then show ?thesis using assms(3) by (simp add: put_entries_def versions_def)
qed

lemma versions_put_newer:
  assumes "\<And>e. e \<in> set es \<Longrightarrow> InternalKeyUserKey (fst e) = uk \<Longrightarrow> ikey_rank k < ikey_rank (fst e)"
    and "InternalKeyUserKey k = uk"
  shows "versions uk (put_entries k v es) = (k, v) # versions uk es"
proof -
  have "versions uk (filter (\<lambda>e. ikey_rank (fst e) < ikey_rank k) es) = []"
    using assms(1) by (auto simp: versions_def filter_empty_conv dest: order.asym)
  moreover have "versions uk (filter (\<lambda>e. ikey_rank k < ikey_rank (fst e)) es) = versions uk es"
    using assms(1) by (auto simp: versions_def intro!: filter_cong)
  ultimately show ?thesis
    using assms(2) by (simp add: put_entries_def) (simp add: versions_def)
qed

lemma entry_of_simps [simp]:
  "InternalKeyUserKey (fst (entry_of w)) = w_key w" "is_ikey (fst (entry_of w))"
  "IsDeletion (fst (entry_of w)) = w_delete w"
  "\<not> w_delete w \<Longrightarrow> snd (entry_of w) = w_value w"
  by (simp_all add: entry_of_def kTrailerBytes_def)

lemma entry_of_newer:
  "unat (w_seq a) < 2 ^ 56 \<Longrightarrow> unat (w_seq b) < 2 ^ 56 \<Longrightarrow> w_key a = w_key b \<Longrightarrow> w_seq a < w_seq b \<Longrightarrow>
     ikey_rank (fst (entry_of b)) < ikey_rank (fst (entry_of a))"
  by (simp add: entry_of_def ikey_rank_encode)

lemma MemTable_run_append:
  "MemTable_run mt (ws @ us) = do { mt \<leftarrow> MemTable_run mt ws; MemTable_run mt us }"
  by (induction ws arbitrary: mt) (auto split: Option.bind_split)

text \<open>
  After writes with increasing sequence numbers the buffer holds, for every user key, exactly
  its writes, the newest first.
\<close>

lemma MemTable_run_versions:
  assumes "seqs_increasing ws"
  shows "\<exists>mt. MemTable_run (MemTable_new n rng) ws = Some mt \<and> MemTable_inv mt \<and>
    (\<forall>uk. versions uk (MemTable_content mt) = rev (map entry_of (filter (\<lambda>w. w_key w = uk) ws))) \<and>
    set (MemTable_content mt) = entry_of ` set ws"
  using assms
proof (induction ws rule: rev_induct)
  case Nil
  show ?case by (simp add: versions_def)
next
  case (snoc w ws)
  then have inc: "seqs_increasing ws" and w: "unat (w_seq w) < 2 ^ 56" "\<forall>a\<in>set ws. w_seq a < w_seq w"
    by (auto simp: seqs_increasing_def sorted_wrt_append)
  obtain mt where mt: "MemTable_run (MemTable_new n rng) ws = Some mt" "MemTable_inv mt"
    "\<And>uk. versions uk (MemTable_content mt) = rev (map entry_of (filter (\<lambda>w. w_key w = uk) ws))"
    "set (MemTable_content mt) = entry_of ` set ws"
    using snoc.IH [OF inc] by blast
  let ?k = "fst (entry_of w)" and ?v = "snd (entry_of w)"
  obtain mt' where mt': "MemTable_apply mt w = Some mt'" "MemTable_inv mt'"
    "MemTable_content mt' = put_entries ?k ?v (MemTable_content mt)"
    using MemTable_apply_content [OF mt(2)] by blast
  have newer: "ikey_rank ?k < ikey_rank (fst (entry_of a))" if "a \<in> set ws" "w_key a = w_key w" for a
    by (rule entry_of_newer) (use that w inc in \<open>auto simp: seqs_increasing_def\<close>)
  have "versions uk (MemTable_content mt') = rev (map entry_of (filter (\<lambda>w. w_key w = uk) (ws @ [w])))" for uk
  proof (cases "w_key w = uk")
    case True
    have "versions uk (MemTable_content mt') = (?k, ?v) # versions uk (MemTable_content mt)"
      unfolding mt'(3) by (rule versions_put_newer) (use mt(4) newer True in auto)
    with True mt(3) show ?thesis by simp
  next
    case False
    then show ?thesis
      using versions_put_other [OF MemTable_content_sorted [OF mt(2)], of ?k uk ?v] mt(3) mt'(3) by simp
  qed
  moreover have "set (MemTable_content mt') = entry_of ` set (ws @ [w])"
  proof -
    have "ikey_rank (fst e) \<noteq> ikey_rank ?k" if "e \<in> set (MemTable_content mt)" for e
    proof
      assume eq: "ikey_rank (fst e) = ikey_rank ?k"
      have "e \<in> entry_of ` set ws" using that mt(4) by blast
      then obtain a where a: "a \<in> set ws" "e = entry_of a" by (rule imageE)
      from eq have "fst (ikey_rank (fst e)) = fst (ikey_rank ?k)" by simp
      then have "w_key a = w_key w" using a by simp
      then show False using newer [OF a(1)] eq a by simp
    qed
    then have "ikey_rank (fst e) < ikey_rank ?k \<or> ikey_rank ?k < ikey_rank (fst e)"
      if "e \<in> set (MemTable_content mt)" for e
      using that by (meson neqE)
    then have "e \<in> set (MemTable_content mt') \<longleftrightarrow> e = (?k, ?v) \<or> e \<in> set (MemTable_content mt)" for e
      unfolding mt'(3) put_entries_def set_append list.set set_filter by blast
    then show ?thesis using mt(4) by auto
  qed
  ultimately show ?case
    using mt(1) mt' by (auto simp: MemTable_run_append)
qed

text \<open>The loop of \<open>get\<close> on a sorted list finds the first version of the key.\<close>

lemma memtable_scan_versions:
  assumes "sorted_entries es"
  shows "memtable_scan es uk =
    (case versions uk es of [] \<Rightarrow> None | (ik, v) # _ \<Rightarrow> if IsDeletion ik then None else Some v)"
  using assms
proof (induction es)
  case (Cons e es)
  obtain ik v where e: "e = (ik, v)" by fastforce
  have cmp: "Slice_compare (InternalKeyUserKey ik) uk < 0 \<longleftrightarrow> InternalKeyUserKey ik < uk"
    "0 < Slice_compare (InternalKeyUserKey ik) uk \<longleftrightarrow> uk < InternalKeyUserKey ik"
    using slice_cmp.cmp_neg slice_cmp.cmp_pos by auto
  have later: "InternalKeyUserKey ik \<le> InternalKeyUserKey (fst d)" if "d \<in> set es" for d
    using that Cons.prems e by (intro ikey_rank_user_mono) (auto simp: sorted_entries_def)
  have es: "sorted_entries es" using Cons.prems by (simp add: sorted_entries_def)
  consider "InternalKeyUserKey ik < uk" | "uk < InternalKeyUserKey ik" | "InternalKeyUserKey ik = uk"
    by fastforce
  then show ?case
  proof cases
    case 1
    with Cons.IH [OF es] cmp show ?thesis by (auto simp: e versions_def)
  next
    case 2
    then have "versions uk (e # es) = []"
      using later by (fastforce simp: versions_def e filter_empty_conv)
    with 2 cmp show ?thesis using less_not_sym [of uk "InternalKeyUserKey ik"] by (auto simp: e)
  next
    case 3
    with cmp show ?thesis by (simp add: e versions_def)
  qed
qed (simp add: versions_def)

lemma MemTable_get_scan:
  "MemTable_inv mt \<Longrightarrow> MemTable_get mt uk seq = Some (memtable_scan (MemTable_content mt) uk)"
  by (simp add: MemTable_get_def MemTable_inv_def MemTable_content_def skip.entries_content)

lemma MemTable_entries_content:
  "MemTable_inv mt \<Longrightarrow> MemTable_entries mt =
     Some (map (\<lambda>(k, v). \<lparr>internal_key = k, entry_value = v\<rparr>) (MemTable_content mt))"
  by (simp add: MemTable_entries_def MemTable_inv_def MemTable_content_def skip.entries_content)

lemma MemTable_run_get:
  assumes "seqs_increasing ws"
  shows "\<exists>mt. MemTable_run (MemTable_new n rng) ws = Some mt \<and>
    MemTable_get mt uk seq = Some (read_write (last_write ws uk))"
proof -
  obtain mt where mt: "MemTable_run (MemTable_new n rng) ws = Some mt" "MemTable_inv mt"
    "versions uk (MemTable_content mt) = rev (map entry_of (filter (\<lambda>w. w_key w = uk) ws))"
    using MemTable_run_versions [OF assms] by metis
  have "memtable_scan (MemTable_content mt) uk = read_write (last_write ws uk)"
    unfolding memtable_scan_versions [OF MemTable_content_sorted [OF mt(2)]] mt(3) last_write_def
    by (cases "filter (\<lambda>w. w_key w = uk) ws" rule: rev_cases)
      (simp_all add: read_write_def entry_of_def)
  then show ?thesis using mt MemTable_get_scan by auto
qed

section \<open>The iterator delivers the entries in order\<close>

definition mti_rest :: "MemTableIterator \<Rightarrow> (bytes \<times> bytes) list" where
  "mti_rest it = map (\<lambda>e. (internal_key e, entry_value e)) (drop (mti_index it) (mti_entries it))"

definition mti_ok :: "MemTableIterator \<Rightarrow> bool" where
  "mti_ok it \<longleftrightarrow> Status_ok (mti_status it)"

interpretation mti: kv_iterator MemTableIterator_valid MemTableIterator_key MemTableIterator_value
  MemTableIterator_next mti_rest mti_ok
  by unfold_locales
    (auto simp: MemTableIterator_valid_def MemTableIterator_key_def MemTableIterator_value_def
      MemTableIterator_next_def mti_rest_def mti_ok_def hd_map hd_drop_conv_nth
      simp flip: map_tl simp: tl_drop drop_Suc)

lemma seek_index_drop:
  "drop (seek_index es target i - i) es = dropWhile (\<lambda>e. InternalKeyCompare (internal_key e) target < 0) es \<and>
     i \<le> seek_index es target i"
proof (induction es arbitrary: i)
  case (Cons e es)
  obtain n where "seek_index es target (Suc i) = Suc i + n"
    using Cons.IH [of "Suc i"] by (auto dest: le_Suc_ex)
  then show ?case using Cons.IH [of "Suc i"] by auto
qed simp

lemma MemTableIterator_seek_rest:
  "mti_rest (MemTableIterator_seek it target) =
     dropWhile (\<lambda>e. InternalKeyCompare (fst e) target < 0)
       (map (\<lambda>e. (internal_key e, entry_value e)) (mti_entries it))"
  using seek_index_drop [of "mti_entries it" target 0]
  by (simp add: mti_rest_def MemTableIterator_seek_def dropWhile_map o_def)

lemma MemTableIterator_new_rest:
  assumes "sorted_entries es"
  shows "mti_rest (MemTableIterator_new (map (\<lambda>(k, v). \<lparr>internal_key = k, entry_value = v\<rparr>) es)) = es"
proof -
  let ?ms = "map (\<lambda>(k, v). \<lparr>internal_key = k, entry_value = v\<rparr>) es"
  let ?lt = "\<lambda>a b. InternalKeyCompare (internal_key a) (internal_key b) < 0"
  have "sort_by ?lt ?ms = ?ms"
  proof (rule sort_by_sorted [where rank = "\<lambda>e. ikey_rank (internal_key e)"])
    show "?lt a b \<longleftrightarrow> ikey_rank (internal_key a) < ikey_rank (internal_key b)"
      if "a \<in> set ?ms" "b \<in> set ?ms" for a b
      using that assms by (intro ikey_cmp.cmp_neg) (auto simp: sorted_entries_def)
    have "sorted_wrt (<) (map (\<lambda>e. ikey_rank (fst e)) es)"
      using assms by (simp add: sorted_entries_def sorted_wrt_map)
    then show "sorted (map (\<lambda>e. ikey_rank (internal_key e)) ?ms)"
      by (simp add: strict_sorted_imp_sorted case_prod_unfold o_def)
  qed
  then show ?thesis
    by (simp add: mti_rest_def MemTableIterator_new_def case_prod_unfold o_def)
qed

end
