(* ===== verification/Block.thy ===== *)
theory Block
  imports Memtable
begin

text \<open>
  \<open>minikv/src/core/block.{h,cpp}\<close>: the prefix-compressed data block. The lemmas show that a
  reader finds in a finished block exactly the entries that were added, in order, and that
  \<open>getByUserKey\<close> and \<open>get\<close> answer as a search of that entry list.

  On a corrupt block the code may read behind the data; the model takes the bytes that are there.
\<close>

section \<open>The builder\<close>

record BlockHandle =
  bh_offset :: u64
  bh_size :: u64

record BlockBuilder =
  bb_buffer :: bytes
  bb_block_size :: nat
  bb_last_key :: bytes
  bb_finished :: bool
  bb_restarts :: "u32 list"
  bb_restart_counter :: nat

definition kRestartInterval :: nat where
  "kRestartInterval = 16"

definition BlockBuilder_new :: "nat \<Rightarrow> BlockBuilder" where
  "BlockBuilder_new bsize =
     \<lparr>bb_buffer = [], bb_block_size = bsize, bb_last_key = [], bb_finished = False,
      bb_restarts = [0], bb_restart_counter = 0\<rparr>"

text \<open>The loop that counts the bytes shared with the previous key.\<close>

fun shared_len :: "bytes \<Rightarrow> bytes \<Rightarrow> nat" where
  "shared_len (a # as) (b # bs) = (if a = b then Suc (shared_len as bs) else 0)"
| "shared_len _ _ = 0"

definition entry_header :: "nat \<Rightarrow> Slice \<Rightarrow> Slice \<Rightarrow> bytes" where
  "entry_header shared key val =
     encodeVariant32
       (encodeVariant32
         (encodeVariant32 [] (word_of_nat shared))
         (word_of_nat (length key - shared)))
       (size_u32 val)"

definition BlockBuilder_add :: "BlockBuilder \<Rightarrow> Slice \<Rightarrow> Slice \<Rightarrow> BlockBuilder" where
  "BlockBuilder_add bb key val =
     (let compress = bb_restart_counter bb < kRestartInterval \<and> bb_last_key bb \<noteq> [];
          restart = \<not> compress \<and> bb_restart_counter bb \<ge> kRestartInterval;
          shared = (if compress then shared_len (bb_last_key bb) key else 0);
          restarts = (if restart then bb_restarts bb @ [size_u32 (bb_buffer bb)] else bb_restarts bb);
          counter = (if restart then 0 else bb_restart_counter bb)
      in bb\<lparr>bb_buffer := bb_buffer bb @ entry_header shared key val @ drop shared key @ val,
            bb_last_key := key, bb_restarts := restarts, bb_restart_counter := counter + 1\<rparr>)"

definition BlockBuilder_finish :: "BlockBuilder \<Rightarrow> BlockBuilder \<times> Slice" where
  "BlockBuilder_finish bb =
     (let bb = bb\<lparr>bb_buffer := bb_buffer bb @ concat (map encodeFixed32 (bb_restarts bb)) @
                    encodeFixed32 (size_u32 (bb_restarts bb)), bb_finished := True\<rparr>
      in (bb, bb_buffer bb))"

definition BlockBuilder_empty :: "BlockBuilder \<Rightarrow> bool" where
  "BlockBuilder_empty bb \<longleftrightarrow> bb_buffer bb = []"

definition BlockBuilder_size :: "BlockBuilder \<Rightarrow> nat" where
  "BlockBuilder_size bb = length (bb_buffer bb)"

section \<open>The reader\<close>

record BlockReader =
  br_data :: bytes
  br_num_entries :: u32
  br_restarts_offset :: u32

definition BlockReader_new :: "Slice \<Rightarrow> BlockReader" where
  "BlockReader_new block_data =
     (if length block_data < 4
      then \<lparr>br_data = block_data, br_num_entries = 0, br_restarts_offset = 0\<rparr>
      else
        let restarts_count = decodeFixed32 (drop (length block_data - 4) block_data)
        in \<lparr>br_data = block_data, br_num_entries = restarts_count,
            br_restarts_offset = ucast (size_u64 block_data - 4 - ucast (restarts_count * 4) :: u64)\<rparr>)"

text \<open>
  The part the three loops share: decode the entry at \<open>offset\<close>, given the previous key. The
  result is the key, the value and the offset behind the entry; \<open>None\<close> is \<open>break\<close>.
\<close>

definition window :: "bytes \<Rightarrow> nat \<Rightarrow> nat \<Rightarrow> bytes" where
  "window data limit offset = take (limit - offset) (drop offset data)"

definition block_entry :: "bytes \<Rightarrow> nat \<Rightarrow> nat \<Rightarrow> bytes \<Rightarrow> (bytes \<times> bytes \<times> nat) option" where
  "block_entry data limit offset lastKey =
     (case decodeVariant32 (window data limit offset) of
        None \<Rightarrow> None
      | Some (shared, consumed) \<Rightarrow>
     (let p = offset + consumed in
      case decodeVariant32 (window data limit p) of
        None \<Rightarrow> None
      | Some (nonShared, consumed) \<Rightarrow>
     (let p = p + consumed in
      case decodeVariant32 (window data limit p) of
        None \<Rightarrow> None
      | Some (valLen, consumed) \<Rightarrow>
          let p = p + consumed;
              currentKey = take (unat shared) lastKey @ take (unat nonShared) (drop p data);
              p = p + unat nonShared
          in Some (currentKey, take (unat valLen) (drop p data), p + unat valLen))))"

lemma block_entry_offset: "block_entry data limit offset lastKey = Some (k, v, offset') \<Longrightarrow> offset < offset'"
  by (auto simp: block_entry_def Let_def split: option.splits dest!: decodeVariant32_consumed)

function block_get_loop :: "bytes \<Rightarrow> nat \<Rightarrow> nat \<Rightarrow> bytes \<Rightarrow> Slice \<Rightarrow> bytes option" where
  "block_get_loop data limit offset lastKey key =
     (if offset < limit then
        (case block_entry data limit offset lastKey of
           None \<Rightarrow> None
         | Some (currentKey, val, offset') \<Rightarrow>
             if currentKey = key then Some val
             else if currentKey > key then None
             else block_get_loop data limit offset' currentKey key)
      else None)"
  by pat_completeness auto
termination
  by (relation "measure (\<lambda>(data, limit, offset, _). limit - offset)") (auto dest!: block_entry_offset)

function block_getByUserKey_loop :: "bytes \<Rightarrow> nat \<Rightarrow> nat \<Rightarrow> bytes \<Rightarrow> Slice \<Rightarrow> bytes option" where
  "block_getByUserKey_loop data limit offset lastKey userKey =
     (if offset < limit then
        (case block_entry data limit offset lastKey of
           None \<Rightarrow> None
         | Some (currentKey, val, offset') \<Rightarrow>
             let cmp = Slice_compare (InternalKeyUserKey currentKey) userKey in
             if cmp = 0 then (if IsDeletion currentKey then None else Some val)
             else if cmp > 0 then None
             else block_getByUserKey_loop data limit offset' currentKey userKey)
      else None)"
  by pat_completeness auto
termination
  by (relation "measure (\<lambda>(data, limit, offset, _). limit - offset)") (auto dest!: block_entry_offset)

text \<open>\<open>forEach\<close>: the calls of the callback, in order.\<close>

function block_forEach_loop :: "bytes \<Rightarrow> nat \<Rightarrow> nat \<Rightarrow> bytes \<Rightarrow> (bytes \<times> bytes) list" where
  "block_forEach_loop data limit offset lastKey =
     (if offset < limit then
        (case block_entry data limit offset lastKey of
           None \<Rightarrow> []
         | Some (currentKey, val, offset') \<Rightarrow>
             (currentKey, val) # block_forEach_loop data limit offset' currentKey)
      else [])"
  by pat_completeness auto
termination
  by (relation "measure (\<lambda>(data, limit, offset, _). limit - offset)") (auto dest!: block_entry_offset)

declare block_get_loop.simps [simp del]
declare block_getByUserKey_loop.simps [simp del]
declare block_forEach_loop.simps [simp del]

definition BlockReader_get :: "BlockReader \<Rightarrow> Slice \<Rightarrow> bytes option" where
  "BlockReader_get br key = block_get_loop (br_data br) (unat (br_restarts_offset br)) 0 [] key"

definition BlockReader_getByUserKey :: "BlockReader \<Rightarrow> Slice \<Rightarrow> bytes option" where
  "BlockReader_getByUserKey br userKey =
     block_getByUserKey_loop (br_data br) (unat (br_restarts_offset br)) 0 [] userKey"

definition BlockReader_forEach :: "BlockReader \<Rightarrow> (bytes \<times> bytes) list" where
  "BlockReader_forEach br = block_forEach_loop (br_data br) (unat (br_restarts_offset br)) 0 []"

section \<open>Entries of a block\<close>

lemma unat_of_nat_small: "n < 2 ^ 32 \<Longrightarrow> unat (word_of_nat n :: u32) = n"
  unfolding unat_of_nat by simp

text \<open>A run of encoded entries, each with the number of bytes it shares with its predecessor.\<close>

definition entry_image :: "nat \<times> bytes \<times> bytes \<Rightarrow> bytes" where
  "entry_image e = (case e of (s, k, v) \<Rightarrow> entry_header s k v @ drop s k @ v)"

fun valid_run :: "bytes \<Rightarrow> (nat \<times> bytes \<times> bytes) list \<Rightarrow> bool" where
  "valid_run prev [] \<longleftrightarrow> True"
| "valid_run prev ((s, k, v) # rs) \<longleftrightarrow>
     s \<le> length k \<and> take s prev = take s k \<and> length k < 2 ^ 32 \<and> length v < 2 ^ 32 \<and> valid_run k rs"

lemma entry_header_parts:
  "entry_header s k v = encodeVariant32 [] (word_of_nat s) @
     encodeVariant32 [] (word_of_nat (length k - s)) @ encodeVariant32 [] (size_u32 v)"
  by (simp add: entry_header_def encodeVariant32_acc [of "encodeVariant32 _ _"]
      encodeVariant32_acc [of "encodeVariant32 _ _ @ _"])

lemma window_append:
  "length pre \<le> limit \<Longrightarrow> limit \<le> length (pre @ x) \<Longrightarrow>
     window (pre @ x @ y) limit (length pre) = take (limit - length pre) x"
  by (simp add: window_def)

lemma block_entry_image:
  assumes run: "s \<le> length k" "take s lastKey = take s k" "length k < 2 ^ 32" "length v < 2 ^ 32"
    and limit: "limit = length (pre @ entry_image (s, k, v) @ post)"
  shows "block_entry (pre @ entry_image (s, k, v) @ post @ tail) limit (length pre) lastKey =
    Some (k, v, length (pre @ entry_image (s, k, v)))"
proof -
  let ?s = "word_of_nat s :: u32" and ?n = "word_of_nat (length k - s) :: u32"
  let ?a = "encodeVariant32 [] ?s" and ?b = "encodeVariant32 [] ?n" and ?c = "encodeVariant32 [] (size_u32 v)"
  let ?data = "pre @ ?a @ ?b @ ?c @ drop s k @ v @ post @ tail"
  have data: "pre @ entry_image (s, k, v) @ post @ tail = ?data"
    by (simp add: entry_image_def entry_header_parts)
  have lim: "limit = length (pre @ ?a @ ?b @ ?c @ drop s k @ v @ post)"
    using limit by (simp add: entry_image_def entry_header_parts)
  have u: "unat ?s = s" "unat ?n = length k - s" "unat (size_u32 v) = length v"
    by (rule unat_of_nat_small, use run in linarith)+ (rule unat_size_u32, use run in simp)
  have "window ?data limit (length pre) = ?a @ (?b @ ?c @ drop s k @ v @ post)"
    "window ?data limit (length pre + length ?a) = ?b @ (?c @ drop s k @ v @ post)"
    "window ?data limit (length pre + length ?a + length ?b) = ?c @ (drop s k @ v @ post)"
    unfolding window_def lim by simp_all
  moreover have "take (length k - s) (drop (length pre + length ?a + length ?b + length ?c) ?data) = drop s k"
    "take (length v) (drop (length pre + length ?a + length ?b + length ?c + (length k - s)) ?data) = v"
    by simp_all
  ultimately show ?thesis
    using run(2) unfolding data block_entry_def
    by (simp add: u entry_image_def entry_header_parts Let_def)
qed

lemma entry_image_nonempty: "entry_image e \<noteq> []"
  by (cases e) (simp add: entry_image_def entry_header_parts)

lemma block_forEach_run:
  assumes "valid_run lastKey rs"
  shows "block_forEach_loop (pre @ concat (map entry_image rs) @ tail)
    (length (pre @ concat (map entry_image rs))) (length pre) lastKey = map snd rs"
  using assms
proof (induction rs arbitrary: pre lastKey)
  case Nil
  then show ?case by (simp add: block_forEach_loop.simps)
next
  case (Cons r rs)
  obtain s k v where r: "r = (s, k, v)" by (metis prod.collapse)
  let ?post = "concat (map entry_image rs)"
  have e: "block_entry (pre @ entry_image r @ ?post @ tail) (length (pre @ entry_image r @ ?post)) (length pre) lastKey =
      Some (k, v, length (pre @ entry_image r))"
    unfolding r by (rule block_entry_image) (use Cons.prems r in auto)
  have "length pre < length (pre @ entry_image r @ ?post)" using entry_image_nonempty [of r] by simp
  with e have "block_forEach_loop (pre @ entry_image r @ ?post @ tail) (length (pre @ entry_image r @ ?post))
      (length pre) lastKey =
      (k, v) # block_forEach_loop (pre @ entry_image r @ ?post @ tail) (length (pre @ entry_image r @ ?post))
        (length (pre @ entry_image r)) k"
    by (subst block_forEach_loop.simps) simp
  also have "\<dots> = (k, v) # map snd rs"
    using Cons.IH [of k "pre @ entry_image r"] Cons.prems r by simp
  finally show ?case by (simp add: r)
qed

text \<open>The two lookup loops are searches of the entries \<open>forEach\<close> delivers.\<close>

lemma getByUserKey_scan:
  "block_getByUserKey_loop data limit offset lastKey uk =
     memtable_scan (block_forEach_loop data limit offset lastKey) uk"
proof (induction data limit offset lastKey uk rule: block_getByUserKey_loop.induct)
  case (1 data limit offset lastKey uk)
  show ?case
  proof (cases "offset < limit \<and> block_entry data limit offset lastKey \<noteq> None")
    case True
    then obtain k v o' where e: "block_entry data limit offset lastKey = Some (k, v, o')" by auto
    with True 1 show ?thesis
      by (subst block_getByUserKey_loop.simps, subst block_forEach_loop.simps) (auto simp: Let_def)
  next
    case False
    then show ?thesis
      by (subst block_getByUserKey_loop.simps, subst block_forEach_loop.simps) (auto split: option.split)
  qed
qed

fun key_scan :: "(bytes \<times> bytes) list \<Rightarrow> bytes \<Rightarrow> bytes option" where
  "key_scan [] key = None"
| "key_scan ((k, v) # es) key = (if k = key then Some v else if k > key then None else key_scan es key)"

lemma get_scan:
  "block_get_loop data limit offset lastKey key = key_scan (block_forEach_loop data limit offset lastKey) key"
proof (induction data limit offset lastKey key rule: block_get_loop.induct)
  case (1 data limit offset lastKey key)
  show ?case
  proof (cases "offset < limit \<and> block_entry data limit offset lastKey \<noteq> None")
    case True
    then obtain k v o' where e: "block_entry data limit offset lastKey = Some (k, v, o')" by auto
    with True 1 show ?thesis
      by (subst block_get_loop.simps, subst block_forEach_loop.simps) auto
  next
    case False
    then show ?thesis
      by (subst block_get_loop.simps, subst block_forEach_loop.simps) (auto split: option.split)
  qed
qed

lemma key_scan_sorted: "sorted_wrt (<) (map fst es) \<Longrightarrow> key_scan es key = map_of es key"
proof (induction es)
  case (Cons e es)
  obtain k v where e: "e = (k, v)" by fastforce
  have "map_of es key = None" if "k > key"
    using Cons.prems that e by (auto simp: map_of_eq_None_iff dest: order.strict_trans)
  with Cons e show ?case by auto
qed simp

section \<open>Round trip\<close>

definition small_entry :: "bytes \<times> bytes \<Rightarrow> bool" where
  "small_entry e \<longleftrightarrow> length (fst e) < 2 ^ 32 \<and> length (snd e) < 2 ^ 32"

definition builder_inv :: "BlockBuilder \<Rightarrow> (bytes \<times> bytes) list \<Rightarrow> bool" where
  "builder_inv bb es \<longleftrightarrow>
     (\<exists>rs. map snd rs = es \<and> bb_buffer bb = concat (map entry_image rs) \<and> valid_run [] rs \<and>
        bb_last_key bb = (if es = [] then [] else fst (last es)))"

lemma shared_len_prefix: "shared_len a b \<le> length b \<and> take (shared_len a b) a = take (shared_len a b) b"
  by (induction a b rule: shared_len.induct) auto

lemma valid_run_snoc:
  "valid_run prev rs \<Longrightarrow>
   s \<le> length k \<Longrightarrow> take s (if rs = [] then prev else fst (snd (last rs))) = take s k \<Longrightarrow>
   length k < 2 ^ 32 \<Longrightarrow> length v < 2 ^ 32 \<Longrightarrow> valid_run prev (rs @ [(s, k, v)])"
proof (induction rs arbitrary: prev)
  case (Cons r rs)
  obtain s' k' v' where r: "r = (s', k', v')" by (metis prod.collapse)
  have "valid_run k' (rs @ [(s, k, v)])"
    by (rule Cons.IH) (use Cons.prems r in \<open>auto split: if_splits\<close>)
  with Cons.prems r show ?case by simp
qed simp

lemma builder_inv_new: "builder_inv (BlockBuilder_new n) []"
  by (auto simp: builder_inv_def BlockBuilder_new_def)

lemma builder_inv_add:
  assumes inv: "builder_inv bb es" and small: "small_entry (k, v)"
  shows "builder_inv (BlockBuilder_add bb k v) (es @ [(k, v)])"
proof -
  obtain rs where rs: "map snd rs = es" "bb_buffer bb = concat (map entry_image rs)" "valid_run [] rs"
    "bb_last_key bb = (if es = [] then [] else fst (last es))"
    using inv by (auto simp: builder_inv_def)
  have prev: "bb_last_key bb = (if rs = [] then [] else fst (snd (last rs)))"
    using rs(1,4) by (auto simp: last_map)
  define s where "s = (if bb_restart_counter bb < kRestartInterval \<and> bb_last_key bb \<noteq> []
    then shared_len (bb_last_key bb) k else 0)"
  have "s \<le> length k" "take s (bb_last_key bb) = take s k"
    using shared_len_prefix [of "bb_last_key bb" k] by (simp_all add: s_def)
  then have "valid_run [] (rs @ [(s, k, v)])"
    using rs(3) small prev by (intro valid_run_snoc) (auto simp: small_entry_def)
  then show ?thesis
    unfolding builder_inv_def
    by (intro exI [of _ "rs @ [(s, k, v)]"])
      (simp add: rs(1,2) BlockBuilder_add_def Let_def s_def entry_image_def)
qed

lemma builder_inv_run:
  "builder_inv bb es \<Longrightarrow> list_all small_entry fs \<Longrightarrow>
     builder_inv (foldl (\<lambda>bb e. BlockBuilder_add bb (fst e) (snd e)) bb fs) (es @ fs)"
proof (induction fs arbitrary: bb es)
  case (Cons f fs)
  then show ?case
    using builder_inv_add [of bb es "fst f" "snd f"] Cons.IH [of _ "es @ [f]"] by simp
qed simp

lemma finish_restarts_offset:
  assumes "length (snd (BlockBuilder_finish bb)) < 2 ^ 32"
  shows "unat (br_restarts_offset (BlockReader_new (snd (BlockBuilder_finish bb)))) = length (bb_buffer bb)"
    and "br_data (BlockReader_new (snd (BlockBuilder_finish bb))) =
      bb_buffer bb @ concat (map encodeFixed32 (bb_restarts bb)) @ encodeFixed32 (size_u32 (bb_restarts bb))"
proof -
  let ?r = "bb_restarts bb" and ?d = "snd (BlockBuilder_finish bb)"
  have d: "?d = bb_buffer bb @ concat (map encodeFixed32 ?r) @ encodeFixed32 (size_u32 ?r)"
    by (simp add: BlockBuilder_finish_def Let_def)
  have "length (concat (map encodeFixed32 xs)) = 4 * length xs" for xs by (induction xs) simp_all
  then have len: "length ?d = length (bb_buffer bb) + 4 * length ?r + 4" by (simp add: d)
  have cnt: "decodeFixed32 (drop (length ?d - 4) ?d) = size_u32 ?r"
    by (simp add: d)
  have "unat (size_u32 ?r * 4) = length ?r * 4"
    using assms len by (simp add: size_u32_def unat_word_ariths unat_of_nat)
  then have c4: "(ucast (size_u32 ?r * 4) :: u64) = word_of_nat (length ?r * 4)"
    by (metis of_nat_unat)
  have "size_u64 ?d - 4 - word_of_nat (length ?r * 4) = (word_of_nat (length (bb_buffer bb)) :: u64)"
    by (simp add: size_u64_def len algebra_simps)
  moreover have "ucast (word_of_nat (length (bb_buffer bb)) :: u64) = (word_of_nat (length (bb_buffer bb)) :: u32)"
    using assms len by (simp add: unsigned_of_nat take_bit_nat_eq_self)
  moreover have "unat (word_of_nat (length (bb_buffer bb)) :: u32) = length (bb_buffer bb)"
    using assms len by (intro unat_of_nat_small) simp
  ultimately show "unat (br_restarts_offset (BlockReader_new ?d)) = length (bb_buffer bb)"
    using len unfolding BlockReader_new_def cnt Let_def c4 by simp
  show "br_data (BlockReader_new ?d) =
      bb_buffer bb @ concat (map encodeFixed32 ?r) @ encodeFixed32 (size_u32 ?r)"
    by (simp add: BlockReader_new_def Let_def d)
qed

text \<open>A finished block read back: every entry, in the order of the calls of \<open>add\<close>.\<close>

lemma block_roundtrip:
  assumes "builder_inv bb es" "length (snd (BlockBuilder_finish bb)) < 2 ^ 32"
  shows "BlockReader_forEach (BlockReader_new (snd (BlockBuilder_finish bb))) = es"
proof -
  obtain rs where rs: "map snd rs = es" "bb_buffer bb = concat (map entry_image rs)" "valid_run [] rs"
    using assms(1) by (auto simp: builder_inv_def)
  show ?thesis
    using block_forEach_run [OF rs(3), of "[]"] rs(1)
    unfolding BlockReader_forEach_def finish_restarts_offset [OF assms(2)] rs(2) by simp
qed

lemma block_getByUserKey:
  assumes "builder_inv bb es" "length (snd (BlockBuilder_finish bb)) < 2 ^ 32"
  shows "BlockReader_getByUserKey (BlockReader_new (snd (BlockBuilder_finish bb))) uk = memtable_scan es uk"
  using block_roundtrip [OF assms]
  by (simp add: BlockReader_getByUserKey_def BlockReader_forEach_def getByUserKey_scan)

lemma block_get:
  assumes "builder_inv bb es" "length (snd (BlockBuilder_finish bb)) < 2 ^ 32"
    and "sorted_wrt (<) (map fst es)"
  shows "BlockReader_get (BlockReader_new (snd (BlockBuilder_finish bb))) key = map_of es key"
  using block_roundtrip [OF assms(1,2)] key_scan_sorted [OF assms(3)]
  by (simp add: BlockReader_get_def BlockReader_forEach_def get_scan)

end
