(* ===== verification/Posix.thy ===== *)
theory Posix
  imports Core_Types
begin

text \<open>
  The part of POSIX the sources call, as an explicit state: files with their content and the
  length of the content that \<open>fdatasync\<close> made durable, the directories, and a script of the
  outcomes of the system calls that may fail (\<open>os_faults\<close>; when it is used up every call
  succeeds). A descriptor is the path it was opened with. The sources write to a descriptor
  only at the end of its file (\<open>O_APPEND\<close>, \<open>O_TRUNC\<close> or a preceding \<open>lseek\<close> to the
  end), so a write appends; a write to a file whose name is gone leaves no visible trace.
  Reads of regular files are short only at the end of the file.

  \<open>crashed\<close> relates the state before a crash to the states a reboot may find: every file
  keeps at least its synced prefix and loses an arbitrary part of what lies behind it.
  Creations, renames and removals are taken as durable at once. A failing call leaves the files
  alone (a short write aside), so the state in which a crash stops a sequence of calls is the
  final state of the run in which all later calls fail (\<open>crash_script\<close>): a statement about the
  final states of these runs is one about a crash between any two calls.

  The theory also holds \<open>minikv/src/utils/env_posix.cpp\<close>, the thin wrapper over these calls.
\<close>

type_synonym path = bytes

text \<open>The outcome of a call; from \<open>fHalt\<close> on every call fails, which is how a crash ends a run.\<close>

datatype fault = fOk | fErr | fShort nat | fHalt

record os_file =
  f_data :: bytes
  f_synced :: nat

record os =
  os_files :: "(path \<times> os_file) list"
  os_dirs :: "path list"
  os_faults :: "fault list"

section \<open>System calls\<close>

definition next_fault :: "os \<Rightarrow> fault \<times> os" where
  "next_fault os =
     (case os_faults os of
        [] \<Rightarrow> (fOk, os)
      | f # fs \<Rightarrow> if f = fHalt then (fErr, os) else (f, os\<lparr>os_faults := fs\<rparr>))"

definition file_of :: "os \<Rightarrow> path \<Rightarrow> os_file option" where
  "file_of os p = map_of (os_files os) p"

definition content_of :: "os \<Rightarrow> path \<Rightarrow> bytes" where
  "content_of os p = (case file_of os p of None \<Rightarrow> [] | Some f \<Rightarrow> f_data f)"

definition set_file :: "os \<Rightarrow> path \<Rightarrow> os_file \<Rightarrow> os" where
  "set_file os p f = os\<lparr>os_files := AList.update p f (os_files os)\<rparr>"

definition new_file :: os_file where
  "new_file = \<lparr>f_data = [], f_synced = 0\<rparr>"

text \<open>\<open>open\<close> with \<open>O_CREAT\<close>, with \<open>O_CREAT | O_TRUNC\<close> and with \<open>O_RDONLY\<close>.\<close>

definition sys_open_creat :: "os \<Rightarrow> path \<Rightarrow> os \<times> path option" where
  "sys_open_creat os p =
     (case next_fault os of
        (fOk, os) \<Rightarrow> ((case file_of os p of None \<Rightarrow> set_file os p new_file | Some _ \<Rightarrow> os), Some p)
      | (_, os) \<Rightarrow> (os, None))"

definition sys_open_trunc :: "os \<Rightarrow> path \<Rightarrow> os \<times> path option" where
  "sys_open_trunc os p =
     (case next_fault os of (fOk, os) \<Rightarrow> (set_file os p new_file, Some p) | (_, os) \<Rightarrow> (os, None))"

definition sys_open_rdonly :: "os \<Rightarrow> path \<Rightarrow> path option" where
  "sys_open_rdonly os p = (case file_of os p of None \<Rightarrow> None | Some _ \<Rightarrow> Some p)"

definition append_file :: "os \<Rightarrow> path \<Rightarrow> bytes \<Rightarrow> os" where
  "append_file os p data =
     (case file_of os p of None \<Rightarrow> os
      | Some f \<Rightarrow> set_file os p (f\<lparr>f_data := f_data f @ data\<rparr>))"

text \<open>\<open>write\<close>: the number of bytes written, or \<open>-1\<close>.\<close>

definition sys_write :: "os \<Rightarrow> path \<Rightarrow> bytes \<Rightarrow> os \<times> int" where
  "sys_write os p data =
     (case next_fault os of
        (fOk, os) \<Rightarrow> (append_file os p data, int (length data))
      | (fShort n, os) \<Rightarrow> (append_file os p (take n data), int (length (take n data)))
      | (_, os) \<Rightarrow> (os, -1))"

text \<open>\<open>fdatasync\<close>, \<open>unlink\<close>, \<open>rename\<close> and \<open>mkdir\<close>: true on success.\<close>

definition sys_fdatasync :: "os \<Rightarrow> path \<Rightarrow> os \<times> bool" where
  "sys_fdatasync os p =
     (case next_fault os of
        (fOk, os) \<Rightarrow>
          ((case file_of os p of None \<Rightarrow> os
            | Some f \<Rightarrow> set_file os p (f\<lparr>f_synced := length (f_data f)\<rparr>)), True)
      | (_, os) \<Rightarrow> (os, False))"

definition sys_unlink :: "os \<Rightarrow> path \<Rightarrow> os \<times> bool" where
  "sys_unlink os p =
     (case next_fault os of
        (fOk, os) \<Rightarrow>
          (case file_of os p of None \<Rightarrow> (os, False)
           | Some _ \<Rightarrow> (os\<lparr>os_files := AList.delete p (os_files os)\<rparr>, True))
      | (_, os) \<Rightarrow> (os, False))"

definition sys_rename :: "os \<Rightarrow> path \<Rightarrow> path \<Rightarrow> os \<times> bool" where
  "sys_rename os a b =
     (case next_fault os of
        (fOk, os) \<Rightarrow>
          (case file_of os a of None \<Rightarrow> (os, False)
           | Some f \<Rightarrow> (set_file (os\<lparr>os_files := AList.delete a (os_files os)\<rparr>) b f, True))
      | (_, os) \<Rightarrow> (os, False))"

definition sys_mkdir :: "os \<Rightarrow> path \<Rightarrow> os \<times> bool" where
  "sys_mkdir os p =
     (case next_fault os of
        (fOk, os) \<Rightarrow> (os\<lparr>os_dirs := List.insert p (os_dirs os)\<rparr>, True)
      | (_, os) \<Rightarrow> (os, False))"

definition sys_exists :: "os \<Rightarrow> path \<Rightarrow> bool" where
  "sys_exists os p \<longleftrightarrow> file_of os p \<noteq> None"

text \<open>\<open>lseek\<close> to \<open>off\<close> and \<open>read\<close> of at most \<open>n\<close> bytes.\<close>

definition read_at :: "bytes \<Rightarrow> nat \<Rightarrow> nat \<Rightarrow> bytes" where
  "read_at data off n = take n (drop off data)"

section \<open>Crashes\<close>

definition crashed :: "os \<Rightarrow> os \<Rightarrow> bool" where
  "crashed os os' \<longleftrightarrow>
     (\<forall>p. case file_of os p of
        None \<Rightarrow> file_of os' p = None
      | Some f \<Rightarrow> (\<exists>n\<ge>f_synced f. \<exists>g. file_of os' p = Some g \<and> f_data g = take n (f_data f)))"

text \<open>A file that a crash leaves alone.\<close>

definition file_synced :: "os \<Rightarrow> path \<Rightarrow> bool" where
  "file_synced os p \<longleftrightarrow> (\<exists>f. file_of os p = Some f \<and> length (f_data f) \<le> f_synced f)"

fun crash_script :: "fault list \<Rightarrow> bool" where
  "crash_script [] \<longleftrightarrow> True"
| "crash_script (f # fs) \<longleftrightarrow> (if f = fOk then crash_script fs else if f = fHalt then fs = [] else fs = [fHalt])"

section \<open>env posix.cpp\<close>

definition PosixWritableFile_append :: "os \<Rightarrow> path \<Rightarrow> bytes \<Rightarrow> os \<times> Status" where
  "PosixWritableFile_append os fd data =
     (case sys_write os fd data of (os, n) \<Rightarrow>
        if n \<noteq> int (length data) then (os, Status_IOError (str ''Write failed'')) else (os, Status_Ok))"

definition PosixWritableFile_sync :: "os \<Rightarrow> path \<Rightarrow> os \<times> Status" where
  "PosixWritableFile_sync os fd =
     (case sys_fdatasync os fd of (os, ok) \<Rightarrow>
        if \<not> ok then (os, Status_IOError (str ''fdatasync failed'')) else (os, Status_Ok))"

definition PosixEnv_newWritableFile :: "os \<Rightarrow> path \<Rightarrow> os \<times> path option \<times> Status" where
  "PosixEnv_newWritableFile os p =
     (case sys_open_trunc os p of
        (os, None) \<Rightarrow> (os, None, Status_IOError (str ''Cannot open: '' @ p))
      | (os, Some fd) \<Rightarrow> (os, Some fd, Status_Ok))"

definition PosixEnv_fileExists :: "os \<Rightarrow> path \<Rightarrow> bool" where
  "PosixEnv_fileExists os p = sys_exists os p"

definition PosixEnv_deleteFile :: "os \<Rightarrow> path \<Rightarrow> os \<times> Status" where
  "PosixEnv_deleteFile os p =
     (case sys_unlink os p of (os, ok) \<Rightarrow>
        if \<not> ok then (os, Status_IOError (str ''Cannot delete: '' @ p)) else (os, Status_Ok))"

definition PosixEnv_createDir :: "os \<Rightarrow> path \<Rightarrow> os \<times> Status" where
  "PosixEnv_createDir os p =
     (if p \<in> set (os_dirs os) then (os, Status_Ok)
      else case sys_mkdir os p of (os, ok) \<Rightarrow>
        if \<not> ok then (os, Status_IOError (str ''Cannot mkdir: '' @ p)) else (os, Status_Ok))"

section \<open>Lemmas\<close>

lemma file_of_set_file [simp, fs_simps]: "file_of (set_file os p f) q = (if q = p then Some f else file_of os q)"
  by (simp add: file_of_def set_file_def update_conv')

lemma file_of_delete [simp, fs_simps]:
  "file_of (os\<lparr>os_files := AList.delete p (os_files os)\<rparr>) q = (if q = p then None else file_of os q)"
  by (simp add: file_of_def delete_conv')

lemma file_of_faults [simp]: "file_of (os\<lparr>os_faults := fs\<rparr>) q = file_of os q"
  by (simp add: file_of_def)

lemma file_of_dirs [simp]: "file_of (os\<lparr>os_dirs := fs\<rparr>) q = file_of os q"
  by (simp add: file_of_def)

lemma set_file_faults [simp]: "os_faults (set_file os p f) = os_faults os"
  by (simp add: set_file_def)

lemma next_fault_ok [simp]: "os_faults os = [] \<Longrightarrow> next_fault os = (fOk, os)"
  by (simp add: next_fault_def)

lemma next_fault_file [simp]: "file_of (snd (next_fault os)) q = file_of os q"
  by (simp add: next_fault_def split: list.split)

lemma append_file_of [fs_simps]:
  "file_of (append_file os p data) q =
     (if q = p then map_option (\<lambda>f. f\<lparr>f_data := f_data f @ data\<rparr>) (file_of os p) else file_of os q)"
  by (auto simp: append_file_def split: option.split)

lemma append_file_faults [simp]: "os_faults (append_file os p data) = os_faults os"
  by (simp add: append_file_def split: option.split)

lemma append_file_append: "append_file (append_file os p a) p b = append_file os p (a @ b)"
  by (auto simp: append_file_def set_file_def file_of_def update_conv' split: option.splits)

lemma sys_write_ok [simp]:
  "os_faults os = [] \<Longrightarrow> sys_write os p data = (append_file os p data, int (length data))"
  by (simp add: sys_write_def)

text \<open>
  Whatever a write does, the file grows by a prefix of the data, the whole of it exactly when
  the call reports the full length, and no other file changes.
\<close>

lemma sys_write_prefix:
  assumes "sys_write os p data = (os', n)"
  shows "\<exists>k. (\<forall>q. file_of os' q = file_of (append_file os p (take k data)) q) \<and>
    (n = int (length data) \<longrightarrow> take k data = data)"
proof -
  obtain f os1 where f: "next_fault os = (f, os1)" by fastforce
  then have q: "file_of os1 q = file_of os q" for q using next_fault_file [of os q] by simp
  show ?thesis
  proof (cases f)
    case fOk
    then show ?thesis using assms f q
      by (intro exI [of _ "length data"]) (auto simp: sys_write_def append_file_of)
  next
    case (fShort k)
    then show ?thesis using assms f q
      by (intro exI [of _ k]) (auto simp: sys_write_def append_file_of)
  qed (use assms f q in \<open>(intro exI [of _ 0],
      auto simp: sys_write_def append_file_of option.map_ident_strong)+\<close>)
qed

lemma next_fault_cases:
  obtains f os1 where "next_fault os = (f, os1)" "\<And>q. file_of os1 q = file_of os q"
  by (metis next_fault_file prod.collapse)

text \<open>The scripts the calls leave behind.\<close>

lemma crash_script_next:
  assumes "crash_script (os_faults os)" "next_fault os = (f, os1)"
  shows "crash_script (os_faults os1)" "f \<noteq> fOk \<Longrightarrow> os_faults os1 = [fHalt]"
  using assms by (auto simp: next_fault_def split: list.splits if_splits)

lemma sys_faults [simp]:
  "os_faults (fst (sys_open_creat os p)) = os_faults (snd (next_fault os))"
  "os_faults (fst (sys_open_trunc os p)) = os_faults (snd (next_fault os))"
  "os_faults (fst (sys_write os p data)) = os_faults (snd (next_fault os))"
  "os_faults (fst (sys_fdatasync os p)) = os_faults (snd (next_fault os))"
  "os_faults (fst (sys_unlink os p)) = os_faults (snd (next_fault os))"
  "os_faults (fst (sys_rename os p q)) = os_faults (snd (next_fault os))"
  "os_faults (fst (sys_mkdir os p)) = os_faults (snd (next_fault os))"
  by (cases "next_fault os"; auto simp: sys_open_creat_def sys_open_trunc_def sys_write_def sys_fdatasync_def
      sys_unlink_def sys_rename_def sys_mkdir_def split: fault.split option.split)+

lemma crash_script_snd: "crash_script (os_faults os) \<Longrightarrow> crash_script (os_faults (snd (next_fault os)))"
  using crash_script_next(1) by (cases "next_fault os") auto

text \<open>The effect of the other calls on the files, whatever their outcome.\<close>

lemma sys_unlink_effect:
  "q \<noteq> p \<Longrightarrow> file_of (fst (sys_unlink os p)) q = file_of os q"
  by (rule next_fault_cases [of os]) (auto simp: sys_unlink_def split: fault.split option.split)

lemma sys_unlink_effect_same: "file_of os p = None \<Longrightarrow> file_of (fst (sys_unlink os p)) p = None"
  by (rule next_fault_cases [of os]) (auto simp: sys_unlink_def split: fault.split option.split)

lemma sys_rename_effect:
  assumes "sys_rename os a b = (os', r)" "a \<noteq> b"
  shows "if r then file_of os a \<noteq> None \<and> file_of os' a = None \<and> file_of os' b = file_of os a \<and>
      (\<forall>q. q \<noteq> a \<and> q \<noteq> b \<longrightarrow> file_of os' q = file_of os q)
    else (\<forall>q. file_of os' q = file_of os q)"
  using assms
  by (rule_tac next_fault_cases [of os]) (auto simp: sys_rename_def split: fault.splits option.splits)

lemma sys_open_creat_effect:
  "file_of os p \<noteq> None \<Longrightarrow> file_of (fst (sys_open_creat os p)) q = file_of os q"
  by (rule next_fault_cases [of os]) (auto simp: sys_open_creat_def split: fault.split option.split)

lemma sys_open_trunc_effect:
  assumes "sys_open_trunc os p = (os', r)"
  shows "if r = None then (\<forall>q. file_of os' q = file_of os q)
    else r = Some p \<and> file_of os' p = Some new_file \<and> (\<forall>q. q \<noteq> p \<longrightarrow> file_of os' q = file_of os q)"
  using assms
  by (rule_tac next_fault_cases [of os]) (auto simp: sys_open_trunc_def split: fault.splits)

lemma sys_fdatasync_effect:
  assumes "sys_fdatasync os p = (os', r)" "file_of os p = Some f"
  shows "(\<forall>q. q \<noteq> p \<longrightarrow> file_of os' q = file_of os q) \<and>
    file_of os' p = Some (if r then f\<lparr>f_synced := length (f_data f)\<rparr> else f)"
  using assms
  by (rule_tac next_fault_cases [of os]) (auto simp: sys_fdatasync_def split: fault.splits)

text \<open>In a run that a crash ends, a failed \<open>unlink\<close> of an existing file means the end was reached.\<close>

lemma sys_unlink_halted:
  assumes "crash_script (os_faults os)"
  shows "file_of (fst (sys_unlink os p)) p = None \<or> os_faults (fst (sys_unlink os p)) = [fHalt]"
  using crash_script_next(2) [OF assms]
  by (rule_tac next_fault_cases [of os]) (auto simp: sys_unlink_def split: fault.split option.split)

lemma sys_rename_halted: "os_faults os = [fHalt] \<Longrightarrow> sys_rename os a b = (os, False)"
  by (simp add: sys_rename_def next_fault_def)

text \<open>A crash may also lose nothing.\<close>

lemma crashed_refl: "(\<And>p. file_of os' p = file_of os p) \<Longrightarrow> crashed os os'"
proof -
  assume eq: "\<And>p. file_of os' p = file_of os p"
  have "\<exists>n\<ge>f_synced f. f_data f = take n (f_data f)" for f
    by (rule exI [of _ "max (f_synced f) (length (f_data f))"]) simp
  then show ?thesis by (auto simp: crashed_def eq split: option.split)
qed

end
