(* ===== verification/Checksum.thy ===== *)
theory Checksum
  imports Prelude
begin

text \<open>
  The checksum and the hash of \<open>minikv/src/utils\<close>: \<open>crc32c\<close> (\<open>crc32.cpp\<close>, a
  table-driven CRC with the reflected Castagnoli polynomial) and \<open>murmurHash2\<close>
  (\<open>hash.h\<close>).

  The lemmas show that the table-driven loop computes the bit-by-bit CRC (\<open>crc_bitwise\<close>),
  and that the checksum of two buffers that differ only inside a window of at most four
  consecutive bytes is always different, which is the guarantee the WAL, the MANIFEST and
  the SSTable blocks build on.
\<close>

section \<open>Definitions\<close>

text \<open>One step of \<open>initCRC\<close>'s inner loop; the table entry of \<open>i\<close> is eight steps from \<open>i\<close>.\<close>

definition crc_step :: "u32 \<Rightarrow> u32" where
  "crc_step c = (if c AND 1 \<noteq> 0 then 0x82F63B78 XOR drop_bit 1 c else drop_bit 1 c)"

definition initCRC :: "u32 list" where
  "initCRC = map (\<lambda>i. (crc_step ^^ 8) (word_of_nat i)) [0..<256]"

definition crc_update :: "u32 \<Rightarrow> byte \<Rightarrow> u32" where
  "crc_update crc b = initCRC ! unat ((crc XOR ucast b) AND 0xFF) XOR drop_bit 8 crc"

text \<open>The loop runs for \<open>i < len\<close>; a negative \<open>len\<close> reads nothing.\<close>

definition crc32c :: "bytes \<Rightarrow> int \<Rightarrow> u32" where
  "crc32c data len = foldl crc_update 0xFFFFFFFF (take (nat len) data) XOR 0xFFFFFFFF"

definition crc32cExtend :: "u32 \<Rightarrow> bytes \<Rightarrow> int \<Rightarrow> u32" where
  "crc32cExtend crc buf len = crc32c buf len XOR crc"

text \<open>The reference: eight single-bit steps per byte, no table.\<close>

definition crc_bitwise :: "u32 \<Rightarrow> bytes \<Rightarrow> u32" where
  "crc_bitwise crc data = foldl (\<lambda>c b. (crc_step ^^ 8) (c XOR ucast b)) crc data"

fun murmur_body :: "bytes \<Rightarrow> u32 \<Rightarrow> u32 \<times> bytes" where
  "murmur_body (b0 # b1 # b2 # b3 # rest) h =
     (let k = ucast b0 OR push_bit 8 (ucast b1) OR push_bit 16 (ucast b2) OR push_bit 24 (ucast b3);
          k = k * 0x5bd1e995;
          k = k XOR drop_bit 24 k;
          k = k * 0x5bd1e995;
          h = h * 0x5bd1e995;
          h = h XOR k
      in murmur_body rest h)"
| "murmur_body data h = (h, data)"

definition murmur_tail :: "bytes \<Rightarrow> u32 \<Rightarrow> u32" where
  "murmur_tail data h =
     (let h = (if length data = 3 then h XOR push_bit 16 (ucast (data ! 2)) else h);
          h = (if 2 \<le> length data then h XOR push_bit 8 (ucast (data ! 1)) else h)
      in if 1 \<le> length data then (h XOR ucast (data ! 0)) * 0x5bd1e995 else h)"

definition murmurHash2 :: "bytes \<Rightarrow> u32 \<Rightarrow> u32" where
  "murmurHash2 data seed =
     (let (h, rest) = murmur_body data (seed XOR size_u32 data);
          h = murmur_tail rest h;
          h = h XOR drop_bit 13 h;
          h = h * 0x5bd1e995
      in h XOR drop_bit 15 h)"

section \<open>The CRC step is linear and injective\<close>

definition crc_poly :: u32 where
  "crc_poly = 0x82F63B78"

lemma crc_step_alt: "crc_step c = (if bit c 0 then crc_poly else 0) XOR drop_bit 1 c"
  by (simp add: crc_step_def crc_poly_def and_one_eq bit_0 mod_2_eq_odd)

lemma crc_step_xor: "crc_step (x XOR y) = crc_step x XOR crc_step y"
  by (rule bit_word_eqI) (auto simp: crc_step_alt bit_simps)

lemma crc_step_0 [simp]: "crc_step 0 = 0"
  by (simp add: crc_step_alt)

lemma crc_steps_xor: "(crc_step ^^ n) (x XOR y) = (crc_step ^^ n) x XOR (crc_step ^^ n) y"
  by (induction n) (simp_all add: crc_step_xor)

lemma crc_steps_shift: "(crc_step ^^ n) (push_bit n y) = y" if "take_bit (32 - n) y = y" "n \<le> 32"
  using that
proof (induction n)
  case (Suc n)
  have tb: "take_bit (32 - n) y = y"
    using Suc.prems(1) by (rule take_bit_self_mono) simp
  have "crc_step (push_bit (Suc n) y) = push_bit n y"
  proof (rule bit_word_eqI)
    fix m assume "m < LENGTH(32)"
    have "bit y (31 - n) = bit (take_bit (32 - Suc n) y) (31 - n)"
      using Suc.prems(1) by simp
    also have "\<dots> = False"
      by (simp add: bit_simps)
    finally have "\<not> bit y (31 - n)" by simp
    then show "bit (crc_step (push_bit (Suc n) y)) m = bit (push_bit n y) m"
      using \<open>m < LENGTH(32)\<close> Suc.prems(2)
      by (cases "m = 31") (auto simp: crc_step_alt bit_simps simp del: push_bit_Suc)
  qed
  with Suc.IH tb Suc.prems(2) show ?case
    by (simp add: funpow_Suc_right del: funpow.simps)
qed simp

lemma crc_poly_top: "bit crc_poly 31"
  by (simp add: crc_poly_def)

lemma crc_step_inj: "crc_step x = crc_step y \<Longrightarrow> x = y"
proof -
  assume eq: "crc_step x = crc_step y"
  have top: "bit (crc_step z) 31 = bit z 0" for z
    using crc_poly_top by (auto simp: crc_step_alt bit_simps dest: bit_imp_le_length)
  from eq top have low: "bit x 0 = bit y 0" by metis
  have "(if bit x 0 then crc_poly else 0) XOR crc_step x = drop_bit 1 x"
    "(if bit y 0 then crc_poly else 0) XOR crc_step y = drop_bit 1 y"
    by (simp_all add: crc_step_alt flip: xor.assoc)
  with eq low have drop: "drop_bit 1 x = drop_bit 1 y" by simp
  show "x = y"
  proof (rule bit_word_eqI)
    fix n
    show "bit x n = bit y n"
    proof (cases n)
      case (Suc m)
      have "bit (drop_bit 1 x) m = bit (drop_bit 1 y) m" using drop by simp
      with Suc show ?thesis by (simp add: bit_simps)
    qed (use low in simp)
  qed
qed

lemma crc_steps_inj: "(crc_step ^^ n) x = (crc_step ^^ n) y \<Longrightarrow> x = y"
  by (induction n) (auto dest: crc_step_inj)

section \<open>The table computes eight steps at once\<close>

lemma initCRC_nth: "initCRC ! unat (z AND 0xFF) = (crc_step ^^ 8) (z AND 0xFF)"
proof -
  have "unat (z AND 0xFF) < 256"
    using word_and_le1 [of z "0xFF"] by (simp add: word_le_nat_alt)
  then show ?thesis by (simp add: initCRC_def)
qed

lemma split_low_byte: "z = (z AND 0xFF) XOR push_bit 8 (drop_bit 8 z)" for z :: u32
  by (rule bit_word_eqI) (auto simp: and_255_take_bit bit_simps)

lemma crc_steps_8: "(crc_step ^^ 8) z = (crc_step ^^ 8) (z AND 0xFF) XOR drop_bit 8 z"
proof -
  have "(crc_step ^^ 8) (push_bit 8 (drop_bit 8 z)) = drop_bit 8 z"
    by (rule crc_steps_shift) (rule bit_word_eqI, auto simp: bit_simps dest: bit_imp_le_length)
  then show ?thesis
    by (subst split_low_byte [of z]) (simp only: crc_steps_xor)
qed

lemma crc_update_steps: "crc_update crc b = (crc_step ^^ 8) (crc XOR ucast b)"
proof -
  have "drop_bit 8 (crc XOR ucast b) = drop_bit 8 crc"
    by (rule bit_word_eqI) (auto simp: bit_simps dest: bit_byte_less)
  then show ?thesis
    by (subst crc_steps_8) (simp only: crc_update_def initCRC_nth)
qed

lemma crc_bitwise_eq: "foldl crc_update crc data = crc_bitwise crc data"
  by (simp add: crc_bitwise_def crc_update_steps [abs_def])

lemma crc32c_bitwise: "crc32c data len = crc_bitwise 0xFFFFFFFF (take (nat len) data) XOR 0xFFFFFFFF"
  by (simp add: crc32c_def crc_bitwise_eq)

section \<open>What the checksum detects\<close>

text \<open>Feeding at most four bytes is \<open>8 * n\<close> steps from the state with the bytes xored in.\<close>

fun le_word :: "bytes \<Rightarrow> u32" where
  "le_word [] = 0"
| "le_word (b # bs) = ucast b XOR push_bit 8 (le_word bs)"

lemma le_word_bound: "take_bit (8 * length bs) (le_word bs) = le_word bs"
proof (induction bs)
  case (Cons b bs)
  have "take_bit (8 + 8 * length bs) (push_bit 8 (le_word bs)) = push_bit 8 (le_word bs)"
    using Cons by (subst (2) Cons [symmetric]) (simp add: take_bit_push_bit)
  moreover have "take_bit (8 + 8 * length bs) (ucast b :: u32) = ucast b"
    by (rule bit_word_eqI) (auto simp: bit_simps dest: bit_byte_less)
  ultimately show ?case by simp
qed simp

lemma crc_bitwise_window:
  assumes "length w \<le> 4"
  shows "crc_bitwise s w = (crc_step ^^ (8 * length w)) (s XOR le_word w)"
  using assms
proof (induction w arbitrary: s)
  case (Cons b w)
  have "take_bit 24 (le_word w) = le_word w"
    using le_word_bound by (rule take_bit_self_mono) (use Cons.prems in simp)
  then have shift: "(crc_step ^^ 8) (push_bit 8 (le_word w)) = le_word w"
    by (intro crc_steps_shift) simp_all
  have "crc_bitwise s (b # w) = crc_bitwise ((crc_step ^^ 8) (s XOR ucast b)) w"
    by (simp add: crc_bitwise_def)
  also have "\<dots> = (crc_step ^^ (8 * length w)) ((crc_step ^^ 8) (s XOR ucast b) XOR le_word w)"
    using Cons by simp
  also have "\<dots> = (crc_step ^^ (8 * length w)) ((crc_step ^^ 8) (s XOR le_word (b # w)))"
    by (subst (1) shift [symmetric]) (simp add: crc_steps_xor xor.assoc)
  also have "\<dots> = (crc_step ^^ (8 * length (b # w))) (s XOR le_word (b # w))"
    by (simp only: funpow_add [THEN fun_cong, unfolded comp_def, symmetric])
      (simp add: add.commute)
  finally show ?case .
qed (simp add: crc_bitwise_def)

lemma ucast_byte_inj: "(ucast (b :: byte) :: u32) = ucast c \<longleftrightarrow> b = c"
proof
  assume eq: "(ucast b :: u32) = ucast c"
  show "b = c"
  proof (rule bit_word_eqI)
    fix n assume "n < LENGTH(8)"
    moreover have "bit (ucast b :: u32) n = bit (ucast c :: u32) n" by (simp only: eq)
    ultimately show "bit b n = bit c n" by (simp add: bit_ucast_iff)
  qed
qed simp

lemma le_word_inj:
  assumes "length v = length w" "length w \<le> 4" "le_word v = le_word w"
  shows "v = w"
  using assms
proof (induction v w rule: list_induct2)
  case (Cons b v c w)
  have low: "take_bit 8 (ucast x XOR push_bit 8 y :: u32) = ucast x" for x :: byte and y
    by (rule bit_word_eqI) (auto simp: bit_simps dest: bit_byte_less)
  have high: "drop_bit 8 (ucast x XOR push_bit 8 y :: u32) = take_bit 24 y" for x :: byte and y
    by (rule bit_word_eqI) (auto simp: bit_simps dest: bit_byte_less)
  have tb: "take_bit 24 (le_word u) = le_word u" if "length u \<le> 3" for u
    using le_word_bound by (rule take_bit_self_mono) (use that in simp)
  have "ucast b = (ucast c :: u32)"
    using arg_cong [OF Cons.prems(2), of "take_bit 8"] by (simp only: le_word.simps low)
  then have "b = c"
    by (simp add: ucast_byte_inj)
  moreover have "take_bit 24 (le_word v) = take_bit 24 (le_word w)"
    using arg_cong [OF Cons.prems(2), of "drop_bit 8"] by (simp only: le_word.simps high)
  then have "le_word v = le_word w"
    using Cons.prems(1) Cons.hyps by (simp add: tb)
  ultimately show ?case using Cons by simp
qed simp

lemma crc_bitwise_append: "crc_bitwise s (xs @ ys) = crc_bitwise (crc_bitwise s xs) ys"
  by (simp add: crc_bitwise_def)

lemma crc_bitwise_state_inj: "crc_bitwise s xs = crc_bitwise t xs \<Longrightarrow> s = t"
proof (induction xs arbitrary: s t)
  case (Cons b xs)
  then have "(crc_step ^^ 8) (s XOR ucast b) = (crc_step ^^ 8) (t XOR ucast b)"
    by (simp add: crc_bitwise_def)
  then have "s XOR ucast b = t XOR ucast b" by (rule crc_steps_inj)
  then have "(s XOR ucast b) XOR ucast b = (t XOR ucast b) XOR ucast b" by simp
  then show ?case by (simp add: xor.assoc)
qed (simp add: crc_bitwise_def)

lemma crc_bitwise_detects:
  assumes "length v = length w" "length w \<le> 4" "v \<noteq> w"
  shows "crc_bitwise s (xs @ v @ ys) \<noteq> crc_bitwise s (xs @ w @ ys)"
proof
  assume "crc_bitwise s (xs @ v @ ys) = crc_bitwise s (xs @ w @ ys)"
  then have "crc_bitwise (crc_bitwise s xs) v = crc_bitwise (crc_bitwise s xs) w"
    by (auto simp: crc_bitwise_append dest: crc_bitwise_state_inj)
  then have "crc_bitwise s xs XOR le_word v = crc_bitwise s xs XOR le_word w"
    using assms(1,2) crc_steps_inj by (auto simp: crc_bitwise_window)
  then have "le_word v = le_word w"
    by (rule xor_left_cancel)
  with assms show False using le_word_inj by blast
qed

lemma crc32c_whole:
  "length data < 2 ^ 31 \<Longrightarrow> crc32c data (size_int data) = 0xFFFFFFFF XOR crc_bitwise 0xFFFFFFFF data"
  by (simp add: crc32c_bitwise size_int_small xor.commute)

end
