(* ===== verification/Bloom_Filter.thy ===== *)
theory Bloom_Filter
  imports Posix Coding Checksum
begin

text \<open>
  \<open>minikv/src/core/bloom_filter.h\<close>. The constructor derives the number of hashes and of bits
  per key from the false positive rate in floating point; the two truncated results are the
  arguments \<open>raw_hashes\<close> and \<open>raw_bits\<close>, and \<open>BloomFilter_default\<close> fixes them for the rate 0.01 that
  every caller uses: \<open>bits = 9\<close>, so \<open>6\<close> hashes and \<open>12\<close> bits per key.

  The lemmas show that a filter has no false negatives, and that it survives a round trip
  through its file. A file shorter than its header leaves fields uninitialised in the code; the
  model reads zero bytes there. The position computation divides by the number of bits, which
  is why the lemmas ask for a non-empty filter of less than \<open>2 ^ 32\<close> bits.
\<close>

section \<open>Definitions\<close>

record BloomFilter =
  bf_bits_per_key :: nat
  bf_num_hashes :: nat
  bf_bits :: "u8 list"

definition BloomFilter_new :: "nat \<Rightarrow> int \<Rightarrow> int \<Rightarrow> BloomFilter" where
  "BloomFilter_new expected_keys raw_hashes raw_bits =
     (let nh = (if raw_hashes < 1 then 1 else raw_hashes);
          nh = (if nh > 30 then 30 else nh);
          bk = (if raw_bits < 1 then 1 else raw_bits)
      in \<lparr>bf_bits_per_key = nat bk, bf_num_hashes = nat nh,
          bf_bits = replicate (expected_keys * nat bk div 8 + 1) 0\<rparr>)"

definition BloomFilter_default :: "nat \<Rightarrow> BloomFilter" where
  "BloomFilter_default expected_keys = BloomFilter_new expected_keys 6 12"

definition bloom_pos :: "BloomFilter \<Rightarrow> Slice \<Rightarrow> nat \<Rightarrow> nat" where
  "bloom_pos bf key i =
     (let h1 = murmurHash2 key 0xbc9f1d34;
          h2 = murmurHash2 key 0x9e3779b9;
          bits = word_of_nat (length (bf_bits bf) * 8) :: u32
      in unat ((h1 + word_of_nat i * h2) mod bits))"

definition set_bloom_bit :: "nat \<Rightarrow> u8 list \<Rightarrow> u8 list" where
  "set_bloom_bit pos bits = bits[pos div 8 := bits ! (pos div 8) OR push_bit (pos mod 8) 1]"

definition BloomFilter_add :: "BloomFilter \<Rightarrow> Slice \<Rightarrow> BloomFilter" where
  "BloomFilter_add bf key =
     bf\<lparr>bf_bits := fold (\<lambda>i. set_bloom_bit (bloom_pos bf key i)) [0..<bf_num_hashes bf] (bf_bits bf)\<rparr>"

definition BloomFilter_mightContain :: "BloomFilter \<Rightarrow> Slice \<Rightarrow> bool" where
  "BloomFilter_mightContain bf key =
     list_all (\<lambda>i. let pos = bloom_pos bf key i
                   in bf_bits bf ! (pos div 8) AND push_bit (pos mod 8) 1 \<noteq> 0) [0..<bf_num_hashes bf]"

definition bloom_image :: "BloomFilter \<Rightarrow> bytes" where
  "bloom_image bf =
     encodeFixed32 (word_of_nat (bf_num_hashes bf)) @ encodeFixed32 (word_of_nat (bf_bits_per_key bf)) @
     encodeFixed64 (word_of_nat (length (bf_bits bf))) @ bf_bits bf"

definition BloomFilter_persist :: "os \<Rightarrow> BloomFilter \<Rightarrow> path \<Rightarrow> os" where
  "BloomFilter_persist os bf p =
     (case sys_open_trunc os p of
        (os, None) \<Rightarrow> os
      | (os, Some fd) \<Rightarrow> fst (sys_write os fd (bloom_image bf)))"

definition BloomFilter_load :: "os \<Rightarrow> path \<Rightarrow> BloomFilter option" where
  "BloomFilter_load os p =
     (case sys_open_rdonly os p of
        None \<Rightarrow> None
      | Some fd \<Rightarrow>
          let input = content_of os fd;
              header = take 16 (input @ replicate 16 0);
              sz = unat (decodeFixed64 (drop 8 header))
          in Some \<lparr>bf_bits_per_key = unat (decodeFixed32 (drop 4 header)),
                   bf_num_hashes = unat (decodeFixed32 header),
                   bf_bits = take sz (drop 16 input @ replicate sz 0)\<rparr>)"

definition BloomFilter_memoryUsage :: "BloomFilter \<Rightarrow> nat" where
  "BloomFilter_memoryUsage bf = length (bf_bits bf)"

definition BloomFilter_numHashes :: "BloomFilter \<Rightarrow> nat" where
  "BloomFilter_numHashes bf = bf_num_hashes bf"

section \<open>No false negatives\<close>

definition bloom_ok :: "BloomFilter \<Rightarrow> bool" where
  "bloom_ok bf \<longleftrightarrow> 0 < length (bf_bits bf) \<and> length (bf_bits bf) * 8 < 2 ^ 32"

definition bloom_bit :: "u8 list \<Rightarrow> nat \<Rightarrow> bool" where
  "bloom_bit bits pos \<longleftrightarrow> bit (bits ! (pos div 8)) (pos mod 8)"

lemma and_single_bit: "w AND 2 ^ n \<noteq> 0 \<longleftrightarrow> bit w n" for w :: u8
proof
  assume "w AND 2 ^ n \<noteq> 0"
  then obtain m where "bit (w AND 2 ^ n) m" by (metis bit_eqI bit_0_eq bot_apply bot_bool_def)
  then show "bit w n" by (auto simp: bit_and_iff bit_exp_iff)
next
  assume b: "bit w n"
  then have "bit (w AND 2 ^ n) n"
    using bit_imp_le_length [OF b] by (simp add: bit_and_iff bit_exp_iff possible_bit_word)
  then show "w AND 2 ^ n \<noteq> 0" by auto
qed

lemma set_bloom_bit_get:
  assumes "pos div 8 < length bits"
  shows "bloom_bit (set_bloom_bit pos bits) q \<longleftrightarrow> q = pos \<or> bloom_bit bits q"
proof -
  have "pos mod 8 < 8" "q mod 8 < 8" by simp_all
  moreover have "q = pos \<longleftrightarrow> q div 8 = pos div 8 \<and> q mod 8 = pos mod 8" by (metis div_mult_mod_eq)
  ultimately show ?thesis
    using assms
    by (auto simp: bloom_bit_def set_bloom_bit_def nth_list_update bit_or_iff bit_exp_iff possible_bit_word)
qed

lemma length_set_bloom_bit [simp]: "length (set_bloom_bit pos bits) = length bits"
  by (simp add: set_bloom_bit_def)

lemma length_fold_set_bloom [simp]: "length (fold (\<lambda>i. set_bloom_bit (f i)) is bits) = length bits"
  by (induction "is" arbitrary: bits) simp_all

lemma fold_set_bloom:
  "(\<And>i. i \<in> set is \<Longrightarrow> f i div 8 < length bits) \<Longrightarrow>
     bloom_bit (fold (\<lambda>i. set_bloom_bit (f i)) is bits) q \<longleftrightarrow> q \<in> f ` set is \<or> bloom_bit bits q"
  by (induction "is" arbitrary: bits) (auto simp: set_bloom_bit_get)

lemma bloom_pos_bound:
  assumes "bloom_ok bf"
  shows "bloom_pos bf key i div 8 < length (bf_bits bf)"
proof -
  let ?b = "word_of_nat (length (bf_bits bf) * 8) :: u32"
  have "unat ?b = length (bf_bits bf) * 8"
    using assms unfolding unat_of_nat bloom_ok_def by simp
  moreover have "0 < length (bf_bits bf) * 8" using assms by (simp add: bloom_ok_def)
  ultimately have "bloom_pos bf key i < length (bf_bits bf) * 8"
    by (simp add: bloom_pos_def Let_def unat_mod)
  then show ?thesis by (simp add: less_mult_imp_div_less)
qed

lemma mightContain_bits:
  "BloomFilter_mightContain bf key \<longleftrightarrow> (\<forall>i<bf_num_hashes bf. bloom_bit (bf_bits bf) (bloom_pos bf key i))"
  by (auto simp: BloomFilter_mightContain_def list_all_iff Let_def and_single_bit bloom_bit_def)

lemma BloomFilter_add_fields [simp]:
  "bf_num_hashes (BloomFilter_add bf k) = bf_num_hashes bf"
  "bf_bits_per_key (BloomFilter_add bf k) = bf_bits_per_key bf"
  "length (bf_bits (BloomFilter_add bf k)) = length (bf_bits bf)"
  "bloom_pos (BloomFilter_add bf k) = bloom_pos bf"
  "bloom_ok (BloomFilter_add bf k) = bloom_ok bf"
  by (auto simp: BloomFilter_add_def bloom_pos_def bloom_ok_def fun_eq_iff)

lemma BloomFilter_add_contains:
  assumes "bloom_ok bf"
  shows "BloomFilter_mightContain (BloomFilter_add bf k) k' \<longleftrightarrow>
    (\<forall>i<bf_num_hashes bf. bloom_pos bf k' i \<in> bloom_pos bf k ` {0..<bf_num_hashes bf} \<or>
       bloom_bit (bf_bits bf) (bloom_pos bf k' i))"
  using fold_set_bloom [of "[0..<bf_num_hashes bf]" "bloom_pos bf k" "bf_bits bf"] bloom_pos_bound [OF assms]
  by (simp add: mightContain_bits) (simp add: BloomFilter_add_def)

lemma BloomFilter_no_false_negatives:
  assumes "bloom_ok bf" "k \<in> set ks"
  shows "BloomFilter_mightContain (foldl BloomFilter_add bf ks) k"
  using assms
proof (induction ks arbitrary: bf rule: rev_induct)
  case (snoc k' ks)
  have ok: "bloom_ok (foldl BloomFilter_add bf ks)"
    using snoc.prems(1) by (induction ks arbitrary: bf) simp_all
  show ?case
  proof (cases "k = k'")
    case True
    then show ?thesis using BloomFilter_add_contains [OF ok, of k' k'] by auto
  next
    case False
    then have "BloomFilter_mightContain (foldl BloomFilter_add bf ks) k"
      using snoc.IH [OF snoc.prems(1)] snoc.prems(2) by simp
    then show ?thesis
      using BloomFilter_add_contains [OF ok, of k' k] by (simp add: mightContain_bits)
  qed
qed simp

section \<open>Persistence\<close>

lemma BloomFilter_load_image:
  assumes "file_of os p = Some f" "f_data f = bloom_image bf"
    and "bf_num_hashes bf < 2 ^ 32" "bf_bits_per_key bf < 2 ^ 32" "length (bf_bits bf) < 2 ^ 64"
  shows "BloomFilter_load os p = Some bf"
proof -
  have h: "take 16 (bloom_image bf @ replicate 16 0) =
      encodeFixed32 (word_of_nat (bf_num_hashes bf)) @ encodeFixed32 (word_of_nat (bf_bits_per_key bf)) @
      encodeFixed64 (word_of_nat (length (bf_bits bf)))" (is "_ = ?h")
    and d: "drop 16 (bloom_image bf) = bf_bits bf"
    by (simp_all add: bloom_image_def)
  have "unat (decodeFixed64 (drop 8 ?h)) = length (bf_bits bf)"
    "unat (decodeFixed32 (drop 4 ?h)) = bf_bits_per_key bf" "unat (decodeFixed32 ?h) = bf_num_hashes bf"
    using assms(3-) by (simp_all add: unat_of_nat take_bit_nat_eq_self)
  then show ?thesis
    using assms(1,2) unfolding BloomFilter_load_def sys_open_rdonly_def content_of_def Let_def
    by (simp only: option.case h d) simp
qed

lemma BloomFilter_persist_load:
  assumes "os_faults os = []" "bf_num_hashes bf < 2 ^ 32" "bf_bits_per_key bf < 2 ^ 32" "length (bf_bits bf) < 2 ^ 64"
  shows "BloomFilter_load (BloomFilter_persist os bf p) p = Some bf"
proof -
  have "file_of (BloomFilter_persist os bf p) p = Some (new_file\<lparr>f_data := bloom_image bf\<rparr>)"
    using assms(1) by (simp add: BloomFilter_persist_def sys_open_trunc_def append_file_of new_file_def)
  then show ?thesis by (rule BloomFilter_load_image) (use assms(2-) in simp_all)
qed

lemma bloom_ok_default: "expected_keys \<le> 2 ^ 20 \<Longrightarrow> bloom_ok (BloomFilter_default expected_keys)"
  by (auto simp: BloomFilter_default_def BloomFilter_new_def bloom_ok_def Let_def)

end
