(* ===== verification/Caches.thy ===== *)
theory Caches
  imports Posix
begin

text \<open>
  \<open>minikv/src/utils/lru_cache.h\<close> and \<open>minikv/src/core/block_cache.h\<close>. Both keep a
  \<open>std::list\<close> of entries, most recently used first, and an \<open>unordered_map\<close> from keys to
  iterators into it. The model gives every list node an identity, which is what the iterators
  in the map hold, so that "the map and the list agree" is a statement that has to be proved.
  A map is an association list.

  The lemmas show that the map and the list always agree, that a lookup returns the last value
  put under the key unless it was evicted, that the byte count is the size of the entries, and
  that the capacity is respected.
\<close>

section \<open>Lists with stable iterators\<close>

type_synonym ('k, 'v) node_list = "(nat \<times> 'k \<times> 'v) list"

definition node_at :: "nat \<Rightarrow> ('k, 'v) node_list \<Rightarrow> ('k \<times> 'v) option" where
  "node_at i ns = map_of ns i"

definition erase_node :: "nat \<Rightarrow> ('k, 'v) node_list \<Rightarrow> ('k, 'v) node_list" where
  "erase_node i ns = filter (\<lambda>n. fst n \<noteq> i) ns"

text \<open>\<open>list_.splice(list_.begin(), list_, it)\<close>\<close>

definition splice_front :: "nat \<Rightarrow> ('k, 'v) node_list \<Rightarrow> ('k, 'v) node_list" where
  "splice_front i ns = (case node_at i ns of None \<Rightarrow> ns | Some n \<Rightarrow> (i, n) # erase_node i ns)"

text \<open>The agreement of map and list.\<close>

definition linked_map :: "('k, 'v) node_list \<Rightarrow> ('k \<times> nat) list \<Rightarrow> nat \<Rightarrow> bool" where
  "linked_map ns m next_id \<longleftrightarrow>
     distinct (map fst ns) \<and> distinct (map (\<lambda>n. fst (snd n)) ns) \<and> distinct (map fst m) \<and>
     (\<forall>n\<in>set ns. fst n < next_id) \<and>
     (\<forall>k i. map_of m k = Some i \<longleftrightarrow> (\<exists>v. (i, k, v) \<in> set ns))"

definition list_lookup :: "('k, 'v) node_list \<Rightarrow> 'k \<Rightarrow> 'v option" where
  "list_lookup ns k = map_of (map snd ns) k"

lemma linked_map_node:
  assumes "linked_map ns m n" "map_of m k = Some i"
  obtains v where "node_at i ns = Some (k, v)" "list_lookup ns k = Some v"
proof -
  obtain v where v: "(i, k, v) \<in> set ns" using assms by (auto simp: linked_map_def)
  then have "node_at i ns = Some (k, v)"
    using assms(1) by (auto simp: node_at_def linked_map_def)
  moreover have "list_lookup ns k = Some v"
    using assms(1) v unfolding list_lookup_def
    by (intro map_of_is_SomeI) (force simp: linked_map_def comp_def)+
  ultimately show thesis by (rule that)
qed

lemma linked_map_None:
  assumes "linked_map ns m n"
  shows "map_of m k = None \<longleftrightarrow> list_lookup ns k = None"
proof -
  have "list_lookup ns k = None \<longleftrightarrow> (\<forall>i v. (i, k, v) \<notin> set ns)"
    by (force simp: list_lookup_def map_of_eq_None_iff)
  moreover have "map_of m k = None \<longleftrightarrow> (\<forall>i. map_of m k \<noteq> Some i)" by auto
  ultimately show ?thesis using assms unfolding linked_map_def by simp
qed

lemma linked_map_erase:
  assumes lm: "linked_map ns m n" and k: "map_of m k = Some i"
  shows "linked_map (erase_node i ns) (AList.delete k m) n"
    and "list_lookup (erase_node i ns) = (list_lookup ns)(k := None)"
proof -
  obtain v where v: "(i, k, v) \<in> set ns" using assms by (auto simp: linked_map_def)
  have same: "fst e = i \<longleftrightarrow> fst (snd e) = k" if "e \<in> set ns" for e
  proof -
    have "inj_on fst (set ns)" "inj_on (\<lambda>n. fst (snd n)) (set ns)"
      using lm by (simp_all add: linked_map_def distinct_map)
    from inj_onD [OF this(1) _ that v] inj_onD [OF this(2) _ that v] show ?thesis
      by (cases e) auto
  qed
  have "distinct (map fst (erase_node i ns))" "distinct (map (\<lambda>n. fst (snd n)) (erase_node i ns))"
    using lm by (auto simp: linked_map_def erase_node_def distinct_map_filter)
  moreover have "map_of (AList.delete k m) k' = Some j \<longleftrightarrow> (\<exists>v. (j, k', v) \<in> set (erase_node i ns))" for k' j
  proof -
    have "map_of m k' = Some j \<longleftrightarrow> (\<exists>v. (j, k', v) \<in> set ns)" using lm by (simp add: linked_map_def)
    then show ?thesis
      using same [of "(j, k', _)"] by (cases "k' = k") (auto simp: erase_node_def delete_conv')
  qed
  ultimately show "linked_map (erase_node i ns) (AList.delete k m) n"
    using lm by (simp add: linked_map_def erase_node_def distinct_delete)
  have "map snd (erase_node i ns) = filter (\<lambda>e. fst e \<noteq> k) (map snd ns)"
    unfolding erase_node_def filter_map comp_def using same by (intro arg_cong [where f = "map snd"] filter_cong) auto
  then show "list_lookup (erase_node i ns) = (list_lookup ns)(k := None)"
    using map_of_filter_key [of "\<lambda>x. x \<noteq> k" "map snd ns"] by (auto simp: list_lookup_def)
qed

lemma linked_map_push:
  assumes lm: "linked_map ns m n" and k: "map_of m k = None"
  shows "linked_map ((n, k, v) # ns) (AList.update k n m) (Suc n)"
    and "list_lookup ((n, k, v) # ns) = (list_lookup ns)(k \<mapsto> v)"
proof -
  have "k \<notin> (\<lambda>e. fst (snd e)) ` set ns" using lm k by (force simp: linked_map_def)
  moreover have "n \<notin> fst ` set ns" using lm by (auto simp: linked_map_def)
  ultimately show "linked_map ((n, k, v) # ns) (AList.update k n m) (Suc n)"
    using lm by (auto simp: linked_map_def update_conv' distinct_update less_Suc_eq image_iff)
  show "list_lookup ((n, k, v) # ns) = (list_lookup ns)(k \<mapsto> v)" by (auto simp: list_lookup_def)
qed

lemma distinct_map_mset: "mset xs = mset ys \<Longrightarrow> distinct (map f xs) = distinct (map f ys)"
  by (metis mset_eq_imp_distinct_iff mset_map)

lemma linked_map_splice:
  assumes lm: "linked_map ns m n" and k: "map_of m k = Some i"
  shows "linked_map (splice_front i ns) m n" and "list_lookup (splice_front i ns) = list_lookup ns"
    and "set (splice_front i ns) = set ns" and "mset (splice_front i ns) = mset ns"
proof -
  obtain v where v: "node_at i ns = Some (k, v)" "list_lookup ns k = Some v"
    using linked_map_node [OF assms] by metis
  then have mem: "(i, k, v) \<in> set ns" by (auto simp: node_at_def dest: map_of_SomeD)
  have s: "splice_front i ns = (i, k, v) # erase_node i ns" by (simp add: splice_front_def v)
  obtain as bs where ns: "ns = as @ (i, k, v) # bs" using mem by (meson split_list)
  have "distinct (map fst ns)" using lm by (simp add: linked_map_def)
  then have "\<forall>e\<in>set (as @ bs). fst e \<noteq> i" unfolding ns by (auto simp: image_iff)
  then have "erase_node i ns = as @ bs"
    by (simp add: ns erase_node_def filter_id_conv)
  then show ms: "mset (splice_front i ns) = mset ns" using s ns by simp
  then show set: "set (splice_front i ns) = set ns" by (metis set_mset_mset)
  show "linked_map (splice_front i ns) m n"
    using lm set distinct_map_mset [OF ms, of fst] distinct_map_mset [OF ms, of "\<lambda>n. fst (snd n)"]
    unfolding linked_map_def by simp
  show "list_lookup (splice_front i ns) = list_lookup ns"
    using linked_map_erase(2) [OF assms] v s by (auto simp: list_lookup_def fun_eq_iff)
qed

section \<open>LRUCache\<close>

record ('k, 'v) LRUCache =
  lru_capacity :: nat
  lru_list :: "('k, 'v) node_list"
  lru_map :: "('k \<times> nat) list"
  lru_next :: nat

definition LRUCache_new :: "nat \<Rightarrow> ('k, 'v) LRUCache" where
  "LRUCache_new capacity = \<lparr>lru_capacity = capacity, lru_list = [], lru_map = [], lru_next = 0\<rparr>"

definition LRUCache_get :: "('k, 'v) LRUCache \<Rightarrow> 'k \<Rightarrow> 'v option \<times> ('k, 'v) LRUCache" where
  "LRUCache_get c key =
     (case map_of (lru_map c) key of
        None \<Rightarrow> (None, c)
      | Some it \<Rightarrow>
          (map_option snd (node_at it (lru_list c)), c\<lparr>lru_list := splice_front it (lru_list c)\<rparr>))"

definition LRUCache_put :: "('k, 'v) LRUCache \<Rightarrow> 'k \<Rightarrow> 'v \<Rightarrow> ('k, 'v) LRUCache" where
  "LRUCache_put c key val =
     (let c = (case map_of (lru_map c) key of
                 None \<Rightarrow> c
               | Some it \<Rightarrow> c\<lparr>lru_list := erase_node it (lru_list c)\<rparr>);
          c = c\<lparr>lru_list := (lru_next c, key, val) # lru_list c,
                lru_map := AList.update key (lru_next c) (lru_map c), lru_next := lru_next c + 1\<rparr>
      in if length (lru_map c) > lru_capacity c
         then c\<lparr>lru_map := AList.delete (fst (snd (last (lru_list c)))) (lru_map c),
                lru_list := butlast (lru_list c)\<rparr>
         else c)"

definition LRUCache_erase :: "('k, 'v) LRUCache \<Rightarrow> 'k \<Rightarrow> ('k, 'v) LRUCache" where
  "LRUCache_erase c key =
     (case map_of (lru_map c) key of
        None \<Rightarrow> c
      | Some it \<Rightarrow> c\<lparr>lru_list := erase_node it (lru_list c), lru_map := AList.delete key (lru_map c)\<rparr>)"

definition LRUCache_size :: "('k, 'v) LRUCache \<Rightarrow> nat" where
  "LRUCache_size c = length (lru_map c)"

definition LRUCache_inv :: "('k, 'v) LRUCache \<Rightarrow> bool" where
  "LRUCache_inv c \<longleftrightarrow> linked_map (lru_list c) (lru_map c) (lru_next c) \<and> length (lru_map c) \<le> lru_capacity c"

definition LRUCache_lookup :: "('k, 'v) LRUCache \<Rightarrow> 'k \<Rightarrow> 'v option" where
  "LRUCache_lookup c k = list_lookup (lru_list c) k"

lemma linked_map_length:
  assumes "linked_map ns m n"
  shows "length m = length ns"
proof -
  have "set (map fst m) = set (map (\<lambda>e. fst (snd e)) ns)"
  proof (rule set_eqI)
    fix k
    have "k \<in> set (map fst m) \<longleftrightarrow> map_of m k \<noteq> None" by (simp add: map_of_eq_None_iff)
    also have "\<dots> \<longleftrightarrow> k \<in> set (map (\<lambda>e. fst (snd e)) ns)"
      unfolding linked_map_None [OF assms] by (simp add: list_lookup_def map_of_eq_None_iff image_image)
    finally show "k \<in> set (map fst m) \<longleftrightarrow> k \<in> set (map (\<lambda>e. fst (snd e)) ns)" .
  qed
  then have "length (map fst m) = length (map (\<lambda>e. fst (snd e)) ns)"
    using assms distinct_card [of "map fst m"] distinct_card [of "map (\<lambda>e. fst (snd e)) ns"]
    by (simp add: linked_map_def)
  then show ?thesis by simp
qed

lemma length_alist_update: "length (AList.update k v al) \<le> Suc (length al)"
  by (induction al) auto

text \<open>Dropping the least recently used node.\<close>

lemma linked_map_pop:
  assumes lm: "linked_map ns m n" and "ns \<noteq> []"
  shows "linked_map (butlast ns) (AList.delete (fst (snd (last ns))) m) n"
    and "list_lookup (butlast ns) = (list_lookup ns)(fst (snd (last ns)) := None)"
proof -
  obtain i k v where l: "last ns = (i, k, v)" by (metis prod.collapse)
  then have "(i, k, v) \<in> set ns" using assms(2) last_in_set by metis
  then have k: "map_of m k = Some i" using lm by (auto simp: linked_map_def)
  have ns: "ns = butlast ns @ [(i, k, v)]" using assms(2) l by (metis append_butlast_last_id)
  have "distinct (map fst ns)" using lm by (simp add: linked_map_def)
  then have "\<forall>e\<in>set (butlast ns). fst e \<noteq> i" by (subst (asm) ns) auto
  then have "erase_node i ns = butlast ns"
    by (subst ns) (simp add: erase_node_def filter_id_conv)
  with linked_map_erase [OF lm k] l
  show "linked_map (butlast ns) (AList.delete (fst (snd (last ns))) m) n"
    "list_lookup (butlast ns) = (list_lookup ns)(fst (snd (last ns)) := None)" by simp_all
qed

text \<open>Replacing or adding a key: the common first part of both \<open>put\<close> methods.\<close>

lemma linked_map_put:
  fixes k :: 'k
  assumes lm: "linked_map ns m n"
  defines "ns1 \<equiv> (case map_of m k of None \<Rightarrow> ns | Some i \<Rightarrow> erase_node i ns)"
  shows "linked_map ((n, k, v) # ns1) (AList.update k n m) (Suc n)"
    and "list_lookup ((n, k, v) # ns1) = (list_lookup ns)(k \<mapsto> v)"
proof -
  show "linked_map ((n, k, v) # ns1) (AList.update k n m) (Suc n)"
  proof (cases "map_of m k")
    case None
    then show ?thesis using linked_map_push(1) [OF lm None] by (simp add: ns1_def)
  next
    case (Some i)
    have "linked_map ns1 (AList.delete k m) n" using linked_map_erase(1) [OF lm Some] Some by (simp add: ns1_def)
    moreover have "map_of (AList.delete k m) k = None" by (simp add: delete_conv')
    ultimately have "linked_map ((n, k, v) # ns1) (AList.update k n (AList.delete k m)) (Suc n)"
      by (rule linked_map_push(1))
    moreover have "map_of (AList.update k n (AList.delete k m)) = map_of (AList.update k n m)"
      by (auto simp: update_conv' delete_conv')
    moreover have "distinct (map fst (AList.update k n m))" using lm by (simp add: linked_map_def distinct_update)
    ultimately show ?thesis by (simp add: linked_map_def)
  qed
  show "list_lookup ((n, k, v) # ns1) = (list_lookup ns)(k \<mapsto> v)"
    using linked_map_erase(2) [OF lm, of k]
    by (auto simp: ns1_def list_lookup_def fun_eq_iff split: option.split)
qed

lemma LRUCache_get_correct:
  assumes "LRUCache_inv c"
  shows "fst (LRUCache_get c k) = LRUCache_lookup c k" and "LRUCache_inv (snd (LRUCache_get c k))"
    and "LRUCache_lookup (snd (LRUCache_get c k)) = LRUCache_lookup c"
proof -
  have lm: "linked_map (lru_list c) (lru_map c) (lru_next c)" using assms by (simp add: LRUCache_inv_def)
  show "fst (LRUCache_get c k) = LRUCache_lookup c k"
    using linked_map_None [OF lm, of k] linked_map_node [OF lm, of k]
    by (fastforce simp: LRUCache_get_def LRUCache_lookup_def split: option.split)
  show "LRUCache_inv (snd (LRUCache_get c k))" "LRUCache_lookup (snd (LRUCache_get c k)) = LRUCache_lookup c"
    using assms linked_map_splice(1,2) [OF lm, of k]
    by (auto simp: LRUCache_get_def LRUCache_inv_def LRUCache_lookup_def fun_eq_iff split: option.split)
qed

lemma LRUCache_put_correct:
  assumes inv: "LRUCache_inv c"
  shows "LRUCache_inv (LRUCache_put c k v)"
    and "LRUCache_lookup (LRUCache_put c k v) k' = Some v' \<Longrightarrow>
      (if k' = k then v' = v else LRUCache_lookup c k' = Some v')"
    and "0 < lru_capacity c \<Longrightarrow> LRUCache_lookup (LRUCache_put c k v) k = Some v"
proof -
  let ?n = "lru_next c" and ?m = "lru_map c"
  let ?ns = "(?n, k, v) # (case map_of ?m k of None \<Rightarrow> lru_list c | Some i \<Rightarrow> erase_node i (lru_list c))"
  let ?m' = "AList.update k ?n ?m"
  have lm: "linked_map (lru_list c) ?m ?n" using inv by (simp add: LRUCache_inv_def)
  note put = linked_map_put [OF lm, of k v]
  note pop = linked_map_pop [OF put(1)]
  have len: "length ?m' = length ?ns" using linked_map_length [OF put(1)] .
  have "length ?m' \<le> Suc (length ?m)" by (rule length_alist_update)
  then have le: "length ?m' \<le> Suc (lru_capacity c)" using inv by (simp add: LRUCache_inv_def)
  have c': "LRUCache_put c k v =
      (if length ?m' > lru_capacity c
       then c\<lparr>lru_list := butlast ?ns, lru_map := AList.delete (fst (snd (last ?ns))) ?m', lru_next := ?n + 1\<rparr>
       else c\<lparr>lru_list := ?ns, lru_map := ?m', lru_next := ?n + 1\<rparr>)"
    by (simp add: LRUCache_put_def Let_def split: option.split)
  show "LRUCache_inv (LRUCache_put c k v)"
  proof (cases "length ?m' > lru_capacity c")
    case True
    have "length (AList.delete (fst (snd (last ?ns))) ?m') = length (butlast ?ns)"
      by (rule linked_map_length [OF pop(1)]) simp
    then have "length (AList.delete (fst (snd (last ?ns))) ?m') \<le> lru_capacity c"
      using le len by simp
    then show ?thesis using True pop(1) by (simp add: LRUCache_inv_def c')
  next
    case False
    then show ?thesis using put(1) by (simp add: LRUCache_inv_def c')
  qed
  show "LRUCache_lookup (LRUCache_put c k v) k' = Some v' \<Longrightarrow>
      (if k' = k then v' = v else LRUCache_lookup c k' = Some v')"
    using put(2) pop(2) by (auto simp: LRUCache_lookup_def c' split: if_splits)
  show "LRUCache_lookup (LRUCache_put c k v) k = Some v" if "0 < lru_capacity c"
  proof (cases "length ?m' > lru_capacity c")
    case True
    then have "length ?ns > 1" using that len by linarith
    then have "butlast ?ns = (?n, k, v) # butlast (tl ?ns)" by (cases "tl ?ns") auto
    then show ?thesis using True by (simp add: LRUCache_lookup_def c' list_lookup_def)
  next
    case False
    then show ?thesis by (simp add: LRUCache_lookup_def c' list_lookup_def)
  qed
qed

section \<open>BlockCache\<close>

record BlockCacheKey =
  bck_path :: path
  bck_offset :: u64

record Entry =
  ce_data :: bytes
  ce_size :: u64

record BlockCache =
  bc_capacity_bytes :: u64
  bc_used_bytes :: u64
  bc_list :: "(BlockCacheKey, Entry) node_list"
  bc_map :: "(BlockCacheKey \<times> nat) list"
  bc_next :: nat

definition BlockCache_new :: "u64 \<Rightarrow> BlockCache" where
  "BlockCache_new capacity_bytes =
     \<lparr>bc_capacity_bytes = capacity_bytes, bc_used_bytes = 0, bc_list = [], bc_map = [], bc_next = 0\<rparr>"

definition BlockCache_get :: "BlockCache \<Rightarrow> BlockCacheKey \<Rightarrow> bytes option \<times> BlockCache" where
  "BlockCache_get c key =
     (case map_of (bc_map c) key of
        None \<Rightarrow> (None, c)
      | Some it \<Rightarrow>
          (map_option (\<lambda>e. ce_data (snd e)) (node_at it (bc_list c)),
           c\<lparr>bc_list := splice_front it (bc_list c)\<rparr>))"

function BlockCache_evict :: "BlockCache \<Rightarrow> BlockCache" where
  "BlockCache_evict c =
     (if bc_used_bytes c > bc_capacity_bytes c \<and> bc_list c \<noteq> [] then
        let (_, key, e) = last (bc_list c)
        in BlockCache_evict (c\<lparr>bc_used_bytes := bc_used_bytes c - ce_size e,
             bc_map := AList.delete key (bc_map c), bc_list := butlast (bc_list c)\<rparr>)
      else c)"
  by pat_completeness auto
termination
  by (relation "measure (\<lambda>c. length (bc_list c))") auto

declare BlockCache_evict.simps [simp del]

definition BlockCache_put :: "BlockCache \<Rightarrow> BlockCacheKey \<Rightarrow> bytes \<Rightarrow> BlockCache" where
  "BlockCache_put c key data =
     (let sz = word_of_nat (length data);
          c = (case map_of (bc_map c) key of
                 None \<Rightarrow> c
               | Some it \<Rightarrow>
                   c\<lparr>bc_used_bytes := bc_used_bytes c -
                        (case node_at it (bc_list c) of None \<Rightarrow> 0
                         | Some (_, e) \<Rightarrow> word_of_nat (length (ce_data e))),
                      bc_list := erase_node it (bc_list c), bc_map := AList.delete key (bc_map c)\<rparr>);
          c = c\<lparr>bc_list := (bc_next c, key, \<lparr>ce_data = data, ce_size = sz\<rparr>) # bc_list c,
                bc_map := AList.update key (bc_next c) (bc_map c), bc_next := bc_next c + 1,
                bc_used_bytes := bc_used_bytes c + sz\<rparr>
      in BlockCache_evict c)"

text \<open>The loop of \<open>invalidatePath\<close> over the list.\<close>

fun invalidate_nodes :: "path \<Rightarrow> (BlockCacheKey, Entry) node_list \<Rightarrow> BlockCache \<Rightarrow> BlockCache" where
  "invalidate_nodes p [] c = c"
| "invalidate_nodes p ((i, key, e) # ns) c =
     invalidate_nodes p ns
       (if bck_path key = p
        then c\<lparr>bc_used_bytes := bc_used_bytes c - ce_size e, bc_map := AList.delete key (bc_map c),
               bc_list := erase_node i (bc_list c)\<rparr>
        else c)"

definition BlockCache_invalidatePath :: "BlockCache \<Rightarrow> path \<Rightarrow> BlockCache" where
  "BlockCache_invalidatePath c p = invalidate_nodes p (bc_list c) c"

definition BlockCache_usedBytes :: "BlockCache \<Rightarrow> u64" where
  "BlockCache_usedBytes c = bc_used_bytes c"

definition BlockCache_entryCount :: "BlockCache \<Rightarrow> nat" where
  "BlockCache_entryCount c = length (bc_map c)"

subsection \<open>Invariant\<close>

definition entry_bytes :: "(BlockCacheKey, Entry) node_list \<Rightarrow> u64" where
  "entry_bytes ns = sum_list (map (\<lambda>n. word_of_nat (length (ce_data (snd (snd n))))) ns)"

definition BlockCache_inv :: "BlockCache \<Rightarrow> bool" where
  "BlockCache_inv c \<longleftrightarrow>
     linked_map (bc_list c) (bc_map c) (bc_next c) \<and>
     (\<forall>n\<in>set (bc_list c). ce_size (snd (snd n)) = word_of_nat (length (ce_data (snd (snd n))))) \<and>
     bc_used_bytes c = entry_bytes (bc_list c)"

definition BlockCache_lookup :: "BlockCache \<Rightarrow> BlockCacheKey \<Rightarrow> bytes option" where
  "BlockCache_lookup c k = map_option ce_data (list_lookup (bc_list c) k)"

lemma entry_bytes_mset: "mset xs = mset ys \<Longrightarrow> entry_bytes xs = entry_bytes ys"
  by (simp only: entry_bytes_def sum_mset_sum_list [symmetric] mset_map)

lemma entry_bytes_split:
  assumes "linked_map ns m n" "map_of m k = Some i" "node_at i ns = Some (k, e)"
  shows "entry_bytes ns = word_of_nat (length (ce_data e)) + entry_bytes (erase_node i ns)"
  using entry_bytes_mset [OF linked_map_splice(4) [OF assms(1,2)]] assms(3)
  by (simp add: splice_front_def entry_bytes_def)

lemma BlockCache_get_correct:
  assumes "BlockCache_inv c"
  shows "fst (BlockCache_get c k) = BlockCache_lookup c k" and "BlockCache_inv (snd (BlockCache_get c k))"
    and "BlockCache_lookup (snd (BlockCache_get c k)) = BlockCache_lookup c"
proof -
  have lm: "linked_map (bc_list c) (bc_map c) (bc_next c)" using assms by (simp add: BlockCache_inv_def)
  show "fst (BlockCache_get c k) = BlockCache_lookup c k"
    using linked_map_None [OF lm, of k] linked_map_node [OF lm, of k]
    by (fastforce simp: BlockCache_get_def BlockCache_lookup_def split: option.split)
  have "BlockCache_inv (snd (BlockCache_get c k)) \<and> BlockCache_lookup (snd (BlockCache_get c k)) = BlockCache_lookup c"
  proof (cases "map_of (bc_map c) k")
    case (Some i)
    note sp = linked_map_splice [OF lm Some]
    from assms sp(1,3) entry_bytes_mset [OF sp(4)] show ?thesis
      by (simp add: BlockCache_get_def BlockCache_inv_def BlockCache_lookup_def Some sp(2) fun_eq_iff)
  qed (use assms in \<open>simp add: BlockCache_get_def\<close>)
  then show "BlockCache_inv (snd (BlockCache_get c k))"
    "BlockCache_lookup (snd (BlockCache_get c k)) = BlockCache_lookup c" by simp_all
qed

lemma entry_bytes_pop: "ns \<noteq> [] \<Longrightarrow>
    entry_bytes ns = entry_bytes (butlast ns) + word_of_nat (length (ce_data (snd (snd (last ns)))))"
  by (induction ns rule: rev_induct) (simp_all add: entry_bytes_def)

lemma BlockCache_evict_correct:
  assumes "BlockCache_inv c"
  shows "BlockCache_inv (BlockCache_evict c) \<and>
    (BlockCache_lookup (BlockCache_evict c) k = Some d \<longrightarrow> BlockCache_lookup c k = Some d) \<and>
    (bc_used_bytes (BlockCache_evict c) \<le> bc_capacity_bytes c \<or> bc_list (BlockCache_evict c) = [])"
  using assms
proof (induction c rule: BlockCache_evict.induct)
  case (1 c)
  show ?case
  proof (cases "bc_used_bytes c > bc_capacity_bytes c \<and> bc_list c \<noteq> []")
    case True
    obtain i key e where l: "last (bc_list c) = (i, key, e)" by (metis prod.collapse)
    let ?c = "c\<lparr>bc_used_bytes := bc_used_bytes c - ce_size e,
             bc_map := AList.delete key (bc_map c), bc_list := butlast (bc_list c)\<rparr>"
    have lm: "linked_map (bc_list c) (bc_map c) (bc_next c)" using 1(2) by (simp add: BlockCache_inv_def)
    note pop = linked_map_pop [OF lm conjunct2 [OF True]]
    have "(i, key, e) \<in> set (bc_list c)" using True l by (metis last_in_set)
    then have "ce_size e = word_of_nat (length (ce_data e))" using 1(2) by (auto simp: BlockCache_inv_def)
    then have inv: "BlockCache_inv ?c"
      using 1(2) pop(1) entry_bytes_pop [OF conjunct2 [OF True]] l
      by (auto simp: BlockCache_inv_def dest: in_set_butlastD)
    have step: "BlockCache_evict c = BlockCache_evict ?c"
      using True l by (subst BlockCache_evict.simps) simp
    have "BlockCache_lookup ?c k = Some d \<longrightarrow> BlockCache_lookup c k = Some d"
      using pop(2) l by (simp add: BlockCache_lookup_def)
    then show ?thesis using 1(1) [OF True l [symmetric] refl refl inv] step by auto
  next
    case False
    then show ?thesis using 1(2) by (subst (1 2 3 4) BlockCache_evict.simps) auto
  qed
qed

lemma BlockCache_put_correct:
  assumes inv: "BlockCache_inv c"
  shows "BlockCache_inv (BlockCache_put c k d)"
    and "BlockCache_lookup (BlockCache_put c k d) k' = Some d' \<Longrightarrow>
      (if k' = k then d' = d else BlockCache_lookup c k' = Some d')"
    and "bc_used_bytes (BlockCache_put c k d) \<le> bc_capacity_bytes c \<or> bc_list (BlockCache_put c k d) = []"
proof -
  let ?n = "bc_next c" and ?m = "bc_map c" and ?e = "\<lparr>ce_data = d, ce_size = word_of_nat (length d)\<rparr>"
  have lm: "linked_map (bc_list c) ?m ?n" using inv by (simp add: BlockCache_inv_def)
  obtain c1 where c1: "BlockCache_put c k d = BlockCache_evict c1" "BlockCache_inv c1"
    "list_lookup (bc_list c1) = (list_lookup (bc_list c))(k \<mapsto> ?e)" "bc_capacity_bytes c1 = bc_capacity_bytes c"
  proof (cases "map_of ?m k")
    case None
    let ?c = "c\<lparr>bc_list := (?n, k, ?e) # bc_list c, bc_map := AList.update k ?n ?m, bc_next := ?n + 1,
      bc_used_bytes := bc_used_bytes c + word_of_nat (length d)\<rparr>"
    have "BlockCache_inv ?c" using inv linked_map_push(1) [OF lm None]
      by (auto simp: BlockCache_inv_def entry_bytes_def)
    then show ?thesis
      by (intro that [of ?c]) (use None linked_map_push(2) [OF lm None] in \<open>simp_all add: BlockCache_put_def Let_def\<close>)
  next
    case (Some i)
    obtain e where e: "node_at i (bc_list c) = Some (k, e)" using linked_map_node [OF lm Some] by metis
    let ?c = "c\<lparr>bc_list := (?n, k, ?e) # erase_node i (bc_list c),
      bc_map := AList.update k ?n (AList.delete k ?m), bc_next := ?n + 1,
      bc_used_bytes := bc_used_bytes c - word_of_nat (length (ce_data e)) + word_of_nat (length d)\<rparr>"
    have k: "map_of (AList.delete k ?m) k = None" by (simp add: delete_conv')
    note push = linked_map_push [OF linked_map_erase(1) [OF lm Some] k]
    have "set (erase_node i (bc_list c)) \<subseteq> set (bc_list c)" by (auto simp: erase_node_def)
    then have "BlockCache_inv ?c" using inv push(1) entry_bytes_split [OF lm Some e]
      by (auto simp: BlockCache_inv_def entry_bytes_def)
    then show ?thesis
      by (intro that [of ?c])
        (use Some e push(2) linked_map_erase(2) [OF lm Some] in \<open>simp_all add: BlockCache_put_def Let_def\<close>)
  qed
  note ev = BlockCache_evict_correct [OF c1(2)]
  show "BlockCache_inv (BlockCache_put c k d)"
    "bc_used_bytes (BlockCache_put c k d) \<le> bc_capacity_bytes c \<or> bc_list (BlockCache_put c k d) = []"
    using ev c1 by simp_all
  assume "BlockCache_lookup (BlockCache_put c k d) k' = Some d'"
  then have "BlockCache_lookup c1 k' = Some d'" using ev [of k' d'] c1(1) by simp
  then show "if k' = k then d' = d else BlockCache_lookup c k' = Some d'"
    by (auto simp: BlockCache_lookup_def c1(3) split: if_splits)
qed

text \<open>Invalidating a path removes its blocks and leaves the others.\<close>

lemma invalidate_nodes_correct:
  assumes "BlockCache_inv c" "set ns \<subseteq> set (bc_list c)" "distinct ns"
  shows "BlockCache_inv (invalidate_nodes p ns c) \<and>
    bc_list (invalidate_nodes p ns c) = filter (\<lambda>n. \<not> (n \<in> set ns \<and> bck_path (fst (snd n)) = p)) (bc_list c)"
  using assms
proof (induction ns arbitrary: c)
  case (Cons n ns)
  obtain i key e where n: "n = (i, key, e)" by (metis prod.collapse)
  show ?case
  proof (cases "bck_path key = p")
    case True
    let ?c = "c\<lparr>bc_used_bytes := bc_used_bytes c - ce_size e, bc_map := AList.delete key (bc_map c),
      bc_list := erase_node i (bc_list c)\<rparr>"
    have lm: "linked_map (bc_list c) (bc_map c) (bc_next c)" using Cons.prems by (simp add: BlockCache_inv_def)
    have mem: "(i, key, e) \<in> set (bc_list c)" using Cons.prems n by simp
    then have k: "map_of (bc_map c) key = Some i" using lm by (auto simp: linked_map_def)
    have at: "node_at i (bc_list c) = Some (key, e)" using lm mem by (simp add: node_at_def linked_map_def)
    have inj: "inj_on fst (set (bc_list c))" using lm by (simp add: linked_map_def distinct_map)
    have erase: "erase_node i (bc_list c) = filter (\<lambda>x. x \<noteq> n) (bc_list c)"
      unfolding erase_node_def
    proof (rule filter_cong [OF refl])
      fix x assume "x \<in> set (bc_list c)"
      from inj_onD [OF inj _ this mem] show "(fst x \<noteq> i) = (x \<noteq> n)" by (auto simp: n)
    qed
    have sizes: "\<forall>x\<in>set (bc_list c). ce_size (snd (snd x)) = word_of_nat (length (ce_data (snd (snd x))))"
      and used: "bc_used_bytes c = entry_bytes (bc_list c)" using Cons.prems(1) by (simp_all add: BlockCache_inv_def)
    from sizes mem have "ce_size e = word_of_nat (length (ce_data e))" by force
    then have "BlockCache_inv ?c"
      using sizes used linked_map_erase(1) [OF lm k] entry_bytes_split [OF lm k at]
      by (simp add: BlockCache_inv_def) (simp add: erase_node_def)
    moreover have "set ns \<subseteq> set (bc_list ?c)" "distinct ns" using Cons.prems erase by auto
    ultimately have "BlockCache_inv (invalidate_nodes p ns ?c) \<and> bc_list (invalidate_nodes p ns ?c) =
        filter (\<lambda>n. \<not> (n \<in> set ns \<and> bck_path (fst (snd n)) = p)) (bc_list ?c)"
      by (rule Cons.IH)
    moreover have "filter (\<lambda>x. \<not> (x \<in> set ns \<and> bck_path (fst (snd x)) = p)) (bc_list ?c) =
        filter (\<lambda>x. \<not> (x \<in> set (n # ns) \<and> bck_path (fst (snd x)) = p)) (bc_list c)"
      using True n by (auto simp: erase intro!: filter_cong)
    ultimately show ?thesis using True n by simp
  next
    case False
    have "filter (\<lambda>x. \<not> (x \<in> set ns \<and> bck_path (fst (snd x)) = p)) (bc_list c) =
        filter (\<lambda>x. \<not> (x \<in> set (n # ns) \<and> bck_path (fst (snd x)) = p)) (bc_list c)"
      using False n by (auto intro!: filter_cong)
    with False n Cons show ?thesis by auto
  qed
qed simp

lemma BlockCache_invalidatePath_correct:
  assumes "BlockCache_inv c"
  shows "BlockCache_inv (BlockCache_invalidatePath c p)"
    and "bc_list (BlockCache_invalidatePath c p) = filter (\<lambda>n. bck_path (fst (snd n)) \<noteq> p) (bc_list c)"
proof -
  have "distinct (bc_list c)" using assms by (simp add: BlockCache_inv_def linked_map_def distinct_map)
  from invalidate_nodes_correct [OF assms order_refl this, of p]
  show "BlockCache_inv (BlockCache_invalidatePath c p)"
    "bc_list (BlockCache_invalidatePath c p) = filter (\<lambda>n. bck_path (fst (snd n)) \<noteq> p) (bc_list c)"
    by (auto simp: BlockCache_invalidatePath_def intro!: filter_cong)
qed

section \<open>The cache contract\<close>

text \<open>
  What the table reader relies on: a hit is a value put earlier under the same key. The client
  lemma: reads through a cache that holds only what \<open>load\<close> would deliver cannot be told from
  reads without it, and keep the cache so.
\<close>

locale coherent_cache =
  fixes get :: "'c \<Rightarrow> 'k \<Rightarrow> 'd option \<times> 'c" and put :: "'c \<Rightarrow> 'k \<Rightarrow> 'd \<Rightarrow> 'c"
    and look :: "'c \<Rightarrow> 'k \<Rightarrow> 'd option" and inv :: "'c \<Rightarrow> bool"
  assumes get_look: "inv c \<Longrightarrow> fst (get c k) = look c k"
    and get_keeps: "inv c \<Longrightarrow> inv (snd (get c k)) \<and> look (snd (get c k)) = look c"
    and put_keeps: "inv c \<Longrightarrow> inv (put c k d)"
    and put_look: "inv c \<Longrightarrow> look (put c k d) k' = Some d' \<Longrightarrow> (if k' = k then d' = d else look c k' = Some d')"
begin

lemma cached_read:
  assumes "inv c" "\<forall>k d. look c k = Some d \<longrightarrow> load k = Some d"
    and read: "read = (case get c k of
        (Some d, c) \<Rightarrow> (Some d, c)
      | (None, c) \<Rightarrow> (case load k of None \<Rightarrow> (None, c) | Some d \<Rightarrow> (Some d, put c k d)))"
  shows "fst read = load k" "inv (snd read)" "look (snd read) k' = Some d' \<Longrightarrow> load k' = Some d'"
proof -
  obtain r c1 where r: "get c k = (r, c1)" by fastforce
  then have c1: "r = look c k" "inv c1" "look c1 = look c" using get_look [OF assms(1), of k] get_keeps [OF assms(1), of k] by simp_all
  show "fst read = load k" "inv (snd read)"
    using r c1 assms(2) put_keeps unfolding read by (auto split: option.split)
  show "look (snd read) k' = Some d' \<Longrightarrow> load k' = Some d'"
    using r c1 assms(2) put_look [OF c1(2), of k _ k' d'] unfolding read
    by (cases "k' = k") (auto split: option.splits)
qed

end

interpretation block_cache: coherent_cache BlockCache_get BlockCache_put BlockCache_lookup BlockCache_inv
  by unfold_locales
    (simp_all only: BlockCache_get_correct BlockCache_put_correct(1) simp_thms, rule BlockCache_put_correct(2))

interpretation lru: coherent_cache LRUCache_get LRUCache_put LRUCache_lookup LRUCache_inv
  by unfold_locales
    (simp_all only: LRUCache_get_correct LRUCache_put_correct(1) simp_thms, rule LRUCache_put_correct(2))

lemma BlockCache_inv_new [simp]: "BlockCache_inv (BlockCache_new n)"
  by (simp add: BlockCache_inv_def BlockCache_new_def linked_map_def entry_bytes_def)

lemma BlockCache_lookup_new [simp]: "BlockCache_lookup (BlockCache_new n) k = None"
  by (simp add: BlockCache_lookup_def BlockCache_new_def list_lookup_def)

end
