(* ===== verification/Compression.thy ===== *)
theory Compression
  imports Core_Types
begin

text \<open>
  \<open>minikv/src/core/compression.{h,cpp}\<close>. Snappy and Zstandard are third-party libraries: the
  record \<open>codec_lib\<close> holds the four library functions as parameters of the model, and
  \<open>codec_ok\<close> states the round trip their documentation promises, and that an output is never
  empty (both formats start with a header). A value of the enumeration read
  from disk may be none of the three constants (\<open>ctOther\<close>).
\<close>

datatype CompressionType = ctNone | ctSnappy | ctZstd | ctOther u8

definition CompressionType_of_u8 :: "u8 \<Rightarrow> CompressionType" where
  "CompressionType_of_u8 b =
     (if b = 0 then ctNone else if b = 1 then ctSnappy else if b = 2 then ctZstd else ctOther b)"

definition u8_of_CompressionType :: "CompressionType \<Rightarrow> u8" where
  "u8_of_CompressionType t =
     (case t of ctNone \<Rightarrow> 0 | ctSnappy \<Rightarrow> 1 | ctZstd \<Rightarrow> 2 | ctOther b \<Rightarrow> b)"

text \<open>
  \<open>snappy::RawCompress\<close>, \<open>snappy::Uncompress\<close>, \<open>ZSTD_compress\<close> at level 3 and
  \<open>ZSTD_decompress\<close> with the output capacity; an error is its name.
\<close>

record codec_lib =
  snappy_RawCompress :: "bytes \<Rightarrow> bytes"
  snappy_Uncompress :: "bytes \<Rightarrow> bytes option"
  zstd_compress :: "bytes \<Rightarrow> bytes + bytes"
  zstd_decompress :: "nat \<Rightarrow> bytes \<Rightarrow> bytes + bytes"

definition codec_ok :: "codec_lib \<Rightarrow> bool" where
  "codec_ok lib \<longleftrightarrow>
     (\<forall>x. snappy_Uncompress lib (snappy_RawCompress lib x) = Some x \<and> snappy_RawCompress lib x \<noteq> []) \<and>
     (\<forall>x c. zstd_compress lib x = Inr c \<longrightarrow> zstd_decompress lib (length x) c = Inr x \<and> c \<noteq> [])"

definition compressBlock :: "codec_lib \<Rightarrow> CompressionType \<Rightarrow> Slice \<Rightarrow> Status \<times> bytes" where
  "compressBlock lib type input =
     (case type of
        ctNone \<Rightarrow> (Status_Ok, input)
      | ctSnappy \<Rightarrow> (Status_Ok, snappy_RawCompress lib input)
      | ctZstd \<Rightarrow>
          (case zstd_compress lib input of
             Inl e \<Rightarrow> (Status_IOError e, [])
           | Inr c \<Rightarrow> (Status_Ok, c))
      | ctOther _ \<Rightarrow> (Status_NotSupported (str ''unknown compression type''), []))"

definition decompressBlock :: "codec_lib \<Rightarrow> CompressionType \<Rightarrow> Slice \<Rightarrow> nat \<Rightarrow> Status \<times> bytes" where
  "decompressBlock lib type compressed uncompressed_size =
     (case type of
        ctNone \<Rightarrow> (Status_Ok, compressed)
      | ctSnappy \<Rightarrow>
          (case snappy_Uncompress lib compressed of
             None \<Rightarrow> (Status_Corruption (str ''snappy decompress failed''), [])
           | Some out \<Rightarrow>
               if length out \<noteq> uncompressed_size
               then (Status_Corruption (str ''snappy decompressed size mismatch''), out)
               else (Status_Ok, out))
      | ctZstd \<Rightarrow>
          (case zstd_decompress lib uncompressed_size compressed of
             Inl e \<Rightarrow> (Status_Corruption e, [])
           | Inr out \<Rightarrow>
               if length out \<noteq> uncompressed_size
               then (Status_Corruption (str ''zstd decompressed size mismatch''), out)
               else (Status_Ok, out))
      | ctOther _ \<Rightarrow> (Status_NotSupported (str ''unknown compression type''), []))"

definition compressionName :: "CompressionType \<Rightarrow> bytes" where
  "compressionName type =
     (case type of ctNone \<Rightarrow> str ''none'' | ctSnappy \<Rightarrow> str ''snappy'' | ctZstd \<Rightarrow> str ''zstd''
      | ctOther _ \<Rightarrow> str ''unknown'')"

lemma CompressionType_roundtrip [simp]:
  "CompressionType_of_u8 0 = ctNone" "CompressionType_of_u8 (u8_of_CompressionType ctNone) = ctNone"
  "CompressionType_of_u8 (u8_of_CompressionType ctSnappy) = ctSnappy"
  "CompressionType_of_u8 (u8_of_CompressionType ctZstd) = ctZstd"
  by (simp_all add: CompressionType_of_u8_def u8_of_CompressionType_def)

text \<open>Whatever \<open>compressBlock\<close> delivers with success, \<open>decompressBlock\<close> takes back.\<close>

lemma decompress_compress:
  assumes "codec_ok lib" "compressBlock lib type input = (s, out)" "Status_ok s"
  shows "decompressBlock lib type out (length input) = (Status_Ok, input)"
  using assms
  by (auto simp: compressBlock_def decompressBlock_def codec_ok_def
      split: CompressionType.splits sum.splits option.splits)

lemma compress_nonempty:
  "codec_ok lib \<Longrightarrow> compressBlock lib type input = (s, out) \<Longrightarrow> Status_ok s \<Longrightarrow> input \<noteq> [] \<Longrightarrow> out \<noteq> []"
  by (auto simp: compressBlock_def codec_ok_def split: CompressionType.splits sum.splits)

lemma compress_known:
  "compressBlock lib type input = (s, out) \<Longrightarrow> Status_ok s \<Longrightarrow>
     CompressionType_of_u8 (u8_of_CompressionType type) = type"
  by (auto simp: compressBlock_def split: CompressionType.splits)

end
