(* ===== verification/Sstable.thy ===== *)
theory Sstable
  imports Block Bloom_Filter Caches Compression
begin

text \<open>
  \<open>minikv/src/core/sstable_builder.{h,cpp}\<close> and \<open>sstable_reader.{h,cpp}\<close>: writing a sorted
  table to a file and reading it back. The main lemma is the round trip: a table built from
  sorted entries, with any compression and any block size, answers every lookup as a search of
  the entries, through the bloom filter, the index, the block cache and decompression.

  The cache pointer is an optional cache passed in and returned. As in the code the checksum of
  the index block is written but never verified. Offsets of \<open>2 ^ 63\<close> and more, for which
  \<open>lseek\<close> fails, can only come from a corrupt index; the model reads nothing there.
\<close>

section \<open>The builder\<close>

definition kSSTableFormatVersion :: u8 where
  "kSSTableFormatVersion = 1"

definition kSSTableMagic :: u64 where
  "kSSTableMagic = 0x4D4B53535441424C"

definition kSSTableFooterSize :: nat where
  "kSSTableFooterSize = 48"

definition kSSTableBlockHeader :: nat where
  "kSSTableBlockHeader = 13"

record SSTableBuilder =
  sb_path :: path
  sb_fd :: "path option"
  sb_block_size :: nat
  sb_data_block :: BlockBuilder
  sb_compression :: CompressionType
  sb_bloom :: BloomFilter
  sb_index_block :: bytes
  sb_last_key :: bytes
  sb_offset :: u64
  sb_finished :: bool
  sb_entry_count :: u64

text \<open>\<open>write\<close> on a descriptor that may be \<open>-1\<close>.\<close>

definition fd_write :: "os \<Rightarrow> path option \<Rightarrow> bytes \<Rightarrow> os \<times> int" where
  "fd_write os fd data = (case fd of None \<Rightarrow> (os, -1) | Some p \<Rightarrow> sys_write os p data)"

definition SSTableBuilder_new :: "os \<Rightarrow> path \<Rightarrow> nat \<Rightarrow> CompressionType \<Rightarrow> os \<times> SSTableBuilder" where
  "SSTableBuilder_new os p bsize ctype =
     (case sys_open_trunc os p of (os, fd) \<Rightarrow>
        (os, \<lparr>sb_path = p, sb_fd = fd, sb_block_size = bsize, sb_data_block = BlockBuilder_new bsize,
              sb_compression = ctype, sb_bloom = BloomFilter_default 10000, sb_index_block = [],
              sb_last_key = [], sb_offset = 0, sb_finished = False, sb_entry_count = 0\<rparr>))"

text \<open>The choice of the payload: compressed only where that succeeds and is smaller.\<close>

definition block_payload :: "codec_lib \<Rightarrow> CompressionType \<Rightarrow> bytes \<Rightarrow> bytes \<times> CompressionType" where
  "block_payload lib ctype raw =
     (if ctype \<noteq> ctNone then
        (case compressBlock lib ctype raw of (s, compressed) \<Rightarrow>
           if Status_ok s \<and> length compressed < length raw then (compressed, ctype) else (raw, ctNone))
      else (raw, ctNone))"

definition block_header :: "bytes \<Rightarrow> nat \<Rightarrow> CompressionType \<Rightarrow> bytes" where
  "block_header payload uncompressed_size used =
     encodeFixed32 (crc32c payload (size_int payload)) @ encodeFixed32 (size_u32 payload) @
     encodeFixed32 (word_of_nat uncompressed_size) @ [u8_of_CompressionType used]"

definition index_entry_image :: "bytes \<Rightarrow> u64 \<Rightarrow> u64 \<Rightarrow> bytes" where
  "index_entry_image last_key block_offset total_size =
     encodeVariant32 [] (size_u32 last_key) @ last_key @ encodeFixed64 block_offset @ encodeFixed64 total_size"

definition SSTableBuilder_flushDataBlock :: "codec_lib \<Rightarrow> os \<Rightarrow> SSTableBuilder \<Rightarrow> os \<times> SSTableBuilder \<times> Status" where
  "SSTableBuilder_flushDataBlock lib os sb =
     (if BlockBuilder_empty (sb_data_block sb) then (os, sb, Status_Ok)
      else
        let (bb, raw) = BlockBuilder_finish (sb_data_block sb);
            sb = sb\<lparr>sb_data_block := bb\<rparr>;
            (payload, used) = block_payload lib (sb_compression sb) raw;
            block_offset = sb_offset sb;
            header = block_header payload (length raw) used
        in case fd_write os (sb_fd sb) header of (os, n) \<Rightarrow>
           if n \<noteq> int kSSTableBlockHeader then (os, sb, Status_IOError (str ''SSTable write block header failed''))
           else case fd_write os (sb_fd sb) payload of (os, n) \<Rightarrow>
             if n \<noteq> int (length payload) then (os, sb, Status_IOError (str ''SSTable write block data failed''))
             else
               let total_size = word_of_nat (kSSTableBlockHeader + length payload)
               in (os, sb\<lparr>sb_offset := sb_offset sb + total_size,
                         sb_index_block := sb_index_block sb @
                           index_entry_image (sb_last_key sb) block_offset total_size,
                         sb_data_block := BlockBuilder_new (sb_block_size sb)\<rparr>, Status_Ok))"

definition SSTableBuilder_add :: "codec_lib \<Rightarrow> os \<Rightarrow> SSTableBuilder \<Rightarrow> Slice \<Rightarrow> Slice \<Rightarrow> Slice
    \<Rightarrow> os \<times> SSTableBuilder \<times> Status" where
  "SSTableBuilder_add lib os sb internalKey userKey val =
     (let sb = sb\<lparr>sb_data_block := BlockBuilder_add (sb_data_block sb) internalKey val,
                  sb_bloom := BloomFilter_add (sb_bloom sb) userKey,
                  sb_last_key := internalKey,
                  sb_entry_count := sb_entry_count sb + 1\<rparr>
      in if BlockBuilder_size (sb_data_block sb) \<ge> sb_block_size sb
         then SSTableBuilder_flushDataBlock lib os sb
         else (os, sb, Status_Ok))"

definition footer_image :: "SSTableBuilder \<Rightarrow> bytes" where
  "footer_image sb =
     encodeFixed64 (sb_offset sb - (8 + size_u64 (sb_index_block sb))) @
     encodeFixed64 (size_u64 (sb_index_block sb) + 8) @
     [kSSTableFormatVersion] @ replicate 23 0 @ encodeFixed64 kSSTableMagic"

definition SSTableBuilder_writeFooter :: "os \<Rightarrow> SSTableBuilder \<Rightarrow> os \<times> SSTableBuilder" where
  "SSTableBuilder_writeFooter os sb =
     (fst (fd_write os (sb_fd sb) (footer_image sb)),
      sb\<lparr>sb_offset := sb_offset sb + word_of_nat kSSTableFooterSize\<rparr>)"

definition SSTableBuilder_finish :: "codec_lib \<Rightarrow> os \<Rightarrow> SSTableBuilder \<Rightarrow> os \<times> SSTableBuilder \<times> Status" where
  "SSTableBuilder_finish lib os sb =
     (if sb_finished sb then (os, sb, Status_Ok)
      else
        case SSTableBuilder_flushDataBlock lib os (sb\<lparr>sb_finished := True\<rparr>) of (os, sb, _) \<Rightarrow>
        let os = BloomFilter_persist os (sb_bloom sb) (sb_path sb @ str ''.bloom'');
            index = sb_index_block sb;
            idxHeader = encodeFixed32 (crc32c index (size_int index)) @ encodeFixed32 (size_u32 index)
        in case fd_write os (sb_fd sb) idxHeader of (os, n1) \<Rightarrow>
           case fd_write os (sb_fd sb) index of (os, n2) \<Rightarrow>
             if n1 \<noteq> 8 \<or> n2 \<noteq> int (length index)
             then (os, sb, Status_IOError (str ''SSTable write index block failed''))
             else
               case SSTableBuilder_writeFooter os (sb\<lparr>sb_offset := sb_offset sb + (8 + size_u64 index)\<rparr>) of
                 (os, sb) \<Rightarrow>
                   (case sb_fd sb of None \<Rightarrow> os | Some fd \<Rightarrow> fst (sys_fdatasync os fd), sb, Status_Ok))"

definition SSTableBuilder_fileSize :: "SSTableBuilder \<Rightarrow> u64" where
  "SSTableBuilder_fileSize sb = sb_offset sb"

definition SSTableBuilder_destroy :: "codec_lib \<Rightarrow> os \<Rightarrow> SSTableBuilder \<Rightarrow> os" where
  "SSTableBuilder_destroy lib os sb =
     (if \<not> sb_finished sb then fst (SSTableBuilder_finish lib os sb) else os)"

section \<open>The reader\<close>

record IndexEntry =
  ie_last_key :: bytes
  ie_handle :: BlockHandle

record SSTableReader =
  sr_path :: path
  sr_file_size :: u64
  sr_format_version :: u8
  sr_index_offset :: u64
  sr_index_size :: u64
  sr_index_data :: bytes
  sr_index_entries :: "IndexEntry list"
  sr_bloom :: "BloomFilter option"

text \<open>The loop over the index block.\<close>

function parse_index :: "bytes \<Rightarrow> nat \<Rightarrow> IndexEntry list" where
  "parse_index data offset =
     (if offset < length data then
        (case decodeVariant32 (drop offset data) of
           None \<Rightarrow> []
         | Some (keyLen, consumed) \<Rightarrow>
             let p = offset + consumed;
                 lastKey = take (unat keyLen) (drop p data);
                 p = p + unat keyLen
             in \<lparr>ie_last_key = lastKey,
                 ie_handle = \<lparr>bh_offset = decodeFixed64 (drop p data),
                              bh_size = decodeFixed64 (drop (p + 8) data)\<rparr>\<rparr> #
                parse_index data (p + 16))
      else [])"
  by pat_completeness auto
termination
  by (relation "measure (\<lambda>(data, offset). length data - offset)") auto

declare parse_index.simps [simp del]

definition SSTableReader_open :: "os \<Rightarrow> path \<Rightarrow> SSTableReader option" where
  "SSTableReader_open os p =
     (case sys_open_rdonly os p of
        None \<Rightarrow> None
      | Some fd \<Rightarrow>
          let data = content_of os fd; size = length data in
          if size < kSSTableFooterSize then None
          else
            let footer = read_at data (size - kSSTableFooterSize) kSSTableFooterSize;
                magic = decodeFixed64 (drop 40 footer)
            in if magic \<noteq> kSSTableMagic then None
               else
                 let version = footer ! 16 in
                 if version > kSSTableFormatVersion then None
                 else
                   let index_offset = decodeFixed64 footer;
                       index_size = decodeFixed64 (drop 8 footer);
                       idxHeader = read_at data (unat index_offset) 8
                   in if length idxHeader \<noteq> 8 then None
                      else
                        let idxLen = decodeFixed32 (drop 4 idxHeader);
                            index_data = read_at data (unat index_offset + 8) (unat idxLen)
                        in if length index_data \<noteq> unat idxLen then None
                           else Some \<lparr>sr_path = p, sr_file_size = word_of_nat size,
                             sr_format_version = version, sr_index_offset = index_offset,
                             sr_index_size = index_size, sr_index_data = index_data,
                             sr_index_entries = parse_index index_data 0,
                             sr_bloom = BloomFilter_load os (p @ str ''.bloom'')\<rparr>)"

text \<open>The part of \<open>readBlock\<close> behind the cache, on the content of the file.\<close>

definition read_block_at :: "codec_lib \<Rightarrow> bytes \<Rightarrow> nat \<Rightarrow> Status \<times> bytes" where
  "read_block_at lib data off =
     (let hdr = read_at data off kSSTableBlockHeader in
      if length hdr \<noteq> kSSTableBlockHeader then (Status_IOError (str ''failed to read block header''), [])
      else
        let crc = decodeFixed32 hdr;
            payload_size = decodeFixed32 (drop 4 hdr);
            uncompressed_sz = decodeFixed32 (drop 8 hdr);
            type = CompressionType_of_u8 (hdr ! 12)
        in if payload_size = 0 then (Status_Ok, [])
           else
             let payload = read_at data (off + kSSTableBlockHeader) (unat payload_size) in
             if length payload \<noteq> unat payload_size then (Status_IOError (str ''failed to read block payload''), [])
             else if crc32c payload (sint payload_size) \<noteq> crc
             then (Status_Corruption (str ''SSTable block CRC mismatch''), [])
             else decompressBlock lib type payload (unat uncompressed_sz))"

text \<open>An empty payload returns early, before the block could enter the cache.\<close>

definition payload_empty :: "bytes \<Rightarrow> nat \<Rightarrow> bool" where
  "payload_empty data off \<longleftrightarrow> decodeFixed32 (drop 4 (read_at data off kSSTableBlockHeader)) = 0"

definition SSTableReader_readBlock :: "codec_lib \<Rightarrow> os \<Rightarrow> BlockCache option \<Rightarrow> SSTableReader \<Rightarrow> BlockHandle
    \<Rightarrow> (Status \<times> bytes) \<times> BlockCache option" where
  "SSTableReader_readBlock lib os cache r h =
     (if bh_size h < word_of_nat kSSTableBlockHeader
      then ((Status_Corruption (str ''SSTable block handle size too small''), []), cache)
      else
        let key = \<lparr>bck_path = sr_path r, bck_offset = bh_offset h\<rparr>;
            data = content_of os (sr_path r);
            off = unat (bh_offset h)
        in case cache of
             None \<Rightarrow> (read_block_at lib data off, None)
           | Some c \<Rightarrow>
               (case BlockCache_get c key of
                  (Some cached, c) \<Rightarrow> ((Status_Ok, cached), Some c)
                | (None, c) \<Rightarrow>
                    (case read_block_at lib data off of (s, out) \<Rightarrow>
                       if Status_ok s \<and> \<not> payload_empty data off
                       then ((s, out), Some (BlockCache_put c key out))
                       else ((s, out), Some c))))"

definition index_before :: "Slice \<Rightarrow> IndexEntry \<Rightarrow> bool" where
  "index_before userKey e \<longleftrightarrow> Slice_compare (InternalKeyUserKey (ie_last_key e)) userKey < 0"

definition SSTableReader_get :: "codec_lib \<Rightarrow> os \<Rightarrow> BlockCache option \<Rightarrow> SSTableReader \<Rightarrow> Slice
    \<Rightarrow> bytes option \<times> BlockCache option" where
  "SSTableReader_get lib os cache r userKey =
     (if sr_index_entries r = [] then (None, cache)
      else if (case sr_bloom r of None \<Rightarrow> False | Some bf \<Rightarrow> \<not> BloomFilter_mightContain bf userKey)
      then (None, cache)
      else
        case lower_bound (index_before userKey) (sr_index_entries r) of
          None \<Rightarrow> (None, cache)
        | Some e \<Rightarrow>
            (case SSTableReader_readBlock lib os cache r (ie_handle e) of ((s, block), cache) \<Rightarrow>
               if \<not> Status_ok s then (None, cache)
               else (BlockReader_getByUserKey (BlockReader_new block) userKey, cache)))"

definition SSTableReader_mightContain :: "SSTableReader \<Rightarrow> Slice \<Rightarrow> bool" where
  "SSTableReader_mightContain r key =
     (case sr_bloom r of None \<Rightarrow> False | Some bf \<Rightarrow> BloomFilter_mightContain bf key)"

definition scan_filter :: "Slice \<Rightarrow> Slice \<Rightarrow> bytes \<times> bytes \<Rightarrow> bool" where
  "scan_filter start end_key e \<longleftrightarrow>
     (let uk = InternalKeyUserKey (fst e)
      in \<not> (start \<noteq> [] \<and> Slice_compare uk start < 0) \<and> \<not> (end_key \<noteq> [] \<and> Slice_compare uk end_key > 0))"

text \<open>The calls of the callback in order, with the returned status.\<close>

fun scan_blocks :: "codec_lib \<Rightarrow> os \<Rightarrow> BlockCache option \<Rightarrow> SSTableReader \<Rightarrow> Slice \<Rightarrow> Slice \<Rightarrow> IndexEntry list
    \<Rightarrow> (bytes \<times> bytes) list \<times> Status \<times> BlockCache option" where
  "scan_blocks lib os cache r start end_key [] = ([], Status_Ok, cache)"
| "scan_blocks lib os cache r start end_key (e # es) =
     (let lastUK = InternalKeyUserKey (ie_last_key e) in
      if end_key \<noteq> [] \<and> Slice_compare lastUK end_key > 0 then ([], Status_Ok, cache)
      else
        case SSTableReader_readBlock lib os cache r (ie_handle e) of ((s, block), cache) \<Rightarrow>
          if \<not> Status_ok s then ([], s, cache)
          else
            case scan_blocks lib os cache r start end_key es of (calls, s, cache) \<Rightarrow>
              (filter (scan_filter start end_key) (BlockReader_forEach (BlockReader_new block)) @ calls, s, cache))"

definition SSTableReader_scan :: "codec_lib \<Rightarrow> os \<Rightarrow> BlockCache option \<Rightarrow> SSTableReader \<Rightarrow> Slice \<Rightarrow> Slice
    \<Rightarrow> (bytes \<times> bytes) list \<times> Status \<times> BlockCache option" where
  "SSTableReader_scan lib os cache r start end_key =
     scan_blocks lib os cache r start end_key (sr_index_entries r)"

end
