(* ===== verification/Sstable_Roundtrip.thy ===== *)
theory Sstable_Roundtrip
  imports Sstable
begin

text \<open>
  The round trip of a table file: the builder's image of a list of entries, and what the reader
  makes of it. A table is described by the images of its data blocks together with the entries
  each of them holds. The size hypothesis bounds the table by \<open>2 ^ 31\<close> bytes, which keeps every
  32-bit length of the format exact.
\<close>

section \<open>Sizes\<close>

definition entry_weight :: "bytes \<times> bytes \<Rightarrow> nat" where
  "entry_weight e = length (fst e) + length (snd e) + 40"

definition table_weight :: "(bytes \<times> bytes) list \<Rightarrow> nat" where
  "table_weight es = sum_list (map entry_weight es)"

lemma table_weight_simps [simp]:
  "table_weight [] = 0" "table_weight (e # es) = entry_weight e + table_weight es"
  "table_weight (es @ fs) = table_weight es + table_weight fs"
  by (simp_all add: table_weight_def)

lemma table_weight_mem: "e \<in> set es \<Longrightarrow> entry_weight e \<le> table_weight es"
  by (induction es) auto

lemma length_varint: "length (encodeVariant32 [] (v :: u32)) \<le> 5"
proof -
  have "unat v < 2 ^ LENGTH(32)" by (rule unsigned_less)
  then have "unat v < 2 ^ (7 * 5)" by simp
  then show ?thesis by (rule length_encodeVariant32_bound) simp
qed

lemma length_entry_image: "s \<le> length k \<Longrightarrow> length (entry_image (s, k, v)) \<le> 15 + length k + length v"
  using length_varint [of "word_of_nat s"] length_varint [of "word_of_nat (length k - s)"]
    length_varint [of "size_u32 v"]
  by (simp add: entry_image_def entry_header_parts)

definition builder_bound :: "BlockBuilder \<Rightarrow> (bytes \<times> bytes) list \<Rightarrow> bool" where
  "builder_bound bb es \<longleftrightarrow>
     length (bb_buffer bb) \<le> sum_list (map (\<lambda>e. 15 + length (fst e) + length (snd e)) es) \<and>
     length (bb_restarts bb) \<le> Suc (length es)"

lemma builder_bound_new: "builder_bound (BlockBuilder_new n) []"
  by (simp add: builder_bound_def BlockBuilder_new_def)

lemma builder_bound_add:
  assumes "builder_bound bb es"
  shows "builder_bound (BlockBuilder_add bb k v) (es @ [(k, v)])"
proof -
  define s where "s = (if bb_restart_counter bb < kRestartInterval \<and> bb_last_key bb \<noteq> []
    then shared_len (bb_last_key bb) k else 0)"
  have "s \<le> length k" using shared_len_prefix [of "bb_last_key bb" k] by (simp add: s_def)
  from length_entry_image [OF this, of v] show ?thesis
    using assms by (simp add: builder_bound_def BlockBuilder_add_def Let_def s_def entry_image_def)
qed

lemma length_finish:
  "length (snd (BlockBuilder_finish bb)) = length (bb_buffer bb) + 4 * length (bb_restarts bb) + 4"
proof -
  have "length (concat (map encodeFixed32 xs)) = 4 * length xs" for xs by (induction xs) simp_all
  then show ?thesis by (simp add: BlockBuilder_finish_def Let_def)
qed

lemma finish_bound:
  assumes "builder_bound bb es"
  shows "length (snd (BlockBuilder_finish bb)) \<le> table_weight es + 8"
proof -
  have "sum_list (map (\<lambda>e. 15 + length (fst e) + length (snd e)) es) + 4 * length es \<le> table_weight es"
    by (induction es) (auto simp: entry_weight_def)
  with assms show ?thesis unfolding length_finish builder_bound_def by linarith
qed

section \<open>One data block\<close>

definition block_image :: "codec_lib \<Rightarrow> CompressionType \<Rightarrow> bytes \<Rightarrow> bytes" where
  "block_image lib ctype raw =
     (case block_payload lib ctype raw of (payload, used) \<Rightarrow> block_header payload (length raw) used @ payload)"

definition block_holds :: "codec_lib \<Rightarrow> bytes \<Rightarrow> (bytes \<times> bytes) list \<Rightarrow> bool" where
  "block_holds lib img es \<longleftrightarrow>
     kSSTableBlockHeader \<le> length img \<and> es \<noteq> [] \<and> length img \<le> 2 * table_weight es \<and>
     (\<exists>raw. BlockReader_forEach (BlockReader_new raw) = es \<and>
        (\<forall>pre post. read_block_at lib (pre @ img @ post) (length pre) = (Status_Ok, raw) \<and>
           \<not> payload_empty (pre @ img @ post) (length pre)))"

lemma length_block_header [simp]: "length (block_header payload n used) = 13"
  by (simp add: block_header_def)

lemma block_payload_decompress:
  assumes "codec_ok lib" "raw \<noteq> []" "block_payload lib ctype raw = (payload, used)"
  shows "decompressBlock lib used payload (length raw) = (Status_Ok, raw)"
    and "payload \<noteq> []" and "length payload \<le> length raw"
    and "CompressionType_of_u8 (u8_of_CompressionType used) = used"
  using assms decompress_compress [OF assms(1), of used raw] compress_nonempty [OF assms(1)] compress_known
  by (auto simp: block_payload_def decompressBlock_def split: if_splits prod.splits)

lemma read_block_image:
  assumes "codec_ok lib" "raw \<noteq> []" "length raw < 2 ^ 32"
  shows "read_block_at lib (pre @ block_image lib ctype raw @ post) (length pre) = (Status_Ok, raw)"
    and "\<not> payload_empty (pre @ block_image lib ctype raw @ post) (length pre)"
proof -
  obtain payload used where p: "block_payload lib ctype raw = (payload, used)" by fastforce
  note d = block_payload_decompress [OF assms(1,2) p]
  let ?h = "block_header payload (length raw) used"
  let ?data = "pre @ block_image lib ctype raw @ post"
  have data: "?data = pre @ ?h @ payload @ post" by (simp add: block_image_def p)
  have h: "read_at ?data (length pre) 13 = ?h" "read_at ?data (length pre + 13) (length payload) = payload"
    unfolding data read_at_def by simp_all
  have f: "decodeFixed32 ?h = crc32c payload (size_int payload)" "decodeFixed32 (drop 4 ?h) = size_u32 payload"
    "decodeFixed32 (drop 8 ?h) = word_of_nat (length raw)" "?h ! 12 = u8_of_CompressionType used"
    by (simp_all add: block_header_def nth_append)
  have u: "unat (size_u32 payload) = length payload" "unat (word_of_nat (length raw) :: u32) = length raw"
    using d(3) assms(3) by (auto intro: unat_size_u32 unat_of_nat_small)
  have ne: "size_u32 payload \<noteq> 0" using u(1) d(2) by (metis length_0_conv unat_0)
  have sint: "sint (size_u32 payload) = size_int payload" by (simp add: size_int_def size_u32_def)
  show "read_block_at lib ?data (length pre) = (Status_Ok, raw)"
    unfolding read_block_at_def Let_def kSSTableBlockHeader_def h(1) f u sint h(2) d(4)
    using ne d(1) by simp
  show "\<not> payload_empty ?data (length pre)"
    unfolding payload_empty_def kSSTableBlockHeader_def h(1) f using ne by simp
qed

lemma block_image_holds:
  assumes lib: "codec_ok lib" and inv: "builder_inv bb es" and bound: "builder_bound bb es"
    and es: "es \<noteq> []" "table_weight es < 2 ^ 31"
  shows "block_holds lib (block_image lib ctype (snd (BlockBuilder_finish bb))) es"
proof -
  let ?raw = "snd (BlockBuilder_finish bb)"
  have len: "length ?raw \<le> table_weight es + 8" "length ?raw < 2 ^ 32" "?raw \<noteq> []"
    using finish_bound [OF bound] es(2) length_finish [of bb] by auto
  obtain payload used where p: "block_payload lib ctype ?raw = (payload, used)" by fastforce
  have "length payload \<le> length ?raw" using block_payload_decompress(3) [OF lib len(3) p] .
  moreover have "40 \<le> table_weight es" using es(1) by (cases es) (auto simp: entry_weight_def)
  ultimately have "length (block_image lib ctype ?raw) \<le> 2 * table_weight es" "13 \<le> length (block_image lib ctype ?raw)"
    using len(1) by (simp_all add: block_image_def p)
  then show ?thesis
    using read_block_image [OF lib len(3,2)] block_roundtrip [OF inv len(2)] es(1)
    by (auto simp: block_holds_def kSSTableBlockHeader_def intro!: exI [of _ ?raw])
qed

section \<open>The index\<close>

type_synonym table = "(bytes \<times> (bytes \<times> bytes) list) list"

fun index_of :: "nat \<Rightarrow> table \<Rightarrow> IndexEntry list" where
  "index_of off [] = []"
| "index_of off ((img, es) # bs) =
     \<lparr>ie_last_key = fst (last es),
      ie_handle = \<lparr>bh_offset = word_of_nat off, bh_size = word_of_nat (length img)\<rparr>\<rparr> #
     index_of (off + length img) bs"

definition index_image :: "IndexEntry list \<Rightarrow> bytes" where
  "index_image ies =
     concat (map (\<lambda>e. index_entry_image (ie_last_key e) (bh_offset (ie_handle e)) (bh_size (ie_handle e))) ies)"

definition table_entries :: "table \<Rightarrow> (bytes \<times> bytes) list" where
  "table_entries bs = concat (map snd bs)"

definition table_data :: "table \<Rightarrow> bytes" where
  "table_data bs = concat (map fst bs)"

lemma index_of_append: "index_of off (bs @ cs) = index_of off bs @ index_of (off + length (table_data bs)) cs"
  by (induction off bs rule: index_of.induct) (simp_all add: table_data_def add.assoc)

lemma table_simps [simp]:
  "table_entries [] = []" "table_entries (b # bs) = snd b @ table_entries bs"
  "table_entries (bs @ cs) = table_entries bs @ table_entries cs"
  "table_data [] = []" "table_data (b # bs) = fst b @ table_data bs"
  "table_data (bs @ cs) = table_data bs @ table_data cs"
  by (simp_all add: table_entries_def table_data_def)

lemma parse_index_image:
  assumes "\<forall>e\<in>set ies. length (ie_last_key e) < 2 ^ 32"
  shows "parse_index (pre @ index_image ies) (length pre) = ies"
  using assms
proof (induction ies arbitrary: pre)
  case Nil
  then show ?case by (simp add: index_image_def parse_index.simps)
next
  case (Cons e ies)
  let ?k = "ie_last_key e" and ?o = "bh_offset (ie_handle e)" and ?s = "bh_size (ie_handle e)"
  let ?v = "encodeVariant32 [] (size_u32 ?k)" and ?rest = "index_image ies"
  have u: "unat (size_u32 ?k) = length ?k" using Cons.prems by (intro unat_size_u32) simp
  have data: "pre @ index_image (e # ies) = pre @ ?v @ ?k @ encodeFixed64 ?o @ encodeFixed64 ?s @ ?rest"
    by (simp add: index_image_def index_entry_image_def)
  let ?data = "pre @ ?v @ ?k @ encodeFixed64 ?o @ encodeFixed64 ?s @ ?rest"
  have "parse_index ?data (length pre) =
      \<lparr>ie_last_key = ?k, ie_handle = \<lparr>bh_offset = ?o, bh_size = ?s\<rparr>\<rparr> #
      parse_index ?data (length pre + length ?v + length ?k + 16)"
    by (subst parse_index.simps) (simp add: u Let_def)
  also have "parse_index ?data (length pre + length ?v + length ?k + 16) = ies"
    using Cons.IH [of "pre @ ?v @ ?k @ encodeFixed64 ?o @ encodeFixed64 ?s"] Cons.prems
    by (simp add: add.assoc)
  finally show ?case unfolding data by simp
qed

lemma index_of_keys:
  assumes "\<forall>b\<in>set bs. snd b \<noteq> []" "e \<in> set (index_of off bs)"
  shows "\<exists>x\<in>set (table_entries bs). ie_last_key e = fst x"
  using assms
proof (induction off bs rule: index_of.induct)
  case (2 off img es bs)
  then show ?case using last_in_set [of es] by auto
qed simp

lemma index_image_weight:
  "\<forall>b\<in>set bs. snd b \<noteq> [] \<Longrightarrow> length (index_image (index_of off bs)) \<le> table_weight (table_entries bs)"
proof (induction off bs rule: index_of.induct)
  case (2 off img es bs)
  have "entry_weight (last es) \<le> table_weight es" using 2(2) by (intro table_weight_mem) simp
  moreover have "length (index_image (index_of off ((img, es) # bs))) \<le>
      entry_weight (last es) + length (index_image (index_of (off + length img) bs))"
    using length_varint [of "size_u32 (fst (last es))"]
    by (simp add: index_image_def index_entry_image_def entry_weight_def)
  moreover have "length (index_image (index_of (off + length img) bs)) \<le> table_weight (table_entries bs)"
    using 2 by simp
  ultimately show ?case by simp
qed (simp add: index_image_def)

lemma table_data_weight:
  "\<forall>b\<in>set bs. block_holds lib (fst b) (snd b) \<Longrightarrow> length (table_data bs) \<le> 2 * table_weight (table_entries bs)"
  by (induction bs) (auto simp: block_holds_def)

section \<open>Building a table\<close>

definition user_keys :: "(bytes \<times> bytes) list \<Rightarrow> bytes list" where
  "user_keys es = map (\<lambda>e. InternalKeyUserKey (fst e)) es"

definition table_inv :: "codec_lib \<Rightarrow> os \<Rightarrow> SSTableBuilder \<Rightarrow> table \<Rightarrow> (bytes \<times> bytes) list \<Rightarrow> bool" where
  "table_inv lib os sb bs cur \<longleftrightarrow>
     os_faults os = [] \<and> sb_fd sb = Some (sb_path sb) \<and> \<not> sb_finished sb \<and>
     (\<exists>f. file_of os (sb_path sb) = Some f \<and> f_data f = table_data bs) \<and>
     sb_offset sb = word_of_nat (length (table_data bs)) \<and>
     sb_index_block sb = index_image (index_of 0 bs) \<and>
     (\<forall>b\<in>set bs. block_holds lib (fst b) (snd b)) \<and>
     builder_inv (sb_data_block sb) cur \<and> builder_bound (sb_data_block sb) cur \<and>
     (cur \<noteq> [] \<longrightarrow> sb_last_key sb = fst (last cur)) \<and>
     sb_bloom sb = foldl BloomFilter_add (BloomFilter_default 10000) (user_keys (table_entries bs @ cur))"

lemma builder_empty_iff:
  assumes "builder_inv bb es"
  shows "BlockBuilder_empty bb \<longleftrightarrow> es = []"
proof -
  obtain rs where rs: "map snd rs = es" "bb_buffer bb = concat (map entry_image rs)"
    using assms by (auto simp: builder_inv_def)
  show ?thesis
    using rs entry_image_nonempty by (cases rs) (auto simp: BlockBuilder_empty_def)
qed

lemma table_inv_new:
  assumes "os_faults os = []" "SSTableBuilder_new os p n ctype = (os', sb)"
  shows "table_inv lib os' sb [] [] \<and> sb_path sb = p"
  using assms
  by (auto simp: SSTableBuilder_new_def sys_open_trunc_def table_inv_def new_file_def index_image_def
      builder_inv_new builder_bound_new user_keys_def)

lemma flush_block:
  assumes lib: "codec_ok lib" and inv: "table_inv lib os sb bs cur"
    and w: "table_weight (table_entries bs @ cur) < 2 ^ 31"
    and run: "SSTableBuilder_flushDataBlock lib os sb = (os', sb', s)"
  shows "\<exists>bs'. table_inv lib os' sb' bs' [] \<and> table_entries bs' = table_entries bs @ cur \<and>
    sb_path sb' = sb_path sb \<and> s = Status_Ok \<and> (\<forall>q. q \<noteq> sb_path sb \<longrightarrow> file_of os' q = file_of os q)"
proof (cases "cur = []")
  case True
  then have "BlockBuilder_empty (sb_data_block sb)" using inv builder_empty_iff by (auto simp: table_inv_def)
  with run inv True show ?thesis by (auto simp: SSTableBuilder_flushDataBlock_def)
next
  case False
  let ?bb = "sb_data_block sb"
  obtain f where f: "file_of os (sb_path sb) = Some f" "f_data f = table_data bs"
    using inv by (auto simp: table_inv_def)
  have bb: "builder_inv ?bb cur" "builder_bound ?bb cur" and fd: "sb_fd sb = Some (sb_path sb)"
    and faults: "os_faults os = []" and last: "sb_last_key sb = fst (last cur)"
    using inv False by (auto simp: table_inv_def)
  obtain bb' raw where fin: "BlockBuilder_finish ?bb = (bb', raw)" by fastforce
  let ?img = "block_image lib (sb_compression sb) raw"
  have holds: "block_holds lib ?img cur"
    using block_image_holds [OF lib bb False] w fin by simp
  obtain payload used where p: "block_payload lib (sb_compression sb) raw = (payload, used)" by fastforce
  have img: "?img = block_header payload (length raw) used @ payload" by (simp add: block_image_def p)
  let ?os = "append_file os (sb_path sb) ?img"
  let ?off = "length (table_data bs)"
  let ?tot = "word_of_nat (length ?img) :: u64"
  have ne: "\<not> BlockBuilder_empty ?bb" using builder_empty_iff [OF bb(1)] False by simp
  have res: "os' = ?os" "s = Status_Ok"
    "sb' = sb\<lparr>sb_offset := sb_offset sb + ?tot,
      sb_index_block := sb_index_block sb @ index_entry_image (sb_last_key sb) (sb_offset sb) ?tot,
      sb_data_block := BlockBuilder_new (sb_block_size sb)\<rparr>"
    using run ne fin p fd faults img
    by (auto simp: SSTableBuilder_flushDataBlock_def fd_write_def kSSTableBlockHeader_def append_file_append Let_def)
  have "table_inv lib os' sb' (bs @ [(?img, cur)]) []"
    using inv f holds fd faults last
    by (auto simp: table_inv_def res append_file_of index_of_append index_image_def
        builder_inv_new builder_bound_new)
  moreover have "\<forall>q. q \<noteq> sb_path sb \<longrightarrow> file_of os' q = file_of os q" by (simp add: res append_file_of)
  ultimately show ?thesis
    by (intro exI [of _ "bs @ [(?img, cur)]"]) (auto simp: res)
qed

lemma table_add:
  assumes lib: "codec_ok lib" and inv: "table_inv lib os sb bs cur"
    and w: "table_weight (table_entries bs @ cur @ [(k, v)]) < 2 ^ 31"
    and run: "SSTableBuilder_add lib os sb k (InternalKeyUserKey k) v = (os', sb', s)"
  shows "\<exists>bs' cur'. table_inv lib os' sb' bs' cur' \<and>
    table_entries bs' @ cur' = table_entries bs @ cur @ [(k, v)] \<and>
    sb_path sb' = sb_path sb \<and> s = Status_Ok \<and> (\<forall>q. q \<noteq> sb_path sb \<longrightarrow> file_of os' q = file_of os q)"
proof -
  let ?sb = "sb\<lparr>sb_data_block := BlockBuilder_add (sb_data_block sb) k v,
    sb_bloom := BloomFilter_add (sb_bloom sb) (InternalKeyUserKey k), sb_last_key := k,
    sb_entry_count := sb_entry_count sb + 1\<rparr>"
  have small: "small_entry (k, v)" using w by (simp add: small_entry_def entry_weight_def)
  have inv': "table_inv lib os ?sb bs (cur @ [(k, v)])"
    using inv builder_inv_add [OF _ small] builder_bound_add
    by (simp add: table_inv_def user_keys_def)
  show ?thesis
  proof (cases "BlockBuilder_size (sb_data_block ?sb) \<ge> sb_block_size ?sb")
    case True
    then have "SSTableBuilder_flushDataBlock lib os ?sb = (os', sb', s)"
      using run by (simp add: SSTableBuilder_add_def Let_def)
    from flush_block [OF lib inv' _ this] w show ?thesis by fastforce
  next
    case False
    then have "os' = os" "sb' = ?sb" "s = Status_Ok" using run by (simp_all add: SSTableBuilder_add_def Let_def)
    with inv' show ?thesis by fastforce
  qed
qed

text \<open>All additions of a table, as \<open>flushOne\<close> and the compaction perform them.\<close>

fun add_entries :: "codec_lib \<Rightarrow> os \<Rightarrow> SSTableBuilder \<Rightarrow> (bytes \<times> bytes) list \<Rightarrow> os \<times> SSTableBuilder" where
  "add_entries lib os sb [] = (os, sb)"
| "add_entries lib os sb ((k, v) # es) =
     (case SSTableBuilder_add lib os sb k (InternalKeyUserKey k) v of (os, sb, _) \<Rightarrow> add_entries lib os sb es)"

lemma table_add_entries:
  assumes "codec_ok lib" "table_inv lib os sb bs cur" "table_weight (table_entries bs @ cur @ es) < 2 ^ 31"
    and "add_entries lib os sb es = (os', sb')"
  shows "\<exists>bs' cur'. table_inv lib os' sb' bs' cur' \<and> table_entries bs' @ cur' = table_entries bs @ cur @ es \<and>
    sb_path sb' = sb_path sb \<and> (\<forall>q. q \<noteq> sb_path sb \<longrightarrow> file_of os' q = file_of os q)"
  using assms(2-)
proof (induction es arbitrary: os sb bs cur)
  case (Cons e es)
  obtain k v where e: "e = (k, v)" by fastforce
  obtain os1 sb1 s1 where a: "SSTableBuilder_add lib os sb k (InternalKeyUserKey k) v = (os1, sb1, s1)"
    by (metis prod_cases3)
  obtain bs1 cur1 where 1: "table_inv lib os1 sb1 bs1 cur1"
    "table_entries bs1 @ cur1 = table_entries bs @ cur @ [(k, v)]" "sb_path sb1 = sb_path sb"
    "\<forall>q. q \<noteq> sb_path sb \<longrightarrow> file_of os1 q = file_of os q"
    using table_add [OF assms(1) Cons.prems(1) _ a] Cons.prems(2) e by auto
  have "add_entries lib os1 sb1 es = (os', sb')" using Cons.prems(3) a e by simp
  moreover have eq: "table_entries bs1 @ cur1 @ es = table_entries bs @ cur @ e # es"
    using 1(2) e by (metis append.assoc append_Cons append_Nil)
  ultimately obtain bs' cur' where "table_inv lib os' sb' bs' cur'"
    "table_entries bs' @ cur' = table_entries bs1 @ cur1 @ es" "sb_path sb' = sb_path sb1"
    "\<forall>q. q \<noteq> sb_path sb1 \<longrightarrow> file_of os' q = file_of os1 q"
    using Cons.IH [OF 1(1)] Cons.prems(2) by (simp only: eq) blast
  then show ?case using 1 eq by auto
qed auto

section \<open>The finished file\<close>

definition table_file :: "table \<Rightarrow> bytes" where
  "table_file bs =
     (let index = index_image (index_of 0 bs) in
      table_data bs @ encodeFixed32 (crc32c index (size_int index)) @ encodeFixed32 (size_u32 index) @ index @
      encodeFixed64 (word_of_nat (length (table_data bs))) @ encodeFixed64 (size_u64 index + 8) @
      [kSSTableFormatVersion] @ replicate 23 0 @ encodeFixed64 kSSTableMagic)"

definition table_bloom :: "(bytes \<times> bytes) list \<Rightarrow> BloomFilter" where
  "table_bloom es = foldl BloomFilter_add (BloomFilter_default 10000) (user_keys es)"

text \<open>Names of table files, as \<open>DBImpl::purgeOrphanSSTables\<close> recognises them.\<close>

definition is_sst :: "path \<Rightarrow> bool" where
  "is_sst p \<longleftrightarrow> \<not> (length p < 4 \<or> drop (length p - 4) p \<noteq> str ''.sst'')"

lemma is_sst_append [simp]: "is_sst (p @ str ''.sst'')"
  by (simp add: is_sst_def str_def)

text \<open>A table file with its filter file, holding the entries \<open>es\<close>.\<close>

definition table_on_disk :: "codec_lib \<Rightarrow> os \<Rightarrow> path \<Rightarrow> (bytes \<times> bytes) list \<Rightarrow> bool" where
  "table_on_disk lib os p es \<longleftrightarrow>
     (\<exists>bs f. table_entries bs = es \<and> (\<forall>b\<in>set bs. block_holds lib (fst b) (snd b)) \<and>
        file_of os p = Some f \<and> f_data f = table_file bs) \<and>
     BloomFilter_load os (p @ str ''.bloom'') = Some (table_bloom es) \<and> table_weight es < 2 ^ 31 \<and> is_sst p"

lemma table_bloom_fields [simp]:
  "bf_num_hashes (table_bloom es) = 6" "bf_bits_per_key (table_bloom es) = 12"
  "length (bf_bits (table_bloom es)) = 15001"
proof -
  have "bf_num_hashes (foldl BloomFilter_add bf ks) = bf_num_hashes bf \<and>
      bf_bits_per_key (foldl BloomFilter_add bf ks) = bf_bits_per_key bf \<and>
      length (bf_bits (foldl BloomFilter_add bf ks)) = length (bf_bits bf)" for bf ks
    by (induction ks arbitrary: bf) simp_all
  then show "bf_num_hashes (table_bloom es) = 6" "bf_bits_per_key (table_bloom es) = 12"
    "length (bf_bits (table_bloom es)) = 15001"
    by (simp_all add: table_bloom_def BloomFilter_default_def BloomFilter_new_def Let_def)
qed

lemma bloom_path [simp]: "p @ str ''.bloom'' \<noteq> p" "p \<noteq> p @ str ''.bloom''"
  by (simp_all add: str_def)

lemma BloomFilter_load_cong:
  "file_of os q = file_of os' q \<Longrightarrow> BloomFilter_load os q = BloomFilter_load os' q"
  by (simp add: BloomFilter_load_def sys_open_rdonly_def content_of_def split: option.split)

lemma persist_other:
  "os_faults os = [] \<Longrightarrow> q \<noteq> p \<Longrightarrow> file_of (BloomFilter_persist os bf p) q = file_of os q"
  "os_faults os = [] \<Longrightarrow> os_faults (BloomFilter_persist os bf p) = []"
  by (simp_all add: BloomFilter_persist_def sys_open_trunc_def append_file_of)

lemma finish_table:
  assumes lib: "codec_ok lib" and inv: "table_inv lib os sb bs cur"
    and w: "table_weight (table_entries bs @ cur) < 2 ^ 31"
    and run: "SSTableBuilder_finish lib os sb = (os', sb', s)" and sst: "is_sst (sb_path sb)"
  shows "table_on_disk lib os' (sb_path sb) (table_entries bs @ cur)" "s = Status_Ok" "os_faults os' = []"
    "\<And>q. q \<noteq> sb_path sb \<Longrightarrow> q \<noteq> sb_path sb @ str ''.bloom'' \<Longrightarrow> file_of os' q = file_of os q"
    "file_synced os' (sb_path sb)"
proof -
  let ?p = "sb_path sb" and ?es = "table_entries bs @ cur"
  obtain os1 sb1 s1 where fl: "SSTableBuilder_flushDataBlock lib os (sb\<lparr>sb_finished := True\<rparr>) = (os1, sb1, s1)"
    by (metis prod_cases3)
  have "SSTableBuilder_flushDataBlock lib os sb = (os1, sb1\<lparr>sb_finished := False\<rparr>, s1)"
    using fl inv
    by (auto simp: SSTableBuilder_flushDataBlock_def table_inv_def Let_def split: if_splits prod.splits)
  from flush_block [OF lib inv w this] obtain bs' where
    inv1: "table_inv lib os1 (sb1\<lparr>sb_finished := False\<rparr>) bs' []" "table_entries bs' = ?es" "sb_path sb1 = ?p"
    "\<forall>q. q \<noteq> ?p \<longrightarrow> file_of os1 q = file_of os q" by auto
  then obtain f where f: "file_of os1 ?p = Some f" "f_data f = table_data bs'"
    by (auto simp: table_inv_def)
  have 1: "os_faults os1 = []" "sb_fd sb1 = Some ?p" "sb_offset sb1 = word_of_nat (length (table_data bs'))"
    "sb_index_block sb1 = index_image (index_of 0 bs')" "sb_bloom sb1 = table_bloom ?es"
    using inv1 by (auto simp: table_inv_def table_bloom_def)
  define os2 where "os2 = BloomFilter_persist os1 (table_bloom ?es) (?p @ str ''.bloom'')"
  have 2: "os_faults os2 = []" "file_of os2 ?p = Some f"
    "\<And>q. q \<noteq> ?p @ str ''.bloom'' \<Longrightarrow> file_of os2 q = file_of os1 q"
    using persist_other [OF 1(1)] f(1) by (simp_all add: os2_def)
  let ?tail = "drop (length (table_data bs')) (table_file bs')"
  define os3 where "os3 = append_file os2 ?p ?tail"
  have tail: "?tail = (encodeFixed32 (crc32c (sb_index_block sb1) (size_int (sb_index_block sb1))) @
      encodeFixed32 (size_u32 (sb_index_block sb1))) @ sb_index_block sb1 @
      footer_image (sb1\<lparr>sb_offset := sb_offset sb1 + (8 + size_u64 (sb_index_block sb1))\<rparr>)"
    by (simp add: table_file_def footer_image_def Let_def 1(3,4))
  have res: "os' = fst (sys_fdatasync os3 ?p)" "s = Status_Ok"
    using run fl 1 2 inv inv1(3) os2_def unfolding os3_def tail
    by (auto simp: SSTableBuilder_finish_def table_inv_def Let_def fd_write_def append_file_append
        SSTableBuilder_writeFooter_def)
  have f3: "file_of os3 ?p = Some (f\<lparr>f_data := table_file bs'\<rparr>)"
    using 2(2) f(2) by (simp add: os3_def append_file_of) (simp add: table_file_def Let_def)
  have faults3: "os_faults os3 = []" using 2 by (simp add: os3_def)
  then have os': "os' = set_file os3 ?p (f\<lparr>f_data := table_file bs', f_synced := length (table_file bs')\<rparr>)"
    using res f3 by (simp add: sys_fdatasync_def)
  show "s = Status_Ok" "os_faults os' = []" using res faults3 os' by simp_all
  show "file_synced os' ?p" by (simp add: file_synced_def os')
  show "file_of os' q = file_of os q" if "q \<noteq> ?p" "q \<noteq> ?p @ str ''.bloom''" for q
    using that inv1(4) 2(3) by (simp add: os' os3_def append_file_of)
  have "BloomFilter_load os2 (?p @ str ''.bloom'') = Some (table_bloom ?es)"
    unfolding os2_def by (rule BloomFilter_persist_load) (simp_all add: 1(1))
  moreover have "file_of os' (?p @ str ''.bloom'') = file_of os2 (?p @ str ''.bloom'')"
    by (simp add: os' os3_def append_file_of)
  ultimately have "BloomFilter_load os' (?p @ str ''.bloom'') = Some (table_bloom ?es)"
    by (metis BloomFilter_load_cong)
  moreover have "file_of os' ?p = Some (f\<lparr>f_data := table_file bs', f_synced := length (table_file bs')\<rparr>)"
    by (simp add: os')
  moreover have "\<forall>b\<in>set bs'. block_holds lib (fst b) (snd b)" using inv1(1) by (simp add: table_inv_def)
  ultimately show "table_on_disk lib os' ?p ?es"
    using inv1(2) w sst unfolding table_on_disk_def
    by (intro conjI exI [of _ bs'] exI [of _ "f\<lparr>f_data := table_file bs', f_synced := length (table_file bs')\<rparr>"]) simp_all
qed

section \<open>Opening and reading\<close>

lemma open_table:
  assumes "table_on_disk lib os p es"
  obtains bs r where "SSTableReader_open os p = Some r" "sr_path r = p" "sr_index_entries r = index_of 0 bs"
    "sr_bloom r = Some (table_bloom es)" "table_entries bs = es" "\<forall>b\<in>set bs. block_holds lib (fst b) (snd b)"
    "content_of os p = table_file bs" "length (table_data bs) < 2 ^ 32" "is_sst p"
proof -
  obtain bs f where bs: "table_entries bs = es" "\<forall>b\<in>set bs. block_holds lib (fst b) (snd b)"
    "file_of os p = Some f" "f_data f = table_file bs"
    and bloom: "BloomFilter_load os (p @ str ''.bloom'') = Some (table_bloom es)" and w: "table_weight es < 2 ^ 31"
    using assms by (auto simp: table_on_disk_def)
  let ?d = "table_data bs" and ?ix = "index_image (index_of 0 bs)"
  let ?foot = "encodeFixed64 (word_of_nat (length ?d)) @ encodeFixed64 (size_u64 ?ix + 8) @
      [kSSTableFormatVersion] @ replicate 23 0 @ encodeFixed64 kSSTableMagic"
  let ?hdr = "encodeFixed32 (crc32c ?ix (size_int ?ix)) @ encodeFixed32 (size_u32 ?ix)"
  let ?data = "?d @ ?hdr @ ?ix @ ?foot"
  have data: "table_file bs = ?data" by (simp add: table_file_def Let_def)
  have ne: "\<forall>b\<in>set bs. snd b \<noteq> []" using bs(2) by (auto simp: block_holds_def)
  have dlen: "length ?d < 2 ^ 32" using table_data_weight [OF bs(2)] bs(1) w by simp
  have ilen: "length ?ix < 2 ^ 32" using index_image_weight [OF ne, of 0] bs(1) w by simp
  have foot: "read_at ?data (length ?data - 48) 48 = ?foot" "length ?foot = 48"
    by (simp_all add: read_at_def)
  have ioff: "unat (word_of_nat (length ?d) :: u64) = length ?d" using dlen by (simp add: unat_of_nat)
  have isz: "unat (size_u32 ?ix) = length ?ix" using ilen by (rule unat_size_u32)
  have hdr: "read_at ?data (length ?d) 8 = ?hdr" "read_at ?data (length ?d + 8) (length ?ix) = ?ix"
    by (simp_all add: read_at_def)
  have keys: "\<forall>e\<in>set (index_of 0 bs). length (ie_last_key e) < 2 ^ 32"
  proof
    fix e assume "e \<in> set (index_of 0 bs)"
    then obtain x where "x \<in> set (table_entries bs)" "ie_last_key e = fst x" using index_of_keys [OF ne] by blast
    then show "length (ie_last_key e) < 2 ^ 32"
      using table_weight_mem [of x "table_entries bs"] bs(1) w by (simp add: entry_weight_def)
  qed
  have parse: "parse_index ?ix 0 = index_of 0 bs" using parse_index_image [OF keys, of "[]"] by simp
  have f: "decodeFixed64 (drop 40 ?foot) = kSSTableMagic" "?foot ! 16 = kSSTableFormatVersion"
    "decodeFixed64 ?foot = word_of_nat (length ?d)" "decodeFixed64 (drop 8 ?foot) = size_u64 ?ix + 8"
    by (simp_all add: nth_append)
  have cont: "content_of os p = ?data" using bs(3,4) data by (simp add: content_of_def)
  have big: "\<not> length ?data < 48" by simp
  have hl: "length ?hdr = 8" "decodeFixed32 (drop 4 ?hdr) = size_u32 ?ix" by simp_all
  have "SSTableReader_open os p = Some \<lparr>sr_path = p, sr_file_size = word_of_nat (length ?data),
      sr_format_version = kSSTableFormatVersion, sr_index_offset = word_of_nat (length ?d),
      sr_index_size = size_u64 ?ix + 8, sr_index_data = ?ix, sr_index_entries = index_of 0 bs,
      sr_bloom = Some (table_bloom es)\<rparr>"
    unfolding SSTableReader_open_def sys_open_rdonly_def bs(3) option.case Let_def cont kSSTableFooterSize_def
      foot(1) f ioff hdr hl isz bloom parse
    using big by simp
  moreover have "is_sst p" using assms by (simp add: table_on_disk_def)
  ultimately show thesis using that bs dlen cont data by simp
qed

text \<open>Reading through the cache: the cache holds only blocks as they are in the files.\<close>

definition cache_coherent :: "codec_lib \<Rightarrow> os \<Rightarrow> BlockCache option \<Rightarrow> bool" where
  "cache_coherent lib os cache \<longleftrightarrow>
     (\<forall>c. cache = Some c \<longrightarrow> BlockCache_inv c \<and>
        (\<forall>k d. BlockCache_lookup c k = Some d \<longrightarrow> is_sst (bck_path k) \<and>
           read_block_at lib (content_of os (bck_path k)) (unat (bck_offset k)) = (Status_Ok, d)))"

lemma read_block_at_ok: "read_block_at lib data off = (s, out) \<Longrightarrow> Status_ok s \<Longrightarrow> s = Status_Ok"
  by (auto simp: read_block_at_def decompressBlock_def Let_def
      split: if_splits CompressionType.splits option.splits sum.splits)

lemma readBlock_coherent:
  assumes coh: "cache_coherent lib os cache" and size: "\<not> bh_size h < word_of_nat kSSTableBlockHeader"
    and sst: "is_sst (sr_path r)"
  shows "fst (SSTableReader_readBlock lib os cache r h) =
      read_block_at lib (content_of os (sr_path r)) (unat (bh_offset h))"
    and "cache_coherent lib os (snd (SSTableReader_readBlock lib os cache r h))"
proof -
  let ?key = "\<lparr>bck_path = sr_path r, bck_offset = bh_offset h\<rparr>"
  let ?read = "read_block_at lib (content_of os (sr_path r)) (unat (bh_offset h))"
  have "fst (SSTableReader_readBlock lib os cache r h) = ?read \<and>
    cache_coherent lib os (snd (SSTableReader_readBlock lib os cache r h))"
  proof (cases cache)
    case None
    then show ?thesis using size by (simp add: SSTableReader_readBlock_def cache_coherent_def Let_def)
  next
    case (Some c)
    then have c: "BlockCache_inv c" "\<And>k d. BlockCache_lookup c k = Some d \<Longrightarrow> is_sst (bck_path k) \<and>
        read_block_at lib (content_of os (bck_path k)) (unat (bck_offset k)) = (Status_Ok, d)"
      using coh by (auto simp: cache_coherent_def)
    obtain hit c1 where g: "BlockCache_get c ?key = (hit, c1)" by fastforce
    have c1: "hit = BlockCache_lookup c ?key" "BlockCache_inv c1" "BlockCache_lookup c1 = BlockCache_lookup c"
      using block_cache.get_look [OF c(1), of ?key] block_cache.get_keeps [OF c(1), of ?key] g by simp_all
    show ?thesis
    proof (cases hit)
      case (Some d)
      then have "?read = (Status_Ok, d)" using c(2) [of ?key d] c1(1) by simp
      then show ?thesis
        using \<open>cache = Some c\<close> g Some size c1 c by (simp add: SSTableReader_readBlock_def cache_coherent_def Let_def)
    next
      case None
      obtain s out where r: "?read = (s, out)" by fastforce
      have put: "cache_coherent lib os (Some (BlockCache_put c1 ?key out))" if "Status_ok s"
        unfolding cache_coherent_def
      proof (intro allI impI conjI)
        fix c' assume "Some (BlockCache_put c1 ?key out) = Some c'"
        then have c': "c' = BlockCache_put c1 ?key out" by simp
        show "BlockCache_inv c'" using block_cache.put_keeps [OF c1(2)] c' by simp
        fix k d assume "BlockCache_lookup c' k = Some d"
        then have "if k = ?key then d = out else BlockCache_lookup c k = Some d"
          using block_cache.put_look [OF c1(2), of ?key out k d] unfolding c1(3) c' by blast
        then show "is_sst (bck_path k)" "read_block_at lib (content_of os (bck_path k)) (unat (bck_offset k)) = (Status_Ok, d)"
          using c(2) [of k d] r that read_block_at_ok [OF r that] sst by (auto split: if_splits)
      qed
      have "cache_coherent lib os (Some c1)" using c1 c by (simp add: cache_coherent_def)
      then show ?thesis
        using \<open>cache = Some c\<close> g None size r put by (simp add: SSTableReader_readBlock_def Let_def)
    qed
  qed
  then show "fst (SSTableReader_readBlock lib os cache r h) = ?read"
    "cache_coherent lib os (snd (SSTableReader_readBlock lib os cache r h))" by simp_all
qed

text \<open>The block behind an index entry.\<close>

lemma index_of_split:
  assumes "e \<in> set (index_of off bs)"
  obtains as b cs where "bs = as @ b # cs" "e = hd (index_of (off + length (table_data as)) [b])"
proof -
  have "\<exists>as b cs. bs = as @ b # cs \<and> e = hd (index_of (off + length (table_data as)) [b])"
    using assms
  proof (induction off bs rule: index_of.induct)
    case (2 off img es bs)
    show ?case
    proof (cases "e \<in> set (index_of (off + length img) bs)")
      case True
      then obtain as b cs where "bs = as @ b # cs" "e = hd (index_of (off + length img + length (table_data as)) [b])"
        using 2 by blast
      then show ?thesis by (intro exI [of _ "(img, es) # as"] exI [of _ b] exI [of _ cs]) (simp add: add.assoc)
    next
      case False
      then show ?thesis using 2(2) by (intro exI [of _ "[]"] exI [of _ "(img, es)"] exI [of _ bs]) auto
    qed
  qed simp
  then show thesis using that by blast
qed

lemma read_table_block:
  assumes disk: "content_of os (sr_path r) = table_file bs" and len: "length (table_data bs) < 2 ^ 32"
    and holds: "\<forall>b\<in>set bs. block_holds lib (fst b) (snd b)"
    and bs: "bs = as @ b # cs" and e: "e = hd (index_of (length (table_data as)) [b])"
    and coh: "cache_coherent lib os cache" and sst: "is_sst (sr_path r)"
  shows "\<exists>raw cache'. SSTableReader_readBlock lib os cache r (ie_handle e) = ((Status_Ok, raw), cache') \<and>
    cache_coherent lib os cache' \<and> BlockReader_forEach (BlockReader_new raw) = snd b"
proof -
  have b: "block_holds lib (fst b) (snd b)" using holds bs by simp
  then obtain raw where raw: "BlockReader_forEach (BlockReader_new raw) = snd b"
    "\<And>pre post. read_block_at lib (pre @ fst b @ post) (length pre) = (Status_Ok, raw)"
    by (auto simp: block_holds_def)
  have h: "bh_offset (ie_handle e) = word_of_nat (length (table_data as))"
    "bh_size (ie_handle e) = word_of_nat (length (fst b))"
    using e by (cases b; simp)+
  have lens: "length (table_data as) < 2 ^ 32" "length (fst b) < 2 ^ 32" using len bs by simp_all
  have size: "\<not> bh_size (ie_handle e) < word_of_nat kSSTableBlockHeader"
    using b lens unfolding h
    by (simp add: block_holds_def word_less_nat_alt unat_of_nat kSSTableBlockHeader_def)
  have off: "unat (bh_offset (ie_handle e)) = length (table_data as)"
    using lens unfolding h by (simp add: unat_of_nat)
  have "table_file bs = table_data as @ fst b @ (table_data cs @ drop (length (table_data bs)) (table_file bs))"
    by (simp add: table_file_def Let_def bs)
  then have "read_block_at lib (content_of os (sr_path r)) (unat (bh_offset (ie_handle e))) = (Status_Ok, raw)"
    unfolding off disk by (metis raw(2))
  with readBlock_coherent [OF coh size sst] raw(1) show ?thesis
    by (metis prod.collapse)
qed

section \<open>Lookup\<close>

lemma scan_skip:
  "(\<And>e. e \<in> set xs \<Longrightarrow> InternalKeyUserKey (fst e) < uk) \<Longrightarrow> memtable_scan (xs @ ys) uk = memtable_scan ys uk"
proof (induction xs)
  case (Cons e xs)
  have "Slice_compare (InternalKeyUserKey (fst e)) uk < 0 \<longleftrightarrow> InternalKeyUserKey (fst e) < uk"
    using slice_cmp.cmp_neg by auto
  then have "Slice_compare (InternalKeyUserKey (fst e)) uk < 0" using Cons.prems [of e] by simp
  then show ?case using Cons by (cases e) simp
qed simp

lemma scan_stop:
  "\<exists>e\<in>set xs. uk \<le> InternalKeyUserKey (fst e) \<Longrightarrow> memtable_scan (xs @ ys) uk = memtable_scan xs uk"
proof (induction xs)
  case (Cons e xs)
  obtain ik v where e: "e = (ik, v)" by fastforce
  have "Slice_compare (InternalKeyUserKey ik) uk < 0 \<longleftrightarrow> InternalKeyUserKey ik < uk"
    using slice_cmp.cmp_neg by auto
  then show ?case using Cons e by (auto simp: Let_def)
qed simp

text \<open>
  The block found by the binary search of the index is the one to look into: the blocks before
  it hold smaller user keys only, and the search ends inside it.
\<close>

lemma scan_blocks_lower_bound:
  assumes "sorted_entries (table_entries bs)" "\<forall>b\<in>set bs. snd b \<noteq> []"
  shows "memtable_scan (table_entries bs) uk =
    (case lower_bound (\<lambda>b. InternalKeyUserKey (fst (last (snd b))) < uk) bs of
       None \<Rightarrow> None | Some b \<Rightarrow> memtable_scan (snd b) uk)"
  using assms
proof (induction bs)
  case (Cons b bs)
  have sorted: "sorted_entries (snd b @ table_entries bs)" using Cons.prems by simp
  then have tl: "sorted_entries (table_entries bs)" by (simp add: sorted_entries_def sorted_wrt_append)
  have le: "InternalKeyUserKey (fst e) \<le> InternalKeyUserKey (fst (last (snd b)))" if "e \<in> set (snd b)" for e
  proof -
    obtain xs where b: "snd b = xs @ [last (snd b)]" using Cons.prems(2) by (metis append_butlast_last_id list.set_intros(1))
    have "sorted_wrt (\<lambda>a b. ikey_rank (fst a) < ikey_rank (fst b)) (snd b)"
      using sorted by (simp add: sorted_entries_def sorted_wrt_append)
    then have "e = last (snd b) \<or> ikey_rank (fst e) < ikey_rank (fst (last (snd b)))"
      using that b by (metis (no_types, lifting) Un_iff list.set_intros(1) set_append set_ConsD sorted_wrt_append
          empty_iff list.set(1))
    then show ?thesis by (auto intro: ikey_rank_user_mono)
  qed
  show ?case
  proof (cases "InternalKeyUserKey (fst (last (snd b))) < uk")
    case True
    have "InternalKeyUserKey (fst e) < uk" if "e \<in> set (snd b)" for e
      using le [OF that] True by (rule le_less_trans)
    then have "memtable_scan (table_entries (b # bs)) uk = memtable_scan (table_entries bs) uk"
      using scan_skip [of "snd b" uk "table_entries bs"] by simp
    with True Cons.IH [OF tl] Cons.prems(2) show ?thesis by simp
  next
    case False
    moreover have "last (snd b) \<in> set (snd b)" using Cons.prems(2) by simp
    ultimately have "memtable_scan (table_entries (b # bs)) uk = memtable_scan (snd b) uk"
      using scan_stop [of "snd b" uk "table_entries bs"] by (metis not_less table_simps(2))
    with False show ?thesis by simp
  qed
qed simp

lemma lower_bound_index:
  "case lower_bound (\<lambda>b. InternalKeyUserKey (fst (last (snd b))) < uk) bs of
     None \<Rightarrow> lower_bound (index_before uk) (index_of off bs) = None
   | Some b \<Rightarrow> (\<exists>as cs. bs = as @ b # cs \<and> lower_bound (index_before uk) (index_of off bs) =
        Some (hd (index_of (off + length (table_data as)) [b])))"
proof (induction off bs rule: index_of.induct)
  case (2 off img es bs)
  have cmp: "Slice_compare (InternalKeyUserKey (fst (last es))) uk < 0 \<longleftrightarrow> InternalKeyUserKey (fst (last es)) < uk"
    using slice_cmp.cmp_neg by auto
  show ?case
  proof (cases "InternalKeyUserKey (fst (last es)) < uk")
    case True
    with cmp have step: "lower_bound (index_before uk) (index_of off ((img, es) # bs)) =
        lower_bound (index_before uk) (index_of (off + length img) bs)" by (simp add: index_before_def)
    show ?thesis
    proof (cases "lower_bound (\<lambda>b. InternalKeyUserKey (fst (last (snd b))) < uk) bs")
      case None
      with 2 True step show ?thesis by simp
    next
      case (Some b)
      with 2 obtain as cs where "bs = as @ b # cs" "lower_bound (index_before uk) (index_of (off + length img) bs) =
          Some (hd (index_of (off + length img + length (table_data as)) [b]))" by auto
      then show ?thesis
        using Some True unfolding step
        by (simp add: add.assoc) (rule exI [of _ "(img, es) # as"], auto)
    qed
  next
    case False
    then have "\<not> index_before uk (hd (index_of off [(img, es)]))" using cmp by (simp add: index_before_def)
    then show ?thesis using False by simp (rule exI [of _ "[]"], simp)
  qed
qed simp

text \<open>A version of the key passes the filter; without one the answer is nothing anyway.\<close>

lemma table_bloom_ok: "bloom_ok (table_bloom es)"
  by (simp add: bloom_ok_def flip: length_greater_0_conv)

lemma table_bloom_contains:
  assumes "e \<in> set es" "InternalKeyUserKey (fst e) = uk"
  shows "BloomFilter_mightContain (table_bloom es) uk"
proof -
  have "bloom_ok (BloomFilter_default 10000)" by (rule bloom_ok_default) simp
  moreover have "uk \<in> set (user_keys es)" using assms by (auto simp: user_keys_def)
  ultimately show ?thesis unfolding table_bloom_def by (rule BloomFilter_no_false_negatives)
qed

lemma scan_absent:
  assumes "sorted_entries es" "\<forall>e\<in>set es. InternalKeyUserKey (fst e) \<noteq> uk"
  shows "memtable_scan es uk = None"
  using assms by (simp add: memtable_scan_versions versions_def filter_False)

theorem table_get:
  assumes disk: "table_on_disk lib os p es" and sorted: "sorted_entries es"
    and coh: "cache_coherent lib os cache"
  shows "\<exists>r cache'. SSTableReader_open os p = Some r \<and>
    SSTableReader_get lib os cache r uk = (memtable_scan es uk, cache') \<and> cache_coherent lib os cache'"
proof -
  obtain bs r where r: "SSTableReader_open os p = Some r" "sr_path r = p" "sr_index_entries r = index_of 0 bs"
    "sr_bloom r = Some (table_bloom es)" "table_entries bs = es" "\<forall>b\<in>set bs. block_holds lib (fst b) (snd b)"
    "content_of os p = table_file bs" "length (table_data bs) < 2 ^ 32" "is_sst p"
    using open_table [OF disk] by metis
  have ne: "\<forall>b\<in>set bs. snd b \<noteq> []" using r(6) by (auto simp: block_holds_def)
  note scan = scan_blocks_lower_bound [of bs uk, unfolded r(5), OF sorted ne]
  let ?lb = "lower_bound (\<lambda>b. InternalKeyUserKey (fst (last (snd b))) < uk) bs"
  show ?thesis
  proof (cases "index_of 0 bs = [] \<or> \<not> BloomFilter_mightContain (table_bloom es) uk")
    case True
    have "memtable_scan es uk = None"
    proof (rule disjE [OF True])
      assume "index_of 0 bs = []"
      then have "bs = []" by (cases bs) (auto simp: index_of.simps split: prod.splits)
      then show ?thesis using r(5) by auto
    next
      assume "\<not> BloomFilter_mightContain (table_bloom es) uk"
      then show ?thesis using table_bloom_contains sorted by (intro scan_absent) auto
    qed
    then show ?thesis using True r coh by (auto simp: SSTableReader_get_def)
  next
    case False
    show ?thesis
    proof (cases ?lb)
      case None
      then have "lower_bound (index_before uk) (index_of 0 bs) = None"
        using lower_bound_index [where uk = uk and bs = bs and off = 0] by simp
      then show ?thesis using None scan False r coh by (auto simp: SSTableReader_get_def)
    next
      case (Some b)
      then obtain as cs where bs: "bs = as @ b # cs"
        and lb: "lower_bound (index_before uk) (index_of 0 bs) = Some (hd (index_of (length (table_data as)) [b]))"
        using lower_bound_index [where uk = uk and bs = bs and off = 0] by auto
      obtain raw cache' where rb: "SSTableReader_readBlock lib os cache r
          (ie_handle (hd (index_of (length (table_data as)) [b]))) = ((Status_Ok, raw), cache')"
        "cache_coherent lib os cache'" "BlockReader_forEach (BlockReader_new raw) = snd b"
        using read_table_block [OF _ r(8,6) bs refl coh] r(2,7,9) by blast
      have "BlockReader_getByUserKey (BlockReader_new raw) uk = memtable_scan es uk"
        using rb(3) scan Some by (simp add: BlockReader_getByUserKey_def BlockReader_forEach_def getByUserKey_scan)
      then show ?thesis using False lb rb r by (simp add: SSTableReader_get_def)
    qed
  qed
qed

text \<open>From an empty file system to the lookup: build, finish, open and search.\<close>

theorem build_table:
  assumes lib: "codec_ok lib" and faults: "os_faults os = []" and w: "table_weight es < 2 ^ 31" and sst: "is_sst p"
    and new: "SSTableBuilder_new os p bsize ctype = (os1, sb)"
    and add: "add_entries lib os1 sb es = (os2, sb2)"
    and fin: "SSTableBuilder_finish lib os2 sb2 = (os3, sb3, s)"
  shows "table_on_disk lib os3 p es" "s = Status_Ok" "os_faults os3 = []"
    "\<And>q. q \<noteq> p \<Longrightarrow> q \<noteq> p @ str ''.bloom'' \<Longrightarrow> file_of os3 q = file_of os q"
    "file_synced os3 p"
proof -
  have 1: "table_inv lib os1 sb [] []" "sb_path sb = p" using table_inv_new [OF faults new] by auto
  obtain bs cur where 2: "table_inv lib os2 sb2 bs cur" "table_entries bs @ cur = es" "sb_path sb2 = p"
    "\<forall>q. q \<noteq> p \<longrightarrow> file_of os2 q = file_of os1 q"
    using table_add_entries [OF lib 1(1) _ add] w 1(2) by auto
  note f = finish_table [OF lib 2(1) _ fin]
  show "table_on_disk lib os3 p es" "s = Status_Ok" "os_faults os3 = []" "file_synced os3 p" using f(1,2,3,5) 2 w sst by simp_all
  show "file_of os3 q = file_of os q" if "q \<noteq> p" "q \<noteq> p @ str ''.bloom''" for q
  proof -
    have "file_of os1 q = file_of os q"
      using new faults that by (auto simp: SSTableBuilder_new_def sys_open_trunc_def)
    then show ?thesis using f(4) 2 w that sst by simp
  qed
qed

text \<open>A scan without bounds delivers every entry.\<close>

lemma scan_all:
  assumes r: "content_of os (sr_path r) = table_file bs" "length (table_data bs) < 2 ^ 32"
    "\<forall>b\<in>set bs. block_holds lib (fst b) (snd b)" and coh: "cache_coherent lib os cache" and bs: "bs = as @ cs"
    and sst: "is_sst (sr_path r)"
  shows "\<exists>cache'. scan_blocks lib os cache r [] [] (index_of (length (table_data as)) cs) =
    (table_entries cs, Status_Ok, cache') \<and> cache_coherent lib os cache'"
  using coh bs
proof (induction cs arbitrary: as cache)
  case (Cons b cs)
  let ?e = "hd (index_of (length (table_data as)) [b])"
  obtain raw cache1 where rb: "SSTableReader_readBlock lib os cache r (ie_handle ?e) = ((Status_Ok, raw), cache1)"
    "cache_coherent lib os cache1" "BlockReader_forEach (BlockReader_new raw) = snd b"
    using read_table_block [OF r Cons.prems(2) refl Cons.prems(1) sst] by blast
  obtain cache2 where "scan_blocks lib os cache1 r [] [] (index_of (length (table_data (as @ [b]))) cs) =
      (table_entries cs, Status_Ok, cache2)" "cache_coherent lib os cache2"
    using Cons.IH [OF rb(2), of "as @ [b]"] Cons.prems(2) by auto
  then show ?case using rb by (cases b) (simp add: scan_filter_def)
qed simp

theorem table_scan:
  assumes "table_on_disk lib os p es" "cache_coherent lib os cache"
  shows "\<exists>r cache'. SSTableReader_open os p = Some r \<and>
    SSTableReader_scan lib os cache r [] [] = (es, Status_Ok, cache') \<and> cache_coherent lib os cache'"
proof -
  obtain bs r where r: "SSTableReader_open os p = Some r" "sr_path r = p" "sr_index_entries r = index_of 0 bs"
    "table_entries bs = es" "\<forall>b\<in>set bs. block_holds lib (fst b) (snd b)"
    "content_of os p = table_file bs" "length (table_data bs) < 2 ^ 32" "is_sst p"
    using open_table [OF assms(1)] by metis
  from scan_all [OF _ r(7,5) assms(2), of r "[]"] r show ?thesis
    by (auto simp: SSTableReader_scan_def)
qed

text \<open>
  The cache stays coherent as long as the table files it may hold blocks of keep their content:
  a cached block belongs to an existing file.
\<close>

lemma coherent_exists:
  assumes "cache_coherent lib os (Some c)" "BlockCache_lookup c k = Some d"
  shows "is_sst (bck_path k)" "file_of os (bck_path k) \<noteq> None"
proof -
  show "is_sst (bck_path k)" using assms by (auto simp: cache_coherent_def)
  have "read_block_at lib (content_of os (bck_path k)) (unat (bck_offset k)) = (Status_Ok, d)"
    using assms by (auto simp: cache_coherent_def)
  then show "file_of os (bck_path k) \<noteq> None"
    by (auto simp: content_of_def read_block_at_def read_at_def kSSTableBlockHeader_def Let_def
        Status_Ok_def Status_IOError_def split: option.splits)
qed

lemma coherent_frame:
  assumes "cache_coherent lib os cache"
    and "\<And>p. is_sst p \<Longrightarrow> file_of os p \<noteq> None \<Longrightarrow> file_of os' p = file_of os p"
  shows "cache_coherent lib os' cache"
proof -
  have "content_of os' (bck_path k) = content_of os (bck_path k)"
    if "cache = Some c" "BlockCache_lookup c k = Some d" for c k d
    using coherent_exists [of lib os c k d] assms that by (simp add: content_of_def)
  then show ?thesis using assms(1) by (simp add: cache_coherent_def)
qed

lemma table_on_disk_frame:
  assumes "table_on_disk lib os p es" "file_of os' p = file_of os p"
    "file_of os' (p @ str ''.bloom'') = file_of os (p @ str ''.bloom'')"
  shows "table_on_disk lib os' p es"
  using assms BloomFilter_load_cong [OF assms(3)] by (simp add: table_on_disk_def)

end
