(* ===== verification/Sstable_Iterator.thy ===== *)
theory Sstable_Iterator
  imports Sstable_Roundtrip
begin

text \<open>
  \<open>minikv/src/core/sstable_iterator.{h,cpp}\<close>: the snapshot iterator over one table. The
  constructor scans the whole table into memory and sorts it with \<open>InternalKeyCompare\<close>; a
  null reader or a failing scan leaves an iterator that is never valid and reports the
  error. The lemmas show that on a table file written from sorted entries the iterator
  delivers exactly these entries, in order, and that it satisfies the iterator contract.
\<close>

section \<open>Definitions\<close>

record SSTableIterator =
  sti_entries :: "(bytes \<times> bytes) list"
  sti_index :: nat
  sti_status :: Status

definition entry_less :: "bytes \<times> bytes \<Rightarrow> bytes \<times> bytes \<Rightarrow> bool" where
  "entry_less a b \<longleftrightarrow> InternalKeyCompare (fst a) (fst b) < 0"

definition SSTableIterator_loadEntries ::
    "codec_lib \<Rightarrow> os \<Rightarrow> BlockCache option \<Rightarrow> SSTableReader \<Rightarrow> SSTableIterator \<Rightarrow> SSTableIterator \<times> BlockCache option" where
  "SSTableIterator_loadEntries lib os cache r it =
     (case SSTableReader_scan lib os cache r [] [] of (calls, st, cache) \<Rightarrow>
        let it = it\<lparr>sti_entries := sti_entries it @ calls\<rparr> in
        if \<not> Status_ok st then (it\<lparr>sti_status := st\<rparr>, cache)
        else (it\<lparr>sti_entries := sort_by entry_less (sti_entries it)\<rparr>, cache))"

definition SSTableIterator_new ::
    "codec_lib \<Rightarrow> os \<Rightarrow> BlockCache option \<Rightarrow> SSTableReader option \<Rightarrow> SSTableIterator \<times> BlockCache option" where
  "SSTableIterator_new lib os cache reader =
     (let it = \<lparr>sti_entries = [], sti_index = 0, sti_status = Status_Ok\<rparr> in
      case reader of
        None \<Rightarrow> (it\<lparr>sti_status := Status_IOError (str ''null sstable reader'')\<rparr>, cache)
      | Some r \<Rightarrow> SSTableIterator_loadEntries lib os cache r it)"

definition SSTableIterator_valid :: "SSTableIterator \<Rightarrow> bool" where
  "SSTableIterator_valid it \<longleftrightarrow> Status_ok (sti_status it) \<and> sti_index it < length (sti_entries it)"

definition SSTableIterator_seekToFirst :: "SSTableIterator \<Rightarrow> SSTableIterator" where
  "SSTableIterator_seekToFirst it = it\<lparr>sti_index := 0\<rparr>"

fun sti_seek_index :: "(bytes \<times> bytes) list \<Rightarrow> Slice \<Rightarrow> nat \<Rightarrow> nat" where
  "sti_seek_index [] target i = i"
| "sti_seek_index (e # es) target i =
     (if InternalKeyCompare (fst e) target < 0 then sti_seek_index es target (i + 1) else i)"

definition SSTableIterator_seek :: "SSTableIterator \<Rightarrow> Slice \<Rightarrow> SSTableIterator" where
  "SSTableIterator_seek it target = it\<lparr>sti_index := sti_seek_index (sti_entries it) target 0\<rparr>"

definition SSTableIterator_next :: "SSTableIterator \<Rightarrow> SSTableIterator" where
  "SSTableIterator_next it = (if SSTableIterator_valid it then it\<lparr>sti_index := sti_index it + 1\<rparr> else it)"

definition SSTableIterator_key :: "SSTableIterator \<Rightarrow> Slice" where
  "SSTableIterator_key it = (if \<not> SSTableIterator_valid it then [] else fst (sti_entries it ! sti_index it))"

definition SSTableIterator_value :: "SSTableIterator \<Rightarrow> Slice" where
  "SSTableIterator_value it = (if \<not> SSTableIterator_valid it then [] else snd (sti_entries it ! sti_index it))"

definition SSTableIterator_status :: "SSTableIterator \<Rightarrow> Status" where
  "SSTableIterator_status it = sti_status it"

section \<open>The iterator contract\<close>

definition sti_rest :: "SSTableIterator \<Rightarrow> (bytes \<times> bytes) list" where
  "sti_rest it = drop (sti_index it) (sti_entries it)"

definition sti_ok :: "SSTableIterator \<Rightarrow> bool" where
  "sti_ok it \<longleftrightarrow> Status_ok (sti_status it)"

interpretation sti: kv_iterator SSTableIterator_valid SSTableIterator_key SSTableIterator_value
  SSTableIterator_next sti_rest sti_ok
  by unfold_locales
    (auto simp: SSTableIterator_valid_def SSTableIterator_key_def SSTableIterator_value_def
      SSTableIterator_next_def sti_rest_def sti_ok_def hd_drop_conv_nth simp: tl_drop drop_Suc)

lemma sti_seek_index_drop:
  "drop (sti_seek_index es target i - i) es = dropWhile (\<lambda>e. InternalKeyCompare (fst e) target < 0) es \<and>
     i \<le> sti_seek_index es target i"
proof (induction es arbitrary: i)
  case (Cons e es)
  obtain n where "sti_seek_index es target (Suc i) = Suc i + n"
    using Cons.IH [of "Suc i"] by (auto dest: le_Suc_ex)
  then show ?case using Cons.IH [of "Suc i"] by auto
qed simp

lemma SSTableIterator_seek_rest:
  "sti_rest (SSTableIterator_seek it target) =
     dropWhile (\<lambda>e. InternalKeyCompare (fst e) target < 0) (sti_entries it)"
  using sti_seek_index_drop [of "sti_entries it" target 0]
  by (simp add: sti_rest_def SSTableIterator_seek_def)

section \<open>Sorting by internal key\<close>

lemma entry_less_rank: "is_ikey (fst a) \<Longrightarrow> is_ikey (fst b) \<Longrightarrow> entry_less a b \<longleftrightarrow> ikey_rank (fst a) < ikey_rank (fst b)"
  by (simp add: entry_less_def ikey_cmp.cmp_neg)

lemma sort_entries_sorted:
  assumes "\<forall>e\<in>set es. is_ikey (fst e)"
  shows "sorted (map (\<lambda>e. ikey_rank (fst e)) (sort_by entry_less es))"
  by (rule sorted_sort_by) (use assms entry_less_rank in auto)

lemma sort_entries_id:
  assumes "sorted_entries es"
  shows "sort_by entry_less es = es"
proof (rule sort_by_sorted [where rank = "\<lambda>e. ikey_rank (fst e)"])
  show "entry_less a b \<longleftrightarrow> ikey_rank (fst a) < ikey_rank (fst b)" if "a \<in> set es" "b \<in> set es" for a b
    using that assms by (intro entry_less_rank) (auto simp: sorted_entries_def)
  show "sorted (map (\<lambda>e. ikey_rank (fst e)) es)"
    using assms by (intro strict_sorted_imp_sorted) (simp add: sorted_entries_def sorted_wrt_map)
qed

text \<open>A table written from sorted entries is delivered as it was written.\<close>

lemma SSTableIterator_new_rest:
  assumes disk: "table_on_disk lib os p es" and sorted: "sorted_entries es" and coh: "cache_coherent lib os cache"
  shows "\<exists>r it cache'. SSTableReader_open os p = Some r \<and>
    SSTableIterator_new lib os cache (Some r) = (it, cache') \<and> cache_coherent lib os cache' \<and>
    sti_ok it \<and> sti_rest it = es \<and> sti_rest (SSTableIterator_seekToFirst it) = es"
proof -
  obtain r cache' where "SSTableReader_open os p = Some r"
    "SSTableReader_scan lib os cache r [] [] = (es, Status_Ok, cache')" "cache_coherent lib os cache'"
    using table_scan [OF disk coh] by blast
  then show ?thesis
    by (auto simp: SSTableIterator_new_def SSTableIterator_loadEntries_def sort_entries_id [OF sorted]
        sti_ok_def sti_rest_def SSTableIterator_seekToFirst_def)
qed

end
