(* ===== verification/Merging_Iterator.thy ===== *)
theory Merging_Iterator
  imports Sstable_Iterator
begin

text \<open>
  \<open>minikv/src/core/merging_iterator.{h,cpp}\<close>: the heap merge of child iterators behind
  \<open>DBImpl::newIterator\<close>. A child is the memtable or the table iterator its
  \<open>unique_ptr<Iterator>\<close> points to, or a null pointer. \<open>std::priority_queue\<close> with
  \<open>std::greater\<close> is a list kept sorted by key with the top in front: the standard fixes only
  that the top has a least key, and the facts proved use nothing else. \<open>HeapItem::operator>\<close>
  compares the raw bytes of the internal keys, not \<open>InternalKeyCompare\<close>; the order
  theorem is therefore about the byte order, while completeness (every key of every child
  is delivered, nothing else is) holds for children in any order.

  \<open>current_\<close> is an optional index, \<open>None\<close> for \<open>static_cast<size_t>(-1)\<close>.
\<close>

section \<open>Definitions\<close>

datatype ChildIterator = MemChild MemTableIterator | SstChild SSTableIterator

definition child_valid :: "ChildIterator \<Rightarrow> bool" where
  "child_valid c = (case c of MemChild it \<Rightarrow> MemTableIterator_valid it | SstChild it \<Rightarrow> SSTableIterator_valid it)"

definition child_key :: "ChildIterator \<Rightarrow> Slice" where
  "child_key c = (case c of MemChild it \<Rightarrow> MemTableIterator_key it | SstChild it \<Rightarrow> SSTableIterator_key it)"

definition child_value :: "ChildIterator \<Rightarrow> Slice" where
  "child_value c = (case c of MemChild it \<Rightarrow> MemTableIterator_value it | SstChild it \<Rightarrow> SSTableIterator_value it)"

definition child_next :: "ChildIterator \<Rightarrow> ChildIterator" where
  "child_next c = (case c of MemChild it \<Rightarrow> MemChild (MemTableIterator_next it) | SstChild it \<Rightarrow> SstChild (SSTableIterator_next it))"

definition child_seekToFirst :: "ChildIterator \<Rightarrow> ChildIterator" where
  "child_seekToFirst c =
     (case c of MemChild it \<Rightarrow> MemChild (MemTableIterator_seekToFirst it) | SstChild it \<Rightarrow> SstChild (SSTableIterator_seekToFirst it))"

definition child_seek :: "Slice \<Rightarrow> ChildIterator \<Rightarrow> ChildIterator" where
  "child_seek target c =
     (case c of MemChild it \<Rightarrow> MemChild (MemTableIterator_seek it target) | SstChild it \<Rightarrow> SstChild (SSTableIterator_seek it target))"

definition child_status :: "ChildIterator \<Rightarrow> Status" where
  "child_status c = (case c of MemChild it \<Rightarrow> MemTableIterator_status it | SstChild it \<Rightarrow> SSTableIterator_status it)"

record HeapItem =
  child_index :: nat
  item_key :: bytes

record MergingIterator =
  mi_children :: "ChildIterator option list"
  mi_heap :: "HeapItem list"
  mi_current :: "nat option"
  mi_status :: Status

text \<open>The first child that reports an error, if any.\<close>

fun first_error :: "ChildIterator option list \<Rightarrow> Status" where
  "first_error [] = Status_Ok"
| "first_error (c # cs) =
     (case c of
        Some c \<Rightarrow> if \<not> Status_ok (child_status c) then child_status c else first_error cs
      | None \<Rightarrow> first_error cs)"

definition MergingIterator_new :: "ChildIterator option list \<Rightarrow> MergingIterator" where
  "MergingIterator_new cs =
     \<lparr>mi_children = cs, mi_heap = [], mi_current = None, mi_status = first_error cs\<rparr>"

definition heap_push :: "HeapItem \<Rightarrow> HeapItem list \<Rightarrow> HeapItem list" where
  "heap_push x h = insert_by (\<lambda>a b. item_key a < item_key b) x h"

definition pushChild :: "ChildIterator option list \<Rightarrow> nat \<Rightarrow> HeapItem list \<Rightarrow> HeapItem list" where
  "pushChild cs i h =
     (if i \<ge> length cs then h
      else case cs ! i of
        None \<Rightarrow> h
      | Some c \<Rightarrow> if \<not> child_valid c then h
                  else heap_push \<lparr>child_index = i, item_key = child_key c\<rparr> h)"

definition heap_current :: "HeapItem list \<Rightarrow> nat option" where
  "heap_current h = (if h = [] then None else Some (child_index (hd h)))"

definition rebuildHeap :: "MergingIterator \<Rightarrow> MergingIterator" where
  "rebuildHeap it =
     (let h = fold (pushChild (mi_children it)) [0..<length (mi_children it)] []
      in it\<lparr>mi_heap := h, mi_current := heap_current h\<rparr>)"

definition MergingIterator_valid :: "MergingIterator \<Rightarrow> bool" where
  "MergingIterator_valid it \<longleftrightarrow>
     Status_ok (mi_status it) \<and>
     (case mi_current it of
        None \<Rightarrow> False
      | Some i \<Rightarrow> i < length (mi_children it) \<and>
          (case mi_children it ! i of None \<Rightarrow> False | Some c \<Rightarrow> child_valid c))"

definition MergingIterator_seekToFirst :: "MergingIterator \<Rightarrow> MergingIterator" where
  "MergingIterator_seekToFirst it =
     rebuildHeap (it\<lparr>mi_children := map (map_option child_seekToFirst) (mi_children it)\<rparr>)"

definition MergingIterator_seek :: "MergingIterator \<Rightarrow> Slice \<Rightarrow> MergingIterator" where
  "MergingIterator_seek it target =
     rebuildHeap (it\<lparr>mi_children := map (map_option (child_seek target)) (mi_children it)\<rparr>)"

text \<open>Entries a child still has, the measure of the loop in \<open>next\<close>.\<close>

definition child_left :: "ChildIterator \<Rightarrow> nat" where
  "child_left c =
     (case c of MemChild it \<Rightarrow> length (mti_entries it) - mti_index it
      | SstChild it \<Rightarrow> length (sti_entries it) - sti_index it)"

definition children_left :: "ChildIterator option list \<Rightarrow> nat" where
  "children_left cs = sum_list (map (\<lambda>c. case c of None \<Rightarrow> 0 | Some c \<Rightarrow> child_left c) cs)"

text \<open>
  The current child as the \<open>unique_ptr\<close> dereference delivers it; indices in the heap are in
  range and not null.
\<close>

definition advance_child :: "ChildIterator option list \<Rightarrow> nat \<Rightarrow> ChildIterator option list" where
  "advance_child cs i = (if i < length cs then cs[i := map_option child_next (cs ! i)] else cs)"

lemma child_left_next: "child_left (child_next c) = (if child_valid c then child_left c - 1 else child_left c)"
  "child_valid c \<Longrightarrow> 0 < child_left c"
  by (auto simp: child_left_def child_next_def child_valid_def MemTableIterator_next_def
      SSTableIterator_next_def MemTableIterator_valid_def SSTableIterator_valid_def split: ChildIterator.split)

lemma children_left_update:
  "i < length cs \<Longrightarrow> children_left (cs[i := c]) + (case cs ! i of None \<Rightarrow> 0 | Some c \<Rightarrow> child_left c) =
     children_left cs + (case c of None \<Rightarrow> 0 | Some c \<Rightarrow> child_left c)"
proof (induction cs arbitrary: i)
  case (Cons a cs)
  then show ?case by (cases i) (auto simp: children_left_def)
qed simp

lemma advance_left:
  "children_left (advance_child cs i) < children_left cs \<or>
   children_left (advance_child cs i) = children_left cs \<and> pushChild (advance_child cs i) i h = h"
proof (cases "i < length cs")
  case True
  show ?thesis
  proof (cases "cs ! i")
    case None
    with True show ?thesis by (simp add: advance_child_def pushChild_def list_update_same_conv [THEN iffD2])
  next
    case (Some c)
    have "children_left (advance_child cs i) + child_left c = children_left cs + child_left (child_next c)"
      using children_left_update [OF True, of "Some (child_next c)"] Some True by (simp add: advance_child_def)
    moreover have "child_next c = c" if "\<not> child_valid c"
      using that by (auto simp: child_next_def child_valid_def MemTableIterator_next_def SSTableIterator_next_def
          split: ChildIterator.splits)
    ultimately show ?thesis
      using child_left_next [of c] Some True
      by (cases "child_valid c") (auto simp: pushChild_def advance_child_def)
  qed
qed (simp add: advance_child_def pushChild_def)

function merging_next_loop :: "bytes \<Rightarrow> ChildIterator option list \<Rightarrow> HeapItem list
    \<Rightarrow> ChildIterator option list \<times> HeapItem list" where
  "merging_next_loop cur cs [] = (cs, [])"
| "merging_next_loop cur cs (itm # h) =
     (if item_key itm = cur then
        let i = child_index itm; cs = advance_child cs i
        in merging_next_loop cur cs (pushChild cs i h)
      else (cs, itm # h))"
  by pat_completeness auto
termination
proof (relation "measures [\<lambda>(cur, cs, h). children_left cs, \<lambda>(cur, cs, h). length h]")
  fix cur cs and itm :: HeapItem and h i cs'
  assume "i = child_index itm" "cs' = advance_child cs i"
  then show "((cur, cs', pushChild cs' i h), cur, cs, itm # h)
      \<in> measures [\<lambda>(cur, cs, h). children_left cs, \<lambda>(cur, cs, h). length h]"
    using advance_left [of cs i h] by auto
qed simp

definition MergingIterator_key :: "MergingIterator \<Rightarrow> Slice" where
  "MergingIterator_key it =
     (if \<not> MergingIterator_valid it then [] else child_key (the (mi_children it ! the (mi_current it))))"

definition MergingIterator_value :: "MergingIterator \<Rightarrow> Slice" where
  "MergingIterator_value it =
     (if \<not> MergingIterator_valid it then [] else child_value (the (mi_children it ! the (mi_current it))))"

definition MergingIterator_next :: "MergingIterator \<Rightarrow> MergingIterator" where
  "MergingIterator_next it =
     (if \<not> MergingIterator_valid it then it
      else
        let cur = child_key (the (mi_children it ! the (mi_current it))) in
        case merging_next_loop cur (mi_children it) (mi_heap it) of (cs, h) \<Rightarrow>
          it\<lparr>mi_children := cs, mi_heap := h, mi_current := heap_current h\<rparr>)"

definition MergingIterator_status :: "MergingIterator \<Rightarrow> Status" where
  "MergingIterator_status it =
     (if \<not> Status_ok (mi_status it) then mi_status it else first_error (mi_children it))"

section \<open>The children as entry lists\<close>

definition child_rest :: "ChildIterator \<Rightarrow> (bytes \<times> bytes) list" where
  "child_rest c =
     (case c of MemChild it \<Rightarrow> if mti_ok it then mti_rest it else []
      | SstChild it \<Rightarrow> if sti_ok it then sti_rest it else [])"

interpretation child: kv_iterator child_valid child_key child_value child_next child_rest "\<lambda>_. True"
proof unfold_locales
  fix c
  have bad: "\<not> mti_ok it \<Longrightarrow> \<not> MemTableIterator_valid it" "\<not> sti_ok it' \<Longrightarrow> \<not> SSTableIterator_valid it'" for it it'
    by (simp_all add: mti_ok_def MemTableIterator_valid_def sti_ok_def SSTableIterator_valid_def)
  show "child_valid c \<longleftrightarrow> child_rest c \<noteq> []"
    using bad mti.valid_rest sti.valid_rest by (auto simp: child_valid_def child_rest_def split: ChildIterator.split)
  assume "child_valid c"
  then show "(child_key c, child_value c) = hd (child_rest c)"
    "True \<and> child_rest (child_next c) = tl (child_rest c)"
    using bad mti.entry_rest sti.entry_rest mti.next_rest sti.next_rest
    by (auto simp: child_valid_def child_rest_def child_key_def child_value_def child_next_def
        split: ChildIterator.splits)
qed

definition rests :: "ChildIterator option list \<Rightarrow> (bytes \<times> bytes) list list" where
  "rests cs = map (\<lambda>c. case c of None \<Rightarrow> [] | Some c \<Rightarrow> child_rest c) cs"

definition entries_left :: "(bytes \<times> bytes) list list \<Rightarrow> nat" where
  "entries_left rs = sum_list (map length rs)"

lemma rests_simps [simp]:
  "length (rests cs) = length cs"
  "i < length cs \<Longrightarrow> rests cs ! i = (case cs ! i of None \<Rightarrow> [] | Some c \<Rightarrow> child_rest c)"
  by (simp_all add: rests_def)

lemma child_next_rest: "child_rest (child_next c) = tl (child_rest c)"
proof (cases "child_valid c")
  case False
  then have "child_next c = c" "child_rest c = []"
    using child.valid_rest [of c]
    by (auto simp: child_next_def child_valid_def MemTableIterator_next_def SSTableIterator_next_def
        split: ChildIterator.splits)
  then show ?thesis by simp
qed (use child.next_rest in auto)

lemma advance_rests: "rests (advance_child cs i) = (if i < length cs then (rests cs)[i := tl (rests cs ! i)] else rests cs)"
proof -
  have "rests (cs[i := map_option child_next (cs ! i)]) = (rests cs)[i := tl (rests cs ! i)]" if "i < length cs"
    using that by (cases "cs ! i") (simp_all add: rests_def map_update child_next_rest)
  then show ?thesis by (simp add: advance_child_def)
qed

definition head_item :: "(bytes \<times> bytes) list list \<Rightarrow> nat \<Rightarrow> HeapItem" where
  "head_item rs i = \<lparr>child_index = i, item_key = fst (hd (rs ! i))\<rparr>"

lemma head_item_simps [simp]: "child_index (head_item rs i) = i" "item_key (head_item rs i) = fst (hd (rs ! i))"
  by (simp_all add: head_item_def)

lemma pushChild_rests:
  "pushChild cs i h = (if i < length cs \<and> rests cs ! i \<noteq> [] then heap_push (head_item (rests cs) i) h else h)"
proof (cases "i < length cs")
  case True
  show ?thesis
  proof (cases "cs ! i")
    case (Some c)
    then show ?thesis
      using True child.valid_rest [of c] child.entry_rest [of c] by (auto simp: pushChild_def head_item_def) (metis fst_conv)
  qed (use True in \<open>simp add: pushChild_def\<close>)
qed (simp add: pushChild_def)

definition pool :: "(bytes \<times> bytes) list list \<Rightarrow> (bytes \<times> bytes) set" where
  "pool rs = set (concat rs)"

lemma pool_mem: "e \<in> pool rs \<longleftrightarrow> (\<exists>i<length rs. e \<in> set (rs ! i))"
  by (force simp: pool_def in_set_conv_nth [of _ rs])

lemma poolI: "r \<in> set rs \<Longrightarrow> e \<in> set r \<Longrightarrow> e \<in> pool rs"
  by (auto simp: pool_def)

text \<open>The heap holds one item per child that has entries left, sorted by key.\<close>

definition heap_for :: "(bytes \<times> bytes) list list \<Rightarrow> HeapItem list \<Rightarrow> bool" where
  "heap_for rs h \<longleftrightarrow> sorted (map item_key h) \<and> distinct (map child_index h) \<and>
     set h = head_item rs ` {i. i < length rs \<and> rs ! i \<noteq> []}"

lemma heap_push_simps [simp]:
  "set (heap_push x h) = insert x (set h)"
  "sorted (map item_key h) \<Longrightarrow> sorted (map item_key (heap_push x h))"
  by (auto simp: heap_push_def intro!: sorted_insert_by)

lemma heap_push_distinct [simp]:
  "distinct (map child_index (heap_push x h)) \<longleftrightarrow> child_index x \<notin> child_index ` set h \<and> distinct (map child_index h)"
proof -
  have "mset (map child_index (heap_push x h)) = mset (map child_index (x # h))"
    by (simp add: heap_push_def mset_insert_by mset_map)
  then have "distinct (map child_index (heap_push x h)) = distinct (map child_index (x # h))"
    by (rule mset_eq_imp_distinct_iff)
  then show ?thesis by simp
qed

text \<open>One round of the loop: the top child advances and is pushed again.\<close>

lemma heap_for_step:
  assumes h: "heap_for rs (itm # h)" and i: "i = child_index itm"
    and rs': "rs' = rs[i := tl (rs ! i)]"
  shows "i < length rs" "rs ! i \<noteq> []" "item_key itm = fst (hd (rs ! i))"
    "heap_for rs' (if rs' ! i \<noteq> [] then heap_push (head_item rs' i) h else h)"
proof -
  have itm: "itm \<in> head_item rs ` {i. i < length rs \<and> rs ! i \<noteq> []}" using h by (auto simp: heap_for_def)
  then show facts: "i < length rs" "rs ! i \<noteq> []" "item_key itm = fst (hd (rs ! i))" using i by auto
  from itm i have itm_eq: "itm = head_item rs i" by auto
  have nin: "i \<notin> child_index ` set h" "distinct (map child_index h)" "sorted (map item_key h)"
    using h i by (auto simp: heap_for_def)
  have "set h = head_item rs ` ({i. i < length rs \<and> rs ! i \<noteq> []} - {i})"
  proof
    show "set h \<subseteq> head_item rs ` ({i. i < length rs \<and> rs ! i \<noteq> []} - {i})"
    proof
      fix x assume x: "x \<in> set h"
      then have "x \<in> head_item rs ` {i. i < length rs \<and> rs ! i \<noteq> []}" using h by (auto simp: heap_for_def)
      then obtain j where "x = head_item rs j" "j < length rs" "rs ! j \<noteq> []" by auto
      then show "x \<in> head_item rs ` ({i. i < length rs \<and> rs ! i \<noteq> []} - {i})"
        using nin(1) x by force
    qed
    show "head_item rs ` ({i. i < length rs \<and> rs ! i \<noteq> []} - {i}) \<subseteq> set h"
    proof
      fix x assume "x \<in> head_item rs ` ({i. i < length rs \<and> rs ! i \<noteq> []} - {i})"
      then obtain j where j: "x = head_item rs j" "j < length rs" "rs ! j \<noteq> []" "j \<noteq> i" by auto
      then have "x \<in> set (itm # h)" using h by (auto simp: heap_for_def)
      then show "x \<in> set h" using j itm_eq head_item_simps(1) by (metis set_ConsD)
    qed
  qed
  also have "\<dots> = head_item rs' ` ({i. i < length rs' \<and> rs' ! i \<noteq> []} - {i})"
    by (rule image_cong) (auto simp: rs' head_item_def nth_list_update)
  finally have set_h: "set h = head_item rs' ` ({i. i < length rs' \<and> rs' ! i \<noteq> []} - {i})" .
  then show "heap_for rs' (if rs' ! i \<noteq> [] then heap_push (head_item rs' i) h else h)"
    using nin facts rs' by (auto simp: heap_for_def)
qed

definition drops :: "bytes \<Rightarrow> (bytes \<times> bytes) list \<Rightarrow> (bytes \<times> bytes) list \<Rightarrow> bool" where
  "drops cur r r' \<longleftrightarrow> (\<exists>ps. r = ps @ r' \<and> (\<forall>e\<in>set ps. fst e = cur))"

lemma drops_refl: "drops cur r r"
  by (auto simp: drops_def)

lemma drops_trans: "drops cur r r' \<Longrightarrow> drops cur r' r'' \<Longrightarrow> drops cur r r''"
proof -
  assume "drops cur r r'" "drops cur r' r''"
  then obtain ps qs where "r = (ps @ qs) @ r''" "\<forall>e\<in>set (ps @ qs). fst e = cur" by (auto simp: drops_def)
  then show "drops cur r r''" unfolding drops_def by blast
qed

lemma drops_tl: "fst (hd r) = cur \<Longrightarrow> r \<noteq> [] \<Longrightarrow> drops cur r (tl r)"
  unfolding drops_def by (intro exI [of _ "[hd r]"]) auto

lemma drops_length: "drops cur r r' \<Longrightarrow> length r' \<le> length r"
  by (auto simp: drops_def)

lemma drops_entries_left: "list_all2 (drops cur) rs rs' \<Longrightarrow> entries_left rs' \<le> entries_left rs"
  by (induction rule: list_all2_induct) (auto simp: entries_left_def dest!: drops_length)

lemma entries_left_tl:
  "i < length rs \<Longrightarrow> rs ! i \<noteq> [] \<Longrightarrow> entries_left (rs[i := tl (rs ! i)]) < entries_left rs"
proof (induction rs arbitrary: i)
  case (Cons r rs)
  then show ?case by (cases i) (auto simp: entries_left_def)
qed simp

lemma merging_next_loop_rests:
  assumes "heap_for (rests cs) h" "merging_next_loop cur cs h = (cs', h')"
  shows "heap_for (rests cs') h' \<and> (h' = [] \<or> item_key (hd h') \<noteq> cur) \<and>
    list_all2 (drops cur) (rests cs) (rests cs') \<and>
    (h \<noteq> [] \<and> item_key (hd h) = cur \<longrightarrow> entries_left (rests cs') < entries_left (rests cs))"
  using assms
proof (induction cur cs h rule: merging_next_loop.induct)
  case (1 cur cs)
  then show ?case by (auto intro: list_all2_refl drops_refl)
next
  case (2 cur cs itm h)
  show ?case
  proof (cases "item_key itm = cur")
    case False
    with 2 show ?thesis by (auto intro: list_all2_refl drops_refl)
  next
    case True
    let ?i = "child_index itm" and ?cs = "advance_child cs (child_index itm)"
    note st = heap_for_step [OF 2(2) refl refl]
    have rs: "rests ?cs = (rests cs)[?i := tl (rests cs ! ?i)]"
      using st(1) advance_rests [of cs ?i] by (simp del: rests_simps(2))
    have len: "length ?cs = length cs" by (simp add: advance_child_def)
    have "heap_for (rests ?cs) (pushChild ?cs ?i h)"
      using st(4) st(1) by (simp only: pushChild_rests rs len rests_simps(1)) auto
    moreover have "merging_next_loop cur ?cs (pushChild ?cs ?i h) = (cs', h')"
      using 2(3) True by (simp add: Let_def)
    ultimately have IH: "heap_for (rests cs') h'" "h' = [] \<or> item_key (hd h') \<noteq> cur"
      "list_all2 (drops cur) (rests ?cs) (rests cs')"
      using 2(1) [OF True refl refl] by auto
    have d: "list_all2 (drops cur) (rests cs) (rests ?cs)"
      unfolding rs list_all2_conv_all_nth
    proof (intro conjI allI impI)
      show "drops cur (rests cs ! j) ((rests cs)[?i := tl (rests cs ! ?i)] ! j)" for j
        using st(1-3) True by (cases "j = ?i") (simp_all add: drops_refl drops_tl del: rests_simps(2))
    qed simp
    have "entries_left (rests cs') < entries_left (rests cs)"
      using drops_entries_left [OF IH(3)] entries_left_tl [OF st(1,2)] rs by simp
    moreover have "list_all2 (drops cur) (rests cs) (rests cs')"
      by (rule list_all2_trans [OF _ d IH(3)]) (rule drops_trans)
    ultimately show ?thesis using IH by simp
  qed
qed

section \<open>The merged sequence\<close>

definition mi_inv :: "MergingIterator \<Rightarrow> bool" where
  "mi_inv it \<longleftrightarrow> heap_for (rests (mi_children it)) (mi_heap it) \<and> mi_current it = heap_current (mi_heap it)"

definition mi_left :: "MergingIterator \<Rightarrow> nat" where
  "mi_left it = entries_left (rests (mi_children it))"

lemma rebuildHeap_inv: "mi_inv (rebuildHeap it)"
proof -
  let ?cs = "mi_children it"
  have "sorted (map item_key h) \<and> distinct (map child_index h) \<and>
      set h = head_item (rests ?cs) ` {i. i < n \<and> rests ?cs ! i \<noteq> []}"
    if "n \<le> length ?cs" "h = fold (pushChild ?cs) [0..<n] []" for n h
    using that
  proof (induction n arbitrary: h)
    case (Suc n)
    let ?h = "fold (pushChild ?cs) [0..<n] []"
    have IH: "sorted (map item_key ?h)" "distinct (map child_index ?h)"
      "set ?h = head_item (rests ?cs) ` {i. i < n \<and> rests ?cs ! i \<noteq> []}"
      using Suc.IH [OF _ refl] Suc.prems(1) by auto
    have h: "h = (if rests ?cs ! n \<noteq> [] then heap_push (head_item (rests ?cs) n) ?h else ?h)"
      using Suc.prems pushChild_rests [of ?cs n ?h] by (simp del: rests_simps(2))
    have "{i. i < Suc n \<and> rests ?cs ! i \<noteq> []} =
        (if rests ?cs ! n \<noteq> [] then insert n {i. i < n \<and> rests ?cs ! i \<noteq> []} else {i. i < n \<and> rests ?cs ! i \<noteq> []})"
      by (auto simp del: rests_simps(2) simp: less_Suc_eq)
    moreover have "n \<notin> child_index ` set ?h" unfolding IH(3) by auto
    ultimately show ?case using IH(1,2) unfolding h by (auto simp: IH(3) simp del: rests_simps(2))
  qed simp
  from this [OF order.refl refl] show ?thesis by (simp add: mi_inv_def rebuildHeap_def Let_def heap_for_def)
qed

lemma MergingIterator_seek_inv: "mi_inv (MergingIterator_seekToFirst it)" "mi_inv (MergingIterator_seek it target)"
  by (simp_all add: MergingIterator_seekToFirst_def MergingIterator_seek_def rebuildHeap_inv)

lemma heap_hd:
  assumes "mi_inv it" "mi_heap it \<noteq> []"
  obtains i c where "mi_current it = Some i" "i < length (mi_children it)" "mi_children it ! i = Some c"
    "child_valid c" "item_key (hd (mi_heap it)) = child_key c" "(child_key c, child_value c) \<in> set (child_rest c)"
proof -
  have "hd (mi_heap it) \<in> head_item (rests (mi_children it)) ` {i. i < length (rests (mi_children it)) \<and> rests (mi_children it) ! i \<noteq> []}"
    using assms hd_in_set [OF assms(2)] by (simp add: mi_inv_def heap_for_def)
  then obtain i where i: "hd (mi_heap it) = head_item (rests (mi_children it)) i" "i < length (mi_children it)"
    "rests (mi_children it) ! i \<noteq> []"
    by (auto simp del: rests_simps(2))
  then obtain c where c: "mi_children it ! i = Some c" "child_rest c \<noteq> []" by (auto split: option.splits)
  then have "child_valid c" "(child_key c, child_value c) = hd (child_rest c)"
    using child.valid_rest [of c] child.entry_rest [of c] by simp_all
  moreover have "mi_current it = Some i" using assms i by (simp add: mi_inv_def heap_current_def)
  ultimately show thesis using that i c by (metis fst_conv head_item_simps(2) hd_in_set option.simps(5) rests_simps(2))
qed

lemma MergingIterator_top:
  assumes "mi_inv it" "mi_heap it \<noteq> []"
  shows "\<exists>x \<in> pool (rests (mi_children it)). fst x = item_key (hd (mi_heap it))"
proof -
  obtain i c where c: "i < length (mi_children it)" "mi_children it ! i = Some c"
    "item_key (hd (mi_heap it)) = child_key c" "(child_key c, child_value c) \<in> set (child_rest c)"
    by (rule heap_hd [OF assms])
  then have "(child_key c, child_value c) \<in> pool (rests (mi_children it))" by (auto simp: pool_mem)
  then show ?thesis using c(3) by force
qed

lemma MergingIterator_valid_heap:
  assumes "mi_inv it"
  shows "MergingIterator_valid it \<longleftrightarrow> Status_ok (mi_status it) \<and> mi_heap it \<noteq> []"
proof (cases "mi_heap it = []")
  case True
  then show ?thesis using assms by (simp add: MergingIterator_valid_def mi_inv_def heap_current_def)
next
  case False
  then show ?thesis by (rule heap_hd [OF assms]) (simp add: MergingIterator_valid_def False)
qed

lemma MergingIterator_step:
  assumes inv: "mi_inv it" and v: "MergingIterator_valid it"
  shows "MergingIterator_key it = item_key (hd (mi_heap it))"
    "(MergingIterator_key it, MergingIterator_value it) \<in> pool (rests (mi_children it))"
    "mi_inv (MergingIterator_next it)" "mi_status (MergingIterator_next it) = mi_status it"
    "list_all2 (drops (MergingIterator_key it)) (rests (mi_children it)) (rests (mi_children (MergingIterator_next it)))"
    "mi_left (MergingIterator_next it) < mi_left it"
    "mi_heap (MergingIterator_next it) = [] \<or> item_key (hd (mi_heap (MergingIterator_next it))) \<noteq> MergingIterator_key it"
proof -
  have ne: "mi_heap it \<noteq> []" using MergingIterator_valid_heap [OF inv] v by simp
  obtain i c where c: "mi_current it = Some i" "i < length (mi_children it)" "mi_children it ! i = Some c"
    "child_valid c" "item_key (hd (mi_heap it)) = child_key c" "(child_key c, child_value c) \<in> set (child_rest c)"
    by (rule heap_hd [OF inv ne])
  show key: "MergingIterator_key it = item_key (hd (mi_heap it))" using c v by (simp add: MergingIterator_key_def)
  have "child_rest c \<in> set (rests (mi_children it))"
    using c nth_mem [of i "rests (mi_children it)"] by simp
  then show "(MergingIterator_key it, MergingIterator_value it) \<in> pool (rests (mi_children it))"
    using c v by (auto simp: MergingIterator_key_def MergingIterator_value_def intro: poolI)
  obtain cs h where l: "merging_next_loop (child_key c) (mi_children it) (mi_heap it) = (cs, h)" by fastforce
  have nxt: "MergingIterator_next it = it\<lparr>mi_children := cs, mi_heap := h, mi_current := heap_current h\<rparr>"
    using v c l by (simp add: MergingIterator_next_def)
  have "heap_for (rests (mi_children it)) (mi_heap it)" using inv by (simp add: mi_inv_def)
  note r = merging_next_loop_rests [OF this l]
  show "mi_inv (MergingIterator_next it)" "mi_status (MergingIterator_next it) = mi_status it"
    "list_all2 (drops (MergingIterator_key it)) (rests (mi_children it)) (rests (mi_children (MergingIterator_next it)))"
    "mi_left (MergingIterator_next it) < mi_left it"
    "mi_heap (MergingIterator_next it) = [] \<or> item_key (hd (mi_heap (MergingIterator_next it))) \<noteq> MergingIterator_key it"
    using r nxt key c(5) ne by (simp_all add: mi_inv_def mi_left_def)
qed

abbreviation mi_drain :: "nat \<Rightarrow> MergingIterator \<Rightarrow> (bytes \<times> bytes) list" where
  "mi_drain \<equiv> iter_drain MergingIterator_valid MergingIterator_key MergingIterator_value MergingIterator_next"

definition mi_rest :: "MergingIterator \<Rightarrow> (bytes \<times> bytes) list" where
  "mi_rest it = mi_drain (mi_left it) it"

lemma valid_left: "mi_inv it \<Longrightarrow> MergingIterator_valid it \<Longrightarrow> 0 < mi_left it"
  using MergingIterator_step(6) [of it] by simp

lemma mi_drain_fuel:
  assumes "mi_inv it" "mi_left it \<le> n" "mi_left it \<le> m"
  shows "mi_drain n it = mi_drain m it"
  using assms
proof (induction n arbitrary: it m)
  case 0
  then have "\<not> MergingIterator_valid it" using valid_left [of it] by auto
  then show ?case by (cases m) auto
next
  case (Suc n)
  show ?case
  proof (cases "MergingIterator_valid it")
    case True
    note st = MergingIterator_step(3,6) [OF Suc.prems(1) True]
    obtain k where m: "m = Suc k" using valid_left [OF Suc.prems(1) True] Suc.prems(3) by (cases m) auto
    have "mi_drain n (MergingIterator_next it) = mi_drain k (MergingIterator_next it)"
      by (rule Suc.IH) (use st Suc.prems m in auto)
    then show ?thesis using True m by simp
  next
    case False
    then show ?thesis by (cases m) auto
  qed
qed

lemma mi_rest_step:
  assumes "mi_inv it"
  shows "mi_rest it = (if MergingIterator_valid it
    then (MergingIterator_key it, MergingIterator_value it) # mi_rest (MergingIterator_next it) else [])"
proof (cases "MergingIterator_valid it")
  case True
  obtain n where n: "mi_left it = Suc n" using valid_left [OF assms True] by (cases "mi_left it") auto
  then have "mi_drain n (MergingIterator_next it) = mi_rest (MergingIterator_next it)"
    unfolding mi_rest_def using MergingIterator_step(3,6) [OF assms True] by (intro mi_drain_fuel) auto
  then show ?thesis using True n by (simp add: mi_rest_def)
next
  case False
  then show ?thesis by (cases "mi_left it") (auto simp: mi_rest_def)
qed

interpretation mi: kv_iterator MergingIterator_valid MergingIterator_key MergingIterator_value
  MergingIterator_next mi_rest mi_inv
  by unfold_locales (auto simp: mi_rest_step MergingIterator_step(3))

text \<open>
  Completeness: whatever the order of the children's entries, the merge delivers exactly the
  keys the children hold, and every delivered entry is an entry of a child.
\<close>

lemma drops_keys:
  assumes "list_all2 (drops cur) rs rs'"
  shows "pool rs' \<subseteq> pool rs"
    "fst ` pool rs \<subseteq> insert cur (fst ` pool rs')"
proof -
  have nth: "length rs = length rs'" "\<And>i. i < length rs \<Longrightarrow> drops cur (rs ! i) (rs' ! i)"
    using assms by (auto simp: list_all2_conv_all_nth)
  have one: "set r' \<subseteq> set r" "fst ` set r \<subseteq> insert cur (fst ` set r')" if "drops cur r r'" for r r'
    using that by (force simp: drops_def)+
  show "pool rs' \<subseteq> pool rs" using nth one(1) by (fastforce simp: pool_mem)
  show "fst ` pool rs \<subseteq> insert cur (fst ` pool rs')"
  proof
    fix k assume "k \<in> fst ` pool rs"
    then obtain i where i: "i < length rs" "k \<in> fst ` set (rs ! i)" by (force simp: pool_mem)
    then have "k = cur \<or> k \<in> fst ` set (rs' ! i)" using one(2) [OF nth(2)] by blast
    then show "k \<in> insert cur (fst ` pool rs')" using i nth(1) poolI [OF nth_mem] by force
  qed
qed

lemma heap_empty_rests:
  assumes "mi_inv it" "mi_heap it = []"
  shows "pool (rests (mi_children it)) = {}"
proof -
  have "rests (mi_children it) ! i = []" if "i < length (rests (mi_children it))" for i
    using assms that by (auto simp: mi_inv_def heap_for_def simp del: rests_simps)
  then show ?thesis by (auto simp: pool_mem)
qed

lemma merge_keys:
  assumes "mi_inv it" "Status_ok (mi_status it)"
  shows "fst ` set (mi_rest it) = fst ` pool (rests (mi_children it))"
    "set (mi_rest it) \<subseteq> pool (rests (mi_children it))"
proof -
  have "fst ` set (mi_rest it) = fst ` pool (rests (mi_children it)) \<and>
      set (mi_rest it) \<subseteq> pool (rests (mi_children it))"
    using assms
  proof (induction "mi_left it" arbitrary: it rule: less_induct)
    case less
    show ?case
    proof (cases "MergingIterator_valid it")
      case False
      then show ?thesis
        using less.prems heap_empty_rests [of it] by (simp add: mi_rest_step MergingIterator_valid_heap)
    next
      case True
      note st = MergingIterator_step [OF less.prems(1) True]
      let ?nx = "MergingIterator_next it"
      have IH: "fst ` set (mi_rest ?nx) = fst ` pool (rests (mi_children ?nx))"
        "set (mi_rest ?nx) \<subseteq> pool (rests (mi_children ?nx))"
        using less.hyps [OF st(6) st(3)] st(4) less.prems(2) by auto
      have rest: "mi_rest it = (MergingIterator_key it, MergingIterator_value it) # mi_rest ?nx"
        using True less.prems(1) by (simp add: mi_rest_step)
      note dk = drops_keys [OF st(5)]
      have "fst ` set (mi_rest it) = insert (MergingIterator_key it) (fst ` pool (rests (mi_children ?nx)))"
        unfolding rest by (simp only: list.set image_insert fst_conv IH(1))
      also have "\<dots> = fst ` pool (rests (mi_children it))"
      proof
        show "insert (MergingIterator_key it) (fst ` pool (rests (mi_children ?nx)))
            \<subseteq> fst ` pool (rests (mi_children it))"
          using image_mono [OF dk(1)] imageI [OF st(2), of fst] by (simp only: fst_conv insert_subset simp_thms)
      qed (rule dk(2))
      finally show ?thesis using IH(2) dk(1) st(2) unfolding rest by auto
    qed
  qed
  then show "fst ` set (mi_rest it) = fst ` pool (rests (mi_children it))"
    "set (mi_rest it) \<subseteq> pool (rests (mi_children it))" by simp_all
qed

text \<open>Order: children sorted by the bytes of their keys are merged into strictly ascending keys.\<close>

lemma heap_min:
  assumes "mi_inv it" "\<forall>r\<in>set (rests (mi_children it)). sorted (map fst r)"
    "e \<in> pool (rests (mi_children it))"
  shows "mi_heap it \<noteq> [] \<and> item_key (hd (mi_heap it)) \<le> fst e"
proof -
  let ?rs = "rests (mi_children it)" and ?h = "mi_heap it"
  from assms(3) obtain i where i: "i < length ?rs" "e \<in> set (?rs ! i)"
    by (auto simp: pool_mem simp del: rests_simps)
  then have "head_item ?rs i \<in> set ?h"
    using assms(1) by (auto simp: mi_inv_def heap_for_def simp del: rests_simps)
  moreover have "sorted (map item_key ?h)" using assms(1) by (simp add: mi_inv_def heap_for_def)
  ultimately have "?h \<noteq> [] \<and> item_key (hd ?h) \<le> fst (hd (?rs ! i))"
    by (cases ?h) (auto simp: head_item_def)
  moreover have "sorted (map fst (?rs ! i))" using assms(2) nth_mem [OF i(1)] by blast
  then have "fst (hd (?rs ! i)) \<le> fst e" using i(2) by (cases "?rs ! i") auto
  ultimately show ?thesis by (auto intro: order_trans)
qed

lemma drops_sorted:
  assumes "list_all2 (drops cur) rs rs'" "\<forall>r\<in>set rs. sorted (map fst r)"
  shows "\<forall>r\<in>set rs'. sorted (map fst r)"
  using assms by (induction rule: list_all2_induct) (auto simp: drops_def sorted_append)

lemma merge_sorted:
  assumes "mi_inv it" "\<forall>r\<in>set (rests (mi_children it)). sorted (map fst r)"
  shows "sorted_wrt (<) (map fst (mi_rest it))"
  using assms
proof (induction "mi_left it" arbitrary: it rule: less_induct)
  case less
  show ?case
  proof (cases "MergingIterator_valid it")
    case False
    then show ?thesis using less.prems by (simp add: mi_rest_step)
  next
    case True
    note st = MergingIterator_step [OF less.prems(1) True]
    let ?nx = "MergingIterator_next it" and ?cur = "MergingIterator_key it"
    note srt = drops_sorted [OF st(5) less.prems(2)]
    have ok: "Status_ok (mi_status ?nx)"
      using True st(4) MergingIterator_valid_heap [OF less.prems(1)] by simp
    have "?cur < fst e" if "e \<in> set (mi_rest ?nx)" for e
    proof -
      have e: "e \<in> pool (rests (mi_children ?nx))" using merge_keys(2) [OF st(3) ok] that by blast
      note m = heap_min [OF st(3) srt e]
      then have "?cur \<noteq> item_key (hd (mi_heap ?nx))" using st(7) by auto
      moreover obtain x where x: "x \<in> pool (rests (mi_children ?nx))"
        "fst x = item_key (hd (mi_heap ?nx))"
        using MergingIterator_top [OF st(3)] m by blast
      moreover have "item_key (hd (mi_heap it)) \<le> fst x"
        using heap_min [OF less.prems] x(1) drops_keys(1) [OF st(5)] by blast
      ultimately show ?thesis using m st(1) by auto
    qed
    then show ?thesis
      using True less.prems(1) less.hyps [OF st(6) st(3) srt] by (simp add: mi_rest_step [of it])
  qed
qed

end
