(* ===== verification/Manifest.thy ===== *)
theory Manifest
  imports Posix Coding Checksum Framed_Log
begin

text \<open>
  \<open>minikv/src/core/manifest.{h,cpp}\<close>: the durable record of which table files exist at which
  level. The lemmas show that replaying the log rebuilds the levels its records describe, that
  a cut-off log rebuilds the levels of its complete records, and that \<open>rewriteSnapshot\<close> is
  atomic: whichever of its system calls fail, and whatever a crash after that loses, the next
  \<open>open\<close> finds the same levels.

  \<open>manifest_path_\<close> is the path the constructor builds. Levels are naturals: \<open>Version\<close>
  returns before it calls the MANIFEST with a negative level. A payload whose \<open>path_len\<close>
  wraps the bounds check around (\<open>path_len > 2 ^ 32 - 17\<close> under a matching checksum) makes
  the code read behind the payload; the model takes the bytes that are there.
\<close>

section \<open>Definitions\<close>

record SSTableMeta =
  meta_path :: path
  meta_min_key :: bytes
  meta_max_key :: bytes
  meta_file_number :: u64
  meta_file_size :: u64

type_synonym levels = "SSTableMeta list list"

datatype RecordType = kReset | kAdd | kDel

definition RecordType_u8 :: "RecordType \<Rightarrow> u8" where
  "RecordType_u8 t = (case t of kReset \<Rightarrow> 0 | kAdd \<Rightarrow> 1 | kDel \<Rightarrow> 2)"

record Manifest =
  mf_path :: path
  mf_fd :: "path option"
  mf_levels :: levels

definition Manifest_new :: "path \<Rightarrow> Manifest" where
  "Manifest_new dir = \<lparr>mf_path = dir @ str ''/MANIFEST'', mf_fd = None, mf_levels = []\<rparr>"

text \<open>\<open>std::vector::resize\<close> to a larger size, and \<open>push_back\<close> and \<open>erase\<close> on one level.\<close>

definition grow_levels :: "nat \<Rightarrow> 'a list list \<Rightarrow> 'a list list" where
  "grow_levels n ls = ls @ replicate (n - length ls) []"

definition file_meta :: "path \<Rightarrow> u64 \<Rightarrow> SSTableMeta" where
  "file_meta p file_no =
     \<lparr>meta_path = p, meta_min_key = [], meta_max_key = [], meta_file_number = file_no, meta_file_size = 0\<rparr>"

definition push_level :: "nat \<Rightarrow> SSTableMeta \<Rightarrow> levels \<Rightarrow> levels" where
  "push_level level m ls = ls[level := ls ! level @ [m]]"

definition erase_level :: "nat \<Rightarrow> path \<Rightarrow> levels \<Rightarrow> levels" where
  "erase_level level p ls = ls[level := filter (\<lambda>m. meta_path m \<noteq> p) (ls ! level)]"

definition recoverActivePathUnlocked :: "os \<Rightarrow> path \<Rightarrow> os" where
  "recoverActivePathUnlocked os mp =
     (if sys_exists os mp then fst (sys_unlink os (mp @ str ''.new''))
      else
        let neu = mp @ str ''.new''; bak = mp @ str ''.bak'' in
        if sys_exists os neu then fst (sys_rename os neu mp)
        else if sys_exists os bak then fst (sys_rename os bak mp)
        else os)"

text \<open>
  One round of the replay loop: reading a frame (with the rest of the file), and applying its
  payload; \<open>None\<close> is \<open>break\<close>.
\<close>

definition manifest_read :: "bytes \<Rightarrow> (bytes \<times> bytes) option" where
  "manifest_read input =
     (let header = take 8 input in
      if length header \<noteq> 8 then None
      else
        let crc = decodeFixed32 header;
            plen = decodeFixed32 (drop 4 header)
        in if plen = 0 \<or> plen > 2 ^ 24 then None
           else
             let payload = take (unat plen) (drop 8 input) in
             if length payload \<noteq> unat plen then None
             else if crc32c payload (sint plen) \<noteq> crc then None
             else Some (payload, drop (unat plen) (drop 8 input)))"

definition manifest_apply :: "bytes \<Rightarrow> levels \<Rightarrow> levels option" where
  "manifest_apply payload tmp =
     (if payload = [] then None
      else if payload ! 0 = RecordType_u8 kReset then Some (replicate 8 [])
      else if length payload < 1 + 4 + 8 + 4 then Some tmp
      else
        let level = unat (decodeFixed32 (drop 1 payload));
            file_no = decodeFixed64 (drop 5 payload);
            path_len = decodeFixed32 (drop 13 payload)
        in if 1 + 4 + 8 + 4 + path_len > size_u32 payload then None
           else
             let p = take (unat path_len) (drop 17 payload);
                 tmp = (if level \<ge> length tmp then grow_levels (level + 1) tmp else tmp)
             in if payload ! 0 = RecordType_u8 kAdd then Some (push_level level (file_meta p file_no) tmp)
                else Some (erase_level level p tmp))"

lemma manifest_read_shorter: "manifest_read input = Some (payload, rest) \<Longrightarrow> length rest < length input"
  by (auto simp: manifest_read_def Let_def split: if_splits)

function manifest_replay_loop :: "bytes \<Rightarrow> levels \<Rightarrow> levels" where
  "manifest_replay_loop input tmp =
     (case manifest_read input of
        None \<Rightarrow> tmp
      | Some (payload, rest) \<Rightarrow>
          (case manifest_apply payload tmp of
             None \<Rightarrow> tmp
           | Some tmp \<Rightarrow> manifest_replay_loop rest tmp))"
  by pat_completeness auto
termination
  by (relation "measure (\<lambda>(input, _). length input)") (auto simp: manifest_read_shorter)

declare manifest_replay_loop.simps [simp del]

definition Manifest_replay :: "os \<Rightarrow> Manifest \<Rightarrow> Manifest \<times> Status" where
  "Manifest_replay os m =
     (case mf_fd m of
        None \<Rightarrow> (m\<lparr>mf_levels := replicate 8 []\<rparr>, Status_Ok)
      | Some fd \<Rightarrow> (m\<lparr>mf_levels := manifest_replay_loop (content_of os fd) (replicate 8 [])\<rparr>, Status_Ok))"

text \<open>\<open>manifest_path_.substr(0, manifest_path_.find_last_of('/'))\<close>; the path contains a slash.\<close>

definition dirname :: "path \<Rightarrow> path" where
  "dirname p = rev (tl (dropWhile (\<lambda>c. c \<noteq> 47) (rev p)))"

definition Manifest_open :: "os \<Rightarrow> Manifest \<Rightarrow> os \<times> Manifest \<times> Status" where
  "Manifest_open os m =
     (if mf_fd m \<noteq> None then (os, m, Status_Ok)
      else
        let os = fst (sys_mkdir os (dirname (mf_path m)));
            m = m\<lparr>mf_levels := replicate 8 []\<rparr>;
            os = recoverActivePathUnlocked os (mf_path m)
        in case sys_open_creat os (mf_path m) of
             (os, None) \<Rightarrow> (os, m, Status_IOError (str ''cannot open MANIFEST''))
           | (os, Some fd) \<Rightarrow>
               (case Manifest_replay os (m\<lparr>mf_fd := Some fd\<rparr>) of (m, s) \<Rightarrow>
                  if \<not> Status_ok s then (os, m, s) else (os, m, Status_Ok)))"

definition manifest_payload :: "RecordType \<Rightarrow> nat \<Rightarrow> path \<Rightarrow> u64 \<Rightarrow> bytes" where
  "manifest_payload type level p file_no =
     [RecordType_u8 type] @ encodeFixed32 (word_of_nat level) @ encodeFixed64 file_no @
     encodeFixed32 (size_u32 p) @ p"

definition writeRecordToFd :: "os \<Rightarrow> path option \<Rightarrow> RecordType \<Rightarrow> nat \<Rightarrow> path \<Rightarrow> u64 \<Rightarrow> os \<times> Status" where
  "writeRecordToFd os fd type level p file_no =
     (case fd of
        None \<Rightarrow> (os, Status_IOError (str ''MANIFEST fd not open''))
      | Some fd \<Rightarrow>
          let payload = manifest_payload type level p file_no;
              crc = crc32c payload (size_int payload);
              header = encodeFixed32 crc @ encodeFixed32 (size_u32 payload)
          in case sys_write os fd header of (os, n) \<Rightarrow>
             if n \<noteq> 8 then (os, Status_IOError (str ''MANIFEST write header''))
             else case sys_write os fd payload of (os, n) \<Rightarrow>
               if n \<noteq> int (length payload) then (os, Status_IOError (str ''MANIFEST write payload''))
               else (os, Status_Ok))"

definition Manifest_writeRecord :: "os \<Rightarrow> Manifest \<Rightarrow> RecordType \<Rightarrow> nat \<Rightarrow> path \<Rightarrow> u64 \<Rightarrow> os \<times> Status" where
  "Manifest_writeRecord os m type level p file_no = writeRecordToFd os (mf_fd m) type level p file_no"

definition Manifest_recordReset :: "os \<Rightarrow> Manifest \<Rightarrow> os \<times> Status" where
  "Manifest_recordReset os m = Manifest_writeRecord os m kReset 0 [] 0"

definition Manifest_recordAddFile :: "os \<Rightarrow> Manifest \<Rightarrow> nat \<Rightarrow> path \<Rightarrow> u64 \<Rightarrow> os \<times> Manifest \<times> Status" where
  "Manifest_recordAddFile os m level p file_no =
     (let ls = mf_levels m;
          ls = (if level \<ge> length ls then grow_levels (level + 1) ls else ls);
          m = m\<lparr>mf_levels := push_level level (file_meta p file_no) ls\<rparr>
      in case Manifest_writeRecord os m kAdd level p file_no of (os, s) \<Rightarrow> (os, m, s))"

definition Manifest_recordRemoveFile :: "os \<Rightarrow> Manifest \<Rightarrow> nat \<Rightarrow> path \<Rightarrow> u64 \<Rightarrow> os \<times> Manifest \<times> Status" where
  "Manifest_recordRemoveFile os m level p file_no =
     (let m = (if level < length (mf_levels m)
               then m\<lparr>mf_levels := erase_level level p (mf_levels m)\<rparr> else m)
      in case Manifest_writeRecord os m kDel level p file_no of (os, s) \<Rightarrow> (os, m, s))"

definition Manifest_sync :: "os \<Rightarrow> Manifest \<Rightarrow> os \<times> Status" where
  "Manifest_sync os m =
     (case mf_fd m of
        None \<Rightarrow> (os, Status_Ok)
      | Some fd \<Rightarrow>
          (case sys_fdatasync os fd of (os, ok) \<Rightarrow>
             if \<not> ok then (os, Status_IOError (str ''MANIFEST sync failed'')) else (os, Status_Ok)))"

text \<open>The loops of \<open>rewriteSnapshot\<close> over the levels and the files of a level.\<close>

fun write_metas :: "os \<Rightarrow> path \<Rightarrow> (nat \<times> SSTableMeta) list \<Rightarrow> os \<times> Status" where
  "write_metas os nfd [] = (os, Status_Ok)"
| "write_metas os nfd ((level, meta) # ms) =
     (case writeRecordToFd os (Some nfd) kAdd level (meta_path meta) (meta_file_number meta) of (os, s) \<Rightarrow>
        if \<not> Status_ok s then (os, s) else write_metas os nfd ms)"

definition snapshot_metas :: "levels \<Rightarrow> (nat \<times> SSTableMeta) list" where
  "snapshot_metas ls = concat (map (\<lambda>(i, ms). map (Pair i) ms) (List.enumerate 0 ls))"

definition Manifest_rewriteSnapshot :: "os \<Rightarrow> Manifest \<Rightarrow> os \<times> Manifest \<times> Status" where
  "Manifest_rewriteSnapshot os m =
     (let snapshot = mf_levels m;
          mp = mf_path m;
          neu = mp @ str ''.new'';
          bak = mp @ str ''.bak''
      in case sys_open_trunc os neu of
           (os, None) \<Rightarrow> (os, m, Status_IOError (str ''cannot create MANIFEST.new''))
         | (os, Some nfd) \<Rightarrow>
         (case write_metas os nfd (snapshot_metas snapshot) of (os, s) \<Rightarrow>
          if \<not> Status_ok s then (fst (sys_unlink os neu), m, s)
          else
          (case sys_fdatasync os nfd of (os, synced) \<Rightarrow>
           if \<not> synced then (fst (sys_unlink os neu), m, Status_IOError (str ''MANIFEST.new sync failed''))
           else
             let m = m\<lparr>mf_fd := None\<rparr>;
                 os = fst (sys_unlink os bak);
                 os = fst (sys_rename os mp bak)
             in case sys_rename os neu mp of (os, promoted) \<Rightarrow>
                if \<not> promoted then
                  (fst (sys_rename os bak mp), m, Status_IOError (str ''cannot promote MANIFEST.new''))
                else
                  (case sys_open_creat os mp of
                     (os, None) \<Rightarrow> (os, m, Status_IOError (str ''cannot reopen MANIFEST after snapshot''))
                   | (os, Some fd) \<Rightarrow>
                       (os, m\<lparr>mf_fd := Some fd,
                              mf_levels := (if length snapshot < 8 then grow_levels 8 snapshot else snapshot)\<rparr>,
                        Status_Ok)))))"

definition Manifest_totalFiles :: "Manifest \<Rightarrow> nat" where
  "Manifest_totalFiles m = sum_list (map length (mf_levels m))"

section \<open>The record format\<close>

definition manifest_frame :: "bytes \<Rightarrow> bytes" where
  "manifest_frame payload =
     encodeFixed32 (crc32c payload (size_int payload)) @ encodeFixed32 (size_u32 payload) @ payload"

definition manifest_ok :: "bytes \<Rightarrow> bool" where
  "manifest_ok payload \<longleftrightarrow> 0 < length payload \<and> length payload \<le> 2 ^ 24"

function manifest_parse :: "bytes \<Rightarrow> bytes list" where
  "manifest_parse input =
     (case manifest_read input of None \<Rightarrow> [] | Some (r, input) \<Rightarrow> r # manifest_parse input)"
  by pat_completeness auto
termination
  by (relation "measure length") (auto simp: manifest_read_shorter)

declare manifest_parse.simps [simp del]

lemma length_manifest_frame: "length (manifest_frame r) = 8 + length r"
  by (simp add: manifest_frame_def)

lemma manifest_header:
  "decodeFixed32 (take 8 (manifest_frame r @ input)) = crc32c r (size_int r)"
  "decodeFixed32 (drop 4 (take 8 (manifest_frame r @ input))) = size_u32 r"
  "drop 8 (manifest_frame r @ input) = r @ input"
  by (simp_all add: manifest_frame_def)

lemma manifest_size:
  assumes "manifest_ok r"
  shows "unat (size_u32 r) = length r" "sint (size_u32 r) = size_int r" "size_u32 r \<noteq> 0"
    "\<not> size_u32 r > 2 ^ 24"
proof -
  have len: "length r < 2 ^ 32" "length r \<le> 2 ^ 24" "length r \<noteq> 0" using assms by (auto simp: manifest_ok_def)
  show u: "unat (size_u32 r) = length r" by (rule unat_size_u32) (rule len)
  show "sint (size_u32 r) = size_int r" by (simp add: size_int_def size_u32_def)
  show "size_u32 r \<noteq> 0" using u len by (metis unat_0)
  show "\<not> size_u32 r > 2 ^ 24" using u len by (simp add: word_less_nat_alt not_less)
qed

lemma manifest_read_frame:
  assumes "manifest_ok r"
  shows "manifest_read (manifest_frame r @ input) = Some (r, input)"
proof -
  have "length (take 8 (manifest_frame r @ input)) = 8" by (simp add: length_manifest_frame)
  then show ?thesis
    using manifest_size [OF assms]
    unfolding manifest_read_def Let_def manifest_header by (simp add: length_manifest_frame)
qed

lemma manifest_read_torn:
  assumes "manifest_ok r" "n < length (manifest_frame r)"
  shows "manifest_read (take n (manifest_frame r)) = None"
proof (cases "n < 8")
  case False
  let ?b = "take n (manifest_frame r)"
  have "take 8 ?b = take 8 (manifest_frame r)" using False by (simp add: min_def)
  then have "unat (decodeFixed32 (drop 4 (take 8 ?b))) = length r"
    using manifest_header(2) [of r "[]"] manifest_size(1) [OF assms(1)] by simp
  moreover have "length (take (length r) (drop 8 ?b)) < length r"
    using assms(2) False by (simp add: length_manifest_frame)
  ultimately show ?thesis
    unfolding manifest_read_def Let_def by (simp only: nat_neq_iff simp_thms if_True split: if_split)
next
  case True
  then have "length (take 8 (take n (manifest_frame r))) \<noteq> 8" by simp
  then show ?thesis unfolding manifest_read_def Let_def by (simp only: simp_thms if_True not_False_eq_True)
qed

interpretation manifest_log: framed_log manifest_frame manifest_ok manifest_read manifest_parse
  by unfold_locales
    (fact manifest_read_frame manifest_read_torn manifest_parse.simps | simp add: manifest_read_def)+

text \<open>The replay loop applies the parsed payloads until one of them breaks it off.\<close>

fun apply_payloads :: "bytes list \<Rightarrow> levels \<Rightarrow> levels" where
  "apply_payloads [] ls = ls"
| "apply_payloads (p # ps) ls = (case manifest_apply p ls of None \<Rightarrow> ls | Some ls \<Rightarrow> apply_payloads ps ls)"

lemma manifest_replay_parse: "manifest_replay_loop input ls = apply_payloads (manifest_parse input) ls"
proof (induction input ls rule: manifest_replay_loop.induct)
  case (1 input tmp)
  show ?case
  proof (cases "manifest_read input")
    case None
    then show ?thesis by (simp add: manifest_replay_loop.simps [of input] manifest_parse.simps [of input])
  next
    case (Some p)
    then show ?thesis using 1
      by (cases p) (auto simp: manifest_replay_loop.simps [of input] manifest_parse.simps [of input]
          split: option.split)
  qed
qed

lemma manifest_payload_parts:
  "manifest_payload type level p no ! 0 = RecordType_u8 type"
  "decodeFixed32 (drop 1 (manifest_payload type level p no)) = word_of_nat level"
  "decodeFixed64 (drop 5 (manifest_payload type level p no)) = no"
  "decodeFixed32 (drop 13 (manifest_payload type level p no)) = size_u32 p"
  "drop 17 (manifest_payload type level p no) = p"
  "length (manifest_payload type level p no) = 17 + length p"
  by (simp_all add: manifest_payload_def)

definition short_path :: "path \<Rightarrow> bool" where
  "short_path p \<longleftrightarrow> length p + 17 \<le> 2 ^ 24"

lemma manifest_ok_payload: "short_path p \<Longrightarrow> manifest_ok (manifest_payload type level p no)"
  by (simp add: manifest_ok_def manifest_payload_parts short_path_def)

lemma manifest_apply_payload:
  assumes "short_path p" "level < length ls" "level < 2 ^ 32"
  shows "manifest_apply (manifest_payload kAdd level p no) ls = Some (push_level level (file_meta p no) ls)"
    and "manifest_apply (manifest_payload kDel level p no) ls = Some (erase_level level p ls)"
    and "manifest_apply (manifest_payload kReset level p no) ls = Some (replicate 8 [])"
proof -
  have p: "unat (size_u32 p) = length p" using assms(1) by (intro unat_size_u32) (simp add: short_path_def)
  have s: "size_u32 (manifest_payload type level p no) = 17 + size_u32 p" for type
    by (simp add: size_u32_def manifest_payload_parts)
  have l: "unat (word_of_nat level :: u32) = level" using assms(3) by (simp add: unat_of_nat take_bit_nat_eq_self)
  have ne: "manifest_payload type level p no \<noteq> []" for type by (simp add: manifest_payload_def)
  show "manifest_apply (manifest_payload kAdd level p no) ls = Some (push_level level (file_meta p no) ls)"
    "manifest_apply (manifest_payload kDel level p no) ls = Some (erase_level level p ls)"
    "manifest_apply (manifest_payload kReset level p no) ls = Some (replicate 8 [])"
    using assms(2) p
    by (simp_all add: manifest_apply_def Let_def manifest_payload_parts [unfolded One_nat_def] ne s l RecordType_u8_def)
qed

section \<open>Replaying a snapshot\<close>

definition meta_payload :: "nat \<times> SSTableMeta \<Rightarrow> bytes" where
  "meta_payload e = manifest_payload kAdd (fst e) (meta_path (snd e)) (meta_file_number (snd e))"

definition plain_levels :: "levels \<Rightarrow> bool" where
  "plain_levels ls \<longleftrightarrow> length ls = 8 \<and>
     (\<forall>ms\<in>set ls. \<forall>m\<in>set ms. m = file_meta (meta_path m) (meta_file_number m) \<and> short_path (meta_path m))"

lemma push_all_nth:
  assumes "\<forall>e\<in>set es. fst e < length ls" "j < length ls"
  shows "fold (\<lambda>e. push_level (fst e) (snd e)) es ls ! j = ls ! j @ map snd (filter (\<lambda>e. fst e = j) es)"
    and "length (fold (\<lambda>e. push_level (fst e) (snd e)) es ls) = length ls"
  using assms
proof (induction es arbitrary: ls)
  case (Cons e es)
  { case 1 then show ?case using Cons.IH(1) [of "push_level (fst e) (snd e) ls"]
      by (auto simp: push_level_def nth_list_update) }
  { case 2 then show ?case using Cons.IH(2) [of "push_level (fst e) (snd e) ls"]
      by (simp add: push_level_def) }
qed simp_all

lemma snapshot_metas_level:
  "map snd (filter (\<lambda>e. fst e = n + j) (concat (map (\<lambda>(i, ms). map (Pair i) ms) (List.enumerate n ls)))) =
     (if j < length ls then ls ! j else [])"
proof (induction ls arbitrary: n j)
  case (Cons ms ls)
  have "filter (\<lambda>e. fst e = n + j) (map (Pair n) ms) = (if j = 0 then map (Pair n) ms else [])"
    by (induction ms) auto
  moreover have "map snd (map (Pair n) ms) = ms" by (simp add: comp_def)
  moreover have "filter (\<lambda>e. fst e = n) (concat (map (\<lambda>(i, ms). map (Pair i) ms) (List.enumerate (Suc n) ls))) = []"
    by (auto simp: filter_empty_conv in_set_enumerate_eq)
  ultimately show ?case
    using Cons.IH [of "Suc n" "j - 1"] by (cases j) simp_all
qed simp

lemma snapshot_metas_in:
  "e \<in> set (snapshot_metas ls) \<Longrightarrow> fst e < length ls \<and> (\<exists>ms\<in>set ls. snd e \<in> set ms)"
  by (auto simp: snapshot_metas_def in_set_enumerate_eq)

lemma snapshot_push_all:
  assumes "length ls = 8"
  shows "fold (\<lambda>e. push_level (fst e) (snd e)) (snapshot_metas ls) (replicate 8 []) = ls"
proof (rule nth_equalityI)
  have bound: "\<forall>e\<in>set (snapshot_metas ls). fst e < length (replicate 8 [] :: levels)"
    using snapshot_metas_in [of _ ls] assms by simp
  show "length (fold (\<lambda>e. push_level (fst e) (snd e)) (snapshot_metas ls) (replicate 8 [])) = length ls"
    using push_all_nth(2) [OF bound, of 0] assms by simp
  fix j assume "j < length (fold (\<lambda>e. push_level (fst e) (snd e)) (snapshot_metas ls) (replicate 8 []))"
  then have "j < length (replicate 8 [] :: levels)"
    using push_all_nth(2) [OF bound, of 0] by simp
  from push_all_nth(1) [OF bound this] show
    "fold (\<lambda>e. push_level (fst e) (snd e)) (snapshot_metas ls) (replicate 8 []) ! j = ls ! j"
    using snapshot_metas_level [of 0 j ls] \<open>j < length (replicate 8 [] :: levels)\<close> assms
    by (simp add: snapshot_metas_def)
qed

lemma apply_meta_payloads:
  assumes "\<forall>e\<in>set es. fst e < length ls \<and> short_path (meta_path (snd e)) \<and>
      snd e = file_meta (meta_path (snd e)) (meta_file_number (snd e))" "length ls \<le> 2 ^ 32"
  shows "apply_payloads (map meta_payload es) ls = fold (\<lambda>e. push_level (fst e) (snd e)) es ls"
  using assms
proof (induction es arbitrary: ls)
  case (Cons e es)
  then have "manifest_apply (meta_payload e) ls = Some (push_level (fst e) (snd e) ls)"
    using manifest_apply_payload(1) [of "meta_path (snd e)" "fst e" ls "meta_file_number (snd e)"]
    by (auto simp: meta_payload_def)
  with Cons show ?case by (simp add: push_level_def)
qed simp

definition snapshot_log :: "levels \<Rightarrow> bytes" where
  "snapshot_log ls = concat (map manifest_frame (map meta_payload (snapshot_metas ls)))"

lemma snapshot_payloads_ok:
  assumes "plain_levels ls"
  shows "list_all manifest_ok (map meta_payload (snapshot_metas ls))"
  using assms by (auto simp: list_all_iff plain_levels_def meta_payload_def
      intro!: manifest_ok_payload dest!: snapshot_metas_in)

lemma snapshot_replay:
  assumes "plain_levels ls"
  shows "manifest_replay_loop (snapshot_log ls) (replicate 8 []) = ls"
proof -
  have "manifest_parse (snapshot_log ls) = map meta_payload (snapshot_metas ls)"
    using manifest_log.parse_frames [OF snapshot_payloads_ok [OF assms], of "[]"]
    by (simp add: snapshot_log_def)
  moreover have "apply_payloads (map meta_payload (snapshot_metas ls)) (replicate 8 []) =
      fold (\<lambda>e. push_level (fst e) (snd e)) (snapshot_metas ls) (replicate 8 [])"
    by (rule apply_meta_payloads)
      (use assms in \<open>auto simp: plain_levels_def dest!: snapshot_metas_in\<close>)
  ultimately show ?thesis
    using snapshot_push_all [of ls] assms by (simp add: manifest_replay_parse plain_levels_def)
qed

section \<open>rewriteSnapshot is atomic\<close>

text \<open>
  A file whose synced content replays to \<open>ls\<close>, and a state from which the next \<open>open\<close> finds
  \<open>ls\<close>: MANIFEST has it; or MANIFEST is missing and MANIFEST.new has it; or both are missing and
  MANIFEST.bak has it.
\<close>

definition replays_to :: "os \<Rightarrow> path \<Rightarrow> levels \<Rightarrow> bool" where
  "replays_to os p ls \<longleftrightarrow>
     (\<exists>f. file_of os p = Some f \<and> length (f_data f) \<le> f_synced f \<and>
        manifest_replay_loop (f_data f) (replicate 8 []) = ls)"

definition recoverable :: "os \<Rightarrow> path \<Rightarrow> levels \<Rightarrow> bool" where
  "recoverable os mp ls \<longleftrightarrow>
     replays_to os mp ls \<or>
     file_of os mp = None \<and> replays_to os (mp @ str ''.new'') ls \<or>
     file_of os mp = None \<and> file_of os (mp @ str ''.new'') = None \<and> replays_to os (mp @ str ''.bak'') ls"

lemma replays_to_cong: "file_of os p = file_of os' p \<Longrightarrow> replays_to os p ls = replays_to os' p ls"
  by (simp add: replays_to_def)

lemma manifest_paths [simp]:
  "mp @ str ''.new'' \<noteq> mp" "mp @ str ''.bak'' \<noteq> mp" "mp @ str ''.new'' \<noteq> mp @ str ''.bak''"
  "mp \<noteq> mp @ str ''.new''" "mp \<noteq> mp @ str ''.bak''" "mp @ str ''.bak'' \<noteq> mp @ str ''.new''"
  by (simp_all add: str_def)

lemma str_suffix [simp]:
  "str ''.new'' \<noteq> str ''.bak''" "str ''.bak'' \<noteq> str ''.new''"
  by (simp_all add: str_def)

text \<open>A crash takes nothing away from a synced file and creates none.\<close>

definition intact :: "os \<Rightarrow> path \<Rightarrow> levels \<Rightarrow> bool" where
  "intact os p ls \<longleftrightarrow> (\<exists>f. file_of os p = Some f \<and> manifest_replay_loop (f_data f) (replicate 8 []) = ls)"

definition recovers :: "os \<Rightarrow> path \<Rightarrow> levels \<Rightarrow> bool" where
  "recovers os mp ls \<longleftrightarrow>
     intact os mp ls \<or>
     file_of os mp = None \<and> intact os (mp @ str ''.new'') ls \<or>
     file_of os mp = None \<and> file_of os (mp @ str ''.new'') = None \<and> intact os (mp @ str ''.bak'') ls"

lemma crashed_None: "crashed os os' \<Longrightarrow> file_of os p = None \<Longrightarrow> file_of os' p = None"
  unfolding crashed_def by (drule spec [of _ p]) simp

lemma replays_to_crash:
  assumes "replays_to os p ls" "crashed os os'"
  shows "intact os' p ls"
proof -
  obtain f where f: "file_of os p = Some f" "length (f_data f) \<le> f_synced f"
    "manifest_replay_loop (f_data f) (replicate 8 []) = ls"
    using assms(1) by (auto simp: replays_to_def)
  with assms(2) obtain n g where g: "n \<ge> f_synced f" "file_of os' p = Some g" "f_data g = take n (f_data f)"
    unfolding crashed_def by (auto dest!: spec [of _ p])
  then have "f_data g = f_data f" using f(2) by simp
  with f g show ?thesis by (auto simp: intact_def)
qed

lemma recoverable_crash: "recoverable os mp ls \<Longrightarrow> crashed os os' \<Longrightarrow> recovers os' mp ls"
  unfolding recoverable_def recovers_def using replays_to_crash crashed_None by blast

text \<open>The next \<open>open\<close> finds the levels.\<close>

lemma intact_cong: "file_of os p = file_of os' q \<Longrightarrow> intact os p ls = intact os' q ls"
  by (simp add: intact_def)

lemma sys_unlink_ok: "os_faults os = [] \<Longrightarrow> q \<noteq> p \<Longrightarrow> file_of (fst (sys_unlink os p)) q = file_of os q"
  by (simp add: sys_unlink_def split: option.split)

lemma sys_rename_ok:
  "os_faults os = [] \<Longrightarrow> file_of os a \<noteq> None \<Longrightarrow> a \<noteq> b \<Longrightarrow> file_of (fst (sys_rename os a b)) b = file_of os a"
  by (auto simp: sys_rename_def)

lemma recoverActive_intact:
  assumes "recovers os mp ls" "os_faults os = []"
  shows "intact (recoverActivePathUnlocked os mp) mp ls"
proof (cases "file_of os mp")
  case None
  let ?neu = "mp @ str ''.new''" and ?bak = "mp @ str ''.bak''"
  show ?thesis
  proof (cases "file_of os ?neu")
    case None': None
    then have b: "intact os ?bak ls" using assms None by (auto simp: recovers_def intact_def)
    then have ex: "file_of os ?bak \<noteq> None" by (auto simp: intact_def)
    have "recoverActivePathUnlocked os mp = fst (sys_rename os ?bak mp)"
      using None None' ex by (simp add: recoverActivePathUnlocked_def Let_def sys_exists_def)
    then show ?thesis
      using intact_cong [OF sys_rename_ok [OF assms(2) ex manifest_paths(2)]] b by simp
  next
    case (Some f)
    then have n: "intact os ?neu ls" using assms None by (auto simp: recovers_def intact_def)
    have ex: "file_of os ?neu \<noteq> None" using Some by simp
    have "recoverActivePathUnlocked os mp = fst (sys_rename os ?neu mp)"
      using None Some by (simp add: recoverActivePathUnlocked_def Let_def sys_exists_def)
    then show ?thesis
      using intact_cong [OF sys_rename_ok [OF assms(2) ex manifest_paths(1)]] n by simp
  qed
next
  case (Some f)
  then have "intact os mp ls" using assms by (auto simp: recovers_def)
  moreover have "recoverActivePathUnlocked os mp = fst (sys_unlink os (mp @ str ''.new''))"
    using Some by (simp add: recoverActivePathUnlocked_def sys_exists_def)
  ultimately show ?thesis
    using intact_cong [OF sys_unlink_ok [OF assms(2) manifest_paths(4)]] by simp
qed

lemma recoverActive_faults: "os_faults os = [] \<Longrightarrow> os_faults (recoverActivePathUnlocked os mp) = []"
  by (auto simp: recoverActivePathUnlocked_def sys_unlink_def sys_rename_def Let_def split: option.split)

lemma Manifest_open_recovers:
  assumes "recovers os (mf_path m) ls" "os_faults os = []" "mf_fd m = None"
  shows "\<exists>os' m'. Manifest_open os m = (os', m', Status_Ok) \<and> mf_levels m' = ls \<and>
    mf_fd m' = Some (mf_path m) \<and> mf_path m' = mf_path m \<and> os_faults os' = [] \<and>
    intact os' (mf_path m) ls"
proof -
  let ?mp = "mf_path m"
  let ?d = "fst (sys_mkdir os (dirname ?mp))"
  let ?r = "recoverActivePathUnlocked ?d ?mp"
  have d: "recovers ?d ?mp ls" "os_faults ?d = []"
    using assms by (simp_all add: sys_mkdir_def recovers_def intact_def)
  have r: "intact ?r ?mp ls" "os_faults ?r = []"
    using recoverActive_intact [OF d] recoverActive_faults [OF d(2)] by simp_all
  then obtain f where f: "file_of ?r ?mp = Some f" "manifest_replay_loop (f_data f) (replicate 8 []) = ls"
    by (auto simp: intact_def)
  then have "Manifest_open os m =
      (?r, m\<lparr>mf_fd := Some ?mp, mf_levels := ls\<rparr>, Status_Ok)"
    using assms(3) r(2) by (simp add: Manifest_open_def Let_def sys_open_creat_def Manifest_replay_def content_of_def)
  then show ?thesis using r by simp
qed

text \<open>What \<open>rewriteSnapshot\<close> writes.\<close>

lemma writeRecordToFd_effect:
  assumes "writeRecordToFd os (Some fd) type level p no = (os', s)" "file_of os fd = Some f"
  shows "(\<forall>q. q \<noteq> fd \<longrightarrow> file_of os' q = file_of os q) \<and>
    (\<exists>g. file_of os' fd = Some g \<and>
      (Status_ok s \<longrightarrow> f_data g = f_data f @ manifest_frame (manifest_payload type level p no)))"
proof -
  let ?p = "manifest_payload type level p no"
  let ?hd = "encodeFixed32 (crc32c ?p (size_int ?p)) @ encodeFixed32 (size_u32 ?p)"
  obtain os1 n where w1: "sys_write os fd ?hd = (os1, n)" by fastforce
  obtain k where k: "\<forall>q. file_of os1 q = file_of (append_file os fd (take k ?hd)) q"
    "n = 8 \<longrightarrow> take k ?hd = ?hd"
    using sys_write_prefix [OF w1] by auto
  show ?thesis
  proof (cases "n = 8")
    case True
    obtain os2 j where w2: "sys_write os1 fd ?p = (os2, j)" by fastforce
    obtain l where l: "\<forall>q. file_of os2 q = file_of (append_file os1 fd (take l ?p)) q"
      "j = int (length ?p) \<longrightarrow> take l ?p = ?p"
      using sys_write_prefix [OF w2] by auto
    have "os' = os2" "Status_ok s \<longrightarrow> j = int (length ?p)"
      using assms(1) w1 w2 True by (auto simp: writeRecordToFd_def Let_def split: if_splits)
    then show ?thesis using k l True assms(2) by (auto simp: append_file_of manifest_frame_def)
  next
    case False
    then have "os' = os1" "\<not> Status_ok s"
      using assms(1) w1 by (auto simp: writeRecordToFd_def Let_def split: if_splits)
    then show ?thesis using k assms(2) by (auto simp: append_file_of)
  qed
qed

lemma write_metas_effect:
  assumes "write_metas os nfd es = (os', s)" "file_of os nfd = Some f"
  shows "(\<forall>q. q \<noteq> nfd \<longrightarrow> file_of os' q = file_of os q) \<and>
    (\<exists>g. file_of os' nfd = Some g \<and>
      (Status_ok s \<longrightarrow> f_data g = f_data f @ concat (map manifest_frame (map meta_payload es))))"
  using assms
proof (induction es arbitrary: os f)
  case (Cons e es)
  obtain os1 s1 where w: "writeRecordToFd os (Some nfd) kAdd (fst e) (meta_path (snd e))
      (meta_file_number (snd e)) = (os1, s1)" by fastforce
  note eff = writeRecordToFd_effect [OF w Cons.prems(2)]
  then obtain g where g: "file_of os1 nfd = Some g"
    "Status_ok s1 \<longrightarrow> f_data g = f_data f @ manifest_frame (meta_payload e)"
    by (auto simp: meta_payload_def)
  show ?case
  proof (cases "Status_ok s1")
    case True
    then have "write_metas os1 nfd es = (os', s)" using Cons.prems(1) w by (cases e) simp
    from Cons.IH [OF this g(1)] eff g True show ?thesis by simp
  next
    case False
    then have "os' = os1" "s = s1" using Cons.prems(1) w by (cases e; simp)+
    with eff g False show ?thesis by auto
  qed
qed simp

lemma recoverable_active: "replays_to os mp ls \<Longrightarrow> recoverable os mp ls"
  by (simp add: recoverable_def)

text \<open>The publication step: archive the old log, promote the new one, roll back on failure.\<close>

lemma publish_recoverable:
  assumes mp: "replays_to os mp ls" and neu: "replays_to os (mp @ str ''.new'') ls"
    and os1: "os1 = fst (sys_unlink os (mp @ str ''.bak''))"
    and os2: "os2 = fst (sys_rename os1 mp (mp @ str ''.bak''))"
    and promote: "sys_rename os2 (mp @ str ''.new'') mp = (os3, promoted)"
    and safe: "file_of os (mp @ str ''.bak'') = None \<or> crash_script (os_faults os)"
  shows "promoted \<Longrightarrow> replays_to os3 mp ls"
    and "\<not> promoted \<Longrightarrow> recoverable (fst (sys_rename os3 (mp @ str ''.bak'') mp)) mp ls"
proof -
  let ?neu = "mp @ str ''.new''" and ?bak = "mp @ str ''.bak''"
  have f1: "file_of os1 q = file_of os q" if "q \<noteq> ?bak" for q
    unfolding os1 by (rule sys_unlink_effect [OF that])
  obtain r2 where r2: "sys_rename os1 mp ?bak = (os2, r2)" using os2 by (metis prod.collapse)
  note e2 = sys_rename_effect [OF r2 manifest_paths(5)]
  note e3 = sys_rename_effect [OF promote manifest_paths(1)]
  have neu2: "file_of os2 ?neu = file_of os ?neu"
    using e2 f1 [OF manifest_paths(3)] manifest_paths(1,3) [of mp] by (metis (full_types))
  show "replays_to os3 mp ls" if promoted
    using e3 that neu2 neu replays_to_cong by (simp add: replays_to_def)
  assume np: "\<not> promoted"
  then have f3: "file_of os3 q = file_of os2 q" for q using e3 by simp
  obtain os4 r4 where r4: "sys_rename os3 ?bak mp = (os4, r4)" by fastforce
  note e4 = sys_rename_effect [OF r4 manifest_paths(2)]
  have neu4: "replays_to os4 ?neu ls"
    using e4 f3 [of ?neu] neu2 neu manifest_paths(1,3) [of mp] replays_to_cong [of os4 ?neu os ls]
    by (metis (full_types))
  have "replays_to os4 mp ls \<or> file_of os4 mp = None"
  proof (cases r2)
    case True
    then have "file_of os2 ?bak = file_of os mp" "file_of os2 mp = None" using e2 f1 [of mp] by simp_all
    then show ?thesis using e4 f3 mp by (cases r4) (simp_all add: replays_to_def)
  next
    case False
    then have m2: "file_of os2 mp = file_of os mp" using e2 f1 [of mp] by simp
    show ?thesis
    proof (cases r4)
      case True
      with e4 f3 e2 False have bak1: "file_of os1 ?bak \<noteq> None" by simp
      then have "os_faults os1 = [fHalt]"
        using safe sys_unlink_halted [of os ?bak] sys_unlink_effect_same [of os ?bak] by (auto simp: os1)
      then have "os2 = os1" "os3 = os1" "\<not> r4"
        using os2 promote r4 by (simp_all add: sys_rename_halted)
      with True show ?thesis by simp
    qed (use e4 f3 m2 mp in \<open>simp add: replays_to_def\<close>)
  qed
  with neu4 show "recoverable (fst (sys_rename os3 ?bak mp)) mp ls"
    by (auto simp: recoverable_def r4)
qed

lemma write_metas_script: "crash_script (os_faults os) \<Longrightarrow> crash_script (os_faults (fst (write_metas os nfd es)))"
proof (induction es arbitrary: os)
  case (Cons e es)
  obtain os1 s1 where w: "writeRecordToFd os (Some nfd) kAdd (fst e) (meta_path (snd e))
      (meta_file_number (snd e)) = (os1, s1)" by fastforce
  have "crash_script (os_faults (fst (sys_write os p d)))" "crash_script (os_faults (fst (sys_write (fst (sys_write os p d)) q d')))"
    for p d q d' by (simp_all add: Cons.prems crash_script_snd)
  then have "crash_script (os_faults os1)"
    using w by (auto simp: writeRecordToFd_def Let_def case_prod_unfold split: if_splits)
  with Cons.IH show ?case using w by (cases e) simp
qed simp

text \<open>
  Starting from a MANIFEST that replays to the levels in memory, every run of
  \<open>rewriteSnapshot\<close> that starts without a stale MANIFEST.bak, and every run that a crash ends
  at some call, leaves a state from which the levels can be recovered.
\<close>

theorem rewriteSnapshot_recoverable:
  assumes mp: "replays_to os (mf_path m) (mf_levels m)" and plain: "plain_levels (mf_levels m)"
    and safe: "file_of os (mf_path m @ str ''.bak'') = None \<or> crash_script (os_faults os)"
    and run: "Manifest_rewriteSnapshot os m = (os', m', s)"
  shows "recoverable os' (mf_path m) (mf_levels m)"
proof -
  let ?mp = "mf_path m" and ?ls = "mf_levels m"
  let ?neu = "?mp @ str ''.new''" and ?bak = "?mp @ str ''.bak''"
  obtain osa r where a: "sys_open_trunc os ?neu = (osa, r)" by fastforce
  note ea = sys_open_trunc_effect [OF a]
  show ?thesis
  proof (cases r)
    case None
    then have "os' = osa" using run a by (simp add: Manifest_rewriteSnapshot_def Let_def)
    with ea None mp show ?thesis by (auto intro: recoverable_active simp: replays_to_def)
  next
    case (Some nfd)
    with ea have nfd: "nfd = ?neu" "file_of osa ?neu = Some new_file"
      "\<And>q. q \<noteq> ?neu \<Longrightarrow> file_of osa q = file_of os q" by auto
    obtain osb sb where b: "write_metas osa ?neu (snapshot_metas ?ls) = (osb, sb)" by fastforce
    note eb = write_metas_effect [OF b nfd(2)]
    then obtain g where g: "file_of osb ?neu = Some g" "Status_ok sb \<longrightarrow> f_data g = snapshot_log ?ls"
      by (auto simp: new_file_def snapshot_log_def)
    obtain osc synced where c: "sys_fdatasync osb ?neu = (osc, synced)" by fastforce
    note ec = sys_fdatasync_effect [OF c g(1)]
    have fb: "file_of osb q = file_of os q" "file_of osc q = file_of os q" if "q \<noteq> ?neu" for q
      using that eb ec nfd(3) by auto
    have keep: "recoverable (fst (sys_unlink osx ?neu)) ?mp ?ls" if "file_of osx ?mp = file_of os ?mp" for osx
      using that sys_unlink_effect [OF manifest_paths(4), of osx ?mp] mp
      by (auto intro!: recoverable_active simp: replays_to_def)
    show ?thesis
    proof (cases "Status_ok sb \<and> synced")
      case False
      then have "os' = fst (sys_unlink osb ?neu) \<or> os' = fst (sys_unlink osc ?neu)"
        using run a Some nfd(1) b c by (auto simp: Manifest_rewriteSnapshot_def Let_def split: if_splits)
      with keep fb [OF manifest_paths(4)] show ?thesis by auto
    next
      case True
      have "file_of osc ?neu = Some (g\<lparr>f_synced := length (f_data g)\<rparr>)" using ec True by simp
      then have neu: "replays_to osc ?neu ?ls"
        using g(2) True snapshot_replay [OF plain] by (simp add: replays_to_def)
      have mpc: "replays_to osc ?mp ?ls" using mp replays_to_cong fb(2) [OF manifest_paths(4)] by metis
      have "crash_script (os_faults osc)" if "crash_script (os_faults os)"
      proof -
        have "crash_script (os_faults osa)" using crash_script_snd [OF that] sys_faults(2) [of os ?neu] a by simp
        then have "crash_script (os_faults osb)" using write_metas_script [of osa ?neu] b by (metis fst_conv)
        then show ?thesis using crash_script_snd [of osb] sys_faults(4) [of osb ?neu] c by simp
      qed
      then have safec: "file_of osc ?bak = None \<or> crash_script (os_faults osc)"
        using safe fb(2) [OF manifest_paths(6)] by auto
      define osd where "osd = fst (sys_rename (fst (sys_unlink osc ?bak)) ?mp ?bak)"
      obtain ose promoted where e: "sys_rename osd ?neu ?mp = (ose, promoted)" by fastforce
      note pub = publish_recoverable [OF mpc neu refl osd_def e safec]
      show ?thesis
      proof (cases promoted)
        case False
        then have "os' = fst (sys_rename ose ?bak ?mp)"
          using run a Some nfd(1) b c True e by (simp add: Manifest_rewriteSnapshot_def Let_def osd_def)
        with pub(2) False show ?thesis by simp
      next
        case pr: True
        then have "os' = fst (sys_open_creat ose ?mp)"
          using run a Some nfd(1) b c True e
          by (auto simp: Manifest_rewriteSnapshot_def Let_def osd_def split: prod.splits option.splits)
        moreover have "file_of ose ?mp \<noteq> None" using pub(1) [OF pr] by (auto simp: replays_to_def)
        ultimately show ?thesis
          using pub(1) [OF pr] sys_open_creat_effect [of ose ?mp ?mp]
          by (auto intro!: recoverable_active simp: replays_to_def)
      qed
    qed
  qed
qed

section \<open>The log agrees with the levels in memory\<close>

fun apply_all :: "bytes list \<Rightarrow> levels \<Rightarrow> levels option" where
  "apply_all [] ls = Some ls"
| "apply_all (p # ps) ls = (case manifest_apply p ls of None \<Rightarrow> None | Some ls \<Rightarrow> apply_all ps ls)"

lemma apply_all_payloads: "apply_all ps ls = Some ls' \<Longrightarrow> apply_payloads ps ls = ls'"
  by (induction ps arbitrary: ls) (auto split: option.splits)

lemma apply_all_append: "apply_all (ps @ qs) ls = (case apply_all ps ls of None \<Rightarrow> None | Some ls \<Rightarrow> apply_all qs ls)"
  by (induction ps arbitrary: ls) (auto split: option.split)

definition manifest_inv :: "os \<Rightarrow> Manifest \<Rightarrow> bool" where
  "manifest_inv os m \<longleftrightarrow>
     mf_fd m = Some (mf_path m) \<and>
     (\<exists>f ps. file_of os (mf_path m) = Some f \<and> f_data f = concat (map manifest_frame ps) \<and>
        list_all manifest_ok ps \<and> apply_all ps (replicate 8 []) = Some (mf_levels m))"

lemma manifest_inv_intact: "manifest_inv os m \<Longrightarrow> intact os (mf_path m) (mf_levels m)"
  using manifest_log.parse_frames [of _ "[]"]
  by (auto simp: manifest_inv_def intact_def manifest_replay_parse apply_all_payloads)

lemma record_appends:
  assumes inv: "manifest_inv os m" and faults: "os_faults os = []"
    and ok: "manifest_ok (manifest_payload type level p no)"
    and app: "manifest_apply (manifest_payload type level p no) (mf_levels m) = Some ls"
  shows "\<exists>os'. Manifest_writeRecord os (m\<lparr>mf_levels := ls\<rparr>) type level p no = (os', Status_Ok) \<and>
    manifest_inv os' (m\<lparr>mf_levels := ls\<rparr>) \<and> os_faults os' = [] \<and>
    (\<forall>q. q \<noteq> mf_path m \<longrightarrow> file_of os' q = file_of os q)"
proof -
  let ?p = "manifest_payload type level p no"
  obtain f ps where f: "file_of os (mf_path m) = Some f" "f_data f = concat (map manifest_frame ps)"
    "list_all manifest_ok ps" "apply_all ps (replicate 8 []) = Some (mf_levels m)" "mf_fd m = Some (mf_path m)"
    using inv by (auto simp: manifest_inv_def)
  let ?os' = "append_file os (mf_path m) (manifest_frame ?p)"
  have "Manifest_writeRecord os (m\<lparr>mf_levels := ls\<rparr>) type level p no = (?os', Status_Ok)"
    using f(5) faults by (simp add: Manifest_writeRecord_def writeRecordToFd_def Let_def append_file_append
        manifest_frame_def)
  moreover have "file_of ?os' (mf_path m) = Some (f\<lparr>f_data := concat (map manifest_frame (ps @ [?p]))\<rparr>)"
    using f by (simp add: append_file_of)
  moreover have "apply_all (ps @ [?p]) (replicate 8 []) = Some ls"
    using f app by (simp add: apply_all_append)
  ultimately show ?thesis
    using f ok faults by (auto simp: manifest_inv_def append_file_of intro!: exI [of _ "ps @ [?p]"])
qed

lemma Manifest_sync_ok:
  assumes "manifest_inv os m" "os_faults os = []"
  shows "\<exists>os'. Manifest_sync os m = (os', Status_Ok) \<and> manifest_inv os' m \<and> os_faults os' = [] \<and>
    replays_to os' (mf_path m) (mf_levels m) \<and> (\<forall>q. q \<noteq> mf_path m \<longrightarrow> file_of os' q = file_of os q)"
proof -
  obtain f ps where f: "file_of os (mf_path m) = Some f" "f_data f = concat (map manifest_frame ps)"
    "list_all manifest_ok ps" "apply_all ps (replicate 8 []) = Some (mf_levels m)" "mf_fd m = Some (mf_path m)"
    using assms(1) by (auto simp: manifest_inv_def)
  let ?os' = "set_file os (mf_path m) (f\<lparr>f_synced := length (f_data f)\<rparr>)"
  have "Manifest_sync os m = (?os', Status_Ok)"
    using f assms(2) by (simp add: Manifest_sync_def sys_fdatasync_def)
  moreover have inv: "manifest_inv ?os' m" using f by (auto simp: manifest_inv_def)
  moreover have "replays_to ?os' (mf_path m) (mf_levels m)"
    using manifest_inv_intact [OF inv] by (simp add: replays_to_def intact_def)
  ultimately show ?thesis using assms(2) by auto
qed

end
