(* ===== verification/Version.thy ===== *)
theory Version
  imports Manifest
begin

text \<open>
  \<open>minikv/src/core/version.{h,cpp}\<close>: the table files of every level, the file number counter and
  the MANIFEST that records every change. The \<open>Manifest*\<close> the class points to is a field of
  the state. The lemmas show that the counter stays above every live file number and that the
  MANIFEST always replays to the levels in memory.
\<close>

section \<open>Definitions\<close>

record Version =
  v_levels :: levels
  v_next_file_number :: u64
  v_manifest :: "Manifest option"

definition Version_new :: Version where
  "Version_new = \<lparr>v_levels = replicate 7 [], v_next_file_number = 1, v_manifest = None\<rparr>"

definition Version_setManifest :: "Version \<Rightarrow> Manifest \<Rightarrow> Version" where
  "Version_setManifest v m = v\<lparr>v_manifest := Some m\<rparr>"

definition max_file_number :: "levels \<Rightarrow> u64" where
  "max_file_number ls = fold (\<lambda>m no. if meta_file_number m > no then meta_file_number m else no) (concat ls) 0"

definition Version_restoreFrom :: "Version \<Rightarrow> levels \<Rightarrow> Version" where
  "Version_restoreFrom v snapshot =
     (let ls = (if length snapshot < 7 then grow_levels 7 snapshot else snapshot);
          max_no = max_file_number ls;
          cur = v_next_file_number v
      in v\<lparr>v_levels := ls, v_next_file_number := (if max_no \<ge> cur then max_no + 1 else cur)\<rparr>)"

definition Version_getLevelMetas :: "Version \<Rightarrow> int \<Rightarrow> SSTableMeta list" where
  "Version_getLevelMetas v level =
     (if level < 0 \<or> level \<ge> int (length (v_levels v)) then [] else v_levels v ! nat level)"

definition Version_getLevelFiles :: "Version \<Rightarrow> int \<Rightarrow> path list" where
  "Version_getLevelFiles v level =
     (if level < 0 \<or> level \<ge> int (length (v_levels v)) then [] else map meta_path (v_levels v ! nat level))"

text \<open>The part behind the last \<open>'/'\<close>, the part before the first \<open>'.'\<close> and its decimal value.\<close>

definition basename :: "path \<Rightarrow> path" where
  "basename p = rev (takeWhile (\<lambda>c. c \<noteq> 47) (rev p))"

definition is_digit :: "byte \<Rightarrow> bool" where
  "is_digit c \<longleftrightarrow> 48 \<le> c \<and> c \<le> 57"

definition number_of_path :: "path \<Rightarrow> u64 option" where
  "number_of_path p =
     (let base = basename p; stem = takeWhile (\<lambda>c. c \<noteq> 46) base
      in if length stem < length base \<and> stem \<noteq> [] \<and> list_all is_digit stem
         then Some (foldl (\<lambda>no c. no * 10 + ucast (c - 48)) 0 stem)
         else None)"

definition Version_addLevelFile :: "os \<Rightarrow> Version \<Rightarrow> int \<Rightarrow> path \<Rightarrow> os \<times> Version" where
  "Version_addLevelFile os v level p =
     (if level < 0 then (os, v)
      else
        let i = nat level;
            ls = v_levels v;
            ls = (if i \<ge> length ls then grow_levels (i + 1) ls else ls);
            cur = v_next_file_number v;
            (file_no, next_no) =
              (case number_of_path p of
                 Some no \<Rightarrow> (no, if no + 1 > cur then no + 1 else cur)
               | None \<Rightarrow> (cur, cur + 1));
            v = v\<lparr>v_levels := push_level i (file_meta p file_no) ls, v_next_file_number := next_no\<rparr>
        in case v_manifest v of
             None \<Rightarrow> (os, v)
           | Some m \<Rightarrow>
               (case Manifest_recordAddFile os m i p file_no of (os, m, _) \<Rightarrow>
                  (fst (Manifest_sync os m), v\<lparr>v_manifest := Some m\<rparr>)))"

text \<open>\<open>std::remove_if\<close> with the predicate of \<open>removeLevelFiles\<close>, which records each removal.\<close>

fun remove_files :: "os \<Rightarrow> Manifest option \<Rightarrow> nat \<Rightarrow> path list \<Rightarrow> SSTableMeta list
    \<Rightarrow> os \<times> Manifest option \<times> SSTableMeta list" where
  "remove_files os mo level paths [] = (os, mo, [])"
| "remove_files os mo level paths (meta # ms) =
     (if meta_path meta \<in> set paths then
        (case mo of
           None \<Rightarrow> remove_files os mo level paths ms
         | Some m \<Rightarrow>
             (case Manifest_recordRemoveFile os m level (meta_path meta) (meta_file_number meta) of
                (os, m, _) \<Rightarrow> remove_files os (Some m) level paths ms))
      else
        (case remove_files os mo level paths ms of (os, mo, kept) \<Rightarrow> (os, mo, meta # kept)))"

definition Version_removeLevelFiles :: "os \<Rightarrow> Version \<Rightarrow> int \<Rightarrow> path list \<Rightarrow> os \<times> Version" where
  "Version_removeLevelFiles os v level paths =
     (if level < 0 \<or> level \<ge> int (length (v_levels v)) then (os, v)
      else
        let i = nat level in
        case remove_files os (v_manifest v) i paths (v_levels v ! i) of (os, mo, kept) \<Rightarrow>
          let v = v\<lparr>v_levels := (v_levels v)[i := kept], v_manifest := mo\<rparr>
          in case mo of None \<Rightarrow> (os, v) | Some m \<Rightarrow> (fst (Manifest_sync os m), v))"

definition Version_shouldCompactL0 :: "Version \<Rightarrow> nat \<Rightarrow> bool" where
  "Version_shouldCompactL0 v trigger \<longleftrightarrow> v_levels v \<noteq> [] \<and> length (v_levels v ! 0) \<ge> trigger"

definition Version_shouldCompactLevel :: "Version \<Rightarrow> int \<Rightarrow> nat \<Rightarrow> bool" where
  "Version_shouldCompactLevel v level file_trigger \<longleftrightarrow>
     (if level < 0 \<or> level \<ge> int (length (v_levels v)) then False
      else length (v_levels v ! nat level) \<ge> file_trigger)"

definition Version_levelSize :: "Version \<Rightarrow> int \<Rightarrow> nat" where
  "Version_levelSize v level =
     (if level < 0 \<or> level \<ge> int (length (v_levels v)) then 0 else length (v_levels v ! nat level))"

definition Version_nextFileNumber :: "Version \<Rightarrow> u64 \<times> Version" where
  "Version_nextFileNumber v =
     (v_next_file_number v, v\<lparr>v_next_file_number := v_next_file_number v + 1\<rparr>)"

definition Version_ensureNextFileNumberAtLeast :: "Version \<Rightarrow> u64 \<Rightarrow> Version" where
  "Version_ensureNextFileNumberAtLeast v min_next =
     (if v_next_file_number v < min_next then v\<lparr>v_next_file_number := min_next\<rparr> else v)"

section \<open>File numbers are fresh\<close>

definition numbers_below :: "Version \<Rightarrow> bool" where
  "numbers_below v \<longleftrightarrow> (\<forall>ms\<in>set (v_levels v). \<forall>m\<in>set ms. meta_file_number m < v_next_file_number v)"

lemma fold_max_number:
  fixes no :: u64
  defines "f \<equiv> (\<lambda>m no. if meta_file_number m > no then meta_file_number m else no)"
  shows "no \<le> fold f ms no \<and> (\<forall>m\<in>set ms. meta_file_number m \<le> fold f ms no)"
proof (induction ms arbitrary: no)
  case (Cons m ms)
  show ?case
  proof (cases "meta_file_number m > no")
    case True
    with Cons [of "meta_file_number m"] show ?thesis by (auto simp: f_def)
  next
    case False
    with Cons [of no] show ?thesis by (auto simp: f_def)
  qed
qed simp

lemma u64_less_succ: "(a :: u64) < - 1 \<Longrightarrow> a < a + 1"
  by (simp add: word_less_nat_alt unat_word_ariths unsigned_minus_1_eq_mask mask_eq_exp_minus_1)

lemma restoreFrom_numbers_below:
  assumes "max_file_number ls < - 1"
  shows "numbers_below (Version_restoreFrom v ls)"
proof -
  let ?ls = "if length ls < 7 then grow_levels 7 ls else ls"
  have mx: "max_file_number ?ls = max_file_number ls"
    by (simp add: max_file_number_def grow_levels_def)
  have succ: "max_file_number ls < max_file_number ls + 1"
    using assms by (rule u64_less_succ)
  have "meta_file_number m < v_next_file_number (Version_restoreFrom v ls)"
    if "ms \<in> set ?ls" "m \<in> set ms" for ms m
  proof -
    have "meta_file_number m \<le> max_file_number ?ls"
      unfolding max_file_number_def by (rule fold_max_number [THEN conjunct2, rule_format]) (use that in auto)
    then show ?thesis
      using succ by (auto simp: Version_restoreFrom_def Let_def mx not_le intro: le_less_trans)
  qed
  then show ?thesis by (simp add: numbers_below_def Version_restoreFrom_def Let_def)
qed

text \<open>The number a file is registered under, and the counter after that.\<close>

definition assigned_number :: "Version \<Rightarrow> path \<Rightarrow> u64" where
  "assigned_number v p = (case number_of_path p of Some no \<Rightarrow> no | None \<Rightarrow> v_next_file_number v)"

lemma addLevelFile_fields:
  assumes "level \<ge> 0" "nat level < length (v_levels v)"
  shows "v_levels (snd (Version_addLevelFile os v level p)) =
      push_level (nat level) (file_meta p (assigned_number v p)) (v_levels v)"
    and "v_next_file_number (snd (Version_addLevelFile os v level p)) =
      (case number_of_path p of Some no \<Rightarrow> max (no + 1) (v_next_file_number v)
       | None \<Rightarrow> v_next_file_number v + 1)"
  using assms
  by (auto simp: Version_addLevelFile_def Let_def assigned_number_def max_def
      split: option.split prod.split)

lemma addLevelFile_numbers_below:
  assumes below: "numbers_below v" and level: "0 \<le> level" "nat level < length (v_levels v)"
    and "assigned_number v p < - 1"
  shows "numbers_below (snd (Version_addLevelFile os v level p))"
proof -
  have succ: "assigned_number v p < assigned_number v p + 1"
    using assms(4) by (rule u64_less_succ)
  let ?next = "v_next_file_number (snd (Version_addLevelFile os v level p))"
  have "v_next_file_number v \<le> ?next" "assigned_number v p < ?next"
    using succ by (auto simp: addLevelFile_fields [OF level] assigned_number_def less_max_iff_disj split: option.splits)
  moreover have "\<forall>m\<in>set (v_levels v ! nat level). meta_file_number m < v_next_file_number v"
    using below level by (auto simp: numbers_below_def)
  ultimately show ?thesis
    using below level
    by (auto simp: numbers_below_def addLevelFile_fields(1) push_level_def file_meta_def
        dest!: set_update_subset_insert [THEN subsetD] intro: less_le_trans)
qed

section \<open>Levels and MANIFEST\<close>

definition version_inv :: "os \<Rightarrow> Version \<Rightarrow> bool" where
  "version_inv os v \<longleftrightarrow>
     (\<exists>m. v_manifest v = Some m \<and> mf_levels m = v_levels v \<and> length (v_levels v) = 8 \<and> manifest_inv os m \<and>
        replays_to os (mf_path m) (mf_levels m))"

definition version_manifest_path :: "Version \<Rightarrow> path" where
  "version_manifest_path v = (case v_manifest v of None \<Rightarrow> [] | Some m \<Rightarrow> mf_path m)"

lemma recordAddFile_inv:
  assumes "manifest_inv os m" "os_faults os = []" "short_path p" "i < length (mf_levels m)" "i < 2 ^ 32"
  shows "\<exists>os'. Manifest_recordAddFile os m i p no =
      (os', m\<lparr>mf_levels := push_level i (file_meta p no) (mf_levels m)\<rparr>, Status_Ok) \<and>
    manifest_inv os' (m\<lparr>mf_levels := push_level i (file_meta p no) (mf_levels m)\<rparr>) \<and> os_faults os' = [] \<and>
    (\<forall>q. q \<noteq> mf_path m \<longrightarrow> file_of os' q = file_of os q)"
  using record_appends [OF assms(1,2) manifest_ok_payload [OF assms(3)]
      manifest_apply_payload(1) [OF assms(3,4,5), of no]] assms(4)
  by (auto simp: Manifest_recordAddFile_def Let_def)

lemma recordRemoveFile_inv:
  assumes "manifest_inv os m" "os_faults os = []" "short_path p" "i < length (mf_levels m)" "i < 2 ^ 32"
  shows "\<exists>os'. Manifest_recordRemoveFile os m i p no =
      (os', m\<lparr>mf_levels := erase_level i p (mf_levels m)\<rparr>, Status_Ok) \<and>
    manifest_inv os' (m\<lparr>mf_levels := erase_level i p (mf_levels m)\<rparr>) \<and> os_faults os' = [] \<and>
    (\<forall>q. q \<noteq> mf_path m \<longrightarrow> file_of os' q = file_of os q)"
  using record_appends [OF assms(1,2) manifest_ok_payload [OF assms(3)]
      manifest_apply_payload(2) [OF assms(3,4,5), of no]] assms(4)
  by (auto simp: Manifest_recordRemoveFile_def Let_def)

lemma addLevelFile_inv:
  assumes inv: "version_inv os v" and faults: "os_faults os = []" and p: "short_path p"
    and level: "0 \<le> level" "level < 8"
  shows "version_inv (fst (Version_addLevelFile os v level p)) (snd (Version_addLevelFile os v level p)) \<and>
    os_faults (fst (Version_addLevelFile os v level p)) = [] \<and>
    version_manifest_path (snd (Version_addLevelFile os v level p)) = version_manifest_path v \<and>
    (\<forall>q. q \<noteq> version_manifest_path v \<longrightarrow>
       file_of (fst (Version_addLevelFile os v level p)) q = file_of os q)"
proof -
  obtain m where m: "v_manifest v = Some m" "mf_levels m = v_levels v" "length (v_levels v) = 8" "manifest_inv os m"
    using inv by (auto simp: version_inv_def)
  define no where "no = assigned_number v p"
  let ?m = "m\<lparr>mf_levels := push_level (nat level) (file_meta p no) (mf_levels m)\<rparr>"
  have i: "nat level < length (mf_levels m)" "nat level < 2 ^ 32" using m level by auto
  obtain os1 where os1: "Manifest_recordAddFile os m (nat level) p no = (os1, ?m, Status_Ok)"
    "manifest_inv os1 ?m" "os_faults os1 = []" "\<forall>q. q \<noteq> mf_path m \<longrightarrow> file_of os1 q = file_of os q"
    using recordAddFile_inv [OF m(4) faults p i] by blast
  obtain os2 where os2: "Manifest_sync os1 ?m = (os2, Status_Ok)" "manifest_inv os2 ?m" "os_faults os2 = []"
    "replays_to os2 (mf_path m) (mf_levels ?m)" "\<forall>q. q \<noteq> mf_path m \<longrightarrow> file_of os2 q = file_of os1 q"
    using Manifest_sync_ok [OF os1(2,3)] by auto
  have v': "fst (Version_addLevelFile os v level p) = os2"
    "v_manifest (snd (Version_addLevelFile os v level p)) = Some ?m"
    using os1(1) os2(1) level m i
    by (auto simp: Version_addLevelFile_def Let_def no_def assigned_number_def split: option.split)
  moreover have "v_levels (snd (Version_addLevelFile os v level p)) = mf_levels ?m"
    using addLevelFile_fields(1) [of level v os p] level m by (simp add: no_def)
  moreover have "length (mf_levels ?m) = 8" using m by (simp add: push_level_def)
  ultimately show ?thesis
    using os2 os1 m by (auto simp: version_inv_def version_manifest_path_def)
qed

text \<open>Recording the removals one by one erases them from the level of the MANIFEST as well.\<close>

lemma erase_level_absent: "\<forall>m\<in>set (ls ! i). meta_path m \<noteq> p \<Longrightarrow> erase_level i p ls = ls"
  by (simp add: erase_level_def filter_id_conv)

lemma remove_files_inv:
  assumes "manifest_inv os m" "os_faults os = []" "\<forall>meta\<in>set ms. short_path (meta_path meta)"
    "i < length (mf_levels m)" "i < 2 ^ 32"
  shows "\<exists>os' m'. remove_files os (Some m) i paths ms =
      (os', Some m', filter (\<lambda>x. meta_path x \<notin> set paths) ms) \<and>
    manifest_inv os' m' \<and> os_faults os' = [] \<and> mf_path m' = mf_path m \<and>
    mf_levels m' = (mf_levels m)[i := filter (\<lambda>x. meta_path x \<notin> set paths \<inter> meta_path ` set ms) (mf_levels m ! i)] \<and>
    (\<forall>q. q \<noteq> mf_path m \<longrightarrow> file_of os' q = file_of os q)"
  using assms
proof (induction ms arbitrary: os m)
  case (Cons meta ms)
  show ?case
  proof (cases "meta_path meta \<in> set paths")
    case True
    let ?p = "meta_path meta"
    let ?m = "m\<lparr>mf_levels := erase_level i ?p (mf_levels m)\<rparr>"
    obtain os1 where os1: "Manifest_recordRemoveFile os m i ?p (meta_file_number meta) = (os1, ?m, Status_Ok)"
      "manifest_inv os1 ?m" "os_faults os1 = []" "\<forall>q. q \<noteq> mf_path m \<longrightarrow> file_of os1 q = file_of os q"
      using recordRemoveFile_inv [OF Cons.prems(1,2) _ Cons.prems(4,5), of ?p "meta_file_number meta"] Cons.prems(3) by auto
    have len: "i < length (mf_levels ?m)" using Cons.prems(4) by (simp add: erase_level_def)
    obtain os' m' where r: "remove_files os1 (Some ?m) i paths ms =
        (os', Some m', filter (\<lambda>x. meta_path x \<notin> set paths) ms)"
      "manifest_inv os' m'" "os_faults os' = []" "mf_path m' = mf_path m"
      "mf_levels m' = (mf_levels ?m)[i := filter (\<lambda>x. meta_path x \<notin> set paths \<inter> meta_path ` set ms) (mf_levels ?m ! i)]"
      "\<forall>q. q \<noteq> mf_path m \<longrightarrow> file_of os' q = file_of os1 q"
      using Cons.IH [OF os1(2,3) _ len Cons.prems(5)] Cons.prems(3) by auto
    have "mf_levels m' = (mf_levels m)[i := filter (\<lambda>x. meta_path x \<notin> set paths \<inter> meta_path ` set (meta # ms)) (mf_levels m ! i)]"
    proof -
      have "filter (\<lambda>x. meta_path x \<notin> set paths \<inter> meta_path ` set ms) (filter (\<lambda>x. meta_path x \<noteq> ?p) l) =
          filter (\<lambda>x. meta_path x \<notin> set paths \<inter> meta_path ` set (meta # ms)) l" for l
        using True unfolding filter_filter by (intro filter_cong) auto
      from this [of "mf_levels m ! i"] show ?thesis
        using Cons.prems(4) unfolding r(5) by (simp add: erase_level_def)
    qed
    with r os1 True show ?thesis by auto
  next
    case False
    then have "set paths \<inter> meta_path ` set (meta # ms) = set paths \<inter> meta_path ` set ms" by auto
    with Cons.IH [OF Cons.prems(1,2) _ Cons.prems(4,5)] Cons.prems(3) False show ?thesis by force
  qed
qed auto

lemma removeLevelFiles_inv:
  assumes inv: "version_inv os v" and faults: "os_faults os = []" and level: "0 \<le> level" "level < 8"
    and short: "\<forall>meta\<in>set (v_levels v ! nat level). short_path (meta_path meta)"
  shows "version_inv (fst (Version_removeLevelFiles os v level paths)) (snd (Version_removeLevelFiles os v level paths)) \<and>
    os_faults (fst (Version_removeLevelFiles os v level paths)) = [] \<and>
    v_levels (snd (Version_removeLevelFiles os v level paths)) =
      (v_levels v)[nat level := filter (\<lambda>meta. meta_path meta \<notin> set paths) (v_levels v ! nat level)] \<and>
    version_manifest_path (snd (Version_removeLevelFiles os v level paths)) = version_manifest_path v \<and>
    (\<forall>q. q \<noteq> version_manifest_path v \<longrightarrow>
       file_of (fst (Version_removeLevelFiles os v level paths)) q = file_of os q)"
proof -
  obtain m where m: "v_manifest v = Some m" "mf_levels m = v_levels v" "length (v_levels v) = 8" "manifest_inv os m"
    using inv by (auto simp: version_inv_def)
  let ?i = "nat level" let ?ms = "v_levels v ! ?i"
  have i: "?i < length (mf_levels m)" "?i < 2 ^ 32" using m level by auto
  obtain os1 m1 where r: "remove_files os (Some m) ?i paths ?ms =
      (os1, Some m1, filter (\<lambda>meta. meta_path meta \<notin> set paths) ?ms)"
    "manifest_inv os1 m1" "os_faults os1 = []" "mf_path m1 = mf_path m"
    "mf_levels m1 = (mf_levels m)[?i := filter (\<lambda>meta. meta_path meta \<notin> set paths \<inter> meta_path ` set ?ms) (mf_levels m ! ?i)]"
    "\<forall>q. q \<noteq> mf_path m \<longrightarrow> file_of os1 q = file_of os q"
    using remove_files_inv [OF m(4) faults short i] by blast
  have lv: "mf_levels m1 = (v_levels v)[?i := filter (\<lambda>meta. meta_path meta \<notin> set paths) ?ms]"
    by (auto simp: r(5) m(2) intro!: arg_cong [where f = "list_update _ _"] filter_cong)
  obtain os2 where os2: "Manifest_sync os1 m1 = (os2, Status_Ok)" "manifest_inv os2 m1" "os_faults os2 = []"
    "replays_to os2 (mf_path m1) (mf_levels m1)" "\<forall>q. q \<noteq> mf_path m1 \<longrightarrow> file_of os2 q = file_of os1 q"
    using Manifest_sync_ok [OF r(2,3)] by auto
  have "Version_removeLevelFiles os v level paths =
      (os2, v\<lparr>v_levels := (v_levels v)[?i := filter (\<lambda>meta. meta_path meta \<notin> set paths) ?ms], v_manifest := Some m1\<rparr>)"
    using r(1) os2(1) level m by (simp add: Version_removeLevelFiles_def Let_def)
  with os2 r m lv show ?thesis by (simp add: version_inv_def version_manifest_path_def)
qed

end
