(* ===== verification/File_Names.thy ===== *)
theory File_Names
  imports Version
begin

text \<open>
  The names of the files in a database directory: \<open>level-<i>/<n>.sst\<close> as
  \<open>compaction.cpp\<close> and \<open>db_impl.cpp\<close> build them and \<open>wal-<n>.log\<close> of
  \<open>DBImpl::makeWalPath\<close>. The lemmas show that different numbers and levels give different
  names, that \<open>Version::addLevelFile\<close> reads the number back from the name, and that table,
  filter, log and MANIFEST names never collide.
\<close>

definition level_dir :: "path \<Rightarrow> nat \<Rightarrow> path" where
  "level_dir db level = db @ str ''/level-'' @ to_digits level"

definition sst_path :: "path \<Rightarrow> nat \<Rightarrow> u64 \<Rightarrow> path" where
  "sst_path db level n = level_dir db level @ str ''/'' @ to_digits (unat n) @ str ''.sst''"

definition makeWalPath :: "path \<Rightarrow> u64 \<Rightarrow> path" where
  "makeWalPath db n = db @ str ''/wal-'' @ to_digits (unat n) @ str ''.log''"

section \<open>Decimal numbers\<close>

definition digits_value :: "bytes \<Rightarrow> nat" where
  "digits_value ds = foldl (\<lambda>no c. no * 10 + unat (c - 48)) 0 ds"

lemma digit_byte: "n < 10 \<Longrightarrow> is_digit (48 + word_of_nat n) \<and> unat (48 + word_of_nat n - 48 :: byte) = n"
proof -
  assume "n < 10"
  then have u: "unat (word_of_nat n :: byte) = n" by (simp add: unat_of_nat)
  then have "unat (48 + word_of_nat n :: byte) = 48 + n"
    using \<open>n < 10\<close> by (simp add: unat_word_ariths)
  then show ?thesis using u \<open>n < 10\<close> by (simp add: is_digit_def word_le_nat_alt)
qed

lemma to_digits_digits: "list_all is_digit (to_digits n) \<and> digits_value (to_digits n) = n"
proof (induction n rule: to_digits.induct)
  case (1 n)
  show ?case
  proof (cases "n < 10")
    case True
    with digit_byte [OF True] show ?thesis by (subst (1 2) to_digits.simps) (simp add: digits_value_def)
  next
    case False
    have d: "n mod 10 < 10" by simp
    from 1 [OF False] digit_byte [OF d] False show ?thesis
      by (subst (1 2) to_digits.simps) (simp add: digits_value_def)
  qed
qed

lemma to_digits_inject: "to_digits n = to_digits m \<Longrightarrow> n = m"
  by (metis to_digits_digits)

lemma to_digits_span:
  assumes "to_digits n @ a # xs = to_digits m @ b # ys" "\<not> is_digit a" "\<not> is_digit b"
  shows "n = m \<and> a = b \<and> xs = ys"
proof -
  have "takeWhile is_digit (to_digits k @ c # zs) = to_digits k" if "\<not> is_digit c" for k c zs
    using that to_digits_digits [of k] by (simp add: list_all_iff)
  then have "to_digits n = to_digits m" using assms by metis
  with assms(1) show ?thesis using to_digits_inject by blast
qed

lemma to_digits_no_slash: "47 \<notin> set (to_digits n)" "46 \<notin> set (to_digits n)"
  using to_digits_digits [of n] by (auto simp: list_all_iff is_digit_def)

section \<open>Names differ\<close>

lemma sst_path_inject: "sst_path db l n = sst_path db l' n' \<longleftrightarrow> l = l' \<and> n = n'"
proof
  assume "sst_path db l n = sst_path db l' n'"
  then have "to_digits l @ 47 # (to_digits (unat n) @ str ''.sst'') = to_digits l' @ 47 # (to_digits (unat n') @ str ''.sst'')"
    by (simp add: sst_path_def level_dir_def str_def)
  from to_digits_span [OF this] have l: "l = l'" "to_digits (unat n) = to_digits (unat n')"
    by (simp_all add: is_digit_def)
  then show "l = l' \<and> n = n'" using to_digits_inject [OF l(2)] by (simp add: word_unat_eq_iff)
qed simp

lemma makeWalPath_inject: "makeWalPath db n = makeWalPath db n' \<longleftrightarrow> n = n'"
  using to_digits_inject [of "unat n" "unat n'"] by (auto simp: makeWalPath_def word_unat_eq_iff)

lemma file_names_differ [simp]:
  "sst_path db l n \<noteq> sst_path db l' n' @ str ''.bloom''"
  "makeWalPath db n \<noteq> sst_path db l n'" "sst_path db l n' \<noteq> makeWalPath db n"
  "makeWalPath db n \<noteq> sst_path db l n' @ str ''.bloom''"
  "db @ str ''/MANIFEST'' \<noteq> sst_path db l n" "sst_path db l n \<noteq> db @ str ''/MANIFEST''"
  "db @ str ''/MANIFEST'' \<noteq> sst_path db l n @ str ''.bloom''"
  "sst_path db l n @ str ''.bloom'' \<noteq> db @ str ''/MANIFEST''"
  "db @ str ''/MANIFEST'' \<noteq> makeWalPath db n" "makeWalPath db n \<noteq> db @ str ''/MANIFEST''"
proof -
  have "hd (rev (sst_path db l n)) \<noteq> hd (rev (sst_path db l' n' @ str ''.bloom''))"
    by (simp add: sst_path_def str_def)
  then show "sst_path db l n \<noteq> sst_path db l' n' @ str ''.bloom''" by metis
qed (simp_all add: sst_path_def makeWalPath_def level_dir_def str_def)

section \<open>The number in the name\<close>

lemma basename_slash: "47 \<notin> set base \<Longrightarrow> basename (dir @ 47 # base) = base"
proof -
  assume "47 \<notin> set base"
  then have "takeWhile (\<lambda>c. c \<noteq> 47) (rev base @ 47 # rev dir) = rev base"
    by (subst takeWhile_append2) auto
  then show ?thesis by (simp add: basename_def)
qed

lemma basename_sst: "basename (sst_path db l n) = to_digits (unat n) @ str ''.sst''"
proof -
  have "sst_path db l n = level_dir db l @ 47 # (to_digits (unat n) @ str ''.sst'')"
    by (simp add: sst_path_def str_def)
  moreover have "47 \<notin> set (to_digits (unat n) @ str ''.sst'')"
    using to_digits_no_slash [of "unat n"] by (simp add: str_def)
  ultimately show ?thesis using basename_slash by metis
qed

lemma word_of_digits:
  "foldl (\<lambda>no c. no * 10 + ucast (c - 48)) (word_of_nat a :: u64) ds =
     word_of_nat (foldl (\<lambda>no c. no * 10 + unat (c - 48)) a ds)"
proof (induction ds arbitrary: a)
  case (Cons d ds)
  have "(word_of_nat a :: u64) * 10 + ucast (d - 48) = word_of_nat (a * 10 + unat (d - 48))"
    by (simp add: unsigned_def)
  with Cons.IH [of "a * 10 + unat (d - 48)"] show ?case by (simp only: foldl_Cons)
qed simp

lemma number_of_sst: "number_of_path (sst_path db l n) = Some n"
proof -
  have tw: "takeWhile (\<lambda>c. c \<noteq> 46) (to_digits (unat n) @ str ''.sst'') = to_digits (unat n)"
    using to_digits_no_slash(2) [of "unat n"] by (subst takeWhile_append2) (auto simp: str_def)
  have "foldl (\<lambda>no c. no * 10 + ucast (c - 48)) (0 :: u64) (to_digits (unat n)) = n"
    using word_of_digits [of 0 "to_digits (unat n)"] to_digits_digits [of "unat n"]
    by (simp add: digits_value_def)
  then show ?thesis
    using to_digits_digits [of "unat n"] by (simp add: number_of_path_def basename_sst tw Let_def)
qed

end
