(* ===== verification/Compaction.thy ===== *)
theory Compaction
  imports Sstable_Iterator File_Names
begin

text \<open>
  \<open>minikv/src/core/compaction.{h,cpp}\<close>: the merge of all tables of a level into one table of
  the next level. The manager works on the version, the block cache and the files it shares
  with the database, so its operations take and return these. \<open>compaction_round\<close> is one
  iteration of the background loop without the sleep; the log output is left out.

  The lemmas show what a fault-free merge does: the new table holds, for every user key, the
  newest version among the sources unless that is a tombstone, it is registered in the
  next level, and the sources are gone from the level and from the disk. A lookup in the new
  table answers as a lookup in the merged sources would.
\<close>

section \<open>Definitions\<close>

record CompactionManager =
  cm_db_path :: path
  cm_block_size :: nat
  cm_max_level :: int
  cm_l0_trigger :: nat
  cm_running :: bool
  cm_triggered :: bool
  cm_failures :: nat

definition CompactionManager_new :: "path \<Rightarrow> nat \<Rightarrow> int \<Rightarrow> nat \<Rightarrow> CompactionManager" where
  "CompactionManager_new db bsize mlevel trigger =
     \<lparr>cm_db_path = db, cm_block_size = bsize, cm_max_level = mlevel, cm_l0_trigger = trigger,
      cm_running = False, cm_triggered = False, cm_failures = 0\<rparr>"

definition CompactionManager_start :: "CompactionManager \<Rightarrow> CompactionManager" where
  "CompactionManager_start cm = cm\<lparr>cm_running := True\<rparr>"

definition CompactionManager_stop :: "CompactionManager \<Rightarrow> CompactionManager" where
  "CompactionManager_stop cm = cm\<lparr>cm_running := False\<rparr>"

definition triggerCompaction :: "CompactionManager \<Rightarrow> CompactionManager" where
  "triggerCompaction cm = cm\<lparr>cm_triggered := True\<rparr>"

definition invalidateCache :: "BlockCache option \<Rightarrow> path list \<Rightarrow> BlockCache option" where
  "invalidateCache cache paths =
     (case cache of None \<Rightarrow> None | Some c \<Rightarrow> Some (fold (\<lambda>p c. BlockCache_invalidatePath c p) paths c))"

text \<open>The loop that reads all entries of the source files; \<open>Inl\<close> is the early return.\<close>

fun read_sources :: "codec_lib \<Rightarrow> os \<Rightarrow> BlockCache option \<Rightarrow> path list
    \<Rightarrow> (Status + (bytes \<times> bytes) list) \<times> BlockCache option" where
  "read_sources lib os cache [] = (Inr [], cache)"
| "read_sources lib os cache (p # ps) =
     (case SSTableReader_open os p of
        None \<Rightarrow> read_sources lib os cache ps
      | Some r \<Rightarrow>
          (case SSTableIterator_new lib os cache (Some r) of (it, cache) \<Rightarrow>
             let it = SSTableIterator_seekToFirst it;
                 part = iter_drain SSTableIterator_valid SSTableIterator_key SSTableIterator_value
                          SSTableIterator_next (length (sti_entries it)) it
             in if \<not> Status_ok (SSTableIterator_status it) then (Inl (SSTableIterator_status it), cache)
                else
                  case read_sources lib os cache ps of
                    (Inl s, cache) \<Rightarrow> (Inl s, cache)
                  | (Inr es, cache) \<Rightarrow> (Inr (part @ es), cache)))"

text \<open>The loop that feeds the builder: the first version of a user key, tombstones dropped.\<close>

fun emit_loop :: "codec_lib \<Rightarrow> os \<Rightarrow> SSTableBuilder \<Rightarrow> bytes \<Rightarrow> nat \<Rightarrow> (bytes \<times> bytes) list
    \<Rightarrow> os \<times> SSTableBuilder \<times> nat \<times> Status" where
  "emit_loop lib os sb last_user kept [] = (os, sb, kept, Status_Ok)"
| "emit_loop lib os sb last_user kept ((ik, v) # kvs) =
     (let uk = InternalKeyUserKey ik in
      if uk = last_user then emit_loop lib os sb last_user kept kvs
      else if InternalKeyType ik = vtDeletion then emit_loop lib os sb uk kept kvs
      else
        case SSTableBuilder_add lib os sb ik uk v of (os, sb, s) \<Rightarrow>
          if \<not> Status_ok s then (os, sb, kept, s) else emit_loop lib os sb uk (kept + 1) kvs)"

fun unlink_all :: "os \<Rightarrow> path list \<Rightarrow> os" where
  "unlink_all os [] = os"
| "unlink_all os (p # ps) = unlink_all (fst (sys_unlink os p)) ps"

definition mergeLevelFiles :: "codec_lib \<Rightarrow> os \<Rightarrow> Version \<Rightarrow> BlockCache option \<Rightarrow> CompactionManager \<Rightarrow> int \<Rightarrow> path list
    \<Rightarrow> os \<times> Version \<times> BlockCache option \<times> Status" where
  "mergeLevelFiles lib os v cache cm src_level src_files =
     (if src_files = [] then (os, v, cache, Status_Ok)
      else
        let dst_level = src_level + 1 in
        if dst_level > cm_max_level cm then (os, v, cache, Status_Ok)
        else
          case read_sources lib os cache src_files of
            (Inl s, cache) \<Rightarrow> (os, v, cache, s)
          | (Inr es, cache) \<Rightarrow>
              let es = sort_by entry_less es;
                  os = fst (sys_mkdir os (level_dir (cm_db_path cm) (nat dst_level)));
                  (no, v) = Version_nextFileNumber v;
                  newFile = sst_path (cm_db_path cm) (nat dst_level) no
              in case SSTableBuilder_new os newFile (cm_block_size cm) ctSnappy of (os, sb) \<Rightarrow>
                 case emit_loop lib os sb [] 0 es of (os, sb, kept, s) \<Rightarrow>
                   if \<not> Status_ok s then (SSTableBuilder_destroy lib os sb, v, cache, s)
                   else
                     case SSTableBuilder_finish lib os sb of (os, sb, fs) \<Rightarrow>
                       if \<not> Status_ok fs then (fst (sys_unlink os newFile), v, cache, fs)
                       else
                         let cache = invalidateCache cache src_files in
                         if kept = 0 then
                           let os = fst (sys_unlink os newFile) in
                           case Version_removeLevelFiles os v src_level src_files of (os, v) \<Rightarrow>
                             (unlink_all os src_files, v, cache, Status_Ok)
                         else
                           case Version_addLevelFile os v dst_level newFile of (os, v) \<Rightarrow>
                             case Version_removeLevelFiles os v src_level src_files of (os, v) \<Rightarrow>
                               (unlink_all os src_files, v, cache, Status_Ok))"

definition compactL0 :: "codec_lib \<Rightarrow> os \<Rightarrow> Version \<Rightarrow> BlockCache option \<Rightarrow> CompactionManager
    \<Rightarrow> os \<times> Version \<times> BlockCache option \<times> Status" where
  "compactL0 lib os v cache cm =
     (let l0_files = Version_getLevelFiles v 0 in
      if l0_files = [] then (os, v, cache, Status_Ok) else mergeLevelFiles lib os v cache cm 0 l0_files)"

definition compactLevel :: "codec_lib \<Rightarrow> os \<Rightarrow> Version \<Rightarrow> BlockCache option \<Rightarrow> CompactionManager \<Rightarrow> int
    \<Rightarrow> os \<times> Version \<times> BlockCache option \<times> Status" where
  "compactLevel lib os v cache cm level =
     (if level < 1 \<or> level \<ge> cm_max_level cm then (os, v, cache, Status_Ok)
      else
        let files = Version_getLevelFiles v level in
        if length files < 2 then (os, v, cache, Status_Ok) else mergeLevelFiles lib os v cache cm level files)"

text \<open>What the loop does with the outcome of a compaction.\<close>

definition note_result :: "CompactionManager \<Rightarrow> Status \<Rightarrow> CompactionManager" where
  "note_result cm s =
     (if \<not> Status_ok s then cm\<lparr>cm_failures := cm_failures cm + 1, cm_triggered := True\<rparr>
      else cm\<lparr>cm_failures := 0\<rparr>)"

fun compact_levels :: "codec_lib \<Rightarrow> os \<Rightarrow> Version \<Rightarrow> BlockCache option \<Rightarrow> CompactionManager \<Rightarrow> int list
    \<Rightarrow> os \<times> Version \<times> BlockCache option \<times> CompactionManager" where
  "compact_levels lib os v cache cm [] = (os, v, cache, cm)"
| "compact_levels lib os v cache cm (lvl # lvls) =
     (if Version_shouldCompactLevel v lvl 2 then
        case compactLevel lib os v cache cm lvl of (os, v, cache, s) \<Rightarrow>
          compact_levels lib os v cache (note_result cm s) lvls
      else compact_levels lib os v cache cm lvls)"

definition compaction_round :: "codec_lib \<Rightarrow> os \<Rightarrow> Version \<Rightarrow> BlockCache option \<Rightarrow> CompactionManager
    \<Rightarrow> os \<times> Version \<times> BlockCache option \<times> CompactionManager" where
  "compaction_round lib os v cache cm =
     (if \<not> cm_running cm then (os, v, cache, cm)
      else
        case (if cm_triggered cm \<or> Version_shouldCompactL0 v (cm_l0_trigger cm)
              then case compactL0 lib os v cache (cm\<lparr>cm_triggered := False\<rparr>) of (os, v, cache, s) \<Rightarrow>
                     (os, v, cache, note_result (cm\<lparr>cm_triggered := False\<rparr>) s)
              else (os, v, cache, cm)) of (os, v, cache, cm) \<Rightarrow>
          compact_levels lib os v cache cm [1..cm_max_level cm - 1])"

section \<open>The surviving entries\<close>

fun emitted :: "bytes \<Rightarrow> (bytes \<times> bytes) list \<Rightarrow> (bytes \<times> bytes) list" where
  "emitted last_user [] = []"
| "emitted last_user ((ik, v) # kvs) =
     (let uk = InternalKeyUserKey ik in
      if uk = last_user then emitted last_user kvs
      else if InternalKeyType ik = vtDeletion then emitted uk kvs
      else (ik, v) # emitted uk kvs)"

abbreviation user_of :: "bytes \<times> bytes \<Rightarrow> bytes" where
  "user_of e \<equiv> InternalKeyUserKey (fst e)"

lemma scan_low: "\<forall>e\<in>set es. u < user_of e \<Longrightarrow> memtable_scan es u = None"
  by (cases es) (auto simp: Let_def)

lemma scan_cons:
  "memtable_scan ((ik, v) # es) u =
     (if InternalKeyUserKey ik < u then memtable_scan es u
      else if InternalKeyUserKey ik = u \<and> \<not> IsDeletion ik then Some v else None)"
  using Slice_compare_lex [of "InternalKeyUserKey ik" u] by (auto simp: Let_def)

text \<open>
  A lookup cannot tell the survivors from the whole list: on entries ordered by user key, every
  user key that lies behind the last one handled reads the same.
\<close>

lemma emitted_scan:
  assumes "sorted (map user_of es)" "\<forall>e\<in>set es. last_user \<le> user_of e"
  shows "memtable_scan (emitted last_user es) u = (if u = last_user then None else memtable_scan es u)"
  using assms
proof (induction es arbitrary: last_user)
  case (Cons e es)
  obtain ik v where e: "e = (ik, v)" by fastforce
  let ?uk = "InternalKeyUserKey ik"
  have le: "last_user \<le> ?uk" "\<forall>d\<in>set es. ?uk \<le> user_of d" "sorted (map user_of es)"
    using Cons.prems e by auto
  have low: "w < ?uk \<Longrightarrow> memtable_scan es w = None" for w
    by (rule scan_low) (use le in auto)
  show ?case
  proof (cases "?uk = last_user")
    case True
    then have "memtable_scan (emitted last_user (e # es)) u = memtable_scan (emitted last_user es) u"
      by (simp add: e)
    also have "\<dots> = (if u = last_user then None else memtable_scan es u)"
      using Cons.IH [of last_user] le True by simp
    finally show ?thesis using True low by (auto simp: e scan_cons not_less_iff_gr_or_eq simp del: memtable_scan.simps)
  next
    case False
    then have lt: "last_user < ?uk" using le by auto
    have IH: "memtable_scan (emitted ?uk es) u = (if u = ?uk then None else memtable_scan es u)"
      by (rule Cons.IH) (use le in auto)
    show ?thesis
      using False lt IH low low [OF lt]
      by (cases u ?uk rule: linorder_cases)
        (auto simp: e scan_cons IsDeletion_def not_less_iff_gr_or_eq Let_def simp del: memtable_scan.simps)
  qed
qed auto

lemma emitted_keys:
  assumes "sorted (map user_of es)" "\<forall>e\<in>set es. last_user \<le> user_of e"
  shows "sorted_wrt (<) (map user_of (emitted last_user es)) \<and>
    (\<forall>e\<in>set (emitted last_user es). last_user < user_of e \<and> e \<in> set es)"
  using assms
proof (induction es arbitrary: last_user)
  case (Cons e es)
  obtain ik v where e: "e = (ik, v)" by fastforce
  have le: "last_user \<le> InternalKeyUserKey ik" "\<forall>d\<in>set es. InternalKeyUserKey ik \<le> user_of d" "sorted (map user_of es)"
    using Cons.prems e by auto
  have IH: "sorted_wrt (<) (map user_of (emitted w es)) \<and>
      (\<forall>e\<in>set (emitted w es). w < user_of e \<and> e \<in> set es)" if "w \<le> InternalKeyUserKey ik" for w
    by (rule Cons.IH) (use le that in auto)
  from IH [of last_user] IH [of "InternalKeyUserKey ik"] le(1) show ?case
    by (auto simp: e Let_def intro: le_less_trans)
qed simp

lemma sorted_user_of:
  assumes "sorted (map (\<lambda>e. ikey_rank (fst e)) es)"
  shows "sorted (map user_of es)"
  using assms by (simp add: sorted_map) (erule sorted_wrt_mono_rel [rotated], rule ikey_rank_user_mono)

lemma emitted_sorted_entries:
  assumes "sorted (map (\<lambda>e. ikey_rank (fst e)) es)" "\<forall>e\<in>set es. is_ikey (fst e)"
  shows "sorted_entries (emitted [] es)"
proof -
  have *: "sorted_wrt (<) (map user_of (emitted [] es)) \<and>
    (\<forall>e\<in>set (emitted [] es). [] < user_of e \<and> e \<in> set es)"
    by (rule emitted_keys) (use assms sorted_user_of in auto)
  then have "sorted_wrt (\<lambda>a b. ikey_rank (fst a) < ikey_rank (fst b)) (emitted [] es)"
    by (auto simp: sorted_wrt_map ikey_rank_def elim!: sorted_wrt_mono_rel [rotated])
  with * assms show ?thesis by (auto simp: sorted_entries_def)
qed

lemma emitted_weight: "table_weight (emitted last_user es) \<le> table_weight es"
  by (induction last_user es rule: emitted.induct) (auto simp: Let_def intro: le_SucI trans_le_add2)

lemma table_weight_mset: "mset xs = mset ys \<Longrightarrow> table_weight xs = table_weight ys"
  unfolding table_weight_def by (metis mset_map sum_mset_sum_list)

section \<open>Reading the sources\<close>

lemma read_sources_ok:
  assumes "list_all2 (\<lambda>p es. table_on_disk lib os p es \<and> sorted_entries es) ps ess" "cache_coherent lib os cache"
  shows "\<exists>cache'. read_sources lib os cache ps = (Inr (concat ess), cache') \<and> cache_coherent lib os cache'"
  using assms
proof (induction arbitrary: cache rule: list_all2_induct)
  case (Cons p ps es ess)
  then have disk: "table_on_disk lib os p es" "sorted_entries es" by simp_all
  obtain r it cache1 where it: "SSTableReader_open os p = Some r"
    "SSTableIterator_new lib os cache (Some r) = (it, cache1)" "cache_coherent lib os cache1"
    "sti_ok it" "sti_rest (SSTableIterator_seekToFirst it) = es"
    using SSTableIterator_new_rest [OF disk Cons.prems] by blast
  let ?it = "SSTableIterator_seekToFirst it"
  have ok: "sti_ok ?it" "Status_ok (SSTableIterator_status ?it)" using it(4)
    by (simp_all add: sti_ok_def SSTableIterator_seekToFirst_def SSTableIterator_status_def)
  have "iter_drain SSTableIterator_valid SSTableIterator_key SSTableIterator_value SSTableIterator_next
      (length (sti_entries ?it)) ?it = es"
    using sti.drain_rest [OF ok(1), of "length (sti_entries ?it)"] it(5) by (simp add: sti_rest_def)
  moreover obtain cache' where "read_sources lib os cache1 ps = (Inr (concat ess), cache')" "cache_coherent lib os cache'"
    using Cons.IH [OF it(3)] by blast
  ultimately show ?case using it ok by (simp add: Let_def)
qed simp

lemma emit_loop_ok:
  assumes lib: "codec_ok lib"
    and "table_inv lib os sb bs cur" "table_weight (table_entries bs @ cur @ emitted last_user es) < 2 ^ 31"
    and "emit_loop lib os sb last_user kept es = (os', sb', kept', s)"
  shows "\<exists>bs' cur'. table_inv lib os' sb' bs' cur' \<and>
    table_entries bs' @ cur' = table_entries bs @ cur @ emitted last_user es \<and> sb_path sb' = sb_path sb \<and>
    s = Status_Ok \<and> kept' = kept + length (emitted last_user es) \<and>
    (\<forall>q. q \<noteq> sb_path sb \<longrightarrow> file_of os' q = file_of os q)"
  using assms(2-)
proof (induction es arbitrary: os sb bs cur last_user kept)
  case (Cons e es)
  obtain ik v where e: "e = (ik, v)" by fastforce
  let ?uk = "InternalKeyUserKey ik"
  show ?case
  proof (cases "?uk = last_user \<or> InternalKeyType ik = vtDeletion")
    case True
    then obtain w where w: "emitted last_user (e # es) = emitted w es"
      "emit_loop lib os sb last_user kept (e # es) = emit_loop lib os sb w kept es"
      by (cases "?uk = last_user") (auto simp: e Let_def)
    show ?thesis using Cons.IH [of os sb bs cur w kept] Cons.prems unfolding w by blast
  next
    case False
    then have em: "emitted last_user (e # es) = (ik, v) # emitted ?uk es" by (simp add: e)
    obtain os1 sb1 s1 where a: "SSTableBuilder_add lib os sb ik ?uk v = (os1, sb1, s1)" by (metis prod_cases3)
    obtain bs1 cur1 where 1: "table_inv lib os1 sb1 bs1 cur1" "s1 = Status_Ok"
      "table_entries bs1 @ cur1 = table_entries bs @ cur @ [(ik, v)]" "sb_path sb1 = sb_path sb"
      "\<forall>q. q \<noteq> sb_path sb \<longrightarrow> file_of os1 q = file_of os q"
      using table_add [OF lib Cons.prems(1) _ a] Cons.prems(2) em by auto
    have eq: "table_entries bs1 @ cur1 @ xs = table_entries bs @ cur @ (ik, v) # xs" for xs
      using 1(3) by (metis append.assoc append_Cons append_Nil)
    have "emit_loop lib os1 sb1 ?uk (kept + 1) es = (os', sb', kept', s)"
      using Cons.prems(3) a 1(2) False by (simp add: e)
    then obtain bs' cur' where "table_inv lib os' sb' bs' cur'"
      "table_entries bs' @ cur' = table_entries bs1 @ cur1 @ emitted ?uk es" "sb_path sb' = sb_path sb1"
      "s = Status_Ok" "kept' = kept + 1 + length (emitted ?uk es)"
      "\<forall>q. q \<noteq> sb_path sb1 \<longrightarrow> file_of os' q = file_of os1 q"
      using Cons.IH [OF 1(1)] Cons.prems(2) em by (simp only: eq) blast
    then show ?thesis using 1 by (auto simp: em eq)
  qed
qed auto

section \<open>A merge without faults\<close>

lemma unlink_all_ok:
  assumes "os_faults os = []"
  shows "os_faults (unlink_all os ps) = [] \<and>
    (\<forall>q. file_of (unlink_all os ps) q = (if q \<in> set ps then None else file_of os q))"
  using assms
proof (induction ps arbitrary: os)
  case (Cons p ps)
  have "os_faults (fst (sys_unlink os p)) = []" "file_of (fst (sys_unlink os p)) q = (if q = p then None else file_of os q)" for q
    using Cons.prems by (auto simp: sys_unlink_def split: option.split)
  with Cons.IH [of "fst (sys_unlink os p)"] show ?case by auto
qed simp

lemma invalidatePath_lookup:
  assumes "BlockCache_inv c"
  shows "BlockCache_inv (BlockCache_invalidatePath c p)"
    "BlockCache_lookup (BlockCache_invalidatePath c p) k = (if bck_path k = p then None else BlockCache_lookup c k)"
proof -
  show "BlockCache_inv (BlockCache_invalidatePath c p)" by (rule BlockCache_invalidatePath_correct(1) [OF assms])
  have "map_of (map snd (filter (\<lambda>n. bck_path (fst (snd n)) \<noteq> p) ns)) k =
      (if bck_path k = p then None else map_of (map snd ns) k)" for ns :: "(BlockCacheKey, Entry) node_list"
    by (induction ns) auto
  then show "BlockCache_lookup (BlockCache_invalidatePath c p) k = (if bck_path k = p then None else BlockCache_lookup c k)"
    by (simp add: BlockCache_lookup_def list_lookup_def BlockCache_invalidatePath_correct(2) [OF assms])
qed

lemma invalidate_coherent:
  assumes "cache_coherent lib os cache"
    and keep: "\<And>p. is_sst p \<Longrightarrow> p \<notin> set paths \<Longrightarrow> file_of os p \<noteq> None \<Longrightarrow> file_of os' p = file_of os p"
  shows "cache_coherent lib os' (invalidateCache cache paths)"
proof (cases cache)
  case None
  then show ?thesis by (simp add: cache_coherent_def invalidateCache_def)
next
  case (Some c)
  then have c: "cache_coherent lib os (Some c)" "BlockCache_inv c" using assms(1) by (auto simp: cache_coherent_def)
  have look: "BlockCache_inv (fold (\<lambda>p c. BlockCache_invalidatePath c p) paths c) \<and>
    (\<forall>k. BlockCache_lookup (fold (\<lambda>p c. BlockCache_invalidatePath c p) paths c) k =
      (if bck_path k \<in> set paths then None else BlockCache_lookup c k))" if "BlockCache_inv c" for c paths
    using that
  proof (induction paths arbitrary: c)
    case (Cons p ps)
    from Cons.IH [OF invalidatePath_lookup(1) [OF Cons.prems]] invalidatePath_lookup(2) [OF Cons.prems]
    show ?case by auto
  qed simp
  have "is_sst (bck_path k) \<and> read_block_at lib (content_of os' (bck_path k)) (unat (bck_offset k)) = (Status_Ok, d)"
    if "BlockCache_lookup c k = Some d" "bck_path k \<notin> set paths" for k d
    using coherent_exists [OF c(1) that(1)] keep [of "bck_path k"] c(1) that
    by (simp add: content_of_def cache_coherent_def)
  then show ?thesis
    using look [OF c(2), of paths] Some by (auto simp: cache_coherent_def invalidateCache_def split: if_splits)
qed

text \<open>The entries the new table holds, and where it lies.\<close>

definition merged_entries :: "(bytes \<times> bytes) list list \<Rightarrow> (bytes \<times> bytes) list" where
  "merged_entries ess = emitted [] (sort_by entry_less (concat ess))"

definition merge_target :: "CompactionManager \<Rightarrow> Version \<Rightarrow> int \<Rightarrow> path" where
  "merge_target cm v src_level = sst_path (cm_db_path cm) (nat (src_level + 1)) (v_next_file_number v)"

lemma concat_ikeys: "\<forall>es\<in>set ess. sorted_entries es \<Longrightarrow> \<forall>e\<in>set (sort_by entry_less (concat ess)). is_ikey (fst e)"
  by (force simp: sorted_entries_def)

lemma concat_sorted:
  "\<forall>es\<in>set ess. sorted_entries es \<Longrightarrow> sorted (map (\<lambda>e. ikey_rank (fst e)) (sort_by entry_less (concat ess)))"
  by (rule sort_entries_sorted) (force simp: sorted_entries_def)

lemma merged_entries_sorted:
  assumes "\<forall>es\<in>set ess. sorted_entries es"
  shows "sorted_entries (merged_entries ess)"
  unfolding merged_entries_def
  by (rule emitted_sorted_entries [OF concat_sorted concat_ikeys]) (use assms in simp_all)

lemma merged_entries_scan:
  assumes "\<forall>es\<in>set ess. sorted_entries es" "u \<noteq> []"
  shows "memtable_scan (merged_entries ess) u = memtable_scan (sort_by entry_less (concat ess)) u"
proof -
  have "sorted (map user_of (sort_by entry_less (concat ess)))"
    by (rule sorted_user_of [OF concat_sorted]) (use assms in simp)
  then show ?thesis using emitted_scan [of "sort_by entry_less (concat ess)" "[]" u] assms(2)
    by (simp add: merged_entries_def)
qed

lemma merged_entries_distinct:
  assumes "\<forall>es\<in>set ess. sorted_entries es"
  shows "distinct (map user_of (merged_entries ess))"
proof -
  have "sorted_wrt (<) (map user_of (merged_entries ess))"
    unfolding merged_entries_def
    by (rule conjunct1 [OF emitted_keys]) (use sorted_user_of [OF concat_sorted [OF assms]] in auto)
  then show ?thesis by (simp add: strict_sorted_iff)
qed

lemma merged_entries_live: "e \<in> set (merged_entries ess) \<Longrightarrow> \<not> IsDeletion (fst e) \<and> (\<exists>es\<in>set ess. e \<in> set es)"
proof -
  have "e \<in> set (emitted w es) \<Longrightarrow> \<not> IsDeletion (fst e) \<and> e \<in> set es" for w es
    by (induction w es rule: emitted.induct) (auto simp: IsDeletion_def Let_def split: if_splits)
  then show "e \<in> set (merged_entries ess) \<Longrightarrow> \<not> IsDeletion (fst e) \<and> (\<exists>es\<in>set ess. e \<in> set es)"
    by (fastforce simp: merged_entries_def)
qed

definition merge_inputs :: "codec_lib \<Rightarrow> os \<Rightarrow> Version \<Rightarrow> BlockCache option \<Rightarrow> CompactionManager \<Rightarrow> int \<Rightarrow> path list
    \<Rightarrow> (bytes \<times> bytes) list list \<Rightarrow> bool" where
  "merge_inputs lib os v cache cm src_level src_files ess \<longleftrightarrow>
     codec_ok lib \<and> version_inv os v \<and> os_faults os = [] \<and> cache_coherent lib os cache \<and>
     0 \<le> src_level \<and> src_level + 1 \<le> cm_max_level cm \<and> cm_max_level cm \<le> 7 \<and>
     src_files \<noteq> [] \<and> table_weight (concat ess) < 2 ^ 31 \<and>
     list_all2 (\<lambda>p es. table_on_disk lib os p es \<and> sorted_entries es) src_files ess \<and>
     (\<forall>p\<in>set src_files. \<exists>n. p = sst_path (cm_db_path cm) (nat src_level) n) \<and>
     version_manifest_path v = cm_db_path cm @ str ''/MANIFEST'' \<and>
     file_of os (merge_target cm v src_level) = None \<and> short_path (merge_target cm v src_level) \<and>
     (\<forall>meta\<in>set (v_levels v ! nat src_level). short_path (meta_path meta))"

lemma merge_builds:
  assumes inp: "merge_inputs lib os v cache cm src_level src_files ess"
    and os1: "os1 = fst (sys_mkdir os d)"
    and new: "SSTableBuilder_new os1 (merge_target cm v src_level) (cm_block_size cm) ctSnappy = (os2, sb)"
    and emit: "emit_loop lib os2 sb [] 0 (sort_by entry_less (concat ess)) = (os3, sb3, kept, s)"
    and fin: "SSTableBuilder_finish lib os3 sb3 = (os4, sb4, fs)"
  shows "s = Status_Ok" "fs = Status_Ok" "kept = length (merged_entries ess)" "os_faults os4 = []"
    "table_on_disk lib os4 (merge_target cm v src_level) (merged_entries ess)"
    "\<And>q. q \<noteq> merge_target cm v src_level \<Longrightarrow> q \<noteq> merge_target cm v src_level @ str ''.bloom'' \<Longrightarrow> file_of os4 q = file_of os q"
proof -
  let ?p = "merge_target cm v src_level" and ?all = "sort_by entry_less (concat ess)"
  have lib: "codec_ok lib" and f1: "os_faults os1 = []"
    using inp by (auto simp: merge_inputs_def os1 sys_mkdir_def)
  have w: "table_weight (emitted [] ?all) < 2 ^ 31"
    using emitted_weight [of "[]" ?all] table_weight_mset [of ?all "concat ess"] inp
    by (simp add: merge_inputs_def)
  have inv: "table_inv lib os2 sb [] []" "sb_path sb = ?p" using table_inv_new [OF f1 new] by auto
  obtain bs cur where b: "table_inv lib os3 sb3 bs cur" "table_entries bs @ cur = emitted [] ?all" "sb_path sb3 = ?p"
    "s = Status_Ok" "kept = length (emitted [] ?all)" "\<forall>q. q \<noteq> ?p \<longrightarrow> file_of os3 q = file_of os2 q"
    using emit_loop_ok [OF lib inv(1) _ emit] w inv(2) by auto
  have sst: "is_sst ?p" using is_sst_append [of "level_dir _ _ @ _ @ _"] by (simp add: merge_target_def sst_path_def)
  note f = finish_table [OF lib b(1) _ fin]
  show "s = Status_Ok" "kept = length (merged_entries ess)" using b by (simp_all add: merged_entries_def)
  show "fs = Status_Ok" "os_faults os4 = []" "table_on_disk lib os4 ?p (merged_entries ess)"
    using f(1-3) b w sst by (simp_all add: merged_entries_def)
  show "file_of os4 q = file_of os q" if "q \<noteq> ?p" "q \<noteq> ?p @ str ''.bloom''" for q
  proof -
    have "file_of os2 q = file_of os1 q" using new f1 that by (auto simp: SSTableBuilder_new_def sys_open_trunc_def)
    moreover have "file_of os1 q = file_of os q" by (auto simp: os1 sys_mkdir_def split: prod.split fault.split intro: next_fault_file)
      (metis next_fault_file snd_conv)+
    ultimately show ?thesis using f(4) b w that sst by simp
  qed
qed

lemma version_inv_counter: "version_inv os (v\<lparr>v_next_file_number := n\<rparr>) = version_inv os v"
  by (simp add: version_inv_def)

lemma version_inv_frame:
  assumes "version_inv os v" "\<forall>q. q = version_manifest_path v \<longrightarrow> file_of os' q = file_of os q"
  shows "version_inv os' v"
  using assms by (auto simp: version_inv_def manifest_inv_def version_manifest_path_def replays_to_def)

text \<open>The version after the merge: the new table in the next level, the sources gone.\<close>

definition merged_levels :: "CompactionManager \<Rightarrow> Version \<Rightarrow> int \<Rightarrow> path list \<Rightarrow> (bytes \<times> bytes) list list \<Rightarrow> levels" where
  "merged_levels cm v src_level src_files ess =
     (let ls = (if merged_entries ess = [] then v_levels v
                else push_level (nat (src_level + 1)) (file_meta (merge_target cm v src_level) (v_next_file_number v)) (v_levels v))
      in ls[nat src_level := filter (\<lambda>meta. meta_path meta \<notin> set src_files) (ls ! nat src_level)])"

lemma removeLevelFiles_number: "v_next_file_number (snd (Version_removeLevelFiles os v level paths)) = v_next_file_number v"
  by (auto simp: Version_removeLevelFiles_def Let_def split: prod.split option.split)

lemma merge_versions:
  assumes inp: "merge_inputs lib os v cache cm src_level src_files ess"
    and files: "os_faults os4 = []" "\<And>q. q \<noteq> merge_target cm v src_level \<Longrightarrow>
      q \<noteq> merge_target cm v src_level @ str ''.bloom'' \<Longrightarrow> file_of os4 q = file_of os q"
    and v1: "v1 = v\<lparr>v_next_file_number := v_next_file_number v + 1\<rparr>"
    and add: "(os5, v5) = (if merged_entries ess = [] then (fst (sys_unlink os4 (merge_target cm v src_level)), v1)
      else Version_addLevelFile os4 v1 (src_level + 1) (merge_target cm v src_level))"
    and del: "Version_removeLevelFiles os5 v5 src_level src_files = (os6, v6)"
  shows "version_inv os6 v6" "os_faults os6 = []" "v_levels v6 = merged_levels cm v src_level src_files ess"
    "version_manifest_path v6 = version_manifest_path v"
    "\<And>q. q \<noteq> version_manifest_path v \<Longrightarrow> q \<noteq> merge_target cm v src_level \<or> merged_entries ess \<noteq> [] \<Longrightarrow>
      file_of os6 q = file_of os4 q"
    "v_next_file_number v6 = v_next_file_number v + 1"
proof -
  let ?p = "merge_target cm v src_level" and ?i = "nat src_level"
  have lv: "0 \<le> src_level" "src_level + 1 < 8" and short: "short_path ?p"
    "\<forall>meta\<in>set (v_levels v ! ?i). short_path (meta_path meta)"
    and mp: "version_manifest_path v = cm_db_path cm @ str ''/MANIFEST''" and inv: "version_inv os v"
    using inp by (auto simp: merge_inputs_def)
  have len: "length (v_levels v) = 8" using inv by (auto simp: version_inv_def)
  have "version_inv os4 v"
    by (rule version_inv_frame [OF inv]) (use files(2) mp in \<open>auto simp: merge_target_def\<close>)
  then have inv4: "version_inv os4 v1" by (simp add: v1 version_inv_counter)
  have mp1: "version_manifest_path v1 = version_manifest_path v" by (simp add: v1 version_manifest_path_def)
  let ?ls = "if merged_entries ess = [] then v_levels v
    else push_level (nat (src_level + 1)) (file_meta ?p (v_next_file_number v)) (v_levels v)"
  have s5: "version_inv os5 v5 \<and> os_faults os5 = [] \<and> v_levels v5 = ?ls \<and>
      version_manifest_path v5 = version_manifest_path v \<and> v_next_file_number v5 = v_next_file_number v + 1 \<and>
      (\<forall>q. q \<noteq> version_manifest_path v \<and> (q \<noteq> ?p \<or> merged_entries ess \<noteq> []) \<longrightarrow> file_of os5 q = file_of os4 q)"
  proof (cases "merged_entries ess = []")
    case True
    then have "os5 = fst (sys_unlink os4 ?p)" "v5 = v1" using add by auto
    moreover have "version_inv (fst (sys_unlink os4 ?p)) v1"
      by (rule version_inv_frame [OF inv4]) (use mp mp1 in \<open>simp add: sys_unlink_effect merge_target_def\<close>)
    ultimately show ?thesis using True files(1) mp1 by (auto simp: v1 sys_unlink_effect)
  next
    case False
    then have a: "os5 = fst (Version_addLevelFile os4 v1 (src_level + 1) ?p)"
      "v5 = snd (Version_addLevelFile os4 v1 (src_level + 1) ?p)" using add by (auto simp: prod_eq_iff)
    have "assigned_number v1 ?p = v_next_file_number v"
      by (simp add: assigned_number_def merge_target_def number_of_sst)
    then have "v_levels v5 = ?ls"
      using addLevelFile_fields(1) [of "src_level + 1" v1 os4 ?p] lv len False by (simp add: a v1)
    moreover have "v_next_file_number v5 = v_next_file_number v + 1"
      using addLevelFile_fields(2) [of "src_level + 1" v1 os4 ?p] lv len by (simp add: a v1 merge_target_def number_of_sst)
    ultimately show ?thesis
      using addLevelFile_inv [OF inv4 files(1) short(1), of "src_level + 1"] lv False mp1 by (simp add: a)
  qed
  have "v_levels v5 ! ?i = v_levels v ! ?i" using s5 lv by (auto simp: push_level_def)
  then have sh5: "\<forall>meta\<in>set (v_levels v5 ! ?i). short_path (meta_path meta)" using short(2) by simp
  have r: "os6 = fst (Version_removeLevelFiles os5 v5 src_level src_files)"
    "v6 = snd (Version_removeLevelFiles os5 v5 src_level src_files)" using del by simp_all
  have "src_level < 8" using lv by simp
  note rem = removeLevelFiles_inv [of os5 v5 src_level src_files, OF _ _ lv(1) this sh5]
  show "version_inv os6 v6" "os_faults os6 = []" "version_manifest_path v6 = version_manifest_path v"
    using rem s5 by (simp_all add: r)
  show "v_next_file_number v6 = v_next_file_number v + 1" using s5 by (simp add: r removeLevelFiles_number)
  show "v_levels v6 = merged_levels cm v src_level src_files ess"
    using rem s5 by (simp add: r merged_levels_def Let_def)
  show "file_of os6 q = file_of os4 q" if "q \<noteq> version_manifest_path v" "q \<noteq> ?p \<or> merged_entries ess \<noteq> []" for q
    using rem s5 that by (simp add: r)
qed

text \<open>
  The whole operation: it succeeds, the version and its MANIFEST agree, the sources are gone,
  the new table holds the survivors and every other table is untouched.
\<close>

theorem mergeLevelFiles_ok:
  assumes inp: "merge_inputs lib os v cache cm src_level src_files ess"
  shows "\<exists>os' v' cache'. mergeLevelFiles lib os v cache cm src_level src_files = (os', v', cache', Status_Ok) \<and>
    version_inv os' v' \<and> os_faults os' = [] \<and> cache_coherent lib os' cache' \<and>
    v_levels v' = merged_levels cm v src_level src_files ess \<and> v_next_file_number v' = v_next_file_number v + 1 \<and>
    version_manifest_path v' = version_manifest_path v \<and>
    (merged_entries ess \<noteq> [] \<longrightarrow> table_on_disk lib os' (merge_target cm v src_level) (merged_entries ess)) \<and>
    (\<forall>p\<in>set src_files. file_of os' p = None) \<and>
    (\<forall>q. q \<notin> set src_files \<and> q \<noteq> merge_target cm v src_level \<and> q \<noteq> merge_target cm v src_level @ str ''.bloom'' \<and>
       q \<noteq> version_manifest_path v \<longrightarrow> file_of os' q = file_of os q)"
proof -
  let ?p = "merge_target cm v src_level" and ?m = "merged_entries ess"
  have i: "src_files \<noteq> []" "src_level + 1 \<le> cm_max_level cm" "version_manifest_path v = cm_db_path cm @ str ''/MANIFEST''"
    "file_of os ?p = None" "\<forall>p\<in>set src_files. \<exists>n. p = sst_path (cm_db_path cm) (nat src_level) n" "0 \<le> src_level"
    using inp by (auto simp: merge_inputs_def)
  obtain cache1 where rd: "read_sources lib os cache src_files = (Inr (concat ess), cache1)" "cache_coherent lib os cache1"
    using read_sources_ok inp unfolding merge_inputs_def by blast
  define os1 where "os1 = fst (sys_mkdir os (level_dir (cm_db_path cm) (nat (src_level + 1))))"
  define v1 where "v1 = v\<lparr>v_next_file_number := v_next_file_number v + 1\<rparr>"
  obtain os2 sb where new: "SSTableBuilder_new os1 ?p (cm_block_size cm) ctSnappy = (os2, sb)" by fastforce
  obtain os3 sb3 kept s where emit: "emit_loop lib os2 sb [] 0 (sort_by entry_less (concat ess)) = (os3, sb3, kept, s)"
    by (metis prod_cases4)
  obtain os4 sb4 fs where fin: "SSTableBuilder_finish lib os3 sb3 = (os4, sb4, fs)" by (metis prod_cases3)
  note b = merge_builds [OF inp os1_def new emit fin]
  obtain os5 v5 where add: "(os5, v5) = (if ?m = [] then (fst (sys_unlink os4 ?p), v1)
      else Version_addLevelFile os4 v1 (src_level + 1) ?p)" by (metis prod.collapse)
  obtain os6 v6 where del: "Version_removeLevelFiles os5 v5 src_level src_files = (os6, v6)" by fastforce
  note mv = merge_versions [OF inp b(4) b(6) v1_def add del]
  define os7 where "os7 = unlink_all os6 src_files"
  note un = unlink_all_ok [OF mv(2), of src_files, folded os7_def]
  have next_no: "Version_nextFileNumber v = (v_next_file_number v, v1)"
    by (simp add: Version_nextFileNumber_def v1_def)
  have run: "mergeLevelFiles lib os v cache cm src_level src_files =
      (os7, v6, invalidateCache cache1 src_files, Status_Ok)"
    using i rd(1) new emit fin b(1-3) add del next_no
    by (auto simp: mergeLevelFiles_def Let_def merge_target_def os7_def os1_def [symmetric] split: if_splits prod.splits)
  have src: "q \<noteq> ?p" "q \<noteq> ?p @ str ''.bloom''" "q \<noteq> version_manifest_path v" if mem: "q \<in> set src_files" for q
  proof -
    obtain n where "q = sst_path (cm_db_path cm) (nat src_level) n" using bspec [OF i(5) mem] ..
    then show "q \<noteq> ?p" "q \<noteq> ?p @ str ''.bloom''" "q \<noteq> version_manifest_path v"
      using i(3,6) by (simp_all add: merge_target_def sst_path_inject nat_add_distrib)
  qed
  have other: "file_of os7 q = file_of os q"
    if "q \<notin> set src_files" "q \<noteq> ?p" "q \<noteq> ?p @ str ''.bloom''" "q \<noteq> version_manifest_path v" for q
    using un mv(5) b(6) that by simp
  have "version_inv os7 v6"
    by (rule version_inv_frame [OF mv(1)]) (use un mv(4) src in auto)
  moreover have "cache_coherent lib os7 (invalidateCache cache1 src_files)"
  proof (rule invalidate_coherent [OF rd(2)])
    fix q assume q: "is_sst q" "q \<notin> set src_files" "file_of os q \<noteq> None"
    have "q \<noteq> ?p @ str ''.bloom''" "q \<noteq> version_manifest_path v"
      using q(1) i(3) by (auto simp: is_sst_def str_def)
    then show "file_of os7 q = file_of os q" using other q i(4) by metis
  qed
  moreover have "table_on_disk lib os7 ?p ?m" if "?m \<noteq> []"
    by (rule table_on_disk_frame [OF b(5)]) (use un mv(5) src that i(3) in \<open>auto simp: merge_target_def\<close>)
  ultimately show ?thesis using run un mv other by auto
qed

end
