(* ===== verification/Wal.thy ===== *)
theory Wal
  imports Posix Coding Checksum Framed_Log
begin

text \<open>
  \<open>minikv/src/core/wal.{h,cpp}\<close>: the write-ahead log. A record is framed as the checksum and
  the length of its data (four bytes each, little-endian) and the data. The lemmas show that
  replaying an appended log returns exactly the appended records; that on a log cut off at an
  arbitrary byte it returns exactly the records that are there in full; and that an append
  that fails half way, or a crash, never damages the records before it.
\<close>

section \<open>Definitions\<close>

record WAL =
  wal_path :: path
  wal_fd :: "path option"

definition WAL_new :: "os \<Rightarrow> path \<Rightarrow> os \<times> WAL" where
  "WAL_new os p =
     (case sys_open_creat os p of (os, fd) \<Rightarrow> (os, \<lparr>wal_path = p, wal_fd = fd\<rparr>))"

definition WAL_append :: "os \<Rightarrow> WAL \<Rightarrow> Slice \<Rightarrow> os \<times> Status" where
  "WAL_append os wal data =
     (case wal_fd wal of
        None \<Rightarrow> (os, Status_IOError (str ''WAL not open''))
      | Some fd \<Rightarrow>
          let crc = crc32c data (size_int data);
              len = size_u32 data;
              header = encodeFixed32 crc @ encodeFixed32 len
          in case sys_write os fd header of (os, n) \<Rightarrow>
             if n \<noteq> 8 then (os, Status_IOError (str ''WAL write header failed''))
             else if len > 0 then
               case sys_write os fd (take (unat len) data) of (os, n) \<Rightarrow>
                 if n \<noteq> int (unat len) then (os, Status_IOError (str ''WAL write data failed''))
                 else (os, Status_Ok)
             else (os, Status_Ok))"

definition WAL_sync :: "os \<Rightarrow> WAL \<Rightarrow> os \<times> Status" where
  "WAL_sync os wal =
     (case wal_fd wal of
        None \<Rightarrow> (os, Status_Ok)
      | Some fd \<Rightarrow>
          case sys_fdatasync os fd of (os, ok) \<Rightarrow>
            if \<not> ok then (os, Status_IOError (str ''WAL fsync failed'')) else (os, Status_Ok))"

text \<open>The loop of \<open>replay\<close> on the rest of the file.\<close>

function wal_replay_loop :: "bytes \<Rightarrow> bytes list \<Rightarrow> bytes list" where
  "wal_replay_loop input records =
     (let header = take 8 input in
      if length header \<noteq> 8 then records
      else
        let crc = decodeFixed32 header;
            len = decodeFixed32 (drop 4 header);
            data = take (unat len) (drop 8 input)
        in if length data \<noteq> unat len then records
           else if crc32c data (sint len) \<noteq> crc then records
           else wal_replay_loop (drop (unat len) (drop 8 input)) (records @ [data]))"
  by pat_completeness auto
termination
  by (relation "measure (\<lambda>(input, _). length input)") (auto simp: min_def split: if_splits)

declare wal_replay_loop.simps [simp del]

definition WAL_replay :: "os \<Rightarrow> WAL \<Rightarrow> bytes list" where
  "WAL_replay os wal =
     (case wal_fd wal of None \<Rightarrow> [] | Some fd \<Rightarrow> wal_replay_loop (content_of os fd) [])"

definition WAL_truncate :: "os \<Rightarrow> WAL \<Rightarrow> os \<times> WAL \<times> Status" where
  "WAL_truncate os wal =
     (case sys_unlink os (wal_path wal) of (os, _) \<Rightarrow>
      case sys_open_creat os (wal_path wal) of
        (os, None) \<Rightarrow> (os, wal\<lparr>wal_fd := None\<rparr>, Status_IOError (str ''WAL reopen after truncate failed''))
      | (os, Some fd) \<Rightarrow> (os, wal\<lparr>wal_fd := Some fd\<rparr>, Status_Ok))"

definition WAL_exists :: "os \<Rightarrow> WAL \<Rightarrow> bool" where
  "WAL_exists os wal = sys_exists os (wal_path wal)"

section \<open>The log format\<close>

definition wal_frame :: "bytes \<Rightarrow> bytes" where
  "wal_frame data = encodeFixed32 (crc32c data (size_int data)) @ encodeFixed32 (size_u32 data) @ data"

definition wal_ok :: "bytes \<Rightarrow> bool" where
  "wal_ok data \<longleftrightarrow> length data < 2 ^ 32"

definition wal_decode :: "bytes \<Rightarrow> (bytes \<times> bytes) option" where
  "wal_decode input =
     (let len = unat (decodeFixed32 (drop 4 (take 8 input))); data = take len (drop 8 input)
      in if length input < 8 \<or> length data \<noteq> len \<or>
            crc32c data (sint (decodeFixed32 (drop 4 (take 8 input)))) \<noteq> decodeFixed32 (take 8 input)
         then None else Some (data, drop len (drop 8 input)))"

definition wal_parse :: "bytes \<Rightarrow> bytes list" where
  "wal_parse input = wal_replay_loop input []"

lemma wal_replay_loop_decode:
  "wal_replay_loop input records =
     (case wal_decode input of None \<Rightarrow> records
      | Some (r, rest) \<Rightarrow> wal_replay_loop rest (records @ [r]))"
proof (cases "length input < 8")
  case False
  then show ?thesis
    by (subst wal_replay_loop.simps) (simp only: wal_decode_def Let_def length_take min_absorb2
        not_less simp_thms if_False if_True split: if_split option.split, auto)
qed (subst wal_replay_loop.simps, simp add: wal_decode_def Let_def)

lemma wal_decode_shorter: "wal_decode input = Some (r, rest) \<Longrightarrow> length rest < length input"
  by (auto simp: wal_decode_def Let_def split: if_splits)

lemma wal_replay_loop_acc: "wal_replay_loop input records = records @ wal_replay_loop input []"
proof (induction "length input" arbitrary: input records rule: less_induct)
  case less
  show ?case
  proof (cases "wal_decode input")
    case None
    then show ?thesis by (simp add: wal_replay_loop_decode [of input])
  next
    case (Some p)
    obtain r rest where p: "p = (r, rest)" by fastforce
    then have "wal_replay_loop rest recs = recs @ wal_replay_loop rest []" for recs
      using Some by (intro less wal_decode_shorter) simp
    from this [of "records @ [r]"] this [of "[r]"] show ?thesis
      using Some p by (simp add: wal_replay_loop_decode [of input])
  qed
qed

lemma wal_parse_step:
  "wal_parse input =
     (case wal_decode input of None \<Rightarrow> [] | Some (r, input) \<Rightarrow> r # wal_parse input)"
proof (cases "wal_decode input")
  case (Some p)
  then show ?thesis
    using wal_replay_loop_acc [of "snd p" "[fst p]"]
    by (simp add: wal_parse_def wal_replay_loop_decode [of input] case_prod_unfold)
qed (simp add: wal_parse_def wal_replay_loop_decode [of input])

lemma length_wal_frame: "length (wal_frame r) = 8 + length r"
  by (simp add: wal_frame_def)

lemma wal_header:
  "decodeFixed32 (take 8 (wal_frame r @ input)) = crc32c r (size_int r)"
  "decodeFixed32 (drop 4 (take 8 (wal_frame r @ input))) = size_u32 r"
  "drop 8 (wal_frame r @ input) = r @ input"
  by (simp_all add: wal_frame_def)

lemma wal_decode_frame:
  assumes "wal_ok r"
  shows "wal_decode (wal_frame r @ input) = Some (r, input)"
proof -
  have "unat (size_u32 r) = length r" "sint (size_u32 r) = size_int r"
    using assms unat_size_u32 [of r] by (simp_all add: wal_ok_def size_int_def size_u32_def)
  then show ?thesis
    unfolding wal_decode_def wal_header Let_def by (simp add: length_wal_frame)
qed

lemma wal_decode_torn:
  assumes "wal_ok r" "n < length (wal_frame r)"
  shows "wal_decode (take n (wal_frame r)) = None"
proof (cases "n < 8")
  case False
  let ?b = "take n (wal_frame r)"
  have "take 8 ?b = take 8 (wal_frame r)" using False by (simp add: min_def)
  then have "unat (decodeFixed32 (drop 4 (take 8 ?b))) = length r"
    using wal_header(2) [of r "[]"] assms(1) by (simp add: wal_ok_def unat_size_u32)
  moreover have "length (take (length r) (drop 8 ?b)) < length r"
    using assms(2) False by (simp add: length_wal_frame)
  ultimately show ?thesis unfolding wal_decode_def Let_def by (simp only: nat_neq_iff simp_thms if_True)
qed (simp add: wal_decode_def Let_def min.strict_coboundedI2)

interpretation wal_log: framed_log wal_frame wal_ok wal_decode wal_parse
  by unfold_locales
    (fact wal_decode_frame wal_decode_torn wal_parse_step | simp add: wal_decode_def)+

section \<open>Appending and replaying\<close>

lemma WAL_replay_parse: "wal_fd wal = Some fd \<Longrightarrow> WAL_replay os wal = wal_parse (content_of os fd)"
  by (simp add: WAL_replay_def wal_parse_def)

lemma append_file_content: "file_of os p \<noteq> None \<Longrightarrow> content_of (append_file os p data) p = content_of os p @ data"
  by (auto simp: content_of_def append_file_of)

lemma append_file_other: "q \<noteq> p \<Longrightarrow> content_of (append_file os p data) q = content_of os q"
  by (auto simp: content_of_def append_file_of)

lemma append_file_exists [simp]: "file_of (append_file os p data) q = None \<longleftrightarrow> file_of os q = None"
  by (auto simp: append_file_of)

text \<open>Without faults an append adds one frame to the file.\<close>

lemma WAL_append_ok:
  assumes "wal_fd wal = Some fd" "os_faults os = []" "wal_ok data"
  shows "WAL_append os wal data = (append_file os fd (wal_frame data), Status_Ok)"
proof -
  have len: "unat (size_u32 data) = length data" using assms(3) by (simp add: wal_ok_def unat_size_u32)
  show ?thesis
  proof (cases "data = []")
    case True
    with assms show ?thesis by (simp add: WAL_append_def wal_frame_def)
  next
    case False
    with len have "size_u32 data > 0" by (auto simp: word_greater_zero_iff)
    with assms len show ?thesis
      by (simp add: WAL_append_def wal_frame_def append_file_append)
  qed
qed

text \<open>
  Under faults the file grows by a prefix of the frame, by the whole frame if the append
  reports success, and no other file changes.
\<close>

lemma WAL_append_prefix:
  assumes fd: "wal_fd wal = Some fd" and ok: "wal_ok data"
    and app: "WAL_append os wal data = (os', s)" and ex: "file_of os fd \<noteq> None"
  shows "\<exists>k. content_of os' fd = content_of os fd @ take k (wal_frame data) \<and>
    (Status_ok s \<longrightarrow> take k (wal_frame data) = wal_frame data) \<and>
    (\<forall>q. q \<noteq> fd \<longrightarrow> file_of os' q = file_of os q) \<and> file_of os' fd \<noteq> None"
proof -
  let ?hd = "encodeFixed32 (crc32c data (size_int data)) @ encodeFixed32 (size_u32 data)"
  have len: "unat (size_u32 data) = length data" using ok by (simp add: wal_ok_def unat_size_u32)
  have frame: "wal_frame data = ?hd @ data" "length ?hd = 8" by (simp_all add: wal_frame_def)
  obtain os1 n where w1: "sys_write os fd ?hd = (os1, n)" by fastforce
  obtain k1 where k1: "\<forall>q. file_of os1 q = file_of (append_file os fd (take k1 ?hd)) q"
    "n = 8 \<longrightarrow> take k1 ?hd = ?hd"
    using sys_write_prefix [OF w1] frame(2) by auto
  have c1: "content_of os1 fd = content_of os fd @ take k1 ?hd"
    using k1(1) append_file_content [OF ex, of "take k1 ?hd"] by (simp add: content_of_def)
  have o1: "\<forall>q. q \<noteq> fd \<longrightarrow> file_of os1 q = file_of os q" "file_of os1 fd \<noteq> None"
    using k1(1) ex by (auto simp: append_file_of)
  show ?thesis
  proof (cases "n = 8 \<and> size_u32 data > 0")
    case True
    obtain os2 m where w2: "sys_write os1 fd data = (os2, m)" by fastforce
    obtain k2 where k2: "\<forall>q. file_of os2 q = file_of (append_file os1 fd (take k2 data)) q"
      "m = int (length data) \<longrightarrow> take k2 data = data"
      using sys_write_prefix [OF w2] by auto
    have "content_of os2 fd = content_of os1 fd @ take k2 data"
      using k2(1) append_file_content [OF o1(2), of "take k2 data"] by (simp add: content_of_def)
    then have "content_of os2 fd = content_of os fd @ take (8 + k2) (wal_frame data)"
      using c1 k1(2) True frame by simp
    moreover have "os' = os2" "Status_ok s \<longrightarrow> m = int (length data)"
      using app True w1 w2 fd len by (auto simp: WAL_append_def Let_def split: if_splits)
    ultimately show ?thesis
      using k2 o1 frame by (intro exI [of _ "8 + k2"]) (auto simp: append_file_of)
  next
    case False
    then have os': "os' = os1" using app w1 fd by (auto simp: WAL_append_def Let_def split: if_splits)
    show ?thesis
    proof (cases "n = 8")
      case True
      then have "data = []" using False len by (auto simp: word_greater_zero_iff)
      with True c1 k1(2) os' o1 frame show ?thesis by (intro exI [of _ 8]) simp
    next
      case n: False
      have "take k1 ?hd = take (min k1 8) (wal_frame data)" using frame by (simp add: min_def)
      moreover have "\<not> Status_ok s" using app w1 fd n by (auto simp: WAL_append_def Let_def)
      ultimately show ?thesis using c1 os' o1 by (intro exI [of _ "min k1 8"]) simp
    qed
  qed
qed

text \<open>
  Durability: if the frames of the first \<open>k\<close> records are synced, a replay after a crash returns
  at least these records and, of the others, a prefix, whatever part of the tail was lost.
\<close>

lemma WAL_crash_replay:
  assumes f: "file_of os p = Some f" "f_data f = take n (concat (map wal_frame rs))" "list_all wal_ok rs"
    and k: "k \<le> length rs" "length (concat (map wal_frame (take k rs))) \<le> f_synced f"
      "f_synced f \<le> length (f_data f)"
    and crash: "crashed os os'" and wal: "wal_fd wal = Some p"
  shows "\<exists>j\<ge>k. j \<le> length rs \<and> WAL_replay os' wal = take j rs"
proof -
  obtain m g where m: "m \<ge> f_synced f" "file_of os' p = Some g" "f_data g = take m (f_data f)"
    using crash f(1) by (auto simp: crashed_def split: option.splits dest!: spec [of _ p])
  let ?n = "min m n"
  have replay: "WAL_replay os' wal = complete_frames wal_frame ?n rs"
    using m f(2) wal_log.parse_torn [OF f(3), of ?n]
    by (simp add: WAL_replay_parse [OF wal] content_of_def min.commute)
  have "length (concat (map wal_frame (take k rs))) \<le> ?n"
    using k m(1) f(2) by auto
  from complete_frames_take [OF k(1) this] show ?thesis unfolding replay .
qed

text \<open>
  A session without faults: some records, a sync, more records. Whatever the crash takes away
  lies behind the sync.
\<close>

fun wal_run :: "os \<Rightarrow> WAL \<Rightarrow> bytes list \<Rightarrow> os" where
  "wal_run os wal [] = os"
| "wal_run os wal (r # rs) = wal_run (fst (WAL_append os wal r)) wal rs"

lemma wal_run_file:
  assumes "wal_fd wal = Some p" "os_faults os = []" "file_of os p = Some f" "list_all wal_ok rs"
  shows "file_of (wal_run os wal rs) p = Some (f\<lparr>f_data := f_data f @ concat (map wal_frame rs)\<rparr>) \<and>
    os_faults (wal_run os wal rs) = []"
  using assms(2-)
proof (induction rs arbitrary: os f)
  case (Cons r rs)
  let ?os = "append_file os p (wal_frame r)"
  have "fst (WAL_append os wal r) = ?os" using WAL_append_ok [OF assms(1) Cons.prems(1)] Cons.prems(3) by simp
  moreover have "file_of ?os p = Some (f\<lparr>f_data := f_data f @ wal_frame r\<rparr>)" "os_faults ?os = []"
    using Cons.prems by (simp_all add: append_file_of)
  ultimately show ?case using Cons.IH [of ?os "f\<lparr>f_data := f_data f @ wal_frame r\<rparr>"] Cons.prems(3) by simp
qed simp

lemma wal_session_crash:
  assumes wal: "wal_fd wal = Some p" and faults: "os_faults os = []" and new: "file_of os p = Some new_file"
    and ok: "list_all wal_ok rs" "list_all wal_ok us"
    and crash: "crashed (wal_run (fst (WAL_sync (wal_run os wal rs) wal)) wal us) os'"
  shows "\<exists>j\<le>length us. WAL_replay os' wal = rs @ take j us"
proof -
  let ?fr = "\<lambda>rs. concat (map wal_frame rs)"
  let ?os1 = "wal_run os wal rs" let ?os2 = "fst (WAL_sync ?os1 wal)"
  note 1 = wal_run_file [OF wal faults new ok(1)]
  have 2: "file_of ?os2 p = Some \<lparr>f_data = ?fr rs, f_synced = length (?fr rs)\<rparr>" "os_faults ?os2 = []"
    using 1 wal by (simp_all add: WAL_sync_def sys_fdatasync_def new_file_def)
  note 3 = wal_run_file [OF wal 2(2,1) ok(2)]
  have "\<exists>j\<ge>length rs. j \<le> length (rs @ us) \<and> WAL_replay os' wal = take j (rs @ us)"
    by (rule WAL_crash_replay [OF conjunct1 [OF 3] _ _ _ _ _ crash wal, where n = "length (?fr (rs @ us))"])
      (use ok in simp_all)
  then obtain j where "length rs \<le> j" "j \<le> length rs + length us" "WAL_replay os' wal = take j (rs @ us)" by auto
  then show ?thesis by (intro exI [of _ "j - length rs"]) simp
qed

end
