(* ===== verification/Db_Impl.thy ===== *)
theory Db_Impl
  imports Merging_Iterator Compaction Wal
begin

text \<open>
  \<open>minikv/src/core/db_impl.{h,cpp}\<close>: the database. The record holds the fields of the class; the
  MANIFEST that \<open>manifest_\<close> and the version share lives in the version. A
  \<open>shared_ptr<MemTable>\<close> is the object with an identity, which is what \<open>std::find\<close> on
  \<open>immutable_list_\<close> compares; frozen memtables are never written again, so copies of the
  object are faithful. A \<open>GroupEntry\<close> carries the identity of the writer that waits for it.
  The random bits of the skip lists are a parameter of the state (\<open>db_rngs\<close>).

  Every operation that runs under \<open>write_mutex_\<close> is one definition. \<open>write\<close> is split where
  it releases the mutex: \<open>write_follow\<close> and \<open>write_lead\<close> enqueue, \<open>write_commit\<close> is what
  the leader does after its wait. The flush thread is split in the same way: \<open>flush_pop\<close>
  takes the oldest entry from the queue, \<open>flushOne\<close> builds and registers the table, and
  \<open>flush_done\<close> accounts for the result. The log output is left out, and \<open>waitFlush\<close> is the
  condition it waits for.

  Operations that run the skip list return an option: the pointer structure of a list that is
  not well-formed has no defined result.
\<close>

section \<open>State\<close>

record GroupEntry =
  ge_writer :: nat
  ge_batch :: WriteBatch
  ge_opts :: WriteOptions

record FlushEntry =
  fe_memtable :: "nat \<times> MemTable"
  fe_wals :: "path list"

record DBImpl =
  db_options :: Options
  db_dir :: path
  db_wal :: "WAL option"
  db_current_wal :: path
  db_obsolete_wals :: "path list"
  db_memtable :: "(nat \<times> MemTable) option"
  db_immutables :: "(nat \<times> MemTable) list"
  db_seq :: u64
  db_group :: "GroupEntry list"
  db_leader :: bool
  db_flush_queue :: "FlushEntry list"
  db_flush_running :: bool
  db_flush_inflight :: nat
  db_version :: Version
  db_cache :: "BlockCache option"
  db_compaction :: "CompactionManager option"
  db_next_mem :: nat
  db_rngs :: "nat \<Rightarrow> bool list"

definition kMaxGroupSize :: nat where
  "kMaxGroupSize = 32"

section \<open>Construction\<close>

fun make_dirs :: "os \<Rightarrow> path list \<Rightarrow> os" where
  "make_dirs os [] = os"
| "make_dirs os (d # ds) = make_dirs (fst (sys_mkdir os d)) ds"

definition DBImpl_new :: "os \<Rightarrow> Options \<Rightarrow> (nat \<Rightarrow> bool list) \<Rightarrow> os \<times> DBImpl" where
  "DBImpl_new os opts rngs =
     (let dir = (if db_path opts = [] then str ''./minikv_data'' else db_path opts);
          os = make_dirs os (dir # map (\<lambda>i. level_dir dir (nat i)) [0..max_level opts])
      in (os, \<lparr>db_options = opts, db_dir = dir, db_wal = None, db_current_wal = [], db_obsolete_wals = [],
               db_memtable = None, db_immutables = [], db_seq = 0, db_group = [], db_leader = False,
               db_flush_queue = [], db_flush_running = True, db_flush_inflight = 0, db_version = Version_new,
               db_cache = (if lru_cache_capacity opts > 0
                           then Some (BlockCache_new (word_of_nat (lru_cache_capacity opts))) else None),
               db_compaction = None, db_next_mem = 0, db_rngs = rngs\<rparr>))"

text \<open>\<open>std::make_shared<MemTable>(options_.memtable_size)\<close>: a new object with a new identity.\<close>

definition make_memtable :: "DBImpl \<Rightarrow> DBImpl" where
  "make_memtable db =
     db\<lparr>db_memtable := Some (db_next_mem db,
          MemTable_new (word_of_nat (memtable_size (db_options db))) (db_rngs db (db_next_mem db))),
        db_next_mem := db_next_mem db + 1\<rparr>"

section \<open>Recovery\<close>

text \<open>\<open>readdir\<close>: the names of the files in a directory, in the order of the file system.\<close>

definition list_dir :: "os \<Rightarrow> path \<Rightarrow> bytes list" where
  "list_dir os dir =
     map (drop (length dir + 1))
       (filter (\<lambda>p. length dir + 1 < length p \<and> take (length dir + 1) p = dir @ [47] \<and> 47 \<notin> set (drop (length dir + 1) p))
         (map fst (os_files os)))"

text \<open>The names in one level directory that \<open>purgeOrphanSSTables\<close> removes.\<close>

definition orphans :: "os \<Rightarrow> path set \<Rightarrow> path \<Rightarrow> path list" where
  "orphans os live dir =
     filter (\<lambda>full. is_sst full \<and> full \<notin> live)
       (map (\<lambda>name. dir @ [47] @ name) (filter (\<lambda>name. hd name \<noteq> 46) (list_dir os dir)))"

fun purge_dirs :: "os \<Rightarrow> path set \<Rightarrow> path list \<Rightarrow> os" where
  "purge_dirs os live [] = os"
| "purge_dirs os live (dir # dirs) =
     purge_dirs (if dir \<in> set (os_dirs os) then unlink_all os (orphans os live dir) else os) live dirs"

definition purgeOrphanSSTables :: "os \<Rightarrow> DBImpl \<Rightarrow> os" where
  "purgeOrphanSSTables os db =
     (let live = (case v_manifest (db_version db) of None \<Rightarrow> {} | Some m \<Rightarrow> meta_path ` set (concat (mf_levels m)))
      in purge_dirs os live (map (\<lambda>i. level_dir (db_dir db) (nat i)) [0..max_level (db_options db)]))"

text \<open>\<open>strtoull\<close> on a name behind \<open>wal-\<close>: the value of the leading digits, saturating, and the rest.\<close>

definition strtoull :: "bytes \<Rightarrow> u64 \<times> bytes" where
  "strtoull s =
     (let ds = takeWhile is_digit s; n = digits_value ds
      in (if n < 2 ^ 64 then word_of_nat n else - 1, dropWhile is_digit s))"

definition wal_number :: "bytes \<Rightarrow> u64 option" where
  "wal_number name =
     (if take 4 name \<noteq> str ''wal-'' then None
      else
        let p = drop 4 name in
        if p = [] \<or> \<not> is_digit (hd p) then None
        else case strtoull p of (num, rest) \<Rightarrow> if rest \<noteq> str ''.log'' then None else Some num)"

definition listWalFiles :: "os \<Rightarrow> path \<Rightarrow> (u64 \<times> path) list" where
  "listWalFiles os dir =
     (let legacy = dir @ str ''/wal.log'';
          out = (if content_of os legacy \<noteq> [] then [(0, legacy)] else []);
          names = (if dir \<in> set (os_dirs os) then list_dir os dir else []);
          out = out @ concat (map (\<lambda>name. case wal_number name of None \<Rightarrow> []
                                          | Some num \<Rightarrow> [(num, dir @ [47] @ name)]) names)
      in sort_by (\<lambda>a b. fst a < fst b) out)"

definition openWal :: "os \<Rightarrow> DBImpl \<Rightarrow> u64 \<Rightarrow> os \<times> DBImpl \<times> Status" where
  "openWal os db file_number =
     (let v = Version_ensureNextFileNumberAtLeast (db_version db) (file_number + 1);
          p = makeWalPath (db_dir db) file_number
      in case WAL_new os p of (os, wal) \<Rightarrow>
           (os, db\<lparr>db_version := v, db_current_wal := p, db_wal := Some wal\<rparr>, Status_Ok))"

definition rotateWal :: "os \<Rightarrow> DBImpl \<Rightarrow> os \<times> DBImpl \<times> Status" where
  "rotateWal os db =
     (case Version_nextFileNumber (db_version db) of (n, v) \<Rightarrow>
        let new_path = makeWalPath (db_dir db) n;
            v = Version_ensureNextFileNumberAtLeast v (n + 1)
        in case WAL_new os new_path of (os, new_wal) \<Rightarrow>
          let os = (case db_wal db of None \<Rightarrow> os | Some w \<Rightarrow> fst (WAL_sync os w))
          in (os, db\<lparr>db_version := v,
                     db_obsolete_wals := db_obsolete_wals db @ (if db_current_wal db = [] then [] else [db_current_wal db]),
                     db_wal := Some new_wal, db_current_wal := new_path\<rparr>, Status_Ok))"

text \<open>The inner loop of \<open>replayWalFile\<close> over the operations of one record.\<close>

function replay_record :: "MemTable \<Rightarrow> u64 \<Rightarrow> bytes \<Rightarrow> (MemTable \<times> u64) option" where
  "replay_record mt seq p =
     (if p = [] then Some (mt, seq)
      else
        let type = hd p; p = tl p;
            keyLen = unat (decodeFixed32 p); p = drop 4 p;
            valLen = unat (decodeFixed32 p); p = drop 4 p;
            key = take keyLen p; p = drop keyLen p;
            val = take valLen p; p = drop valLen p
        in case MemTable_put mt key val seq (type = 2) of
             None \<Rightarrow> None
           | Some mt \<Rightarrow> replay_record mt (seq + 1) p)"
  by pat_completeness auto
termination
  by (relation "measure (\<lambda>(mt, seq, p). length p)") (auto simp: neq_Nil_conv)

declare replay_record.simps [simp del]

fun replay_records :: "MemTable \<Rightarrow> u64 \<Rightarrow> bytes list \<Rightarrow> (MemTable \<times> u64) option" where
  "replay_records mt seq [] = Some (mt, seq)"
| "replay_records mt seq (r # rs) =
     (case replay_record mt seq r of None \<Rightarrow> None | Some (mt, seq) \<Rightarrow> replay_records mt seq rs)"

definition replayWalFile :: "os \<Rightarrow> DBImpl \<Rightarrow> path \<Rightarrow> (os \<times> DBImpl \<times> Status) option" where
  "replayWalFile os db p =
     (case WAL_new os p of (os, wal) \<Rightarrow>
        case db_memtable db of
          None \<Rightarrow> None
        | Some (i, mt) \<Rightarrow>
            (case replay_records mt (db_seq db) (WAL_replay os wal) of
               None \<Rightarrow> None
             | Some (mt, seq) \<Rightarrow> Some (os, db\<lparr>db_memtable := Some (i, mt), db_seq := seq\<rparr>, Status_Ok)))"

fun replay_wals :: "os \<Rightarrow> DBImpl \<Rightarrow> (u64 \<times> path) list \<Rightarrow> (os \<times> DBImpl \<times> Status) option" where
  "replay_wals os db [] = Some (os, db, Status_Ok)"
| "replay_wals os db ((num, p) # wals) =
     (case replayWalFile os (db\<lparr>db_version := Version_ensureNextFileNumberAtLeast (db_version db) (num + 1)\<rparr>) p of
        None \<Rightarrow> None
      | Some (os, db, rs) \<Rightarrow> if \<not> Status_ok rs then Some (os, db, rs) else replay_wals os db wals)"

definition DBImpl_recover :: "os \<Rightarrow> DBImpl \<Rightarrow> (os \<times> DBImpl \<times> Status) option" where
  "DBImpl_recover os db =
     (case Manifest_open os (Manifest_new (db_dir db)) of (os, m, ms) \<Rightarrow>
      if \<not> Status_ok ms then Some (os, db, ms)
      else
        let v = Version_restoreFrom (Version_setManifest (db_version db) m) (mf_levels m);
            db = db\<lparr>db_version := v\<rparr>;
            os = purgeOrphanSSTables os db
        in case Manifest_rewriteSnapshot os m of (os, m, snap) \<Rightarrow>
           let db = db\<lparr>db_version := Version_setManifest v m\<rparr> in
           if \<not> Status_ok snap then Some (os, db, snap)
           else
             let db = make_memtable db;
                 wals = listWalFiles os (db_dir db)
             in case replay_wals os db wals of
                  None \<Rightarrow> None
                | Some (os, db, rs) \<Rightarrow>
                    if \<not> Status_ok rs then Some (os, db, rs)
                    else if wals = [] then
                      case Version_nextFileNumber (db_version db) of (n, v) \<Rightarrow> Some (openWal os (db\<lparr>db_version := v\<rparr>) n)
                    else
                      let cur = snd (last wals) in
                      case WAL_new os cur of (os, wal) \<Rightarrow>
                        Some (os, db\<lparr>db_current_wal := cur, db_wal := Some wal,
                                     db_obsolete_wals := map snd (butlast wals)\<rparr>, Status_Ok))"

definition DBImpl_open :: "os \<Rightarrow> Options \<Rightarrow> (nat \<Rightarrow> bool list) \<Rightarrow> (os \<times> DBImpl option \<times> Status) option" where
  "DBImpl_open os opts rngs =
     (case DBImpl_new os opts rngs of (os, impl) \<Rightarrow>
      case DBImpl_recover os impl of
        None \<Rightarrow> None
      | Some (os, impl, s) \<Rightarrow>
          if \<not> Status_ok s then Some (os, None, s)
          else
            let cm = CompactionManager_start (CompactionManager_new (db_dir impl) (block_size opts) (max_level opts)
                       (level0_compaction_trigger opts))
            in Some (os, Some (impl\<lparr>db_compaction := Some cm\<rparr>), Status_Ok))"

section \<open>Writes\<close>

definition maybeFlush :: "os \<Rightarrow> DBImpl \<Rightarrow> os \<times> DBImpl" where
  "maybeFlush os db =
     (case db_memtable db of
        None \<Rightarrow> (os, db)
      | Some (i, mt) \<Rightarrow>
          if \<not> MemTable_shouldFlush mt then (os, db)
          else
            case rotateWal os (db\<lparr>db_memtable := None\<rparr>) of (os, db, _) \<Rightarrow>
              let db = make_memtable db; wals = db_obsolete_wals db
              in (os, db\<lparr>db_obsolete_wals := [], db_immutables := db_immutables db @ [(i, mt)],
                         db_flush_queue := db_flush_queue db @ [\<lparr>fe_memtable = (i, mt), fe_wals = wals\<rparr>]\<rparr>))"

text \<open>The bytes of a group in the log: per operation the type, the two lengths, key and value.\<close>

definition op_image :: "BatchOp \<Rightarrow> bytes" where
  "op_image p = [BatchOpType_u8 (op_type p)] @ encodeFixed32 (size_u32 (op_key p)) @ encodeFixed32 (size_u32 (op_value p)) @
     op_key p @ op_value p"

definition group_image :: "GroupEntry list \<Rightarrow> bytes" where
  "group_image grp = concat (map (\<lambda>e. concat (map op_image (ge_batch e))) grp)"

fun base_seqs :: "u64 \<Rightarrow> GroupEntry list \<Rightarrow> u64 list \<times> u64" where
  "base_seqs seq [] = ([], seq)"
| "base_seqs seq (e # es) =
     (case base_seqs (seq + word_of_nat (WriteBatch_count (ge_batch e))) es of (bs, s) \<Rightarrow> (seq # bs, s))"

fun apply_ops :: "MemTable \<Rightarrow> u64 \<Rightarrow> BatchOp list \<Rightarrow> MemTable option" where
  "apply_ops mt currentSeq [] = Some mt"
| "apply_ops mt currentSeq (p # ps) =
     (let opSeq = currentSeq + 1 in
      case MemTable_put mt (op_key p) (op_value p) opSeq (op_type p = kDelete) of
        None \<Rightarrow> None
      | Some mt \<Rightarrow> apply_ops mt opSeq ps)"

fun apply_group :: "MemTable \<Rightarrow> u64 list \<Rightarrow> GroupEntry list \<Rightarrow> MemTable option" where
  "apply_group mt (b # bs) (e # es) =
     (case apply_ops mt b (ge_batch e) of None \<Rightarrow> None | Some mt \<Rightarrow> apply_group mt bs es)"
| "apply_group mt _ _ = Some mt"

definition group_append :: "os \<Rightarrow> DBImpl \<Rightarrow> GroupEntry list \<Rightarrow> os \<times> Status" where
  "group_append os db grp =
     (case db_wal db of
        None \<Rightarrow> (os, Status_Ok)
      | Some wal \<Rightarrow>
          (case WAL_append os wal (group_image grp) of (os, ws) \<Rightarrow>
             if \<not> Status_ok ws then (os, ws)
             else if wal_sync (db_options db) \<and> list_ex (\<lambda>e. wopt_sync (ge_opts e)) grp
             then WAL_sync os wal
             else (os, Status_Ok)))"

definition doWriteGroup :: "os \<Rightarrow> DBImpl \<Rightarrow> GroupEntry list \<Rightarrow> (os \<times> DBImpl \<times> Status) option" where
  "doWriteGroup os db grp =
     (if grp = [] then Some (os, db, Status_Ok)
      else
        case base_seqs (db_seq db) grp of (bases, seq) \<Rightarrow>
          let db = db\<lparr>db_seq := seq\<rparr> in
          case group_append os db grp of (os, s) \<Rightarrow>
            if \<not> Status_ok s then Some (os, db, s)
            else
              case db_memtable db of
                None \<Rightarrow> None
              | Some (i, mt) \<Rightarrow>
                  (case apply_group mt bases grp of
                     None \<Rightarrow> None
                   | Some mt \<Rightarrow>
                       (case maybeFlush os (db\<lparr>db_memtable := Some (i, mt)\<rparr>) of (os, db) \<Rightarrow>
                          Some (os, db, Status_Ok))))"

definition write_follow :: "DBImpl \<Rightarrow> GroupEntry \<Rightarrow> DBImpl" where
  "write_follow db e = db\<lparr>db_group := db_group db @ [e]\<rparr>"

definition write_lead :: "DBImpl \<Rightarrow> GroupEntry \<Rightarrow> DBImpl" where
  "write_lead db e = db\<lparr>db_leader := True, db_group := db_group db @ [e]\<rparr>"

text \<open>The leader after its wait; the result lists the status every writer of the group gets.\<close>

definition write_commit :: "os \<Rightarrow> DBImpl \<Rightarrow> (os \<times> DBImpl \<times> (nat \<times> Status) list) option" where
  "write_commit os db =
     (let grp = db_group db in
      case doWriteGroup os (db\<lparr>db_group := [], db_leader := False\<rparr>) grp of
        None \<Rightarrow> None
      | Some (os, db, s) \<Rightarrow> Some (os, db, map (\<lambda>e. (ge_writer e, s)) grp))"

text \<open>\<open>write\<close> of a caller that nobody joins during the wait.\<close>

definition DBImpl_write :: "os \<Rightarrow> DBImpl \<Rightarrow> WriteOptions \<Rightarrow> WriteBatch \<Rightarrow> (os \<times> DBImpl \<times> Status) option" where
  "DBImpl_write os db opts batch =
     (let entry = \<lparr>ge_writer = 0, ge_batch = batch, ge_opts = opts\<rparr> in
      case write_commit os (write_lead db entry) of
        None \<Rightarrow> None
      | Some (os, db, results) \<Rightarrow> Some (os, db, snd (last results)))"

definition DBImpl_put :: "os \<Rightarrow> DBImpl \<Rightarrow> WriteOptions \<Rightarrow> Slice \<Rightarrow> Slice \<Rightarrow> (os \<times> DBImpl \<times> Status) option" where
  "DBImpl_put os db opts key val = DBImpl_write os db opts (WriteBatch_put [] key val)"

definition DBImpl_del :: "os \<Rightarrow> DBImpl \<Rightarrow> WriteOptions \<Rightarrow> Slice \<Rightarrow> (os \<times> DBImpl \<times> Status) option" where
  "DBImpl_del os db opts key = DBImpl_write os db opts (WriteBatch_del [] key)"

section \<open>Reads\<close>

fun search_memtables :: "MemTable list \<Rightarrow> Slice \<Rightarrow> u64 \<Rightarrow> bytes option option" where
  "search_memtables [] key seq = Some None"
| "search_memtables (mt # mts) key seq =
     (case MemTable_get mt key seq of
        None \<Rightarrow> None
      | Some (Some v) \<Rightarrow> Some (Some v)
      | Some None \<Rightarrow> search_memtables mts key seq)"

fun search_files :: "codec_lib \<Rightarrow> os \<Rightarrow> BlockCache option \<Rightarrow> path list \<Rightarrow> Slice \<Rightarrow> bytes option \<times> BlockCache option" where
  "search_files lib os cache [] key = (None, cache)"
| "search_files lib os cache (p # ps) key =
     (case SSTableReader_open os p of
        None \<Rightarrow> search_files lib os cache ps key
      | Some reader \<Rightarrow>
          (case SSTableReader_get lib os cache reader key of
             (Some v, cache) \<Rightarrow> (Some v, cache)
           | (None, cache) \<Rightarrow> search_files lib os cache ps key))"

definition memtables :: "DBImpl \<Rightarrow> MemTable list" where
  "memtables db = (case db_memtable db of None \<Rightarrow> [] | Some (_, mt) \<Rightarrow> [mt]) @ map snd (rev (db_immutables db))"

definition table_paths :: "DBImpl \<Rightarrow> path list" where
  "table_paths db = concat (map (Version_getLevelFiles (db_version db)) [0..max_level (db_options db)])"

definition DBImpl_get :: "codec_lib \<Rightarrow> os \<Rightarrow> DBImpl \<Rightarrow> Slice \<Rightarrow> (Status \<times> bytes option \<times> DBImpl) option" where
  "DBImpl_get lib os db key =
     (case search_memtables (memtables db) key (db_seq db) of
        None \<Rightarrow> None
      | Some (Some v) \<Rightarrow> Some (Status_Ok, Some v, db)
      | Some None \<Rightarrow>
          (case search_files lib os (db_cache db) (table_paths db) key of
             (Some v, cache) \<Rightarrow> Some (Status_Ok, Some v, db\<lparr>db_cache := cache\<rparr>)
           | (None, cache) \<Rightarrow> Some (Status_NotFound [], None, db\<lparr>db_cache := cache\<rparr>)))"

fun mem_children :: "MemTable list \<Rightarrow> ChildIterator option list option" where
  "mem_children [] = Some []"
| "mem_children (mt # mts) =
     (case MemTable_entries mt of
        None \<Rightarrow> None
      | Some es \<Rightarrow>
          (case mem_children mts of
             None \<Rightarrow> None
           | Some cs \<Rightarrow> Some (Some (MemChild (MemTableIterator_seekToFirst (MemTableIterator_new es))) # cs)))"

fun table_children :: "codec_lib \<Rightarrow> os \<Rightarrow> BlockCache option \<Rightarrow> path list \<Rightarrow> ChildIterator option list \<times> BlockCache option" where
  "table_children lib os cache [] = ([], cache)"
| "table_children lib os cache (p # ps) =
     (case SSTableReader_open os p of
        None \<Rightarrow> table_children lib os cache ps
      | Some reader \<Rightarrow>
          (case SSTableIterator_new lib os cache (Some reader) of (it, cache) \<Rightarrow>
             case table_children lib os cache ps of (cs, cache) \<Rightarrow>
               (Some (SstChild (SSTableIterator_seekToFirst it)) # cs, cache)))"

definition newIterator :: "codec_lib \<Rightarrow> os \<Rightarrow> DBImpl \<Rightarrow> (MergingIterator \<times> DBImpl) option" where
  "newIterator lib os db =
     (case mem_children (memtables db) of
        None \<Rightarrow> None
      | Some ms \<Rightarrow>
          (case table_children lib os (db_cache db) (table_paths db) of (ts, cache) \<Rightarrow>
             Some (MergingIterator_seekToFirst (MergingIterator_new (ms @ ts)), db\<lparr>db_cache := cache\<rparr>)))"

section \<open>Background flush\<close>

fun erase_memtable :: "nat \<Rightarrow> (nat \<times> MemTable) list \<Rightarrow> (nat \<times> MemTable) list" where
  "erase_memtable i [] = []"
| "erase_memtable i (m # ms) = (if fst m = i then ms else m # erase_memtable i ms)"

definition flush_erase :: "DBImpl \<Rightarrow> nat \<Rightarrow> DBImpl" where
  "flush_erase db i = db\<lparr>db_immutables := erase_memtable i (db_immutables db)\<rparr>"

definition flush_build :: "codec_lib \<Rightarrow> os \<Rightarrow> DBImpl \<Rightarrow> MemTableEntry list \<Rightarrow> os \<times> DBImpl" where
  "flush_build lib os db es =
     (case Version_nextFileNumber (db_version db) of (n, v) \<Rightarrow>
        let filePath = sst_path (db_dir db) 0 n;
            ctype = CompressionType_of_u8 (opt_compression (db_options db))
        in case SSTableBuilder_new os filePath (block_size (db_options db)) ctype of (os, sb) \<Rightarrow>
           case add_entries lib os sb (map (\<lambda>e. (internal_key e, entry_value e)) es) of (os, sb) \<Rightarrow>
           case SSTableBuilder_finish lib os sb of (os, sb, _) \<Rightarrow>
           case Version_addLevelFile os v 0 filePath of (os, v) \<Rightarrow> (os, db\<lparr>db_version := v\<rparr>))"

definition flushOne :: "codec_lib \<Rightarrow> os \<Rightarrow> DBImpl \<Rightarrow> nat \<times> MemTable \<Rightarrow> path list \<Rightarrow> (os \<times> DBImpl \<times> Status) option" where
  "flushOne lib os db flushing wals =
     (case MemTable_empty (snd flushing) of
        None \<Rightarrow> None
      | Some True \<Rightarrow> Some (unlink_all os wals, flush_erase db (fst flushing), Status_Ok)
      | Some False \<Rightarrow>
          (case MemTable_entries (snd flushing) of
             None \<Rightarrow> None
           | Some es \<Rightarrow>
               (case flush_build lib os db es of (os, db) \<Rightarrow>
                  Some (unlink_all os wals, flush_erase db (fst flushing), Status_Ok))))"

text \<open>One round of \<open>flushLoop\<close>: nothing to do, or the oldest entry is flushed and accounted for.\<close>

definition flush_pop :: "DBImpl \<Rightarrow> (FlushEntry \<times> DBImpl) option" where
  "flush_pop db =
     (case db_flush_queue db of
        [] \<Rightarrow> None
      | entry # queue \<Rightarrow>
          Some (entry, db\<lparr>db_flush_queue := queue, db_flush_inflight := db_flush_inflight db + 1\<rparr>))"

definition flush_done :: "DBImpl \<Rightarrow> FlushEntry \<Rightarrow> Status \<Rightarrow> DBImpl" where
  "flush_done db entry s =
     (let db = db\<lparr>db_flush_inflight := db_flush_inflight db - 1\<rparr>
      in if \<not> Status_ok s then db\<lparr>db_flush_queue := entry # db_flush_queue db\<rparr> else db)"

definition flush_round :: "codec_lib \<Rightarrow> os \<Rightarrow> DBImpl \<Rightarrow> (os \<times> DBImpl) option" where
  "flush_round lib os db =
     (case flush_pop db of
        None \<Rightarrow> Some (os, db)
      | Some (entry, db) \<Rightarrow>
          (case flushOne lib os db (fe_memtable entry) (fe_wals entry) of
             None \<Rightarrow> None
           | Some (os, db, s) \<Rightarrow> Some (os, flush_done db entry s)))"

fun flush_rounds :: "codec_lib \<Rightarrow> nat \<Rightarrow> os \<Rightarrow> DBImpl \<Rightarrow> (os \<times> DBImpl) option" where
  "flush_rounds lib 0 os db = Some (os, db)"
| "flush_rounds lib (Suc n) os db =
     (case flush_round lib os db of None \<Rightarrow> None | Some (os, db) \<Rightarrow> flush_rounds lib n os db)"

definition waitFlush_over :: "DBImpl \<Rightarrow> bool" where
  "waitFlush_over db \<longleftrightarrow> db_flush_queue db = [] \<and> db_flush_inflight db = 0"

definition DBImpl_compact :: "DBImpl \<Rightarrow> DBImpl" where
  "DBImpl_compact db = db\<lparr>db_compaction := map_option triggerCompaction (db_compaction db)\<rparr>"

text \<open>The destructor: sync, stop the compaction, let the flush thread drain its queue.\<close>

definition DBImpl_close :: "codec_lib \<Rightarrow> os \<Rightarrow> DBImpl \<Rightarrow> (os \<times> DBImpl) option" where
  "DBImpl_close lib os db =
     (let os = (case db_wal db of None \<Rightarrow> os | Some w \<Rightarrow> fst (WAL_sync os w));
          db = db\<lparr>db_compaction := map_option CompactionManager_stop (db_compaction db), db_flush_running := False\<rparr>
      in flush_rounds lib (length (db_flush_queue db)) os db)"

end
