(* ===== verification/Db_Reads.thy ===== *)
theory Db_Reads
  imports Db_Impl
begin

text \<open>
  What a reader of the database sees. \<open>ops_writes\<close> numbers the operations of batches the way
  \<open>doWriteGroup\<close> and \<open>replayWalFile\<close> do; \<open>mem_history\<close> says which writes a memtable holds.
  The lemmas show that a group is applied as one run of consecutively numbered writes, that a log
  record replays to the operations it was written from, that \<open>get\<close> asks the layers one after
  the other, and that a key whose last write is a put and not yet flushed reads that value.
\<close>

section \<open>Numbered operations\<close>

fun ops_writes :: "u64 \<Rightarrow> BatchOp list \<Rightarrow> write_op list" where
  "ops_writes seq [] = []"
| "ops_writes seq (p # ps) =
     \<lparr>w_key = op_key p, w_value = op_value p, w_seq = seq, w_delete = (op_type p = kDelete)\<rparr> # ops_writes (seq + 1) ps"

lemma length_ops_writes [simp]: "length (ops_writes seq ps) = length ps"
  by (induction seq ps rule: ops_writes.induct) auto

lemma ops_writes_append:
  "ops_writes seq (ps @ qs) = ops_writes seq ps @ ops_writes (seq + word_of_nat (length ps)) qs"
  by (induction seq ps rule: ops_writes.induct) (simp_all add: algebra_simps)

lemma ops_writes_nth_seq:
  "i < length ps \<Longrightarrow> w_seq (ops_writes seq ps ! i) = seq + word_of_nat i"
proof (induction seq ps arbitrary: i rule: ops_writes.induct)
  case (2 seq p ps)
  then show ?case by (cases i) (simp_all add: algebra_simps)
qed simp

lemma unat_plus_small: "unat (s :: u64) + n < 2 ^ 64 \<Longrightarrow> unat (s + word_of_nat n) = unat s + n"
  by (simp add: unat_word_ariths unat_of_nat)

lemma ops_writes_increasing:
  assumes "unat seq + length ps \<le> 2 ^ 56"
  shows "seqs_increasing (ops_writes seq ps)" "\<forall>w\<in>set (ops_writes seq ps). unat seq \<le> unat (w_seq w) \<and> unat (w_seq w) < unat seq + length ps"
proof -
  have nth: "unat (w_seq (ops_writes seq ps ! i)) = unat seq + i" if "i < length ps" for i
    using that assms by (simp add: ops_writes_nth_seq unat_plus_small)
  show all: "\<forall>w\<in>set (ops_writes seq ps). unat seq \<le> unat (w_seq w) \<and> unat (w_seq w) < unat seq + length ps"
    using nth by (auto simp: in_set_conv_nth)
  have "sorted_wrt (\<lambda>a b. w_seq a < w_seq b) (ops_writes seq ps)"
    unfolding sorted_wrt_iff_nth_less using nth by (auto simp: word_less_nat_alt)
  with all assms show "seqs_increasing (ops_writes seq ps)" by (fastforce simp: seqs_increasing_def)
qed

section \<open>Applying a group\<close>

lemma apply_ops_run: "apply_ops mt b ps = MemTable_run mt (ops_writes (b + 1) ps)"
  by (induction mt b ps rule: apply_ops.induct)
    (auto simp: MemTable_apply_def Let_def split: Option.bind_split option.split)

definition group_ops :: "GroupEntry list \<Rightarrow> BatchOp list" where
  "group_ops grp = concat (map ge_batch grp)"

lemma base_seqs_total: "snd (base_seqs seq grp) = seq + word_of_nat (length (group_ops grp))"
  by (induction seq grp rule: base_seqs.induct)
    (auto simp: group_ops_def WriteBatch_count_def algebra_simps split: prod.split)

lemma apply_group_run: "apply_group mt (fst (base_seqs seq grp)) grp = MemTable_run mt (ops_writes (seq + 1) (group_ops grp))"
proof (induction seq grp arbitrary: mt rule: base_seqs.induct)
  case (1 seq)
  show ?case by (simp add: group_ops_def)
next
  case (2 seq e es)
  obtain bs s where b: "base_seqs (seq + word_of_nat (WriteBatch_count (ge_batch e))) es = (bs, s)" by fastforce
  have ops: "group_ops (e # es) = ge_batch e @ group_ops es" by (simp add: group_ops_def)
  have "ops_writes (seq + 1) (group_ops (e # es)) = ops_writes (seq + 1) (ge_batch e) @
      ops_writes (seq + word_of_nat (WriteBatch_count (ge_batch e)) + 1) (group_ops es)"
    unfolding ops ops_writes_append by (simp add: WriteBatch_count_def algebra_simps)
  then show ?case using 2 [of _] b
    by (auto simp: apply_ops_run MemTable_run_append split: option.split Option.bind_split)
qed

section \<open>Log records\<close>

definition small_op :: "BatchOp \<Rightarrow> bool" where
  "small_op p \<longleftrightarrow> length (op_key p) < 2 ^ 32 \<and> length (op_value p) < 2 ^ 32"

lemma op_image_nonempty [simp]: "op_image p \<noteq> []"
  by (simp add: op_image_def)

lemma replay_record_op:
  assumes "small_op p"
  shows "replay_record mt seq (op_image p @ rest) =
    (case MemTable_put mt (op_key p) (op_value p) seq (op_type p = kDelete) of
       None \<Rightarrow> None | Some mt \<Rightarrow> replay_record mt (seq + 1) rest)"
proof -
  have len: "unat (size_u32 (op_key p)) = length (op_key p)" "unat (size_u32 (op_value p)) = length (op_value p)"
    using assms by (simp_all add: small_op_def unat_size_u32)
  have ty: "BatchOpType_u8 (op_type p) = 2 \<longleftrightarrow> op_type p = kDelete"
    by (simp add: BatchOpType_u8_def split: BatchOpType.split)
  show ?thesis
    by (subst replay_record.simps) (simp add: op_image_def len ty Let_def cong: option.case_cong)
qed

lemma replay_record_ops:
  assumes "list_all small_op ps"
  shows "replay_record mt seq (concat (map op_image ps) @ rest) =
    (case MemTable_run mt (ops_writes seq ps) of None \<Rightarrow> None
     | Some mt \<Rightarrow> replay_record mt (seq + word_of_nat (length ps)) rest)"
  using assms
proof (induction ps arbitrary: mt seq)
  case (Cons p ps)
  then show ?case by (auto simp: replay_record_op MemTable_apply_def add.assoc split: option.split)
qed simp

text \<open>A record written for a group replays to the operations of the group, in their order.\<close>

lemma replay_record_group:
  assumes "list_all small_op (group_ops grp)"
  shows "replay_record mt seq (group_image grp) =
    (case MemTable_run mt (ops_writes seq (group_ops grp)) of None \<Rightarrow> None
     | Some mt \<Rightarrow> Some (mt, seq + word_of_nat (length (group_ops grp))))"
proof -
  have "group_image grp = concat (map op_image (group_ops grp)) @ []"
    by (induction grp) (simp_all add: group_image_def group_ops_def)
  then show ?thesis
    using replay_record_ops [OF assms, of mt seq "[]"] by (simp add: replay_record.simps [of _ _ "[]"] cong: option.case_cong)
qed

lemma replay_records_groups:
  assumes "list_all small_op (concat (map group_ops grps))"
  shows "replay_records mt seq (map group_image grps) =
    (case MemTable_run mt (ops_writes seq (concat (map group_ops grps))) of None \<Rightarrow> None
     | Some mt \<Rightarrow> Some (mt, seq + word_of_nat (length (concat (map group_ops grps)))))"
  using assms
proof (induction grps arbitrary: mt seq)
  case (Cons grp grps)
  then show ?case
    by (auto simp: replay_record_group ops_writes_append MemTable_run_append algebra_simps
        split: option.split Option.bind_split)
qed simp

section \<open>Histories\<close>

definition mem_history :: "MemTable \<Rightarrow> write_op list \<Rightarrow> bool" where
  "mem_history mt ws \<longleftrightarrow> (\<exists>n rng. MemTable_run (MemTable_new n rng) ws = Some mt) \<and> seqs_increasing ws"

lemma mem_history_new: "mem_history (MemTable_new n rng) []"
  by (auto simp: mem_history_def seqs_increasing_def intro: exI [of _ n] exI [of _ rng])

lemma mem_history_get: "mem_history mt ws \<Longrightarrow> MemTable_get mt uk seq = Some (read_write (last_write ws uk))"
proof -
  assume "mem_history mt ws"
  then obtain n rng where "MemTable_run (MemTable_new n rng) ws = Some mt" "seqs_increasing ws"
    by (auto simp: mem_history_def)
  with MemTable_run_get [of ws n rng uk seq] show ?thesis by auto
qed

lemma mem_history_inv:
  assumes "mem_history mt ws"
  shows "MemTable_inv mt" "set (MemTable_content mt) = entry_of ` set ws"
proof -
  obtain n rng where "MemTable_run (MemTable_new n rng) ws = Some mt" "seqs_increasing ws"
    using assms by (auto simp: mem_history_def)
  with MemTable_run_versions [of ws n rng] show "MemTable_inv mt" "set (MemTable_content mt) = entry_of ` set ws"
    by auto
qed

lemma MemTable_run_total: "MemTable_inv mt \<Longrightarrow> \<exists>mt'. MemTable_run mt ws = Some mt' \<and> MemTable_inv mt' \<and> mt_max_size mt' = mt_max_size mt"
proof (induction ws arbitrary: mt)
  case (Cons w ws)
  obtain mt1 where "MemTable_apply mt w = Some mt1" "MemTable_inv mt1" "mt_max_size mt1 = mt_max_size mt"
    using MemTable_apply_content [OF Cons.prems, of w] by blast
  with Cons.IH [of mt1] show ?case by auto
qed simp

lemma mem_history_run:
  assumes "mem_history mt ws" "seqs_increasing (ws @ us)"
  shows "\<exists>mt'. MemTable_run mt us = Some mt' \<and> mem_history mt' (ws @ us)"
proof -
  obtain n rng where n: "MemTable_run (MemTable_new n rng) ws = Some mt" using assms(1) by (auto simp: mem_history_def)
  obtain mt' where mt': "MemTable_run mt us = Some mt'" using MemTable_run_total [OF mem_history_inv(1) [OF assms(1)]] by blast
  then have "MemTable_run (MemTable_new n rng) (ws @ us) = Some mt'" using n by (simp add: MemTable_run_append)
  with mt' assms(2) show ?thesis by (auto simp: mem_history_def)
qed

lemma last_write_append:
  "last_write (hs @ ws) k = (case last_write ws k of Some w \<Rightarrow> Some w | None \<Rightarrow> last_write hs k)"
  by (simp add: last_write_def Let_def)

text \<open>The layers newest first: the newest one that has the key decides, as long as it is not deleted there.\<close>

lemma search_memtables_history:
  assumes "list_all2 mem_history mts wss" "last_write (concat (rev wss)) k = Some w" "\<not> w_delete w"
  shows "search_memtables mts k seq = Some (Some (w_value w))"
  using assms
proof (induction mts wss rule: list_all2_induct)
  case (Cons mt mts ws wss)
  show ?case
  proof (cases "last_write ws k")
    case None
    then show ?thesis using Cons by (simp add: last_write_append mem_history_get read_write_def)
  next
    case (Some u)
    then show ?thesis using Cons by (simp add: last_write_append mem_history_get read_write_def)
  qed
qed (simp add: last_write_def)

text \<open>Nothing in memory: no layer has the key.\<close>

lemma search_memtables_absent:
  assumes "list_all2 mem_history mts wss" "last_write (concat (rev wss)) k = None"
  shows "search_memtables mts k seq = Some None"
  using assms
proof (induction mts wss rule: list_all2_induct)
  case (Cons mt mts ws wss)
  then show ?case
    by (simp add: last_write_append mem_history_get read_write_def split: option.splits)
qed simp

section \<open>get asks one layer after the other\<close>

fun first_live :: "(bytes \<times> bytes) list list \<Rightarrow> bytes \<Rightarrow> bytes option" where
  "first_live [] k = None"
| "first_live (es # ess) k = (case memtable_scan es k of Some v \<Rightarrow> Some v | None \<Rightarrow> first_live ess k)"

lemma first_live_append:
  "first_live (ess @ fss) k = (case first_live ess k of Some v \<Rightarrow> Some v | None \<Rightarrow> first_live fss k)"
  by (induction ess) (auto split: option.split)

lemma search_memtables_live:
  "list_all MemTable_inv mts \<Longrightarrow> search_memtables mts k seq = Some (first_live (map MemTable_content mts) k)"
  by (induction mts) (auto simp: MemTable_get_scan split: option.split)

lemma search_files_live:
  assumes "list_all2 (\<lambda>p es. table_on_disk lib os p es \<and> sorted_entries es) ps ess" "cache_coherent lib os cache"
  shows "\<exists>cache'. search_files lib os cache ps k = (first_live ess k, cache') \<and> cache_coherent lib os cache'"
  using assms
proof (induction arbitrary: cache rule: list_all2_induct)
  case (Cons p ps es ess)
  obtain r cache1 where r: "SSTableReader_open os p = Some r"
    "SSTableReader_get lib os cache r k = (memtable_scan es k, cache1)" "cache_coherent lib os cache1"
    using table_get [of lib os p es cache k] Cons.hyps Cons.prems by blast
  show ?case using r Cons.IH [OF r(3)] by (cases "memtable_scan es k") auto
qed simp

lemma DBImpl_get_layers:
  assumes "list_all MemTable_inv (memtables db)"
    "list_all2 (\<lambda>p es. table_on_disk lib os p es \<and> sorted_entries es) (table_paths db) ess"
    "cache_coherent lib os (db_cache db)"
  shows "\<exists>cache'. cache_coherent lib os cache' \<and> DBImpl_get lib os db k =
    Some (case first_live (map MemTable_content (memtables db) @ ess) k of
            Some v \<Rightarrow> (Status_Ok, Some v, if first_live (map MemTable_content (memtables db)) k = None then db\<lparr>db_cache := cache'\<rparr> else db)
          | None \<Rightarrow> (Status_NotFound [], None, db\<lparr>db_cache := cache'\<rparr>))"
proof -
  obtain cache' where "search_files lib os (db_cache db) (table_paths db) k = (first_live ess k, cache')"
    "cache_coherent lib os cache'"
    using search_files_live [OF assms(2,3)] by blast
  then show ?thesis
    by (intro exI [of _ cache']) (auto simp: DBImpl_get_def search_memtables_live [OF assms(1)] first_live_append split: option.split)
qed

end
