(* ===== verification/Db_System.thy ===== *)
theory Db_System
  imports Db_Reads
begin

text \<open>
  The running database as a state machine: writers that lead or follow a group commit, the flush
  thread with the three phases of \<open>flushOne\<close> (the table is built and registered; the memtable
  leaves \<open>immutable_list_\<close>; the logs are unlinked), and readers. Steps of different threads
  interleave freely. The state carries the history of acknowledged writes as a ghost field. The
  invariant, proved by rule induction over the steps, says that the version, its MANIFEST and the
  table files agree, that the layers in memory hold the unflushed writes in order, and that every
  acknowledged write is in a memtable or in a registered table, in every reachable state.

  The steps assume that no system call fails and that the counters have not run out: sequence
  numbers below \<open>2 ^ 56\<close>, file numbers below \<open>2 ^ 63\<close>, records below \<open>2 ^ 32\<close> bytes and
  memtables below \<open>2 ^ 31\<close> bytes.
\<close>

section \<open>The state machine\<close>

datatype flush_stage = Popped | Built | Erased

record db_sys =
  s_os :: os
  s_db :: DBImpl
  s_hist :: "write_op list"
  s_flush :: "(FlushEntry \<times> flush_stage) option"

definition numbers_left :: "DBImpl \<Rightarrow> bool" where
  "numbers_left db \<longleftrightarrow> unat (v_next_file_number (db_version db)) < 2 ^ 63"

definition group_fits :: "DBImpl \<Rightarrow> bool" where
  "group_fits db \<longleftrightarrow> unat (db_seq db) + length (group_ops (db_group db)) + 1 \<le> 2 ^ 56 \<and>
     length (group_image (db_group db)) < 2 ^ 32 \<and> numbers_left db"

inductive db_step :: "codec_lib \<Rightarrow> db_sys \<Rightarrow> db_sys \<Rightarrow> bool" for lib where
  lead: "\<not> db_leader (s_db s) \<Longrightarrow> db_step lib s (s\<lparr>s_db := write_lead (s_db s) e\<rparr>)"
| follow: "db_leader (s_db s) \<Longrightarrow> db_step lib s (s\<lparr>s_db := write_follow (s_db s) e\<rparr>)"
| commit: "db_leader (s_db s) \<Longrightarrow> group_fits (s_db s) \<Longrightarrow> write_commit (s_os s) (s_db s) = Some (os', db', results) \<Longrightarrow>
    db_step lib s (s\<lparr>s_os := os', s_db := db',
      s_hist := s_hist s @ ops_writes (db_seq (s_db s) + 1) (group_ops (db_group (s_db s)))\<rparr>)"
| start: "s_flush s = None \<Longrightarrow> flush_pop (s_db s) = Some (entry, db') \<Longrightarrow>
    db_step lib s (s\<lparr>s_db := db', s_flush := Some (entry, Popped)\<rparr>)"
| build: "s_flush s = Some (entry, Popped) \<Longrightarrow> MemTable_empty (snd (fe_memtable entry)) = Some False \<Longrightarrow>
    MemTable_entries (snd (fe_memtable entry)) = Some es \<Longrightarrow>
    table_weight (MemTable_content (snd (fe_memtable entry))) < 2 ^ 31 \<Longrightarrow> numbers_left (s_db s) \<Longrightarrow>
    flush_build lib (s_os s) (s_db s) es = (os', db') \<Longrightarrow>
    db_step lib s (s\<lparr>s_os := os', s_db := db', s_flush := Some (entry, Built)\<rparr>)"
| erase: "s_flush s = Some (entry, Built) \<Longrightarrow>
    db_step lib s (s\<lparr>s_db := flush_erase (s_db s) (fst (fe_memtable entry)), s_flush := Some (entry, Erased)\<rparr>)"
| unlink: "s_flush s = Some (entry, Erased) \<Longrightarrow>
    db_step lib s (s\<lparr>s_os := unlink_all (s_os s) (fe_wals entry),
      s_db := flush_done (s_db s) entry Status_Ok, s_flush := None\<rparr>)"
| drop_empty: "s_flush s = Some (entry, Popped) \<Longrightarrow> MemTable_empty (snd (fe_memtable entry)) = Some True \<Longrightarrow>
    db_step lib s (s\<lparr>s_os := unlink_all (s_os s) (fe_wals entry),
      s_db := flush_done (flush_erase (s_db s) (fst (fe_memtable entry))) entry Status_Ok, s_flush := None\<rparr>)"
| read: "DBImpl_get lib (s_os s) (s_db s) k = Some (st, v, db') \<Longrightarrow> db_step lib s (s\<lparr>s_db := db'\<rparr>)"

section \<open>The invariant\<close>

definition dir_ok :: "path \<Rightarrow> bool" where
  "dir_ok dir \<longleftrightarrow> (\<forall>l n. l < 8 \<longrightarrow> short_path (sst_path dir l n))"

definition is_wal_path :: "path \<Rightarrow> path \<Rightarrow> bool" where
  "is_wal_path dir p \<longleftrightarrow> (\<exists>n. p = makeWalPath dir n)"

definition files_ok :: "codec_lib \<Rightarrow> os \<Rightarrow> DBImpl \<Rightarrow> bool" where
  "files_ok lib os db \<longleftrightarrow>
     codec_ok lib \<and> os_faults os = [] \<and> version_inv os (db_version db) \<and> dir_ok (db_dir db) \<and>
     version_manifest_path (db_version db) = db_dir db @ str ''/MANIFEST'' \<and>
     (\<forall>l<8. \<forall>meta\<in>set (v_levels (db_version db) ! l). \<exists>n es. meta_path meta = sst_path (db_dir db) l n \<and>
        n < v_next_file_number (db_version db) \<and> table_on_disk lib os (meta_path meta) es \<and> sorted_entries es) \<and>
     cache_coherent lib os (db_cache db) \<and>
     (\<forall>l n. v_next_file_number (db_version db) \<le> n \<longrightarrow> file_of os (sst_path (db_dir db) l n) = None)"

definition wal_below :: "path \<Rightarrow> u64 \<Rightarrow> path \<Rightarrow> bool" where
  "wal_below dir n p \<longleftrightarrow> (\<exists>k<n. p = makeWalPath dir k)"

definition flush_wals :: "(FlushEntry \<times> flush_stage) option \<Rightarrow> path list" where
  "flush_wals fl = (case fl of None \<Rightarrow> [] | Some (e, _) \<Rightarrow> fe_wals e)"

definition old_wals :: "DBImpl \<Rightarrow> (FlushEntry \<times> flush_stage) option \<Rightarrow> path set" where
  "old_wals db fl = set (db_obsolete_wals db) \<union> \<Union> (set ` fe_wals ` set (db_flush_queue db)) \<union> set (flush_wals fl)"

text \<open>The log being written exists and is none of the logs that a flush will unlink.\<close>

definition wals_ok :: "os \<Rightarrow> DBImpl \<Rightarrow> (FlushEntry \<times> flush_stage) option \<Rightarrow> bool" where
  "wals_ok os db fl \<longleftrightarrow>
     (\<exists>w. db_wal db = Some w \<and> wal_fd w = Some (db_current_wal db)) \<and> file_of os (db_current_wal db) \<noteq> None \<and>
     (\<forall>p \<in> insert (db_current_wal db) (old_wals db fl). wal_below (db_dir db) (v_next_file_number (db_version db)) p) \<and>
     db_current_wal db \<notin> old_wals db fl"

definition pending :: "(FlushEntry \<times> flush_stage) option \<Rightarrow> (nat \<times> MemTable) list" where
  "pending fl = (case fl of Some (e, Popped) \<Rightarrow> [fe_memtable e] | Some (e, Built) \<Rightarrow> [fe_memtable e] | _ \<Rightarrow> [])"

definition queue_ok :: "DBImpl \<Rightarrow> (FlushEntry \<times> flush_stage) option \<Rightarrow> bool" where
  "queue_ok db fl \<longleftrightarrow> db_immutables db = pending fl @ map fe_memtable (db_flush_queue db)"

definition layers_ok :: "DBImpl \<Rightarrow> (FlushEntry \<times> flush_stage) option \<Rightarrow> write_op list list \<Rightarrow> write_op list \<Rightarrow> bool" where
  "layers_ok db fl Ws ws \<longleftrightarrow>
     (\<exists>i mt. db_memtable db = Some (i, mt) \<and> mem_history mt ws \<and> i < db_next_mem db \<and> i \<notin> fst ` set (db_immutables db)) \<and>
     list_all2 (\<lambda>m. mem_history (snd m)) (db_immutables db) Ws \<and>
     seqs_increasing (concat Ws @ ws) \<and> (\<forall>w\<in>set (concat Ws @ ws). w_seq w \<le> db_seq db) \<and>
     distinct (map fst (db_immutables db)) \<and> (\<forall>m\<in>set (db_immutables db). fst m < db_next_mem db) \<and>
     queue_ok db fl"

definition registered :: "DBImpl \<Rightarrow> path set" where
  "registered db = {meta_path meta | meta l. l < 8 \<and> meta \<in> set (v_levels (db_version db) ! l)}"

definition in_table :: "codec_lib \<Rightarrow> os \<Rightarrow> DBImpl \<Rightarrow> write_op \<Rightarrow> bool" where
  "in_table lib os db w \<longleftrightarrow> (\<exists>p\<in>registered db. \<exists>es. table_on_disk lib os p es \<and> entry_of w \<in> set es)"

text \<open>
  While the table of the memtable in flight is built but the memtable not yet erased, both hold its
  writes. The set \<open>ex\<close> has the writes that compactions have dropped; without them it is empty.
\<close>

definition flush_ok :: "codec_lib \<Rightarrow> write_op set \<Rightarrow> os \<Rightarrow> DBImpl \<Rightarrow> (FlushEntry \<times> flush_stage) option \<Rightarrow> write_op list list \<Rightarrow> bool" where
  "flush_ok lib ex os db fl Ws \<longleftrightarrow>
     (\<forall>e. fl = Some (e, Built) \<longrightarrow> Ws \<noteq> [] \<and> (\<forall>w\<in>set (hd Ws). in_table lib os db w \<or> w \<in> ex))"

definition sys_ok_but :: "codec_lib \<Rightarrow> write_op set \<Rightarrow> db_sys \<Rightarrow> write_op list list \<Rightarrow> write_op list \<Rightarrow> bool" where
  "sys_ok_but lib ex s Ws ws \<longleftrightarrow>
     files_ok lib (s_os s) (s_db s) \<and> wals_ok (s_os s) (s_db s) (s_flush s) \<and> layers_ok (s_db s) (s_flush s) Ws ws \<and>
     flush_ok lib ex (s_os s) (s_db s) (s_flush s) Ws \<and>
     (\<forall>w\<in>set (s_hist s). w \<in> set (concat Ws @ ws) \<or> in_table lib (s_os s) (s_db s) w \<or> w \<in> ex)"

definition sys_ok :: "codec_lib \<Rightarrow> db_sys \<Rightarrow> write_op list list \<Rightarrow> write_op list \<Rightarrow> bool" where
  "sys_ok lib s Ws ws \<longleftrightarrow>
     files_ok lib (s_os s) (s_db s) \<and> wals_ok (s_os s) (s_db s) (s_flush s) \<and> layers_ok (s_db s) (s_flush s) Ws ws \<and>
     flush_ok lib {} (s_os s) (s_db s) (s_flush s) Ws \<and>
     (\<forall>w\<in>set (s_hist s). w \<in> set (concat Ws @ ws) \<or> in_table lib (s_os s) (s_db s) w)"

section \<open>Frames\<close>

lemma is_sst_wal: "\<not> is_sst (makeWalPath dir n)"
proof -
  obtain pre where "makeWalPath dir n = pre @ str ''.log''" by (simp add: makeWalPath_def)
  then show ?thesis by (simp add: is_sst_def str_def)
qed

lemma wal_path_other:
  "is_wal_path dir p \<Longrightarrow> p \<noteq> sst_path dir l n" "is_wal_path dir p \<Longrightarrow> p \<noteq> sst_path dir l n @ str ''.bloom''"
  "is_wal_path dir p \<Longrightarrow> p \<noteq> dir @ str ''/MANIFEST''" "is_wal_path dir p \<Longrightarrow> \<not> is_sst p"
  by (auto simp: is_wal_path_def is_sst_wal)

lemma wal_below_path: "wal_below dir n p \<Longrightarrow> is_wal_path dir p"
  by (auto simp: wal_below_def is_wal_path_def)

lemma wal_below_mono: "wal_below dir n p \<Longrightarrow> n \<le> m \<Longrightarrow> wal_below dir m p"
  by (auto simp: wal_below_def intro: less_le_trans)

lemma wal_below_fresh: "\<not> wal_below dir n (makeWalPath dir n)"
  by (simp add: wal_below_def makeWalPath_inject)

text \<open>Steps that touch log files only.\<close>

definition logs_only :: "path \<Rightarrow> os \<Rightarrow> os \<Rightarrow> bool" where
  "logs_only dir os os' \<longleftrightarrow> os_faults os' = [] \<and> (\<forall>q. \<not> is_wal_path dir q \<longrightarrow> file_of os' q = file_of os q)"

lemma logs_only_table:
  assumes "logs_only dir os os'" "table_on_disk lib os (sst_path dir l n) es"
  shows "table_on_disk lib os' (sst_path dir l n) es"
proof (rule table_on_disk_frame [OF assms(2)])
  have "\<not> is_wal_path dir (sst_path dir l n)" "\<not> is_wal_path dir (sst_path dir l n @ str ''.bloom'')"
    using wal_path_other(1,2) by blast+
  with assms(1) show "file_of os' (sst_path dir l n) = file_of os (sst_path dir l n)"
    "file_of os' (sst_path dir l n @ str ''.bloom'') = file_of os (sst_path dir l n @ str ''.bloom'')"
    by (simp_all add: logs_only_def)
qed

lemma logs_only_files:
  assumes "files_ok lib os db" "logs_only (db_dir db) os os'"
  shows "files_ok lib os' db"
proof -
  have same: "file_of os' q = file_of os q" if "\<not> is_wal_path (db_dir db) q" for q
    using assms(2) that by (simp add: logs_only_def)
  have "version_inv os' (db_version db)"
    by (rule version_inv_frame [of os]) (use assms(1) same wal_path_other(3) in \<open>auto simp: files_ok_def\<close>)
  moreover have "cache_coherent lib os' (db_cache db)"
    by (rule coherent_frame [of lib os]) (use assms(1) same wal_path_other(4) in \<open>auto simp: files_ok_def\<close>)
  moreover have "\<exists>n es. meta_path meta = sst_path (db_dir db) l n \<and>
      n < v_next_file_number (db_version db) \<and> table_on_disk lib os' (meta_path meta) es \<and> sorted_entries es"
    if l: "l < 8" "meta \<in> set (v_levels (db_version db) ! l)" for l meta
  proof -
    obtain n es where "meta_path meta = sst_path (db_dir db) l n" "n < v_next_file_number (db_version db)"
      "table_on_disk lib os (meta_path meta) es" "sorted_entries es"
      using assms(1) l unfolding files_ok_def by blast
    then show ?thesis using logs_only_table [OF assms(2)] by metis
  qed
  moreover have "file_of os' (sst_path (db_dir db) l n) = file_of os (sst_path (db_dir db) l n)" for l n
    using same wal_path_other(1) by blast
  ultimately show ?thesis using assms by (simp add: files_ok_def logs_only_def)
qed

lemma registered_path:
  assumes "files_ok lib os db" "p \<in> registered db"
  shows "\<exists>l n es. l < 8 \<and> p = sst_path (db_dir db) l n \<and> n < v_next_file_number (db_version db) \<and>
    table_on_disk lib os p es \<and> sorted_entries es"
  using assms unfolding files_ok_def registered_def by blast

lemma logs_only_in_table:
  assumes "files_ok lib os db" "logs_only (db_dir db) os os'" "in_table lib os db w"
  shows "in_table lib os' db w"
proof -
  obtain p es where p: "p \<in> registered db" "table_on_disk lib os p es" "entry_of w \<in> set es"
    using assms(3) by (auto simp: in_table_def)
  obtain l n where "p = sst_path (db_dir db) l n" using registered_path [OF assms(1) p(1)] by blast
  then have "table_on_disk lib os' p es" using p(2) logs_only_table [OF assms(2)] by simp
  with p show ?thesis unfolding in_table_def by blast
qed

lemma unlink_logs: "os_faults os = [] \<Longrightarrow> list_all (is_wal_path dir) ps \<Longrightarrow> logs_only dir os (unlink_all os ps)"
  using unlink_all_ok [of os ps] by (auto simp: logs_only_def list_all_iff)

lemma logs_only_trans: "logs_only dir os os1 \<Longrightarrow> logs_only dir os1 os2 \<Longrightarrow> logs_only dir os os2"
  by (simp add: logs_only_def)

lemma new_log:
  assumes "os_faults os = []" "is_wal_path dir p"
  shows "\<exists>os'. WAL_new os p = (os', \<lparr>wal_path = p, wal_fd = Some p\<rparr>) \<and> logs_only dir os os' \<and> file_of os' p \<noteq> None \<and>
    (\<forall>q. file_of os q \<noteq> None \<longrightarrow> file_of os' q = file_of os q)"
  using assms by (auto simp: WAL_new_def sys_open_creat_def logs_only_def split: option.split)

lemma sync_log:
  assumes "os_faults os = []" "wal_fd w = Some p" "is_wal_path dir p"
  shows "\<exists>os'. WAL_sync os w = (os', Status_Ok) \<and> logs_only dir os os' \<and> (\<forall>q. file_of os q \<noteq> None \<longleftrightarrow> file_of os' q \<noteq> None)"
  using assms by (auto simp: WAL_sync_def sys_fdatasync_def logs_only_def split: option.split)

lemma append_log:
  assumes "os_faults os = []" "wal_fd w = Some p" "is_wal_path dir p" "wal_ok data"
  shows "\<exists>os'. WAL_append os w data = (os', Status_Ok) \<and> logs_only dir os os' \<and> (\<forall>q. file_of os q \<noteq> None \<longleftrightarrow> file_of os' q \<noteq> None)"
  using WAL_append_ok [OF assms(2,1,4)] assms by (auto simp: logs_only_def append_file_of)

section \<open>Writers\<close>

lemma files_ok_fields:
  assumes "db_version db' = db_version db" "db_dir db' = db_dir db" "db_cache db' = db_cache db"
  shows "files_ok lib os db' = files_ok lib os db" "in_table lib os db' w = in_table lib os db w"
  using assms by (simp_all add: files_ok_def in_table_def registered_def)

lemma wals_ok_fields:
  assumes "db_wal db' = db_wal db" "db_current_wal db' = db_current_wal db" "db_obsolete_wals db' = db_obsolete_wals db"
    "db_flush_queue db' = db_flush_queue db" "db_dir db' = db_dir db"
    "v_next_file_number (db_version db') = v_next_file_number (db_version db)"
  shows "wals_ok os db' fl = wals_ok os db fl"
  using assms by (simp add: wals_ok_def old_wals_def)

lemma wals_ok_current:
  assumes "wals_ok os db fl"
  obtains w where "db_wal db = Some w" "wal_fd w = Some (db_current_wal db)" "is_wal_path (db_dir db) (db_current_wal db)"
    "file_of os (db_current_wal db) \<noteq> None"
  using assms wal_below_path by (auto simp: wals_ok_def)

lemma layers_ok_fields:
  assumes "db_memtable db' = db_memtable db" "db_immutables db' = db_immutables db" "db_next_mem db' = db_next_mem db"
    "db_seq db' = db_seq db" "db_flush_queue db' = db_flush_queue db"
  shows "layers_ok db' fl Ws ws = layers_ok db fl Ws ws"
  using assms by (simp add: layers_ok_def queue_ok_def)

lemma in_table_levels:
  "v_levels (db_version db') = v_levels (db_version db) \<Longrightarrow> in_table lib os db' w = in_table lib os db w"
  by (simp add: in_table_def registered_def)

lemma next_number: "numbers_left db \<Longrightarrow> v_next_file_number (db_version db) < v_next_file_number (db_version db) + 1"
  by (auto simp: numbers_left_def word_less_nat_alt unat_word_ariths)

lemma files_ok_number:
  assumes "files_ok lib os db" "v_next_file_number (db_version db) \<le> n"
  shows "files_ok lib os (db\<lparr>db_version := (db_version db)\<lparr>v_next_file_number := n\<rparr>\<rparr>)"
proof -
  have "version_manifest_path ((db_version db)\<lparr>v_next_file_number := n\<rparr>) = version_manifest_path (db_version db)"
    by (simp add: version_manifest_path_def)
  moreover have "\<exists>k es. meta_path meta = sst_path (db_dir db) l k \<and> k < n \<and> table_on_disk lib os (meta_path meta) es \<and> sorted_entries es"
    if l: "l < 8" "meta \<in> set (v_levels (db_version db) ! l)" for l meta
  proof -
    obtain k es where "meta_path meta = sst_path (db_dir db) l k" "k < v_next_file_number (db_version db)"
      "table_on_disk lib os (meta_path meta) es" "sorted_entries es"
      using assms(1) l unfolding files_ok_def by blast
    with assms(2) show ?thesis by (metis less_le_trans)
  qed
  moreover have "file_of os (sst_path (db_dir db) l k) = None" if "n \<le> k" for l k
    using assms that order_trans unfolding files_ok_def by blast
  ultimately show ?thesis using assms(1) by (simp add: files_ok_def version_inv_counter)
qed

lemma rotateWal_ok:
  assumes "files_ok lib os db" "wals_ok os db fl" "numbers_left db" "rotateWal os db = (os', db', s)"
  shows "files_ok lib os' db'" "wals_ok os' db' fl" "logs_only (db_dir db) os os'"
    "\<exists>w p n. db' = db\<lparr>db_version := (db_version db)\<lparr>v_next_file_number := n\<rparr>,
       db_obsolete_wals := db_obsolete_wals db @ [db_current_wal db], db_wal := Some w, db_current_wal := p\<rparr>"
proof -
  let ?n = "v_next_file_number (db_version db)"
  let ?p = "makeWalPath (db_dir db) ?n"
  have p: "is_wal_path (db_dir db) ?p" by (auto simp: is_wal_path_def)
  obtain w where w: "db_wal db = Some w" "wal_fd w = Some (db_current_wal db)" "is_wal_path (db_dir db) (db_current_wal db)"
    "file_of os (db_current_wal db) \<noteq> None"
    using assms(2) by (rule wals_ok_current)
  then have cur: "db_current_wal db \<noteq> []" by (auto simp: is_wal_path_def makeWalPath_def str_def)
  have f: "os_faults os = []" using assms(1) by (simp add: files_ok_def)
  obtain os1 where os1: "WAL_new os ?p = (os1, \<lparr>wal_path = ?p, wal_fd = Some ?p\<rparr>)" "logs_only (db_dir db) os os1"
    "file_of os1 ?p \<noteq> None" using new_log [OF f p] by blast
  have f1: "os_faults os1 = []" using os1(2) by (simp add: logs_only_def)
  obtain os2 where os2: "WAL_sync os1 w = (os2, Status_Ok)" "logs_only (db_dir db) os1 os2"
    "\<forall>q. file_of os1 q \<noteq> None \<longleftrightarrow> file_of os2 q \<noteq> None" using sync_log [OF f1 w(2,3)] by blast
  have db': "os' = os2" "db' = db\<lparr>db_version := (db_version db)\<lparr>v_next_file_number := ?n + 1\<rparr>,
      db_obsolete_wals := db_obsolete_wals db @ [db_current_wal db], db_wal := Some \<lparr>wal_path = ?p, wal_fd = Some ?p\<rparr>,
      db_current_wal := ?p\<rparr>"
    using assms(4) os1(1) os2(1) w(1) cur
    by (auto simp: rotateWal_def Version_nextFileNumber_def Version_ensureNextFileNumberAtLeast_def Let_def)
  show l: "logs_only (db_dir db) os os'" using logs_only_trans [OF os1(2) os2(2)] by (simp add: db')
  show "\<exists>w p n. db' = db\<lparr>db_version := (db_version db)\<lparr>v_next_file_number := n\<rparr>,
       db_obsolete_wals := db_obsolete_wals db @ [db_current_wal db], db_wal := Some w, db_current_wal := p\<rparr>"
    unfolding db'(2) by blast
  have le: "?n \<le> ?n + 1" using next_number [OF assms(3)] by simp
  show "files_ok lib os' db'"
    using files_ok_number [OF logs_only_files [OF assms(1) l] le] by (subst files_ok_fields) (auto simp: db')
  have below: "wal_below (db_dir db) ?n q" if "q \<in> insert (db_current_wal db) (old_wals db fl)" for q
    using assms(2) that unfolding wals_ok_def by blast
  have old: "old_wals db' fl = insert (db_current_wal db) (old_wals db fl)" by (auto simp: old_wals_def db')
  have "?p \<notin> old_wals db' fl" using below wal_below_fresh [of "db_dir db" ?n] by (auto simp: old)
  moreover have "wal_below (db_dir db) (?n + 1) q" if "q \<in> insert ?p (old_wals db' fl)" for q
    using that below wal_below_mono [OF _ le] next_number [OF assms(3)] unfolding old by (auto simp: wal_below_def)
  ultimately show "wals_ok os' db' fl" using os1(3) os2(3) by (simp add: wals_ok_def db')
qed

lemma layers_freeze:
  assumes "layers_ok db fl Ws ws" "db_memtable db = Some (i, mt)"
    "db_memtable db' = Some (db_next_mem db, MemTable_new k rng)" "db_next_mem db' = db_next_mem db + 1"
    "db_immutables db' = db_immutables db @ [(i, mt)]" "db_seq db' = db_seq db"
    "map fe_memtable (db_flush_queue db') = map fe_memtable (db_flush_queue db) @ [(i, mt)]"
  shows "layers_ok db' fl (Ws @ [ws]) []"
proof -
  have m: "mem_history mt ws" "i < db_next_mem db" "i \<notin> fst ` set (db_immutables db)"
    and im: "list_all2 (\<lambda>m. mem_history (snd m)) (db_immutables db) Ws" "distinct (map fst (db_immutables db))"
      "\<forall>m\<in>set (db_immutables db). fst m < db_next_mem db" "queue_ok db fl"
    and sq: "seqs_increasing (concat Ws @ ws)" "\<forall>w\<in>set (concat Ws @ ws). w_seq w \<le> db_seq db"
    using assms(1) unfolding layers_ok_def assms(2) by blast+
  have "list_all2 (\<lambda>m. mem_history (snd m)) (db_immutables db') (Ws @ [ws])"
    unfolding assms(5) using im(1) m(1) by (simp add: list_all2_appendI)
  moreover have "distinct (map fst (db_immutables db'))" "\<forall>m\<in>set (db_immutables db'). fst m < db_next_mem db'"
    using m im(2,3) less_Suc_eq by (auto simp: assms(4,5))
  moreover have "db_next_mem db \<notin> fst ` set (db_immutables db')" using m im(3) by (auto simp: assms(5))
  moreover have "queue_ok db' fl" using im(4) assms(5,7) by (simp add: queue_ok_def)
  ultimately show ?thesis
    using sq assms(3,4,6) mem_history_new by (simp add: layers_ok_def)
qed

text \<open>What \<open>maybeFlush\<close> leaves alone: the writes in memory, in their order, and the first layer.\<close>

lemma maybeFlush_ok:
  assumes "files_ok lib os db" "wals_ok os db fl" "layers_ok db fl Ws ws" "numbers_left db" "maybeFlush os db = (os', db')"
  shows "\<exists>Ws' ws'. files_ok lib os' db' \<and> wals_ok os' db' fl \<and> layers_ok db' fl Ws' ws' \<and>
    concat Ws' @ ws' = concat Ws @ ws \<and> (Ws' = Ws \<or> Ws' = Ws @ [ws]) \<and> logs_only (db_dir db) os os' \<and> db_dir db' = db_dir db \<and>
    v_levels (db_version db') = v_levels (db_version db)"
proof -
  obtain i mt where m: "db_memtable db = Some (i, mt)" "mem_history mt ws" "i < db_next_mem db" "i \<notin> fst ` set (db_immutables db)"
    using assms(3) by (auto simp: layers_ok_def)
  have f: "os_faults os = []" using assms(1) by (simp add: files_ok_def)
  show ?thesis
  proof (cases "MemTable_shouldFlush mt")
    case False
    then show ?thesis using assms m f by (intro exI [of _ Ws] exI [of _ ws]) (simp add: maybeFlush_def logs_only_def)
  next
    case True
    let ?db = "db\<lparr>db_memtable := None\<rparr>"
    obtain os1 db1 s where r: "rotateWal os ?db = (os1, db1, s)" by (metis prod_cases3)
    have pre: "files_ok lib os ?db" "wals_ok os ?db fl" "numbers_left ?db"
      using assms by (simp_all add: wals_ok_fields [of ?db db] numbers_left_def) (subst files_ok_fields; simp)
    note ro = rotateWal_ok [OF pre r]
    obtain w p n where db1: "db1 = ?db\<lparr>db_version := (db_version db)\<lparr>v_next_file_number := n\<rparr>,
       db_obsolete_wals := db_obsolete_wals db @ [db_current_wal db], db_wal := Some w, db_current_wal := p\<rparr>"
      using ro(4) by auto
    let ?e = "\<lparr>fe_memtable = (i, mt), fe_wals = db_obsolete_wals db1\<rparr>"
    have res: "os' = os1" "db' = (make_memtable db1)\<lparr>db_obsolete_wals := [], db_immutables := db_immutables db @ [(i, mt)],
        db_flush_queue := db_flush_queue db @ [?e]\<rparr>"
      using assms(5) m(1) True r by (auto simp: maybeFlush_def make_memtable_def db1)
    have "files_ok lib os' db'" using ro(1) by (subst files_ok_fields) (auto simp: res make_memtable_def db1)
    moreover have "wals_ok os' db' fl" using ro(2) by (auto simp: wals_ok_def old_wals_def res make_memtable_def db1)
    moreover have "layers_ok db' fl (Ws @ [ws]) []"
      using m by (intro layers_freeze [OF assms(3)]) (simp_all add: res make_memtable_def db1)
    ultimately show ?thesis using ro(3)
      by (intro exI [of _ "Ws @ [ws]"] exI [of _ "[]"]) (simp add: res make_memtable_def db1)
  qed
qed

lemma group_append_ok:
  assumes "os_faults os = []" "wals_ok os db fl" "length (group_image grp) < 2 ^ 32" "group_append os db grp = (os', s)"
  shows "s = Status_Ok" "logs_only (db_dir db) os os'" "wals_ok os' db fl"
proof -
  obtain w where w: "db_wal db = Some w" "wal_fd w = Some (db_current_wal db)" "is_wal_path (db_dir db) (db_current_wal db)"
    using assms(2) by (rule wals_ok_current)
  obtain os1 where a: "WAL_append os w (group_image grp) = (os1, Status_Ok)" "logs_only (db_dir db) os os1"
    "\<forall>q. file_of os q \<noteq> None \<longleftrightarrow> file_of os1 q \<noteq> None"
    using append_log [OF assms(1) w(2,3), of "group_image grp"] assms(3) unfolding wal_ok_def by blast
  have f1: "os_faults os1 = []" using a(2) by (simp add: logs_only_def)
  obtain os2 where b: "WAL_sync os1 w = (os2, Status_Ok)" "logs_only (db_dir db) os1 os2"
    "\<forall>q. file_of os1 q \<noteq> None \<longleftrightarrow> file_of os2 q \<noteq> None" using sync_log [OF f1 w(2,3)] by blast
  have "s = Status_Ok \<and> (os' = os1 \<or> os' = os2)"
    using assms(4) a(1) b(1) w(1) by (auto simp: group_append_def split: if_splits)
  with a b logs_only_trans [OF a(2) b(2)] assms(2) show "s = Status_Ok" "logs_only (db_dir db) os os'" "wals_ok os' db fl"
    by (auto simp: wals_ok_def)
qed

lemma numbered_append:
  assumes "seqs_increasing hs" "\<forall>w\<in>set hs. w_seq w \<le> seq" "unat seq + length ps + 1 \<le> 2 ^ 56"
  shows "seqs_increasing (hs @ ops_writes (seq + 1) ps)"
    "\<forall>w\<in>set (hs @ ops_writes (seq + 1) ps). w_seq w \<le> seq + word_of_nat (length ps)"
proof -
  let ?us = "ops_writes (seq + 1) ps"
  have s1: "unat (seq + 1) = unat seq + 1" using unat_plus_small [of seq 1] assms(3) by simp
  have us: "seqs_increasing ?us" "\<forall>w\<in>set ?us. unat seq < unat (w_seq w) \<and> unat (w_seq w) \<le> unat seq + length ps"
    using ops_writes_increasing [of "seq + 1" ps] assms(3) s1 by auto
  have below: "w_seq a < w_seq b" if "a \<in> set hs" "b \<in> set ?us" for a b
    using bspec [OF assms(2) that(1)] bspec [OF us(2) that(2)] by (simp add: word_less_nat_alt word_le_nat_alt)
  show "seqs_increasing (hs @ ?us)"
    using assms(1) us(1) below by (auto simp: seqs_increasing_def sorted_wrt_append)
  have top: "unat (seq + word_of_nat (length ps)) = unat seq + length ps"
    using assms(3) by (intro unat_plus_small) simp
  have "w_seq w \<le> seq + word_of_nat (length ps)" if "w \<in> set ?us" for w
    using bspec [OF us(2) that] by (simp add: word_le_nat_alt top)
  moreover have "seq \<le> seq + word_of_nat (length ps)" by (simp add: word_le_nat_alt top)
  ultimately show "\<forall>w\<in>set (hs @ ?us). w_seq w \<le> seq + word_of_nat (length ps)"
    using assms(2) by (auto intro: order_trans)
qed

lemma layers_write:
  assumes "layers_ok db fl Ws ws" "db_memtable db = Some (i, mt)" "unat (db_seq db) + length ps + 1 \<le> 2 ^ 56"
  shows "\<exists>mt'. MemTable_run mt (ops_writes (db_seq db + 1) ps) = Some mt' \<and>
    layers_ok (db\<lparr>db_seq := db_seq db + word_of_nat (length ps), db_memtable := Some (i, mt')\<rparr>) fl Ws
      (ws @ ops_writes (db_seq db + 1) ps)"
proof -
  let ?us = "ops_writes (db_seq db + 1) ps"
  have m: "mem_history mt ws" "seqs_increasing (concat Ws @ ws)" "\<forall>w\<in>set (concat Ws @ ws). w_seq w \<le> db_seq db"
    using assms(1,2) unfolding layers_ok_def assms(2) by blast+
  note inc = numbered_append [OF m(2,3) assms(3)]
  have "seqs_increasing (ws @ ?us)" using inc(1) by (simp add: seqs_increasing_def sorted_wrt_append)
  with mem_history_run [OF m(1)] obtain mt' where mt': "MemTable_run mt ?us = Some mt'" "mem_history mt' (ws @ ?us)" by blast
  with assms(1,2) mt' inc show ?thesis by (simp add: layers_ok_def queue_ok_def [of "_\<lparr>db_seq := _, db_memtable := _\<rparr>"] queue_ok_def [of db, symmetric])
qed

lemma write_commit_ok:
  assumes "files_ok lib os db" "wals_ok os db fl" "layers_ok db fl Ws ws" "group_fits db" "write_commit os db = Some (os', db', results)"
  shows "\<exists>Ws' ws'. files_ok lib os' db' \<and> wals_ok os' db' fl \<and> layers_ok db' fl Ws' ws' \<and>
    concat Ws' @ ws' = concat Ws @ ws @ ops_writes (db_seq db + 1) (group_ops (db_group db)) \<and>
    (Ws \<noteq> [] \<longrightarrow> Ws' \<noteq> [] \<and> hd Ws' = hd Ws) \<and> logs_only (db_dir db) os os' \<and> v_levels (db_version db') = v_levels (db_version db) \<and>
    (\<forall>(i, s)\<in>set results. s = Status_Ok)"
proof (cases "db_group db = []")
  case True
  then have "os' = os" "db' = db\<lparr>db_group := [], db_leader := False\<rparr>" "results = []"
    using assms(5) by (auto simp: write_commit_def doWriteGroup_def)
  moreover have "files_ok lib os (db\<lparr>db_group := [], db_leader := False\<rparr>) = files_ok lib os db"
    by (rule files_ok_fields) simp_all
  moreover have "wals_ok os (db\<lparr>db_group := [], db_leader := False\<rparr>) fl = wals_ok os db fl" by (rule wals_ok_fields) simp_all
  moreover have "layers_ok (db\<lparr>db_group := [], db_leader := False\<rparr>) fl Ws ws = layers_ok db fl Ws ws"
    by (rule layers_ok_fields) simp_all
  moreover have "logs_only (db_dir db) os os" using assms(1) by (simp add: logs_only_def files_ok_def)
  ultimately show ?thesis using assms True
    by (intro exI [of _ Ws] exI [of _ ws]) (simp add: group_ops_def)
next
  case False
  let ?grp = "db_group db" and ?db = "db\<lparr>db_group := [], db_leader := False, db_seq := db_seq db + word_of_nat (length (group_ops (db_group db)))\<rparr>"
  obtain i mt where m: "db_memtable db = Some (i, mt)" using assms(3) by (auto simp: layers_ok_def)
  have fits: "unat (db_seq db) + length (group_ops ?grp) + 1 \<le> 2 ^ 56" "length (group_image ?grp) < 2 ^ 32" "numbers_left db"
    using assms(4) by (auto simp: group_fits_def)
  obtain bs sq where bs: "base_seqs (db_seq db) ?grp = (bs, sq)" by fastforce
  then have sq: "sq = db_seq db + word_of_nat (length (group_ops ?grp))" using base_seqs_total [of "db_seq db" ?grp] by simp
  obtain os1 s where ap: "group_append os ?db ?grp = (os1, s)" by fastforce
  have f: "os_faults os = []" "wals_ok os ?db fl" using assms(1,2) by (auto simp: files_ok_def wals_ok_fields [of ?db db])
  note g = group_append_ok [OF f fits(2) ap]
  obtain mt' where mt': "MemTable_run mt (ops_writes (db_seq db + 1) (group_ops ?grp)) = Some mt'"
    "layers_ok (db\<lparr>db_seq := sq, db_memtable := Some (i, mt')\<rparr>) fl Ws (ws @ ops_writes (db_seq db + 1) (group_ops ?grp))"
    using layers_write [OF assms(3) m fits(1)] sq by auto
  have ag: "apply_group mt bs ?grp = Some mt'" using apply_group_run [of mt "db_seq db" ?grp] mt'(1) bs by simp
  let ?db1 = "?db\<lparr>db_memtable := Some (i, mt')\<rparr>"
  have run: "maybeFlush os1 ?db1 = (os', db')" "results = map (\<lambda>e. (ge_writer e, Status_Ok)) ?grp"
    using assms(5) False bs ap g(1) m ag
    by (auto simp: write_commit_def doWriteGroup_def sq Let_def split: prod.splits)
  have "files_ok lib os1 ?db1" using logs_only_files [OF assms(1)] g(2) by (subst files_ok_fields) auto
  moreover have "wals_ok os1 ?db1 fl" using g(3) by (simp add: wals_ok_fields [of ?db1 ?db])
  moreover have "layers_ok ?db1 fl Ws (ws @ ops_writes (db_seq db + 1) (group_ops ?grp))"
    using mt'(2) by (subst layers_ok_fields) (auto simp: sq)
  moreover have "numbers_left ?db1" using fits(3) by (simp add: numbers_left_def)
  ultimately obtain Ws' ws' where mf: "files_ok lib os' db'" "wals_ok os' db' fl" "layers_ok db' fl Ws' ws'"
    "concat Ws' @ ws' = concat Ws @ ws @ ops_writes (db_seq db + 1) (group_ops ?grp)"
    "Ws' = Ws \<or> Ws' = Ws @ [ws @ ops_writes (db_seq db + 1) (group_ops ?grp)]" "logs_only (db_dir db) os1 os'"
    "v_levels (db_version db') = v_levels (db_version db)"
    using maybeFlush_ok [OF _ _ _ _ run(1)] by fastforce
  moreover have "Ws \<noteq> [] \<longrightarrow> Ws' \<noteq> [] \<and> hd Ws' = hd Ws" using mf(5) by auto
  moreover have "logs_only (db_dir db) os os'" using logs_only_trans [OF g(2)] mf(6) by simp
  ultimately show ?thesis using run(2) by (intro exI [of _ Ws'] exI [of _ ws']) auto
qed

section \<open>The flush thread\<close>

lemma sst_is_sst: "is_sst (sst_path dir l n)"
  using is_sst_append [of "level_dir dir l @ str ''/'' @ to_digits (unat n)"] by (simp add: sst_path_def)

lemma flush_build_ok:
  assumes files: "files_ok lib os db" and num: "numbers_left db"
    and es: "map (\<lambda>e. (internal_key e, entry_value e)) es = c" "sorted_entries c" "table_weight c < 2 ^ 31"
    and run: "flush_build lib os db es = (os', db')"
  shows "files_ok lib os' db'" "\<exists>v. db' = db\<lparr>db_version := v\<rparr>"
    "\<forall>q. is_wal_path (db_dir db) q \<longrightarrow> file_of os' q = file_of os q"
    "\<forall>w. in_table lib os db w \<longrightarrow> in_table lib os' db' w"
    "\<forall>w. entry_of w \<in> set c \<longrightarrow> in_table lib os' db' w"
    "v_next_file_number (db_version db) \<le> v_next_file_number (db_version db')"
    "\<And>q. q \<noteq> sst_path (db_dir db) 0 (v_next_file_number (db_version db)) \<Longrightarrow>
       q \<noteq> sst_path (db_dir db) 0 (v_next_file_number (db_version db)) @ str ''.bloom'' \<Longrightarrow>
       q \<noteq> db_dir db @ str ''/MANIFEST'' \<Longrightarrow> file_of os' q = file_of os q"
    "file_synced os' (sst_path (db_dir db) 0 (v_next_file_number (db_version db)))"
    "v_levels (db_version db') = push_level 0 (file_meta (sst_path (db_dir db) 0 (v_next_file_number (db_version db)))
       (v_next_file_number (db_version db))) (v_levels (db_version db))"
    "table_on_disk lib os' (sst_path (db_dir db) 0 (v_next_file_number (db_version db))) c"
proof -
  let ?n = "v_next_file_number (db_version db)" and ?dir = "db_dir db"
  let ?p = "sst_path ?dir 0 ?n" and ?mp = "?dir @ str ''/MANIFEST''"
  let ?v1 = "(db_version db)\<lparr>v_next_file_number := ?n + 1\<rparr>"
  have f: "codec_ok lib" "os_faults os = []" "version_inv os (db_version db)" "dir_ok ?dir"
    "version_manifest_path (db_version db) = ?mp" "cache_coherent lib os (db_cache db)"
    "file_of os (sst_path ?dir 0 ?n) = None"
    using files by (auto simp: files_ok_def)
  obtain os1 sb where new: "SSTableBuilder_new os ?p (block_size (db_options db)) (CompressionType_of_u8 (opt_compression (db_options db))) = (os1, sb)"
    by fastforce
  obtain os2 sb2 where add: "add_entries lib os1 sb c = (os2, sb2)" by fastforce
  obtain os3 sb3 s where fin: "SSTableBuilder_finish lib os2 sb2 = (os3, sb3, s)" by (metis prod_cases3)
  note b = build_table [OF f(1,2) es(3) sst_is_sst new add fin]
  have inv3: "version_inv os3 ?v1" "version_manifest_path ?v1 = ?mp"
    using version_inv_frame [OF f(3), of os3] b(4) f(5) by (simp_all add: version_inv_counter version_manifest_path_def)
  obtain v2 where v2: "Version_addLevelFile os3 ?v1 0 ?p = (os', v2)" "db' = db\<lparr>db_version := v2\<rparr>"
    using run new add fin es(1) by (auto simp: flush_build_def Version_nextFileNumber_def Let_def split: prod.splits)
  have "short_path ?p" using f(4) by (simp add: dir_ok_def)
  note a = addLevelFile_inv [OF inv3(1) b(3) this, of 0, simplified, unfolded v2 inv3(2)]
  have len: "length (v_levels (db_version db)) = 8" using f(3) by (auto simp: version_inv_def)
  have lv: "v_levels v2 = push_level 0 (file_meta ?p (assigned_number ?v1 ?p)) (v_levels (db_version db))"
    "v_next_file_number v2 = ?n + 1"
    using addLevelFile_fields [of 0 ?v1 os3 ?p] len v2(1) by (auto simp: number_of_sst)
  have same: "file_of os' q = file_of os q" if "q \<noteq> ?p" "q \<noteq> ?p @ str ''.bloom''" "q \<noteq> ?mp" for q
    using a b(4) that by simp
  show "\<And>q. q \<noteq> ?p \<Longrightarrow> q \<noteq> ?p @ str ''.bloom'' \<Longrightarrow> q \<noteq> ?mp \<Longrightarrow> file_of os' q = file_of os q" by (rule same)
  show "file_synced os' ?p" using b(5) a by (simp add: file_synced_def)
  show "v_levels (db_version db') = push_level 0 (file_meta ?p ?n) (v_levels (db_version db))"
    using lv(1) v2(2) by (simp add: assigned_number_def number_of_sst)
  show "\<exists>v. db' = db\<lparr>db_version := v\<rparr>" using v2(2) by blast
  show "\<forall>q. is_wal_path (db_dir db) q \<longrightarrow> file_of os' q = file_of os q"
    using same wal_path_other(1-3) by metis
  show new_table: "table_on_disk lib os' ?p c"
    by (rule table_on_disk_frame [OF b(1)]) (use a in auto)
  have old_table: "table_on_disk lib os' (sst_path ?dir l k) es" if "k < ?n" "table_on_disk lib os (sst_path ?dir l k) es" for l k es
  proof (rule table_on_disk_frame [OF that(2)])
    have "k \<noteq> ?n" using that(1) by simp
    then show "file_of os' (sst_path ?dir l k) = file_of os (sst_path ?dir l k)"
      "file_of os' (sst_path ?dir l k @ str ''.bloom'') = file_of os (sst_path ?dir l k @ str ''.bloom'')"
      by (auto intro!: same simp: sst_path_inject file_names_differ(1) [THEN not_sym])
  qed
  have levels: "set (v_levels v2 ! l) = set (v_levels (db_version db) ! l) \<union> (if l = 0 then {file_meta ?p (assigned_number ?v1 ?p)} else {})"
    if "l < 8" for l using that len by (simp add: lv(1) push_level_def nth_list_update)
  show "\<forall>w. in_table lib os db w \<longrightarrow> in_table lib os' db' w"
  proof (intro allI impI)
    fix w assume "in_table lib os db w"
    then obtain p es where p: "p \<in> registered db" "table_on_disk lib os p es" "entry_of w \<in> set es" by (auto simp: in_table_def)
    obtain l k where "p = sst_path ?dir l k" "k < ?n" using registered_path [OF files p(1)] by blast
    then have "table_on_disk lib os' p es" using old_table p(2) by blast
    moreover have "p \<in> registered db'"
    proof -
      obtain meta l where "p = meta_path meta" "l < 8" "meta \<in> set (v_levels (db_version db) ! l)"
        using p(1) by (auto simp: registered_def)
      with levels [of l] v2(2) show ?thesis unfolding registered_def by auto
    qed
    ultimately show "in_table lib os' db' w" using p(3) by (auto simp: in_table_def)
  qed
  show "\<forall>w. entry_of w \<in> set c \<longrightarrow> in_table lib os' db' w"
  proof (intro allI impI)
    fix w assume w: "entry_of w \<in> set c"
    have "file_meta ?p (assigned_number ?v1 ?p) \<in> set (v_levels v2 ! 0)" using levels [of 0] by simp
    moreover have "meta_path (file_meta ?p (assigned_number ?v1 ?p)) = ?p" by (simp add: file_meta_def)
    ultimately have "?p \<in> registered db'" unfolding registered_def v2(2)
      by (intro CollectI exI [of _ "file_meta ?p (assigned_number ?v1 ?p)"] exI [of _ 0]) simp
    then show "in_table lib os' db' w" using new_table w by (auto simp: in_table_def)
  qed
  have "?n < ?n + 1" using next_number [OF num] .
  then show "?n \<le> v_next_file_number (db_version db')" using v2(2) lv(2) by simp
  have "\<exists>k es. meta_path meta = sst_path ?dir l k \<and> k < ?n + 1 \<and> table_on_disk lib os' (meta_path meta) es \<and> sorted_entries es"
    if l: "l < 8" "meta \<in> set (v_levels v2 ! l)" for l meta
  proof (cases "meta \<in> set (v_levels (db_version db) ! l)")
    case True
    then obtain k es where "meta_path meta = sst_path ?dir l k" "k < ?n" "table_on_disk lib os (meta_path meta) es" "sorted_entries es"
      using files l(1) unfolding files_ok_def by blast
    moreover from this have "table_on_disk lib os' (meta_path meta) es" "k < ?n + 1"
      using old_table [of k l es] \<open>?n < ?n + 1\<close> by simp_all
    ultimately show ?thesis by blast
  next
    case False
    then have "l = 0" "meta_path meta = ?p" using levels [OF l(1)] l(2) by (auto simp: file_meta_def split: if_splits)
    then show ?thesis using new_table es(2) \<open>?n < ?n + 1\<close> by auto
  qed
  moreover have "cache_coherent lib os' (db_cache db)"
  proof (rule coherent_frame [OF f(6)])
    fix q assume "is_sst q" "file_of os q \<noteq> None"
    then show "file_of os' q = file_of os q" using f(7) by (intro same) (auto simp: is_sst_def str_def)
  qed
  moreover have "file_of os' (sst_path ?dir l k) = None" if "?n + 1 \<le> k" for l k
  proof -
    have "?n < k" using that \<open>?n < ?n + 1\<close> by simp
    then show ?thesis using same [of "sst_path ?dir l k"] files by (auto simp: files_ok_def sst_path_inject)
  qed
  ultimately show "files_ok lib os' db'" using f(1,4) a lv(2) by (simp add: files_ok_def v2(2))
qed

lemma erase_memtable_head: "erase_memtable i ((i, mt) # ms) = ms"
  by simp

lemma layers_front:
  assumes "layers_ok db fl Ws ws" "pending fl = [m]"
  shows "\<exists>W Ws'. Ws = W # Ws' \<and> mem_history (snd m) W \<and> db_immutables db = m # map fe_memtable (db_flush_queue db)"
  using assms by (auto simp: layers_ok_def queue_ok_def list_all2_Cons1)

text \<open>The front of \<open>immutable_list_\<close> leaves it, with its layer of writes.\<close>

lemma layers_erase:
  assumes "layers_ok db fl (W # Ws) ws" "pending fl = [m]" "pending fl' = []"
    "db_memtable db' = db_memtable db" "db_immutables db' = erase_memtable (fst m) (db_immutables db)"
    "db_next_mem db' = db_next_mem db" "db_seq db' = db_seq db" "db_flush_queue db' = db_flush_queue db"
  shows "layers_ok db' fl' Ws ws"
proof -
  have im: "db_immutables db = m # map fe_memtable (db_flush_queue db)"
    using layers_front [OF assms(1,2)] by blast
  have "seqs_increasing (concat Ws @ ws)" using assms(1) by (auto simp: layers_ok_def seqs_increasing_def sorted_wrt_append)
  then show ?thesis using assms(1,3-8) unfolding layers_ok_def queue_ok_def im by auto
qed

section \<open>Readers\<close>

lemma table_paths_tables:
  assumes "files_ok lib os db"
  shows "\<exists>ess. list_all2 (\<lambda>p es. table_on_disk lib os p es \<and> sorted_entries es) (table_paths db) ess"
proof -
  have len: "length (v_levels (db_version db)) = 8" using assms by (auto simp: files_ok_def version_inv_def)
  have "\<exists>es. table_on_disk lib os p es \<and> sorted_entries es" if p: "p \<in> set (table_paths db)" for p
  proof -
    obtain l where "0 \<le> l" "l < 8" "p \<in> meta_path ` set (v_levels (db_version db) ! nat l)"
      using p len by (auto simp: table_paths_def Version_getLevelFiles_def split: if_splits)
    then have "p \<in> registered db" by (force simp: registered_def)
    then show ?thesis using registered_path [OF assms] by blast
  qed
  then have "\<forall>p\<in>set (table_paths db). \<exists>es. table_on_disk lib os p es \<and> sorted_entries es" by blast
  then obtain g where "\<forall>p\<in>set (table_paths db). table_on_disk lib os p (g p) \<and> sorted_entries (g p)" by metis
  then show ?thesis by (intro exI [of _ "map g (table_paths db)"]) (simp add: list_all2_map2 list_all2_same)
qed

lemma layers_memtables:
  assumes "layers_ok db fl Ws ws"
  shows "list_all2 mem_history (memtables db) (ws # rev Ws)" "list_all MemTable_inv (memtables db)"
proof -
  obtain i mt where m: "db_memtable db = Some (i, mt)" "mem_history mt ws"
    and l: "list_all2 (\<lambda>m. mem_history (snd m)) (db_immutables db) Ws" using assms by (auto simp: layers_ok_def)
  have "list_all2 mem_history (map snd (rev (db_immutables db))) (rev Ws)"
    using l by (simp add: list_all2_map1 list_all2_rev)
  with m show l2: "list_all2 mem_history (memtables db) (ws # rev Ws)" by (simp add: memtables_def)
  show "list_all MemTable_inv (memtables db)"
    using list_all2_mono [OF l2, of "\<lambda>mt _. MemTable_inv mt"] mem_history_inv(1)
    by (auto simp: list_all_length list_all2_conv_all_nth)
qed

lemma get_keeps:
  assumes "files_ok lib os db" "layers_ok db fl Ws ws"
  shows "\<exists>st v cache. DBImpl_get lib os db k = Some (st, v, db\<lparr>db_cache := cache\<rparr>) \<and> cache_coherent lib os cache"
proof -
  obtain ess where ess: "list_all2 (\<lambda>p es. table_on_disk lib os p es \<and> sorted_entries es) (table_paths db) ess"
    using table_paths_tables [OF assms(1)] by blast
  have coh: "cache_coherent lib os (db_cache db)" using assms(1) by (simp add: files_ok_def)
  obtain cache' where c: "cache_coherent lib os cache'" "DBImpl_get lib os db k =
    Some (case first_live (map MemTable_content (memtables db) @ ess) k of
            Some v \<Rightarrow> (Status_Ok, Some v, if first_live (map MemTable_content (memtables db)) k = None then db\<lparr>db_cache := cache'\<rparr> else db)
          | None \<Rightarrow> (Status_NotFound [], None, db\<lparr>db_cache := cache'\<rparr>))"
    using DBImpl_get_layers [OF layers_memtables(2) [OF assms(2)] ess coh] by blast
  have "\<exists>cache. db = db\<lparr>db_cache := cache\<rparr> \<and> cache_coherent lib os cache" by (rule exI [of _ "db_cache db"]) (simp add: coh)
  with c show ?thesis by (auto split: option.split)
qed

section \<open>Every step keeps the invariant\<close>

definition sys_inv_but :: "codec_lib \<Rightarrow> write_op set \<Rightarrow> db_sys \<Rightarrow> bool" where
  "sys_inv_but lib ex s \<longleftrightarrow> (\<exists>Ws ws. sys_ok_but lib ex s Ws ws)"

lemma sys_inv_butI:
  assumes "files_ok lib (s_os s) (s_db s)" "wals_ok (s_os s) (s_db s) (s_flush s)" "layers_ok (s_db s) (s_flush s) Ws ws"
    "flush_ok lib ex (s_os s) (s_db s) (s_flush s) Ws"
    "\<And>w. w \<in> set (s_hist s) \<Longrightarrow> w \<in> set (concat Ws @ ws) \<or> in_table lib (s_os s) (s_db s) w \<or> w \<in> ex"
  shows "sys_inv_but lib ex s"
  using assms unfolding sys_inv_but_def sys_ok_but_def by blast

lemma sys_inv_butE:
  assumes "sys_inv_but lib ex s"
  obtains Ws ws where "files_ok lib (s_os s) (s_db s)" "wals_ok (s_os s) (s_db s) (s_flush s)"
    "layers_ok (s_db s) (s_flush s) Ws ws" "flush_ok lib ex (s_os s) (s_db s) (s_flush s) Ws"
    "\<And>w. w \<in> set (s_hist s) \<Longrightarrow> w \<in> set (concat Ws @ ws) \<or> in_table lib (s_os s) (s_db s) w \<or> w \<in> ex"
  using assms unfolding sys_inv_but_def sys_ok_but_def by blast

text \<open>Steps that change fields of the database the invariant does not speak about.\<close>

lemma keep_enqueue:
  assumes "sys_inv_but lib ex s" "db' = (s_db s)\<lparr>db_leader := b, db_group := g\<rparr>"
  shows "sys_inv_but lib ex (s\<lparr>s_db := db'\<rparr>)"
proof -
  obtain Ws ws where o: "files_ok lib (s_os s) (s_db s)" "wals_ok (s_os s) (s_db s) (s_flush s)"
    "layers_ok (s_db s) (s_flush s) Ws ws" "flush_ok lib ex (s_os s) (s_db s) (s_flush s) Ws"
    "\<And>w. w \<in> set (s_hist s) \<Longrightarrow> w \<in> set (concat Ws @ ws) \<or> in_table lib (s_os s) (s_db s) w \<or> w \<in> ex"
    using assms(1) by (rule sys_inv_butE) blast
  have t: "in_table lib (s_os s) db' w = in_table lib (s_os s) (s_db s) w" for w
    using assms(2) by (intro in_table_levels) simp
  show ?thesis
  proof (rule sys_inv_butI [of _ _ Ws ws])
    show "files_ok lib (s_os (s\<lparr>s_db := db'\<rparr>)) (s_db (s\<lparr>s_db := db'\<rparr>))"
      using o(1) assms(2) files_ok_fields(1) [of db' "s_db s"] by simp
    show "wals_ok (s_os (s\<lparr>s_db := db'\<rparr>)) (s_db (s\<lparr>s_db := db'\<rparr>)) (s_flush (s\<lparr>s_db := db'\<rparr>))"
      using o(2) assms(2) wals_ok_fields [of db' "s_db s"] by simp
    show "layers_ok (s_db (s\<lparr>s_db := db'\<rparr>)) (s_flush (s\<lparr>s_db := db'\<rparr>)) Ws ws"
      using o(3) assms(2) layers_ok_fields [of db' "s_db s"] by simp
  qed (use o(4,5) t in \<open>auto simp: flush_ok_def\<close>)
qed

lemma keep_commit:
  assumes "sys_inv_but lib ex s" "group_fits (s_db s)" "write_commit (s_os s) (s_db s) = Some (os', db', results)"
  shows "sys_inv_but lib ex (s\<lparr>s_os := os', s_db := db',
    s_hist := s_hist s @ ops_writes (db_seq (s_db s) + 1) (group_ops (db_group (s_db s)))\<rparr>)"
proof -
  obtain Ws ws where o: "files_ok lib (s_os s) (s_db s)" "wals_ok (s_os s) (s_db s) (s_flush s)"
    "layers_ok (s_db s) (s_flush s) Ws ws" "flush_ok lib ex (s_os s) (s_db s) (s_flush s) Ws"
    "\<And>w. w \<in> set (s_hist s) \<Longrightarrow> w \<in> set (concat Ws @ ws) \<or> in_table lib (s_os s) (s_db s) w \<or> w \<in> ex"
    using assms(1) by (rule sys_inv_butE) blast
  let ?us = "ops_writes (db_seq (s_db s) + 1) (group_ops (db_group (s_db s)))"
  obtain Ws' ws' where n: "files_ok lib os' db'" "wals_ok os' db' (s_flush s)" "layers_ok db' (s_flush s) Ws' ws'"
    "concat Ws' @ ws' = concat Ws @ ws @ ?us" "Ws \<noteq> [] \<longrightarrow> Ws' \<noteq> [] \<and> hd Ws' = hd Ws" "logs_only (db_dir (s_db s)) (s_os s) os'"
    "v_levels (db_version db') = v_levels (db_version (s_db s))"
    using write_commit_ok [OF o(1-3) assms(2,3)] by auto
  have t: "in_table lib os' db' w" if "in_table lib (s_os s) (s_db s) w" for w
    using logs_only_in_table [OF o(1) n(6) that] in_table_levels [OF n(7)] by simp
  have m: "w \<in> set (concat Ws' @ ws') \<longleftrightarrow> w \<in> set (concat Ws @ ws) \<or> w \<in> set ?us" for w
    unfolding n(4) by auto
  show ?thesis
  proof (rule sys_inv_butI [of _ _ Ws' ws'])
    show "flush_ok lib ex (s_os (s\<lparr>s_os := os', s_db := db', s_hist := s_hist s @ ?us\<rparr>))
        (s_db (s\<lparr>s_os := os', s_db := db', s_hist := s_hist s @ ?us\<rparr>)) (s_flush (s\<lparr>s_os := os', s_db := db', s_hist := s_hist s @ ?us\<rparr>)) Ws'"
      using o(4) n(5) t by (auto simp: flush_ok_def)
    show "w \<in> set (concat Ws' @ ws') \<or> in_table lib (s_os (s\<lparr>s_os := os', s_db := db', s_hist := s_hist s @ ?us\<rparr>))
        (s_db (s\<lparr>s_os := os', s_db := db', s_hist := s_hist s @ ?us\<rparr>)) w \<or> w \<in> ex"
      if "w \<in> set (s_hist (s\<lparr>s_os := os', s_db := db', s_hist := s_hist s @ ?us\<rparr>))" for w
      using that o(5) [of w] t [of w] m by auto
  qed (use n in simp_all)
qed

lemma keep_start:
  assumes "sys_inv_but lib ex s" "s_flush s = None" "flush_pop (s_db s) = Some (entry, db')"
  shows "sys_inv_but lib ex (s\<lparr>s_db := db', s_flush := Some (entry, Popped)\<rparr>)"
proof -
  obtain Ws ws where o: "files_ok lib (s_os s) (s_db s)" "wals_ok (s_os s) (s_db s) (s_flush s)"
    "layers_ok (s_db s) (s_flush s) Ws ws" "flush_ok lib ex (s_os s) (s_db s) (s_flush s) Ws"
    "\<And>w. w \<in> set (s_hist s) \<Longrightarrow> w \<in> set (concat Ws @ ws) \<or> in_table lib (s_os s) (s_db s) w \<or> w \<in> ex"
    using assms(1) by (rule sys_inv_butE) blast
  obtain q where q: "db_flush_queue (s_db s) = entry # q" "db' = (s_db s)\<lparr>db_flush_queue := q, db_flush_inflight := db_flush_inflight (s_db s) + 1\<rparr>"
    using assms(3) by (auto simp: flush_pop_def split: list.splits)
  have t: "in_table lib (s_os s) db' w = in_table lib (s_os s) (s_db s) w" for w
    using q(2) by (intro in_table_levels) simp
  have qo: "queue_ok db' (Some (entry, Popped))"
    using o(3) assms(2) q by (simp add: layers_ok_def queue_ok_def pending_def)
  show ?thesis
  proof (rule sys_inv_butI [of _ _ Ws ws])
    show "layers_ok (s_db (s\<lparr>s_db := db', s_flush := Some (entry, Popped)\<rparr>)) (s_flush (s\<lparr>s_db := db', s_flush := Some (entry, Popped)\<rparr>)) Ws ws"
      using o(3) qo q(2) by (simp add: layers_ok_def)
    show "files_ok lib (s_os (s\<lparr>s_db := db', s_flush := Some (entry, Popped)\<rparr>)) (s_db (s\<lparr>s_db := db', s_flush := Some (entry, Popped)\<rparr>))"
      using o(1) q(2) files_ok_fields(1) [of db' "s_db s"] by simp
      have "old_wals db' (Some (entry, Popped)) = old_wals (s_db s) (s_flush s)"
      using q assms(2) by (auto simp: old_wals_def flush_wals_def)
    then show "wals_ok (s_os (s\<lparr>s_db := db', s_flush := Some (entry, Popped)\<rparr>)) (s_db (s\<lparr>s_db := db', s_flush := Some (entry, Popped)\<rparr>))
        (s_flush (s\<lparr>s_db := db', s_flush := Some (entry, Popped)\<rparr>))"
      using o(2) q by (simp add: wals_ok_def)
  qed (use o(5) t in \<open>auto simp: flush_ok_def\<close>)
qed

lemma keep_build:
  assumes "sys_inv_but lib ex s" "s_flush s = Some (entry, Popped)" "MemTable_entries (snd (fe_memtable entry)) = Some es"
    "table_weight (MemTable_content (snd (fe_memtable entry))) < 2 ^ 31" "numbers_left (s_db s)"
    "flush_build lib (s_os s) (s_db s) es = (os', db')"
  shows "sys_inv_but lib ex (s\<lparr>s_os := os', s_db := db', s_flush := Some (entry, Built)\<rparr>)"
proof -
  let ?c = "MemTable_content (snd (fe_memtable entry))" and ?s = "s\<lparr>s_os := os', s_db := db', s_flush := Some (entry, Built)\<rparr>"
  obtain Ws ws where o: "files_ok lib (s_os s) (s_db s)" "wals_ok (s_os s) (s_db s) (s_flush s)"
    "layers_ok (s_db s) (s_flush s) Ws ws" "flush_ok lib ex (s_os s) (s_db s) (s_flush s) Ws"
    "\<And>w. w \<in> set (s_hist s) \<Longrightarrow> w \<in> set (concat Ws @ ws) \<or> in_table lib (s_os s) (s_db s) w \<or> w \<in> ex"
    using assms(1) by (rule sys_inv_butE) blast
  have "pending (s_flush s) = [fe_memtable entry]" using assms(2) by (simp add: pending_def)
  from layers_front [OF o(3) this] obtain W Ws' where W: "Ws = W # Ws'" "mem_history (snd (fe_memtable entry)) W" by blast
  note inv = mem_history_inv [OF W(2)]
  have c: "map (\<lambda>e. (internal_key e, entry_value e)) es = ?c"
    using assms(3) MemTable_entries_content [OF inv(1)] by (auto simp: case_prod_unfold comp_def)
  note b = flush_build_ok [OF o(1) assms(5) c MemTable_content_sorted [OF inv(1)] assms(4,6)]
  obtain v where v: "db' = (s_db s)\<lparr>db_version := v\<rparr>" using b(2) by blast
  have qo: "queue_ok db' (Some (entry, Built)) = queue_ok (s_db s) (s_flush s)"
    using assms(2) v by (simp add: queue_ok_def pending_def)
  have l: "layers_ok db' (Some (entry, Built)) Ws ws" using o(3) qo v by (simp add: layers_ok_def)
  have "w \<in> set W \<Longrightarrow> in_table lib os' db' w" for w using b(5) inv(2) by auto
  then have f: "flush_ok lib ex os' db' (Some (entry, Built)) Ws" by (simp add: flush_ok_def W(1))
  have old: "old_wals db' (Some (entry, Built)) = old_wals (s_db s) (s_flush s)"
    using assms(2) v by (simp add: old_wals_def flush_wals_def)
  have "is_wal_path (db_dir (s_db s)) (db_current_wal (s_db s))" using o(2) by (rule wals_ok_current)
  with b(3) have cur: "file_of os' (db_current_wal (s_db s)) = file_of (s_os s) (db_current_wal (s_db s))" by blast
  have wl: "wals_ok os' db' (Some (entry, Built))"
    using o(2) b(6) cur wal_below_mono unfolding wals_ok_def old by (auto simp: v)
  show ?thesis by (rule sys_inv_butI [of _ _ Ws ws]) (use b(1,4) l f wl o(5) in auto)
qed

lemma keep_erase:
  assumes "sys_inv_but lib ex s" "s_flush s = Some (entry, st)"
    "st = Built \<or> st = Popped \<and> MemTable_empty (snd (fe_memtable entry)) = Some True"
  shows "sys_inv_but lib ex (s\<lparr>s_db := flush_erase (s_db s) (fst (fe_memtable entry)), s_flush := Some (entry, Erased)\<rparr>)"
proof -
  let ?db = "flush_erase (s_db s) (fst (fe_memtable entry))"
  obtain Ws ws where o: "files_ok lib (s_os s) (s_db s)" "wals_ok (s_os s) (s_db s) (s_flush s)"
    "layers_ok (s_db s) (s_flush s) Ws ws" "flush_ok lib ex (s_os s) (s_db s) (s_flush s) Ws"
    "\<And>w. w \<in> set (s_hist s) \<Longrightarrow> w \<in> set (concat Ws @ ws) \<or> in_table lib (s_os s) (s_db s) w \<or> w \<in> ex"
    using assms(1) by (rule sys_inv_butE) blast
  have p: "pending (s_flush s) = [fe_memtable entry]" "pending (Some (entry, Erased)) = []" using assms(2,3) by (auto simp: pending_def)
  obtain W Ws' where W: "Ws = W # Ws'" "mem_history (snd (fe_memtable entry)) W" using layers_front [OF o(3) p(1)] by blast
  have l: "layers_ok ?db (Some (entry, Erased)) Ws' ws"
    by (rule layers_erase [OF o(3) [unfolded W(1)] p]) (simp_all add: flush_erase_def)
  have t: "in_table lib (s_os s) ?db w = in_table lib (s_os s) (s_db s) w" for w by (intro in_table_levels) (simp add: flush_erase_def)
  have h: "\<forall>w\<in>set W. in_table lib (s_os s) (s_db s) w \<or> w \<in> ex"
    using assms(3)
  proof
    assume "st = Built"
    then show ?thesis using o(4) assms(2) W(1) by (simp add: flush_ok_def)
  next
    assume "st = Popped \<and> MemTable_empty (snd (fe_memtable entry)) = Some True"
    then have "MemTable_content (snd (fe_memtable entry)) = []"
      using mem_history_inv(1) [OF W(2)] by (simp add: MemTable_empty_def MemTable_inv_def MemTable_content_def SkipList_empty_content)
    then show ?thesis using mem_history_inv(2) [OF W(2)] by simp
  qed
  have fl: "files_ok lib (s_os s) ?db" using o(1) by (subst files_ok_fields) (simp_all add: flush_erase_def)
  have wl: "wals_ok (s_os s) ?db (Some (entry, Erased))" using o(2) assms(2) by (auto simp: wals_ok_def flush_erase_def old_wals_def flush_wals_def)
  have hist: "w \<in> set (concat Ws' @ ws) \<or> in_table lib (s_os s) ?db w \<or> w \<in> ex" if "w \<in> set (s_hist s)" for w
    using o(5) [OF that] h t W(1) by auto
  show ?thesis by (rule sys_inv_butI [of _ _ Ws' ws]) (use fl wl l hist in \<open>auto simp: flush_ok_def\<close>)
qed

lemma keep_unlink:
  assumes "sys_inv_but lib ex s" "s_flush s = Some (entry, Erased)"
  shows "sys_inv_but lib ex (s\<lparr>s_os := unlink_all (s_os s) (fe_wals entry), s_db := flush_done (s_db s) entry Status_Ok, s_flush := None\<rparr>)"
proof -
  let ?os = "unlink_all (s_os s) (fe_wals entry)" and ?db = "flush_done (s_db s) entry Status_Ok"
  obtain Ws ws where o: "files_ok lib (s_os s) (s_db s)" "wals_ok (s_os s) (s_db s) (s_flush s)"
    "layers_ok (s_db s) (s_flush s) Ws ws" "flush_ok lib ex (s_os s) (s_db s) (s_flush s) Ws"
    "\<And>w. w \<in> set (s_hist s) \<Longrightarrow> w \<in> set (concat Ws @ ws) \<or> in_table lib (s_os s) (s_db s) w \<or> w \<in> ex"
    using assms(1) by (rule sys_inv_butE) blast
  have db: "?db = (s_db s)\<lparr>db_flush_inflight := db_flush_inflight (s_db s) - 1\<rparr>" by (simp add: flush_done_def)
  have f: "os_faults (s_os s) = []" using o(1) by (simp add: files_ok_def)
  have old: "old_wals (s_db s) (s_flush s) = old_wals ?db None \<union> set (fe_wals entry)"
    using assms(2) by (auto simp: old_wals_def flush_wals_def db)
  have "list_all (is_wal_path (db_dir (s_db s))) (fe_wals entry)"
    using o(2) wal_below_path unfolding wals_ok_def old list_all_iff by blast
  note lo = unlink_logs [OF f this]
  have fl: "files_ok lib ?os ?db" using logs_only_files [OF o(1) lo] by (subst files_ok_fields) (simp_all add: db)
  have t: "in_table lib ?os ?db w" if "in_table lib (s_os s) (s_db s) w" for w
    using logs_only_in_table [OF o(1) lo that] in_table_levels [of ?db "s_db s"] by (simp add: db)
  have "db_current_wal (s_db s) \<notin> set (fe_wals entry)" using o(2) old by (auto simp: wals_ok_def)
  then have wl: "wals_ok ?os ?db None"
    using o(2) unlink_all_ok [OF f, of "fe_wals entry"] unfolding wals_ok_def old by (auto simp: db)
  have "queue_ok ?db None = queue_ok (s_db s) (s_flush s)" using assms(2) by (simp add: queue_ok_def db pending_def)
  then have l: "layers_ok ?db None Ws ws" using o(3) by (simp add: layers_ok_def db)
  have hist: "w \<in> set (concat Ws @ ws) \<or> in_table lib ?os ?db w \<or> w \<in> ex" if "w \<in> set (s_hist s)" for w
    using o(5) [OF that] t by blast
  show ?thesis by (rule sys_inv_butI [of _ _ Ws ws]) (use fl wl l hist in \<open>auto simp: flush_ok_def\<close>)
qed

lemma keep_drop_empty:
  assumes "sys_inv_but lib ex s" "s_flush s = Some (entry, Popped)" "MemTable_empty (snd (fe_memtable entry)) = Some True"
  shows "sys_inv_but lib ex (s\<lparr>s_os := unlink_all (s_os s) (fe_wals entry),
    s_db := flush_done (flush_erase (s_db s) (fst (fe_memtable entry))) entry Status_Ok, s_flush := None\<rparr>)"
  using keep_unlink [OF keep_erase [OF assms(1,2)], of entry] assms(3) by simp

lemma keep_read:
  assumes "sys_inv_but lib ex s" "DBImpl_get lib (s_os s) (s_db s) k = Some (st, v, db')"
  shows "sys_inv_but lib ex (s\<lparr>s_db := db'\<rparr>)"
proof -
  obtain Ws ws where o: "files_ok lib (s_os s) (s_db s)" "wals_ok (s_os s) (s_db s) (s_flush s)"
    "layers_ok (s_db s) (s_flush s) Ws ws" "flush_ok lib ex (s_os s) (s_db s) (s_flush s) Ws"
    "\<And>w. w \<in> set (s_hist s) \<Longrightarrow> w \<in> set (concat Ws @ ws) \<or> in_table lib (s_os s) (s_db s) w \<or> w \<in> ex"
    using assms(1) by (rule sys_inv_butE) blast
  obtain cache where c: "db' = (s_db s)\<lparr>db_cache := cache\<rparr>" "cache_coherent lib (s_os s) cache"
    using get_keeps [OF o(1,3), of k] assms(2) by auto
  have t: "in_table lib (s_os s) db' w = in_table lib (s_os s) (s_db s) w" for w by (intro in_table_levels) (simp add: c)
  have "files_ok lib (s_os s) db'" using o(1) c by (simp add: files_ok_def)
  moreover have "wals_ok (s_os s) db' (s_flush s)" using o(2) by (subst wals_ok_fields) (simp_all add: c)
  moreover have "layers_ok db' (s_flush s) Ws ws" using o(3) by (subst layers_ok_fields) (simp_all add: c)
  ultimately show ?thesis by (intro sys_inv_butI [of _ _ Ws ws]) (use o(4,5) t in \<open>auto simp: flush_ok_def\<close>)
qed

theorem step_keeps_inv_but: "db_step lib s s' \<Longrightarrow> sys_inv_but lib ex s \<Longrightarrow> sys_inv_but lib ex s'"
proof (induction rule: db_step.induct)
  case (lead s e)
  then show ?case by (intro keep_enqueue) (simp_all add: write_lead_def)
next
  case (follow s e)
  have "s_db s = (s_db s)\<lparr>db_leader := True\<rparr>" using follow(1) by (cases "s_db s") simp
  then have "write_follow (s_db s) e = (s_db s)\<lparr>db_leader := True, db_group := db_group (s_db s) @ [e]\<rparr>"
    unfolding write_follow_def by metis
  with follow(2) show ?case by (rule keep_enqueue)
next
  case (build s entry es os' db')
  then show ?case by (intro keep_build)
qed (auto intro: keep_commit keep_start keep_erase keep_unlink keep_drop_empty keep_read)

text \<open>Without compactions nothing is dropped.\<close>

definition sys_inv :: "codec_lib \<Rightarrow> db_sys \<Rightarrow> bool" where
  "sys_inv lib s \<longleftrightarrow> (\<exists>Ws ws. sys_ok lib s Ws ws)"

lemma sys_inv_but: "sys_inv lib s = sys_inv_but lib {} s"
  by (simp add: sys_inv_def sys_ok_def sys_inv_but_def sys_ok_but_def)

lemma sys_invE:
  assumes "sys_inv lib s"
  obtains Ws ws where "files_ok lib (s_os s) (s_db s)" "wals_ok (s_os s) (s_db s) (s_flush s)"
    "layers_ok (s_db s) (s_flush s) Ws ws" "flush_ok lib {} (s_os s) (s_db s) (s_flush s) Ws"
    "\<And>w. w \<in> set (s_hist s) \<Longrightarrow> w \<in> set (concat Ws @ ws) \<or> in_table lib (s_os s) (s_db s) w"
  using assms unfolding sys_inv_def sys_ok_def by blast

theorem step_keeps_inv: "db_step lib s s' \<Longrightarrow> sys_inv lib s \<Longrightarrow> sys_inv lib s'"
  unfolding sys_inv_but by (rule step_keeps_inv_but)

theorem reachable_inv: "(db_step lib)\<^sup>*\<^sup>* s s' \<Longrightarrow> sys_inv lib s \<Longrightarrow> sys_inv lib s'"
  by (induction rule: rtranclp_induct) (auto intro: step_keeps_inv)

section \<open>What the invariant gives\<close>

definition in_memory :: "DBImpl \<Rightarrow> write_op \<Rightarrow> bool" where
  "in_memory db w \<longleftrightarrow> (\<exists>mt\<in>set (memtables db). entry_of w \<in> set (MemTable_content mt))"

lemma inv_but_keeps_writes:
  assumes "sys_inv_but lib ex s" "w \<in> set (s_hist s)"
  shows "in_memory (s_db s) w \<or> in_table lib (s_os s) (s_db s) w \<or> w \<in> ex"
proof -
  obtain Ws ws where l: "layers_ok (s_db s) (s_flush s) Ws ws"
    and h: "w \<in> set (concat Ws @ ws) \<or> in_table lib (s_os s) (s_db s) w \<or> w \<in> ex"
    using assms(1) by (rule sys_inv_butE) (use assms(2) in blast)
  have "in_memory (s_db s) w" if "w \<in> set (concat Ws @ ws)"
  proof -
    from that have "(\<exists>W\<in>set Ws. w \<in> set W) \<or> w \<in> set ws" by simp
    then have "\<exists>W\<in>set (ws # rev Ws). w \<in> set W" by auto
    then obtain W where W: "W \<in> set (ws # rev Ws)" "w \<in> set W" ..
    then obtain i where i: "i < length (ws # rev Ws)" "W = (ws # rev Ws) ! i" by (metis in_set_conv_nth)
    have "mem_history (memtables (s_db s) ! i) W" "i < length (memtables (s_db s))"
      using layers_memtables(1) [OF l] i by (auto simp: list_all2_conv_all_nth)
    with mem_history_inv(2) [of "memtables (s_db s) ! i" W] W(2)
    have "entry_of w \<in> set (MemTable_content (memtables (s_db s) ! i))" "memtables (s_db s) ! i \<in> set (memtables (s_db s))"
      by simp_all
    then show ?thesis unfolding in_memory_def by blast
  qed
  with h show ?thesis by blast
qed

lemma inv_keeps_writes: "sys_inv lib s \<Longrightarrow> w \<in> set (s_hist s) \<Longrightarrow> in_memory (s_db s) w \<or> in_table lib (s_os s) (s_db s) w"
  using inv_but_keeps_writes [of lib "{}"] by (simp add: sys_inv_but)

end
