(* ===== verification/Db_Session.thy ===== *)
theory Db_Session
  imports Db_System
begin

text \<open>
  A session on one database: \<open>DB::open\<close> on an empty file system establishes the invariant of
  \<open>Db_System\<close>, and what \<open>get\<close> returns after a put or a delete.
\<close>

section \<open>Opening an empty database\<close>

definition fresh_os :: "path \<Rightarrow> os \<Rightarrow> bool" where
  "fresh_os dir os \<longleftrightarrow> os_files os = [] \<and> os_faults os = []"

lemma make_dirs_files: "os_faults os = [] \<Longrightarrow> os_files (make_dirs os ds) = os_files os \<and> os_faults (make_dirs os ds) = []"
  by (induction os ds rule: make_dirs.induct) (simp_all add: sys_mkdir_def)

lemma make_dirs_dirs: "os_faults os = [] \<Longrightarrow> set (os_dirs (make_dirs os ds)) = set (os_dirs os) \<union> set ds"
  by (induction os ds rule: make_dirs.induct) (auto simp: sys_mkdir_def)

lemma fresh_manifest:
  assumes "os_files os = []" "os_faults os = []"
  shows "\<exists>dirs. Manifest_open os (Manifest_new dir) =
    (\<lparr>os_files = [(dir @ str ''/MANIFEST'', new_file)], os_dirs = dirs, os_faults = []\<rparr>,
     \<lparr>mf_path = dir @ str ''/MANIFEST'', mf_fd = Some (dir @ str ''/MANIFEST''), mf_levels = replicate 8 []\<rparr>, Status_Ok) \<and>
    set (os_dirs os) \<subseteq> set dirs"
  using assms
  by (cases os) (auto simp: Manifest_open_def Manifest_new_def sys_mkdir_def recoverActivePathUnlocked_def sys_exists_def file_of_def
      sys_open_creat_def set_file_def Manifest_replay_def content_of_def new_file_def manifest_replay_loop.simps manifest_read_def Let_def)

lemma fresh_snapshot:
  fixes mp :: path
  assumes "os = \<lparr>os_files = [(mp, new_file)], os_dirs = dirs, os_faults = []\<rparr>"
    "m = \<lparr>mf_path = mp, mf_fd = Some mp, mf_levels = replicate 8 []\<rparr>"
  shows "Manifest_rewriteSnapshot os m =
    (\<lparr>os_files = [(mp @ str ''.bak'', new_file), (mp, new_file)], os_dirs = dirs, os_faults = []\<rparr>, m, Status_Ok)"
proof -
  have "snapshot_metas (replicate 8 []) = []"
    by (simp add: snapshot_metas_def eval_nat_numeral)
  then show ?thesis unfolding assms
    by (simp add: Manifest_rewriteSnapshot_def sys_open_trunc_def set_file_def sys_fdatasync_def file_of_def new_file_def
        sys_unlink_def sys_rename_def sys_open_creat_def Let_def)
qed

lemma purge_nothing:
  assumes "\<forall>p\<in>set (map fst (os_files os)). \<not> is_sst p"
  shows "purge_dirs os live dirs = os"
proof -
  have "orphans os live d = []" for d
  proof -
    have "\<not> is_sst (d @ [47] @ name)" if nm: "name \<in> set (list_dir os d)" for name
    proof -
      obtain p where p: "p \<in> set (map fst (os_files os))" "take (length d + 1) p = d @ [47]" "name = drop (length d + 1) p"
        using nm by (auto simp: list_dir_def)
      then have "d @ [47] @ name = p" by (metis append.assoc append_take_drop_id)
      with assms p(1) show ?thesis by fastforce
    qed
    then show ?thesis by (auto simp: orphans_def filter_empty_conv)
  qed
  then show ?thesis by (induction dirs) simp_all
qed

lemma fresh_version:
  assumes "file_of os mp = Some new_file"
  shows "version_inv os \<lparr>v_levels = replicate 8 [], v_next_file_number = n,
    v_manifest = Some \<lparr>mf_path = mp, mf_fd = Some mp, mf_levels = replicate 8 []\<rparr>\<rparr>"
  using assms
  by (auto simp: version_inv_def manifest_inv_def replays_to_def new_file_def manifest_replay_loop.simps manifest_read_def
      intro: exI [of _ "[]"])

lemma fresh_cache: "cache_coherent lib os None" "cache_coherent lib os (Some (BlockCache_new n))"
  by (auto simp: cache_coherent_def BlockCache_lookup_def BlockCache_new_def BlockCache_inv_def linked_map_def entry_bytes_def list_lookup_def)

definition open_ok :: "Options \<Rightarrow> path \<Rightarrow> bool" where
  "open_ok opts dir \<longleftrightarrow> dir = (if db_path opts = [] then str ''./minikv_data'' else db_path opts) \<and> dir_ok dir"

lemma to_digits_length: "n < 10 ^ k \<Longrightarrow> 0 < k \<Longrightarrow> length (to_digits n) \<le> k"
proof (induction k arbitrary: n)
  case (Suc k)
  show ?case
  proof (cases "n < 10")
    case False
    then have "0 < k" using Suc.prems(1) by (cases k) auto
    moreover have "n div 10 < 10 ^ k" using Suc.prems(1) by (simp add: div_less_iff_less_mult mult.commute)
    ultimately show ?thesis using Suc.IH [of "n div 10"] False by (simp add: to_digits.simps [of n])
  qed (simp add: to_digits.simps)
qed simp

text \<open>Every file name of a database in a directory of a reasonable length fits into a MANIFEST record.\<close>

lemma dir_ok_short: "length dir \<le> 4096 \<Longrightarrow> dir_ok dir"
proof -
  assume d: "length dir \<le> 4096"
  have "length (sst_path dir l n) \<le> 4200" if "l < 8" for l n
  proof -
    have "unat n < 10 ^ 20" using unsigned_less [of n, where 'a = nat] by simp
    then have "length (to_digits (unat n)) \<le> 20" by (rule to_digits_length) simp
    moreover have "length (to_digits l) \<le> 1" using that by (intro to_digits_length) simp_all
    ultimately show ?thesis using d by (simp add: sst_path_def level_dir_def str_def)
  qed
  then have "l < 8 \<Longrightarrow> length (sst_path dir l n) + 17 \<le> 2 ^ 24" for l n by (fastforce intro: order_trans)
  then show ?thesis by (simp add: dir_ok_def short_path_def)
qed

lemma fresh_wals:
  assumes "os_files os = [(dir @ str ''/MANIFEST.bak'', a), (dir @ str ''/MANIFEST'', b)]"
  shows "listWalFiles os dir = []"
proof -
  have "list_dir os dir = [str ''MANIFEST.bak'', str ''MANIFEST'']"
    using assms by (simp add: list_dir_def str_def)
  then show ?thesis using assms
    by (simp add: listWalFiles_def content_of_def file_of_def wal_number_def str_def)
qed

lemma fresh_open_state:
  assumes "os_files os = []" "os_faults os = []" "open_ok opts dir" "codec_ok lib"
  shows "\<exists>os' db. DBImpl_open os opts rngs = Some (os', Some db, Status_Ok) \<and> db_group db = [] \<and> \<not> db_leader db \<and>
    db_seq db = 0 \<and> v_next_file_number (db_version db) = 2 \<and> db_options db = opts \<and> db_dir db = dir \<and>
    v_levels (db_version db) = replicate 8 [] \<and> db_current_wal db = makeWalPath dir 1 \<and> db_obsolete_wals db = [] \<and>
    db_flush_queue db = [] \<and> (\<exists>i m r. db_memtable db = Some (i, MemTable_new m r)) \<and>
    os_files os' = [(dir @ str ''/MANIFEST'' @ str ''.bak'', new_file), (dir @ str ''/MANIFEST'', new_file), (makeWalPath dir 1, new_file)] \<and>
    sys_ok lib \<lparr>s_os = os', s_db = db, s_hist = [], s_flush = None\<rparr> [] []"
proof -
  let ?mp = "dir @ str ''/MANIFEST''" and ?w = "makeWalPath dir 1"
  have dir: "dir = (if db_path opts = [] then str ''./minikv_data'' else db_path opts)" "dir_ok dir"
    using assms(3) by (auto simp: open_ok_def)
  obtain os1 db1 where new: "DBImpl_new os opts rngs = (os1, db1)" by fastforce
  have os1: "os_files os1 = []" "os_faults os1 = []" and db1: "db_dir db1 = dir" "db_version db1 = Version_new"
    "db_immutables db1 = []" "db_seq db1 = 0" "db_group db1 = []" "\<not> db_leader db1" "db_flush_queue db1 = []"
    "db_obsolete_wals db1 = []" "db_options db1 = opts" "db_cache db1 = None \<or> db_cache db1 = Some (BlockCache_new (word_of_nat (lru_cache_capacity opts)))"
    using new assms(1,2) make_dirs_files [OF assms(2)] dir(1)
    by (auto simp: DBImpl_new_def Let_def simp del: make_dirs.simps split: if_splits)
  let ?m = "\<lparr>mf_path = ?mp, mf_fd = Some ?mp, mf_levels = replicate 8 []\<rparr>"
  obtain dirs where mo: "Manifest_open os1 (Manifest_new dir) =
    (\<lparr>os_files = [(?mp, new_file)], os_dirs = dirs, os_faults = []\<rparr>, ?m, Status_Ok)"
    using fresh_manifest [OF os1] by blast
  let ?os2 = "\<lparr>os_files = [(?mp, new_file)], os_dirs = dirs, os_faults = []\<rparr>"
  let ?os3 = "\<lparr>os_files = [(?mp @ str ''.bak'', new_file), (?mp, new_file)], os_dirs = dirs, os_faults = []\<rparr>"
  have purge: "purgeOrphanSSTables ?os2 d = ?os2" for d
    by (simp add: purgeOrphanSSTables_def purge_nothing is_sst_def str_def)
  have snap: "Manifest_rewriteSnapshot ?os2 ?m = (?os3, ?m, Status_Ok)" by (rule fresh_snapshot) simp_all
  have wals: "listWalFiles ?os3 dir = []" by (rule fresh_wals) (simp_all add: str_def)
  let ?v = "\<lparr>v_levels = replicate 8 [], v_next_file_number = 2, v_manifest = Some ?m\<rparr>"
  let ?os4 = "\<lparr>os_files = [(?mp @ str ''.bak'', new_file), (?mp, new_file), (?w, new_file)], os_dirs = dirs, os_faults = []\<rparr>"
  let ?db = "(make_memtable db1)\<lparr>db_version := ?v, db_current_wal := ?w, db_wal := Some \<lparr>wal_path = ?w, wal_fd = Some ?w\<rparr>\<rparr>"
  have wn: "WAL_new ?os3 ?w = (?os4, \<lparr>wal_path = ?w, wal_fd = Some ?w\<rparr>)"
    by (simp add: WAL_new_def sys_open_creat_def file_of_def set_file_def makeWalPath_def str_def)
  have rec: "DBImpl_recover os1 db1 = Some (?os4, ?db, Status_Ok)"
    using mo purge snap wals wn db1(1,2)
    by (simp add: DBImpl_recover_def Version_setManifest_def Version_restoreFrom_def Version_new_def max_file_number_def
        make_memtable_def openWal_def Version_nextFileNumber_def Version_ensureNextFileNumberAtLeast_def Let_def eval_nat_numeral)
  let ?cm = "CompactionManager_start (CompactionManager_new dir (block_size opts) (max_level opts) (level0_compaction_trigger opts))"
  let ?res = "?db\<lparr>db_compaction := Some ?cm\<rparr>"
  have run: "DBImpl_open os opts rngs = Some (?os4, Some ?res, Status_Ok)"
    using new rec db1(1) by (simp add: DBImpl_open_def make_memtable_def)
  have cache: "cache_coherent lib ?os4 (db_cache db1)"
    using db1(10) fresh_cache by auto
  have files: "files_ok lib ?os4 ?res"
    using assms(4) dir(2) cache db1(1) fresh_version [of ?os4 ?mp 2]
    by (auto simp: files_ok_def make_memtable_def version_manifest_path_def file_of_def sst_path_def level_dir_def makeWalPath_def str_def)
  have wok: "wals_ok ?os4 ?res None"
    using db1(1,7,8) by (auto simp: wals_ok_def old_wals_def flush_wals_def make_memtable_def wal_below_def file_of_def intro: exI [of _ 1])
  have layers: "layers_ok ?res None [] []"
    using db1(3,4,7) mem_history_new by (auto simp: layers_ok_def queue_ok_def make_memtable_def pending_def seqs_increasing_def)
  show ?thesis
    using run files wok layers db1
    by (intro exI [of _ ?os4] exI [of _ ?res]) (simp add: sys_ok_def flush_ok_def make_memtable_def, blast)
qed

theorem fresh_open:
  assumes "os_files os = []" "os_faults os = []" "open_ok opts dir" "codec_ok lib"
  shows "\<exists>os' db. DBImpl_open os opts rngs = Some (os', Some db, Status_Ok) \<and> db_group db = [] \<and> \<not> db_leader db \<and>
    db_seq db = 0 \<and> v_next_file_number (db_version db) = 2 \<and> db_options db = opts \<and>
    sys_ok lib \<lparr>s_os = os', s_db = db, s_hist = [], s_flush = None\<rparr> [] []"
  using fresh_open_state [OF assms, of rngs] by blast

section \<open>Reads after writes\<close>

text \<open>A key whose last unflushed write is a put reads that value, whatever the tables hold.\<close>

lemma get_last_put:
  assumes "layers_ok db fl Ws ws" "last_write (concat Ws @ ws) k = Some w" "\<not> w_delete w"
  shows "DBImpl_get lib os db k = Some (Status_Ok, Some (w_value w), db)"
proof -
  have "concat (rev (ws # rev Ws)) = concat Ws @ ws" by simp
  with search_memtables_history [OF layers_memtables(1) [OF assms(1)], of k w "db_seq db"] assms(2,3)
  show ?thesis by (simp add: DBImpl_get_def)
qed

text \<open>A commit always returns.\<close>

lemma write_commit_total:
  assumes "layers_ok db fl Ws ws"
  shows "\<exists>r. write_commit os db = Some r"
proof -
  obtain i mt where m: "db_memtable db = Some (i, mt)" "mem_history mt ws" using assms by (auto simp: layers_ok_def)
  have "\<exists>mt'. apply_group mt (fst (base_seqs (db_seq db) (db_group db))) (db_group db) = Some mt'"
    using MemTable_run_total [OF mem_history_inv(1) [OF m(2)]] by (auto simp: apply_group_run)
  then show ?thesis using m(1)
    by (cases "base_seqs (db_seq db) (db_group db)")
      (auto simp: write_commit_def doWriteGroup_def Let_def split: prod.split option.split)
qed

definition idle :: "DBImpl \<Rightarrow> bool" where
  "idle db \<longleftrightarrow> db_group db = [] \<and> \<not> db_leader db"

lemma write_batch_ok:
  assumes inv: "files_ok lib os db" "wals_ok os db fl" "layers_ok db fl Ws ws" and idle: "idle db"
    and fits: "group_fits (write_lead db \<lparr>ge_writer = 0, ge_batch = batch, ge_opts = opts\<rparr>)"
  shows "\<exists>os' db' Ws' ws'. DBImpl_write os db opts batch = Some (os', db', Status_Ok) \<and>
    files_ok lib os' db' \<and> wals_ok os' db' fl \<and> layers_ok db' fl Ws' ws' \<and>
    concat Ws' @ ws' = concat Ws @ ws @ ops_writes (db_seq db + 1) batch"
proof -
  let ?db = "write_lead db \<lparr>ge_writer = 0, ge_batch = batch, ge_opts = opts\<rparr>"
  have pre: "files_ok lib os ?db" "wals_ok os ?db fl" "layers_ok ?db fl Ws ws"
    using inv by (subst files_ok_fields wals_ok_fields layers_ok_fields; simp add: write_lead_def)+
  obtain os' db' rs where c: "write_commit os ?db = Some (os', db', rs)"
    using write_commit_total [OF pre(3)] by (metis prod_cases3)
  have grp: "group_ops (db_group ?db) = batch" "db_seq ?db = db_seq db"
    using idle by (simp_all add: write_lead_def idle_def group_ops_def)
  have rs: "length rs = 1" using c idle by (auto simp: write_commit_def write_lead_def idle_def Let_def split: option.splits prod.splits)
  from write_commit_ok [OF pre fits c] obtain Ws' ws' where "files_ok lib os' db'" "wals_ok os' db' fl" "layers_ok db' fl Ws' ws'"
    "concat Ws' @ ws' = concat Ws @ ws @ ops_writes (db_seq db + 1) batch" "\<forall>(i, s)\<in>set rs. s = Status_Ok"
    unfolding grp by blast
  moreover have "snd (last rs) = Status_Ok" using calculation(5) rs by (auto simp: length_Suc_conv)
  ultimately show ?thesis using c by (auto simp: DBImpl_write_def)
qed

theorem put_get:
  assumes "files_ok lib os db" "wals_ok os db fl" "layers_ok db fl Ws ws" "idle db"
    "group_fits (write_lead db \<lparr>ge_writer = 0, ge_batch = WriteBatch_put [] k v, ge_opts = opts\<rparr>)"
  shows "\<exists>os' db'. DBImpl_put os db opts k v = Some (os', db', Status_Ok) \<and> DBImpl_get lib os' db' k = Some (Status_Ok, Some v, db')"
proof -
  obtain os' db' Ws' ws' where w: "DBImpl_write os db opts (WriteBatch_put [] k v) = Some (os', db', Status_Ok)"
    "layers_ok db' fl Ws' ws'" "concat Ws' @ ws' = concat Ws @ ws @ ops_writes (db_seq db + 1) (WriteBatch_put [] k v)"
    using write_batch_ok [OF assms] by blast
  let ?w = "\<lparr>w_key = k, w_value = v, w_seq = db_seq db + 1, w_delete = False\<rparr>"
  have "concat Ws' @ ws' = (concat Ws @ ws) @ [?w]" using w(3) by (simp add: WriteBatch_put_def)
  then have "last_write (concat Ws' @ ws') k = Some ?w" by (simp only: last_write_append) (simp add: last_write_def)
  from get_last_put [OF w(2) this] w(1) show ?thesis by (simp add: DBImpl_put_def)
qed

text \<open>
  What the layers in memory answer: the newest layer whose last write of the key is a put. A layer
  whose last write is a delete is passed over like one that does not know the key.
\<close>

fun newest_live :: "write_op list list \<Rightarrow> Slice \<Rightarrow> bytes option" where
  "newest_live [] k = None"
| "newest_live (ws # wss) k = (case read_write (last_write ws k) of Some v \<Rightarrow> Some v | None \<Rightarrow> newest_live wss k)"

lemma search_memtables_live_layer:
  "list_all2 mem_history mts wss \<Longrightarrow> search_memtables mts k seq = Some (newest_live wss k)"
  by (induction mts wss rule: list_all2_induct) (simp_all add: mem_history_get split: option.split)

theorem get_newest_live:
  assumes "layers_ok db fl Ws ws" "newest_live (ws # rev Ws) k = Some v"
  shows "DBImpl_get lib os db k = Some (Status_Ok, Some v, db)"
  using search_memtables_live_layer [OF layers_memtables(1) [OF assms(1)], of k "db_seq db"] assms(2)
  by (simp add: DBImpl_get_def)

section \<open>What holds in every state a new database reaches\<close>

lemma fresh_sys_inv:
  assumes "os_files os = []" "os_faults os = []" "open_ok opts dir" "codec_ok lib"
    "DBImpl_open os opts rngs = Some (os', Some db, st)"
  shows "sys_inv lib \<lparr>s_os = os', s_db = db, s_hist = [], s_flush = None\<rparr>"
  using fresh_open [OF assms(1-4), of rngs] assms(5) by (auto simp: sys_inv_def)

text \<open>The files of a running database: every registered table can be read, and the log in use is safe from the flush.\<close>

definition db_consistent :: "codec_lib \<Rightarrow> os \<Rightarrow> DBImpl \<Rightarrow> bool" where
  "db_consistent lib os db \<longleftrightarrow>
     version_inv os (db_version db) \<and> (\<forall>p\<in>registered db. \<exists>es. table_on_disk lib os p es \<and> sorted_entries es) \<and>
     cache_coherent lib os (db_cache db) \<and> list_all MemTable_inv (memtables db) \<and> file_of os (db_current_wal db) \<noteq> None \<and>
     db_current_wal db \<notin> set (db_obsolete_wals db) \<union> \<Union> (set ` fe_wals ` set (db_flush_queue db))"

lemma sys_inv_but_consistent: "sys_inv_but lib ex s \<Longrightarrow> db_consistent lib (s_os s) (s_db s)"
proof -
  assume inv: "sys_inv_but lib ex s"
  obtain Ws ws where o: "files_ok lib (s_os s) (s_db s)" "wals_ok (s_os s) (s_db s) (s_flush s)" "layers_ok (s_db s) (s_flush s) Ws ws"
    using inv by (rule sys_inv_butE) blast
  have "\<exists>es. table_on_disk lib (s_os s) p es \<and> sorted_entries es" if "p \<in> registered (s_db s)" for p
    using registered_path [OF o(1) that] by blast
  moreover have "version_inv (s_os s) (db_version (s_db s))" "cache_coherent lib (s_os s) (db_cache (s_db s))"
    using o(1) by (simp_all add: files_ok_def)
  moreover have "file_of (s_os s) (db_current_wal (s_db s)) \<noteq> None"
    "db_current_wal (s_db s) \<notin> set (db_obsolete_wals (s_db s)) \<union> \<Union> (set ` fe_wals ` set (db_flush_queue (s_db s)))"
    using o(2) by (auto simp: wals_ok_def old_wals_def)
  ultimately show ?thesis using layers_memtables(2) [OF o(3)] by (simp add: db_consistent_def)
qed

lemma sys_inv_consistent: "sys_inv lib s \<Longrightarrow> db_consistent lib (s_os s) (s_db s)"
  unfolding sys_inv_but by (rule sys_inv_but_consistent)

end
