(* ===== verification/Db_Iterator.thy ===== *)
theory Db_Iterator
  imports Db_Session
begin

text \<open>
  \<open>DBImpl::newIterator\<close> on a consistent database: its children deliver the memtables and the
  listed tables, no child reports an error, and none does while the iterator advances.
\<close>

section \<open>Children without errors\<close>

definition children_ok :: "ChildIterator option list \<Rightarrow> bool" where
  "children_ok cs \<longleftrightarrow> list_all (\<lambda>c. \<forall>x. c = Some x \<longrightarrow> Status_ok (child_status x)) cs"

lemma children_ok_append [simp]: "children_ok (cs @ ds) \<longleftrightarrow> children_ok cs \<and> children_ok ds"
  by (simp add: children_ok_def)

lemma children_ok_error: "children_ok cs \<Longrightarrow> first_error cs = Status_Ok"
  by (induction cs) (auto simp: children_ok_def split: option.split)

lemma child_status_next [simp]: "child_status (child_next c) = child_status c"
  by (cases c) (simp_all add: child_status_def child_next_def MemTableIterator_status_def SSTableIterator_status_def
      MemTableIterator_next_def SSTableIterator_next_def)

lemma advance_ok: "children_ok cs \<Longrightarrow> children_ok (advance_child cs i)"
  by (auto simp: children_ok_def advance_child_def list_all_length nth_list_update)

lemma merging_next_loop_ok: "merging_next_loop cur cs h = (cs', h') \<Longrightarrow> children_ok cs \<Longrightarrow> children_ok cs'"
  by (induction cur cs h arbitrary: cs' h' rule: merging_next_loop.induct)
    (auto simp: Let_def advance_ok split: if_splits)

lemma next_children_ok: "children_ok (mi_children it) \<Longrightarrow> children_ok (mi_children (MergingIterator_next it))"
  using merging_next_loop_ok [of _ "mi_children it" "mi_heap it"]
  by (auto simp: MergingIterator_next_def Let_def split: prod.split)

lemma next_status: "mi_status (MergingIterator_next it) = mi_status it"
  by (simp add: MergingIterator_next_def Let_def split: prod.split)

definition iterator_ok :: "MergingIterator \<Rightarrow> bool" where
  "iterator_ok it \<longleftrightarrow> mi_inv it \<and> Status_ok (mi_status it) \<and> children_ok (mi_children it)"

lemma iterator_ok_status: "iterator_ok it \<Longrightarrow> Status_ok (MergingIterator_status it)"
  by (simp add: iterator_ok_def MergingIterator_status_def children_ok_error)

lemma iterator_ok_next: "iterator_ok it \<Longrightarrow> MergingIterator_valid it \<Longrightarrow> iterator_ok (MergingIterator_next it)"
  by (simp add: iterator_ok_def next_children_ok next_status MergingIterator_step(3))

section \<open>The children of newIterator\<close>

lemma mem_children_rests:
  "list_all MemTable_inv mts \<Longrightarrow> \<exists>cs. mem_children mts = Some cs \<and> rests cs = map MemTable_content mts \<and> children_ok cs \<and>
     map (map_option child_seekToFirst) cs = cs"
proof (induction mts)
  case (Cons mt mts)
  obtain cs where cs: "mem_children mts = Some cs" "rests cs = map MemTable_content mts" "children_ok cs"
    "map (map_option child_seekToFirst) cs = cs" using Cons by auto
  let ?it = "MemTableIterator_seekToFirst (MemTableIterator_new (map (\<lambda>(k, v). \<lparr>internal_key = k, entry_value = v\<rparr>) (MemTable_content mt)))"
  have inv: "MemTable_inv mt" using Cons.prems by simp
  have "mti_rest ?it = MemTable_content mt"
    using MemTableIterator_new_rest [OF MemTable_content_sorted [OF inv]]
    by (simp add: mti_rest_def MemTableIterator_seekToFirst_def MemTableIterator_new_def)
  then have c: "child_rest (MemChild ?it) = MemTable_content mt"
    by (simp add: child_rest_def mti_ok_def MemTableIterator_seekToFirst_def MemTableIterator_new_def)
  have "Status_ok (child_status (MemChild ?it))" "child_seekToFirst (MemChild ?it) = MemChild ?it"
    by (simp_all add: child_status_def MemTableIterator_status_def child_seekToFirst_def MemTableIterator_seekToFirst_def MemTableIterator_new_def)
  with c cs MemTable_entries_content [OF inv] show ?case by (simp add: rests_def children_ok_def)
qed (simp add: rests_def children_ok_def)

lemma table_children_rests:
  assumes "list_all2 (\<lambda>p es. table_on_disk lib os p es \<and> sorted_entries es) ps ess" "cache_coherent lib os cache"
  shows "\<exists>cs cache'. table_children lib os cache ps = (cs, cache') \<and> rests cs = ess \<and> children_ok cs \<and>
    map (map_option child_seekToFirst) cs = cs \<and> cache_coherent lib os cache'"
  using assms
proof (induction arbitrary: cache rule: list_all2_induct)
  case (Cons p ps es ess)
  obtain r it cache1 where it: "SSTableReader_open os p = Some r" "SSTableIterator_new lib os cache (Some r) = (it, cache1)"
    "cache_coherent lib os cache1" "sti_ok it" "sti_rest (SSTableIterator_seekToFirst it) = es"
    using SSTableIterator_new_rest [of lib os p es cache] Cons.hyps Cons.prems by blast
  obtain cs cache2 where cs: "table_children lib os cache1 ps = (cs, cache2)" "rests cs = ess" "children_ok cs"
    "map (map_option child_seekToFirst) cs = cs" "cache_coherent lib os cache2" using Cons.IH [OF it(3)] by blast
  have "child_rest (SstChild (SSTableIterator_seekToFirst it)) = es" "Status_ok (child_status (SstChild (SSTableIterator_seekToFirst it)))"
    "child_seekToFirst (SstChild (SSTableIterator_seekToFirst it)) = SstChild (SSTableIterator_seekToFirst it)"
    using it(4,5) by (simp_all add: child_rest_def sti_ok_def child_status_def SSTableIterator_status_def child_seekToFirst_def SSTableIterator_seekToFirst_def)
  then show ?case using it(1,2) cs by (simp add: rests_def children_ok_def)
qed (simp add: rests_def children_ok_def)

theorem newIterator_ok:
  assumes "files_ok lib os db" "layers_ok db fl Ws ws"
  shows "\<exists>it cache ess. newIterator lib os db = Some (it, db\<lparr>db_cache := cache\<rparr>) \<and> cache_coherent lib os cache \<and>
    list_all2 (\<lambda>p es. table_on_disk lib os p es \<and> sorted_entries es) (table_paths db) ess \<and>
    iterator_ok (MergingIterator_seekToFirst it) \<and>
    rests (mi_children (MergingIterator_seekToFirst it)) = map MemTable_content (memtables db) @ ess"
proof -
  obtain ms where ms: "mem_children (memtables db) = Some ms" "rests ms = map MemTable_content (memtables db)" "children_ok ms"
    "map (map_option child_seekToFirst) ms = ms"
    using mem_children_rests [OF layers_memtables(2) [OF assms(2)]] by blast
  obtain ess where ess: "list_all2 (\<lambda>p es. table_on_disk lib os p es \<and> sorted_entries es) (table_paths db) ess"
    using table_paths_tables [OF assms(1)] by blast
  obtain ts cache where ts: "table_children lib os (db_cache db) (table_paths db) = (ts, cache)" "rests ts = ess" "children_ok ts"
    "map (map_option child_seekToFirst) ts = ts" "cache_coherent lib os cache"
    using table_children_rests [OF ess] assms(1) unfolding files_ok_def by blast
  let ?it = "MergingIterator_seekToFirst (MergingIterator_new (ms @ ts))"
  have ch: "mi_children ?it = ms @ ts" "mi_children (MergingIterator_seekToFirst ?it) = ms @ ts"
    "Status_ok (mi_status (MergingIterator_seekToFirst ?it))"
    using ms(3,4) ts(3,4) children_ok_error [of "ms @ ts"]
    by (simp_all add: MergingIterator_seekToFirst_def rebuildHeap_def MergingIterator_new_def Let_def)
  then have "iterator_ok (MergingIterator_seekToFirst ?it)"
    using ms(3) ts(3) by (simp add: iterator_ok_def MergingIterator_seek_inv(1))
  moreover have "rests (ms @ ts) = map MemTable_content (memtables db) @ ess" using ms(2) ts(2) by (simp add: rests_def)
  ultimately show ?thesis using ms(1) ts(1,5) ess ch(2) by (auto simp: newIterator_def)
qed

text \<open>Every entry the iterator delivers carries an internal key.\<close>

lemma newIterator_ikeys:
  assumes "iterator_ok it" "rests (mi_children it) = map MemTable_content mts @ ess" "list_all MemTable_inv mts"
    "\<forall>es\<in>set ess. sorted_entries es"
  shows "\<forall>e\<in>set (mi_rest it). is_ikey (fst e)"
proof
  fix e assume "e \<in> set (mi_rest it)"
  then have "e \<in> pool (map MemTable_content mts @ ess)"
    using merge_keys(2) [of it] assms(1,2) by (auto simp: iterator_ok_def)
  then obtain es where "e \<in> set es" "sorted_entries es"
    using assms(3,4) MemTable_content_sorted by (fastforce simp: pool_def list_all_iff)
  then show "is_ikey (fst e)" by (simp add: sorted_entries_def)
qed

end
