(* ===== verification/Server.thy ===== *)
theory Server
  imports Protocol Reactor Db_Iterator
begin

text \<open>
  \<open>minikv/src/network/server.cpp\<close>: the request handler behind every connection and the
  server's own state. \<open>processRequest\<close> is the whole \<open>switch\<close>; it is total on the requests a
  \<open>Connection\<close> hands over, which are complete. The iterator loops of the scan and of the
  range delete carry the number of entries left as fuel; \<open>scan_loop_rest\<close> shows that it is
  enough and that the loops see every entry the merging iterator delivers. Socket creation and
  the log output are left out; the outcome of the socket calls is an argument of
  \<open>Server_new\<close>.
\<close>

section \<open>Payloads\<close>

definition scan_item_image :: "bytes \<times> bytes \<Rightarrow> bytes" where
  "scan_item_image kv = encodeFixed32 (size_u32 (fst kv)) @ fst kv @ encodeFixed32 (size_u32 (snd kv)) @ snd kv"

definition encodeScanPayload :: "(bytes \<times> bytes) list \<Rightarrow> bytes" where
  "encodeScanPayload items = encodeFixed32 (size_u32 items) @ concat (map scan_item_image items)"

text \<open>The loop over the operations of a batch; \<open>Inl\<close> carries the message of the error answer.\<close>

fun parse_batch_ops :: "nat \<Rightarrow> bytes \<Rightarrow> WriteBatch \<Rightarrow> bytes + WriteBatch" where
  "parse_batch_ops 0 p batch = Inr batch"
| "parse_batch_ops (Suc n) p batch =
     (if length p < 5 then Inl (str ''truncated batch'')
      else
        let op = hd p; klen = unat (decodeFixed32 (tl p)); p = drop 5 p in
        if length p < klen + 4 then Inl (str ''truncated key'')
        else
          let k = take klen p; p = drop klen p; vlen = unat (decodeFixed32 p); p = drop 4 p in
          if length p < vlen then Inl (str ''truncated val'')
          else
            let v = take vlen p; p = drop vlen p in
            if op = BatchOpType_u8 kPut then parse_batch_ops n p (WriteBatch_put batch k v)
            else if op = BatchOpType_u8 kDelete then parse_batch_ops n p (WriteBatch_del batch k)
            else Inl (str ''bad batch op''))"

section \<open>Scan and range delete\<close>

text \<open>
  One entry of the iterator: \<open>Some\<close> with the new \<open>last_user\<close> and what it contributes,
  \<open>None\<close> for \<open>break\<close>.
\<close>

definition scan_entry :: "bytes \<Rightarrow> bytes \<Rightarrow> bytes \<Rightarrow> bytes \<times> bytes \<Rightarrow> (bytes \<times> (bytes \<times> bytes) list) option" where
  "scan_entry start lim last_user e =
     (let ik = fst e in
      if length ik < kTrailerBytes then Some (last_user, [])
      else
        let uks = InternalKeyUserKey ik in
        if start \<noteq> [] \<and> uks < start then Some (last_user, [])
        else if lim \<noteq> [] \<and> lim \<le> uks then None
        else if uks = last_user then Some (last_user, [])
        else if InternalKeyType ik = vtDeletion then Some (uks, [])
        else Some (uks, [(uks, snd e)]))"

definition range_entry :: "bytes \<Rightarrow> bytes \<Rightarrow> bytes \<Rightarrow> bytes \<times> bytes \<Rightarrow> (bytes \<times> bytes list) option" where
  "range_entry start lim last_user e =
     (let ik = fst e in
      if length ik < kTrailerBytes then Some (last_user, [])
      else
        let uks = InternalKeyUserKey ik in
        if start \<noteq> [] \<and> uks < start then Some (last_user, [])
        else if lim \<noteq> [] \<and> lim \<le> uks then None
        else if uks = last_user then Some (last_user, [])
        else Some (uks, [uks]))"

text \<open>The loop \<open>while (it->valid())\<close> with one of the two bodies: the iterator behind it and the items.\<close>

fun iter_loop :: "nat \<Rightarrow> (bytes \<Rightarrow> bytes \<times> bytes \<Rightarrow> (bytes \<times> 'a list) option) \<Rightarrow> bytes \<Rightarrow> MergingIterator
    \<Rightarrow> MergingIterator \<times> 'a list" where
  "iter_loop 0 body last_user it = (it, [])"
| "iter_loop (Suc n) body last_user it =
     (if \<not> MergingIterator_valid it then (it, [])
      else
        case body last_user (MergingIterator_key it, MergingIterator_value it) of
          None \<Rightarrow> (it, [])
        | Some (last_user, items) \<Rightarrow>
            (case iter_loop n body last_user (MergingIterator_next it) of (it, items') \<Rightarrow> (it, items @ items')))"

section \<open>processRequest\<close>

definition default_wopts :: WriteOptions where
  "default_wopts = \<lparr>wopt_sync = True\<rparr>"

definition status_response :: "Status \<Rightarrow> bytes" where
  "status_response s = (if \<not> Status_ok s then encodeResponse Resp_kError (status_msg s) else encodeResponse Resp_kOk [])"

definition process_put :: "os \<Rightarrow> DBImpl \<Rightarrow> Slice \<Rightarrow> Slice \<Rightarrow> (os \<times> DBImpl \<times> bytes) option" where
  "process_put os db key val =
     (case DBImpl_put os db default_wopts key val of None \<Rightarrow> None
      | Some (os, db, s) \<Rightarrow> Some (os, db, status_response s))"

definition process_get :: "codec_lib \<Rightarrow> os \<Rightarrow> DBImpl \<Rightarrow> Slice \<Rightarrow> (os \<times> DBImpl \<times> bytes) option" where
  "process_get lib os db key =
     (case DBImpl_get lib os db key of None \<Rightarrow> None
      | Some (s, v, db) \<Rightarrow>
          Some (os, db, if Status_ok s then encodeResponse Resp_kOk (case v of None \<Rightarrow> [] | Some v \<Rightarrow> v)
                        else encodeResponse Resp_kNotFound []))"

definition process_del :: "os \<Rightarrow> DBImpl \<Rightarrow> Slice \<Rightarrow> (os \<times> DBImpl \<times> bytes) option" where
  "process_del os db key =
     (case DBImpl_del os db default_wopts key of None \<Rightarrow> None
      | Some (os, db, s) \<Rightarrow> Some (os, db, status_response s))"

definition process_scan :: "codec_lib \<Rightarrow> os \<Rightarrow> DBImpl \<Rightarrow> bytes \<Rightarrow> bytes \<Rightarrow> (os \<times> DBImpl \<times> bytes) option" where
  "process_scan lib os db start lim =
     (case newIterator lib os db of None \<Rightarrow> None
      | Some (it, db) \<Rightarrow>
          let it = MergingIterator_seekToFirst it in
          case iter_loop (mi_left it) (scan_entry start lim) [] it of (it, items) \<Rightarrow>
            Some (os, db,
              if \<not> Status_ok (MergingIterator_status it) then encodeResponse Resp_kError (status_msg (MergingIterator_status it))
              else encodeResponse Resp_kOk (encodeScanPayload items)))"

definition process_batch :: "os \<Rightarrow> DBImpl \<Rightarrow> bytes \<Rightarrow> (os \<times> DBImpl \<times> bytes) option" where
  "process_batch os db val =
     (if length val < 4 then Some (os, db, encodeResponse Resp_kError (str ''bad batch''))
      else
        case parse_batch_ops (unat (decodeFixed32 val)) (drop 4 val) [] of
          Inl msg \<Rightarrow> Some (os, db, encodeResponse Resp_kError msg)
        | Inr batch \<Rightarrow>
            (case DBImpl_write os db default_wopts batch of None \<Rightarrow> None
             | Some (os, db, s) \<Rightarrow> Some (os, db, status_response s)))"

definition process_delete_range :: "codec_lib \<Rightarrow> os \<Rightarrow> DBImpl \<Rightarrow> bytes \<Rightarrow> bytes \<Rightarrow> (os \<times> DBImpl \<times> bytes) option" where
  "process_delete_range lib os db start lim =
     (case newIterator lib os db of None \<Rightarrow> None
      | Some (it, db) \<Rightarrow>
          let it = MergingIterator_seekToFirst it;
              batch = fold (\<lambda>uks batch. WriteBatch_del batch uks) (snd (iter_loop (mi_left it) (range_entry start lim) [] it)) []
          in if WriteBatch_count batch = 0 then Some (os, db, encodeResponse Resp_kOk [])
             else
               case DBImpl_write os db default_wopts batch of None \<Rightarrow> None
               | Some (os, db, s) \<Rightarrow> Some (os, db, status_response s))"

definition processRequest :: "codec_lib \<Rightarrow> os \<Rightarrow> DBImpl \<Rightarrow> bytes \<Rightarrow> (os \<times> DBImpl \<times> bytes) option" where
  "processRequest lib os db rawData =
     (if length rawData < kRequestHeader then Some (os, db, encodeResponse Resp_kError [])
      else
        let hdr = RequestHeader_at rawData in
        if hdr_magic hdr \<noteq> kProtocolMagic then Some (os, db, encodeResponse Resp_kError (str ''bad magic''))
        else
          let key = take (unat (hdr_key_len hdr)) (drop kRequestHeader rawData);
              val = take (unat (hdr_val_len hdr)) (drop (kRequestHeader + unat (hdr_key_len hdr)) rawData)
          in case Cmd_of_u8 (hdr_cmd hdr) of
               Some Cmd_kPut \<Rightarrow> process_put os db key val
             | Some Cmd_kGet \<Rightarrow> process_get lib os db key
             | Some Cmd_kDel \<Rightarrow> process_del os db key
             | Some Cmd_kScan \<Rightarrow> process_scan lib os db key val
             | Some Cmd_kBatch \<Rightarrow> process_batch os db val
             | Some Cmd_kDeleteRange \<Rightarrow> process_delete_range lib os db key val
             | None \<Rightarrow> Some (os, db, encodeResponse Resp_kError (str ''Unknown command'')))"

section \<open>The server object\<close>

text \<open>
  Which of \<open>socket\<close>, \<open>bind\<close> and \<open>listen\<close> succeed and the port \<open>getsockname\<close> reports are
  arguments; \<open>srv_listen_fd\<close> is \<open>None\<close> for \<open>-1\<close>.
\<close>

record Server =
  srv_host :: bytes
  srv_port :: int
  srv_io_threads :: int
  srv_biz_threads :: int
  srv_listen_fd :: "nat option"
  srv_has_pool :: bool
  srv_io_pool :: EventLoopThreadPool

definition Server_new :: "bytes \<Rightarrow> int \<Rightarrow> int \<Rightarrow> int \<Rightarrow> nat option \<Rightarrow> bool \<Rightarrow> bool \<Rightarrow> int option \<Rightarrow> Server" where
  "Server_new host port io_threads biz_threads sock bind_ok listen_ok bound_port =
     (let io = (if io_threads < 0 then 0 else io_threads);
          biz = (if biz_threads < 0 then 0 else biz_threads);
          s = \<lparr>srv_host = host, srv_port = port, srv_io_threads = io, srv_biz_threads = biz, srv_listen_fd = sock,
               srv_has_pool = (biz > 0), srv_io_pool = EventLoopThreadPool_new\<rparr>
      in if sock = None then s
         else if \<not> bind_ok then s\<lparr>srv_listen_fd := None\<rparr>
         else if \<not> listen_ok then s\<lparr>srv_listen_fd := None\<rparr>
         else if port = 0 then (case bound_port of None \<Rightarrow> s | Some p \<Rightarrow> s\<lparr>srv_port := p\<rparr>) else s)"

definition Server_run_start :: "Server \<Rightarrow> Server option" where
  "Server_run_start s =
     (if srv_listen_fd s = None then None
      else Some (s\<lparr>srv_io_pool := EventLoopThreadPool_start (nat (srv_io_threads s)) (srv_io_pool s)\<rparr>))"

definition Server_run_end :: "Server \<Rightarrow> Server" where
  "Server_run_end s = s\<lparr>srv_io_pool := EventLoopThreadPool_stop (srv_io_pool s)\<rparr>"

text \<open>
  \<open>handleNewConnection\<close> over the results of \<open>accept4\<close>: a descriptor, an interrupted call or
  another error. The accepted descriptors come with the loop that registers them and the
  connection \<open>registerConnection\<close> makes.
\<close>

datatype accept_result = Accepted nat | AcceptIntr | AcceptErr

definition registerConnection :: "Server \<Rightarrow> Connection" where
  "registerConnection s = Connection_new (srv_has_pool s)"

fun handleNewConnection :: "accept_result list \<Rightarrow> Server \<Rightarrow> Server \<times> (nat \<times> nat option \<times> Connection) list" where
  "handleNewConnection [] s = (s, [])"
| "handleNewConnection (AcceptIntr # rs) s = handleNewConnection rs s"
| "handleNewConnection (AcceptErr # rs) s = (s, [])"
| "handleNewConnection (Accepted fd # rs) s =
     (case EventLoopThreadPool_next (srv_io_pool s) of (io, iop) \<Rightarrow>
        case handleNewConnection rs (s\<lparr>srv_io_pool := iop\<rparr>) of (s, cs) \<Rightarrow> (s, (fd, io, registerConnection s) # cs))"

section \<open>The answer to each command\<close>

lemma request_parts:
  assumes "length key < 2 ^ 32" "length val < 2 ^ 32"
  shows "\<not> length (encode_request cmd key val) < kRequestHeader"
    "hdr_magic (RequestHeader_at (encode_request cmd key val)) = kProtocolMagic"
    "hdr_cmd (RequestHeader_at (encode_request cmd key val)) = cmd"
    "take (unat (hdr_key_len (RequestHeader_at (encode_request cmd key val)))) (drop kRequestHeader (encode_request cmd key val)) = key"
    "take (unat (hdr_val_len (RequestHeader_at (encode_request cmd key val))))
       (drop (kRequestHeader + unat (hdr_key_len (RequestHeader_at (encode_request cmd key val)))) (encode_request cmd key val)) = val"
  using assms by (simp_all add: encode_request_def unat_size_u32)

lemma Cmd_of_Cmd_u8 [simp]: "Cmd_of_u8 (Cmd_u8 c) = Some c"
  by (cases c) (simp_all add: Cmd_of_u8_def Cmd_u8_def)

theorem processRequest_commands:
  assumes "length key < 2 ^ 32" "length val < 2 ^ 32"
  shows "processRequest lib os db (encodeRequest cmd key val) =
    (case cmd of Cmd_kPut \<Rightarrow> process_put os db key val | Cmd_kGet \<Rightarrow> process_get lib os db key
     | Cmd_kDel \<Rightarrow> process_del os db key | Cmd_kScan \<Rightarrow> process_scan lib os db key val
     | Cmd_kBatch \<Rightarrow> process_batch os db val | Cmd_kDeleteRange \<Rightarrow> process_delete_range lib os db key val)"
  unfolding processRequest_def encodeRequest_def Let_def
  by (simp only: request_parts [OF assms] Cmd_of_Cmd_u8 if_False simp_thms option.case)

text \<open>Malformed requests are answered with an error and change nothing.\<close>

theorem processRequest_rejects:
  assumes "length raw < kRequestHeader \<or> hdr_magic (RequestHeader_at raw) \<noteq> kProtocolMagic \<or> Cmd_of_u8 (hdr_cmd (RequestHeader_at raw)) = None"
  shows "\<exists>msg. processRequest lib os db raw = Some (os, db, encodeResponse Resp_kError msg)"
  using assms by (auto simp: processRequest_def Let_def)

section \<open>Batches\<close>

text \<open>The payload of a batch as the comment in the source gives it.\<close>

definition batch_op_image :: "BatchOp \<Rightarrow> bytes" where
  "batch_op_image p = [BatchOpType_u8 (op_type p)] @ encodeFixed32 (size_u32 (op_key p)) @ op_key p @
     encodeFixed32 (size_u32 (op_value p)) @ op_value p"

definition batch_image :: "BatchOp list \<Rightarrow> bytes" where
  "batch_image ops = encodeFixed32 (size_u32 ops) @ concat (map batch_op_image ops)"

definition batch_op_ok :: "BatchOp \<Rightarrow> bool" where
  "batch_op_ok p \<longleftrightarrow> small_op p \<and> (op_type p = kDelete \<longrightarrow> op_value p = [])"

lemma parse_batch_image:
  assumes "list_all batch_op_ok ops"
  shows "parse_batch_ops (length ops) (concat (map batch_op_image ops) @ rest) batch = Inr (batch @ ops)"
  using assms
proof (induction ops arbitrary: batch)
  case (Cons p ops)
  have len: "unat (size_u32 (op_key p)) = length (op_key p)" "unat (size_u32 (op_value p)) = length (op_value p)"
    using Cons.prems by (simp_all add: batch_op_ok_def small_op_def unat_size_u32)
  have "\<lparr>op_type = op_type p, op_key = op_key p, op_value = op_value p\<rparr> = p" by simp
  with Cons len show ?case
    by (cases "op_type p") (auto simp: batch_op_image_def batch_op_ok_def BatchOpType_u8_def WriteBatch_put_def WriteBatch_del_def Let_def)
qed simp

text \<open>A payload with too few bytes for its operations never reaches the database.\<close>

lemma parse_batch_short:
  assumes "length p < 9 * n"
  shows "\<exists>msg. parse_batch_ops n p batch = Inl msg"
  using assms
proof (induction n arbitrary: p batch)
  case (Suc n)
  show ?case
  proof (rule ccontr)
    assume bad: "\<nexists>msg. parse_batch_ops (Suc n) p batch = Inl msg"
    let ?k = "unat (decodeFixed32 (tl p))" and ?p = "drop 5 p"
    let ?v = "unat (decodeFixed32 (drop ?k ?p))" and ?q = "drop 4 (drop ?k ?p)"
    have "5 \<le> length p" "?k + 4 \<le> length ?p" "?v \<le> length ?q"
      using bad by (auto simp: Let_def split: if_splits)
    then have "length (drop ?v ?q) < 9 * n" using Suc.prems by simp
    with Suc.IH [of "drop ?v ?q"] bad show False by (auto simp: Let_def split: if_splits)
  qed
qed simp

section \<open>Scans\<close>

text \<open>The loops as functions of the list of entries the iterator delivers.\<close>

fun list_loop :: "(bytes \<Rightarrow> bytes \<times> bytes \<Rightarrow> (bytes \<times> 'a list) option) \<Rightarrow> bytes \<Rightarrow> (bytes \<times> bytes) list \<Rightarrow> 'a list" where
  "list_loop body last_user [] = []"
| "list_loop body last_user (e # es) =
     (case body last_user e of None \<Rightarrow> [] | Some (last_user, items) \<Rightarrow> items @ list_loop body last_user es)"

lemma iter_loop_rest:
  assumes "mi_inv it" "mi_left it \<le> n"
  shows "snd (iter_loop n body last_user it) = list_loop body last_user (mi_rest it)"
  using assms
proof (induction n arbitrary: it last_user)
  case 0
  then have "\<not> MergingIterator_valid it" using valid_left [of it] by auto
  then show ?case using 0 by (simp add: mi_rest_step)
next
  case (Suc n)
  show ?case
  proof (cases "MergingIterator_valid it")
    case True
    have "snd (iter_loop n body u (MergingIterator_next it)) = list_loop body u (mi_rest (MergingIterator_next it))" for u
      using Suc.IH [OF MergingIterator_step(3) [OF Suc.prems(1) True]] MergingIterator_step(6) [OF Suc.prems(1) True] Suc.prems(2) by simp
    moreover obtain r where "body last_user (MergingIterator_key it, MergingIterator_value it) = r" by blast
    ultimately show ?thesis using True Suc.prems(1)
      by (cases r) (auto simp: mi_rest_step [of it] case_prod_unfold)
  qed (use Suc.prems in \<open>simp add: mi_rest_step\<close>)
qed

text \<open>The entries in the range \<open>[start, lim)\<close>; an empty bound does not restrict it.\<close>

definition scan_range :: "bytes \<Rightarrow> bytes \<Rightarrow> (bytes \<times> bytes) list \<Rightarrow> (bytes \<times> bytes) list" where
  "scan_range start lim es =
     takeWhile (\<lambda>e. lim = [] \<or> user_of e < lim) (filter (\<lambda>e. start = [] \<or> start \<le> user_of e) es)"

lemma scan_range_Cons:
  "scan_range start lim (e # es) =
     (if start \<noteq> [] \<and> user_of e < start then scan_range start lim es
      else if lim \<noteq> [] \<and> lim \<le> user_of e then [] else e # scan_range start lim es)"
  by (auto simp: scan_range_def not_le not_less)

lemma scan_emitted:
  assumes "\<forall>e\<in>set es. is_ikey (fst e)"
  shows "list_loop (scan_entry start lim) last_user es = map (\<lambda>e. (user_of e, snd e)) (emitted last_user (scan_range start lim es))"
  using assms
proof (induction es arbitrary: last_user)
  case (Cons e es)
  have k: "\<not> length (fst e) < kTrailerBytes" using Cons.prems by simp
  have em: "emitted last_user (e # xs) = (if user_of e = last_user then emitted last_user xs
      else if InternalKeyType (fst e) = vtDeletion then emitted (user_of e) xs else e # emitted (user_of e) xs)" for xs
    by (cases e) (simp add: Let_def)
  have IH: "list_loop (scan_entry start lim) u es = map (\<lambda>e. (user_of e, snd e)) (emitted u (scan_range start lim es))" for u
    using Cons by simp
  have se: "scan_entry start lim last_user e = (if start \<noteq> [] \<and> user_of e < start then Some (last_user, [])
      else if lim \<noteq> [] \<and> lim \<le> user_of e then None else if user_of e = last_user then Some (last_user, [])
      else if InternalKeyType (fst e) = vtDeletion then Some (user_of e, []) else Some (user_of e, [(user_of e, snd e)]))"
    unfolding scan_entry_def Let_def by (simp only: k if_False)
  show ?case unfolding list_loop.simps scan_range_Cons se
    by (cases "start \<noteq> [] \<and> user_of e < start"; cases "lim \<noteq> [] \<and> lim \<le> user_of e"; cases "user_of e = last_user";
        cases "InternalKeyType (fst e) = vtDeletion")
      (simp_all only: em IH simp_thms if_True if_False option.case prod.case list.map append.simps emitted.simps(1))
qed (simp add: scan_range_def)

lemma range_users:
  assumes "\<forall>e\<in>set es. is_ikey (fst e)" "sorted (map user_of es)" "\<forall>e\<in>set es. last_user \<le> user_of e"
  shows "set (list_loop (range_entry start lim) last_user es) = user_of ` set (scan_range start lim es) - {last_user}"
  using assms
proof (induction es arbitrary: last_user)
  case (Cons e es)
  let ?uk = "user_of e" and ?r = "scan_range start lim es"
  have k: "\<not> length (fst e) < kTrailerBytes" "last_user \<le> ?uk" using Cons.prems by simp_all
  have IH: "set (list_loop (range_entry start lim) u es) = user_of ` set ?r - {u}" if "u \<le> ?uk" for u
    by (rule Cons.IH) (use Cons.prems that in \<open>auto intro: order_trans\<close>)
  have last: "last_user = ?uk" if mem: "last_user \<in> user_of ` set ?r"
  proof -
    obtain d where "d \<in> set es" "user_of d = last_user" using mem by (auto simp: scan_range_def dest!: set_takeWhileD)
    then show ?thesis using Cons.prems by (auto intro: antisym)
  qed
  consider (low) "start \<noteq> [] \<and> ?uk < start" | (stop) "\<not> (start \<noteq> [] \<and> ?uk < start)" "lim \<noteq> [] \<and> lim \<le> ?uk"
    | (again) "\<not> (start \<noteq> [] \<and> ?uk < start)" "\<not> (lim \<noteq> [] \<and> lim \<le> ?uk)" "?uk = last_user"
    | (fresh) "\<not> (start \<noteq> [] \<and> ?uk < start)" "\<not> (lim \<noteq> [] \<and> lim \<le> ?uk)" "?uk \<noteq> last_user" by blast
  then show ?case
  proof cases
    case low
    then have "scan_range start lim (e # es) = ?r" "range_entry start lim last_user e = Some (last_user, [])"
      using k by (simp_all add: scan_range_Cons range_entry_def Let_def)
    then show ?thesis using IH [OF k(2)] by simp
  next
    case stop
    then have "scan_range start lim (e # es) = []" "range_entry start lim last_user e = None"
      using k by (auto simp: scan_range_Cons range_entry_def Let_def)
    then show ?thesis by simp
  next
    case again
    then have "scan_range start lim (e # es) = e # ?r" "range_entry start lim last_user e = Some (last_user, [])"
      using k by (auto simp: scan_range_Cons range_entry_def Let_def)
    then show ?thesis using IH [OF k(2)] again(3) by auto
  next
    case fresh
    then have "scan_range start lim (e # es) = e # ?r" "range_entry start lim last_user e = Some (?uk, [?uk])"
      using k by (auto simp: scan_range_Cons range_entry_def Let_def)
    then show ?thesis using IH [OF order.refl] fresh(3) last by auto
  qed
qed (simp add: scan_range_def)

lemma iter_loop_ok: "iterator_ok it \<Longrightarrow> iterator_ok (fst (iter_loop n body last_user it))"
  by (induction n arbitrary: last_user it) (auto simp: iterator_ok_next case_prod_unfold split: option.split)

text \<open>A scan of a consistent database: \<open>es\<close> are the entries the merging iterator delivers.\<close>

theorem process_scan_ok:
  assumes "files_ok lib os db" "layers_ok db fl Ws ws"
  shows "\<exists>es ess db'. process_scan lib os db start lim =
      Some (os, db', encodeResponse Resp_kOk (encodeScanPayload (map (\<lambda>e. (user_of e, snd e)) (emitted [] (scan_range start lim es))))) \<and>
    list_all2 (\<lambda>p es. table_on_disk lib os p es \<and> sorted_entries es) (table_paths db) ess \<and>
    fst ` set es = fst ` pool (map MemTable_content (memtables db) @ ess) \<and> set es \<subseteq> pool (map MemTable_content (memtables db) @ ess)"
proof -
  obtain it cache ess where n: "newIterator lib os db = Some (it, db\<lparr>db_cache := cache\<rparr>)"
    "list_all2 (\<lambda>p es. table_on_disk lib os p es \<and> sorted_entries es) (table_paths db) ess"
    "iterator_ok (MergingIterator_seekToFirst it)"
    "rests (mi_children (MergingIterator_seekToFirst it)) = map MemTable_content (memtables db) @ ess"
    using newIterator_ok [OF assms] by blast
  let ?it = "MergingIterator_seekToFirst it"
  have ok: "mi_inv ?it" "Status_ok (mi_status ?it)" using n(3) by (simp_all add: iterator_ok_def)
  have sorted: "\<forall>es\<in>set ess. sorted_entries es" using n(2) by (auto simp: list_all2_conv_all_nth in_set_conv_nth)
  have items: "snd (iter_loop (mi_left ?it) (scan_entry start lim) [] ?it) =
      map (\<lambda>e. (user_of e, snd e)) (emitted [] (scan_range start lim (mi_rest ?it)))"
    unfolding iter_loop_rest [OF ok(1) order.refl]
    by (rule scan_emitted [OF newIterator_ikeys [OF n(3,4) layers_memtables(2) [OF assms(2)] sorted]])
  have "Status_ok (MergingIterator_status (fst (iter_loop (mi_left ?it) (scan_entry start lim) [] ?it)))"
    by (rule iterator_ok_status [OF iter_loop_ok [OF n(3)]])
  then have "process_scan lib os db start lim = Some (os, db\<lparr>db_cache := cache\<rparr>,
      encodeResponse Resp_kOk (encodeScanPayload (map (\<lambda>e. (user_of e, snd e)) (emitted [] (scan_range start lim (mi_rest ?it))))))"
    using n(1) items by (simp add: process_scan_def Let_def case_prod_unfold)
  then show ?thesis using n(2) merge_keys [OF ok] n(4) by (intro exI [of _ "mi_rest ?it"] exI [of _ ess]) auto
qed

text \<open>In a sequence ordered by user key the answer lists every non-empty key once, ascending, with its first value.\<close>

lemma scan_answer_order:
  assumes "sorted (map user_of es)"
  shows "sorted_wrt (<) (map user_of (emitted [] (scan_range start lim es)))"
    "u \<noteq> [] \<Longrightarrow> memtable_scan (emitted [] (scan_range start lim es)) u = memtable_scan (scan_range start lim es) u"
proof -
  have "sorted (map user_of (scan_range start lim es))"
    using assms by (auto simp: scan_range_def sorted_map intro!: sorted_wrt_takeWhile sorted_wrt_filter)
  then show "sorted_wrt (<) (map user_of (emitted [] (scan_range start lim es)))"
    "u \<noteq> [] \<Longrightarrow> memtable_scan (emitted [] (scan_range start lim es)) u = memtable_scan (scan_range start lim es) u"
    using emitted_keys [of "scan_range start lim es" "[]"] emitted_scan [of "scan_range start lim es" "[]"] by auto
qed

section \<open>Through the wire\<close>

text \<open>The handler of a connection over the database; the state keeps a \<open>None\<close> it reached.\<close>

definition request_handler :: "codec_lib \<Rightarrow> (os \<times> DBImpl) option \<Rightarrow> bytes \<Rightarrow> (os \<times> DBImpl) option \<times> bytes" where
  "request_handler lib st raw =
     (case st of None \<Rightarrow> (None, [])
      | Some (os, db) \<Rightarrow>
          (case processRequest lib os db raw of None \<Rightarrow> (None, []) | Some (os, db, response) \<Rightarrow> (Some (os, db), response)))"

theorem wire_put_get:
  assumes "files_ok lib os db" "wals_ok os db fl" "layers_ok db fl Ws ws" "idle db" "length key < 2 ^ 32" "length val < 2 ^ 32"
    "group_fits (write_lead db \<lparr>ge_writer = 0, ge_batch = WriteBatch_put [] key val, ge_opts = default_wopts\<rparr>)"
  shows "\<exists>st. run_requests (request_handler lib) (Some (os, db)) [encodeRequest Cmd_kPut key val, encodeRequest Cmd_kGet key []] =
    (Some st, encodeResponse Resp_kOk [] @ encodeResponse Resp_kOk val)"
proof -
  obtain os' db' where r: "DBImpl_put os db default_wopts key val = Some (os', db', Status_Ok)"
    "DBImpl_get lib os' db' key = Some (Status_Ok, Some val, db')"
    using put_get [OF assms(1-4,7)] by blast
  have "processRequest lib os db (encodeRequest Cmd_kPut key val) = Some (os', db', encodeResponse Resp_kOk [])"
    using r(1) by (simp add: processRequest_commands [OF assms(5,6)] process_put_def status_response_def)
  moreover have "processRequest lib os' db' (encodeRequest Cmd_kGet key []) = Some (os', db', encodeResponse Resp_kOk val)"
    using r(2) processRequest_commands [OF assms(5), of "[]" lib os' db' Cmd_kGet] by (simp add: process_get_def)
  ultimately show ?thesis by (simp add: request_handler_def)
qed

end
