(* ===== verification/Db_Logs.thy ===== *)
theory Db_Logs
  imports Db_Session
begin

text \<open>
  The logs of a running database. Beside the invariant of \<open>Db_System\<close> every reachable state of
  a session that began on an empty directory has logs that match what is in memory: one log per
  frozen memtable that is not flushed yet, and the log in use. A segment describes one of them
  by its number, the groups written to it and the writes it stands for. The writes of all
  segments are the end of the history, and everything before them is in tables. The first \<open>n\<close>
  writes are \<^emph>\<open>durable\<close> when the synced part of the files holds them.
\<close>

section \<open>Segments\<close>

definition op_of :: "write_op \<Rightarrow> BatchOp" where
  "op_of w = \<lparr>op_type = (if w_delete w then kDelete else kPut), op_key = w_key w, op_value = w_value w\<rparr>"

lemma op_of_ops_writes [simp]: "map op_of (ops_writes seq ps) = ps"
proof (induction ps arbitrary: seq)
  case (Cons p ps)
  have "op_of \<lparr>w_key = op_key p, w_value = op_value p, w_seq = seq, w_delete = op_type p = kDelete\<rparr> = p"
    by (cases p; cases "op_type p") (simp_all add: op_of_def)
  with Cons show ?case by simp
qed simp

record log_seg =
  lg_number :: u64
  lg_groups :: "BatchOp list list"
  lg_writes :: "write_op list"

definition seg_path :: "path \<Rightarrow> log_seg \<Rightarrow> path" where
  "seg_path dir g = makeWalPath dir (lg_number g)"

definition ops_image :: "BatchOp list \<Rightarrow> bytes" where
  "ops_image ps = concat (map op_image ps)"

lemma group_image_ops: "group_image grp = ops_image (group_ops grp)"
  by (induction grp) (simp_all add: group_image_def group_ops_def ops_image_def)

definition seg_image :: "BatchOp list list \<Rightarrow> bytes" where
  "seg_image gs = concat (map wal_frame (map ops_image gs))"

lemma seg_image_simps [simp]: "seg_image [] = []" "seg_image (a @ b) = seg_image a @ seg_image b"
  by (simp_all add: seg_image_def)

definition group_ok :: "BatchOp list \<Rightarrow> bool" where
  "group_ok ps \<longleftrightarrow> wal_ok (ops_image ps) \<and> list_all small_op ps"

definition seg_ok :: "os \<Rightarrow> path \<Rightarrow> log_seg \<Rightarrow> bool" where
  "seg_ok os dir g \<longleftrightarrow>
     (\<exists>f. file_of os (seg_path dir g) = Some f \<and> f_data f = seg_image (lg_groups g) \<and> f_synced f \<le> length (f_data f)) \<and>
     list_all group_ok (lg_groups g) \<and> map op_of (lg_writes g) = concat (lg_groups g)"

definition segs_ok :: "os \<Rightarrow> DBImpl \<Rightarrow> log_seg list \<Rightarrow> bool" where
  "segs_ok os db segs \<longleftrightarrow>
     segs \<noteq> [] \<and> sorted_wrt (<) (map lg_number segs) \<and>
     (\<forall>g\<in>set segs. lg_number g < v_next_file_number (db_version db) \<and> seg_ok os (db_dir db) g) \<and>
     (\<forall>g\<in>set (butlast segs). file_synced os (seg_path (db_dir db) g)) \<and>
     db_current_wal db = seg_path (db_dir db) (last segs)"

definition flushing :: "(FlushEntry \<times> flush_stage) option \<Rightarrow> FlushEntry list" where
  "flushing fl = (case fl of None \<Rightarrow> [] | Some (e, _) \<Rightarrow> [e])"

text \<open>Every frozen memtable has its log, and the current one has the log in use.\<close>

definition mem_segs :: "DBImpl \<Rightarrow> (FlushEntry \<times> flush_stage) option \<Rightarrow> log_seg list \<Rightarrow> bool" where
  "mem_segs db fl segs \<longleftrightarrow>
     list_all2 (\<lambda>e g. fe_wals e = [seg_path (db_dir db) g] \<and> mem_history (snd (fe_memtable e)) (lg_writes g))
       (flushing fl @ db_flush_queue db) (butlast segs) \<and>
     (\<exists>i mt. db_memtable db = Some (i, mt) \<and> mem_history mt (lg_writes (last segs))) \<and> db_obsolete_wals db = []"

text \<open>The history: the first \<open>k\<close> writes are in tables, the others in segments.\<close>

definition hist_segs :: "codec_lib \<Rightarrow> os \<Rightarrow> DBImpl \<Rightarrow> write_op list \<Rightarrow> nat \<Rightarrow> log_seg list \<Rightarrow> bool" where
  "hist_segs lib os db hist k segs \<longleftrightarrow>
     k \<le> length hist \<and> drop k hist = concat (map lg_writes segs) \<and> (\<forall>w\<in>set (take k hist). in_table lib os db w)"

definition flushed_seg :: "codec_lib \<Rightarrow> os \<Rightarrow> DBImpl \<Rightarrow> (FlushEntry \<times> flush_stage) option \<Rightarrow> log_seg list \<Rightarrow> bool" where
  "flushed_seg lib os db fl segs \<longleftrightarrow>
     (\<forall>e st. fl = Some (e, st) \<and> st \<noteq> Popped \<longrightarrow> (\<forall>w\<in>set (lg_writes (hd segs)). in_table lib os db w))"

text \<open>There are no other files in the directory, and the tables are synced.\<close>

definition known_file :: "DBImpl \<Rightarrow> log_seg list \<Rightarrow> path \<Rightarrow> bool" where
  "known_file db segs q \<longleftrightarrow>
     q = db_dir db @ str ''/MANIFEST'' \<or> q = db_dir db @ str ''/MANIFEST.bak'' \<or> q \<in> seg_path (db_dir db) ` set segs \<or>
     (\<exists>p\<in>registered db. q = p \<or> q = p @ str ''.bloom'')"

definition inventory :: "os \<Rightarrow> DBImpl \<Rightarrow> log_seg list \<Rightarrow> bool" where
  "inventory os db segs \<longleftrightarrow> (\<forall>q. file_of os q \<noteq> None \<longrightarrow> known_file db segs q)"

definition tables_durable :: "os \<Rightarrow> DBImpl \<Rightarrow> bool" where
  "tables_durable os db \<longleftrightarrow>
     (\<forall>p\<in>registered db. file_synced os p) \<and> plain_levels (v_levels (db_version db)) \<and>
     (\<forall>l<8. \<forall>meta\<in>set (v_levels (db_version db) ! l). number_of_path (meta_path meta) = Some (meta_file_number meta))"

text \<open>The first \<open>n\<close> writes are durable: they are in tables, in segments that are closed, or in the synced part of the log in use.\<close>

definition durable :: "os \<Rightarrow> DBImpl \<Rightarrow> nat \<Rightarrow> log_seg list \<Rightarrow> nat \<Rightarrow> bool" where
  "durable os db k segs n \<longleftrightarrow>
     (\<exists>j f. file_of os (seg_path (db_dir db) (last segs)) = Some f \<and> j \<le> length (lg_groups (last segs)) \<and>
        length (seg_image (take j (lg_groups (last segs)))) \<le> f_synced f \<and>
        n \<le> k + length (concat (map lg_writes (butlast segs))) + length (concat (take j (lg_groups (last segs)))))"

definition logs_ok :: "codec_lib \<Rightarrow> db_sys \<Rightarrow> nat \<Rightarrow> log_seg list \<Rightarrow> nat \<Rightarrow> bool" where
  "logs_ok lib s k segs n \<longleftrightarrow>
     segs_ok (s_os s) (s_db s) segs \<and> mem_segs (s_db s) (s_flush s) segs \<and> hist_segs lib (s_os s) (s_db s) (s_hist s) k segs \<and>
     flushed_seg lib (s_os s) (s_db s) (s_flush s) segs \<and> inventory (s_os s) (s_db s) segs \<and> tables_durable (s_os s) (s_db s) \<and>
     durable (s_os s) (s_db s) k segs n"

definition log_inv :: "codec_lib \<Rightarrow> nat \<Rightarrow> db_sys \<Rightarrow> bool" where
  "log_inv lib n s \<longleftrightarrow> sys_inv lib s \<and> (\<exists>k segs. logs_ok lib s k segs n)"

section \<open>Steps that leave the logs alone\<close>

lemma registered_levels: "v_levels (db_version db') = v_levels (db_version db) \<Longrightarrow> registered db' = registered db"
  by (simp add: registered_def)

lemma logs_ok_fields:
  assumes "logs_ok lib s k segs n" "s_os s' = s_os s" "s_hist s' = s_hist s"
    "db_dir (s_db s') = db_dir (s_db s)" "db_version (s_db s') = db_version (s_db s)"
    "db_current_wal (s_db s') = db_current_wal (s_db s)" "db_memtable (s_db s') = db_memtable (s_db s)"
    "db_obsolete_wals (s_db s') = db_obsolete_wals (s_db s)"
    "flushing (s_flush s') @ db_flush_queue (s_db s') = flushing (s_flush s) @ db_flush_queue (s_db s)"
    "flushed_seg lib (s_os s) (s_db s) (s_flush s') segs"
  shows "logs_ok lib s' k segs n"
proof -
  have r: "registered (s_db s') = registered (s_db s)" using assms(5) by (intro registered_levels) simp
  then have t: "in_table lib os (s_db s') w = in_table lib os (s_db s) w" for os w by (simp add: in_table_def)
  show ?thesis
    using assms r t
    by (simp add: logs_ok_def segs_ok_def mem_segs_def hist_segs_def flushed_seg_def inventory_def known_file_def
        tables_durable_def durable_def)
qed

text \<open>The log of a flushed memtable goes; its writes are in a table.\<close>

lemma logs_ok_unlink:
  assumes "logs_ok lib s k segs n" "sys_inv lib s" "flushing (s_flush s) = [entry]"
    "\<forall>w\<in>set (lg_writes (hd segs)). in_table lib (s_os s) (s_db s) w"
    "db_dir db' = db_dir (s_db s)" "db_version db' = db_version (s_db s)" "db_current_wal db' = db_current_wal (s_db s)"
    "db_memtable db' = db_memtable (s_db s)" "db_obsolete_wals db' = db_obsolete_wals (s_db s)"
    "db_flush_queue db' = db_flush_queue (s_db s)"
  shows "\<exists>k segs. logs_ok lib (s\<lparr>s_os := unlink_all (s_os s) (fe_wals entry), s_db := db', s_flush := None\<rparr>) k segs n"
proof -
  let ?db = "s_db s" and ?os = "s_os s" and ?os' = "unlink_all (s_os s) (fe_wals entry)" and ?dir = "db_dir (s_db s)"
  note l = assms(1) [unfolded logs_ok_def]
  have files: "files_ok lib ?os ?db" using assms(2) by (auto elim: sys_invE)
  then have faults: "os_faults ?os = []" by (simp add: files_ok_def)
  obtain g gs where b: "butlast segs = g # gs" and e: "fe_wals entry = [seg_path ?dir g]"
    "list_all2 (\<lambda>e g. fe_wals e = [seg_path ?dir g] \<and> mem_history (snd (fe_memtable e)) (lg_writes g)) (db_flush_queue ?db) gs"
    using l assms(3) by (auto simp: mem_segs_def list_all2_Cons1)
  obtain h where segs: "segs = g # gs @ [h]"
    using b l append_butlast_last_id [of segs] by (metis append_Cons segs_ok_def)
  note l = l [unfolded segs]
  let ?segs = "gs @ [h]" and ?k = "k + length (lg_writes g)"
  have distinct: "lg_number a \<noteq> lg_number g" if "a \<in> set ?segs" for a
    using l that by (auto simp: segs_ok_def)
  have fo: "file_of ?os' q = (if q = seg_path ?dir g then None else file_of ?os q)" for q
    using unlink_all_ok [OF faults, of "fe_wals entry"] e(1) by simp
  have same: "file_of ?os' (seg_path ?dir h) = file_of ?os (seg_path ?dir h)" if "h \<in> set ?segs" for h
    using distinct [OF that] by (simp add: fo seg_path_def makeWalPath_inject)
  have r: "registered db' = registered ?db" using assms(6) by (intro registered_levels) simp
  have not_sst: "p \<noteq> seg_path ?dir g" if "p \<in> registered ?db" for p
    using registered_path [OF files that] by (auto simp: seg_path_def)
  have tab: "in_table lib ?os' db' w" if "in_table lib ?os ?db w" for w
  proof -
    have "is_wal_path ?dir (seg_path ?dir g)" by (auto simp: is_wal_path_def seg_path_def)
    then have "logs_only ?dir ?os ?os'" using unlink_logs [OF faults, of ?dir "fe_wals entry"] e(1) by simp
    from logs_only_in_table [OF files this that] show ?thesis using r by (simp add: in_table_def)
  qed
  have "segs_ok ?os' db' ?segs"
    using l same assms(5-7) by (auto simp: segs_ok_def seg_ok_def file_synced_def butlast_append)
  moreover have "mem_segs db' None ?segs"
    using l e(2) assms(5,8-10) by (auto simp: mem_segs_def flushing_def)
  moreover have "hist_segs lib ?os' db' (s_hist s) ?k ?segs"
  proof -
    have h: "drop k (s_hist s) = lg_writes g @ concat (map lg_writes ?segs)" "k \<le> length (s_hist s)"
      using l by (simp_all add: hist_segs_def)
    then have "?k \<le> length (s_hist s)" by (metis add_le_cancel_left le_add1 le_add_diff_inverse length_append length_drop)
    moreover have "drop ?k (s_hist s) = concat (map lg_writes ?segs)"
      using h(1) by (metis add.commute append_eq_conv_conj drop_drop)
    moreover have "take ?k (s_hist s) = take k (s_hist s) @ lg_writes g" using h(1) by (simp add: take_add)
    ultimately show ?thesis using l tab assms(4) segs by (auto simp: hist_segs_def)
  qed
  moreover have "inventory ?os' db' ?segs"
    unfolding inventory_def
  proof (intro allI impI)
    fix q assume "file_of ?os' q \<noteq> None"
    then have "q \<noteq> seg_path ?dir g" "known_file ?db (g # gs @ [h]) q" using l by (auto simp: fo inventory_def split: if_splits)
    then show "known_file db' ?segs q" using r assms(5) by (auto simp: known_file_def)
  qed
  moreover have "tables_durable ?os' db'"
    using l r assms(6) not_sst by (auto simp: tables_durable_def file_synced_def fo)
  moreover have "durable ?os' db' ?k ?segs n"
    using l same [of h] assms(5) by (auto simp: durable_def add.assoc)
  ultimately show ?thesis by (intro exI [of _ ?k] exI [of _ ?segs]) (simp add: logs_ok_def flushed_seg_def)
qed

section \<open>A table is built\<close>

lemma registered_union: "registered db = (\<Union>l<8. meta_path ` set (v_levels (db_version db) ! l))"
  by (auto simp: registered_def)

lemma registered_push:
  assumes "length (v_levels (db_version db)) = 8" "v_levels (db_version db') = push_level 0 (file_meta p n) (v_levels (db_version db))"
  shows "registered db' = insert p (registered db)"
proof -
  have "set (v_levels (db_version db') ! l) = set (v_levels (db_version db) ! l) \<union> (if l = 0 then {file_meta p n} else {})"
    if "l < 8" for l using that assms by (simp add: push_level_def nth_list_update)
  then have "registered db' = (\<Union>l<8. meta_path ` (set (v_levels (db_version db) ! l) \<union> (if l = 0 then {file_meta p n} else {})))"
    by (simp add: registered_union)
  also have "\<dots> = registered db \<union> (\<Union>l<(8::nat). meta_path ` (if l = 0 then {file_meta p n} else {}))"
    unfolding registered_union image_Un UN_Un_distrib ..
  also have "(\<Union>l<(8::nat). meta_path ` (if l = 0 then {file_meta p n} else {})) = {p}"
    by (auto simp: file_meta_def split: if_splits intro: bexI [of _ "0::nat"])
  finally show ?thesis by simp
qed

lemma plain_levels_push:
  assumes "plain_levels ls" "short_path p"
  shows "plain_levels (push_level 0 (file_meta p n) ls)"
proof -
  have "ls ! 0 \<in> set ls" using assms(1) by (simp add: plain_levels_def)
  then have "\<forall>m\<in>set (ls ! 0 @ [file_meta p n]). m = file_meta (meta_path m) (meta_file_number m) \<and> short_path (meta_path m)"
    using assms by (auto simp: plain_levels_def file_meta_def)
  then show ?thesis using assms(1) unfolding plain_levels_def push_level_def
    by (auto dest!: set_update_subset_insert [THEN subsetD])
qed

lemma logs_ok_build:
  assumes "logs_ok lib s k segs n" "sys_inv lib s" "s_flush s = Some (entry, Popped)"
    "MemTable_entries (snd (fe_memtable entry)) = Some es"
    "table_weight (MemTable_content (snd (fe_memtable entry))) < 2 ^ 31" "numbers_left (s_db s)"
    "flush_build lib (s_os s) (s_db s) es = (os', db')"
  shows "logs_ok lib (s\<lparr>s_os := os', s_db := db', s_flush := Some (entry, Built)\<rparr>) k segs n"
proof -
  let ?db = "s_db s" and ?os = "s_os s" and ?dir = "db_dir (s_db s)" and ?n = "v_next_file_number (db_version (s_db s))"
  let ?p = "sst_path ?dir 0 ?n"
  note l = assms(1) [unfolded logs_ok_def]
  have files: "files_ok lib ?os ?db" using assms(2) by (auto elim: sys_invE)
  obtain g where g: "hd segs = g" "mem_history (snd (fe_memtable entry)) (lg_writes g)"
    using l assms(3) by (cases segs) (auto simp: mem_segs_def flushing_def list_all2_Cons1 split: if_splits)
  note inv = mem_history_inv [OF g(2)]
  have c: "map (\<lambda>e. (internal_key e, entry_value e)) es = MemTable_content (snd (fe_memtable entry))"
    using assms(4) MemTable_entries_content [OF inv(1)] by (auto simp: case_prod_unfold comp_def)
  note b = flush_build_ok [OF files assms(6) c MemTable_content_sorted [OF inv(1)] assms(5,7)]
  obtain v where v: "db' = ?db\<lparr>db_version := v\<rparr>" using b(2) by blast
  have seg: "file_of os' (seg_path ?dir h) = file_of ?os (seg_path ?dir h)" for h
    using b(3) by (auto simp: is_wal_path_def seg_path_def)
  have len: "length (v_levels (db_version ?db)) = 8" using files by (auto simp: files_ok_def version_inv_def)
  have r: "registered db' = insert ?p (registered ?db)" by (rule registered_push [OF len b(9)])
  have "segs_ok os' db' segs"
    using l seg b(6) by (auto simp: segs_ok_def seg_ok_def file_synced_def v intro: less_le_trans)
  moreover have "mem_segs db' (Some (entry, Built)) segs" using l assms(3) by (simp add: mem_segs_def flushing_def v)
  moreover have "hist_segs lib os' db' (s_hist s) k segs" using l b(4) by (auto simp: hist_segs_def)
  moreover have "flushed_seg lib os' db' (Some (entry, Built)) segs" using b(5) inv(2) g(1) by (auto simp: flushed_seg_def)
  moreover have "inventory os' db' segs"
    unfolding inventory_def
  proof (intro allI impI)
    fix q assume q: "file_of os' q \<noteq> None"
    show "known_file db' segs q"
    proof (cases "q = ?p \<or> q = ?p @ str ''.bloom'' \<or> q = ?dir @ str ''/MANIFEST''")
      case False
      then have "file_of ?os q \<noteq> None" using b(7) q by simp
      then have "known_file ?db segs q" using l by (simp add: inventory_def)
      then show ?thesis using r v by (auto simp: known_file_def)
    qed (use r v in \<open>auto simp: known_file_def\<close>)
  qed
  moreover have "tables_durable os' db'"
  proof -
    have "file_synced os' p" if reg: "p \<in> registered ?db" for p
    proof -
      obtain i m where "p = sst_path ?dir i m" "m < ?n" using registered_path [OF files reg] by blast
      then have "file_of os' p = file_of ?os p" by (intro b(7)) (auto simp: sst_path_inject)
      then show ?thesis using l reg by (auto simp: tables_durable_def file_synced_def)
    qed
    moreover have "short_path ?p" using files by (simp add: files_ok_def dir_ok_def)
    then have "plain_levels (v_levels (db_version db'))" using l b(9) by (simp add: tables_durable_def plain_levels_push)
    moreover have nums: "i < 8 \<Longrightarrow> meta \<in> set (v_levels (db_version ?db) ! i) \<Longrightarrow> number_of_path (meta_path meta) = Some (meta_file_number meta)" for i meta
      using l by (simp add: tables_durable_def)
    have "number_of_path (meta_path meta) = Some (meta_file_number meta)"
      if "i < 8" "meta \<in> set (v_levels (db_version db') ! i)" for i meta
      using nums [of i meta] len that by (auto simp: tables_durable_def b(9) push_level_def nth_list_update file_meta_def number_of_sst split: if_splits)
    ultimately show ?thesis using b(8) by (auto simp: tables_durable_def r)
  qed
  moreover have "durable os' db' k segs n" using l seg by (auto simp: durable_def v)
  ultimately show ?thesis by (simp add: logs_ok_def)
qed

section \<open>A group is committed\<close>

lemma group_append_files:
  assumes "os_faults os = []" "db_wal db = Some w" "wal_fd w = Some p" "wal_ok (group_image grp)" "file_of os p = Some f"
    "f_synced f \<le> length (f_data f)" "group_append os db grp = (os', s)"
  shows "\<exists>f'. file_of os' p = Some f' \<and> f_data f' = f_data f @ wal_frame (group_image grp) \<and> f_synced f \<le> f_synced f' \<and>
    f_synced f' \<le> length (f_data f') \<and>
    (wal_sync (db_options db) \<and> list_ex (\<lambda>e. wopt_sync (ge_opts e)) grp \<longrightarrow> f_synced f' = length (f_data f'))"
    "\<And>q. q \<noteq> p \<Longrightarrow> file_of os' q = file_of os q" "os_faults os' = []"
proof -
  let ?os = "append_file os p (wal_frame (group_image grp))"
  have a: "WAL_append os w (group_image grp) = (?os, Status_Ok)" using WAL_append_ok [OF assms(3,1,4)] .
  have f: "file_of ?os p = Some (f\<lparr>f_data := f_data f @ wal_frame (group_image grp)\<rparr>)"
    using assms(5) by (simp add: append_file_of)
  have "os' = (if wal_sync (db_options db) \<and> list_ex (\<lambda>e. wopt_sync (ge_opts e)) grp
      then set_file ?os p (f\<lparr>f_data := f_data f @ wal_frame (group_image grp), f_synced := length (f_data f @ wal_frame (group_image grp))\<rparr>)
      else ?os)"
    using assms(1-3,7) a f by (auto simp: group_append_def WAL_sync_def sys_fdatasync_def split: if_splits)
  note os' = this
  show "\<exists>f'. file_of os' p = Some f' \<and> f_data f' = f_data f @ wal_frame (group_image grp) \<and> f_synced f \<le> f_synced f' \<and>
      f_synced f' \<le> length (f_data f') \<and>
      (wal_sync (db_options db) \<and> list_ex (\<lambda>e. wopt_sync (ge_opts e)) grp \<longrightarrow> f_synced f' = length (f_data f'))"
    using f assms(6) by (auto simp: os')
  show "\<And>q. q \<noteq> p \<Longrightarrow> file_of os' q = file_of os q" "os_faults os' = []"
    using os' assms(1) by (auto simp: append_file_of)
qed

lemma rotateWal_files:
  assumes "os_faults os = []" "db_wal db = Some w" "wal_fd w = Some (db_current_wal db)" "db_current_wal db \<noteq> []"
    "file_of os (db_current_wal db) = Some f" "numbers_left db"
    "file_of os (makeWalPath (db_dir db) (v_next_file_number (db_version db))) = None" "rotateWal os db = (os', db', s)"
  defines "p \<equiv> makeWalPath (db_dir db) (v_next_file_number (db_version db))"
  shows "file_of os' p = Some new_file" "file_of os' (db_current_wal db) = Some (f\<lparr>f_synced := length (f_data f)\<rparr>)"
    "\<And>q. q \<noteq> p \<Longrightarrow> q \<noteq> db_current_wal db \<Longrightarrow> file_of os' q = file_of os q"
    "db' = db\<lparr>db_version := (db_version db)\<lparr>v_next_file_number := v_next_file_number (db_version db) + 1\<rparr>,
      db_obsolete_wals := db_obsolete_wals db @ [db_current_wal db], db_wal := Some \<lparr>wal_path = p, wal_fd = Some p\<rparr>, db_current_wal := p\<rparr>"
proof -
  have ne: "p \<noteq> db_current_wal db" using assms(5,7) by (auto simp: p_def)
  have w: "WAL_new os p = (set_file os p new_file, \<lparr>wal_path = p, wal_fd = Some p\<rparr>)"
    using assms(1,7) by (simp add: WAL_new_def sys_open_creat_def p_def)
  have "WAL_sync (set_file os p new_file) w =
      (set_file (set_file os p new_file) (db_current_wal db) (f\<lparr>f_synced := length (f_data f)\<rparr>), Status_Ok)"
    using assms(1,3,5) ne by (simp add: WAL_sync_def sys_fdatasync_def)
  then have r: "os' = set_file (set_file os p new_file) (db_current_wal db) (f\<lparr>f_synced := length (f_data f)\<rparr>)"
    "db' = db\<lparr>db_version := (db_version db)\<lparr>v_next_file_number := v_next_file_number (db_version db) + 1\<rparr>,
      db_obsolete_wals := db_obsolete_wals db @ [db_current_wal db], db_wal := Some \<lparr>wal_path = p, wal_fd = Some p\<rparr>, db_current_wal := p\<rparr>"
    using assms(2,4,8) w next_number [OF assms(6)]
    by (auto simp: rotateWal_def Version_nextFileNumber_def Version_ensureNextFileNumberAtLeast_def Let_def p_def [symmetric])
  show "file_of os' p = Some new_file" "file_of os' (db_current_wal db) = Some (f\<lparr>f_synced := length (f_data f)\<rparr>)"
    "\<And>q. q \<noteq> p \<Longrightarrow> q \<noteq> db_current_wal db \<Longrightarrow> file_of os' q = file_of os q"
    using ne by (auto simp: r(1))
  show "db' = db\<lparr>db_version := (db_version db)\<lparr>v_next_file_number := v_next_file_number (db_version db) + 1\<rparr>,
      db_obsolete_wals := db_obsolete_wals db @ [db_current_wal db], db_wal := Some \<lparr>wal_path = p, wal_fd = Some p\<rparr>, db_current_wal := p\<rparr>"
    by (rule r(2))
qed

text \<open>What a commit of a group that is not empty does to the files and to the database.\<close>

lemma write_commit_files:
  assumes "files_ok lib os db" "wals_ok os db fl" "layers_ok db fl Ws ws" "group_fits db" "db_group db \<noteq> []"
    "write_commit os db = Some (os', db', results)" "db_obsolete_wals db = []" "file_of os (db_current_wal db) = Some f"
    "f_synced f \<le> length (f_data f)" "file_of os (makeWalPath (db_dir db) (v_next_file_number (db_version db))) = None"
    "db_memtable db = Some (i, mt)"
  defines "p \<equiv> makeWalPath (db_dir db) (v_next_file_number (db_version db))" and "us \<equiv> ops_writes (db_seq db + 1) (group_ops (db_group db))"
  shows "\<exists>f' mt'. file_of os' (db_current_wal db) = Some f' \<and> f_data f' = f_data f @ wal_frame (ops_image (group_ops (db_group db))) \<and>
    f_synced f \<le> f_synced f' \<and> f_synced f' \<le> length (f_data f') \<and>
    (wal_sync (db_options db) \<and> list_ex (\<lambda>e. wopt_sync (ge_opts e)) (db_group db) \<longrightarrow> f_synced f' = length (f_data f')) \<and>
    MemTable_run mt us = Some mt' \<and> db_dir db' = db_dir db \<and> v_levels (db_version db') = v_levels (db_version db) \<and>
    v_next_file_number (db_version db) \<le> v_next_file_number (db_version db') \<and> db_obsolete_wals db' = [] \<and> db_options db' = db_options db \<and>
    ((\<forall>q. q \<noteq> db_current_wal db \<longrightarrow> file_of os' q = file_of os q) \<and> db_current_wal db' = db_current_wal db \<and>
       db_memtable db' = Some (i, mt') \<and> db_flush_queue db' = db_flush_queue db \<or>
     f_synced f' = length (f_data f') \<and> file_of os' p = Some new_file \<and> v_next_file_number (db_version db) < v_next_file_number (db_version db') \<and>
       (\<forall>q. q \<noteq> db_current_wal db \<and> q \<noteq> p \<longrightarrow> file_of os' q = file_of os q) \<and> db_current_wal db' = p \<and>
       (\<exists>j m r. db_memtable db' = Some (j, MemTable_new m r)) \<and>
       db_flush_queue db' = db_flush_queue db @ [\<lparr>fe_memtable = (i, mt'), fe_wals = [db_current_wal db]\<rparr>])"
proof -
  let ?grp = "db_group db" and ?db = "db\<lparr>db_group := [], db_leader := False, db_seq := db_seq db + word_of_nat (length (group_ops (db_group db)))\<rparr>"
  have fits: "length (group_image ?grp) < 2 ^ 32" "numbers_left db" using assms(4) by (auto simp: group_fits_def)
  have faults: "os_faults os = []" using assms(1) by (simp add: files_ok_def)
  obtain w where w: "db_wal db = Some w" "wal_fd w = Some (db_current_wal db)" "is_wal_path (db_dir db) (db_current_wal db)"
    using assms(2) by (rule wals_ok_current)
  then have cur: "db_current_wal db \<noteq> []" by (auto simp: is_wal_path_def makeWalPath_def str_def)
  obtain bs sq where bs: "base_seqs (db_seq db) ?grp = (bs, sq)" by fastforce
  then have sq: "sq = db_seq db + word_of_nat (length (group_ops ?grp))" using base_seqs_total [of "db_seq db" ?grp] by simp
  obtain os1 s1 where ap: "group_append os ?db ?grp = (os1, s1)" by fastforce
  have wok: "wal_ok (group_image ?grp)" using fits(1) by (simp add: wal_ok_def)
  have dw: "db_wal ?db = Some w" using w(1) by simp
  have wf: "wals_ok os ?db fl" using assms(2) by (simp add: wals_ok_fields [of ?db db])
  have st: "s1 = Status_Ok" using group_append_ok(1) [OF faults wf fits(1) ap] .
  note ga = group_append_files [OF faults dw w(2) wok assms(8,9) ap]
  obtain f1 where f1: "file_of os1 (db_current_wal db) = Some f1" "f_data f1 = f_data f @ wal_frame (group_image ?grp)"
    "f_synced f \<le> f_synced f1" "f_synced f1 \<le> length (f_data f1)"
    "wal_sync (db_options ?db) \<and> list_ex (\<lambda>e. wopt_sync (ge_opts e)) ?grp \<longrightarrow> f_synced f1 = length (f_data f1)"
    using ga(1) by blast
  note o1 = ga(2,3)
  obtain mt' where mt': "MemTable_run mt us = Some mt'"
    using layers_write [OF assms(3,11)] assms(4) by (auto simp: group_fits_def us_def)
  have ag: "apply_group mt bs ?grp = Some mt'" using apply_group_run [of mt "db_seq db" ?grp] mt' bs by (simp add: us_def)
  let ?db1 = "?db\<lparr>db_memtable := Some (i, mt')\<rparr>"
  have run: "maybeFlush os1 ?db1 = (os', db')"
    using assms(5,6,11) bs ap st ag by (auto simp: write_commit_def doWriteGroup_def sq Let_def split: prod.splits)
  have img: "group_image ?grp = ops_image (group_ops ?grp)" by (rule group_image_ops)
  show ?thesis
  proof (cases "MemTable_shouldFlush mt'")
    case False
    then have "os' = os1" "db' = ?db1" using run by (simp_all add: maybeFlush_def)
    then show ?thesis using f1 o1(1) mt' assms(7) by (intro exI [of _ f1] exI [of _ mt']) (simp add: img)
  next
    case True
    let ?db2 = "?db1\<lparr>db_memtable := None\<rparr>"
    obtain os2 db2 s2 where r: "rotateWal os1 ?db2 = (os2, db2, s2)" by (metis prod_cases3)
    have ne: "p \<noteq> db_current_wal db" using assms(8,10) by (auto simp: p_def)
    have pre: "db_wal ?db2 = Some w" "wal_fd w = Some (db_current_wal ?db2)" "db_current_wal ?db2 \<noteq> []"
      "file_of os1 (db_current_wal ?db2) = Some f1" "numbers_left ?db2"
      "file_of os1 (makeWalPath (db_dir ?db2) (v_next_file_number (db_version ?db2))) = None"
      using w cur f1(1) fits(2) o1(1) [OF ne] assms(10) by (simp_all add: numbers_left_def p_def)
    note ro = rotateWal_files [OF o1(2) pre r]
    have res: "os' = os2" "db' = (make_memtable db2)\<lparr>db_obsolete_wals := [], db_immutables := db_immutables db @ [(i, mt')],
        db_flush_queue := db_flush_queue db @ [\<lparr>fe_memtable = (i, mt'), fe_wals = db_obsolete_wals db2\<rparr>]\<rparr>"
      using run True r ro(4) by (auto simp: maybeFlush_def make_memtable_def Let_def)
    show ?thesis
      using f1 o1(1) mt' ro assms(7) ne next_number [OF fits(2)] unfolding res
      by (intro exI [of _ "f1\<lparr>f_synced := length (f_data f1)\<rparr>"] exI [of _ mt'])
        (auto simp: img make_memtable_def p_def)
  qed
qed

lemma small_ops:
  assumes "length (ops_image ps) < 2 ^ 32"
  shows "list_all small_op ps"
  using assms by (induction ps) (auto simp: ops_image_def op_image_def small_op_def)

lemma fresh_log_unknown:
  assumes "logs_ok lib s k segs n" "files_ok lib (s_os s) (s_db s)"
  shows "file_of (s_os s) (makeWalPath (db_dir (s_db s)) (v_next_file_number (db_version (s_db s)))) = None"
proof (rule ccontr)
  let ?dir = "db_dir (s_db s)" and ?p = "makeWalPath (db_dir (s_db s)) (v_next_file_number (db_version (s_db s)))"
  assume "file_of (s_os s) ?p \<noteq> None"
  then have kn: "known_file (s_db s) segs ?p" using assms(1) by (simp add: logs_ok_def inventory_def)
  have "?p \<noteq> ?dir @ str ''/MANIFEST''" "?p \<noteq> ?dir @ str ''/MANIFEST.bak''" by (simp_all add: makeWalPath_def str_def)
  moreover have "?p \<notin> seg_path ?dir ` set segs"
    using assms(1) by (auto simp: logs_ok_def segs_ok_def seg_path_def makeWalPath_inject)
  moreover have "?p \<noteq> p \<and> ?p \<noteq> p @ str ''.bloom''" if "p \<in> registered (s_db s)" for p
    using registered_path [OF assms(2) that] by auto
  ultimately show False using kn by (auto simp: known_file_def)
qed

definition synced_group :: "DBImpl \<Rightarrow> bool" where
  "synced_group db \<longleftrightarrow> wal_sync (db_options db) \<and> list_ex (\<lambda>e. wopt_sync (ge_opts e)) (db_group db)"

text \<open>The segment in use grows by the group; a rotation closes it and begins a new one.\<close>

definition grow_seg :: "BatchOp list \<Rightarrow> write_op list \<Rightarrow> log_seg \<Rightarrow> log_seg" where
  "grow_seg ps us g = g\<lparr>lg_groups := lg_groups g @ [ps], lg_writes := lg_writes g @ us\<rparr>"

lemma grow_seg_simps [simp]:
  "lg_number (grow_seg ps us g) = lg_number g" "seg_path dir (grow_seg ps us g) = seg_path dir g"
  "lg_groups (grow_seg ps us g) = lg_groups g @ [ps]" "lg_writes (grow_seg ps us g) = lg_writes g @ us"
  by (simp_all add: grow_seg_def seg_path_def)

definition new_seg :: "u64 \<Rightarrow> log_seg" where
  "new_seg n = \<lparr>lg_number = n, lg_groups = [], lg_writes = []\<rparr>"

lemma new_seg_simps [simp]:
  "lg_number (new_seg n) = n" "seg_path dir (new_seg n) = makeWalPath dir n" "lg_groups (new_seg n) = []" "lg_writes (new_seg n) = []"
  by (simp_all add: new_seg_def seg_path_def)

lemma known_file_grow:
  "known_file db segs q \<Longrightarrow> registered db' = registered db \<Longrightarrow> db_dir db' = db_dir db \<Longrightarrow>
    seg_path (db_dir db) ` set segs \<subseteq> seg_path (db_dir db) ` set segs' \<Longrightarrow> known_file db' segs' q"
  by (auto simp: known_file_def)

lemma durable_le:
  assumes "logs_ok lib s k segs n"
  shows "n \<le> length (s_hist s)"
proof -
  note l = assms [unfolded logs_ok_def]
  obtain bs g where segs: "segs = bs @ [g]" using l by (metis append_butlast_last_id segs_ok_def)
  note l = l [unfolded segs]
  have g: "length (lg_writes g) = length (concat (lg_groups g))" using l by (metis in_set_conv_decomp length_map seg_ok_def segs_ok_def)
  obtain j where j: "n \<le> k + length (concat (map lg_writes bs)) + length (concat (take j (lg_groups g)))"
    using l by (auto simp: durable_def)
  have "length (concat (take j (lg_groups g))) \<le> length (concat (lg_groups g))"
    by (metis append_take_drop_id concat_append le_add1 length_append)
  moreover have "length (s_hist s) = k + length (concat (map lg_writes (bs @ [g])))"
    using l by (auto simp: hist_segs_def dest: arg_cong [where f = length])
  ultimately show ?thesis using j g by simp
qed

text \<open>The writes of a memtable are numbered up to the counter.\<close>

lemma mem_history_seqs:
  assumes "mem_history mt ws" "mem_history mt us" "w \<in> set us"
  shows "\<exists>v\<in>set ws. w_seq v = w_seq w"
proof -
  have "entry_of w \<in> entry_of ` set ws" using mem_history_inv(2) [OF assms(1)] mem_history_inv(2) [OF assms(2)] assms(3) by auto
  then obtain v where v: "v \<in> set ws" "entry_of w = entry_of v" by auto
  have "InternalKeySequence (fst (entry_of u)) = w_seq u" if "u \<in> set us \<or> u \<in> set ws" for u
    using assms(1,2) that by (auto simp: entry_of_def mem_history_def seqs_increasing_def Sequence_encode)
  then show ?thesis using v assms(3) by metis
qed

lemma mem_history_more:
  assumes "layers_ok db fl Ws ws" "db_memtable db = Some (i, mt)" "mem_history mt vs"
    "unat (db_seq db) + length ps + 1 \<le> 2 ^ 56" "MemTable_run mt (ops_writes (db_seq db + 1) ps) = Some mt'"
  shows "mem_history mt' (vs @ ops_writes (db_seq db + 1) ps)"
proof -
  let ?us = "ops_writes (db_seq db + 1) ps"
  have m: "mem_history mt ws" "\<forall>w\<in>set ws. w_seq w \<le> db_seq db" using assms(1,2) by (auto simp: layers_ok_def)
  have s1: "unat (db_seq db + 1) = unat (db_seq db) + 1" using unat_plus_small [of "db_seq db" 1] assms(4) by simp
  have us: "seqs_increasing ?us" "\<forall>w\<in>set ?us. unat (db_seq db) < unat (w_seq w)"
    using ops_writes_increasing [of "db_seq db + 1" ps] assms(4) s1 by auto
  have "w_seq a < w_seq b" if ab: "a \<in> set vs" "b \<in> set ?us" for a b
  proof -
    obtain v where "v \<in> set ws" "w_seq v = w_seq a" using mem_history_seqs [OF m(1) assms(3) ab(1)] by blast
    then have "w_seq a \<le> db_seq db" using m(2) by auto
    then show ?thesis using us(2) ab(2) by (auto simp: word_less_nat_alt word_le_nat_alt)
  qed
  then have "seqs_increasing (vs @ ?us)" using assms(3) us(1) by (auto simp: seqs_increasing_def sorted_wrt_append mem_history_def)
  from mem_history_run [OF assms(3) this] show ?thesis using assms(5) by auto
qed

lemma logs_ok_commit:
  assumes "logs_ok lib s k segs n" "sys_inv lib s" "group_fits (s_db s)" "write_commit (s_os s) (s_db s) = Some (os', db', results)"
  defines "us \<equiv> ops_writes (db_seq (s_db s) + 1) (group_ops (db_group (s_db s)))"
  defines "s' \<equiv> s\<lparr>s_os := os', s_db := db', s_hist := s_hist s @ us\<rparr>"
  shows "\<exists>segs'. logs_ok lib s' k segs' (if synced_group (s_db s) then length (s_hist s') else n)"
proof (cases "db_group (s_db s) = []")
  case True
  then have "os' = s_os s" "db' = (s_db s)\<lparr>db_group := [], db_leader := False\<rparr>"
    using assms(4) by (auto simp: write_commit_def doWriteGroup_def)
  then have "logs_ok lib s' k segs n"
    using assms(1) True by (intro logs_ok_fields [OF assms(1)]) (auto simp: s'_def us_def group_ops_def logs_ok_def)
  then show ?thesis using True by (auto simp: synced_group_def)
next
  case False
  let ?db = "s_db s" and ?os = "s_os s" and ?dir = "db_dir (s_db s)" and ?n = "v_next_file_number (db_version (s_db s))"
  let ?ps = "group_ops (db_group ?db)"
  note l = assms(1) [unfolded logs_ok_def]
  obtain Ws ws where o: "files_ok lib ?os ?db" "wals_ok ?os ?db (s_flush s)" "layers_ok ?db (s_flush s) Ws ws"
    using assms(2) by (rule sys_invE) blast
  obtain bs g where segs: "segs = bs @ [g]" using l by (metis append_butlast_last_id segs_ok_def)
  note l = l [unfolded segs]
  have cur: "db_current_wal ?db = seg_path ?dir g" using l by (simp add: segs_ok_def)
  obtain f where f: "file_of ?os (seg_path ?dir g) = Some f" "f_data f = seg_image (lg_groups g)" "f_synced f \<le> length (f_data f)"
    using l by (auto simp: segs_ok_def seg_ok_def)
  obtain i mt where mt: "db_memtable ?db = Some (i, mt)" "mem_history mt (lg_writes g)" using l by (auto simp: mem_segs_def)
  have obs: "db_obsolete_wals ?db = []" using l by (simp add: mem_segs_def)
  have gok: "group_ok ?ps"
    using assms(3) small_ops [of ?ps] by (simp add: group_ok_def wal_ok_def group_fits_def group_image_ops)
  have fresh: "file_of ?os (makeWalPath ?dir ?n) = None" by (rule fresh_log_unknown [OF assms(1) o(1)])
  note wc = write_commit_files [OF o assms(3) False assms(4) obs _ f(3) fresh mt(1), unfolded cur, OF f(1), folded us_def]
  from wc obtain f' mt' where f': "file_of os' (seg_path ?dir g) = Some f'" "f_data f' = f_data f @ wal_frame (ops_image ?ps)"
      "f_synced f \<le> f_synced f'" "f_synced f' \<le> length (f_data f')" "synced_group ?db \<longrightarrow> f_synced f' = length (f_data f')"
    and mt': "MemTable_run mt us = Some mt'"
    and d: "db_dir db' = ?dir" "v_levels (db_version db') = v_levels (db_version ?db)" "?n \<le> v_next_file_number (db_version db')"
      "db_obsolete_wals db' = []"
    and c: "(\<forall>q. q \<noteq> seg_path ?dir g \<longrightarrow> file_of os' q = file_of ?os q) \<and> db_current_wal db' = seg_path ?dir g \<and>
        db_memtable db' = Some (i, mt') \<and> db_flush_queue db' = db_flush_queue ?db \<or>
      f_synced f' = length (f_data f') \<and> file_of os' (makeWalPath ?dir ?n) = Some new_file \<and> ?n < v_next_file_number (db_version db') \<and>
        (\<forall>q. q \<noteq> seg_path ?dir g \<and> q \<noteq> makeWalPath ?dir ?n \<longrightarrow> file_of os' q = file_of ?os q) \<and> db_current_wal db' = makeWalPath ?dir ?n \<and>
        (\<exists>j m r. db_memtable db' = Some (j, MemTable_new m r)) \<and>
        db_flush_queue db' = db_flush_queue ?db @ [\<lparr>fe_memtable = (i, mt'), fe_wals = [seg_path ?dir g]\<rparr>]"
    unfolding synced_group_def by blast
  have hist: "mem_history mt' (lg_writes g @ us)"
    using mem_history_more [OF o(3) mt, of ?ps mt'] mt' assms(3) by (simp add: us_def group_fits_def)
  obtain Ws' ws' where wco: "logs_only ?dir ?os os'" using write_commit_ok [OF o assms(3,4)] by blast
  have reg: "registered db' = registered ?db" using d(2) by (rule registered_levels)
  have tab: "in_table lib os' db' w" if "in_table lib ?os ?db w" for w
    using logs_only_in_table [OF o(1) wco that] in_table_levels [OF d(2)] by simp
  have drop: "drop k (s_hist s @ us) = concat (map lg_writes (bs @ [g])) @ us" "k \<le> length (s_hist s)"
    using l by (auto simp: hist_segs_def)
  have hl: "length (s_hist s) = k + length (concat (map lg_writes (bs @ [g])))"
    using l by (auto simp: hist_segs_def dest: arg_cong [where f = length])
  let ?g = "grow_seg ?ps us g"
  have ops: "map op_of us = ?ps" by (simp add: us_def)
  have img: "f_data f' = seg_image (lg_groups ?g)" using f'(2) f(2) by (simp add: seg_image_def)
  have sok: "seg_ok os' ?dir ?g" using l f' img gok ops by (auto simp: segs_ok_def seg_ok_def)
  have glen: "length (lg_writes g) = length (concat (lg_groups g))" using l by (metis in_set_conv_decomp length_map seg_ok_def segs_ok_def)
  have other: "seg_path ?dir h \<noteq> seg_path ?dir g \<and> seg_path ?dir h \<noteq> makeWalPath ?dir ?n" if "h \<in> set bs" for h
    using l that by (auto simp: segs_ok_def seg_path_def makeWalPath_inject sorted_wrt_append)
  have regs: "p \<noteq> seg_path ?dir g \<and> p \<noteq> makeWalPath ?dir ?n" if "p \<in> registered ?db" for p
    using registered_path [OF o(1) that] by (auto simp: seg_path_def)
  from c show ?thesis
  proof
    assume c: "(\<forall>q. q \<noteq> seg_path ?dir g \<longrightarrow> file_of os' q = file_of ?os q) \<and> db_current_wal db' = seg_path ?dir g \<and>
        db_memtable db' = Some (i, mt') \<and> db_flush_queue db' = db_flush_queue ?db"
    have "segs_ok os' db' (bs @ [?g])"
      using l c d sok other by (auto simp: segs_ok_def seg_ok_def file_synced_def sorted_wrt_append butlast_append intro: less_le_trans)
    moreover have "mem_segs db' (s_flush s) (bs @ [?g])" using l c d hist by (simp add: mem_segs_def)
    moreover have "hist_segs lib os' db' (s_hist s @ us) k (bs @ [?g])" using l drop tab by (simp add: hist_segs_def)
    moreover have "flushed_seg lib os' db' (s_flush s) (bs @ [?g])"
      using l tab c by (cases bs) (auto simp: flushed_seg_def mem_segs_def flushing_def)
    moreover have "inventory os' db' (bs @ [?g])"
      unfolding inventory_def
    proof (intro allI impI)
      fix q assume "file_of os' q \<noteq> None"
      then have "file_of ?os q \<noteq> None" using c f(1) by (cases "q = seg_path ?dir g") auto
      then have "known_file ?db (bs @ [g]) q" using l by (simp add: inventory_def)
      then show "known_file db' (bs @ [?g]) q" by (rule known_file_grow [OF _ reg d(1)]) simp
    qed
    moreover have "tables_durable os' db'" using l c d(2) regs by (auto simp: tables_durable_def reg file_synced_def)
    moreover have "durable os' db' k (bs @ [?g]) n"
    proof -
      obtain j where "j \<le> length (lg_groups g)" "length (seg_image (take j (lg_groups g))) \<le> f_synced f"
        "n \<le> k + length (concat (map lg_writes bs)) + length (concat (take j (lg_groups g)))"
        using l f(1) by (auto simp: durable_def)
      then show ?thesis using f'(1,3) d(1) by (auto simp: durable_def intro!: exI [of _ j])
    qed
    moreover have "durable os' db' k (bs @ [?g]) (length (s_hist s @ us))" if "synced_group ?db"
    proof -
      have "length (seg_image (lg_groups ?g)) \<le> f_synced f'" using f'(5) that img by simp
      moreover have "length (s_hist s @ us) = k + length (concat (map lg_writes bs)) + length (concat (lg_groups ?g))"
        using hl arg_cong [OF ops, of length] glen by simp
      ultimately show ?thesis using f'(1) d(1) by (auto simp: durable_def intro!: exI [of _ "length (lg_groups ?g)"])
    qed
    ultimately show ?thesis by (intro exI [of _ "bs @ [?g]"]) (simp add: logs_ok_def s'_def)
  next
    assume c: "f_synced f' = length (f_data f') \<and> file_of os' (makeWalPath ?dir ?n) = Some new_file \<and> ?n < v_next_file_number (db_version db') \<and>
        (\<forall>q. q \<noteq> seg_path ?dir g \<and> q \<noteq> makeWalPath ?dir ?n \<longrightarrow> file_of os' q = file_of ?os q) \<and> db_current_wal db' = makeWalPath ?dir ?n \<and>
        (\<exists>j m r. db_memtable db' = Some (j, MemTable_new m r)) \<and>
        db_flush_queue db' = db_flush_queue ?db @ [\<lparr>fe_memtable = (i, mt'), fe_wals = [seg_path ?dir g]\<rparr>]"
    let ?segs = "bs @ [?g, new_seg ?n]"
    have "segs_ok os' db' ?segs"
      using l c d sok other f'(1)
      by (auto simp: segs_ok_def seg_ok_def file_synced_def sorted_wrt_append butlast_append new_file_def intro: less_le_trans less_trans)
    moreover have "mem_segs db' (s_flush s) ?segs"
    proof -
      have "list_all2 (\<lambda>e g. fe_wals e = [seg_path ?dir g] \<and> mem_history (snd (fe_memtable e)) (lg_writes g))
          ((flushing (s_flush s) @ db_flush_queue ?db) @ [\<lparr>fe_memtable = (i, mt'), fe_wals = [seg_path ?dir g]\<rparr>]) (bs @ [?g])"
        using l hist by (intro list_all2_appendI) (simp_all add: mem_segs_def)
      then show ?thesis using c d mem_history_new by (auto simp: mem_segs_def butlast_append)
    qed
    moreover have "hist_segs lib os' db' (s_hist s @ us) k ?segs" using l drop tab by (simp add: hist_segs_def)
    moreover have "flushed_seg lib os' db' (s_flush s) ?segs"
      using l tab by (cases bs) (auto simp: flushed_seg_def mem_segs_def flushing_def)
    moreover have "inventory os' db' ?segs"
      unfolding inventory_def
    proof (intro allI impI)
      fix q assume q: "file_of os' q \<noteq> None"
      show "known_file db' ?segs q"
      proof (cases "q = makeWalPath ?dir ?n")
        case False
        then have "file_of ?os q \<noteq> None" using c f(1) q by (cases "q = seg_path ?dir g") auto
        then have "known_file ?db (bs @ [g]) q" using l by (simp add: inventory_def)
        then show ?thesis by (rule known_file_grow [OF _ reg d(1)]) auto
      qed (use d(1) in \<open>auto simp: known_file_def\<close>)
    qed
    moreover have "tables_durable os' db'" using l c d(2) regs by (auto simp: tables_durable_def reg file_synced_def)
    moreover have len: "length (s_hist s @ us) = k + length (concat (map lg_writes (bs @ [?g])))"
      using hl by simp
    moreover have all: "durable os' db' k ?segs (length (s_hist s @ us))"
      using c d(1) len by (auto simp: durable_def new_file_def butlast_append)
    moreover have "durable os' db' k ?segs n"
    proof -
      have "n \<le> length (s_hist s)" using durable_le [OF assms(1)] .
      then show ?thesis using all by (auto simp: durable_def)
    qed
    ultimately show ?thesis by (intro exI [of _ ?segs]) (simp add: logs_ok_def s'_def)
  qed
qed

section \<open>Every step keeps the logs\<close>

lemma logs_ok_mono: "logs_ok lib s k segs n \<Longrightarrow> m \<le> n \<Longrightarrow> logs_ok lib s k segs m"
  unfolding logs_ok_def durable_def by (meson order_trans)

lemma hd_flushing:
  assumes "logs_ok lib s k segs n" "flushing (s_flush s) = [entry]"
  shows "mem_history (snd (fe_memtable entry)) (lg_writes (hd segs))"
  using assms by (cases segs) (auto simp: logs_ok_def mem_segs_def list_all2_Cons1 split: if_splits)

lemma step_keeps_logs:
  assumes "db_step lib s s'" "sys_inv lib s" "logs_ok lib s k segs n"
  shows "\<exists>k segs. logs_ok lib s' k segs n"
  using assms(1)
proof cases
  case (lead e)
  then have "logs_ok lib s' k segs n"
    using assms(3) by (intro logs_ok_fields [OF assms(3)]) (auto simp: write_lead_def logs_ok_def)
  then show ?thesis by blast
next
  case (follow e)
  then have "logs_ok lib s' k segs n"
    using assms(3) by (intro logs_ok_fields [OF assms(3)]) (auto simp: write_follow_def logs_ok_def)
  then show ?thesis by blast
next
  case (commit os' db' results)
  from logs_ok_commit [OF assms(3,2) commit(3,4)] durable_le [OF assms(3)] commit(1) logs_ok_mono
  show ?thesis by (fastforce split: if_splits)
next
  case (start entry db')
  then obtain q where q: "db_flush_queue (s_db s) = entry # q" "db' = (s_db s)\<lparr>db_flush_queue := q, db_flush_inflight := db_flush_inflight (s_db s) + 1\<rparr>"
    by (auto simp: flush_pop_def split: list.splits)
  then have "logs_ok lib s' k segs n"
    using start by (intro logs_ok_fields [OF assms(3)]) (auto simp: flushing_def flushed_seg_def)
  then show ?thesis by blast
next
  case (build entry es os' db')
  then show ?thesis using logs_ok_build [OF assms(3,2) build(2,4-7)] by blast
next
  case (erase entry)
  then have "logs_ok lib s' k segs n"
    using assms(3) by (intro logs_ok_fields [OF assms(3)]) (auto simp: flush_erase_def flushing_def logs_ok_def flushed_seg_def)
  then show ?thesis by blast
next
  case (unlink entry)
  have "\<forall>w\<in>set (lg_writes (hd segs)). in_table lib (s_os s) (s_db s) w"
    using assms(3) unlink(2) by (auto simp: logs_ok_def flushed_seg_def)
  moreover have "flushing (s_flush s) = [entry]" using unlink(2) by (simp add: flushing_def)
  ultimately show ?thesis unfolding unlink(1) by (intro logs_ok_unlink [OF assms(3,2)]) (simp_all add: flush_done_def)
next
  case (drop_empty entry)
  have fl: "flushing (s_flush s) = [entry]" using drop_empty(2) by (simp add: flushing_def)
  note h = hd_flushing [OF assms(3) fl]
  have "MemTable_content (snd (fe_memtable entry)) = []"
    using mem_history_inv(1) [OF h] drop_empty(3)
    by (simp add: MemTable_empty_def MemTable_inv_def MemTable_content_def SkipList_empty_content)
  then have "\<forall>w\<in>set (lg_writes (hd segs)). in_table lib (s_os s) (s_db s) w" using mem_history_inv(2) [OF h] by simp
  with fl show ?thesis unfolding drop_empty(1) by (intro logs_ok_unlink [OF assms(3,2)]) (simp_all add: flush_done_def flush_erase_def)
next
  case (read k' st v db')
  obtain Ws ws where "files_ok lib (s_os s) (s_db s)" "layers_ok (s_db s) (s_flush s) Ws ws" using assms(2) by (rule sys_invE) blast
  from get_keeps [OF this, of k'] obtain cache where "db' = (s_db s)\<lparr>db_cache := cache\<rparr>" using read(2) by auto
  then have "logs_ok lib s' k segs n"
    using assms(3) read(1) by (intro logs_ok_fields [OF assms(3)]) (auto simp: logs_ok_def)
  then show ?thesis by blast
qed

theorem reachable_log_inv: "(db_step lib)\<^sup>*\<^sup>* s s' \<Longrightarrow> log_inv lib n s \<Longrightarrow> log_inv lib n s'"
  by (induction rule: rtranclp_induct) (auto simp: log_inv_def intro: step_keeps_inv dest: step_keeps_logs)

text \<open>A group with a writer that asked for a sync makes the whole history durable.\<close>

theorem synced_commit_durable:
  assumes "log_inv lib n s" "db_leader (s_db s)" "group_fits (s_db s)" "synced_group (s_db s)"
    "write_commit (s_os s) (s_db s) = Some (os', db', results)"
  defines "s' \<equiv> s\<lparr>s_os := os', s_db := db', s_hist := s_hist s @ ops_writes (db_seq (s_db s) + 1) (group_ops (db_group (s_db s)))\<rparr>"
  shows "log_inv lib (length (s_hist s')) s'"
proof -
  obtain k segs where l: "sys_inv lib s" "logs_ok lib s k segs n" using assms(1) by (auto simp: log_inv_def)
  have "db_step lib s s'" unfolding s'_def by (rule db_step.commit [OF assms(2,3,5)])
  then have "sys_inv lib s'" using l(1) by (rule step_keeps_inv)
  moreover obtain segs' where "logs_ok lib s' k segs' (length (s_hist s'))"
    using logs_ok_commit [OF l(2,1) assms(3,5)] assms(4) by (auto simp: s'_def)
  ultimately show ?thesis by (auto simp: log_inv_def)
qed

section \<open>A new database\<close>

theorem fresh_log_inv:
  assumes "os_files os = []" "os_faults os = []" "open_ok opts dir" "codec_ok lib"
    "DBImpl_open os opts rngs = Some (os', Some db, st)"
  shows "log_inv lib 0 \<lparr>s_os = os', s_db = db, s_hist = [], s_flush = None\<rparr>"
proof -
  let ?s = "\<lparr>s_os = os', s_db = db, s_hist = [], s_flush = None\<rparr>"
  obtain i m r where d: "v_next_file_number (db_version db) = 2" "db_dir db = dir" "v_levels (db_version db) = replicate 8 []"
    "db_current_wal db = makeWalPath dir 1" "db_obsolete_wals db = []" "db_flush_queue db = []" "db_memtable db = Some (i, MemTable_new m r)"
    "os_files os' = [(dir @ str ''/MANIFEST'' @ str ''.bak'', new_file), (dir @ str ''/MANIFEST'', new_file), (makeWalPath dir 1, new_file)]"
    using fresh_open_state [OF assms(1-4), of rngs] assms(5) by auto
  have f: "file_of os' (makeWalPath dir 1) = Some new_file" using d(8) by (simp add: file_of_def makeWalPath_def str_def)
  have r: "registered db = {}" using d(3) by (auto simp: registered_def)
  have "segs_ok os' db [new_seg 1]" using d f by (simp add: segs_ok_def seg_ok_def new_file_def)
  moreover have "mem_segs db None [new_seg 1]" using d mem_history_new by (auto simp: mem_segs_def flushing_def)
  moreover have "hist_segs lib os' db [] 0 [new_seg 1]" by (simp add: hist_segs_def)
  moreover have "inventory os' db [new_seg 1]"
    unfolding inventory_def
  proof (intro allI impI)
    fix q assume "file_of os' q \<noteq> None"
    then have "q \<in> {dir @ str ''/MANIFEST'' @ str ''.bak'', dir @ str ''/MANIFEST'', makeWalPath dir 1}"
      using d(8) by (auto simp: file_of_def split: if_splits)
    moreover have "str ''/MANIFEST'' @ str ''.bak'' = str ''/MANIFEST.bak''" by (simp add: str_def)
    ultimately show "known_file db [new_seg 1] q" using d(2) by (auto simp: known_file_def)
  qed
  moreover have "tables_durable os' db" using r d(3) by (simp add: tables_durable_def plain_levels_def)
  moreover have "durable os' db 0 [new_seg 1] 0" using f d(2) by (simp add: durable_def)
  ultimately have "logs_ok lib ?s 0 [new_seg 1] 0" by (simp add: logs_ok_def flushed_seg_def)
  then show ?thesis using fresh_sys_inv [OF assms] by (auto simp: log_inv_def)
qed

end
