(* ===== verification/Db_Recovery.thy ===== *)
theory Db_Recovery
  imports Db_Logs
begin

text \<open>
  Recovery after a crash. A reboot finds the synced part of every file and any amount of what
  lies behind it; \<open>DB::open\<close> on what is left reads the MANIFEST, removes the table an
  interrupted flush left behind, writes a new MANIFEST and replays the logs. The theorems say
  that this succeeds from every reachable state, that the database it returns satisfies the
  invariant of \<open>Db_System\<close> again, and that its history is a prefix of the history before the
  crash which includes every durable write.
\<close>

section \<open>Files and names\<close>

text \<open>A file system lists every name once.\<close>

definition os_wf :: "os \<Rightarrow> bool" where
  "os_wf os \<longleftrightarrow> os_faults os = [] \<and> distinct (map fst (os_files os))"

lemma file_of_names: "file_of os q \<noteq> None \<longleftrightarrow> q \<in> fst ` set (os_files os)"
  by (simp add: file_of_def map_of_eq_None_iff)

lemma os_wf_set_file: "os_wf os \<Longrightarrow> os_wf (set_file os p f)"
  by (simp add: os_wf_def set_file_def distinct_update)

lemma os_wf_delete: "os_wf os \<Longrightarrow> os_wf (os\<lparr>os_files := AList.delete p (os_files os)\<rparr>)"
  by (simp add: os_wf_def distinct_delete)

lemma set_file_dirs [simp]: "os_dirs (set_file os p f) = os_dirs os"
  by (simp add: set_file_def)

lemma append_file_wf: "os_wf os \<Longrightarrow> os_wf (append_file os p data) \<and> os_dirs (append_file os p data) = os_dirs os"
  by (simp add: append_file_def os_wf_set_file split: option.split)

lemma sys_unlink_wf:
  "os_wf os \<Longrightarrow> os_wf (fst (sys_unlink os p)) \<and> os_dirs (fst (sys_unlink os p)) = os_dirs os \<and>
    file_of (fst (sys_unlink os p)) q = (if q = p then None else file_of os q)"
  by (auto simp: sys_unlink_def os_wf_def distinct_delete split: option.split)

lemma unlink_all_wf: "os_wf os \<Longrightarrow> os_wf (unlink_all os ps) \<and> os_dirs (unlink_all os ps) = os_dirs os"
  by (induction ps arbitrary: os) (simp_all add: sys_unlink_wf)

section \<open>Orphans\<close>

lemma list_dir_in:
  "name \<in> set (list_dir os dir) \<longleftrightarrow> name \<noteq> [] \<and> 47 \<notin> set name \<and> file_of os (dir @ 47 # name) \<noteq> None"
proof
  assume "name \<in> set (list_dir os dir)"
  then obtain p where p: "p \<in> fst ` set (os_files os)" "length dir + 1 < length p" "take (length dir + 1) p = dir @ [47]"
    "47 \<notin> set (drop (length dir + 1) p)" "name = drop (length dir + 1) p"
    by (auto simp: list_dir_def)
  have "p = dir @ 47 # name" using p(3,5) append_take_drop_id [of "length dir + 1" p] by simp
  then have "dir @ 47 # name \<in> fst ` set (os_files os)" using p(1) by (rule subst)
  moreover have "name \<noteq> []" "47 \<notin> set name" unfolding p(5) using p(2,4) by simp_all
  ultimately show "name \<noteq> [] \<and> 47 \<notin> set name \<and> file_of os (dir @ 47 # name) \<noteq> None" unfolding file_of_names by blast
next
  assume n: "name \<noteq> [] \<and> 47 \<notin> set name \<and> file_of os (dir @ 47 # name) \<noteq> None"
  then have "dir @ 47 # name \<in> fst ` set (os_files os)" unfolding file_of_names by simp
  with n show "name \<in> set (list_dir os dir)"
    by (auto simp: list_dir_def intro!: image_eqI [where x = "dir @ 47 # name"])
qed

lemma purge_dirs_ok:
  assumes "os_wf os"
  shows "os_wf (purge_dirs os live dirs) \<and> os_dirs (purge_dirs os live dirs) = os_dirs os \<and>
    (\<forall>q. (q \<in> live \<or> \<not> is_sst q \<longrightarrow> file_of (purge_dirs os live dirs) q = file_of os q) \<and>
      (file_of os q = None \<longrightarrow> file_of (purge_dirs os live dirs) q = None))"
  using assms
proof (induction dirs arbitrary: os)
  case (Cons dir dirs)
  let ?os = "if dir \<in> set (os_dirs os) then unlink_all os (orphans os live dir) else os"
  have f: "file_of ?os q = (if dir \<in> set (os_dirs os) \<and> q \<in> set (orphans os live dir) then None else file_of os q)" for q
    using unlink_all_ok [of os "orphans os live dir"] Cons.prems by (simp add: os_wf_def)
  have o: "q \<in> set (orphans os live dir) \<Longrightarrow> is_sst q \<and> q \<notin> live" for q by (auto simp: orphans_def)
  have "os_wf ?os" "os_dirs ?os = os_dirs os" using unlink_all_wf [OF Cons.prems] Cons.prems by simp_all
  with Cons.IH [of ?os] f o show ?case by simp
qed simp

lemma purge_dirs_removes:
  assumes "os_wf os" "dir \<in> set dirs" "dir \<in> set (os_dirs os)" "is_sst (dir @ 47 # name)" "dir @ 47 # name \<notin> live"
    "name \<noteq> []" "hd name \<noteq> 46" "47 \<notin> set name"
  shows "file_of (purge_dirs os live dirs) (dir @ 47 # name) = None"
  using assms(1-3)
proof (induction dirs arbitrary: os)
  case (Cons d dirs)
  let ?os = "if d \<in> set (os_dirs os) then unlink_all os (orphans os live d) else os"
  have wf: "os_wf ?os" "os_dirs ?os = os_dirs os" using unlink_all_wf [OF Cons.prems(1)] Cons.prems(1) by simp_all
  show ?case
  proof (cases "d = dir")
    case True
    have "file_of ?os (dir @ 47 # name) = None"
    proof (cases "file_of os (dir @ 47 # name)")
      case None
      then show ?thesis using unlink_all_ok [of os "orphans os live d"] Cons.prems(1) by (simp add: os_wf_def)
    next
      case (Some f)
      then have "name \<in> set (list_dir os dir)" using assms(6,8) by (simp add: list_dir_in)
      then have "dir @ 47 # name \<in> set (orphans os live dir)" using assms(4,5,7) by (auto simp: orphans_def)
      then show ?thesis using True Cons.prems unlink_all_ok [of os "orphans os live d"] by (simp add: os_wf_def)
    qed
    then show ?thesis using purge_dirs_ok [OF wf(1), of live dirs] by simp
  next
    case False
    then show ?thesis using Cons.IH [OF wf(1)] Cons.prems wf(2) by simp
  qed
qed simp

section \<open>Finding the logs\<close>

definition wal_name :: "u64 \<Rightarrow> bytes" where
  "wal_name n = str ''wal-'' @ to_digits (unat n) @ str ''.log''"

lemma makeWalPath_name: "makeWalPath dir n = dir @ 47 # wal_name n"
  by (simp add: makeWalPath_def wal_name_def str_def)

lemma wal_number_name: "wal_number (wal_name n) = Some n"
proof -
  let ?d = "to_digits (unat n)"
  have d: "list_all is_digit ?d" "digits_value ?d = unat n" "?d \<noteq> []"
    using to_digits_digits [of "unat n"] by (simp_all add: to_digits.simps [of "unat n"])
  have t: "takeWhile is_digit (?d @ str ''.log'') = ?d" "dropWhile is_digit (?d @ str ''.log'') = str ''.log''"
    using d(1) by (simp_all add: list_all_iff str_def is_digit_def)
  have "unat n < 2 ^ 64" using unsigned_less [of n, where 'a = nat] by simp
  then have "strtoull (?d @ str ''.log'') = (n, str ''.log'')" by (simp add: strtoull_def t d(2) Let_def)
  moreover have "is_digit (hd ?d)" using d(1,3) by (cases ?d) simp_all
  ultimately show ?thesis using d(3) by (simp add: wal_number_def wal_name_def Let_def str_def)
qed

lemma wal_number_prefix: "wal_number name \<noteq> None \<Longrightarrow> \<exists>rest. name = str ''wal-'' @ rest"
  by (auto simp: wal_number_def split: if_splits) (metis append_take_drop_id)

lemma list_dir_distinct: "os_wf os \<Longrightarrow> distinct (list_dir os dir)"
proof -
  assume "os_wf os"
  let ?n = "length dir + 1"
  let ?P = "\<lambda>p. ?n < length p \<and> take ?n p = dir @ [47] \<and> 47 \<notin> set (drop ?n p)"
  have "inj_on (drop ?n) {p. ?P p}"
    by (rule inj_onI) (metis (mono_tags, lifting) append_take_drop_id mem_Collect_eq)
  then have "inj_on (drop ?n) (set (filter ?P (map fst (os_files os))))" by (rule inj_on_subset) auto
  with \<open>os_wf os\<close> show ?thesis unfolding list_dir_def distinct_map by (simp add: os_wf_def)
qed

text \<open>The logs of the segments, in the order of their numbers, and nothing else.\<close>

lemma listWalFiles_segs:
  assumes "os_wf os" "dir \<in> set (os_dirs os)" "sorted_wrt (<) (map lg_number segs)"
    and wals: "\<And>name. 47 \<notin> set name \<Longrightarrow> file_of os (dir @ 47 # str ''wal'' @ name) \<noteq> None \<Longrightarrow> dir @ 47 # str ''wal'' @ name \<in> seg_path dir ` set segs"
    and ex: "\<forall>g\<in>set segs. file_of os (seg_path dir g) \<noteq> None"
  shows "listWalFiles os dir = map (\<lambda>g. (lg_number g, seg_path dir g)) segs"
proof -
  let ?t = "map (\<lambda>g. (lg_number g, seg_path dir g)) segs" and ?names = "list_dir os dir"
  define out where "out = concat (map (\<lambda>name. case wal_number name of None \<Rightarrow> [] | Some num \<Rightarrow> [(num, dir @ [47] @ name)]) ?names)"
  have slash: "47 \<notin> set (wal_name n)" for n using to_digits_no_slash(1) [of "unat n"] by (simp add: wal_name_def str_def)
  have "set out = set ?t"
  proof (intro set_eqI iffI)
    fix e assume "e \<in> set out"
    then obtain name num where n: "name \<in> set ?names" "wal_number name = Some num" "e = (num, dir @ 47 # name)"
      by (auto simp: out_def split: option.splits)
    then have sl: "47 \<notin> set name" and f: "file_of os (dir @ 47 # name) \<noteq> None" by (simp_all add: list_dir_in)
    obtain rest where "name = str ''wal-'' @ rest" using wal_number_prefix [of name] n(2) by auto
    then have r: "name = str ''wal'' @ 45 # rest" by (simp add: str_def)
    have "dir @ 47 # name \<in> seg_path dir ` set segs" using wals [of "45 # rest"] sl f unfolding r by simp
    then obtain g where g: "g \<in> set segs" "dir @ 47 # name = dir @ 47 # wal_name (lg_number g)"
      by (auto simp: seg_path_def makeWalPath_name)
    then have "num = lg_number g" using n(2) wal_number_name [of "lg_number g"] by simp
    then show "e \<in> set ?t" using g n(3) by (auto simp: seg_path_def makeWalPath_name)
  next
    fix e assume "e \<in> set ?t"
    then obtain g where g: "g \<in> set segs" "e = (lg_number g, dir @ 47 # wal_name (lg_number g))"
      by (auto simp: seg_path_def makeWalPath_name)
    have "wal_name (lg_number g) \<noteq> []" by (simp add: wal_name_def str_def)
    then have "wal_name (lg_number g) \<in> set ?names"
      using ex g(1) slash by (auto simp: list_dir_in seg_path_def makeWalPath_name)
    then show "e \<in> set out" using g(2) wal_number_name by (force simp: out_def)
  qed
  note so = this
  have inj: "inj_on fst (set ?t)" by (auto simp: inj_on_def seg_path_def)
  have "map snd (concat (map (\<lambda>name. case wal_number name of None \<Rightarrow> [] | Some num \<Rightarrow> [(num, dir @ [47] @ name)]) names)) =
      map (\<lambda>name. dir @ [47] @ name) (filter (\<lambda>name. wal_number name \<noteq> None) names)" for names
    by (induction names) (simp_all split: option.split)
  then have "map snd out = map (\<lambda>name. dir @ [47] @ name) (filter (\<lambda>name. wal_number name \<noteq> None) ?names)"
    by (simp add: out_def)
  then have "distinct (map snd out)" using list_dir_distinct [OF assms(1), of dir] by (simp add: distinct_map inj_on_def)
  then have "distinct out" by (simp add: distinct_map)
  then have "distinct (sort_by (\<lambda>a b. fst a < fst b) out)" using mset_eq_imp_distinct_iff [OF mset_sort_by] by blast
  then have d: "distinct (map fst (sort_by (\<lambda>a b. fst a < fst b) out))"
    unfolding distinct_map using inj by (simp only: set_sort_by so simp_thms)
  have t: "sorted (map fst ?t)" "distinct (map fst ?t)"
    using assms(3) by (simp_all add: strict_sorted_iff comp_def)
  have "sort_by (\<lambda>a b. fst a < fst b) out = ?t"
    by (rule map_sorted_distinct_set_unique [of fst]) (use inj so d t sorted_sort_by [of out _ fst] in simp_all)
  moreover have "content_of os (dir @ str ''/wal.log'') = []"
  proof (rule ccontr)
    have p: "dir @ str ''/wal.log'' = dir @ 47 # str ''wal'' @ str ''.log''" by (simp add: str_def)
    assume "content_of os (dir @ str ''/wal.log'') \<noteq> []"
    then have "file_of os (dir @ str ''/wal.log'') \<noteq> None" by (auto simp: content_of_def split: option.splits)
    then have "dir @ str ''/wal.log'' \<in> seg_path dir ` set segs" unfolding p by (intro wals) (simp_all add: str_def)
    then show False by (auto simp: seg_path_def makeWalPath_def str_def)
  qed
  ultimately show ?thesis using assms(2) by (simp add: listWalFiles_def Let_def out_def)
qed

section \<open>Replaying the logs\<close>

lemma replay_record_image:
  assumes "list_all small_op ps"
  shows "replay_record mt seq (ops_image ps) =
    (case MemTable_run mt (ops_writes seq ps) of None \<Rightarrow> None | Some mt \<Rightarrow> Some (mt, seq + word_of_nat (length ps)))"
  using replay_record_ops [OF assms, of mt seq "[]"]
  by (simp add: ops_image_def replay_record.simps [of _ _ "[]"] cong: option.case_cong)

lemma replay_records_images:
  assumes "list_all small_op (concat gs)"
  shows "replay_records mt seq (map ops_image gs) =
    (case MemTable_run mt (ops_writes seq (concat gs)) of None \<Rightarrow> None
     | Some mt \<Rightarrow> Some (mt, seq + word_of_nat (length (concat gs))))"
  using assms
proof (induction gs arbitrary: mt seq)
  case (Cons ps gs)
  then show ?case
    by (auto simp: replay_record_image ops_writes_append MemTable_run_append algebra_simps
        split: option.split Option.bind_split)
qed simp

definition bump_numbers :: "(u64 \<times> path) list \<Rightarrow> Version \<Rightarrow> Version" where
  "bump_numbers wals v = fold (\<lambda>e v. Version_ensureNextFileNumberAtLeast v (fst e + 1)) wals v"

lemma bump_numbers_next:
  assumes "\<forall>e\<in>set wals. fst e < n" "v_next_file_number v \<le> n"
  shows "\<exists>k. bump_numbers wals v = v\<lparr>v_next_file_number := k\<rparr> \<and> v_next_file_number v \<le> k \<and> k \<le> n \<and> (\<forall>e\<in>set wals. fst e < k)"
  using assms
proof (induction wals arbitrary: v)
  case (Cons e wals)
  have "fst e < - 1" by (rule less_le_trans [of _ n]) (use Cons.prems(1) in simp_all)
  then have e: "fst e < fst e + 1" "fst e + 1 \<le> n" using Cons.prems(1) inc_le [of "fst e" n] u64_less_succ by auto
  let ?v = "Version_ensureNextFileNumberAtLeast v (fst e + 1)"
  have v: "?v\<lparr>v_next_file_number := m\<rparr> = v\<lparr>v_next_file_number := m\<rparr>" "v_next_file_number v \<le> v_next_file_number ?v"
    "fst e < v_next_file_number ?v" "v_next_file_number ?v \<le> n" for m
    using e Cons.prems(2) by (auto simp: Version_ensureNextFileNumberAtLeast_def)
  obtain k where k: "bump_numbers wals ?v = ?v\<lparr>v_next_file_number := k\<rparr>" "v_next_file_number ?v \<le> k" "k \<le> n" "\<forall>e\<in>set wals. fst e < k"
    using Cons.IH [of ?v] Cons.prems(1) v(4) by auto
  have "bump_numbers (e # wals) v = v\<lparr>v_next_file_number := k\<rparr>" using k(1) v(1) by (simp add: bump_numbers_def)
  with k v show ?case by (intro exI [of _ k]) auto
next
  case Nil
  then show ?case by (intro exI [of _ "v_next_file_number v"]) (simp add: bump_numbers_def)
qed

text \<open>Logs that hold the groups \<open>gss\<close> replay to their operations, numbered from the counter on.\<close>

lemma replay_wals_groups:
  assumes "os_faults os = []" "list_all2 (\<lambda>e gs. file_of os (snd e) \<noteq> None \<and> wal_parse (content_of os (snd e)) = map ops_image gs) wals gss"
    "list_all small_op (concat (concat gss))" "db_memtable db = Some (i, mt)"
    "MemTable_run mt (ops_writes (db_seq db) (concat (concat gss))) = Some mt'"
  shows "replay_wals os db wals = Some (os, db\<lparr>db_version := bump_numbers wals (db_version db), db_memtable := Some (i, mt'),
    db_seq := db_seq db + word_of_nat (length (concat (concat gss)))\<rparr>, Status_Ok)"
  using assms(2-)
proof (induction wals gss arbitrary: db mt rule: list_all2_induct)
  case Nil
  then show ?case by (cases db) (simp add: bump_numbers_def)
next
  case (Cons e wals gs gss)
  obtain num p where e: "e = (num, p)" by fastforce
  let ?v = "Version_ensureNextFileNumberAtLeast (db_version db) (num + 1)" and ?n = "word_of_nat (length (concat gs))"
  obtain mt1 where m: "MemTable_run mt (ops_writes (db_seq db) (concat gs)) = Some mt1"
    "MemTable_run mt1 (ops_writes (db_seq db + ?n) (concat (concat gss))) = Some mt'"
    using Cons.prems(3) by (auto simp: ops_writes_append MemTable_run_append split: Option.bind_splits)
  have "WAL_new os p = (os, \<lparr>wal_path = p, wal_fd = Some p\<rparr>)"
    using assms(1) Cons.hyps(1) e by (auto simp: WAL_new_def sys_open_creat_def)
  moreover have "replay_records mt (db_seq db) (map ops_image gs) = Some (mt1, db_seq db + ?n)"
    using replay_records_images [of gs mt "db_seq db"] Cons.prems(1) m(1) by simp
  ultimately have "replayWalFile os (db\<lparr>db_version := ?v\<rparr>) p =
      Some (os, db\<lparr>db_version := ?v, db_memtable := Some (i, mt1), db_seq := db_seq db + ?n\<rparr>, Status_Ok)"
    using Cons.prems(2) Cons.hyps(1) e by (simp add: replayWalFile_def WAL_replay_parse)
  then show ?case
    using Cons.IH [of "db\<lparr>db_version := ?v, db_memtable := Some (i, mt1), db_seq := db_seq db + ?n\<rparr>" mt1] Cons.prems(1) m(2) e
    by (simp add: bump_numbers_def add.assoc)
qed

section \<open>The MANIFEST\<close>

lemma append_file_nil [simp]: "append_file os p [] = os"
  by (auto simp: append_file_def set_file_def file_of_def update_triv split: option.split)

lemma write_metas_ok:
  "os_faults os = [] \<Longrightarrow>
    write_metas os nfd es = (append_file os nfd (concat (map manifest_frame (map meta_payload es))), Status_Ok)"
proof (induction es arbitrary: os)
  case (Cons e es)
  obtain l m where e: "e = (l, m)" by fastforce
  have "writeRecordToFd os (Some nfd) kAdd l (meta_path m) (meta_file_number m) =
      (append_file os nfd (manifest_frame (meta_payload e)), Status_Ok)"
    using Cons.prems by (simp add: writeRecordToFd_def Let_def append_file_append manifest_frame_def meta_payload_def e)
  then show ?case using Cons.IH [of "append_file os nfd (manifest_frame (meta_payload e))"] Cons.prems
    by (simp add: e append_file_append)
qed simp

lemma snapshot_apply_all:
  assumes "plain_levels ls"
  shows "apply_all (map meta_payload (snapshot_metas ls)) (replicate 8 []) = Some ls"
proof -
  have "apply_all (map meta_payload es) ks = Some (fold (\<lambda>e. push_level (fst e) (snd e)) es ks)"
    if "\<forall>e\<in>set es. fst e < length ks \<and> short_path (meta_path (snd e)) \<and>
      snd e = file_meta (meta_path (snd e)) (meta_file_number (snd e))" "length ks \<le> 2 ^ 32" for es ks
    using that
  proof (induction es arbitrary: ks)
    case (Cons e es)
    then have "manifest_apply (meta_payload e) ks = Some (push_level (fst e) (snd e) ks)"
      using manifest_apply_payload(1) [of "meta_path (snd e)" "fst e" ks "meta_file_number (snd e)"]
      by (auto simp: meta_payload_def)
    with Cons show ?case by (simp add: push_level_def)
  qed simp
  moreover have "\<forall>e\<in>set (snapshot_metas ls). fst e < 8 \<and> short_path (meta_path (snd e)) \<and>
      snd e = file_meta (meta_path (snd e)) (meta_file_number (snd e))"
    using assms by (auto simp: plain_levels_def dest!: snapshot_metas_in)
  ultimately show ?thesis using assms snapshot_push_all [of ls] by (simp add: plain_levels_def)
qed

text \<open>Without faults \<open>rewriteSnapshot\<close> succeeds and leaves a synced MANIFEST of the levels.\<close>

lemma rewriteSnapshot_ok:
  assumes "os_wf os" "file_of os (mf_path m) \<noteq> None" "plain_levels (mf_levels m)"
  defines "mp \<equiv> mf_path m" and "m' \<equiv> m\<lparr>mf_fd := Some (mf_path m)\<rparr>"
  shows "\<exists>os'. Manifest_rewriteSnapshot os m = (os', m', Status_Ok) \<and> os_wf os' \<and> os_dirs os' = os_dirs os \<and>
    manifest_inv os' m' \<and> replays_to os' mp (mf_levels m) \<and>
    (\<forall>q. q \<notin> {mp, mp @ str ''.new'', mp @ str ''.bak''} \<longrightarrow> file_of os' q = file_of os q)"
proof -
  let ?neu = "mp @ str ''.new''" and ?bak = "mp @ str ''.bak''" and ?log = "snapshot_log (mf_levels m)"
  have faults: "os_faults os = []" using assms(1) by (simp add: os_wf_def)
  define osa where "osa = append_file (set_file os ?neu new_file) ?neu ?log"
  let ?f = "\<lparr>f_data = ?log, f_synced = length ?log\<rparr>"
  have a: "os_wf osa" "os_dirs osa = os_dirs os" "file_of osa ?neu = Some (?f\<lparr>f_synced := 0\<rparr>)" "\<And>q. q \<noteq> ?neu \<Longrightarrow> file_of osa q = file_of os q"
    using append_file_wf [OF os_wf_set_file [OF assms(1)]]
    by (simp_all add: osa_def append_file_of new_file_def)
  define osb where "osb = fst (sys_unlink (set_file osa ?neu ?f) ?bak)"
  have b: "os_wf osb" "os_dirs osb = os_dirs os" "file_of osb ?neu = Some ?f" "file_of osb mp = file_of os mp"
    "\<And>q. q \<noteq> ?neu \<Longrightarrow> q \<noteq> ?bak \<Longrightarrow> file_of osb q = file_of os q"
    using sys_unlink_wf [OF os_wf_set_file [OF a(1), of ?neu ?f], of ?bak] a(2-) unfolding osb_def by simp_all
  obtain g where g: "file_of osb mp = Some g" using assms(2) b(4) by (auto simp: mp_def)
  define osc where "osc = set_file (osb\<lparr>os_files := AList.delete mp (os_files osb)\<rparr>) ?bak g"
  define osd where "osd = set_file (osc\<lparr>os_files := AList.delete ?neu (os_files osc)\<rparr>) mp ?f"
  have fb: "os_faults osb = []" using b(1) by (simp add: os_wf_def)
  then have r1: "sys_rename osb mp ?bak = (osc, True)" using g by (simp add: sys_rename_def osc_def)
  have r2: "sys_rename osc ?neu mp = (osd, True)" using fb b(3) by (simp add: sys_rename_def osc_def osd_def)
  have d: "os_wf osd" "os_dirs osd = os_dirs os" "file_of osd mp = Some ?f"
    using os_wf_set_file [OF os_wf_delete] b(1,2) by (simp_all add: osd_def osc_def)
  have "sys_open_trunc os ?neu = (set_file os ?neu new_file, Some ?neu)" using faults by (simp add: sys_open_trunc_def)
  moreover have "write_metas (set_file os ?neu new_file) ?neu (snapshot_metas (mf_levels m)) = (osa, Status_Ok)"
    using write_metas_ok [of "set_file os ?neu new_file" ?neu] faults by (simp only: osa_def snapshot_log_def set_file_faults)
  moreover have "sys_fdatasync osa ?neu = (set_file osa ?neu ?f, True)" using a(1,3) by (simp add: sys_fdatasync_def os_wf_def)
  moreover have "sys_open_creat osd mp = (osd, Some mp)" using d(1,3) by (simp add: sys_open_creat_def os_wf_def)
  ultimately have "Manifest_rewriteSnapshot os m = (osd, m', Status_Ok)"
    using r1 r2 assms(3)
    by (simp add: Manifest_rewriteSnapshot_def mp_def [symmetric] Let_def osb_def [symmetric] m'_def plain_levels_def)
  moreover have "manifest_inv osd m'"
    using d(3) snapshot_payloads_ok [OF assms(3)] snapshot_apply_all [OF assms(3)]
    by (auto simp: manifest_inv_def m'_def mp_def snapshot_log_def intro!: exI [of _ "map meta_payload (snapshot_metas (mf_levels m))"])
  moreover have "replays_to osd mp (mf_levels m)" using d(3) snapshot_replay [OF assms(3)] by (simp add: replays_to_def)
  moreover have "\<forall>q. q \<notin> {mp, ?neu, ?bak} \<longrightarrow> file_of osd q = file_of os q" using b(5) by (simp add: osd_def osc_def)
  ultimately show ?thesis using d by blast
qed

lemma Manifest_open_intact:
  assumes "os_wf os" "intact os (dir @ str ''/MANIFEST'') ls" "file_of os (dir @ str ''/MANIFEST'' @ str ''.new'') = None"
  defines "mp \<equiv> dir @ str ''/MANIFEST''"
  shows "\<exists>os'. Manifest_open os (Manifest_new dir) = (os', \<lparr>mf_path = mp, mf_fd = Some mp, mf_levels = ls\<rparr>, Status_Ok) \<and>
    os_wf os' \<and> set (os_dirs os) \<subseteq> set (os_dirs os') \<and> (\<forall>q. file_of os' q = file_of os q)"
proof -
  let ?d = "os\<lparr>os_dirs := List.insert (dirname mp) (os_dirs os)\<rparr>"
  let ?r = "fst (sys_unlink ?d (mp @ str ''.new''))"
  have wf: "os_wf ?d" using assms(1) by (simp add: os_wf_def)
  note r = sys_unlink_wf [OF wf, of "mp @ str ''.new''"]
  obtain f where f: "file_of os mp = Some f" "manifest_replay_loop (f_data f) (replicate 8 []) = ls"
    using assms(2) by (auto simp: intact_def mp_def)
  have fr: "file_of ?r q = file_of os q" for q using r assms(3) by (simp add: mp_def)
  have "Manifest_open os (Manifest_new dir) = (?r, \<lparr>mf_path = mp, mf_fd = Some mp, mf_levels = ls\<rparr>, Status_Ok)"
    using assms(1) f r fr [of mp] wf
    by (simp add: Manifest_open_def Manifest_new_def mp_def [symmetric] sys_mkdir_def os_wf_def recoverActivePathUnlocked_def
        sys_exists_def sys_open_creat_def Manifest_replay_def content_of_def Let_def)
  then show ?thesis using r fr by auto
qed

section \<open>What a reboot finds\<close>

definition same_data :: "os \<Rightarrow> os \<Rightarrow> path \<Rightarrow> bool" where
  "same_data os os' q \<longleftrightarrow> map_option f_data (file_of os' q) = map_option f_data (file_of os q)"

text \<open>The table that a flush was building when the crash came.\<close>

definition unfinished_table :: "DBImpl \<Rightarrow> path" where
  "unfinished_table db = sst_path (db_dir db) 0 (v_next_file_number (db_version db))"

definition next_log :: "DBImpl \<Rightarrow> path" where
  "next_log db = makeWalPath (db_dir db) (v_next_file_number (db_version db))"

definition new_files :: "DBImpl \<Rightarrow> path set" where
  "new_files db = {unfinished_table db, unfinished_table db @ str ''.bloom'', next_log db}"

text \<open>
  The files when the crash comes between two system calls of a step: anything may be left of the
  table under construction and of its filter, a record of the MANIFEST or of a log may be written
  in part, and the next log may exist already. (A step whose last record is complete has the files
  of the next state.)
\<close>

definition interrupted :: "DBImpl \<Rightarrow> os \<Rightarrow> os \<Rightarrow> bool" where
  "interrupted db os os' \<longleftrightarrow>
     (file_of os' (next_log db) = None \<or> file_of os' (next_log db) = Some new_file \<and> numbers_left db) \<and>
     (\<forall>q. q \<notin> new_files db \<longrightarrow>
        (case file_of os q of None \<Rightarrow> file_of os' q = None
         | Some f \<Rightarrow> \<exists>x. file_of os' q = Some (f\<lparr>f_data := f_data f @ x\<rparr>) \<and>
             (x = [] \<or> q = db_dir db @ str ''/MANIFEST'' \<and> torn_frame manifest_frame manifest_ok x \<or>
              is_wal_path (db_dir db) q \<and> torn_frame wal_frame wal_ok x)))"

text \<open>The filters of the tables are taken to survive; the code never syncs them.\<close>

definition reboots :: "DBImpl \<Rightarrow> os \<Rightarrow> os \<Rightarrow> bool" where
  "reboots db os os' \<longleftrightarrow> os_wf os' \<and> (\<exists>os1. interrupted db os os1 \<and> crashed os1 os') \<and>
     (\<forall>p\<in>registered db. same_data os os' (p @ str ''.bloom''))"

lemma reboot_file:
  assumes "reboots db os os'" "q \<notin> new_files db"
  shows "file_of os q = None \<Longrightarrow> file_of os' q = None"
    "file_of os q = Some f \<Longrightarrow> \<exists>x n g. file_of os' q = Some g \<and> f_data g = take n (f_data f @ x) \<and> f_synced f \<le> n \<and>
       (x = [] \<or> q = db_dir db @ str ''/MANIFEST'' \<and> torn_frame manifest_frame manifest_ok x \<or>
        is_wal_path (db_dir db) q \<and> torn_frame wal_frame wal_ok x)"
proof -
  obtain os1 where o: "interrupted db os os1" "crashed os1 os'" using assms(1) by (auto simp: reboots_def)
  note i = o(1) [unfolded interrupted_def, THEN conjunct2, rule_format, OF assms(2)] and c = o(2) [unfolded crashed_def, rule_format, of q]
  show "file_of os' q = None" if "file_of os q = None" using i c that by simp
  assume "file_of os q = Some f"
  with i obtain x where x: "file_of os1 q = Some (f\<lparr>f_data := f_data f @ x\<rparr>)"
    "x = [] \<or> q = db_dir db @ str ''/MANIFEST'' \<and> torn_frame manifest_frame manifest_ok x \<or>
      is_wal_path (db_dir db) q \<and> torn_frame wal_frame wal_ok x"
    by auto
  with c show "\<exists>x n g. file_of os' q = Some g \<and> f_data g = take n (f_data f @ x) \<and> f_synced f \<le> n \<and>
      (x = [] \<or> q = db_dir db @ str ''/MANIFEST'' \<and> torn_frame manifest_frame manifest_ok x \<or>
       is_wal_path (db_dir db) q \<and> torn_frame wal_frame wal_ok x)"
    by (intro exI [of _ x]) auto
qed

lemma table_on_disk_data:
  assumes "table_on_disk lib os p es" "same_data os os' p" "same_data os os' (p @ str ''.bloom'')"
  shows "table_on_disk lib os' p es"
proof -
  let ?b = "p @ str ''.bloom''"
  have "sys_open_rdonly os' ?b = sys_open_rdonly os ?b" "content_of os' ?b = content_of os ?b"
    using assms(3) by (cases "file_of os ?b"; cases "file_of os' ?b"; simp add: same_data_def sys_open_rdonly_def content_of_def)+
  moreover have "sys_open_rdonly os ?b = None \<or> sys_open_rdonly os ?b = Some ?b" by (simp add: sys_open_rdonly_def split: option.split)
  ultimately have "BloomFilter_load os' ?b = BloomFilter_load os ?b" unfolding BloomFilter_load_def by auto
  then show ?thesis using assms(1,2) by (auto simp: table_on_disk_def same_data_def)
qed

lemma reboot_next_log:
  assumes "reboots db os os'" "file_of os' (next_log db) = Some f"
  shows "f_data f = [] \<and> numbers_left db"
proof -
  obtain os1 where o: "interrupted db os os1" "crashed os1 os'" using assms(1) by (auto simp: reboots_def)
  have n: "file_of os1 (next_log db) = None \<or> file_of os1 (next_log db) = Some new_file \<and> numbers_left db"
    using o(1) by (simp add: interrupted_def)
  with o(2) [unfolded crashed_def, rule_format, of "next_log db"] assms(2) show ?thesis
    by (cases "file_of os1 (next_log db)") (auto simp: new_file_def)
qed

text \<open>Nothing has to be lost.\<close>

lemma reboots_same:
  assumes "os_faults os = []" "file_of os (next_log db) = None"
  shows "reboots db os (os\<lparr>os_files := AList.clearjunk (os_files os)\<rparr>)"
proof -
  let ?os = "os\<lparr>os_files := AList.clearjunk (os_files os)\<rparr>"
  have f: "file_of ?os q = file_of os q" for q by (simp add: file_of_def map_of_clearjunk)
  have "interrupted db os os" using assms(2) by (auto simp: interrupted_def split: option.split intro!: exI [of _ "[]"])
  moreover have "crashed os ?os" unfolding crashed_def f
  proof
    fix p show "case file_of os p of None \<Rightarrow> file_of os p = None
      | Some f \<Rightarrow> \<exists>n\<ge>f_synced f. \<exists>g. file_of os p = Some g \<and> f_data g = take n (f_data f)"
    proof (cases "file_of os p")
      case (Some f)
      then show ?thesis by (simp, intro exI [of _ "f_synced f + length (f_data f)"]) simp
    qed simp
  qed
  ultimately show ?thesis using assms(1) by (auto simp: reboots_def os_wf_def same_data_def f distinct_clearjunk)
qed

lemma registered_old:
  assumes "files_ok lib os db" "p \<in> registered db"
  shows "p \<notin> new_files db"
proof -
  obtain l m where p: "p = sst_path (db_dir db) l m" "m < v_next_file_number (db_version db)"
    using registered_path [OF assms] by blast
  then have "p \<noteq> unfinished_table db" by (auto simp: unfinished_table_def sst_path_inject)
  then show ?thesis using p(1) by (simp add: new_files_def next_log_def unfinished_table_def)
qed

lemma reboot_tables:
  assumes "files_ok lib os db" "tables_durable os db" "reboots db os os'" "p \<in> registered db"
  shows "same_data os os' p" "same_data os os' (p @ str ''.bloom'')"
proof -
  obtain l m where p: "p = sst_path (db_dir db) l m" using registered_path [OF assms(1,4)] by blast
  then have ne: "p \<noteq> db_dir db @ str ''/MANIFEST''" "\<not> is_wal_path (db_dir db) p" using wal_path_other(1) by auto
  obtain f where f: "file_of os p = Some f" "length (f_data f) \<le> f_synced f"
    using assms(2,4) by (auto simp: tables_durable_def file_synced_def)
  with reboot_file(2) [OF assms(3) registered_old [OF assms(1,4)] f(1)] ne show "same_data os os' p"
    by (auto simp: same_data_def)
  show "same_data os os' (p @ str ''.bloom'')" using assms(3,4) by (simp add: reboots_def)
qed

text \<open>Every file in the directory was there before, or is new.\<close>

lemma reboot_known:
  assumes "inventory os db segs" "reboots db os os'" "file_of os' q \<noteq> None" "q \<notin> new_files db"
  shows "known_file db segs q"
  using assms(1) reboot_file(1) [OF assms(2,4)] assms(3) by (cases "file_of os q") (simp_all add: inventory_def)

lemma reboot_manifest:
  assumes "files_ok lib os db" "inventory os db segs" "reboots db os os'"
  defines "mp \<equiv> db_dir db @ str ''/MANIFEST''"
  shows "intact os' mp (v_levels (db_version db))" "file_of os' (mp @ str ''.new'') = None"
proof -
  obtain m where m: "mf_levels m = v_levels (db_version db)" "manifest_inv os m" "replays_to os (mf_path m) (mf_levels m)" "mf_path m = mp"
    using assms(1) by (auto simp: files_ok_def version_inv_def version_manifest_path_def mp_def)
  then obtain f ps where f: "file_of os mp = Some f" "f_data f = concat (map manifest_frame ps)" "list_all manifest_ok ps"
    "apply_all ps (replicate 8 []) = Some (v_levels (db_version db))" "length (f_data f) \<le> f_synced f"
    by (auto simp: manifest_inv_def replays_to_def)
  have u: "mp \<notin> new_files db" by (simp add: mp_def new_files_def next_log_def unfinished_table_def)
  have ne: "\<not> is_wal_path (db_dir db) mp" using wal_path_other(3) by (auto simp: mp_def)
  have nil: "torn_frame manifest_frame manifest_ok []" by (simp add: torn_frame_def)
  obtain x n g where g: "file_of os' mp = Some g" "f_data g = take n (f_data f @ x)" "f_synced f \<le> n" "torn_frame manifest_frame manifest_ok x"
    using reboot_file(2) [OF assms(3) u f(1)] ne nil by blast
  then have "manifest_parse (f_data g) = ps"
    using manifest_log.parse_cut [OF f(3) g(4), of "length ps" n] f(2,5) by auto
  then show "intact os' mp (v_levels (db_version db))"
    using g(1) apply_all_payloads [OF f(4)] by (simp add: intact_def manifest_replay_parse)
  have u: "mp @ str ''.new'' \<noteq> sst_path (db_dir db) l k" "mp @ str ''.new'' \<noteq> sst_path (db_dir db) l k @ str ''.bloom''" for l k
    by (simp_all add: mp_def sst_path_def level_dir_def str_def)
  have w: "mp @ str ''.new'' \<noteq> makeWalPath (db_dir db) k" for k by (simp add: mp_def makeWalPath_def str_def)
  have "mp @ str ''.new'' \<noteq> db_dir db @ str ''/MANIFEST''" "mp @ str ''.new'' \<noteq> db_dir db @ str ''/MANIFEST.bak''"
    by (simp_all add: mp_def makeWalPath_def str_def)
  moreover have "mp @ str ''.new'' \<noteq> p \<and> mp @ str ''.new'' \<noteq> p @ str ''.bloom''" if "p \<in> registered db" for p
    using registered_path [OF assms(1) that] u by blast
  ultimately have "\<not> known_file db segs (mp @ str ''.new'')"
    using w unfolding known_file_def seg_path_def by blast
  moreover have "mp @ str ''.new'' \<notin> new_files db" using u w by (simp add: new_files_def unfinished_table_def next_log_def)
  ultimately show "file_of os' (mp @ str ''.new'') = None"
    using reboot_known [OF assms(2,3)] by blast
qed

section \<open>Recovering the tables\<close>

text \<open>The second half of \<open>recover\<close>: a new memtable, the replay, and the log to continue with.\<close>

definition recover_logs :: "os \<Rightarrow> DBImpl \<Rightarrow> (os \<times> DBImpl \<times> Status) option" where
  "recover_logs os db =
     (let db = make_memtable db; wals = listWalFiles os (db_dir db)
      in case replay_wals os db wals of
           None \<Rightarrow> None
         | Some (os, db, rs) \<Rightarrow>
             if \<not> Status_ok rs then Some (os, db, rs)
             else if wals = [] then
               case Version_nextFileNumber (db_version db) of (n, v) \<Rightarrow> Some (openWal os (db\<lparr>db_version := v\<rparr>) n)
             else
               let cur = snd (last wals) in
               case WAL_new os cur of (os, wal) \<Rightarrow>
                 Some (os, db\<lparr>db_current_wal := cur, db_wal := Some wal, db_obsolete_wals := map snd (butlast wals)\<rparr>, Status_Ok))"

definition restored_number :: "levels \<Rightarrow> u64" where
  "restored_number ls = (if max_file_number ls \<ge> 1 then max_file_number ls + 1 else 1)"

lemma restored_number_bound:
  assumes "\<forall>meta\<in>set (concat ls). meta_file_number meta < n" "0 < n"
  shows "\<forall>meta\<in>set (concat ls). meta_file_number meta < restored_number ls" "restored_number ls \<le> n"
proof -
  have "fold (\<lambda>m no. if meta_file_number m > no then meta_file_number m else no) ms no < n"
    if "\<forall>meta\<in>set ms. meta_file_number meta < n" "no < n" for ms no
    using that by (induction ms arbitrary: no) auto
  from this [OF assms] have mx: "max_file_number ls < n" by (simp only: max_file_number_def)
  then have "max_file_number ls < - 1" by (rule less_le_trans) simp
  note succ = u64_less_succ [OF this]
  have "\<forall>meta\<in>set (concat ls). meta_file_number meta \<le> max_file_number ls"
    unfolding max_file_number_def using fold_max_number by blast
  then show "\<forall>meta\<in>set (concat ls). meta_file_number meta < restored_number ls"
    using succ by (fastforce simp: restored_number_def not_le intro: le_less_trans)
  show "restored_number ls \<le> n" using mx inc_le [OF assms(2)] by (auto simp: restored_number_def intro: inc_le)
qed

lemma sst_path_name: "sst_path dir l n = level_dir dir l @ 47 # to_digits (unat n) @ str ''.sst''"
  by (simp add: sst_path_def str_def)

lemma purge_removes_sst:
  assumes "os_wf os" "int l \<le> max_level (db_options db)" "level_dir (db_dir db) l \<in> set (os_dirs os)"
    "v_manifest (db_version db) = Some m" "sst_path (db_dir db) l n \<notin> meta_path ` set (concat (mf_levels m))"
  shows "file_of (purgeOrphanSSTables os db) (sst_path (db_dir db) l n) = None"
proof -
  let ?name = "to_digits (unat n) @ str ''.sst''"
  have "?name \<noteq> [] \<and> 47 \<notin> set ?name \<and> hd ?name \<noteq> 46"
  proof -
    have "to_digits (unat n) \<noteq> []" by (simp add: to_digits.simps [of "unat n"])
    then have "hd (to_digits (unat n)) \<noteq> 46" using to_digits_no_slash(2) [of "unat n"] by (metis list.set_sel(1))
    with to_digits_no_slash(1) [of "unat n"] \<open>to_digits (unat n) \<noteq> []\<close> show ?thesis by (simp add: str_def)
  qed
  moreover have "level_dir (db_dir db) l \<in> set (map (\<lambda>i. level_dir (db_dir db) (nat i)) [0..max_level (db_options db)])"
    using assms(2) by (auto intro!: image_eqI [of _ _ "int l"])
  ultimately show ?thesis
    using purge_dirs_removes [OF assms(1) _ assms(3), of _ ?name] assms(4,5) sst_is_sst [of "db_dir db" l n]
    by (simp add: purgeOrphanSSTables_def sst_path_name)
qed

text \<open>What opening the MANIFEST, purging and the new snapshot do to the other files.\<close>

definition manifest_names :: "path \<Rightarrow> path set" where
  "manifest_names dir = {dir @ str ''/MANIFEST'', (dir @ str ''/MANIFEST'') @ str ''.new'', (dir @ str ''/MANIFEST'') @ str ''.bak''}"

definition tables_kept :: "path \<Rightarrow> levels \<Rightarrow> os \<Rightarrow> os \<Rightarrow> bool" where
  "tables_kept dir ls os os' \<longleftrightarrow> (\<forall>q. q \<notin> manifest_names dir \<longrightarrow>
     (q \<in> meta_path ` set (concat ls) \<or> \<not> is_sst q \<longrightarrow> file_of os' q = file_of os q) \<and> (file_of os q = None \<longrightarrow> file_of os' q = None))"

lemma recover_tables:
  assumes "os_wf os" "intact os (db_dir db @ str ''/MANIFEST'') ls" "file_of os (db_dir db @ str ''/MANIFEST'' @ str ''.new'') = None"
    "plain_levels ls" "db_version db = Version_new"
  defines "mp \<equiv> db_dir db @ str ''/MANIFEST''"
  defines "m \<equiv> \<lparr>mf_path = mp, mf_fd = Some mp, mf_levels = ls\<rparr>"
  shows "\<exists>os'. DBImpl_recover os db =
      recover_logs os' (db\<lparr>db_version := \<lparr>v_levels = ls, v_next_file_number = restored_number ls, v_manifest = Some m\<rparr>\<rparr>) \<and>
    os_wf os' \<and> set (os_dirs os) \<subseteq> set (os_dirs os') \<and> manifest_inv os' m \<and> replays_to os' mp ls \<and>
    tables_kept (db_dir db) ls os os' \<and>
    (\<forall>l n. int l \<le> max_level (db_options db) \<and> level_dir (db_dir db) l \<in> set (os_dirs os) \<and> sst_path (db_dir db) l n \<notin> meta_path ` set (concat ls) \<longrightarrow>
       file_of os' (sst_path (db_dir db) l n) = None)"
proof -
  obtain os1 where o1: "Manifest_open os (Manifest_new (db_dir db)) = (os1, m, Status_Ok)" "os_wf os1" "set (os_dirs os) \<subseteq> set (os_dirs os1)"
    "\<And>q. file_of os1 q = file_of os q"
    using Manifest_open_intact [OF assms(1,2,3)] by (auto simp: m_def mp_def)
  let ?v = "\<lparr>v_levels = ls, v_next_file_number = restored_number ls, v_manifest = Some m\<rparr>"
  let ?db = "db\<lparr>db_version := ?v\<rparr>"
  define os2 where "os2 = purgeOrphanSSTables os1 ?db"
  note p = purge_dirs_ok [OF o1(2), of "meta_path ` set (concat ls)" "map (\<lambda>i. level_dir (db_dir db) (nat i)) [0..max_level (db_options db)]"]
  have o2: "os_wf os2" "os_dirs os2 = os_dirs os1" "\<And>q. q \<in> meta_path ` set (concat ls) \<or> \<not> is_sst q \<Longrightarrow> file_of os2 q = file_of os q"
    "\<And>q. file_of os q = None \<Longrightarrow> file_of os2 q = None"
    using p o1(4) by (auto simp: os2_def purgeOrphanSSTables_def m_def)
  have "\<not> is_sst mp" by (simp add: mp_def is_sst_def str_def)
  then have "file_of os2 mp = file_of os mp" by (simp add: o2(3))
  then have ex: "file_of os2 (mf_path m) \<noteq> None" using assms(2) by (auto simp: intact_def m_def mp_def)
  obtain os3 where o3: "Manifest_rewriteSnapshot os2 m = (os3, m, Status_Ok)" "os_wf os3" "os_dirs os3 = os_dirs os2" "manifest_inv os3 m"
    "replays_to os3 mp ls" "\<And>q. q \<notin> {mp, mp @ str ''.new'', mp @ str ''.bak''} \<Longrightarrow> file_of os3 q = file_of os2 q"
    using rewriteSnapshot_ok [OF o2(1) ex] assms(4) by (auto simp: m_def)
  have len: "length ls = 8" using assms(4) by (simp add: plain_levels_def)
  have v: "Version_restoreFrom (Version_setManifest (db_version db) m) (mf_levels m) = ?v"
    using len by (auto simp: assms(5) Version_restoreFrom_def Version_setManifest_def Version_new_def m_def restored_number_def Let_def)
  have sm: "Version_setManifest ?v m = ?v" by (simp add: Version_setManifest_def)
  have "DBImpl_recover os db = recover_logs os3 ?db"
    using o1(1) o3(1) by (simp add: DBImpl_recover_def recover_logs_def Let_def v sm os2_def [symmetric])
  moreover have "file_of os3 (sst_path (db_dir db) l n) = None"
    if "int l \<le> max_level (db_options db)" "level_dir (db_dir db) l \<in> set (os_dirs os)" "sst_path (db_dir db) l n \<notin> meta_path ` set (concat ls)" for l n
  proof -
    have "file_of os2 (sst_path (db_dir db) l n) = None"
      using purge_removes_sst [OF o1(2), of l ?db m n] that o1(3) by (auto simp: os2_def m_def)
    moreover have "sst_path (db_dir db) l n \<notin> {mp, mp @ str ''.new'', mp @ str ''.bak''}"
      by (simp add: mp_def sst_path_def level_dir_def str_def)
    ultimately show ?thesis by (simp add: o3(6))
  qed
  moreover have "tables_kept (db_dir db) ls os os3"
    unfolding tables_kept_def manifest_names_def using o2(3,4) o3(6) by (simp add: mp_def)
  ultimately show ?thesis using o1(3) o2(2) o3(2-5) by (intro exI [of _ os3]) simp
qed

section \<open>Recovering the logs\<close>

text \<open>The groups of each log that the crash left: all of them, and of the log in use the first \<open>j\<close>.\<close>

definition left_groups :: "log_seg list \<Rightarrow> nat \<Rightarrow> BatchOp list list list" where
  "left_groups segs j = map lg_groups (butlast segs) @ [take j (lg_groups (last segs))]"

lemma wal_parse_crash:
  assumes "seg_ok os dir g" "j \<le> length (lg_groups g)" "file_of os (seg_path dir g) = Some f" "length (seg_image (take j (lg_groups g))) \<le> n"
    "torn_frame wal_frame wal_ok x"
  shows "\<exists>i\<ge>j. i \<le> length (lg_groups g) \<and> wal_parse (take n (f_data f @ x)) = map ops_image (take i (lg_groups g))"
proof -
  let ?rs = "map ops_image (lg_groups g)"
  have "f_data f = concat (map wal_frame ?rs)" "list_all wal_ok ?rs"
    using assms(1,3) by (auto simp: seg_ok_def seg_image_def list_all_iff group_ok_def)
  with wal_log.parse_cut [OF _ assms(5), of ?rs j n] assms(2,4) show ?thesis by (auto simp: seg_image_def take_map)
qed

lemma reboot_logs:
  assumes "segs_ok os db segs" "durable os db k segs n" "reboots db os os'"
  shows "\<exists>j. j \<le> length (lg_groups (last segs)) \<and>
    n \<le> k + length (concat (map lg_writes (butlast segs))) + length (concat (take j (lg_groups (last segs)))) \<and>
    list_all2 (\<lambda>g gs. file_of os' (seg_path (db_dir db) g) \<noteq> None \<and> wal_parse (content_of os' (seg_path (db_dir db) g)) = map ops_image gs)
      segs (left_groups segs j)"
proof -
  let ?dir = "db_dir db"
  obtain bs g where segs: "segs = bs @ [g]" using assms(1) by (metis append_butlast_last_id segs_ok_def)
  have ok: "seg_ok os ?dir h" if "h \<in> set segs" for h using assms(1) that by (simp add: segs_ok_def)
  have log: "\<exists>x n f'. file_of os' (seg_path ?dir h) = Some f' \<and> f_data f' = take n (f_data f @ x) \<and> f_synced f \<le> n \<and> torn_frame wal_frame wal_ok x"
    if "file_of os (seg_path ?dir h) = Some f" "h \<in> set segs" for h f
  proof -
    have "lg_number h < v_next_file_number (db_version db)" using assms(1) that(2) by (simp add: segs_ok_def)
    then have "seg_path ?dir h \<notin> new_files db" "seg_path ?dir h \<noteq> ?dir @ str ''/MANIFEST''"
      by (auto simp: seg_path_def new_files_def unfinished_table_def next_log_def makeWalPath_inject)
    moreover have "torn_frame wal_frame wal_ok []" by (simp add: torn_frame_def)
    ultimately show ?thesis using reboot_file(2) [OF assms(3) _ that(1)] by blast
  qed
  have closed: "file_of os' (seg_path ?dir h) \<noteq> None \<and> wal_parse (content_of os' (seg_path ?dir h)) = map ops_image (lg_groups h)"
    if h: "h \<in> set bs" for h
  proof -
    obtain f where f: "file_of os (seg_path ?dir h) = Some f" "length (f_data f) \<le> f_synced f"
      using assms(1) h by (auto simp: segs_ok_def segs file_synced_def)
    obtain x n f' where x: "file_of os' (seg_path ?dir h) = Some f'" "f_data f' = take n (f_data f @ x)" "f_synced f \<le> n" "torn_frame wal_frame wal_ok x"
      using log [OF f(1)] h segs by auto
    have "length (seg_image (take (length (lg_groups h)) (lg_groups h))) \<le> n" using ok [of h] h segs f x(3) by (auto simp: seg_ok_def)
    from wal_parse_crash [OF ok le_refl f(1) this x(4)] h segs x(1,2) show ?thesis by (auto simp: content_of_def)
  qed
  obtain j f where j: "file_of os (seg_path ?dir g) = Some f" "j \<le> length (lg_groups g)" "length (seg_image (take j (lg_groups g))) \<le> f_synced f"
    "n \<le> k + length (concat (map lg_writes bs)) + length (concat (take j (lg_groups g)))"
    using assms(2) by (auto simp: durable_def segs)
  obtain x c f' where x: "file_of os' (seg_path ?dir g) = Some f'" "f_data f' = take c (f_data f @ x)" "f_synced f \<le> c" "torn_frame wal_frame wal_ok x"
    using log [OF j(1)] segs by auto
  obtain i where i: "i \<ge> j" "i \<le> length (lg_groups g)" "wal_parse (f_data f') = map ops_image (take i (lg_groups g))"
    using wal_parse_crash [OF ok j(2,1) order_trans [OF j(3) x(3)] x(4)] segs x(2) by auto
  have "length (concat (take j (lg_groups g))) \<le> length (concat (take i (lg_groups g)))"
    using take_add [of j "i - j" "lg_groups g"] i(1) by simp
  then have "n \<le> k + length (concat (map lg_writes bs)) + length (concat (take i (lg_groups g)))" using j(4) by simp
  moreover have "list_all2 (\<lambda>g gs. file_of os' (seg_path ?dir g) \<noteq> None \<and> wal_parse (content_of os' (seg_path ?dir g)) = map ops_image gs)
      segs (left_groups segs i)"
    using closed i(3) x(1) by (auto simp: left_groups_def segs list_all2_append list_all2_map2 list_all2_same content_of_def [of _ "seg_path ?dir g"])
  ultimately show ?thesis using i(2) by (intro exI [of _ i]) (simp add: segs)
qed

text \<open>What is left of the history is a prefix of it.\<close>

lemma left_history:
  assumes "segs_ok os db segs" "hist_segs lib os db hist k segs" "j \<le> length (lg_groups (last segs))"
  defines "m \<equiv> k + length (concat (map lg_writes (butlast segs))) + length (concat (take j (lg_groups (last segs))))"
  shows "concat (concat (left_groups segs j)) = map op_of (take (m - k) (drop k hist))" "m \<le> length hist" "k \<le> m"
    "list_all small_op (concat (concat (left_groups segs j)))"
proof -
  obtain bs g where segs: "segs = bs @ [g]" using assms(1) by (metis append_butlast_last_id segs_ok_def)
  have ok: "map op_of (lg_writes h) = concat (lg_groups h)" "list_all group_ok (lg_groups h)" if "h \<in> set segs" for h
    using assms(1) that by (simp_all add: segs_ok_def seg_ok_def)
  let ?p = "concat (take j (lg_groups g))"
  have "\<forall>h\<in>set bs. map op_of (lg_writes h) = concat (lg_groups h)" using ok(1) segs by simp
  then have b: "concat (concat (map lg_groups bs)) = map op_of (concat (map lg_writes bs))" by (induction bs) auto
  have d: "drop k hist = concat (map lg_writes bs) @ lg_writes g" "k \<le> length hist" using assms(2) by (simp_all add: hist_segs_def segs)
  have g: "concat (lg_groups g) = ?p @ concat (drop j (lg_groups g))" by (metis append_take_drop_id concat_append)
  then have p: "?p = map op_of (take (length ?p) (lg_writes g))" "length ?p \<le> length (lg_writes g)"
    using ok(1) [of g] by (simp_all add: segs take_map [symmetric]) (metis le_add1 length_append length_map)
  have m: "m - k = length (concat (map lg_writes bs)) + length ?p" by (simp add: m_def segs)
  show "concat (concat (left_groups segs j)) = map op_of (take (m - k) (drop k hist))"
    using b p(1) by (simp add: left_groups_def segs m d(1))
  have "length hist - k = length (concat (map lg_writes bs)) + length (lg_writes g)" by (metis d(1) length_append length_drop)
  then show "m \<le> length hist" using d(2) p(2) by (simp add: m_def segs)
  show "k \<le> m" by (simp add: m_def)
  have "list_all (list_all small_op) (lg_groups h)" if "h \<in> set segs" for h using ok(2) [OF that] by (auto simp: list_all_iff group_ok_def)
  then show "list_all small_op (concat (concat (left_groups segs j)))"
    by (fastforce simp: left_groups_def segs list_all_iff dest: in_set_takeD)
qed

definition seg_wals :: "path \<Rightarrow> log_seg list \<Rightarrow> (u64 \<times> path) list" where
  "seg_wals dir segs = map (\<lambda>g. (lg_number g, seg_path dir g)) segs"

lemma recover_logs_ok:
  assumes "os_wf os" "listWalFiles os (db_dir db) = seg_wals (db_dir db) segs" "segs \<noteq> []" "db_seq db = 0"
    "list_all2 (\<lambda>g gs. file_of os (seg_path (db_dir db) g) \<noteq> None \<and> wal_parse (content_of os (seg_path (db_dir db) g)) = map ops_image gs) segs gss"
    "list_all small_op (concat (concat gss))" "length (concat (concat gss)) \<le> 2 ^ 56"
  defines "ops \<equiv> concat (concat gss)" and "cur \<equiv> seg_path (db_dir db) (last segs)"
  shows "\<exists>mt. recover_logs os db = Some (os, (make_memtable db)\<lparr>db_version := bump_numbers (seg_wals (db_dir db) segs) (db_version db),
      db_memtable := Some (db_next_mem db, mt), db_seq := word_of_nat (length ops), db_current_wal := cur,
      db_wal := Some \<lparr>wal_path = cur, wal_fd = Some cur\<rparr>, db_obsolete_wals := map (seg_path (db_dir db)) (butlast segs)\<rparr>, Status_Ok) \<and>
    mem_history mt (ops_writes 0 ops)"
proof -
  let ?db = "make_memtable db" and ?wals = "seg_wals (db_dir db) segs"
  have f: "os_faults os = []" using assms(1) by (simp add: os_wf_def)
  obtain n rng where m: "db_memtable ?db = Some (db_next_mem db, MemTable_new n rng)" by (simp add: make_memtable_def)
  have q: "db_seq ?db = 0" "db_dir ?db = db_dir db" "db_version ?db = db_version db" using assms(4) by (simp_all add: make_memtable_def)
  have "seqs_increasing (ops_writes 0 ops)" by (rule ops_writes_increasing) (use assms(7) in \<open>simp add: ops_def\<close>)
  then obtain mt where mt: "MemTable_run (MemTable_new n rng) (ops_writes 0 ops) = Some mt" "mem_history mt (ops_writes 0 ops)"
    using mem_history_run [OF mem_history_new, of "ops_writes 0 ops"] by auto
  have "list_all2 (\<lambda>e gs. file_of os (snd e) \<noteq> None \<and> wal_parse (content_of os (snd e)) = map ops_image gs) ?wals gss"
    using assms(5) by (simp add: seg_wals_def list_all2_map1)
  from replay_wals_groups [OF f this assms(6) m] mt(1) have r: "replay_wals os ?db ?wals = Some (os, ?db\<lparr>db_version := bump_numbers ?wals (db_version db),
      db_memtable := Some (db_next_mem db, mt), db_seq := word_of_nat (length ops)\<rparr>, Status_Ok)"
    unfolding q by (simp add: ops_def)
  have "\<forall>g\<in>set segs. file_of os (seg_path (db_dir db) g) \<noteq> None" using assms(5) by (auto simp: list_all2_conv_all_nth in_set_conv_nth)
  then have "file_of os cur \<noteq> None" using assms(3) by (simp add: cur_def)
  then have w: "WAL_new os cur = (os, \<lparr>wal_path = cur, wal_fd = Some cur\<rparr>)" using f by (auto simp: WAL_new_def sys_open_creat_def)
  have l: "?wals \<noteq> []" "snd (last ?wals) = cur" "map snd (butlast ?wals) = map (seg_path (db_dir db)) (butlast segs)"
    using assms(3) by (simp_all add: seg_wals_def cur_def last_map map_butlast [symmetric] comp_def)
  show ?thesis using r w l mt(2) assms(2) q(2) by (intro exI [of _ mt]) (simp add: recover_logs_def Let_def)
qed

section \<open>The state after the recovery\<close>

lemma registered_concat: "length (v_levels (db_version db)) = 8 \<Longrightarrow> registered db = meta_path ` set (concat (v_levels (db_version db)))"
proof -
  assume len: "length (v_levels (db_version db)) = 8"
  have "set (concat (v_levels (db_version db))) = (\<Union>l<8. set (v_levels (db_version db) ! l))"
    unfolding set_concat set_conv_nth [of "v_levels _"] len by auto
  then show ?thesis by (auto simp: registered_union)
qed

lemma sst_not_manifest: "sst_path dir l n \<notin> manifest_names dir" "sst_path dir l n @ str ''.bloom'' \<notin> manifest_names dir"
  by (simp_all add: manifest_names_def sst_path_def level_dir_def str_def)

lemma wal_not_manifest: "dir @ 47 # str ''wal'' @ name \<notin> manifest_names dir"
  by (simp add: manifest_names_def str_def)

lemma bloom_not_sst: "\<not> is_sst (p @ str ''.bloom'')"
  by (simp add: is_sst_def str_def)

lemma tables_kept_old: "tables_kept dir ls os os' \<Longrightarrow> q \<notin> manifest_names dir \<Longrightarrow> file_of os' q \<noteq> None \<Longrightarrow> file_of os q \<noteq> None"
  unfolding tables_kept_def by (drule spec [of _ q]) (auto simp del: not_None_eq)

lemma tables_kept_same:
  "tables_kept dir ls os os' \<Longrightarrow> q \<notin> manifest_names dir \<Longrightarrow> q \<in> meta_path ` set (concat ls) \<or> \<not> is_sst q \<Longrightarrow> file_of os' q = file_of os q"
  unfolding tables_kept_def by (drule spec [of _ q]) (simp del: set_concat)

lemma recovered_table:
  assumes "files_ok lib os db" "tables_durable os db" "reboots db os os'"
    "tables_kept (db_dir db) (v_levels (db_version db)) os' os4" "p \<in> registered db" "table_on_disk lib os p es"
  shows "table_on_disk lib os4 p es"
proof -
  have "length (v_levels (db_version db)) = 8" using assms(1) by (auto simp: files_ok_def version_inv_def)
  then have live: "p \<in> meta_path ` set (concat (v_levels (db_version db)))" using assms(5) registered_concat by blast
  obtain l n where p: "p = sst_path (db_dir db) l n" using registered_path [OF assms(1,5)] by blast
  have "file_of os4 p = file_of os' p" "file_of os4 (p @ str ''.bloom'') = file_of os' (p @ str ''.bloom'')"
    using tables_kept_same [OF assms(4)] live sst_not_manifest [of "db_dir db" l n] bloom_not_sst [of p] unfolding p by blast+
  then show ?thesis using table_on_disk_data [OF assms(6), of os4] reboot_tables [OF assms(1-3,5)] by (simp add: same_data_def)
qed

lemma recovered_files:
  assumes "files_ok lib os db" "tables_durable os db" "inventory os db segs" "reboots db os os'"
    "tables_kept (db_dir db) (v_levels (db_version db)) os' os4" "os_wf os4" "manifest_inv os4 m" "replays_to os4 (mf_path m) (mf_levels m)"
    "\<forall>n. sst_path (db_dir db) 0 n \<notin> registered db \<longrightarrow> file_of os4 (sst_path (db_dir db) 0 n) = None"
    "mf_path m = db_dir db @ str ''/MANIFEST''" "mf_levels m = v_levels (db_version db)"
    "db_dir db' = db_dir db" "db_version db' = \<lparr>v_levels = v_levels (db_version db), v_next_file_number = n, v_manifest = Some m\<rparr>"
    "\<forall>meta\<in>set (concat (v_levels (db_version db))). meta_file_number meta < n"
    "db_cache db' = None \<or> db_cache db' = Some (BlockCache_new c)"
  shows "files_ok lib os4 db'"
proof -
  let ?dir = "db_dir db" and ?ls = "v_levels (db_version db)"
  have f: "codec_ok lib" "dir_ok ?dir" "length ?ls = 8" using assms(1) by (auto simp: files_ok_def version_inv_def)
  have tab: "\<exists>k es. meta_path meta = sst_path ?dir l k \<and> k < n \<and> table_on_disk lib os4 (meta_path meta) es \<and> sorted_entries es"
    if l: "l < 8" "meta \<in> set (?ls ! l)" for l meta
  proof -
    obtain k es where k: "meta_path meta = sst_path ?dir l k" "table_on_disk lib os (meta_path meta) es" "sorted_entries es"
      using assms(1) l unfolding files_ok_def by blast
    have "meta \<in> set (concat ?ls)" using l f(3) by auto
    then have "meta_file_number meta < n" using assms(14) by blast
    moreover have "number_of_path (meta_path meta) = Some (meta_file_number meta)" using assms(2) l by (simp add: tables_durable_def)
    then have "meta_file_number meta = k" using k(1) by (simp add: number_of_sst)
    moreover have "meta_path meta \<in> registered db" using l by (auto simp: registered_def)
    ultimately show ?thesis using recovered_table [OF assms(1,2,4,5) _ k(2)] k by blast
  qed
  have free: "file_of os4 (sst_path ?dir l k) = None" if "n \<le> k" for l k
  proof (rule ccontr)
    assume x: "file_of os4 (sst_path ?dir l k) \<noteq> None"
    have nr: "sst_path ?dir l k \<notin> registered db"
    proof
      assume "sst_path ?dir l k \<in> registered db"
      then obtain meta l' where "l' < 8" "meta \<in> set (?ls ! l')" "meta_path meta = sst_path ?dir l k" by (auto simp: registered_def)
      with tab [of l' meta] that show False by (auto simp: sst_path_inject)
    qed
    then have "l \<noteq> 0" using x assms(9) by (cases "l = 0") simp_all
    moreover have "file_of os' (sst_path ?dir l k) \<noteq> None" using tables_kept_old [OF assms(5) sst_not_manifest(1) x] .
    ultimately have "known_file db segs (sst_path ?dir l k)"
      using reboot_known [OF assms(3,4)] by (auto simp: new_files_def unfinished_table_def next_log_def sst_path_inject)
    moreover have "sst_path ?dir l k \<noteq> ?dir @ str ''/MANIFEST.bak''" by (simp add: sst_path_def level_dir_def str_def)
    moreover have "sst_path ?dir l k \<noteq> p @ str ''.bloom''" if "p \<in> registered db" for p
      using registered_path [OF assms(1) that] by auto
    ultimately show False using nr by (auto simp: known_file_def seg_path_def)
  qed
  have "version_inv os4 (db_version db')" using assms(7,8,11,13) f(3) by (simp add: version_inv_def)
  moreover have "cache_coherent lib os4 (db_cache db')" using assms(15) fresh_cache by auto
  moreover have "version_manifest_path (db_version db') = ?dir @ str ''/MANIFEST''" using assms(10,13) by (simp add: version_manifest_path_def)
  ultimately show ?thesis using f(1,2) assms(6,12,13) tab free by (simp add: files_ok_def os_wf_def)
qed

text \<open>The logs that are found: those of the segments, and the next one if it exists.\<close>

definition found_segs :: "DBImpl \<Rightarrow> os \<Rightarrow> log_seg list \<Rightarrow> log_seg list" where
  "found_segs db os segs = segs @ (if file_of os (next_log db) = None then [] else [new_seg (v_next_file_number (db_version db))])"

lemma found_segs_ok:
  assumes "segs_ok os db segs" "reboots db os os'"
  defines "found \<equiv> found_segs db os' segs"
  shows "found \<noteq> []" "sorted_wrt (<) (map lg_number found)" "\<exists>n\<ge>v_next_file_number (db_version db). \<forall>g\<in>set found. lg_number g < n"
proof -
  let ?n = "v_next_file_number (db_version db)"
  have s: "segs \<noteq> []" "sorted_wrt (<) (map lg_number segs)" "\<forall>g\<in>set segs. lg_number g < ?n" using assms(1) by (simp_all add: segs_ok_def)
  show "found \<noteq> []" "sorted_wrt (<) (map lg_number found)" using s by (auto simp: found_def found_segs_def sorted_wrt_append)
  show "\<exists>n\<ge>?n. \<forall>g\<in>set found. lg_number g < n"
  proof (cases "file_of os' (next_log db)")
    case None
    then show ?thesis using s by (intro exI [of _ ?n]) (simp add: found_def found_segs_def)
  next
    case (Some f)
    then have "?n < ?n + 1" using reboot_next_log [OF assms(2)] next_number by blast
    then show ?thesis using s by (intro exI [of _ "?n + 1"]) (auto simp: found_def found_segs_def intro: less_trans)
  qed
qed

lemma recovered_wal_files:
  assumes "files_ok lib os db" "inventory os db segs" "reboots db os os'" "tables_kept (db_dir db) ls os' os4"
    "file_of os4 (db_dir db @ 47 # str ''wal'' @ name) \<noteq> None"
  shows "db_dir db @ 47 # str ''wal'' @ name \<in> seg_path (db_dir db) ` set (found_segs db os' segs)"
proof (cases "db_dir db @ 47 # str ''wal'' @ name = next_log db")
  case True
  then show ?thesis using tables_kept_old [OF assms(4) wal_not_manifest assms(5)] by (auto simp: found_segs_def next_log_def)
next
  case False
  let ?q = "db_dir db @ 47 # str ''wal'' @ name"
  have u: "?q \<noteq> sst_path (db_dir db) l k" "?q \<noteq> sst_path (db_dir db) l k @ str ''.bloom''" for l k
    by (simp_all add: sst_path_def level_dir_def str_def)
  have "file_of os' ?q \<noteq> None" using tables_kept_old [OF assms(4) wal_not_manifest assms(5)] .
  then have "known_file db segs ?q" using reboot_known [OF assms(2,3)] u False unfolding new_files_def unfinished_table_def by blast
  moreover have "?q \<noteq> db_dir db @ str ''/MANIFEST''" "?q \<noteq> db_dir db @ str ''/MANIFEST.bak''" by (simp_all add: str_def)
  moreover have "?q \<noteq> p \<and> ?q \<noteq> p @ str ''.bloom''" if "p \<in> registered db" for p using registered_path [OF assms(1) that] u by blast
  ultimately have "?q \<in> seg_path (db_dir db) ` set segs" unfolding known_file_def by blast
  then show ?thesis by (auto simp: found_segs_def)
qed

lemma kept_log: "tables_kept dir ls os os' \<Longrightarrow> file_of os' (seg_path dir g) = file_of os (seg_path dir g)"
proof -
  assume k: "tables_kept dir ls os os'"
  have "seg_path dir g = dir @ 47 # str ''wal'' @ 45 # to_digits (unat (lg_number g)) @ str ''.log''"
    by (simp add: seg_path_def makeWalPath_def str_def)
  then have "seg_path dir g \<notin> manifest_names dir" using wal_not_manifest by metis
  moreover have "\<not> is_sst (seg_path dir g)" by (simp add: seg_path_def is_sst_wal)
  ultimately show ?thesis using tables_kept_same [OF k] by blast
qed

lemma DBImpl_new_fields:
  assumes "DBImpl_new os opts rngs = (os', db)" "open_ok opts dir" "os_wf os"
  shows "os_wf os'" "\<And>q. file_of os' q = file_of os q" "dir \<in> set (os_dirs os')" "0 \<le> max_level opts \<Longrightarrow> level_dir dir 0 \<in> set (os_dirs os')"
    "db_dir db = dir" "db_version db = Version_new" "db_immutables db = []" "db_seq db = 0" "db_flush_queue db = []" "db_options db = opts"
    "db_cache db = None \<or> db_cache db = Some (BlockCache_new (word_of_nat (lru_cache_capacity opts)))"
proof -
  let ?ds = "dir # map (\<lambda>i. level_dir dir (nat i)) [0..max_level opts]"
  have f: "os_faults os = []" using assms(3) by (simp add: os_wf_def)
  note m = make_dirs_files [OF f, of ?ds] make_dirs_dirs [OF f, of ?ds]
  have d: "os' = make_dirs os ?ds" using assms(1,2) by (auto simp: DBImpl_new_def open_ok_def Let_def simp del: make_dirs.simps split: if_splits)
  show "os_wf os'" "\<And>q. file_of os' q = file_of os q" "dir \<in> set (os_dirs os')" using m assms(3) by (simp_all add: d os_wf_def file_of_def del: make_dirs.simps)
  show "level_dir dir 0 \<in> set (os_dirs os')" if "0 \<le> max_level opts"
    using m that by (auto simp: d simp del: make_dirs.simps intro!: image_eqI [of _ _ 0])
  show "db_dir db = dir" "db_version db = Version_new" "db_immutables db = []" "db_seq db = 0" "db_flush_queue db = []" "db_options db = opts"
    "db_cache db = None \<or> db_cache db = Some (BlockCache_new (word_of_nat (lru_cache_capacity opts)))"
    using assms(1,2) by (auto simp: DBImpl_new_def open_ok_def Let_def simp del: make_dirs.simps split: if_splits)
qed

text \<open>The history of the recovered database: the writes in tables, and those replayed, numbered anew.\<close>

definition recovered_history :: "write_op list \<Rightarrow> nat \<Rightarrow> nat \<Rightarrow> write_op list" where
  "recovered_history hist k m = take k hist @ ops_writes 0 (map op_of (take (m - k) (drop k hist)))"

lemma recovered_wals_ok:
  assumes "segs \<noteq> []" "sorted_wrt (<) (map lg_number segs)" "db_dir db' = dir" "db_wal db' = Some \<lparr>wal_path = seg_path dir (last segs), wal_fd = Some (seg_path dir (last segs))\<rparr>"
    "db_current_wal db' = seg_path dir (last segs)" "db_obsolete_wals db' = map (seg_path dir) (butlast segs)" "db_flush_queue db' = []"
    "file_of os' (seg_path dir (last segs)) \<noteq> None" "\<forall>g\<in>set segs. lg_number g < v_next_file_number (db_version db')"
  shows "wals_ok os' db' None"
proof -
  obtain bs g where segs: "segs = bs @ [g]" using assms(1) by (metis append_butlast_last_id)
  have "lg_number g \<notin> lg_number ` set bs" using assms(2) by (auto simp: segs sorted_wrt_append)
  then have "seg_path dir g \<notin> seg_path dir ` set bs" by (simp add: image_iff seg_path_def makeWalPath_inject)
  moreover have "\<forall>h\<in>set segs. wal_below dir (v_next_file_number (db_version db')) (seg_path dir h)"
    using assms(9) by (auto simp: wal_below_def seg_path_def)
  ultimately show ?thesis using assms(3-8)
    by (auto simp: wals_ok_def old_wals_def flush_wals_def segs simp del: not_None_eq)
qed

lemma recovered_layers:
  assumes "mem_history mt (ops_writes 0 ops)" "length ops \<le> 2 ^ 56" "db_memtable db = Some (i, mt)" "i < db_next_mem db"
    "db_immutables db = []" "db_flush_queue db = []" "db_seq db = word_of_nat (length ops)"
  shows "layers_ok db None [] (ops_writes 0 ops)"
proof -
  have "unat (word_of_nat (length ops) :: u64) = length ops" using unat_plus_small [of 0 "length ops"] assms(2) by simp
  then have "w_seq w \<le> db_seq db" if "w \<in> set (ops_writes 0 ops)" for w
    using ops_writes_increasing(2) [of 0 ops] assms(2,7) that by (auto simp: word_le_nat_alt)
  then show ?thesis using assms by (simp add: layers_ok_def queue_ok_def pending_def mem_history_def)
qed

section \<open>Recovery\<close>

lemma metas_below:
  assumes "files_ok lib os db" "tables_durable os db"
  shows "\<forall>meta\<in>set (concat (v_levels (db_version db))). meta_file_number meta < v_next_file_number (db_version db)"
proof
  fix meta assume m: "meta \<in> set (concat (v_levels (db_version db)))"
  have "length (v_levels (db_version db)) = 8" using assms(2) by (simp add: tables_durable_def plain_levels_def)
  with m obtain l where l: "l < 8" "meta \<in> set (v_levels (db_version db) ! l)" by (auto simp: in_set_conv_nth [of _ "v_levels _"])
  then obtain k where "meta_path meta = sst_path (db_dir db) l k" "k < v_next_file_number (db_version db)" using assms(1) unfolding files_ok_def by blast
  moreover have "number_of_path (meta_path meta) = Some (meta_file_number meta)" using assms(2) l by (simp add: tables_durable_def)
  ultimately show "meta_file_number meta < v_next_file_number (db_version db)" by (simp add: number_of_sst)
qed

definition manifest_of :: "path \<Rightarrow> levels \<Rightarrow> Manifest" where
  "manifest_of dir ls = \<lparr>mf_path = dir @ str ''/MANIFEST'', mf_fd = Some (dir @ str ''/MANIFEST''), mf_levels = ls\<rparr>"

definition restored :: "DBImpl \<Rightarrow> levels \<Rightarrow> DBImpl" where
  "restored db ls = db\<lparr>db_version := \<lparr>v_levels = ls, v_next_file_number = restored_number ls, v_manifest = Some (manifest_of (db_dir db) ls)\<rparr>\<rparr>"

lemma reboot_recover_tables:
  assumes "files_ok lib os db" "tables_durable os db" "inventory os db segs" "reboots db os os'"
    "open_ok opts (db_dir db)" "0 \<le> max_level opts" "DBImpl_new os' opts rngs = (os0, db0)"
  defines "ls \<equiv> v_levels (db_version db)"
  shows "\<exists>os4. DBImpl_recover os0 db0 = recover_logs os4 (restored db0 ls) \<and> os_wf os4 \<and> db_dir db \<in> set (os_dirs os4) \<and>
    manifest_inv os4 (manifest_of (db_dir db) ls) \<and> replays_to os4 (db_dir db @ str ''/MANIFEST'') ls \<and> tables_kept (db_dir db) ls os' os4 \<and>
    (\<forall>n. sst_path (db_dir db) 0 n \<notin> registered db \<longrightarrow> file_of os4 (sst_path (db_dir db) 0 n) = None)"
proof -
  have wf: "os_wf os'" using assms(4) by (simp add: reboots_def)
  note n0 = DBImpl_new_fields [OF assms(7,5) wf]
  have len: "length ls = 8" and plain: "plain_levels ls" using assms(2) by (simp_all add: ls_def tables_durable_def plain_levels_def)
  have "intact os0 (db_dir db0 @ str ''/MANIFEST'') ls" "file_of os0 (db_dir db0 @ str ''/MANIFEST'' @ str ''.new'') = None"
    using reboot_manifest [OF assms(1,3,4)] n0(2,5) by (simp_all add: intact_def ls_def)
  from recover_tables [OF n0(1) this plain n0(6)] obtain os4 where
    "DBImpl_recover os0 db0 = recover_logs os4 (restored db0 ls)" "os_wf os4" "set (os_dirs os0) \<subseteq> set (os_dirs os4)"
    "manifest_inv os4 (manifest_of (db_dir db) ls)" "replays_to os4 (db_dir db @ str ''/MANIFEST'') ls" "tables_kept (db_dir db) ls os0 os4"
    "\<forall>n. sst_path (db_dir db) 0 n \<notin> registered db \<longrightarrow> file_of os4 (sst_path (db_dir db) 0 n) = None"
    using n0(4,5,10) assms(6) registered_concat [OF len [unfolded ls_def]] by (auto simp: manifest_of_def restored_def ls_def)
  then show ?thesis using n0(2,3) by (intro exI [of _ os4]) (auto simp: tables_kept_def)
qed

text \<open>The database that \<open>recover_logs\<close> returns.\<close>

definition reopened :: "DBImpl \<Rightarrow> log_seg list \<Rightarrow> MemTable \<Rightarrow> nat \<Rightarrow> DBImpl" where
  "reopened db segs mt n =
     (let cur = seg_path (db_dir db) (last segs) in
      (make_memtable db)\<lparr>db_version := bump_numbers (seg_wals (db_dir db) segs) (db_version db),
        db_memtable := Some (db_next_mem db, mt), db_seq := word_of_nat n, db_current_wal := cur,
        db_wal := Some \<lparr>wal_path = cur, wal_fd = Some cur\<rparr>, db_obsolete_wals := map (seg_path (db_dir db)) (butlast segs)\<rparr>)"

lemma reboot_recover_logs:
  assumes "logs_ok lib s k segs n" "files_ok lib (s_os s) (s_db s)" "reboots (s_db s) (s_os s) os'" "length (s_hist s) \<le> 2 ^ 56"
    "os_wf os4" "db_dir (s_db s) \<in> set (os_dirs os4)" "tables_kept (db_dir (s_db s)) ls os' os4" "db_dir db1 = db_dir (s_db s)" "db_seq db1 = 0"
  defines "found \<equiv> found_segs (s_db s) os' segs"
  shows "\<exists>m mt. k \<le> m \<and> n \<le> m \<and> m \<le> length (s_hist s) \<and> recover_logs os4 db1 = Some (os4, reopened db1 found mt (m - k), Status_Ok) \<and>
    mem_history mt (ops_writes 0 (map op_of (take (m - k) (drop k (s_hist s))))) \<and>
    file_of os4 (seg_path (db_dir (s_db s)) (last found)) \<noteq> None"
proof -
  let ?db = "s_db s" and ?dir = "db_dir (s_db s)"
  let ?P = "\<lambda>os g gs. file_of os (seg_path ?dir g) \<noteq> None \<and> wal_parse (content_of os (seg_path ?dir g)) = map ops_image gs"
  have l: "inventory (s_os s) ?db segs" "segs_ok (s_os s) ?db segs" "durable (s_os s) ?db k segs n" "hist_segs lib (s_os s) ?db (s_hist s) k segs"
    using assms(1) by (simp_all add: logs_ok_def)
  obtain j where j: "j \<le> length (lg_groups (last segs))"
    "n \<le> k + length (concat (map lg_writes (butlast segs))) + length (concat (take j (lg_groups (last segs))))"
    "list_all2 (?P os') segs (left_groups segs j)"
    using reboot_logs [OF l(2,3) assms(3)] by blast
  define gss where "gss = left_groups segs j @ (if file_of os' (next_log ?db) = None then [] else [[]])"
  have "?P os' (new_seg (v_next_file_number (db_version ?db))) []" if "file_of os' (next_log ?db) \<noteq> None"
    using that reboot_next_log [OF assms(3)] by (auto simp: next_log_def content_of_def)
  then have "list_all2 (?P os') found gss" using j(3) by (simp add: found_def found_segs_def gss_def list_all2_appendI del: not_None_eq)
  then have left: "list_all2 (?P os4) found gss" by (simp add: content_of_def kept_log [OF assms(7)])
  define m where "m = k + length (concat (map lg_writes (butlast segs))) + length (concat (take j (lg_groups (last segs))))"
  note h = left_history [OF l(2,4) j(1), folded m_def]
  have gss: "concat (concat gss) = concat (concat (left_groups segs j))" by (simp add: gss_def)
  have ex: "\<forall>g\<in>set found. file_of os4 (seg_path ?dir g) \<noteq> None" using left by (auto simp: list_all2_conv_all_nth in_set_conv_nth)
  note fs = found_segs_ok [OF l(2) assms(3), folded found_def]
  have w: "listWalFiles os4 ?dir = seg_wals ?dir found"
    unfolding seg_wals_def
    by (rule listWalFiles_segs [OF assms(5,6) fs(2) _ ex]) (unfold found_def, rule recovered_wal_files [OF assms(2) l(1) assms(3,7)])
  let ?ops = "map op_of (take (m - k) (drop k (s_hist s)))"
  have len: "length ?ops = m - k" "length ?ops \<le> 2 ^ 56" using h(2) assms(4) by simp_all
  obtain mt where "recover_logs os4 db1 = Some (os4, reopened db1 found mt (m - k), Status_Ok)" "mem_history mt (ops_writes 0 ?ops)"
    using recover_logs_ok [of os4 db1 found gss] assms(5,8,9) w fs(1) left h(1,4) len by (auto simp: reopened_def Let_def gss)
  then show ?thesis using h(2,3) j(2) ex fs(1) by (intro exI [of _ m] exI [of _ mt]) (simp add: m_def)
qed

theorem recover_crash:
  assumes "logs_ok lib s k segs n" "sys_inv lib s" "reboots (s_db s) (s_os s) os'" "open_ok opts (db_dir (s_db s))" "0 \<le> max_level opts"
    "length (s_hist s) \<le> 2 ^ 56"
  shows "\<exists>os'' db m. DBImpl_open os' opts rngs = Some (os'', Some db, Status_Ok) \<and> k \<le> m \<and> n \<le> m \<and> m \<le> length (s_hist s) \<and>
    sys_inv lib \<lparr>s_os = os'', s_db = db, s_hist = recovered_history (s_hist s) k m, s_flush = None\<rparr>"
proof -
  let ?db = "s_db s" and ?dir = "db_dir (s_db s)" and ?ls = "v_levels (db_version (s_db s))"
  define found where "found = found_segs ?db os' segs"
  have files: "files_ok lib (s_os s) ?db" using assms(2) by (auto elim: sys_invE)
  have l: "inventory (s_os s) ?db segs" "tables_durable (s_os s) ?db" "segs_ok (s_os s) ?db segs" "\<forall>w\<in>set (take k (s_hist s)). in_table lib (s_os s) ?db w"
    using assms(1) by (simp_all add: logs_ok_def hist_segs_def)
  obtain os0 db0 where new: "DBImpl_new os' opts rngs = (os0, db0)" by fastforce
  have "os_wf os'" using assms(3) by (simp add: reboots_def)
  note n0 = DBImpl_new_fields [OF new assms(4) this]
  obtain os4 where r: "DBImpl_recover os0 db0 = recover_logs os4 (restored db0 ?ls)"
    and o4: "os_wf os4" "?dir \<in> set (os_dirs os4)" "manifest_inv os4 (manifest_of ?dir ?ls)" "replays_to os4 (?dir @ str ''/MANIFEST'') ?ls"
      "tables_kept ?dir ?ls os' os4" "\<forall>n. sst_path ?dir 0 n \<notin> registered ?db \<longrightarrow> file_of os4 (sst_path ?dir 0 n) = None"
    using reboot_recover_tables [OF files l(2,1) assms(3,4,5) new] by blast
  have d: "db_dir (restored db0 ?ls) = ?dir" "db_seq (restored db0 ?ls) = 0" using n0(5,8) by (simp_all add: restored_def)
  obtain m mt where m: "k \<le> m" "n \<le> m" "m \<le> length (s_hist s)"
    and rl: "recover_logs os4 (restored db0 ?ls) = Some (os4, reopened (restored db0 ?ls) found mt (m - k), Status_Ok)"
    and mt: "mem_history mt (ops_writes 0 (map op_of (take (m - k) (drop k (s_hist s)))))" and cur: "file_of os4 (seg_path ?dir (last found)) \<noteq> None"
    using reboot_recover_logs [OF assms(1) files assms(3,6) o4(1,2,5) d, folded found_def] by blast
  let ?ops = "map op_of (take (m - k) (drop k (s_hist s)))"
  define db where "db = (reopened (restored db0 ?ls) found mt (m - k))\<lparr>db_compaction :=
    Some (CompactionManager_start (CompactionManager_new ?dir (block_size opts) (max_level opts) (level0_compaction_trigger opts)))\<rparr>"
  have run: "DBImpl_open os' opts rngs = Some (os4, Some db, Status_Ok)"
    using new r rl n0(5) by (simp add: DBImpl_open_def db_def reopened_def restored_def make_memtable_def Let_def)
  have next0: "0 < v_next_file_number (db_version ?db)" using l(3) by (cases segs) (auto simp: segs_ok_def intro: le_less_trans [OF word_zero_le])
  note nb = restored_number_bound [OF metas_below [OF files l(2)] next0]
  note fs = found_segs_ok [OF l(3) assms(3), folded found_def]
  then obtain bound where bound: "v_next_file_number (db_version ?db) \<le> bound" "\<forall>g\<in>set found. lg_number g < bound" by blast
  obtain nn where nn: "db_version db = \<lparr>v_levels = ?ls, v_next_file_number = nn, v_manifest = Some (manifest_of ?dir ?ls)\<rparr>"
    "restored_number ?ls \<le> nn" "\<forall>g\<in>set found. lg_number g < nn"
    using bump_numbers_next [of "seg_wals ?dir found" bound "db_version (restored db0 ?ls)"] order_trans [OF nb(2) bound(1)] bound(2) n0(5)
    by (auto simp: db_def reopened_def restored_def seg_wals_def Let_def)
  have fd: "db_dir db = ?dir" "db_cache db = db_cache db0" "db_memtable db = Some (db_next_mem db0, mt)" "db_next_mem db = db_next_mem db0 + 1"
    "db_immutables db = []" "db_flush_queue db = []" "db_seq db = word_of_nat (m - k)" "db_current_wal db = seg_path ?dir (last found)"
    "db_wal db = Some \<lparr>wal_path = seg_path ?dir (last found), wal_fd = Some (seg_path ?dir (last found))\<rparr>"
    "db_obsolete_wals db = map (seg_path ?dir) (butlast found)"
    using n0(5,7,9) by (simp_all add: db_def reopened_def restored_def make_memtable_def Let_def)
  have "files_ok lib os4 db"
    by (rule recovered_files [OF files l(2,1) assms(3) o4(5,1,3) _ o4(6) _ _ fd(1) nn(1)])
      (use o4(4) n0(11) nb(1) nn(2) fd(2) in \<open>auto simp: manifest_of_def intro: less_le_trans\<close>)
  moreover have "wals_ok os4 db None" by (rule recovered_wals_ok [OF fs(1,2) fd(1,9,8,10,6) cur]) (simp add: nn)
  moreover have "layers_ok db None [] (ops_writes 0 ?ops)"
    by (rule recovered_layers [OF mt _ fd(3) _ fd(5,6)]) (use m assms(6) fd(4,7) in simp_all)
  moreover have "in_table lib os4 db w" if "w \<in> set (take k (s_hist s))" for w
    using l(4) that recovered_table [OF files l(2) assms(3) o4(5)] by (fastforce simp: in_table_def registered_def nn(1))
  ultimately have "sys_ok lib \<lparr>s_os = os4, s_db = db, s_hist = recovered_history (s_hist s) k m, s_flush = None\<rparr> [] (ops_writes 0 ?ops)"
    by (auto simp: sys_ok_def flush_ok_def recovered_history_def)
  then show ?thesis using run m by (auto simp: sys_inv_def)
qed

section \<open>Sessions\<close>

text \<open>The counter numbers the writes of the history, and the directory stays the same.\<close>

definition session_ok :: "path \<Rightarrow> db_sys \<Rightarrow> bool" where
  "session_ok dir s \<longleftrightarrow> db_dir (s_db s) = dir \<and> unat (db_seq (s_db s)) = length (s_hist s) \<and> length (s_hist s) \<le> 2 ^ 56"

lemma maybeFlush_fields:
  "maybeFlush os db = (os', db') \<Longrightarrow> db_dir db' = db_dir db \<and> db_seq db' = db_seq db \<and> db_compaction db' = db_compaction db \<and> db_options db' = db_options db"
  by (auto simp: maybeFlush_def rotateWal_def Version_nextFileNumber_def make_memtable_def Let_def split: option.splits prod.splits if_splits)

lemma write_commit_fields:
  assumes "write_commit os db = Some (os', db', results)"
  shows "db_dir db' = db_dir db" "db_seq db' = db_seq db + word_of_nat (length (group_ops (db_group db)))" "db_compaction db' = db_compaction db" "db_options db' = db_options db"
proof -
  obtain bs sq where bs: "base_seqs (db_seq db) (db_group db) = (bs, sq)" by fastforce
  then have sq: "sq = db_seq db + word_of_nat (length (group_ops (db_group db)))"
    using base_seqs_total [of "db_seq db" "db_group db"] by simp
  have "db_dir db' = db_dir db \<and> db_seq db' = sq \<and> db_compaction db' = db_compaction db \<and> db_options db' = db_options db" if "db_group db \<noteq> []"
    using assms that bs
    by (auto simp: write_commit_def doWriteGroup_def Let_def split: option.splits prod.splits if_splits dest!: maybeFlush_fields)
  moreover have "db_dir db' = db_dir db \<and> db_seq db' = db_seq db \<and> db_compaction db' = db_compaction db \<and> db_options db' = db_options db" if "db_group db = []"
    using assms that by (auto simp: write_commit_def doWriteGroup_def Let_def)
  ultimately show "db_dir db' = db_dir db" "db_seq db' = db_seq db + word_of_nat (length (group_ops (db_group db)))" "db_compaction db' = db_compaction db" "db_options db' = db_options db"
    using sq by (cases "db_group db = []"; simp add: group_ops_def)+
qed

lemma flush_build_fields:
  "flush_build lib os db es = (os', db') \<Longrightarrow> db_dir db' = db_dir db \<and> db_seq db' = db_seq db \<and> db_compaction db' = db_compaction db \<and> db_options db' = db_options db"
  by (auto simp: flush_build_def Version_nextFileNumber_def Let_def split: prod.splits)

lemma get_fields:
  "DBImpl_get lib os db k = Some (st, v, db') \<Longrightarrow> db_dir db' = db_dir db \<and> db_seq db' = db_seq db \<and> db_compaction db' = db_compaction db \<and> db_options db' = db_options db"
  by (auto simp: DBImpl_get_def split: option.splits prod.splits)

lemma step_keeps_session: "db_step lib s s' \<Longrightarrow> session_ok dir s \<Longrightarrow> session_ok dir s'"
proof (induction rule: db_step.induct)
  case (commit s os' db' results)
  have f: "unat (db_seq (s_db s)) + length (group_ops (db_group (s_db s))) + 1 \<le> 2 ^ 56" using commit(2) by (simp add: group_fits_def)
  then have "unat (db_seq db') = unat (db_seq (s_db s)) + length (group_ops (db_group (s_db s)))"
    unfolding write_commit_fields(2) [OF commit(3)] by (intro unat_plus_small) simp
  then show ?case using commit(4) f write_commit_fields(1) [OF commit(3)] by (simp add: session_ok_def)
qed (auto simp: session_ok_def write_lead_def write_follow_def flush_pop_def flush_done_def flush_erase_def
    dest: flush_build_fields get_fields split: list.splits)

lemma reachable_session: "(db_step lib)\<^sup>*\<^sup>* s s' \<Longrightarrow> session_ok dir s \<Longrightarrow> session_ok dir s'"
  by (induction rule: rtranclp_induct) (auto intro: step_keeps_session)

lemma recovered_ops: "k \<le> m \<Longrightarrow> map op_of (recovered_history hist k m) = map op_of (take m hist)"
  using take_add [of k "m - k" hist] by (simp add: recovered_history_def)

text \<open>
  A crash at any moment of a session, after a commit with a sync: the database opens again, and
  what it holds is a prefix of the history that includes everything up to that commit.
\<close>

theorem session_crash_recovery:
  assumes "os_files os = []" "os_faults os = []" "open_ok opts dir" "codec_ok lib" "DBImpl_open os opts rngs = Some (os0, Some db0, st)"
    and run: "(db_step lib)\<^sup>*\<^sup>* \<lparr>s_os = os0, s_db = db0, s_hist = [], s_flush = None\<rparr> s1"
    and sync: "db_leader (s_db s1)" "group_fits (s_db s1)" "synced_group (s_db s1)" "write_commit (s_os s1) (s_db s1) = Some (os2, db2, results)"
    and later: "(db_step lib)\<^sup>*\<^sup>* s2 s"
    and s2: "s2 = s1\<lparr>s_os := os2, s_db := db2, s_hist := s_hist s1 @ ops_writes (db_seq (s_db s1) + 1) (group_ops (db_group (s_db s1)))\<rparr>"
    and crash: "reboots (s_db s) (s_os s) os'" "open_ok opts' dir" "0 \<le> max_level opts'"
  shows "\<exists>os'' db m hist. DBImpl_open os' opts' rngs' = Some (os'', Some db, Status_Ok) \<and> length (s_hist s2) \<le> m \<and> m \<le> length (s_hist s) \<and>
    map op_of hist = map op_of (take m (s_hist s)) \<and> sys_inv lib \<lparr>s_os = os'', s_db = db, s_hist = hist, s_flush = None\<rparr>"
proof -
  let ?s0 = "\<lparr>s_os = os0, s_db = db0, s_hist = [], s_flush = None\<rparr>"
  have "log_inv lib 0 s1" using reachable_log_inv [OF run fresh_log_inv [OF assms(1-5)]] .
  from synced_commit_durable [OF this sync] have "log_inv lib (length (s_hist s2)) s2" by (simp only: s2)
  from reachable_log_inv [OF later this] obtain k segs where l: "sys_inv lib s" "logs_ok lib s k segs (length (s_hist s2))" by (auto simp: log_inv_def)
  have "session_ok dir ?s0" using fresh_open_state [OF assms(1-4), of rngs] assms(5) by (auto simp: session_ok_def)
  moreover have "(db_step lib)\<^sup>*\<^sup>* ?s0 s"
    using run db_step.commit [OF sync(1,2,4), of lib] later unfolding s2 by (meson rtranclp.rtrancl_into_rtrancl rtranclp_trans)
  ultimately have ses: "session_ok dir s" using reachable_session by blast
  then obtain os'' db m where r: "DBImpl_open os' opts' rngs' = Some (os'', Some db, Status_Ok)" "k \<le> m" "length (s_hist s2) \<le> m" "m \<le> length (s_hist s)"
    "sys_inv lib \<lparr>s_os = os'', s_db = db, s_hist = recovered_history (s_hist s) k m, s_flush = None\<rparr>"
    using recover_crash [OF l(2,1) crash(1) _ crash(3), of rngs'] crash(2) by (auto simp: session_ok_def)
  then show ?thesis using recovered_ops [OF r(2), of "s_hist s"] by blast
qed

end
