(* ===== verification/Db_Compaction.thy ===== *)
theory Db_Compaction
  imports Db_Recovery
begin

text \<open>
  The whole engine: the state machine of \<open>Db_System\<close> together with the compaction thread. A merge
  is one step, taken between the steps of the other threads: its sources are changed by nobody
  else and its target is known to nobody else before it is registered. A merge drops versions; the
  invariant is the one of \<open>Db_System\<close> except for the writes that are obsolete: deletes, writes that
  a later write of the same key supersedes, and writes of the empty key, which every merge loses.
\<close>

section \<open>What a merge drops\<close>

lemma emitted_drops:
  assumes "sorted (map (\<lambda>e. ikey_rank (fst e)) es)" "e \<in> set es" "e \<notin> set (emitted last_user es)"
  shows "user_of e = last_user \<or> IsDeletion (fst e) \<or> (\<exists>e'\<in>set es. user_of e' = user_of e \<and> e' \<noteq> e \<and> ikey_rank (fst e') \<le> ikey_rank (fst e))"
  using assms
proof (induction es arbitrary: last_user)
  case (Cons x es)
  obtain ik v where x: "x = (ik, v)" by fastforce
  show ?case
  proof (cases "e = x")
    case True
    then show ?thesis using Cons.prems(3) x by (auto simp: Let_def IsDeletion_def split: if_splits)
  next
    case False
    then have e: "e \<in> set es" using Cons.prems(2) by simp
    then have le: "ikey_rank (fst x) \<le> ikey_rank (fst e)" using Cons.prems(1) by auto
    obtain u where u: "e \<notin> set (emitted u es)" "u = last_user \<or> u = user_of x"
      using Cons.prems(3) x by (auto simp: Let_def split: if_splits)
    show ?thesis using Cons.IH [OF _ e u(1)] Cons.prems(1) u(2) False le by auto
  qed
qed simp

definition obsolete :: "write_op list \<Rightarrow> write_op \<Rightarrow> bool" where
  "obsolete hist w \<longleftrightarrow> w_delete w \<or> w_key w = [] \<or> (\<exists>w'\<in>set hist. w_key w' = w_key w \<and> w_seq w < w_seq w')"

lemma obsolete_append: "obsolete hist w \<Longrightarrow> obsolete (hist @ us) w"
  by (auto simp: obsolete_def)

lemma entry_of_parts:
  assumes "unat (w_seq w) < 2 ^ 56"
  shows "user_of (entry_of w) = w_key w" "InternalKeySequence (fst (entry_of w)) = w_seq w" "IsDeletion (fst (entry_of w)) = w_delete w"
    "ikey_rank (fst (entry_of w)) = (w_key w, newer_first (w_seq w), u8_of_ValueType (if w_delete w then vtDeletion else vtValue))"
  using assms by (simp_all add: entry_of_def Sequence_encode ikey_rank_encode)

lemma entry_of_eq:
  assumes "entry_of v = entry_of w" "unat (w_seq v) < 2 ^ 56" "unat (w_seq w) < 2 ^ 56"
  shows "w_key v = w_key w" "w_seq v = w_seq w" "w_delete v = w_delete w"
  using entry_of_parts [OF assms(2)] entry_of_parts [OF assms(3)] assms(1) by auto

lemma merge_drops_obsolete:
  assumes "seqs_increasing hist" "\<forall>es\<in>set ess. sorted_entries es \<and> set es \<subseteq> entry_of ` set hist" "unat (w_seq w) < 2 ^ 56"
    "es \<in> set ess" "entry_of w \<in> set es" "entry_of w \<notin> set (merged_entries ess)"
  shows "obsolete hist w"
proof -
  let ?all = "sort_by entry_less (concat ess)"
  have "sorted (map (\<lambda>e. ikey_rank (fst e)) ?all)" using assms(2) by (intro concat_sorted) simp
  moreover have "entry_of w \<in> set ?all" using assms(4,5) by auto
  ultimately have "user_of (entry_of w) = [] \<or> IsDeletion (fst (entry_of w)) \<or>
      (\<exists>e'\<in>set ?all. user_of e' = user_of (entry_of w) \<and> e' \<noteq> entry_of w \<and> ikey_rank (fst e') \<le> ikey_rank (fst (entry_of w)))"
    using emitted_drops [of ?all "entry_of w" "[]"] assms(6) by (simp add: merged_entries_def)
  moreover have False if no: "\<not> obsolete hist w" and e': "e' \<in> set ?all" "user_of e' = user_of (entry_of w)" "e' \<noteq> entry_of w"
    "ikey_rank (fst e') \<le> ikey_rank (fst (entry_of w))" for e'
  proof -
    have "e' \<in> entry_of ` set hist" using e'(1) assms(2) by auto
    then obtain v where v: "v \<in> set hist" "e' = entry_of v" by auto
    obtain u where u: "u \<in> set hist" "entry_of u = entry_of w" using assms(2,4,5) by force
    have b: "unat (w_seq v) < 2 ^ 56" "unat (w_seq u) < 2 ^ 56" using assms(1) v(1) u(1) by (auto simp: seqs_increasing_def)
    have key: "w_key v = w_key w" using e'(2) entry_of_parts(1) [OF b(1)] entry_of_parts(1) [OF assms(3)] v(2) by simp
    have "w_seq w \<le> w_seq v" using e'(4) entry_of_parts(4) [OF b(1)] entry_of_parts(4) [OF assms(3)] v(2) key by auto
    moreover have "w_seq w \<noteq> w_seq v"
    proof
      assume "w_seq w = w_seq v"
      then have "w_seq u = w_seq v" using entry_of_eq(2) [OF u(2) b(2) assms(3)] by simp
      then have "u = v" using assms(1) u(1) v(1) by (auto simp: seqs_increasing_def sorted_wrt_iff_nth_less in_set_conv_nth) (metis linorder_cases order_less_irrefl)
      then show False using u(2) v(2) e'(3) by simp
    qed
    ultimately show False using no key v(1) by (auto simp: obsolete_def)
  qed
  ultimately show ?thesis using entry_of_parts(1,3) [OF assms(3)] by (auto simp: obsolete_def)
qed

section \<open>The state machine with compactions\<close>

text \<open>
  \<open>e_merge\<close> is what the compaction thread works on: the level and the files that it read from the
  version. Other threads can run between that read and the merge.
\<close>

record engine =
  e_sys :: db_sys
  e_merge :: "(int \<times> path list) option"

definition merge_fits :: "codec_lib \<Rightarrow> os \<Rightarrow> path list \<Rightarrow> bool" where
  "merge_fits lib os files \<longleftrightarrow> (\<forall>ess. list_all2 (table_on_disk lib os) files ess \<longrightarrow> table_weight (concat ess) < 2 ^ 31)"

definition merge_install :: "db_sys \<Rightarrow> CompactionManager \<Rightarrow> os \<times> Version \<times> BlockCache option \<times> Status \<Rightarrow> db_sys" where
  "merge_install s cm r =
     (case r of (os, v, cache, st) \<Rightarrow>
        s\<lparr>s_os := os, s_db := (s_db s)\<lparr>db_version := v, db_cache := cache, db_compaction := Some (note_result cm st)\<rparr>\<rparr>)"

inductive engine_step :: "codec_lib \<Rightarrow> engine \<Rightarrow> engine \<Rightarrow> bool" for lib where
  other: "db_step lib (e_sys e) s' \<Longrightarrow> engine_step lib e (e\<lparr>e_sys := s'\<rparr>)"
| trigger: "engine_step lib e (e\<lparr>e_sys := (e_sys e)\<lparr>s_db := DBImpl_compact (s_db (e_sys e))\<rparr>\<rparr>)"
| pick_l0: "e_merge e = None \<Longrightarrow> s = e_sys e \<Longrightarrow> db_compaction (s_db s) = Some cm \<Longrightarrow> cm_running cm \<Longrightarrow>
    cm_triggered cm \<or> Version_shouldCompactL0 (db_version (s_db s)) (cm_l0_trigger cm) \<Longrightarrow>
    engine_step lib e (e\<lparr>e_sys := s\<lparr>s_db := (s_db s)\<lparr>db_compaction := Some (cm\<lparr>cm_triggered := False\<rparr>)\<rparr>\<rparr>,
      e_merge := Some (0, Version_getLevelFiles (db_version (s_db s)) 0)\<rparr>)"
| pick_level: "e_merge e = None \<Longrightarrow> s = e_sys e \<Longrightarrow> db_compaction (s_db s) = Some cm \<Longrightarrow> cm_running cm \<Longrightarrow>
    1 \<le> lvl \<Longrightarrow> lvl < cm_max_level cm \<Longrightarrow> Version_shouldCompactLevel (db_version (s_db s)) lvl 2 \<Longrightarrow>
    files = Version_getLevelFiles (db_version (s_db s)) lvl \<Longrightarrow> 2 \<le> length files \<Longrightarrow>
    engine_step lib e (e\<lparr>e_merge := Some (lvl, files)\<rparr>)"
| merge: "e_merge e = Some (lvl, files) \<Longrightarrow> s = e_sys e \<Longrightarrow> db_compaction (s_db s) = Some cm \<Longrightarrow>
    numbers_left (s_db s) \<Longrightarrow> merge_fits lib (s_os s) files \<Longrightarrow>
    engine_step lib e (e\<lparr>e_sys := merge_install s cm
      (mergeLevelFiles lib (s_os s) (db_version (s_db s)) (db_cache (s_db s)) cm lvl files), e_merge := None\<rparr>)"

text \<open>
  When nobody runs in between, the two steps of the compaction thread are \<open>compactL0\<close> or
  \<open>compactLevel\<close> followed by the bookkeeping of the loop.
\<close>

lemma engine_two_steps: "engine_step lib e e1 \<Longrightarrow> engine_step lib e1 e2 \<Longrightarrow> (engine_step lib)\<^sup>*\<^sup>* e e2"
  by (rule converse_rtranclp_into_rtranclp, assumption, rule r_into_rtranclp)

lemma engine_others: "(db_step lib)\<^sup>*\<^sup>* s s' \<Longrightarrow> (engine_step lib)\<^sup>*\<^sup>* \<lparr>e_sys = s, e_merge = m\<rparr> \<lparr>e_sys = s', e_merge = m\<rparr>"
proof (induction rule: rtranclp_induct)
  case (step s1 s2)
  have "engine_step lib \<lparr>e_sys = s1, e_merge = m\<rparr> \<lparr>e_sys = s2, e_merge = m\<rparr>"
    using engine_step.other [of lib "\<lparr>e_sys = s1, e_merge = m\<rparr>" s2] step(2) by simp
  with step(3) show ?case by (rule rtranclp.rtrancl_into_rtrancl)
qed simp

lemma engine_compactL0:
  assumes "e_merge e = None" "s = e_sys e" "db_compaction (s_db s) = Some cm" "cm_running cm"
    "cm_triggered cm \<or> Version_shouldCompactL0 (db_version (s_db s)) (cm_l0_trigger cm)" "numbers_left (s_db s)"
    "merge_fits lib (s_os s) (Version_getLevelFiles (db_version (s_db s)) 0)" "c = cm\<lparr>cm_triggered := False\<rparr>"
  shows "(engine_step lib)\<^sup>*\<^sup>* e (e\<lparr>e_sys := merge_install s c (compactL0 lib (s_os s) (db_version (s_db s)) (db_cache (s_db s)) c)\<rparr>)"
proof -
  let ?e = "e\<lparr>e_sys := s\<lparr>s_db := (s_db s)\<lparr>db_compaction := Some c\<rparr>\<rparr>, e_merge := Some (0, Version_getLevelFiles (db_version (s_db s)) 0)\<rparr>"
  let ?r = "mergeLevelFiles lib (s_os s) (db_version (s_db s)) (db_cache (s_db s)) c 0 (Version_getLevelFiles (db_version (s_db s)) 0)"
  have 1: "engine_step lib e ?e" using engine_step.pick_l0 [OF assms(1-5)] assms(8) by simp
  have 2: "engine_step lib ?e (?e\<lparr>e_sys := merge_install (s\<lparr>s_db := (s_db s)\<lparr>db_compaction := Some c\<rparr>\<rparr>) c ?r, e_merge := None\<rparr>)"
    using engine_step.merge [of ?e 0 _ "e_sys ?e" c lib] assms(6,7) by (simp add: numbers_left_def)
  have "compactL0 lib (s_os s) (db_version (s_db s)) (db_cache (s_db s)) c = ?r" by (simp add: compactL0_def mergeLevelFiles_def Let_def)
  then have "?e\<lparr>e_sys := merge_install (s\<lparr>s_db := (s_db s)\<lparr>db_compaction := Some c\<rparr>\<rparr>) c ?r, e_merge := None\<rparr> =
      e\<lparr>e_sys := merge_install s c (compactL0 lib (s_os s) (db_version (s_db s)) (db_cache (s_db s)) c)\<rparr>"
    using assms(1) by (cases e) (simp add: merge_install_def split: prod.split)
  with engine_two_steps [OF 1 2] show ?thesis by simp
qed

lemma engine_compactLevel:
  assumes "e_merge e = None" "s = e_sys e" "db_compaction (s_db s) = Some cm" "cm_running cm" "1 \<le> lvl" "lvl < cm_max_level cm"
    "Version_shouldCompactLevel (db_version (s_db s)) lvl 2" "files = Version_getLevelFiles (db_version (s_db s)) lvl" "2 \<le> length files"
    "numbers_left (s_db s)" "merge_fits lib (s_os s) files"
  shows "(engine_step lib)\<^sup>*\<^sup>* e (e\<lparr>e_sys := merge_install s cm (compactLevel lib (s_os s) (db_version (s_db s)) (db_cache (s_db s)) cm lvl)\<rparr>)"
proof -
  let ?e = "e\<lparr>e_merge := Some (lvl, files)\<rparr>"
  let ?r = "mergeLevelFiles lib (s_os s) (db_version (s_db s)) (db_cache (s_db s)) cm lvl files"
  have 1: "engine_step lib e ?e" by (rule engine_step.pick_level [OF assms(1-9)])
  have 2: "engine_step lib ?e (?e\<lparr>e_sys := merge_install s cm ?r, e_merge := None\<rparr>)"
    using assms by (intro engine_step.merge) simp_all
  have "compactLevel lib (s_os s) (db_version (s_db s)) (db_cache (s_db s)) cm lvl = ?r" using assms by (simp add: compactLevel_def)
  then have "?e\<lparr>e_sys := merge_install s cm ?r, e_merge := None\<rparr> =
      e\<lparr>e_sys := merge_install s cm (compactLevel lib (s_os s) (db_version (s_db s)) (db_cache (s_db s)) cm lvl)\<rparr>"
    using assms(1) by (cases e) simp
  with engine_two_steps [OF 1 2] show ?thesis by simp
qed

section \<open>What is stored\<close>

lemma table_on_disk_unique: "table_on_disk lib os p es \<Longrightarrow> table_on_disk lib os p es' \<Longrightarrow> es = es'"
proof -
  assume "table_on_disk lib os p es" "table_on_disk lib os p es'"
  from table_scan [OF this(1), of None] table_scan [OF this(2), of None] fresh_cache(1) [of lib os] show "es = es'" by auto
qed

definition mem_entries :: "DBImpl \<Rightarrow> (bytes \<times> bytes) set" where
  "mem_entries db = \<Union> (set ` MemTable_content ` set (memtables db))"

definition tab_entries :: "codec_lib \<Rightarrow> os \<Rightarrow> DBImpl \<Rightarrow> (bytes \<times> bytes) set" where
  "tab_entries lib os db = {e. \<exists>p\<in>registered db. \<exists>es. table_on_disk lib os p es \<and> e \<in> set es}"

definition stored :: "codec_lib \<Rightarrow> db_sys \<Rightarrow> (bytes \<times> bytes) set" where
  "stored lib s = mem_entries (s_db s) \<union> tab_entries lib (s_os s) (s_db s)"

lemma in_memory_entries: "in_memory db w \<longleftrightarrow> entry_of w \<in> mem_entries db"
  by (auto simp: in_memory_def mem_entries_def)

lemma in_table_entries: "in_table lib os db w \<longleftrightarrow> entry_of w \<in> tab_entries lib os db"
  by (auto simp: in_table_def tab_entries_def)

lemma layers_entries: "layers_ok db fl Ws ws \<Longrightarrow> mem_entries db = entry_of ` set (concat Ws @ ws)"
proof -
  assume l: "layers_ok db fl Ws ws"
  have "\<Union> (set ` MemTable_content ` set mts) = entry_of ` set (concat wss)" if "list_all2 mem_history mts wss" for mts wss
    using that by (induction rule: list_all2_induct) (auto simp: mem_history_inv(2))
  from this [OF layers_memtables(1) [OF l]] show ?thesis unfolding mem_entries_def by auto
qed

lemma logs_only_sym_table:
  assumes "logs_only dir os os'" "table_on_disk lib os' (sst_path dir l n) es"
  shows "table_on_disk lib os (sst_path dir l n) es"
proof (rule table_on_disk_frame [OF assms(2)])
  show "file_of os (sst_path dir l n) = file_of os' (sst_path dir l n)"
    "file_of os (sst_path dir l n @ str ''.bloom'') = file_of os' (sst_path dir l n @ str ''.bloom'')"
    using assms(1) wal_path_other(1,2) unfolding logs_only_def by metis+
qed

lemma logs_only_entries:
  assumes "files_ok lib os db" "logs_only (db_dir db) os os'" "v_levels (db_version db') = v_levels (db_version db)"
  shows "tab_entries lib os' db' = tab_entries lib os db"
proof -
  have "table_on_disk lib os' p es = table_on_disk lib os p es" if "p \<in> registered db" for p es
    using registered_path [OF assms(1) that] logs_only_table [OF assms(2)] logs_only_sym_table [OF assms(2)] by blast
  moreover have "registered db' = registered db" using assms(3) by (simp add: registered_def)
  ultimately show ?thesis unfolding tab_entries_def by auto
qed

section \<open>What the other threads do to it\<close>

text \<open>
  A step of a writer, a reader or the flush thread: the history grows, nothing is stored that was
  not written, and only new tables of level 0 are registered.
\<close>

definition level_grows :: "levels \<Rightarrow> levels \<Rightarrow> bool" where
  "level_grows ls ls' \<longleftrightarrow> (\<exists>new. ls' = ls[0 := ls ! 0 @ new])"

definition same_setup :: "DBImpl \<Rightarrow> DBImpl \<Rightarrow> bool" where
  "same_setup db db' \<longleftrightarrow> db_dir db' = db_dir db \<and> db_compaction db' = db_compaction db \<and> db_options db' = db_options db"

definition numbered :: "db_sys \<Rightarrow> bool" where
  "numbered s \<longleftrightarrow> seqs_increasing (s_hist s) \<and> (\<forall>w\<in>set (s_hist s). w_seq w \<le> db_seq (s_db s))"

lemma level_grows_refl [simp]: "level_grows ls ls"
  by (auto simp: level_grows_def intro: exI [of _ "[]"])

lemma step_setup: "db_step lib s s' \<Longrightarrow> same_setup (s_db s) (s_db s')"
proof (induction rule: db_step.induct)
  case (commit s os' db' results)
  then show ?case using write_commit_fields(1,3,4) [OF commit(3)] by (simp add: same_setup_def)
qed (auto simp: same_setup_def write_lead_def write_follow_def flush_pop_def flush_done_def flush_erase_def
    dest: flush_build_fields get_fields split: list.splits)

lemma step_numbered: "db_step lib s s' \<Longrightarrow> numbered s \<Longrightarrow> numbered s' \<and> (\<exists>us. s_hist s' = s_hist s @ us)"
proof (induction rule: db_step.induct)
  case (commit s os' db' results)
  have h: "seqs_increasing (s_hist s)" "\<forall>w\<in>set (s_hist s). w_seq w \<le> db_seq (s_db s)" using commit(4) unfolding numbered_def by blast+
  have "unat (db_seq (s_db s)) + length (group_ops (db_group (s_db s))) + 1 \<le> 2 ^ 56" using commit(2) unfolding group_fits_def by blast
  from numbered_append [OF h this] show ?case unfolding numbered_def by (simp add: write_commit_fields(2) [OF commit(3)])
qed (auto simp: numbered_def write_lead_def write_follow_def flush_pop_def flush_done_def flush_erase_def
    dest: flush_build_fields get_fields split: list.splits)

lemma stored_mono:
  assumes "set (memtables (s_db s')) \<subseteq> set (memtables (s_db s))" "v_levels (db_version (s_db s')) = v_levels (db_version (s_db s))" "s_os s' = s_os s"
  shows "stored lib s' \<subseteq> stored lib s"
  using assms by (auto simp: stored_def mem_entries_def tab_entries_def registered_def)

lemma erase_memtable_subset: "set (erase_memtable i ms) \<subseteq> set ms"
  by (induction i ms rule: erase_memtable.induct) auto

lemma flush_erase_memtables: "set (memtables (flush_erase db i)) \<subseteq> set (memtables db)"
  using erase_memtable_subset [of i "db_immutables db"] by (auto simp: memtables_def flush_erase_def)

lemma stored_commit:
  assumes "sys_inv_but lib ex s" "group_fits (s_db s)" "write_commit (s_os s) (s_db s) = Some (os', db', results)"
    "s' = s\<lparr>s_os := os', s_db := db', s_hist := s_hist s @ ops_writes (db_seq (s_db s) + 1) (group_ops (db_group (s_db s)))\<rparr>"
  shows "stored lib s' \<subseteq> stored lib s \<union> entry_of ` set (s_hist s')" "v_levels (db_version (s_db s')) = v_levels (db_version (s_db s))"
proof -
  let ?us = "ops_writes (db_seq (s_db s) + 1) (group_ops (db_group (s_db s)))"
  obtain Ws ws where o: "files_ok lib (s_os s) (s_db s)" "wals_ok (s_os s) (s_db s) (s_flush s)" "layers_ok (s_db s) (s_flush s) Ws ws"
    using assms(1) by (rule sys_inv_butE) blast
  obtain Ws' ws' where n: "layers_ok db' (s_flush s) Ws' ws'" "concat Ws' @ ws' = concat Ws @ ws @ ?us"
    "logs_only (db_dir (s_db s)) (s_os s) os'" "v_levels (db_version db') = v_levels (db_version (s_db s))"
    using write_commit_ok [OF o assms(2,3)] by auto
  have "mem_entries db' = mem_entries (s_db s) \<union> entry_of ` set ?us"
    unfolding layers_entries [OF n(1)] layers_entries [OF o(3)] n(2) by auto
  then show "stored lib s' \<subseteq> stored lib s \<union> entry_of ` set (s_hist s')"
    using logs_only_entries [OF o(1) n(3,4)] by (auto simp: stored_def assms(4))
  show "v_levels (db_version (s_db s')) = v_levels (db_version (s_db s))" using n(4) by (simp add: assms(4))
qed

lemma sst_bloom_other: "sst_path dir l n @ str ''.bloom'' \<noteq> sst_path dir k m"
  using bloom_not_sst sst_is_sst by metis

lemma stored_build:
  assumes "sys_inv_but lib ex s" "s_flush s = Some (entry, Popped)" "MemTable_entries (snd (fe_memtable entry)) = Some es"
    "table_weight (MemTable_content (snd (fe_memtable entry))) < 2 ^ 31" "numbers_left (s_db s)"
    "flush_build lib (s_os s) (s_db s) es = (os', db')" "s' = s\<lparr>s_os := os', s_db := db', s_flush := Some (entry, Built)\<rparr>"
  shows "stored lib s' \<subseteq> stored lib s" "level_grows (v_levels (db_version (s_db s))) (v_levels (db_version (s_db s')))"
proof -
  let ?c = "MemTable_content (snd (fe_memtable entry))" and ?n = "v_next_file_number (db_version (s_db s))"
  let ?p = "sst_path (db_dir (s_db s)) 0 ?n"
  obtain Ws ws where o: "files_ok lib (s_os s) (s_db s)" "layers_ok (s_db s) (s_flush s) Ws ws"
    using assms(1) by (rule sys_inv_butE) blast
  have "pending (s_flush s) = [fe_memtable entry]" using assms(2) by (simp add: pending_def)
  from layers_front [OF o(2) this] obtain W where W: "mem_history (snd (fe_memtable entry)) W"
    "db_immutables (s_db s) = fe_memtable entry # map fe_memtable (db_flush_queue (s_db s))" by blast
  note inv = mem_history_inv [OF W(1)]
  have c: "map (\<lambda>e. (internal_key e, entry_value e)) es = ?c"
    using assms(3) MemTable_entries_content [OF inv(1)] by (auto simp: case_prod_unfold comp_def)
  note b = flush_build_ok [OF o(1) assms(5) c MemTable_content_sorted [OF inv(1)] assms(4,6)]
  have len: "length (v_levels (db_version (s_db s))) = 8" using o(1) by (auto simp: files_ok_def version_inv_def)
  have "memtables db' = memtables (s_db s)" using b(2) by (auto simp: memtables_def)
  moreover have "snd (fe_memtable entry) \<in> set (memtables (s_db s))" using W(2) by (simp add: memtables_def)
  ultimately have mem: "mem_entries db' = mem_entries (s_db s)" "set ?c \<subseteq> mem_entries (s_db s)"
    by (auto simp: mem_entries_def)
  have reg: "registered db' = insert ?p (registered (s_db s))"
    by (rule registered_push [OF len b(9)])
  have old: "table_on_disk lib (s_os s) q fs" if q: "q \<in> registered (s_db s)" "table_on_disk lib os' q fs" for q fs
  proof -
    obtain l k where k: "q = sst_path (db_dir (s_db s)) l k" "k < ?n" using registered_path [OF o(1) q(1)] by blast
    show ?thesis by (rule table_on_disk_frame [OF q(2)]; rule b(7) [symmetric]) (use k sst_bloom_other in \<open>auto simp: sst_path_inject\<close>)
  qed
  have "tab_entries lib os' db' \<subseteq> tab_entries lib (s_os s) (s_db s) \<union> set ?c"
    unfolding tab_entries_def reg using old table_on_disk_unique [OF b(10)] by auto
  then show "stored lib s' \<subseteq> stored lib s" using mem by (auto simp: stored_def assms(7))
  show "level_grows (v_levels (db_version (s_db s))) (v_levels (db_version (s_db s')))"
    unfolding level_grows_def assms(7) by (simp add: b(9) push_level_def) blast
qed

lemma stored_unlink:
  assumes "files_ok lib (s_os s) (s_db s)" "wals_ok (s_os s) (s_db s) (s_flush s)" "s_flush s = Some (entry, st)"
    "s_os s' = unlink_all (s_os s) (fe_wals entry)" "set (memtables (s_db s')) \<subseteq> set (memtables (s_db s))"
    "v_levels (db_version (s_db s')) = v_levels (db_version (s_db s))"
  shows "stored lib s' \<subseteq> stored lib s"
proof -
  have f: "os_faults (s_os s) = []" using assms(1) by (simp add: files_ok_def)
  have "list_all (is_wal_path (db_dir (s_db s))) (fe_wals entry)"
    using assms(2,3) wal_below_path by (fastforce simp: wals_ok_def old_wals_def flush_wals_def list_all_iff)
  from logs_only_entries [OF assms(1) unlink_logs [OF f this] assms(6)] assms(4,5) show ?thesis
    by (auto simp: stored_def mem_entries_def)
qed

lemma step_stored:
  assumes "db_step lib s s'" "sys_inv_but lib ex s"
  shows "stored lib s' \<subseteq> stored lib s \<union> entry_of ` set (s_hist s')"
    "level_grows (v_levels (db_version (s_db s))) (v_levels (db_version (s_db s')))"
proof -
  obtain Ws ws where o: "files_ok lib (s_os s) (s_db s)" "wals_ok (s_os s) (s_db s) (s_flush s)" "layers_ok (s_db s) (s_flush s) Ws ws"
    using assms(2) by (rule sys_inv_butE) blast
  have "stored lib s' \<subseteq> stored lib s \<union> entry_of ` set (s_hist s') \<and>
    level_grows (v_levels (db_version (s_db s))) (v_levels (db_version (s_db s')))"
    using assms(1)
  proof cases
    case (commit os' db' results)
    from stored_commit [OF assms(2) commit(3,4,1)] show ?thesis by simp
  next
    case (build entry es os' db')
    from stored_build [OF assms(2) build(2,4-7,1)] show ?thesis by blast
  next
    case (erase entry)
    have "stored lib s' \<subseteq> stored lib s"
      by (rule stored_mono) (use flush_erase_memtables in \<open>auto simp: erase(1) flush_erase_def\<close>)
    then show ?thesis by (auto simp: erase(1) flush_erase_def)
  next
    case (unlink entry)
    have "stored lib s' \<subseteq> stored lib s"
      by (rule stored_unlink [OF o(1,2) unlink(2)]) (simp_all add: unlink(1) flush_done_def memtables_def)
    then show ?thesis by (auto simp: unlink(1) flush_done_def)
  next
    case (drop_empty entry)
    have "memtables (s_db s') = memtables (flush_erase (s_db s) (fst (fe_memtable entry)))" by (simp add: drop_empty(1) flush_done_def memtables_def)
    then have "stored lib s' \<subseteq> stored lib s"
      by (intro stored_unlink [OF o(1,2) drop_empty(2)]) (use flush_erase_memtables in \<open>auto simp: drop_empty(1) flush_done_def flush_erase_def\<close>)
    then show ?thesis by (auto simp: drop_empty(1) flush_done_def flush_erase_def)
  next
    case (read k st v db')
    obtain cache where "db' = (s_db s)\<lparr>db_cache := cache\<rparr>" using get_keeps [OF o(1,3), of k] read(2) by auto
    then have "stored lib s' \<subseteq> stored lib s" by (intro stored_mono) (simp_all add: read(1) memtables_def)
    then show ?thesis using \<open>db' = _\<close> by (auto simp: read(1))
  next
    case (lead e)
    have "stored lib s' \<subseteq> stored lib s" by (rule stored_mono) (simp_all add: lead(1) write_lead_def memtables_def)
    then show ?thesis by (auto simp: lead(1) write_lead_def)
  next
    case (follow e)
    have "stored lib s' \<subseteq> stored lib s" by (rule stored_mono) (simp_all add: follow(1) write_follow_def memtables_def)
    then show ?thesis by (auto simp: follow(1) write_follow_def)
  next
    case (start entry db')
    obtain q where "db' = (s_db s)\<lparr>db_flush_queue := q, db_flush_inflight := db_flush_inflight (s_db s) + 1\<rparr>"
      using start(3) by (auto simp: flush_pop_def split: list.splits)
    then have "stored lib s' \<subseteq> stored lib s" by (intro stored_mono) (simp_all add: start(1) memtables_def)
    then show ?thesis using \<open>db' = _\<close> by (auto simp: start(1))
  qed
  then show "stored lib s' \<subseteq> stored lib s \<union> entry_of ` set (s_hist s')"
    "level_grows (v_levels (db_version (s_db s))) (v_levels (db_version (s_db s')))" by blast+
qed

section \<open>What a merge does to it\<close>

definition manager_ok :: "DBImpl \<Rightarrow> CompactionManager \<Rightarrow> bool" where
  "manager_ok db cm \<longleftrightarrow> cm_db_path cm = db_dir db \<and> cm_max_level cm = max_level (db_options db) \<and>
     0 \<le> cm_max_level cm \<and> cm_max_level cm \<le> 7"

definition picked :: "DBImpl \<Rightarrow> int \<Rightarrow> path list \<Rightarrow> bool" where
  "picked db lvl files \<longleftrightarrow> 0 \<le> lvl \<and> lvl < 8 \<and> set files \<subseteq> set (Version_getLevelFiles (db_version db) lvl)"

lemma files_ok_meta:
  assumes "files_ok lib os db" "l < 8" "meta \<in> set (v_levels (db_version db) ! l)"
  shows "\<exists>n es. meta_path meta = sst_path (db_dir db) l n \<and> n < v_next_file_number (db_version db) \<and>
    table_on_disk lib os (meta_path meta) es \<and> sorted_entries es"
  using assms unfolding files_ok_def by blast

lemma picked_path:
  assumes "files_ok lib os db" "picked db lvl files" "p \<in> set files"
  shows "p \<in> registered db" "\<exists>n<v_next_file_number (db_version db). p = sst_path (db_dir db) (nat lvl) n"
proof -
  have l: "nat lvl < 8" using assms(2) by (auto simp: picked_def)
  obtain meta where meta: "meta \<in> set (v_levels (db_version db) ! nat lvl)" "p = meta_path meta"
    using assms(2,3) by (auto simp: picked_def Version_getLevelFiles_def split: if_splits)
  show "p \<in> registered db" using l meta unfolding registered_def by blast
  show "\<exists>n<v_next_file_number (db_version db). p = sst_path (db_dir db) (nat lvl) n"
    using files_ok_meta [OF assms(1) l meta(1)] meta(2) by blast
qed

lemma picked_tables:
  assumes "files_ok lib os db" "picked db lvl files"
  obtains ess where "list_all2 (\<lambda>p es. table_on_disk lib os p es \<and> sorted_entries es) files ess"
proof -
  have "\<forall>p\<in>set files. \<exists>es. table_on_disk lib os p es \<and> sorted_entries es"
    using registered_path [OF assms(1)] picked_path(1) [OF assms] by blast
  then obtain g where "\<forall>p\<in>set files. table_on_disk lib os p (g p) \<and> sorted_entries (g p)" by metis
  then have "list_all2 (\<lambda>p es. table_on_disk lib os p es \<and> sorted_entries es) files (map g files)"
    by (simp add: list_all2_map2 list_all2_same)
  then show thesis by (rule that)
qed

lemma picked_inputs:
  assumes "files_ok lib os db" "manager_ok db cm" "picked db lvl files" "files \<noteq> []" "lvl + 1 \<le> cm_max_level cm" "merge_fits lib os files"
    "list_all2 (\<lambda>p es. table_on_disk lib os p es \<and> sorted_entries es) files ess"
  shows "merge_inputs lib os (db_version db) (db_cache db) cm lvl files ess"
proof -
  let ?v = "db_version db" and ?dir = "db_dir db"
  have l: "0 \<le> lvl" "nat lvl < 8" "nat (lvl + 1) < 8" "cm_db_path cm = ?dir" "cm_max_level cm \<le> 7"
    using assms(2,3,5) by (auto simp: picked_def manager_ok_def)
  have d: "\<And>l n. l < 8 \<Longrightarrow> short_path (sst_path ?dir l n)" using assms(1) by (simp add: files_ok_def dir_ok_def)
  have "table_weight (concat ess) < 2 ^ 31"
    using assms(6) list_all2_mono [OF assms(7)] unfolding merge_fits_def by blast
  moreover have "\<forall>p\<in>set files. \<exists>n. p = sst_path ?dir (nat lvl) n" using picked_path(2) [OF assms(1,3)] by blast
  moreover have "short_path (meta_path meta)" if mem: "meta \<in> set (v_levels ?v ! nat lvl)" for meta
  proof -
    obtain n where "meta_path meta = sst_path ?dir (nat lvl) n" using files_ok_meta [OF assms(1) l(2) mem] by blast
    then show ?thesis using d l(2) by simp
  qed
  moreover have "file_of os (merge_target cm ?v lvl) = None" "short_path (merge_target cm ?v lvl)"
    using assms(1) l d by (simp_all add: merge_target_def files_ok_def)
  ultimately show ?thesis using assms(1,4,5,7) l by (simp add: merge_inputs_def files_ok_def)
qed

text \<open>The database after a merge, by the facts that \<open>mergeLevelFiles_ok\<close> gives.\<close>

definition merge_done :: "codec_lib \<Rightarrow> os \<Rightarrow> DBImpl \<Rightarrow> CompactionManager \<Rightarrow> int \<Rightarrow> path list \<Rightarrow> (bytes \<times> bytes) list list
    \<Rightarrow> os \<Rightarrow> DBImpl \<Rightarrow> bool" where
  "merge_done lib os db cm lvl files ess os' db' \<longleftrightarrow>
     version_inv os' (db_version db') \<and> os_faults os' = [] \<and> cache_coherent lib os' (db_cache db') \<and>
     v_levels (db_version db') = merged_levels cm (db_version db) lvl files ess \<and>
     v_next_file_number (db_version db') = v_next_file_number (db_version db) + 1 \<and>
     version_manifest_path (db_version db') = version_manifest_path (db_version db) \<and>
     (merged_entries ess \<noteq> [] \<longrightarrow> table_on_disk lib os' (merge_target cm (db_version db) lvl) (merged_entries ess)) \<and>
     (\<forall>p\<in>set files. file_of os' p = None) \<and>
     (\<forall>q. q \<notin> set files \<and> q \<noteq> merge_target cm (db_version db) lvl \<and> q \<noteq> merge_target cm (db_version db) lvl @ str ''.bloom'' \<and>
        q \<noteq> version_manifest_path (db_version db) \<longrightarrow> file_of os' q = file_of os q) \<and>
     (\<exists>v cache c. db' = db\<lparr>db_version := v, db_cache := cache, db_compaction := Some c\<rparr>)"

lemma merged_levels_meta:
  assumes "length (v_levels v) = 8" "0 \<le> lvl" "lvl + 1 < 8" "l < 8"
  shows "meta \<in> set (merged_levels cm v lvl files ess ! l) \<longleftrightarrow>
    meta \<in> set (v_levels v ! l) \<and> (l = nat lvl \<longrightarrow> meta_path meta \<notin> set files) \<or>
    l = nat (lvl + 1) \<and> merged_entries ess \<noteq> [] \<and> meta = file_meta (merge_target cm v lvl) (v_next_file_number v)"
proof -
  have "nat lvl \<noteq> nat (lvl + 1)" "nat lvl < 8" "nat (lvl + 1) < 8" using assms by auto
  then show ?thesis using assms by (auto simp: merged_levels_def Let_def push_level_def nth_list_update)
qed

lemma merge_same_file:
  assumes "files_ok lib os db" "manager_ok db cm" "picked db lvl files" "lvl + 1 \<le> cm_max_level cm"
    "merge_done lib os db cm lvl files ess os' db'"
    "p = sst_path (db_dir db) l n" "n < v_next_file_number (db_version db)" "p \<notin> set files"
  shows "file_of os' p = file_of os p" "file_of os' (p @ str ''.bloom'') = file_of os (p @ str ''.bloom'')"
proof -
  let ?t = "merge_target cm (db_version db) lvl"
  have t: "?t = sst_path (db_dir db) (nat (lvl + 1)) (v_next_file_number (db_version db))"
    using assms(2) by (simp add: merge_target_def manager_ok_def)
  have m: "version_manifest_path (db_version db) = db_dir db @ str ''/MANIFEST''" using assms(1) by (simp add: files_ok_def)
  have frame: "file_of os' q = file_of os q" if "q \<notin> set files" "q \<noteq> ?t" "q \<noteq> ?t @ str ''.bloom''" "q \<noteq> db_dir db @ str ''/MANIFEST''" for q
    using assms(5) that m unfolding merge_done_def by metis
  have b: "p @ str ''.bloom'' \<notin> set files" using picked_path(2) [OF assms(1,3)] sst_bloom_other assms(6) by metis
  show "file_of os' p = file_of os p" by (rule frame) (use assms(6-8) t in \<open>auto simp: sst_path_inject\<close>)
  show "file_of os' (p @ str ''.bloom'') = file_of os (p @ str ''.bloom'')"
    by (rule frame) (use assms(6,7) b sst_bloom_other in \<open>auto simp: t sst_path_inject\<close>)
qed

lemma merge_registered:
  assumes "files_ok lib os db" "picked db lvl files" "lvl + 1 < 8" "merge_done lib os db cm lvl files ess os' db'"
  shows "registered db' = registered db - set files \<union> (if merged_entries ess = [] then {} else {merge_target cm (db_version db) lvl})"
proof -
  let ?v = "db_version db"
  have len: "length (v_levels ?v) = 8" using assms(1) by (auto simp: files_ok_def version_inv_def)
  have lv: "0 \<le> lvl" "nat (lvl + 1) < 8" using assms(2,3) by (auto simp: picked_def)
  have lev: "v_levels (db_version db') = merged_levels cm ?v lvl files ess" using assms(4) by (simp add: merge_done_def)
  note meta = merged_levels_meta [OF len lv(1) assms(3), of _ _ cm files ess, folded lev]
  have src: "l = nat lvl" if m: "l < 8" "m \<in> set (v_levels ?v ! l)" "meta_path m \<in> set files" for l m
    using files_ok_meta [OF assms(1) m(1,2)] picked_path(2) [OF assms(1,2) m(3)] by (auto simp: sst_path_inject)
  have "p \<in> registered db' \<longleftrightarrow> p \<in> registered db - set files \<or> merged_entries ess \<noteq> [] \<and> p = merge_target cm ?v lvl" for p
  proof
    assume "p \<in> registered db'"
    then obtain l m where m: "l < 8" "m \<in> set (v_levels (db_version db') ! l)" "p = meta_path m" by (auto simp: registered_def)
    from iffD1 [OF meta [OF m(1)] m(2)] show "p \<in> registered db - set files \<or> merged_entries ess \<noteq> [] \<and> p = merge_target cm ?v lvl"
      using m(1,3) src unfolding registered_def by (auto simp: file_meta_def)
  next
    assume "p \<in> registered db - set files \<or> merged_entries ess \<noteq> [] \<and> p = merge_target cm ?v lvl"
    then show "p \<in> registered db'"
    proof
      assume "p \<in> registered db - set files"
      then obtain l m where m: "l < 8" "m \<in> set (v_levels ?v ! l)" "p = meta_path m" "p \<notin> set files" by (auto simp: registered_def)
      then have "m \<in> set (v_levels (db_version db') ! l)" using meta [OF m(1)] by simp
      with m show ?thesis unfolding registered_def by blast
    next
      assume "merged_entries ess \<noteq> [] \<and> p = merge_target cm ?v lvl"
      then have "file_meta p (v_next_file_number ?v) \<in> set (v_levels (db_version db') ! nat (lvl + 1))" using meta [OF lv(2)] by simp
      moreover have "meta_path (file_meta p (v_next_file_number ?v)) = p" by (simp add: file_meta_def)
      ultimately show ?thesis using lv(2) unfolding registered_def by (metis (mono_tags, lifting) mem_Collect_eq)
    qed
  qed
  then show ?thesis by auto
qed

lemma merge_files_ok:
  assumes "files_ok lib os db" "manager_ok db cm" "picked db lvl files" "lvl + 1 \<le> cm_max_level cm" "numbers_left db"
    "merge_done lib os db cm lvl files ess os' db'" "\<forall>es\<in>set ess. sorted_entries es"
  shows "files_ok lib os' db'"
proof -
  let ?v = "db_version db" and ?n = "v_next_file_number (db_version db)"
  have d: "version_inv os' (db_version db')" "os_faults os' = []" "cache_coherent lib os' (db_cache db')" "v_next_file_number (db_version db') = ?n + 1"
    "version_manifest_path (db_version db') = version_manifest_path ?v" "db_dir db' = db_dir db"
    "v_levels (db_version db') = merged_levels cm ?v lvl files ess"
    using assms(6) by (auto simp: merge_done_def)
  have lv: "0 \<le> lvl" "lvl + 1 < 8" "nat (lvl + 1) < 8" using assms(2-4) by (auto simp: picked_def manager_ok_def)
  have len: "length (v_levels ?v) = 8" using assms(1) by (auto simp: files_ok_def version_inv_def)
  have t: "merge_target cm ?v lvl = sst_path (db_dir db) (nat (lvl + 1)) ?n" using assms(2) by (simp add: merge_target_def manager_ok_def)
  have n: "?n < ?n + 1" by (rule next_number [OF assms(5)])
  have tables: "\<exists>k es. meta_path meta = sst_path (db_dir db) l k \<and> k < ?n + 1 \<and> table_on_disk lib os' (meta_path meta) es \<and> sorted_entries es"
    if m: "l < 8" "meta \<in> set (v_levels (db_version db') ! l)" for l meta
    using m(2) unfolding d(7) merged_levels_meta [OF len lv(1,2) m(1)]
  proof
    assume old: "meta \<in> set (v_levels ?v ! l) \<and> (l = nat lvl \<longrightarrow> meta_path meta \<notin> set files)"
    obtain k es where k: "meta_path meta = sst_path (db_dir db) l k" "k < ?n" "table_on_disk lib os (meta_path meta) es" "sorted_entries es"
      using files_ok_meta [OF assms(1) m(1)] old by blast
    have "meta_path meta \<notin> set files" using picked_path(2) [OF assms(1,3)] old k(1) by (metis sst_path_inject)
    from table_on_disk_frame [OF k(3) merge_same_file [OF assms(1-4,6) k(1,2) this]] k n show ?thesis by (meson less_trans)
  next
    assume new: "l = nat (lvl + 1) \<and> merged_entries ess \<noteq> [] \<and> meta = file_meta (merge_target cm ?v lvl) ?n"
    then have "meta_path meta = sst_path (db_dir db) l ?n" by (simp add: file_meta_def t)
    moreover have "table_on_disk lib os' (meta_path meta) (merged_entries ess)" using new assms(6) by (simp add: merge_done_def file_meta_def)
    ultimately show ?thesis using n merged_entries_sorted [OF assms(7)] by blast
  qed
  have "file_of os' (sst_path (db_dir db) l k) = None" if k: "?n + 1 \<le> k" for l k
  proof (cases "sst_path (db_dir db) l k \<in> set files")
    case False
    have "k \<noteq> ?n" "?n \<le> k" using k n by auto
    then have "file_of os' (sst_path (db_dir db) l k) = file_of os (sst_path (db_dir db) l k)"
      using assms(6) False assms(1) by (simp add: merge_done_def t sst_path_inject files_ok_def)
    then show ?thesis using assms(1) \<open>?n \<le> k\<close> by (simp add: files_ok_def)
  qed (use assms(6) in \<open>simp add: merge_done_def\<close>)
  then show ?thesis using assms(1) d tables unfolding files_ok_def d(4-6) by blast
qed

text \<open>A table that is registered before the merge: it stays, or its entries go into the new table or are obsolete.\<close>

lemma merge_table:
  assumes "files_ok lib os db" "manager_ok db cm" "picked db lvl files" "lvl + 1 \<le> cm_max_level cm"
    "merge_done lib os db cm lvl files ess os' db'" "p \<in> registered db" "p \<notin> set files"
  shows "table_on_disk lib os' p es = table_on_disk lib os p es"
proof -
  obtain l n where p: "p = sst_path (db_dir db) l n" "n < v_next_file_number (db_version db)" using registered_path [OF assms(1,6)] by blast
  note f = merge_same_file [OF assms(1-5) p assms(7)]
  show ?thesis using table_on_disk_frame [of lib os p es os'] table_on_disk_frame [of lib os' p es os] f by auto
qed

lemma list_all2_partner:
  assumes "list_all2 P xs ys"
  shows "x \<in> set xs \<Longrightarrow> \<exists>y\<in>set ys. P x y" "y \<in> set ys \<Longrightarrow> \<exists>x\<in>set xs. P x y"
  using assms by (induction rule: list_all2_induct) auto

lemma merge_entries:
  assumes "files_ok lib os db" "manager_ok db cm" "picked db lvl files" "lvl + 1 \<le> cm_max_level cm"
    "merge_done lib os db cm lvl files ess os' db'" "list_all2 (\<lambda>p es. table_on_disk lib os p es \<and> sorted_entries es) files ess"
  shows "tab_entries lib os' db' \<subseteq> tab_entries lib os db"
    "\<And>e. e \<in> tab_entries lib os db \<Longrightarrow> e \<in> tab_entries lib os' db' \<or> (\<exists>es\<in>set ess. e \<in> set es) \<and> e \<notin> set (merged_entries ess)"
proof -
  let ?t = "merge_target cm (db_version db) lvl"
  have lv: "lvl + 1 < 8" using assms(2,4) by (simp add: manager_ok_def)
  note reg = merge_registered [OF assms(1,3) lv assms(5)]
  note same = merge_table [OF assms(1-5)]
  have new: "table_on_disk lib os' ?t (merged_entries ess)" if "merged_entries ess \<noteq> []" using assms(5) that by (simp add: merge_done_def)
  have src: "e \<in> tab_entries lib os db" if e: "e \<in> set (merged_entries ess)" for e
  proof -
    obtain es where es: "es \<in> set ess" "e \<in> set es" using merged_entries_live [OF e] by blast
    then obtain p where "p \<in> set files" "table_on_disk lib os p es" using list_all2_partner(2) [OF assms(6)] by blast
    then show ?thesis using es(2) picked_path(1) [OF assms(1,3)] unfolding tab_entries_def by blast
  qed
  show "tab_entries lib os' db' \<subseteq> tab_entries lib os db"
  proof
    fix e assume "e \<in> tab_entries lib os' db'"
    then obtain p es where p: "p \<in> registered db'" "table_on_disk lib os' p es" "e \<in> set es" by (auto simp: tab_entries_def)
    then show "e \<in> tab_entries lib os db"
    proof (cases "p \<in> registered db - set files")
      case True
      then show ?thesis using p(2,3) same unfolding tab_entries_def by blast
    next
      case False
      then have "merged_entries ess \<noteq> []" "p = ?t" using p(1) reg by (auto split: if_splits)
      then show ?thesis using table_on_disk_unique [OF new] p(2,3) src by blast
    qed
  qed
  show "e \<in> tab_entries lib os' db' \<or> (\<exists>es\<in>set ess. e \<in> set es) \<and> e \<notin> set (merged_entries ess)" if e: "e \<in> tab_entries lib os db" for e
  proof -
    obtain p es where p: "p \<in> registered db" "table_on_disk lib os p es" "e \<in> set es" using e by (auto simp: tab_entries_def)
    have kept: "e \<in> tab_entries lib os' db'" if m: "e \<in> set (merged_entries ess)"
    proof -
      have "merged_entries ess \<noteq> []" using m by auto
      then show ?thesis using new reg m unfolding tab_entries_def by auto
    qed
    show ?thesis
    proof (cases "p \<in> set files")
      case True
      then obtain es' where "es' \<in> set ess" "table_on_disk lib os p es'" using list_all2_partner(1) [OF assms(6)] by blast
      then show ?thesis using table_on_disk_unique [OF p(2)] p(3) kept by blast
    next
      case False
      then show ?thesis using p reg same [OF p(1) False] unfolding tab_entries_def by blast
    qed
  qed
qed

lemma merge_wals_ok:
  assumes "files_ok lib os db" "wals_ok os db fl" "manager_ok db cm" "picked db lvl files" "numbers_left db"
    "merge_done lib os db cm lvl files ess os' db'"
  shows "wals_ok os' db' fl"
proof -
  let ?p = "db_current_wal db"
  have w: "is_wal_path (db_dir db) ?p" using assms(2) by (rule wals_ok_current)
  have m: "version_manifest_path (db_version db) = db_dir db @ str ''/MANIFEST''" "cm_db_path cm = db_dir db"
    using assms(1,3) by (simp_all add: files_ok_def manager_ok_def)
  have "?p \<notin> set files" using picked_path(2) [OF assms(1,4)] wal_path_other(1) [OF w] by blast
  moreover have "?p \<noteq> merge_target cm (db_version db) lvl" "?p \<noteq> merge_target cm (db_version db) lvl @ str ''.bloom''" "?p \<noteq> db_dir db @ str ''/MANIFEST''"
    using wal_path_other [OF w] m by (simp_all add: merge_target_def)
  ultimately have "file_of os' ?p = file_of os ?p" using assms(6) m by (simp add: merge_done_def)
  moreover have "v_next_file_number (db_version db) \<le> v_next_file_number (db_version db')"
    using assms(6) next_number [OF assms(5)] by (simp add: merge_done_def less_imp_le)
  moreover obtain v c cache where "db' = db\<lparr>db_version := v, db_cache := cache, db_compaction := Some c\<rparr>" using assms(6) by (auto simp: merge_done_def)
  moreover from this have "old_wals db' fl = old_wals db fl" by (simp add: old_wals_def)
  ultimately show ?thesis using assms(2) wal_below_mono unfolding wals_ok_def by auto
qed

section \<open>The invariant of the engine\<close>

definition setup_ok :: "DBImpl \<Rightarrow> bool" where
  "setup_ok db \<longleftrightarrow> (\<exists>cm. db_compaction db = Some cm \<and> manager_ok db cm) \<and>
     (\<forall>l<8. max_level (db_options db) < int l \<longrightarrow> v_levels (db_version db) ! l = [])"

definition engine_inv :: "codec_lib \<Rightarrow> engine \<Rightarrow> bool" where
  "engine_inv lib e \<longleftrightarrow>
     sys_inv_but lib {w. obsolete (s_hist (e_sys e)) w} (e_sys e) \<and>
     stored lib (e_sys e) \<subseteq> entry_of ` set (s_hist (e_sys e)) \<and> numbered (e_sys e) \<and> setup_ok (s_db (e_sys e)) \<and>
     (\<forall>lvl files. e_merge e = Some (lvl, files) \<longrightarrow> picked (s_db (e_sys e)) lvl files)"

lemma sys_inv_but_mono:
  assumes "sys_inv_but lib ex s" "ex \<subseteq> ex'"
  shows "sys_inv_but lib ex' s"
proof -
  obtain Ws ws where "files_ok lib (s_os s) (s_db s)" "wals_ok (s_os s) (s_db s) (s_flush s)"
    "layers_ok (s_db s) (s_flush s) Ws ws" "flush_ok lib ex (s_os s) (s_db s) (s_flush s) Ws"
    "\<And>w. w \<in> set (s_hist s) \<Longrightarrow> w \<in> set (concat Ws @ ws) \<or> in_table lib (s_os s) (s_db s) w \<or> w \<in> ex"
    using assms(1) by (rule sys_inv_butE) blast
  then show ?thesis using assms(2) by (intro sys_inv_butI [of lib s Ws ws]) (auto simp: flush_ok_def)
qed

lemma level_grows_files:
  assumes "level_grows (v_levels v) (v_levels v')"
  shows "set (Version_getLevelFiles v lvl) \<subseteq> set (Version_getLevelFiles v' lvl)"
    "0 < l \<Longrightarrow> v_levels v' ! l = v_levels v ! l"
proof -
  obtain new where n: "v_levels v' = (v_levels v)[0 := v_levels v ! 0 @ new]" using assms by (auto simp: level_grows_def)
  then have "set (v_levels v ! i) \<subseteq> set (v_levels v' ! i)" if "i < length (v_levels v)" for i
    using that by (cases "i = 0") auto
  from this [of "nat lvl"] show "set (Version_getLevelFiles v lvl) \<subseteq> set (Version_getLevelFiles v' lvl)"
    using n by (auto simp: Version_getLevelFiles_def not_le nat_less_iff intro!: imageI)
  show "0 < l \<Longrightarrow> v_levels v' ! l = v_levels v ! l" by (simp add: n)
qed

lemma other_keeps_engine:
  assumes "db_step lib (e_sys e) s'" "engine_inv lib e"
  shows "engine_inv lib (e\<lparr>e_sys := s'\<rparr>)"
proof -
  let ?s = "e_sys e"
  have i: "sys_inv_but lib {w. obsolete (s_hist ?s) w} ?s" "stored lib ?s \<subseteq> entry_of ` set (s_hist ?s)" "numbered ?s" "setup_ok (s_db ?s)"
    "\<And>lvl files. e_merge e = Some (lvl, files) \<Longrightarrow> picked (s_db ?s) lvl files"
    using assms(2) unfolding engine_inv_def by blast+
  obtain us where h: "numbered s'" "s_hist s' = s_hist ?s @ us" using step_numbered [OF assms(1) i(3)] by blast
  have "sys_inv_but lib {w. obsolete (s_hist s') w} s'"
    by (rule sys_inv_but_mono [OF step_keeps_inv_but [OF assms(1) i(1)]]) (auto simp: h(2) intro: obsolete_append)
  moreover have "stored lib s' \<subseteq> entry_of ` set (s_hist s')" using step_stored(1) [OF assms(1) i(1)] i(2) h(2) by auto
  moreover note g = level_grows_files [OF step_stored(2) [OF assms(1) i(1)]]
  have "setup_ok (s_db s')" using i(4) step_setup [OF assms(1)] g(2) by (auto simp: setup_ok_def same_setup_def manager_ok_def)
  moreover have "picked (s_db s') lvl files" if "e_merge e = Some (lvl, files)" for lvl files
    using i(5) [OF that] g(1) by (auto simp: picked_def)
  ultimately show ?thesis using h(1) by (simp add: engine_inv_def)
qed

text \<open>Steps that only change the compaction manager and what it has picked.\<close>

lemma manager_keeps_engine:
  assumes "engine_inv lib e" "s' = (e_sys e)\<lparr>s_db := (s_db (e_sys e))\<lparr>db_compaction := Some cm\<rparr>\<rparr>" "manager_ok (s_db (e_sys e)) cm"
    "\<And>lvl files. m = Some (lvl, files) \<Longrightarrow> picked (s_db (e_sys e)) lvl files"
  shows "engine_inv lib (e\<lparr>e_sys := s', e_merge := m\<rparr>)"
proof -
  let ?s = "e_sys e" and ?db = "s_db (e_sys e)" and ?ex = "{w. obsolete (s_hist (e_sys e)) w}"
  let ?db' = "(s_db (e_sys e))\<lparr>db_compaction := Some cm\<rparr>"
  have i: "sys_inv_but lib ?ex ?s" "stored lib ?s \<subseteq> entry_of ` set (s_hist ?s)" "numbered ?s" "setup_ok ?db"
    using assms(1) unfolding engine_inv_def by blast+
  obtain Ws ws where o: "files_ok lib (s_os ?s) ?db" "wals_ok (s_os ?s) ?db (s_flush ?s)"
    "layers_ok ?db (s_flush ?s) Ws ws" "flush_ok lib ?ex (s_os ?s) ?db (s_flush ?s) Ws"
    "\<And>w. w \<in> set (s_hist ?s) \<Longrightarrow> w \<in> set (concat Ws @ ws) \<or> in_table lib (s_os ?s) ?db w \<or> w \<in> ?ex"
    using i(1) by (rule sys_inv_butE) blast
  have t: "in_table lib (s_os ?s) ?db' w = in_table lib (s_os ?s) ?db w" for w by (intro in_table_levels) simp
  have "sys_inv_but lib ?ex s'"
  proof (rule sys_inv_butI [of _ _ Ws ws])
    show "files_ok lib (s_os s') (s_db s')" "wals_ok (s_os s') (s_db s') (s_flush s')" "layers_ok (s_db s') (s_flush s') Ws ws"
      using o(1-3) files_ok_fields(1) [of ?db' ?db] wals_ok_fields [of ?db' ?db] layers_ok_fields [of ?db' ?db] by (simp_all add: assms(2))
  qed (use o(4,5) t in \<open>auto simp: flush_ok_def assms(2)\<close>)
  moreover have "stored lib s' \<subseteq> stored lib ?s" by (rule stored_mono) (simp_all add: assms(2) memtables_def)
  moreover have "numbered s'" "setup_ok (s_db s')" using i(3,4) assms(3) by (simp_all add: assms(2) numbered_def setup_ok_def manager_ok_def)
  moreover have "s_hist s' = s_hist ?s" by (simp add: assms(2))
  ultimately show ?thesis using i(2) assms(4) by (auto simp: engine_inv_def picked_def assms(2))
qed

text \<open>A merge.\<close>

lemma note_result_manager: "manager_ok db cm \<Longrightarrow> manager_ok db (note_result cm st)"
  by (simp add: manager_ok_def note_result_def)

lemma merge_installs:
  assumes "files_ok lib (s_os s) (s_db s)" "manager_ok (s_db s) cm" "picked (s_db s) lvl files" "files \<noteq> []" "lvl + 1 \<le> cm_max_level cm"
    "merge_fits lib (s_os s) files" "list_all2 (\<lambda>p es. table_on_disk lib (s_os s) p es \<and> sorted_entries es) files ess"
  shows "\<exists>os' db'. merge_install s cm (mergeLevelFiles lib (s_os s) (db_version (s_db s)) (db_cache (s_db s)) cm lvl files) =
      s\<lparr>s_os := os', s_db := db'\<rparr> \<and> merge_done lib (s_os s) (s_db s) cm lvl files ess os' db' \<and> db_compaction db' = Some (note_result cm Status_Ok)"
proof -
  let ?db = "s_db s"
  from mergeLevelFiles_ok [OF picked_inputs [OF assms]] obtain os' v' cache' where
    r: "mergeLevelFiles lib (s_os s) (db_version ?db) (db_cache ?db) cm lvl files = (os', v', cache', Status_Ok)"
    and f: "version_inv os' v'" "os_faults os' = []" "cache_coherent lib os' cache'"
      "v_levels v' = merged_levels cm (db_version ?db) lvl files ess" "v_next_file_number v' = v_next_file_number (db_version ?db) + 1"
      "version_manifest_path v' = version_manifest_path (db_version ?db)"
      "merged_entries ess \<noteq> [] \<longrightarrow> table_on_disk lib os' (merge_target cm (db_version ?db) lvl) (merged_entries ess)"
      "\<forall>p\<in>set files. file_of os' p = None"
      "\<forall>q. q \<notin> set files \<and> q \<noteq> merge_target cm (db_version ?db) lvl \<and> q \<noteq> merge_target cm (db_version ?db) lvl @ str ''.bloom'' \<and>
         q \<noteq> version_manifest_path (db_version ?db) \<longrightarrow> file_of os' q = file_of (s_os s) q"
    by (elim exE conjE) (rule that)
  let ?db' = "?db\<lparr>db_version := v', db_cache := cache', db_compaction := Some (note_result cm Status_Ok)\<rparr>"
  have "merge_done lib (s_os s) ?db cm lvl files ess os' ?db'" using f by (simp add: merge_done_def) blast
  then show ?thesis using r by (intro exI [of _ os'] exI [of _ ?db']) (simp add: merge_install_def)
qed

lemma merge_keeps_levels:
  assumes "files_ok lib os db" "manager_ok db cm" "picked db lvl files" "lvl + 1 \<le> cm_max_level cm" "merge_done lib os db cm lvl files ess os' db'"
    "\<forall>l<8. max_level (db_options db) < int l \<longrightarrow> v_levels (db_version db) ! l = []" "l < 8" "max_level (db_options db) < int l"
  shows "v_levels (db_version db') ! l = []"
proof -
  have "length (v_levels (db_version db)) = 8" using assms(1) by (auto simp: files_ok_def version_inv_def)
  then have "meta \<notin> set (v_levels (db_version db') ! l)" for meta
    using merged_levels_meta [of "db_version db" lvl l meta cm files ess] assms(2-8) by (auto simp: merge_done_def manager_ok_def picked_def)
  then show ?thesis by (cases "v_levels (db_version db') ! l") auto
qed

lemma merge_keeps_writes:
  assumes "engine_inv lib e" "s = e_sys e" "manager_ok (s_db s) cm" "picked (s_db s) lvl files" "lvl + 1 \<le> cm_max_level cm" "numbers_left (s_db s)"
    "merge_done lib (s_os s) (s_db s) cm lvl files ess os' db'" "list_all2 (\<lambda>p es. table_on_disk lib (s_os s) p es \<and> sorted_entries es) files ess"
  shows "sys_inv_but lib {w. obsolete (s_hist s) w} (s\<lparr>s_os := os', s_db := db'\<rparr>)" "stored lib (s\<lparr>s_os := os', s_db := db'\<rparr>) \<subseteq> stored lib s"
proof -
  let ?ex = "{w. obsolete (s_hist s) w}"
  have i: "sys_inv_but lib ?ex s" "stored lib s \<subseteq> entry_of ` set (s_hist s)" "seqs_increasing (s_hist s)"
    using assms(1,2) unfolding engine_inv_def numbered_def by blast+
  obtain Ws ws where o: "files_ok lib (s_os s) (s_db s)" "wals_ok (s_os s) (s_db s) (s_flush s)"
    "layers_ok (s_db s) (s_flush s) Ws ws" "flush_ok lib ?ex (s_os s) (s_db s) (s_flush s) Ws"
    "\<And>w. w \<in> set (s_hist s) \<Longrightarrow> w \<in> set (concat Ws @ ws) \<or> in_table lib (s_os s) (s_db s) w \<or> w \<in> ?ex"
    using i(1) by (rule sys_inv_butE) blast
  note m = merge_entries [OF o(1) assms(3,4,5,7,8)]
  have db': "memtables db' = memtables (s_db s)" "layers_ok db' (s_flush s) Ws ws"
    using assms(7) o(3) layers_ok_fields [of db' "s_db s"] by (auto simp: merge_done_def memtables_def)
  have srt: "\<forall>es\<in>set ess. sorted_entries es" using list_all2_partner(2) [OF assms(8)] by blast
  have sub: "set es \<subseteq> entry_of ` set (s_hist s)" if es: "es \<in> set ess" for es
  proof -
    obtain p where "p \<in> set files" "table_on_disk lib (s_os s) p es" using list_all2_partner(2) [OF assms(8) es] by blast
    then have "set es \<subseteq> stored lib s" using picked_path(1) [OF o(1) assms(4)] by (auto simp: stored_def tab_entries_def)
    with i(2) show ?thesis by blast
  qed
  have keep: "in_table lib os' db' w \<or> w \<in> ?ex" if w: "in_table lib (s_os s) (s_db s) w" "unat (w_seq w) < 2 ^ 56" for w
    using m(2) [of "entry_of w"] w merge_drops_obsolete [OF i(3) _ w(2), of ess] srt sub unfolding in_table_entries by blast
  have hist: "unat (w_seq w) < 2 ^ 56" if "w \<in> set (s_hist s)" for w using i(3) that by (simp add: seqs_increasing_def)
  have layer: "unat (w_seq w) < 2 ^ 56" if "w \<in> set (concat Ws @ ws)" for w
    using o(3) that unfolding layers_ok_def seqs_increasing_def by blast
  have "flush_ok lib ?ex os' db' (s_flush s) Ws"
    unfolding flush_ok_def
  proof (intro allI impI)
    fix f assume f: "s_flush s = Some (f, Built)"
    then have W: "Ws \<noteq> []" "\<forall>w\<in>set (hd Ws). in_table lib (s_os s) (s_db s) w \<or> w \<in> ?ex" using o(4) by (auto simp: flush_ok_def)
    then have "w \<in> set (hd Ws) \<Longrightarrow> w \<in> set (concat Ws @ ws)" for w by (cases Ws) auto
    with W keep layer show "Ws \<noteq> [] \<and> (\<forall>w\<in>set (hd Ws). in_table lib os' db' w \<or> w \<in> ?ex)" by blast
  qed
  moreover have "w \<in> set (concat Ws @ ws) \<or> in_table lib os' db' w \<or> w \<in> ?ex" if "w \<in> set (s_hist s)" for w
    using o(5) [OF that] keep hist [OF that] by blast
  ultimately show "sys_inv_but lib ?ex (s\<lparr>s_os := os', s_db := db'\<rparr>)"
    using merge_files_ok [OF o(1) assms(3-7) srt] merge_wals_ok [OF o(1,2) assms(3,4,6,7)] db'(2)
    by (intro sys_inv_butI [of _ _ Ws ws]) simp_all
  show "stored lib (s\<lparr>s_os := os', s_db := db'\<rparr>) \<subseteq> stored lib s" using m(1) db'(1) by (auto simp: stored_def mem_entries_def)
qed

lemma merge_keeps_engine:
  assumes "engine_inv lib e" "e_merge e = Some (lvl, files)" "s = e_sys e" "db_compaction (s_db s) = Some cm" "numbers_left (s_db s)"
    "merge_fits lib (s_os s) files"
  shows "engine_inv lib (e\<lparr>e_sys := merge_install s cm
      (mergeLevelFiles lib (s_os s) (db_version (s_db s)) (db_cache (s_db s)) cm lvl files), e_merge := None\<rparr>)"
proof -
  let ?r = "mergeLevelFiles lib (s_os s) (db_version (s_db s)) (db_cache (s_db s)) cm lvl files"
  have i: "sys_inv_but lib {w. obsolete (s_hist s) w} s" "stored lib s \<subseteq> entry_of ` set (s_hist s)" "numbered s" "setup_ok (s_db s)" "picked (s_db s) lvl files"
    using assms(1-3) unfolding engine_inv_def by blast+
  have cm: "manager_ok (s_db s) cm" using i(4) assms(4) by (simp add: setup_ok_def)
  have files: "files_ok lib (s_os s) (s_db s)" using i(1) by (rule sys_inv_butE)
  show ?thesis
  proof (cases "files = [] \<or> \<not> lvl + 1 \<le> cm_max_level cm")
    case True
    then have "?r = (s_os s, db_version (s_db s), db_cache (s_db s), Status_Ok)" by (auto simp: mergeLevelFiles_def)
    then have "merge_install s cm ?r = s\<lparr>s_db := (s_db s)\<lparr>db_compaction := Some (note_result cm Status_Ok)\<rparr>\<rparr>" by (simp add: merge_install_def)
    then show ?thesis using assms(3) note_result_manager [OF cm] by (intro manager_keeps_engine [OF assms(1)]) auto
  next
    case False
    then have ne: "files \<noteq> []" and lv: "lvl + 1 \<le> cm_max_level cm" by auto
    obtain ess where ess: "list_all2 (\<lambda>p es. table_on_disk lib (s_os s) p es \<and> sorted_entries es) files ess"
      using picked_tables [OF files i(5)] .
    obtain os' db' where r: "merge_install s cm ?r = s\<lparr>s_os := os', s_db := db'\<rparr>" "merge_done lib (s_os s) (s_db s) cm lvl files ess os' db'"
      "db_compaction db' = Some (note_result cm Status_Ok)"
      using merge_installs [OF files cm i(5) ne lv assms(6) ess] by blast
    note k = merge_keeps_writes [OF assms(1,3) cm i(5) lv assms(5) r(2) ess]
    have f: "db_dir db' = db_dir (s_db s)" "db_options db' = db_options (s_db s)" "db_seq db' = db_seq (s_db s)" using r(2) by (auto simp: merge_done_def)
    have "setup_ok db'"
      using merge_keeps_levels [OF files cm i(5) lv r(2)] i(4) r(3) f note_result_manager [OF cm] by (auto simp: setup_ok_def manager_ok_def)
    then show ?thesis using k i(2,3) f(3) by (simp add: engine_inv_def r(1) numbered_def)
  qed
qed

theorem engine_step_inv: "engine_step lib e e' \<Longrightarrow> engine_inv lib e \<Longrightarrow> engine_inv lib e'"
proof (induction rule: engine_step.induct)
  case (other e s')
  then show ?case by (intro other_keeps_engine)
next
  case (trigger e)
  then obtain cm where cm: "db_compaction (s_db (e_sys e)) = Some cm" "manager_ok (s_db (e_sys e)) cm" by (auto simp: engine_inv_def setup_ok_def)
  then have "DBImpl_compact (s_db (e_sys e)) = (s_db (e_sys e))\<lparr>db_compaction := Some (triggerCompaction cm)\<rparr>" by (simp add: DBImpl_compact_def)
  moreover have "manager_ok (s_db (e_sys e)) (triggerCompaction cm)" using cm(2) by (simp add: manager_ok_def triggerCompaction_def)
  ultimately show ?case using manager_keeps_engine [OF trigger refl, of "triggerCompaction cm" "e_merge e"] trigger by (simp add: engine_inv_def)
next
  case (pick_l0 e s cm)
  have "manager_ok (s_db s) (cm\<lparr>cm_triggered := False\<rparr>)" using pick_l0 by (simp add: engine_inv_def setup_ok_def manager_ok_def)
  moreover have "picked (s_db s) 0 (Version_getLevelFiles (db_version (s_db s)) 0)" by (simp add: picked_def)
  ultimately show ?case using pick_l0(2) by (intro manager_keeps_engine [OF pick_l0(6)]) auto
next
  case (pick_level e s cm lvl files)
  have "manager_ok (s_db s) cm" using pick_level by (simp add: engine_inv_def setup_ok_def)
  then have "picked (s_db s) lvl files" using pick_level(5,6,8) by (simp add: picked_def manager_ok_def)
  then show ?case using pick_level(2,10) by (simp add: engine_inv_def)
next
  case (merge e lvl files s cm)
  show ?case by (rule merge_keeps_engine [OF merge(6,1-5)])
qed

theorem engine_reachable_inv: "(engine_step lib)\<^sup>*\<^sup>* e e' \<Longrightarrow> engine_inv lib e \<Longrightarrow> engine_inv lib e'"
  by (induction rule: rtranclp_induct) (auto intro: engine_step_inv)

section \<open>What the invariant gives\<close>

text \<open>A new database.\<close>

lemma fresh_engine:
  assumes "os_files os = []" "os_faults os = []" "open_ok opts dir" "codec_ok lib" "0 \<le> max_level opts" "max_level opts \<le> 7"
    "DBImpl_open os opts rngs = Some (os', Some db, st)"
  shows "engine_inv lib \<lparr>e_sys = \<lparr>s_os = os', s_db = db, s_hist = [], s_flush = None\<rparr>, e_merge = None\<rparr>"
proof -
  let ?s = "\<lparr>s_os = os', s_db = db, s_hist = [], s_flush = None\<rparr>"
  have f: "db_options db = opts" "db_dir db = dir" "v_levels (db_version db) = replicate 8 []" "sys_ok lib ?s [] []"
    using fresh_open_state [OF assms(1-4), of rngs] assms(7) by auto
  have cm: "db_compaction db = Some (CompactionManager_start (CompactionManager_new (db_dir db) (block_size opts) (max_level opts) (level0_compaction_trigger opts)))"
    using assms(7) f(2) by (auto simp: DBImpl_open_def Let_def split: option.splits prod.splits if_splits)
  have inv: "sys_inv_but lib {w. obsolete [] w} ?s"
    by (rule sys_inv_but_mono [of lib "{}"]) (use f(4) in \<open>auto simp: sys_inv_but [symmetric] sys_inv_def\<close>)
  have "registered db = {}" using f(3) by (auto simp: registered_def)
  moreover have "mem_entries db = {}" using f(4) layers_entries [of db None "[]" "[]"] by (simp add: sys_ok_def)
  ultimately have "stored lib ?s = {}" by (simp add: stored_def tab_entries_def)
  moreover have "numbered ?s" by (simp add: numbered_def seqs_increasing_def)
  moreover have "setup_ok db" using cm f assms(5,6) by (auto simp: setup_ok_def manager_ok_def CompactionManager_start_def CompactionManager_new_def)
  ultimately show ?thesis using inv by (simp add: engine_inv_def)
qed

lemma engine_keeps_writes:
  assumes "engine_inv lib e" "w \<in> set (s_hist (e_sys e))" "\<not> obsolete (s_hist (e_sys e)) w"
  shows "in_memory (s_db (e_sys e)) w \<or> in_table lib (s_os (e_sys e)) (s_db (e_sys e)) w"
  using inv_but_keeps_writes [of lib _ "e_sys e" w] assms unfolding engine_inv_def by blast

lemma engine_consistent: "engine_inv lib e \<Longrightarrow> db_consistent lib (s_os (e_sys e)) (s_db (e_sys e))"
  unfolding engine_inv_def by (blast intro: sys_inv_but_consistent)

section \<open>What a reader finds\<close>

lemma scan_some: "memtable_scan es k = Some v \<Longrightarrow> \<exists>ik. (ik, v) \<in> set es \<and> InternalKeyUserKey ik = k \<and> \<not> IsDeletion ik"
  by (induction es) (auto simp: scan_cons simp del: memtable_scan.simps(2) split: if_splits)

lemma scan_finds:
  assumes "sorted (map user_of es)" "e \<in> set es" "user_of e = k" "\<forall>e\<in>set es. user_of e = k \<longrightarrow> \<not> IsDeletion (fst e)"
  shows "memtable_scan es k \<noteq> None"
  using assms by (induction es) (auto simp: scan_cons simp del: memtable_scan.simps(2))

lemma first_live_some: "first_live ess k = Some v \<Longrightarrow> \<exists>es\<in>set ess. memtable_scan es k = Some v"
  by (induction ess) (auto split: option.splits)

lemma first_live_none: "first_live ess k = None \<longleftrightarrow> (\<forall>es\<in>set ess. memtable_scan es k = None)"
  by (induction ess) (auto split: option.splits)

lemma setup_table_paths:
  assumes "setup_ok db" "length (v_levels (db_version db)) = 8"
  shows "set (table_paths db) = registered db"
proof -
  have lv: "0 \<le> max_level (db_options db)" "max_level (db_options db) \<le> 7" using assms(1) by (auto simp: setup_ok_def manager_ok_def)
  have "p \<in> set (table_paths db)" if "l < 8" "meta \<in> set (v_levels (db_version db) ! l)" "p = meta_path meta" for p l meta
  proof -
    have "int l \<le> max_level (db_options db)" using assms(1) that(1,2) by (fastforce simp: setup_ok_def)
    then show ?thesis using that assms(2) by (auto simp: table_paths_def Version_getLevelFiles_def intro!: bexI [of _ "int l"])
  qed
  moreover have "p \<in> registered db" if "p \<in> set (table_paths db)" for p
    using that lv assms(2) by (force simp: table_paths_def Version_getLevelFiles_def registered_def split: if_splits)
  ultimately show ?thesis by (auto simp: registered_def)
qed

lemma sorted_entries_users: "sorted_entries es \<Longrightarrow> sorted (map user_of es)"
  by (rule sorted_user_of, rule strict_sorted_imp_sorted) (simp add: sorted_entries_def sorted_wrt_map)

text \<open>The layers a read goes through: sorted, and together they hold what is stored.\<close>

lemma engine_layers:
  assumes "engine_inv lib e" "s = e_sys e"
  obtains lays st r db' where "\<forall>es\<in>set lays. sorted (map user_of es)" "\<Union> (set ` set lays) = stored lib s"
    "DBImpl_get lib (s_os s) (s_db s) k = Some (st, r, db')" "r = first_live lays k" "st = (if r = None then Status_NotFound [] else Status_Ok)"
proof -
  have i: "sys_inv_but lib {w. obsolete (s_hist s) w} s" "setup_ok (s_db s)" using assms unfolding engine_inv_def by blast+
  obtain Ws ws where o: "files_ok lib (s_os s) (s_db s)" "layers_ok (s_db s) (s_flush s) Ws ws" using i(1) by (rule sys_inv_butE)
  obtain ess where ess: "list_all2 (\<lambda>p es. table_on_disk lib (s_os s) p es \<and> sorted_entries es) (table_paths (s_db s)) ess"
    using table_paths_tables [OF o(1)] by blast
  let ?lays = "map MemTable_content (memtables (s_db s)) @ ess"
  have f: "cache_coherent lib (s_os s) (db_cache (s_db s))" "length (v_levels (db_version (s_db s))) = 8"
    using o(1) by (auto simp: files_ok_def version_inv_def)
  have paths: "set (table_paths (s_db s)) = registered (s_db s)" using i(2) f(2) by (rule setup_table_paths)
  have "\<Union> (set ` set ess) = tab_entries lib (s_os s) (s_db s)"
  proof
    show "\<Union> (set ` set ess) \<subseteq> tab_entries lib (s_os s) (s_db s)"
      using list_all2_partner(2) [OF ess] unfolding tab_entries_def paths by blast
    show "tab_entries lib (s_os s) (s_db s) \<subseteq> \<Union> (set ` set ess)"
    proof
      fix e assume "e \<in> tab_entries lib (s_os s) (s_db s)"
      then obtain p es where p: "p \<in> registered (s_db s)" "table_on_disk lib (s_os s) p es" "e \<in> set es" by (auto simp: tab_entries_def)
      obtain es' where "es' \<in> set ess" "table_on_disk lib (s_os s) p es'" using list_all2_partner(1) [OF ess] p(1) paths by blast
      then show "e \<in> \<Union> (set ` set ess)" using table_on_disk_unique [OF p(2)] p(3) by blast
    qed
  qed
  then have all: "\<Union> (set ` set ?lays) = stored lib s" by (simp add: stored_def mem_entries_def)
  have "MemTable_inv mt" if "mt \<in> set (memtables (s_db s))" for mt using layers_memtables(2) [OF o(2)] that by (simp add: list_all_iff)
  then have srt: "\<forall>es\<in>set ?lays. sorted (map user_of es)"
    using list_all2_partner(2) [OF ess] by (auto intro: sorted_entries_users MemTable_content_sorted)
  obtain cache' where "DBImpl_get lib (s_os s) (s_db s) k =
    Some (case first_live ?lays k of
            Some v \<Rightarrow> (Status_Ok, Some v, if first_live (map MemTable_content (memtables (s_db s))) k = None then (s_db s)\<lparr>db_cache := cache'\<rparr> else s_db s)
          | None \<Rightarrow> (Status_NotFound [], None, (s_db s)\<lparr>db_cache := cache'\<rparr>))"
    using DBImpl_get_layers [OF layers_memtables(2) [OF o(2)] ess f(1)] by blast
  then show thesis using that [OF srt all] by (cases "first_live ?lays k") auto
qed

lemma newest_write:
  assumes "w \<in> set hist" "w_key w = k"
  obtains v where "v \<in> set hist" "w_key v = k" "\<forall>u\<in>set hist. w_key u = k \<longrightarrow> w_seq u \<le> w_seq v"
proof -
  let ?S = "{v \<in> set hist. w_key v = k}"
  have "Max (w_seq ` ?S) \<in> w_seq ` ?S" using assms by (intro Max_in) auto
  then obtain v where v: "Max (w_seq ` ?S) = w_seq v" "v \<in> ?S" by (rule imageE)
  have "w_seq u \<le> w_seq v" if "u \<in> ?S" for u unfolding v(1) [symmetric] by (rule Max_ge) (use that in simp_all)
  with v(2) show thesis by (intro that [of v]) auto
qed

text \<open>
  Whatever a read returns was put under that key, and a key that was put and never deleted is
  found, through all flushes and compactions.
\<close>

theorem engine_get:
  assumes "engine_inv lib e" "s = e_sys e"
  obtains st r db' where "DBImpl_get lib (s_os s) (s_db s) k = Some (st, r, db')" "st = (if r = None then Status_NotFound [] else Status_Ok)"
    "\<And>v. r = Some v \<Longrightarrow> \<exists>w\<in>set (s_hist s). w_key w = k \<and> w_value w = v \<and> \<not> w_delete w"
    "k \<noteq> [] \<Longrightarrow> k \<in> w_key ` set (s_hist s) \<Longrightarrow> \<forall>w\<in>set (s_hist s). w_key w = k \<longrightarrow> \<not> w_delete w \<Longrightarrow> r \<noteq> None"
proof -
  obtain lays st r db' where l: "\<forall>es\<in>set lays. sorted (map user_of es)" "\<Union> (set ` set lays) = stored lib s"
    "DBImpl_get lib (s_os s) (s_db s) k = Some (st, r, db')" "r = first_live lays k" "st = (if r = None then Status_NotFound [] else Status_Ok)"
    using assms by (rule engine_layers)
  have i: "stored lib s \<subseteq> entry_of ` set (s_hist s)" "seqs_increasing (s_hist s)" using assms by (auto simp: engine_inv_def numbered_def)
  have ent: "\<exists>w\<in>set (s_hist s). e = entry_of w \<and> unat (w_seq w) < 2 ^ 56" if e: "es \<in> set lays" "e \<in> set es" for es e
  proof -
    have "e \<in> stored lib s" using e l(2) by blast
    then show ?thesis using i by (auto simp: seqs_increasing_def)
  qed
  have sound: "\<exists>w\<in>set (s_hist s). w_key w = k \<and> w_value w = v \<and> \<not> w_delete w" if r: "r = Some v" for v
  proof -
    obtain es where es: "es \<in> set lays" "memtable_scan es k = Some v" using first_live_some [of lays k v] l(4) r by auto
    then obtain ik where ik: "(ik, v) \<in> set es" "InternalKeyUserKey ik = k" "\<not> IsDeletion ik" using scan_some by blast
    then obtain w where w: "w \<in> set (s_hist s)" "(ik, v) = entry_of w" "unat (w_seq w) < 2 ^ 56" using ent [OF es(1)] by blast
    have "w_key w = k" "\<not> w_delete w" using entry_of_parts(1,3) [OF w(3)] w(2) ik(2,3) by (metis fst_conv)+
    moreover have "w_value w = v \<or> w_delete w" using w(2) by (auto simp: entry_of_def)
    ultimately show ?thesis using w(1) by blast
  qed
  have found: "r \<noteq> None" if k: "k \<noteq> []" "k \<in> w_key ` set (s_hist s)" "\<forall>w\<in>set (s_hist s). w_key w = k \<longrightarrow> \<not> w_delete w"
  proof -
    obtain w where w: "w \<in> set (s_hist s)" "w_key w = k" "\<forall>u\<in>set (s_hist s). w_key u = k \<longrightarrow> w_seq u \<le> w_seq w"
      using newest_write k(2) by (metis imageE)
    have "\<not> obsolete (s_hist s) w" using w k by (auto simp: obsolete_def)
    then have "entry_of w \<in> stored lib s"
      using engine_keeps_writes [OF assms(1), of w] w(1) assms(2) by (auto simp: stored_def in_memory_entries in_table_entries)
    then obtain es where es: "es \<in> set lays" "entry_of w \<in> set es" using l(2) by blast
    have user: "user_of (entry_of w) = k" using entry_of_parts(1) i(2) w by (simp add: seqs_increasing_def)
    have "\<not> IsDeletion (fst e)" if e: "e \<in> set es" "user_of e = k" for e
    proof -
      obtain u where "u \<in> set (s_hist s)" "e = entry_of u" "unat (w_seq u) < 2 ^ 56" using ent [OF es(1) e(1)] by blast
      then show ?thesis using entry_of_parts(1,3) [of u] e(2) k(3) by simp
    qed
    then have "memtable_scan es k \<noteq> None" using l(1) es user by (intro scan_finds) auto
    then show ?thesis using es(1) l(4) first_live_none [of lays k] by auto
  qed
  show thesis using that [OF l(3,5) sound found] by blast
qed

end
