(* ===== verification/Timer_Wheel.thy ===== *)
theory Timer_Wheel
  imports Prelude
begin

text \<open>
  The timers of the gateway's executor, \<open>timer_wheel.cpp\<close>. A coroutine handle is a value of
  the type \<open>'c\<close>. The specification counts ticks as natural numbers and keeps the timers
  that are neither fired nor cancelled; the refinement says that every history of calls
  that stays within the 64-bit counters gives the same resumed coroutines.
\<close>

record 'c TimerEntry =
  te_expire_tick :: u64
  te_coro :: 'c
  te_id :: u64
  te_canceled :: bool

record 'c TimerWheel =
  tw_wheel :: "'c TimerEntry list list"
  tw_wheel_size :: nat
  tw_tick_ms :: u64
  tw_current_tick :: u64
  tw_next_id :: u64
  tw_all_entries :: "'c TimerEntry list"

definition TimerWheel_new :: "nat \<Rightarrow> u64 \<Rightarrow> 'c TimerWheel" where
  "TimerWheel_new wheel_size tick_ms =
     \<lparr>tw_wheel = replicate wheel_size [], tw_wheel_size = wheel_size, tw_tick_ms = tick_ms,
      tw_current_tick = 0, tw_next_id = 1, tw_all_entries = []\<rparr>"

definition slotFor :: "'c TimerWheel \<Rightarrow> u64 \<Rightarrow> nat" where
  "slotFor tw expire_tick = unat expire_tick mod tw_wheel_size tw"

definition ticks_of :: "u64 \<Rightarrow> u64 \<Rightarrow> u64" where
  "ticks_of tick_ms ms = (ms + tick_ms - 1) div tick_ms"

definition TimerWheel_addTimer :: "u64 \<Rightarrow> 'c \<Rightarrow> 'c TimerWheel \<Rightarrow> u64 \<times> 'c TimerWheel" where
  "TimerWheel_addTimer timeout_ms coro tw =
     (let ticks = ticks_of (tw_tick_ms tw) timeout_ms;
          ticks = (if ticks = 0 then 1 else ticks);
          expire_tick = tw_current_tick tw + ticks;
          tid = tw_next_id tw;
          entry = \<lparr>te_expire_tick = expire_tick, te_coro = coro, te_id = tid, te_canceled = False\<rparr>;
          slot = slotFor tw expire_tick
      in (tid, tw\<lparr>tw_next_id := tw_next_id tw + 1,
                 tw_all_entries := tw_all_entries tw @ [entry],
                 tw_wheel := (tw_wheel tw)[slot := tw_wheel tw ! slot @ [entry]]\<rparr>))"

fun cancel_first :: "u64 \<Rightarrow> 'c TimerEntry list \<Rightarrow> 'c TimerEntry list" where
  "cancel_first tid [] = []"
| "cancel_first tid (e # es) = (if te_id e = tid then e\<lparr>te_canceled := True\<rparr> # es else e # cancel_first tid es)"

definition TimerWheel_cancelTimer :: "u64 \<Rightarrow> 'c TimerWheel \<Rightarrow> 'c TimerWheel" where
  "TimerWheel_cancelTimer tid tw = tw\<lparr>tw_all_entries := cancel_first tid (tw_all_entries tw)\<rparr>"

definition TimerWheel_advance :: "u64 \<Rightarrow> 'c TimerWheel \<Rightarrow> 'c TimerWheel" where
  "TimerWheel_advance elapsed_ms tw =
     tw\<lparr>tw_current_tick := tw_current_tick tw + ticks_of (tw_tick_ms tw) elapsed_ms\<rparr>"

definition expired :: "u64 \<Rightarrow> 'c TimerEntry \<Rightarrow> bool" where
  "expired now e \<longleftrightarrow> te_expire_tick e \<le> now \<or> te_canceled e"

fun take_expired :: "u64 \<Rightarrow> 'c TimerEntry list \<Rightarrow> 'c list \<times> 'c TimerEntry list" where
  "take_expired now [] = ([], [])"
| "take_expired now (e # es) =
     (case take_expired now es of (cs, kept) \<Rightarrow>
        if expired now e then (if te_canceled e then cs else te_coro e # cs, kept) else (cs, e # kept))"

definition TimerWheel_getExpired :: "'c TimerWheel \<Rightarrow> 'c list \<times> 'c TimerWheel" where
  "TimerWheel_getExpired tw =
     (case take_expired (tw_current_tick tw) (tw_all_entries tw) of (cs, kept) \<Rightarrow>
        (cs, tw\<lparr>tw_wheel := map (filter (\<lambda>e. \<not> expired (tw_current_tick tw) e)) (tw_wheel tw),
                tw_all_entries := kept\<rparr>))"

section \<open>Histories\<close>

datatype 'c TimerOp = OpAdd u64 'c | OpCancel u64 | OpAdvance u64 | OpExpire

fun timer_step :: "'c TimerOp \<Rightarrow> 'c TimerWheel \<Rightarrow> 'c list \<times> 'c TimerWheel" where
  "timer_step (OpAdd ms c) tw = ([], snd (TimerWheel_addTimer ms c tw))"
| "timer_step (OpCancel tid) tw = ([], TimerWheel_cancelTimer tid tw)"
| "timer_step (OpAdvance ms) tw = ([], TimerWheel_advance ms tw)"
| "timer_step OpExpire tw = TimerWheel_getExpired tw"

fun timer_run :: "'c TimerOp list \<Rightarrow> 'c TimerWheel \<Rightarrow> 'c list list \<times> 'c TimerWheel" where
  "timer_run [] tw = ([], tw)"
| "timer_run (op # ops) tw =
     (case timer_step op tw of (out, tw) \<Rightarrow> case timer_run ops tw of (outs, tw) \<Rightarrow> (out # outs, tw))"

text \<open>
  The specification: the time in ticks, the next identifier and the live timers with their
  deadlines, oldest first. A timer of \<open>ms\<close> milliseconds runs for that many milliseconds,
  rounded up to ticks, and at least for one tick.
\<close>

record 'c timers =
  ts_now :: nat
  ts_next :: nat
  ts_live :: "(nat \<times> nat \<times> 'c) list"

definition ceil_div :: "nat \<Rightarrow> nat \<Rightarrow> nat" where
  "ceil_div a b = (a + b - 1) div b"

fun spec_step :: "nat \<Rightarrow> 'c TimerOp \<Rightarrow> 'c timers \<Rightarrow> 'c list \<times> 'c timers" where
  "spec_step tick (OpAdd ms c) t =
     ([], t\<lparr>ts_next := ts_next t + 1,
            ts_live := ts_live t @ [(ts_next t, ts_now t + max 1 (ceil_div (unat ms) tick), c)]\<rparr>)"
| "spec_step tick (OpCancel tid) t = ([], t\<lparr>ts_live := filter (\<lambda>(i, _). i \<noteq> unat tid) (ts_live t)\<rparr>)"
| "spec_step tick (OpAdvance ms) t = ([], t\<lparr>ts_now := ts_now t + ceil_div (unat ms) tick\<rparr>)"
| "spec_step tick OpExpire t =
     (map (snd \<circ> snd) (filter (\<lambda>(_, d, _). d \<le> ts_now t) (ts_live t)),
      t\<lparr>ts_live := filter (\<lambda>(_, d, _). ts_now t < d) (ts_live t)\<rparr>)"

fun spec_run :: "nat \<Rightarrow> 'c TimerOp list \<Rightarrow> 'c timers \<Rightarrow> 'c list list \<times> 'c timers" where
  "spec_run tick [] t = ([], t)"
| "spec_run tick (op # ops) t =
     (case spec_step tick op t of (out, t) \<Rightarrow> case spec_run tick ops t of (outs, t) \<Rightarrow> (out # outs, t))"

definition timers_new :: "'c timers" where
  "timers_new = \<lparr>ts_now = 0, ts_next = 1, ts_live = []\<rparr>"

text \<open>What a call can move the counters by; a history fits when the sum stays below \<open>2 ^ 64\<close>.\<close>

fun op_cost :: "nat \<Rightarrow> 'c TimerOp \<Rightarrow> nat" where
  "op_cost tick (OpAdd ms c) = unat ms + tick + 1"
| "op_cost tick (OpAdvance ms) = unat ms + tick"
| "op_cost tick _ = 0"

definition history_fits :: "nat \<Rightarrow> 'c TimerOp list \<Rightarrow> bool" where
  "history_fits tick ops \<longleftrightarrow> sum_list (map (op_cost tick) ops) + 2 < 2 ^ 64"

section \<open>Refinement\<close>

definition live_timer :: "'c TimerEntry \<Rightarrow> nat \<times> nat \<times> 'c" where
  "live_timer e = (unat (te_id e), unat (te_expire_tick e), te_coro e)"

definition timers_of :: "'c TimerWheel \<Rightarrow> 'c timers" where
  "timers_of tw = \<lparr>ts_now = unat (tw_current_tick tw), ts_next = unat (tw_next_id tw),
     ts_live = map live_timer (filter (\<lambda>e. \<not> te_canceled e) (tw_all_entries tw))\<rparr>"

text \<open>Identifiers are given out once, and the counters have room for calls of cost \<open>room\<close>.\<close>

definition timers_inv :: "u64 \<Rightarrow> nat \<Rightarrow> 'c TimerWheel \<Rightarrow> bool" where
  "timers_inv tick room tw \<longleftrightarrow>
     tw_tick_ms tw = tick \<and> 0 < tick \<and>
     distinct (map te_id (tw_all_entries tw)) \<and> (\<forall>e\<in>set (tw_all_entries tw). te_id e < tw_next_id tw) \<and>
     unat (tw_current_tick tw) + room < 2 ^ 64 \<and> unat (tw_next_id tw) + room < 2 ^ 64"

lemma unat_ticks_of:
  assumes "0 < tick" "unat ms + unat tick < 2 ^ 64"
  shows "unat (ticks_of tick ms) = ceil_div (unat ms) (unat tick)"
proof -
  have t: "0 < unat tick" using assms(1) by (simp add: word_less_nat_alt)
  have "unat (ms + tick) = unat ms + unat tick" using assms(2) by (simp add: unat_word_ariths)
  then have "unat (ms + tick - 1) = unat ms + unat tick - 1"
    using t by (subst unat_minus_one) auto
  then show ?thesis by (simp add: ticks_of_def ceil_div_def unat_div)
qed

lemma ceil_div_le: "0 < b \<Longrightarrow> ceil_div a b \<le> a"
proof -
  assume "0 < b"
  then have "a \<le> a * b" by simp
  then have "a + b - 1 < Suc a * b" using \<open>0 < b\<close> by (simp add: less_eq_Suc_le)
  then have "(a + b - 1) div b < Suc a" by (rule less_mult_imp_div_less)
  then show ?thesis by (simp add: ceil_div_def)
qed

lemma cancel_first_live:
  assumes "distinct (map te_id es)"
  shows "map live_timer (filter (\<lambda>e. \<not> te_canceled e) (cancel_first tid es)) =
    filter (\<lambda>(i, _). i \<noteq> unat tid) (map live_timer (filter (\<lambda>e. \<not> te_canceled e) es))"
  using assms
proof (induction es)
  case (Cons e es)
  have "filter (\<lambda>(i, _). i \<noteq> unat tid) (map live_timer (filter (\<lambda>e. \<not> te_canceled e) es)) =
      map live_timer (filter (\<lambda>e. \<not> te_canceled e) es)" if "tid \<notin> te_id ` set es"
    using that by (auto simp: filter_id_conv live_timer_def word_unat_eq_iff [symmetric])
  then show ?case using Cons by (auto simp: live_timer_def [of e] word_unat_eq_iff [symmetric])
qed simp

lemma cancel_first_ids [simp]: "map te_id (cancel_first tid es) = map te_id es"
  by (induction es) auto

lemma take_expired_live:
  "fst (take_expired now es) =
     map (snd \<circ> snd) (filter (\<lambda>(_, d, _). d \<le> unat now) (map live_timer (filter (\<lambda>e. \<not> te_canceled e) es)))"
  "snd (take_expired now es) = filter (\<lambda>e. \<not> expired now e) es"
  by (induction es) (auto simp: expired_def live_timer_def word_le_nat_alt split: prod.splits)

lemma live_not_expired:
  "map live_timer (filter (\<lambda>e. \<not> te_canceled e) (filter (\<lambda>e. \<not> expired now e) es)) =
   filter (\<lambda>(_, d, _). unat now < d) (map live_timer (filter (\<lambda>e. \<not> te_canceled e) es))"
  by (induction es) (auto simp: expired_def live_timer_def word_le_nat_alt)

lemma addTimer_refines:
  assumes "timers_inv tick (op_cost (unat tick) (OpAdd ms c) + room) tw" "TimerWheel_addTimer ms c tw = (tid, tw')"
  shows "spec_step (unat tick) (OpAdd ms c) (timers_of tw) = ([], timers_of tw')" and "timers_inv tick room tw'"
proof -
  note i = assms(1) [unfolded timers_inv_def]
  let ?t = "ticks_of tick ms" and ?n = "ceil_div (unat ms) (unat tick)"
  define k where "k = (if ?t = 0 then 1 else ?t)"
  have u: "unat ?t = ?n" using i by (intro unat_ticks_of) auto
  have k: "unat k = max 1 ?n" unfolding k_def u [symmetric] using unat_gt_0 [of ?t] by (auto simp: max_def simp del: unat_gt_0)
  have "?n \<le> unat ms" using i by (intro ceil_div_le) (auto simp: word_less_nat_alt)
  then have "unat (tw_current_tick tw) + max 1 ?n < 2 ^ 64" using i by (simp add: max_def)
  then have e: "unat (tw_current_tick tw + k) = unat (tw_current_tick tw) + max 1 ?n"
    using k by (simp add: unat_word_ariths)
  have nx: "unat (tw_next_id tw + 1) = unat (tw_next_id tw) + 1" using i by (simp add: unat_word_ariths)
  have less: "tw_next_id tw < tw_next_id tw + 1" using nx by (simp add: word_less_nat_alt)
  define en where "en = \<lparr>te_expire_tick = tw_current_tick tw + k, te_coro = c, te_id = tw_next_id tw, te_canceled = False\<rparr>"
  have tw': "tw' = tw\<lparr>tw_next_id := tw_next_id tw + 1, tw_all_entries := tw_all_entries tw @ [en],
      tw_wheel := (tw_wheel tw)[slotFor tw (te_expire_tick en) := tw_wheel tw ! slotFor tw (te_expire_tick en) @ [en]]\<rparr>"
    using assms(2) i by (auto simp: TimerWheel_addTimer_def Let_def en_def k_def)
  show "spec_step (unat tick) (OpAdd ms c) (timers_of tw) = ([], timers_of tw')"
    using e nx by (simp add: tw' timers_of_def live_timer_def en_def)
  show "timers_inv tick room tw'"
    using i nx less by (auto simp: timers_inv_def tw' en_def)
qed

lemma timer_step_refines:
  assumes "timers_inv tick (op_cost (unat tick) op + room) tw" "timer_step op tw = (out, tw')"
  shows "spec_step (unat tick) op (timers_of tw) = (out, timers_of tw')" "timers_inv tick room tw'"
proof -
  have "spec_step (unat tick) op (timers_of tw) = (out, timers_of tw') \<and> timers_inv tick room tw'"
  proof (cases op)
    case (OpAdd ms c)
    then show ?thesis using addTimer_refines [of tick ms c room tw] assms by (cases "TimerWheel_addTimer ms c tw") auto
  next
    case (OpCancel tid)
    have "e \<in> set (cancel_first tid es) \<Longrightarrow> te_id e \<in> te_id ` set es" for e es
      by (metis cancel_first_ids image_eqI list.set_map)
    then show ?thesis using OpCancel assms cancel_first_live [of "tw_all_entries tw" tid]
      by (fastforce simp: timers_of_def timers_inv_def TimerWheel_cancelTimer_def)
  next
    case (OpAdvance ms)
    have i: "0 < tick" "unat ms + unat tick < 2 ^ 64" "unat (tw_current_tick tw) + unat ms + unat tick + room < 2 ^ 64"
      using assms(1) OpAdvance by (auto simp: timers_inv_def)
    have "ceil_div (unat ms) (unat tick) \<le> unat ms" using i(1) by (intro ceil_div_le) (simp add: word_less_nat_alt)
    then have "unat (tw_current_tick tw + ticks_of tick ms) = unat (tw_current_tick tw) + ceil_div (unat ms) (unat tick)"
      using unat_ticks_of [OF i(1,2)] i(3) by (simp add: unat_word_ariths)
    moreover have "\<dots> + room < 2 ^ 64" using i(3) \<open>ceil_div (unat ms) (unat tick) \<le> unat ms\<close> by simp
    ultimately show ?thesis using OpAdvance assms by (auto simp: timers_of_def timers_inv_def TimerWheel_advance_def)
  next
    case OpExpire
    obtain cs kept where t: "take_expired (tw_current_tick tw) (tw_all_entries tw) = (cs, kept)" by fastforce
    have "kept = filter (\<lambda>e. \<not> expired (tw_current_tick tw) e) (tw_all_entries tw)"
      using take_expired_live(2) [of "tw_current_tick tw" "tw_all_entries tw"] t by simp
    then show ?thesis
      using OpExpire assms t take_expired_live(1) [of "tw_current_tick tw" "tw_all_entries tw"]
        live_not_expired [of "tw_current_tick tw" "tw_all_entries tw"]
      by (auto simp: timers_of_def timers_inv_def TimerWheel_getExpired_def distinct_map_filter)
  qed
  then show "spec_step (unat tick) op (timers_of tw) = (out, timers_of tw')" "timers_inv tick room tw'" by auto
qed

lemma timer_run_refines:
  assumes "timers_inv tick (sum_list (map (op_cost (unat tick)) ops)) tw" "timer_run ops tw = (outs, tw')"
  shows "spec_run (unat tick) ops (timers_of tw) = (outs, timers_of tw')"
  using assms
proof (induction ops arbitrary: tw outs)
  case (Cons op ops)
  obtain out tw1 where s: "timer_step op tw = (out, tw1)" by fastforce
  obtain os where r: "timer_run ops tw1 = (os, tw')" "outs = out # os"
    using Cons.prems(2) s by (auto split: prod.splits)
  have "timers_inv tick (op_cost (unat tick) op + sum_list (map (op_cost (unat tick)) ops)) tw" using Cons.prems(1) by simp
  note step = timer_step_refines [OF this s]
  show ?case using step(1) Cons.IH [OF step(2) r(1)] r(2) by simp
qed simp

lemma timer_wheel_refines:
  assumes "history_fits (unat tick) ops" "0 < tick"
  shows "fst (timer_run ops (TimerWheel_new wheel_size tick)) = fst (spec_run (unat tick) ops timers_new)"
proof -
  obtain outs tw' where r: "timer_run ops (TimerWheel_new wheel_size tick) = (outs, tw')" by fastforce
  have "timers_inv tick (sum_list (map (op_cost (unat tick)) ops)) (TimerWheel_new wheel_size tick :: 'a TimerWheel)"
    using assms by (simp add: timers_inv_def TimerWheel_new_def history_fits_def)
  from timer_run_refines [OF this r] r show ?thesis
    by (simp add: timers_of_def TimerWheel_new_def timers_new_def)
qed

end
