(* ===== verification/Executor.thy ===== *)
theory Executor
  imports Timer_Wheel "HOL-Library.Monad_Syntax"
begin

text \<open>
  The coroutine executor of the gateway, \<open>executor.cpp\<close>.

  A coroutine handle is a value of the type \<open>'c\<close>; what it does when it is resumed is an
  argument: a function from the state \<open>'s\<close> of the program to a new state and the calls
  the coroutine makes on the executor before it suspends. The inner loop over the ready
  queue does not end when coroutines keep scheduling each other, so it is a
  \<open>partial_function\<close> with \<open>None\<close> for that; the lemmas say when it ends and in which order
  the coroutines run.
\<close>

section \<open>Executor\<close>

datatype 'c ExecCall =
    CallSchedule 'c
  | CallAddIO int u32 'c
  | CallRemoveIO int
  | CallAddTimer u64 'c
  | CallExecStop

record 'c Executor =
  ex_ready_queue :: "'c list"
  ex_running :: bool
  ex_interest :: "(int \<times> u32) list"
  ex_io_callbacks :: "(int \<times> 'c) list"
  ex_timer_wheel :: "'c TimerWheel"

definition EPOLLET :: u32 where
  "EPOLLET = 2 ^ 31"

definition Executor_new :: "'c Executor" where
  "Executor_new = \<lparr>ex_ready_queue = [], ex_running = False, ex_interest = [], ex_io_callbacks = [],
     ex_timer_wheel = TimerWheel_new 1024 50\<rparr>"

definition Executor_schedule :: "'c \<Rightarrow> 'c Executor \<Rightarrow> 'c Executor" where
  "Executor_schedule c ex = ex\<lparr>ex_ready_queue := ex_ready_queue ex @ [c]\<rparr>"

text \<open>\<open>epoll_ctl\<close> with \<open>EPOLL_CTL_ADD\<close> fails on a descriptor that is registered; the code ignores that.\<close>

definition Executor_addIO :: "int \<Rightarrow> u32 \<Rightarrow> 'c \<Rightarrow> 'c Executor \<Rightarrow> 'c Executor" where
  "Executor_addIO fd events c ex =
     ex\<lparr>ex_interest := (if map_of (ex_interest ex) fd = None then (fd, events OR EPOLLET) # ex_interest ex else ex_interest ex),
        ex_io_callbacks := AList.update fd c (ex_io_callbacks ex)\<rparr>"

definition Executor_removeIO :: "int \<Rightarrow> 'c Executor \<Rightarrow> 'c Executor" where
  "Executor_removeIO fd ex =
     ex\<lparr>ex_interest := AList.delete fd (ex_interest ex), ex_io_callbacks := AList.delete fd (ex_io_callbacks ex)\<rparr>"

definition Executor_addTimer :: "u64 \<Rightarrow> 'c \<Rightarrow> 'c Executor \<Rightarrow> 'c Executor" where
  "Executor_addTimer ms c ex = ex\<lparr>ex_timer_wheel := snd (TimerWheel_addTimer ms c (ex_timer_wheel ex))\<rparr>"

definition Executor_stop :: "'c Executor \<Rightarrow> 'c Executor" where
  "Executor_stop ex = ex\<lparr>ex_running := False\<rparr>"

fun exec_call :: "'c ExecCall \<Rightarrow> 'c Executor \<Rightarrow> 'c Executor" where
  "exec_call (CallSchedule c) ex = Executor_schedule c ex"
| "exec_call (CallAddIO fd events c) ex = Executor_addIO fd events c ex"
| "exec_call (CallRemoveIO fd) ex = Executor_removeIO fd ex"
| "exec_call (CallAddTimer ms c) ex = Executor_addTimer ms c ex"
| "exec_call CallExecStop ex = Executor_stop ex"

text \<open>The coroutines: \<open>co_done c st\<close> is \<open>coro.done()\<close>, \<open>co_resume c st\<close> is \<open>coro.resume()\<close>.\<close>

record ('c, 's) coroutines =
  co_done :: "'c \<Rightarrow> 's \<Rightarrow> bool"
  co_resume :: "'c \<Rightarrow> 's \<Rightarrow> 's \<times> 'c ExecCall list"

definition resume_one :: "('c, 's) coroutines \<Rightarrow> 'c \<Rightarrow> 's \<times> 'c Executor \<Rightarrow> 's \<times> 'c Executor" where
  "resume_one co c sx =
     (case sx of (st, ex) \<Rightarrow>
        if co_done co c st then (st, ex)
        else case co_resume co c st of (st, calls) \<Rightarrow> (st, fold exec_call calls ex))"

partial_function (option) run_ready :: "('c, 's) coroutines \<Rightarrow> 's \<times> 'c Executor \<Rightarrow> ('s \<times> 'c Executor) option" where
  "run_ready co sx =
     (case ex_ready_queue (snd sx) of
        [] \<Rightarrow> Some sx
      | c # cs \<Rightarrow> run_ready co (resume_one co c (fst sx, (snd sx)\<lparr>ex_ready_queue := cs\<rparr>)))"

definition processIO :: "int list \<Rightarrow> 'c Executor \<Rightarrow> 'c Executor" where
  "processIO fds ex =
     fold (\<lambda>fd ex. case map_of (ex_io_callbacks ex) fd of
              None \<Rightarrow> ex
            | Some c \<Rightarrow> (Executor_schedule c ex)\<lparr>ex_io_callbacks := AList.delete fd (ex_io_callbacks ex)\<rparr>)
       fds ex"

text \<open>
  One round of \<open>Executor::run\<close>: \<open>elapsed_ms\<close> is what the clock has moved by, \<open>fds\<close> are the
  descriptors \<open>epoll_wait\<close> reports (at most 1024).
\<close>

definition exec_round :: "('c, 's) coroutines \<Rightarrow> u64 \<Rightarrow> int list \<Rightarrow> 's \<times> 'c Executor \<Rightarrow> ('s \<times> 'c Executor) option" where
  "exec_round co elapsed_ms fds sx =
     (case run_ready co sx of
        None \<Rightarrow> None
      | Some (st, ex) \<Rightarrow>
          let ex = (if 0 < elapsed_ms then ex\<lparr>ex_timer_wheel := TimerWheel_advance elapsed_ms (ex_timer_wheel ex)\<rparr> else ex)
          in case TimerWheel_getExpired (ex_timer_wheel ex) of (cs, tw) \<Rightarrow>
             case fold (resume_one co) cs (st, ex\<lparr>ex_timer_wheel := tw\<rparr>) of (st, ex) \<Rightarrow>
             Some (st, processIO (take 1024 fds) ex))"

text \<open>\<open>Executor::run\<close> on a list of such rounds; it stops when a coroutine has called \<open>stop\<close>.\<close>

fun exec_rounds :: "('c, 's) coroutines \<Rightarrow> (u64 \<times> int list) list \<Rightarrow> 's \<times> 'c Executor \<Rightarrow> ('s \<times> 'c Executor) option" where
  "exec_rounds co [] sx = Some sx"
| "exec_rounds co ((elapsed_ms, fds) # rounds) sx =
     (if ex_running (snd sx)
      then case exec_round co elapsed_ms fds sx of None \<Rightarrow> None | Some sx \<Rightarrow> exec_rounds co rounds sx
      else Some sx)"

definition Executor_run :: "('c, 's) coroutines \<Rightarrow> (u64 \<times> int list) list \<Rightarrow> 's \<times> 'c Executor \<Rightarrow> ('s \<times> 'c Executor) option" where
  "Executor_run co rounds sx = exec_rounds co rounds (fst sx, (snd sx)\<lparr>ex_running := True\<rparr>)"

section \<open>The ready queue\<close>

definition scheduled :: "'c ExecCall list \<Rightarrow> 'c list" where
  "scheduled calls = concat (map (\<lambda>c. case c of CallSchedule c \<Rightarrow> [c] | _ \<Rightarrow> []) calls)"

lemma exec_call_ready: "ex_ready_queue (fold exec_call calls ex) = ex_ready_queue ex @ scheduled calls"
proof (induction calls arbitrary: ex)
  case (Cons c calls)
  then show ?case
    by (cases c) (auto simp: scheduled_def Executor_schedule_def Executor_addIO_def Executor_removeIO_def
        Executor_addTimer_def Executor_stop_def)
qed (simp add: scheduled_def)

lemma exec_call_keeps_ready:
  "scheduled [a] = [] \<Longrightarrow> exec_call a (x\<lparr>ex_ready_queue := q\<rparr>) = (exec_call a x)\<lparr>ex_ready_queue := q\<rparr>"
  by (cases a) (auto simp: scheduled_def Executor_addIO_def Executor_removeIO_def Executor_addTimer_def Executor_stop_def)

lemma exec_calls_keep_ready:
  "scheduled calls = [] \<Longrightarrow> fold exec_call calls (x\<lparr>ex_ready_queue := q\<rparr>) = (fold exec_call calls x)\<lparr>ex_ready_queue := q\<rparr>"
  by (induction calls arbitrary: x) (auto simp: exec_call_keeps_ready scheduled_def)

text \<open>A queue in which no coroutine schedules another one is worked off in its order.\<close>

lemma run_ready_in_order:
  assumes "\<And>c st. scheduled (snd (co_resume co c st)) = []"
  shows "run_ready co (st, ex) = Some (fold (resume_one co) (ex_ready_queue ex) (st, ex\<lparr>ex_ready_queue := []\<rparr>))"
proof (induction "ex_ready_queue ex" arbitrary: st ex)
  case Nil
  then show ?case by (subst run_ready.simps) (simp flip: Nil)
next
  case (Cons c cs)
  have eff: "\<exists>st' ex'. \<forall>q. resume_one co c (st, ex\<lparr>ex_ready_queue := q\<rparr>) = (st', ex'\<lparr>ex_ready_queue := q\<rparr>)"
  proof (cases "co_done co c st")
    case False
    obtain st' calls where r: "co_resume co c st = (st', calls)" by fastforce
    have "scheduled calls = []" using assms [of c st] r by simp
    note exec_calls_keep_ready [OF this]
    then show ?thesis using False r by (auto simp: resume_one_def)
  qed (auto simp: resume_one_def)
  then obtain st' ex' where e: "\<And>q. resume_one co c (st, ex\<lparr>ex_ready_queue := q\<rparr>) = (st', ex'\<lparr>ex_ready_queue := q\<rparr>)" by blast
  have "run_ready co (st, ex) = run_ready co (st', ex'\<lparr>ex_ready_queue := cs\<rparr>)"
    using Cons.hyps(2) e by (subst run_ready.simps) (simp flip: Cons.hyps(2))
  also have "\<dots> = Some (fold (resume_one co) cs (st', ex'\<lparr>ex_ready_queue := []\<rparr>))"
    using Cons.hyps(1) [of "ex'\<lparr>ex_ready_queue := cs\<rparr>" st'] by simp
  finally show ?case using e by (simp flip: Cons.hyps(2))
qed

text \<open>A descriptor that becomes ready wakes its coroutine once; the callback is gone afterwards.\<close>

lemma processIO_wakes_once:
  assumes "map_of (ex_io_callbacks ex) fd = Some c"
  shows "processIO [fd, fd] ex =
    (Executor_schedule c ex)\<lparr>ex_io_callbacks := AList.delete fd (ex_io_callbacks ex)\<rparr>"
  using assms by (simp add: processIO_def Executor_schedule_def delete_conv')

end
