(* ===== verification/Thread_Pool.thy ===== *)
theory Thread_Pool
  imports Main
begin

text \<open>
  The thread pools: \<open>skynet/src/core/thread_pool.cpp\<close>, which \<open>minikv/src/utils/thread_pool.h\<close>
  repeats. The mutex makes each critical section one step, so the pool is a step relation
  over the task queue, the flag \<open>running_\<close> and the position of each worker in
  \<open>workerLoop\<close>. The ghost fields record what was submitted and what was started. The
  invariant says that tasks are started once each and in the order of their submission; the
  remaining lemmas are about progress and about \<open>stop\<close>.
\<close>

datatype 't worker = AtLoop | InWait | RunsTask 't | HasExited

record 't ThreadPool =
  tp_tasks :: "'t list"
  tp_running :: bool
  tp_workers :: "'t worker list"
  tp_submitted :: "'t list"
  tp_started :: "'t list"

definition ThreadPool_new :: "nat \<Rightarrow> 't ThreadPool" where
  "ThreadPool_new num_threads =
     \<lparr>tp_tasks = [], tp_running = True, tp_workers = replicate num_threads AtLoop, tp_submitted = [], tp_started = []\<rparr>"

definition ThreadPool_submit :: "'t \<Rightarrow> 't ThreadPool \<Rightarrow> 't ThreadPool" where
  "ThreadPool_submit t p = p\<lparr>tp_tasks := tp_tasks p @ [t], tp_submitted := tp_submitted p @ [t]\<rparr>"

text \<open>\<open>stop\<close> clears the flag; it returns when every worker has left its loop.\<close>

definition ThreadPool_stop :: "'t ThreadPool \<Rightarrow> 't ThreadPool" where
  "ThreadPool_stop p = p\<lparr>tp_running := False\<rparr>"

definition stop_returns :: "'t ThreadPool \<Rightarrow> bool" where
  "stop_returns p \<longleftrightarrow> \<not> tp_running p \<and> list_all (\<lambda>w. w = HasExited) (tp_workers p)"

definition set_worker :: "nat \<Rightarrow> 't worker \<Rightarrow> 't ThreadPool \<Rightarrow> 't ThreadPool" where
  "set_worker i w p = p\<lparr>tp_workers := (tp_workers p)[i := w]\<rparr>"

text \<open>
  One step of the loop of worker \<open>i\<close>: the test of the \<open>while\<close>, the critical section behind
  \<open>cv_.wait\<close>, the end of the task. \<open>None\<close> when the worker waits or has exited.
\<close>

definition worker_step :: "nat \<Rightarrow> 't ThreadPool \<Rightarrow> 't ThreadPool option" where
  "worker_step i p =
     (if length (tp_workers p) \<le> i then None
      else case tp_workers p ! i of
        AtLoop \<Rightarrow> Some (set_worker i (if tp_running p then InWait else HasExited) p)
      | InWait \<Rightarrow>
          (if tp_tasks p = [] \<and> tp_running p then None
           else case tp_tasks p of
             [] \<Rightarrow> Some (set_worker i HasExited p)
           | t # ts \<Rightarrow> Some (set_worker i (RunsTask t) (p\<lparr>tp_tasks := ts, tp_started := tp_started p @ [t]\<rparr>)))
      | RunsTask t \<Rightarrow> Some (set_worker i AtLoop p)
      | HasExited \<Rightarrow> None)"

inductive pool_step :: "'t ThreadPool \<Rightarrow> 't ThreadPool \<Rightarrow> bool" where
  submit: "pool_step p (ThreadPool_submit t p)"
| stop: "pool_step p (ThreadPool_stop p)"
| work: "worker_step i p = Some p' \<Longrightarrow> pool_step p p'"

inductive_cases pool_stepE: "pool_step p p'"

inductive pool_reachable :: "nat \<Rightarrow> 't ThreadPool \<Rightarrow> bool" for n where
  start: "pool_reachable n (ThreadPool_new n)"
| step: "pool_reachable n p \<Longrightarrow> pool_step p p' \<Longrightarrow> pool_reachable n p'"

section \<open>Tasks are started once, in order\<close>

definition pool_inv :: "nat \<Rightarrow> 't ThreadPool \<Rightarrow> bool" where
  "pool_inv n p \<longleftrightarrow> tp_submitted p = tp_started p @ tp_tasks p \<and> length (tp_workers p) = n \<and>
     (tp_running p \<longrightarrow> HasExited \<notin> set (tp_workers p))"

lemma worker_step_inv: "pool_inv n p \<Longrightarrow> worker_step i p = Some p' \<Longrightarrow> pool_inv n p'"
  by (auto simp: pool_inv_def worker_step_def set_worker_def
      split: if_splits worker.splits list.splits dest!: set_update_subset_insert [THEN subsetD])

lemma pool_inv_reachable: "pool_reachable n p \<Longrightarrow> pool_inv n p"
proof (induction rule: pool_reachable.induct)
  case start
  then show ?case by (simp add: pool_inv_def ThreadPool_new_def)
next
  case (step p p')
  from step(2,3) show ?case
    by (elim pool_stepE) (auto simp: worker_step_inv, auto simp: pool_inv_def ThreadPool_submit_def ThreadPool_stop_def)
qed

section \<open>Progress\<close>

text \<open>
  As long as the pool runs and tasks are queued, every worker that is not busy has a step,
  and a busy worker has one when its task is done: the queue is not stuck.
\<close>

lemma pool_progress:
  assumes "pool_inv n p" "tp_running p" "tp_tasks p \<noteq> []" "i < n"
  shows "worker_step i p \<noteq> None"
proof -
  have "tp_workers p ! i \<noteq> HasExited" using assms by (metis nth_mem pool_inv_def)
  then show ?thesis using assms by (auto simp: pool_inv_def worker_step_def split: worker.splits list.splits)
qed

text \<open>
  What is queued is started by any one worker: from every such state the first task is
  started after at most three steps of it.
\<close>

lemma worker_takes_task:
  assumes "pool_inv n p" "tp_running p" "tp_tasks p = t # ts" "i < n"
  shows "\<exists>k\<le>3. \<exists>p'. ((\<lambda>q. Option.bind q (worker_step i)) ^^ k) (Some p) = Some p' \<and> tp_started p' = tp_started p @ [t]"
proof -
  note i = assms(1) [unfolded pool_inv_def]
  have take: "worker_step i q = Some (set_worker i (RunsTask t) (q\<lparr>tp_tasks := ts, tp_started := tp_started q @ [t]\<rparr>))"
    if "length (tp_workers q) = n" "tp_workers q ! i = InWait" "tp_tasks q = t # ts" for q
    using that assms(4) by (simp add: worker_step_def)
  have loop: "worker_step i q = Some (set_worker i InWait q)"
    if "length (tp_workers q) = n" "tp_workers q ! i = AtLoop" "tp_running q" for q
    using that assms(4) by (simp add: worker_step_def)
  consider "tp_workers p ! i = InWait" | "tp_workers p ! i = AtLoop" | t' where "tp_workers p ! i = RunsTask t'"
    using i assms(2,4) by (cases "tp_workers p ! i") (auto simp: in_set_conv_nth)
  then show ?thesis
  proof cases
    case 1
    then show ?thesis using take [of p] i assms by (intro exI [of _ 1]) (simp add: set_worker_def)
  next
    case 2
    then show ?thesis using take [of "set_worker i InWait p"] loop [of p] i assms
      by (intro exI [of _ 2]) (simp add: set_worker_def numeral_2_eq_2)
  next
    case 3
    have "worker_step i p = Some (set_worker i AtLoop p)" using 3 i assms(4) by (simp add: worker_step_def)
    then show ?thesis
      using take [of "set_worker i InWait p"] loop [of "set_worker i AtLoop p"] i assms
      by (intro exI [of _ 3]) (simp add: set_worker_def numeral_3_eq_3)
  qed
qed

text \<open>\<open>stop\<close> does not wait for the queue: it can return while submitted tasks were never started.\<close>

lemma stop_leaves_tasks:
  "\<exists>p :: nat ThreadPool. pool_reachable 1 p \<and> stop_returns p \<and> tp_tasks p = [7] \<and> tp_started p = []"
proof -
  let ?p0 = "ThreadPool_new 1 :: nat ThreadPool"
  let ?p2 = "ThreadPool_stop (ThreadPool_submit 7 ?p0)"
  have "pool_reachable 1 ?p2" by (rule pool_reachable.step [OF pool_reachable.step [OF pool_reachable.start pool_step.submit] pool_step.stop])
  moreover have w: "worker_step 0 ?p2 = Some (set_worker 0 HasExited ?p2)"
    by (simp add: worker_step_def ThreadPool_new_def ThreadPool_submit_def ThreadPool_stop_def)
  ultimately have "pool_reachable 1 (set_worker 0 HasExited ?p2)" by (meson pool_reachable.step pool_step.work)
  then show ?thesis
    by (intro exI [of _ "set_worker 0 HasExited ?p2"])
      (simp add: stop_returns_def set_worker_def ThreadPool_new_def ThreadPool_submit_def ThreadPool_stop_def)
qed

end
