(* ===== verification/Std_String.thy ===== *)
theory Std_String
  imports File_Names
begin

text \<open>
  The parts of \<open>std::string\<close> and the C library that the gateway uses: searching, \<open>substr\<close>,
  \<open>tolower\<close>, \<open>isspace\<close>, \<open>std::stoul\<close> and \<open>std::stoi\<close>. Positions are 64-bit words, so
  that \<open>npos\<close> is \<open>-1\<close> and the sums the code forms with it wrap; a call that throws is the
  left value of a sum.
\<close>

datatype std_exn = out_of_range | invalid_argument

definition npos :: u64 where
  "npos = - 1"

section \<open>Searching\<close>

text \<open>\<open>find_at p s\<close> is the least index of \<open>s\<close> at which \<open>p\<close> holds of the rest.\<close>

fun find_at :: "(bytes \<Rightarrow> bool) \<Rightarrow> bytes \<Rightarrow> nat option" where
  "find_at p [] = (if p [] then Some 0 else None)"
| "find_at p (c # cs) = (if p (c # cs) then Some 0 else map_option Suc (find_at p cs))"

definition starts_with :: "bytes \<Rightarrow> bytes \<Rightarrow> bool" where
  "starts_with needle s \<longleftrightarrow> take (length needle) s = needle"

text \<open>\<open>s.find(c, pos)\<close> for a character and \<open>s.find(needle, pos)\<close> for a string.\<close>

definition find_char :: "byte \<Rightarrow> bytes \<Rightarrow> u64 \<Rightarrow> u64" where
  "find_char c s pos =
     (if unat pos < length s
      then case find_at (\<lambda>t. t \<noteq> [] \<and> hd t = c) (drop (unat pos) s) of
             None \<Rightarrow> npos
           | Some i \<Rightarrow> pos + word_of_nat i
      else npos)"

definition find_str :: "bytes \<Rightarrow> bytes \<Rightarrow> nat \<Rightarrow> nat option" where
  "find_str needle s pos =
     (if pos \<le> length s then map_option ((+) pos) (find_at (starts_with needle) (drop pos s)) else None)"

text \<open>\<open>s.substr(pos, n)\<close> throws when \<open>pos\<close> lies behind the end.\<close>

definition substr :: "bytes \<Rightarrow> u64 \<Rightarrow> u64 \<Rightarrow> std_exn + bytes" where
  "substr s pos n =
     (if length s < unat pos then Inl out_of_range else Inr (take (unat n) (drop (unat pos) s)))"

lemma find_at_Some:
  "find_at p s = Some i \<longleftrightarrow> i \<le> length s \<and> p (drop i s) \<and> (\<forall>j<i. \<not> p (drop j s))"
proof (induction s arbitrary: i)
  case (Cons c cs)
  show ?case
  proof (cases i)
    case (Suc k)
    have "(\<forall>j<Suc k. \<not> p (drop j (c # cs))) \<longleftrightarrow> \<not> p (c # cs) \<and> (\<forall>j<k. \<not> p (drop j cs))"
      by (auto simp: less_Suc_eq_0_disj)
    then show ?thesis using Cons.IH [of k] Suc by auto
  qed auto
qed auto

lemma find_at_None: "find_at p s = None \<longleftrightarrow> (\<forall>i\<le>length s. \<not> p (drop i s))"
proof (induction s)
  case (Cons c cs)
  have "(\<forall>i\<le>Suc (length cs). \<not> p (drop i (c # cs))) \<longleftrightarrow> \<not> p (c # cs) \<and> (\<forall>i\<le>length cs. \<not> p (drop i cs))"
    by (metis Suc_le_mono drop0 drop_Suc_Cons le0 not0_implies_Suc)
  then show ?case using Cons.IH by simp
qed simp

lemma find_char_found:
  assumes "c \<notin> set a" "length x < 2 ^ 64"
  shows "find_char c (x @ a @ c # b) (word_of_nat (length x)) = word_of_nat (length x + length a)"
proof -
  have "find_at (\<lambda>t. t \<noteq> [] \<and> hd t = c) (a @ c # b) = Some (length a)"
    using assms(1) by (induction a) auto
  then show ?thesis using assms(2) by (simp add: find_char_def unat_of_nat)
qed

lemma find_char_missing:
  assumes "c \<notin> set a" "length x < 2 ^ 64"
  shows "find_char c (x @ a) (word_of_nat (length x)) = npos"
proof -
  have "find_at (\<lambda>t. t \<noteq> [] \<and> hd t = c) a = None"
    using assms by (induction a) auto
  then show ?thesis using assms(2) by (simp add: find_char_def unat_of_nat)
qed

lemmas find_char_first = find_char_found [of _ _ "[]", simplified]
  and find_char_none = find_char_missing [of _ _ "[]", simplified]

text \<open>Where a string is found does not depend on what is appended or was cut off in front.\<close>

lemma find_str_Some:
  "find_str needle s pos = Some i \<longleftrightarrow>
     pos \<le> i \<and> i \<le> length s \<and> starts_with needle (drop i s) \<and> (\<forall>j. pos \<le> j \<and> j < i \<longrightarrow> \<not> starts_with needle (drop j s))"
proof -
  have "(\<forall>j<i - pos. \<not> starts_with needle (drop (pos + j) s)) \<longleftrightarrow>
      (\<forall>j. pos \<le> j \<and> j < i \<longrightarrow> \<not> starts_with needle (drop j s))" if "pos \<le> i"
    using that by (metis add_less_cancel_left le_add_diff_inverse le_add1)
  then show ?thesis
    by (auto simp: find_str_def find_at_Some add.commute dest: le_Suc_ex)
qed

lemma starts_with_append: "starts_with needle s \<Longrightarrow> starts_with needle (s @ t)"
  using length_take [of "length needle" s] by (auto simp: starts_with_def)

lemma starts_with_prefix: "starts_with needle (s @ t) \<Longrightarrow> length needle \<le> length s \<Longrightarrow> starts_with needle s"
  by (simp add: starts_with_def)

lemma find_str_append:
  assumes "find_str needle s pos = Some i"
  shows "find_str needle (s @ t) pos = Some i"
proof -
  have f: "pos \<le> i" "i \<le> length s" "starts_with needle (drop i s)"
    and n: "\<And>j. pos \<le> j \<Longrightarrow> j < i \<Longrightarrow> \<not> starts_with needle (drop j s)"
    using assms by (auto simp: find_str_Some)
  have l: "i + length needle \<le> length s"
    using f(2,3) by (auto simp: starts_with_def dest: arg_cong [where f = length])
  have "\<not> starts_with needle (drop j (s @ t))" if "pos \<le> j" "j < i" for j
  proof
    assume "starts_with needle (drop j (s @ t))"
    moreover have "drop j (s @ t) = drop j s @ t" "length needle \<le> length (drop j s)" using that l by auto
    ultimately show False using n [OF that] starts_with_prefix [of needle "drop j s" t] by simp
  qed
  then show ?thesis using f starts_with_append [OF f(3), of t] by (simp add: find_str_Some)
qed

lemma find_str_shift:
  "k \<le> length s \<Longrightarrow> find_str needle s (k + pos) = map_option ((+) k) (find_str needle (drop k s) pos)"
proof -
  assume "k \<le> length s"
  then have "k + pos \<le> length s \<longleftrightarrow> pos \<le> length (drop k s)" "drop (k + pos) s = drop pos (drop k s)"
      "(+) (k + pos) = (\<lambda>x. k + (pos + x))"
    by (auto simp: add.commute add.left_commute)
  then show ?thesis by (cases "pos \<le> length (drop k s)") (simp_all only: find_str_def option.map_comp comp_def if_True if_False option.map)
qed

section \<open>Substrings\<close>

lemma substr_prefix: "length a < 2 ^ 64 \<Longrightarrow> substr (a @ b) 0 (word_of_nat (length a)) = Inr a"
  by (simp add: substr_def unat_of_nat)

lemma substr_middle:
  "length x < 2 ^ 64 \<Longrightarrow> length a < 2 ^ 64 \<Longrightarrow>
   substr (x @ a @ b) (word_of_nat (length x)) (word_of_nat (length a)) = Inr a"
  by (simp add: substr_def unat_of_nat)

lemma unat_npos: "unat npos = 2 ^ 64 - 1"
  by (simp add: npos_def unat_eq_nat_uint uint_word_ariths)

lemma substr_rest:
  "length (x @ a) < 2 ^ 64 \<Longrightarrow> substr (x @ a) (word_of_nat (length x)) npos = Inr a"
  by (simp add: substr_def unat_of_nat unat_npos)

section \<open>Characters\<close>

text \<open>\<open>tolower\<close> and \<open>isspace\<close> in the "C" locale.\<close>

definition tolower :: "byte \<Rightarrow> byte" where
  "tolower c = (if 65 \<le> c \<and> c \<le> 90 then c + 32 else c)"

definition isspace :: "byte \<Rightarrow> bool" where
  "isspace c \<longleftrightarrow> c = 32 \<or> (9 \<le> c \<and> c \<le> 13)"

lemma tolower_idem [simp]: "tolower (tolower c) = tolower c"
proof (cases "65 \<le> c \<and> c \<le> 90")
  case True
  then have "unat (c + 32) = unat c + 32" "65 \<le> unat c" "unat c \<le> 90"
    by (auto simp: word_le_nat_alt unat_word_ariths)
  then show ?thesis using True by (auto simp: tolower_def word_le_nat_alt)
qed (auto simp: tolower_def)

section \<open>Numbers\<close>

text \<open>
  \<open>strtoul\<close> and \<open>strtol\<close> in base 10: white space, an optional sign, and the longest run of
  digits; what follows is ignored. \<open>std::stoul\<close> and \<open>std::stoi\<close> throw when there is no
  digit and when the number does not fit. \<open>stoul\<close> takes a minus sign and negates modulo
  \<open>2 ^ 64\<close>; \<open>stoi\<close> returns an \<open>int\<close> between \<open>-2 ^ 31\<close> and \<open>2 ^ 31 - 1\<close>.
\<close>

definition scan_number :: "bytes \<Rightarrow> (bool \<times> nat) option" where
  "scan_number s =
     (let t = dropWhile isspace s;
          neg = (t \<noteq> [] \<and> hd t = 45);
          u = (if t \<noteq> [] \<and> (hd t = 45 \<or> hd t = 43) then tl t else t);
          ds = takeWhile is_digit u
      in if ds = [] then None else Some (neg, digits_value ds))"

definition stoul :: "bytes \<Rightarrow> std_exn + u64" where
  "stoul s =
     (case scan_number s of
        None \<Rightarrow> Inl invalid_argument
      | Some (neg, n) \<Rightarrow>
          if 2 ^ 64 \<le> n then Inl out_of_range
          else Inr (if neg then - word_of_nat n else word_of_nat n))"

definition stoi :: "bytes \<Rightarrow> std_exn + int" where
  "stoi s =
     (case scan_number s of
        None \<Rightarrow> Inl invalid_argument
      | Some (neg, n) \<Rightarrow>
          let v = (if neg then - int n else int n)
          in if v < - (2 ^ 31) \<or> 2 ^ 31 \<le> v then Inl out_of_range else Inr v)"

lemma isspace_digit: "is_digit c \<Longrightarrow> \<not> isspace c \<and> c \<noteq> 45 \<and> c \<noteq> 43"
  by (auto simp: is_digit_def isspace_def word_le_nat_alt)

lemma scan_number_to_digits:
  assumes "rest = [] \<or> \<not> is_digit (hd rest)"
  shows "scan_number (to_digits n @ rest) = Some (False, n)"
proof -
  obtain d ds where d: "to_digits n = d # ds" by (cases "to_digits n") auto
  have all: "list_all is_digit (to_digits n)" "digits_value (to_digits n) = n"
    using to_digits_digits by auto
  then have "is_digit d" using d by simp
  from isspace_digit [OF this] have w: "dropWhile isspace (to_digits n @ rest) = to_digits n @ rest" "d \<noteq> 45" "d \<noteq> 43"
    by (auto simp: d)
  have "takeWhile is_digit (to_digits n @ rest) = to_digits n"
    using all(1) assms by (cases rest) (auto simp: list_all_iff takeWhile_append2)
  then show ?thesis using w all(2) by (simp add: scan_number_def d Let_def)
qed

lemma stoul_to_digits: "n < 2 ^ 64 \<Longrightarrow> stoul (to_digits n) = Inr (word_of_nat n)"
  using scan_number_to_digits [of "[]" n] by (simp add: stoul_def)

lemma stoi_to_digits: "n < 2 ^ 31 \<Longrightarrow> stoi (to_digits n) = Inr (int n)"
  using scan_number_to_digits [of "[]" n] by (simp add: stoi_def)

text \<open>\<open>std::to_string\<close> and \<open>operator<<\<close> of an \<open>int\<close>.\<close>

definition int_to_string :: "int \<Rightarrow> bytes" where
  "int_to_string i = (if i < 0 then 45 # to_digits (nat (- i)) else to_digits (nat i))"

end
