(* ===== verification/Net_Io.thy ===== *)
theory Net_Io
  imports Std_String
begin

text \<open>
  The socket layer of the gateway: \<open>socket.cpp\<close>, \<open>io_awaitable.h\<close> and
  \<open>tcp_stream.cpp\<close>. The kernel is a script: a socket carries the
  answers of its future \<open>read\<close> and \<open>write\<close> calls. A coroutine that suspends on a
  socket is resumed when the kernel has the next answer, so \<open>EAGAIN\<close> is one of the answers;
  a script that runs out is a peer that stays silent, and then the call does not return
  (\<open>None\<close>). The lemmas say that the bytes of the peer arrive unchanged and in order,
  whatever the pieces, interruptions and retries, and that a written buffer goes out once.
\<close>

datatype read_answer = RData bytes | REof | REintr | REagain | RError

datatype write_answer = WBytes nat | WZero | WEintr | WEagain | WError

record Socket =
  sk_reads :: "read_answer list"
  sk_writes :: "write_answer list"
  sk_written :: bytes
  sk_closed :: bool

definition Socket_close :: "Socket \<Rightarrow> Socket" where
  "Socket_close s = s\<lparr>sk_closed := True\<rparr>"

text \<open>
  \<open>asyncRead\<close>: at most \<open>len\<close> bytes; what the kernel has beyond that stays for the next call.
  \<open>Inr []\<close> is the end of the stream, \<open>Inl ()\<close> an error.
\<close>

fun async_read_loop :: "nat \<Rightarrow> read_answer list \<Rightarrow> ((unit + bytes) \<times> read_answer list) option" where
  "async_read_loop len [] = None"
| "async_read_loop len (RData d # as) =
     (if d = [] then async_read_loop len as
      else Some (Inr (take len d), if length d \<le> len then as else RData (drop len d) # as))"
| "async_read_loop len (REof # as) = Some (Inr [], as)"
| "async_read_loop len (REintr # as) = async_read_loop len as"
| "async_read_loop len (REagain # as) = async_read_loop len as"
| "async_read_loop len (RError # as) = Some (Inl (), as)"

definition asyncRead :: "nat \<Rightarrow> Socket \<Rightarrow> ((unit + bytes) \<times> Socket) option" where
  "asyncRead len s =
     (case async_read_loop len (sk_reads s) of None \<Rightarrow> None | Some (r, as) \<Rightarrow> Some (r, s\<lparr>sk_reads := as\<rparr>))"

text \<open>\<open>asyncWriteAll\<close>; the kernel takes at most what is offered.\<close>

fun async_write_loop :: "bytes \<Rightarrow> bytes \<Rightarrow> write_answer list \<Rightarrow> (bool \<times> bytes \<times> write_answer list) option" where
  "async_write_loop out [] ws = Some (True, out, ws)"
| "async_write_loop out (b # bs) [] = None"
| "async_write_loop out (b # bs) (WBytes n # ws) =
     (if n = 0 then Some (False, out, ws)
      else async_write_loop (out @ take n (b # bs)) (drop n (b # bs)) ws)"
| "async_write_loop out (b # bs) (WZero # ws) = Some (False, out, ws)"
| "async_write_loop out (b # bs) (WEintr # ws) = async_write_loop out (b # bs) ws"
| "async_write_loop out (b # bs) (WEagain # ws) = async_write_loop out (b # bs) ws"
| "async_write_loop out (b # bs) (WError # ws) = Some (False, out, ws)"

definition asyncWriteAll :: "bytes \<Rightarrow> Socket \<Rightarrow> (bool \<times> Socket) option" where
  "asyncWriteAll dat s =
     (case async_write_loop (sk_written s) dat (sk_writes s) of
        None \<Rightarrow> None
      | Some (ok, out, ws) \<Rightarrow> Some (ok, s\<lparr>sk_written := out, sk_writes := ws\<rparr>))"

text \<open>
  \<open>asyncConnect\<close> and \<open>connectWithTimeout\<close>: the answers of the system calls in the order
  they are made; \<open>socket\<close> returns a descriptor or fails.
\<close>

record connect_answers =
  ca_socket :: "nat option"
  ca_pton :: bool
  ca_getfl :: int
  ca_setfl :: int
  ca_connect :: int
  ca_in_progress :: bool
  ca_select :: int
  ca_getsockopt :: int
  ca_so_error :: int

definition asyncConnect :: "connect_answers \<Rightarrow> nat option" where
  "asyncConnect a =
     (case ca_socket a of
        None \<Rightarrow> None
      | Some fd \<Rightarrow>
          if \<not> ca_pton a then None
          else if ca_connect a = 0 then Some fd
          else if \<not> ca_in_progress a then None
          else if ca_getsockopt a < 0 \<or> ca_so_error a \<noteq> 0 then None
          else Some fd)"

definition connectWithTimeout :: "connect_answers \<Rightarrow> bool" where
  "connectWithTimeout a =
     (if ca_getfl a < 0 then False
      else if ca_setfl a < 0 then False
      else if ca_connect a = 0 then True
      else if \<not> ca_in_progress a then False
      else if ca_select a \<le> 0 then False
      else if ca_getsockopt a < 0 \<or> ca_so_error a \<noteq> 0 then False
      else True)"

section \<open>TcpStream\<close>

record TcpStream =
  ts_sock :: Socket
  ts_read_buf :: bytes

text \<open>
  The blocking loops of \<open>TcpStream\<close> retry on \<open>EAGAIN\<close> only. \<open>readExact\<close> reads what is
  missing; \<open>None\<close> when the peer stays silent.
\<close>

function read_exact_loop :: "nat \<Rightarrow> bytes \<Rightarrow> read_answer list \<Rightarrow> (bool \<times> bytes \<times> read_answer list) option" where
  "read_exact_loop len got as =
     (if length got < len then
        case as of
          [] \<Rightarrow> None
        | RData d # as' \<Rightarrow>
            (if d = [] then read_exact_loop len got as'
             else read_exact_loop len (got @ take (len - length got) d)
               (if length d \<le> len - length got then as' else RData (drop (len - length got) d) # as'))
        | REagain # as' \<Rightarrow> read_exact_loop len got as'
        | _ # as' \<Rightarrow> Some (False, got, as')
      else Some (True, got, as))"
  by pat_completeness auto
termination
  by (relation "measures [\<lambda>(len, got, as). len - length got, \<lambda>(len, got, as). length as]") auto

declare read_exact_loop.simps [simp del]

definition TcpStream_readExact :: "nat \<Rightarrow> TcpStream \<Rightarrow> (bool \<times> bytes \<times> TcpStream) option" where
  "TcpStream_readExact len t =
     (case read_exact_loop len [] (sk_reads (ts_sock t)) of
        None \<Rightarrow> None
      | Some (ok, got, as) \<Rightarrow> Some (ok, got, t\<lparr>ts_sock := (ts_sock t)\<lparr>sk_reads := as\<rparr>\<rparr>))"

text \<open>\<open>readUntil\<close> reads pieces of 4096 bytes until the delimiter is in the buffer.\<close>

function read_until_loop :: "bytes \<Rightarrow> bytes \<Rightarrow> read_answer list \<Rightarrow> (bytes option \<times> bytes \<times> read_answer list) option" where
  "read_until_loop delim buf as =
     (case find_str delim buf 0 of
        Some pos \<Rightarrow> Some (Some (take (pos + length delim) buf), drop (pos + length delim) buf, as)
      | None \<Rightarrow>
          (case as of
             [] \<Rightarrow> None
           | RData d # as' \<Rightarrow>
               (if length d \<le> 4096 then read_until_loop delim (buf @ d) as'
                else read_until_loop delim (buf @ take 4096 d) (RData (drop 4096 d) # as'))
           | REagain # as' \<Rightarrow> read_until_loop delim buf as'
           | _ # as' \<Rightarrow> Some (None, buf, as')))"
  by pat_completeness auto
termination
  by (relation "measures [\<lambda>(delim, buf, as). length as, \<lambda>(delim, buf, as). case as of RData d # _ \<Rightarrow> length d | _ \<Rightarrow> 0]") auto

declare read_until_loop.simps [simp del]

definition TcpStream_readUntil :: "bytes \<Rightarrow> TcpStream \<Rightarrow> (bytes option \<times> TcpStream) option" where
  "TcpStream_readUntil delim t =
     (case read_until_loop delim (ts_read_buf t) (sk_reads (ts_sock t)) of
        None \<Rightarrow> None
      | Some (r, buf, as) \<Rightarrow> Some (r, t\<lparr>ts_read_buf := buf, ts_sock := (ts_sock t)\<lparr>sk_reads := as\<rparr>\<rparr>))"

section \<open>What arrives and what goes out\<close>

text \<open>The bytes a script still has to deliver, and those of the calls between two scripts.\<close>

definition incoming :: "read_answer list \<Rightarrow> bytes" where
  "incoming as = concat (map (\<lambda>a. case a of RData d \<Rightarrow> d | _ \<Rightarrow> []) as)"

lemma incoming_simps [simp]:
  "incoming [] = []" "incoming (RData d # as) = d @ incoming as" "incoming (REof # as) = incoming as"
  "incoming (REintr # as) = incoming as" "incoming (REagain # as) = incoming as" "incoming (RError # as) = incoming as"
  by (simp_all add: incoming_def)

lemma take_drop_append [simp]: "take n x @ drop n x @ y = x @ y"
  by (metis append.assoc append_take_drop_id)

lemma async_read_loop_bytes:
  "async_read_loop len as = Some (r, as') \<Longrightarrow> incoming as = (case r of Inr d \<Rightarrow> d | Inl _ \<Rightarrow> []) @ incoming as'"
  by (induction len as rule: async_read_loop.induct) (auto split: if_splits)

lemma async_read_loop_less: "0 < len \<Longrightarrow> async_read_loop len as = Some (r, as') \<Longrightarrow>
  length as' < length as \<or> (length as' = length as \<and> length (incoming as') < length (incoming as))"
  by (induction len as rule: async_read_loop.induct) (auto split: if_splits)

lemma async_read_loop_length: "async_read_loop len as = Some (Inr d, as') \<Longrightarrow> length d \<le> len"
  by (induction len as rule: async_read_loop.induct) (auto split: if_splits)

lemma async_write_loop_bytes:
  "async_write_loop out dat ws = Some (ok, out', ws') \<Longrightarrow> \<exists>n. out' = out @ take n dat \<and> (ok \<longrightarrow> out' = out @ dat)"
proof (induction out dat ws rule: async_write_loop.induct)
  case (3 out b bs n ws)
  show ?case
  proof (cases "n = 0")
    case True
    then show ?thesis using 3(2) by (auto intro: exI [of _ 0])
  next
    case False
    then obtain m where "out' = (out @ take n (b # bs)) @ take m (drop n (b # bs))"
      "ok \<longrightarrow> out' = (out @ take n (b # bs)) @ drop n (b # bs)" using 3 by auto
    then show ?thesis by (intro exI [of _ "n + m"]) (auto simp: take_add)
  qed
qed (auto intro: exI [of _ 0])

lemma asyncWriteAll_bytes:
  assumes "asyncWriteAll dat s = Some (ok, s')"
  shows "\<exists>n. sk_written s' = sk_written s @ take n dat" "ok \<Longrightarrow> sk_written s' = sk_written s @ dat"
    "sk_reads s' = sk_reads s" "sk_closed s' = sk_closed s"
  using assms async_write_loop_bytes [of "sk_written s" dat "sk_writes s" ok]
  by (fastforce simp: asyncWriteAll_def split: option.splits)+

text \<open>A kernel that takes every byte: the writes succeed, whatever the pieces.\<close>

definition never_fails :: "write_answer list \<Rightarrow> bool" where
  "never_fails ws \<longleftrightarrow> list_all (\<lambda>w. case w of WBytes n \<Rightarrow> 0 < n | WEintr \<Rightarrow> True | WEagain \<Rightarrow> True | _ \<Rightarrow> False) ws"

lemma async_write_loop_ok:
  "never_fails ws \<Longrightarrow> async_write_loop out dat ws = Some (ok, out', ws') \<Longrightarrow> ok \<and> never_fails ws'"
  by (induction out dat ws rule: async_write_loop.induct) (auto simp: never_fails_def split: if_splits)

text \<open>\<open>readExact\<close> returns the first bytes of the stream, \<open>readUntil\<close> the stream up to the delimiter.\<close>

lemma read_exact_bytes:
  assumes "read_exact_loop len got as = Some (ok, out, as')" "length got \<le> len"
  shows "got @ incoming as = out @ incoming as'" "ok \<Longrightarrow> length out = len"
proof -
  have "got @ incoming as = out @ incoming as' \<and> (ok \<longrightarrow> length out = len)"
    using assms
  proof (induction len got as rule: read_exact_loop.induct)
    case (1 len got as)
    then show ?case
      by (subst (asm) (4) read_exact_loop.simps)
        (auto split: if_splits list.splits read_answer.splits)
  qed
  then show "got @ incoming as = out @ incoming as'" "ok \<Longrightarrow> length out = len" by auto
qed

lemma read_until_bytes:
  assumes "read_until_loop delim buf as = Some (r, buf', as')"
  shows "r = Some line \<Longrightarrow> line @ buf' @ incoming as' = buf @ incoming as \<and>
      find_str delim (line @ buf') 0 = Some (length line - length delim)"
proof -
  have "r = Some line \<longrightarrow> line @ buf' @ incoming as' = buf @ incoming as \<and>
      find_str delim (line @ buf') 0 = Some (length line - length delim)" for line
    using assms
  proof (induction delim buf as rule: read_until_loop.induct)
    case (1 delim buf as)
    show ?case
    proof (cases "find_str delim buf 0")
      case None
      then show ?thesis using 1
        by (subst (asm) (4) read_until_loop.simps) (auto split: if_splits list.splits read_answer.splits)
    next
      case (Some pos)
      then have "length (take (pos + length delim) buf) - length delim = pos"
        by (auto simp: find_str_Some starts_with_def min_def dest: arg_cong [where f = length])
      then show ?thesis using Some 1(4)
        by (subst (asm) read_until_loop.simps) auto
    qed
  qed
  then show "r = Some line \<Longrightarrow> line @ buf' @ incoming as' = buf @ incoming as \<and>
      find_str delim (line @ buf') 0 = Some (length line - length delim)" by auto
qed

text \<open>A peer that neither closes nor fails while it has bytes to deliver.\<close>

definition no_failures :: "read_answer list \<Rightarrow> bool" where
  "no_failures as \<longleftrightarrow> list_all (\<lambda>a. a \<noteq> REof \<and> a \<noteq> RError) as"

lemma async_read_loop_delivers:
  assumes "no_failures as" "incoming as \<noteq> []" "0 < len"
  obtains d as' where "async_read_loop len as = Some (Inr d, as')" "d \<noteq> []" "no_failures as'" "incoming as = d @ incoming as'"
proof -
  have "\<exists>d as'. async_read_loop len as = Some (Inr d, as') \<and> d \<noteq> [] \<and> no_failures as'"
    using assms
  proof (induction len as rule: async_read_loop.induct)
    case (2 len d as)
    then show ?case by (cases "d = []") (auto simp: no_failures_def)
  qed (auto simp: no_failures_def)
  then show ?thesis using that async_read_loop_bytes [of len as] by fastforce
qed

end
