(* ===== verification/Http_Message.thy ===== *)
theory Http_Message
  imports Std_String
begin

text \<open>
  The HTTP messages of the gateway: \<open>headers.cpp\<close>, \<open>request.h\<close>, \<open>response.cpp\<close> and
  \<open>router.cpp\<close>. \<open>Headers\<close> keeps a vector of all fields beside a hash map from the lower-case
  name to a value; the invariant \<open>headers_inv\<close> says that the map holds the last value of
  each name, and every operation keeps it. The lemmas on the router say which route
  answers and what a pattern with parameters matches.
\<close>

section \<open>Headers\<close>

definition toLower :: "bytes \<Rightarrow> bytes" where
  "toLower s = map tolower s"

record Headers =
  hdr_all :: "(bytes \<times> bytes) list"
  hdr_lower :: "(bytes \<times> bytes) list"

definition Headers_new :: Headers where
  "Headers_new = \<lparr>hdr_all = [], hdr_lower = []\<rparr>"

definition Headers_add :: "bytes \<Rightarrow> bytes \<Rightarrow> Headers \<Rightarrow> Headers" where
  "Headers_add name val h =
     h\<lparr>hdr_all := hdr_all h @ [(name, val)], hdr_lower := AList.update (toLower name) val (hdr_lower h)\<rparr>"

definition Headers_get :: "bytes \<Rightarrow> Headers \<Rightarrow> bytes" where
  "Headers_get name h = (case map_of (hdr_lower h) (toLower name) of Some v \<Rightarrow> v | None \<Rightarrow> [])"

definition Headers_has :: "bytes \<Rightarrow> Headers \<Rightarrow> bool" where
  "Headers_has name h \<longleftrightarrow> map_of (hdr_lower h) (toLower name) \<noteq> None"

definition Headers_remove :: "bytes \<Rightarrow> Headers \<Rightarrow> Headers" where
  "Headers_remove name h =
     (let key = toLower name
      in h\<lparr>hdr_lower := AList.delete key (hdr_lower h),
           hdr_all := filter (\<lambda>p. toLower (fst p) \<noteq> key) (hdr_all h)\<rparr>)"

text \<open>The value a case-insensitive search from the back of the vector finds.\<close>

definition last_field :: "(bytes \<times> bytes) list \<Rightarrow> bytes \<Rightarrow> bytes option" where
  "last_field hs k = map_of (rev (map (\<lambda>p. (toLower (fst p), snd p)) hs)) k"

definition headers_inv :: "Headers \<Rightarrow> bool" where
  "headers_inv h \<longleftrightarrow> map_of (hdr_lower h) = last_field (hdr_all h)"

lemma toLower_idem [simp]: "toLower (toLower s) = toLower s"
  by (simp add: toLower_def comp_def)

lemma last_field_append [simp]:
  "last_field (hs @ [(n, v)]) k = (if k = toLower n then Some v else last_field hs k)"
  by (simp add: last_field_def)

lemma last_field_filter:
  "last_field (filter (\<lambda>p. toLower (fst p) \<noteq> key) hs) k = (if k = key then None else last_field hs k)"
  by (induction hs rule: rev_induct) (auto simp: last_field_def)

lemma headers_inv_new: "headers_inv Headers_new"
  by (simp add: headers_inv_def Headers_new_def last_field_def fun_eq_iff)

lemma headers_inv_add: "headers_inv h \<Longrightarrow> headers_inv (Headers_add n v h)"
  by (auto simp: headers_inv_def Headers_add_def fun_eq_iff update_conv')

lemma headers_inv_remove: "headers_inv h \<Longrightarrow> headers_inv (Headers_remove n h)"
  by (auto simp: headers_inv_def Headers_remove_def Let_def fun_eq_iff last_field_filter delete_conv')

lemma Headers_get_add: "Headers_get n (Headers_add m v h) = (if toLower n = toLower m then v else Headers_get n h)"
  by (auto simp: Headers_get_def Headers_add_def update_conv')

lemma Headers_has_remove:
  "Headers_has n (Headers_remove m h) \<longleftrightarrow> toLower n \<noteq> toLower m \<and> Headers_has n h"
  by (auto simp: Headers_has_def Headers_remove_def Let_def delete_conv')

text \<open>\<open>has\<close> and \<open>get\<close> see exactly the fields that \<open>all\<close> lists.\<close>

lemma Headers_has_all:
  assumes "headers_inv h"
  shows "Headers_has n h \<longleftrightarrow> (\<exists>p\<in>set (hdr_all h). toLower (fst p) = toLower n)"
proof -
  have "last_field hs k \<noteq> None \<longleftrightarrow> (\<exists>p\<in>set hs. toLower (fst p) = k)" for hs k
    by (induction hs rule: rev_induct) (auto simp: last_field_def)
  then show ?thesis using assms by (simp add: headers_inv_def Headers_has_def)
qed

section \<open>Requests and responses\<close>

record HttpRequest =
  rq_method :: bytes
  rq_path :: bytes
  rq_query :: bytes
  rq_version :: bytes
  rq_headers :: Headers
  rq_body :: bytes

definition HttpRequest_new :: HttpRequest where
  "HttpRequest_new = \<lparr>rq_method = [], rq_path = [], rq_query = [], rq_version = [], rq_headers = Headers_new, rq_body = []\<rparr>"

record HttpResponse =
  rs_status_code :: int
  rs_status_text :: bytes
  rs_headers :: Headers
  rs_body :: bytes

definition HttpResponse_new :: HttpResponse where
  "HttpResponse_new = \<lparr>rs_status_code = 200, rs_status_text = str ''OK'', rs_headers = Headers_new, rs_body = []\<rparr>"

definition CRLF :: bytes where
  "CRLF = [13, 10]"

definition HttpResponse_serialize :: "HttpResponse \<Rightarrow> bytes" where
  "HttpResponse_serialize r =
     str ''HTTP/1.1 '' @ int_to_string (rs_status_code r) @ str '' '' @ rs_status_text r @ CRLF @
     concat (map (\<lambda>(name, val). name @ str '': '' @ val @ CRLF) (hdr_all (rs_headers r))) @
     (if \<not> Headers_has (str ''Content-Length'') (rs_headers r)
      then str ''Content-Length: '' @ to_digits (length (rs_body r)) @ CRLF else []) @
     CRLF @ rs_body r"

text \<open>\<open>HttpResponseBuilder\<close> holds the response it builds.\<close>

definition Builder_status :: "int \<Rightarrow> bytes \<Rightarrow> HttpResponse \<Rightarrow> HttpResponse" where
  "Builder_status code txt r =
     r\<lparr>rs_status_code := code,
       rs_status_text :=
         (if txt = [] then (if code = 200 then str ''OK'' else if code = 404 then str ''Not Found'' else str ''Error'')
          else txt)\<rparr>"

definition Builder_header :: "bytes \<Rightarrow> bytes \<Rightarrow> HttpResponse \<Rightarrow> HttpResponse" where
  "Builder_header name val r = r\<lparr>rs_headers := Headers_add name val (rs_headers r)\<rparr>"

definition Builder_body :: "bytes \<Rightarrow> HttpResponse \<Rightarrow> HttpResponse" where
  "Builder_body b r = r\<lparr>rs_body := b\<rparr>"

section \<open>The router\<close>

text \<open>
  \<open>Router::match\<close> walks with two positions over pattern and path. A position is modelled by
  the rest of the string behind it; both positions are only compared with the sizes, so
  \<open>npos\<close> is the empty rest. The parameters are collected by the code but not handed on.
\<close>

definition slash :: byte where
  "slash = 47"

definition until_slash :: "bytes \<Rightarrow> bytes" where
  "until_slash s = takeWhile (\<lambda>c. c \<noteq> slash) s"

definition from_slash :: "bytes \<Rightarrow> bytes" where
  "from_slash s = dropWhile (\<lambda>c. c \<noteq> slash) s"

lemma length_from_slash: "length (from_slash s) \<le> length s"
  by (simp add: from_slash_def length_dropWhile_le)

function match_loop :: "bytes \<Rightarrow> bytes \<Rightarrow> (bytes \<times> bytes) list \<Rightarrow> bool \<times> (bytes \<times> bytes) list" where
  "match_loop pat path params =
     (if pat \<noteq> [] \<and> path \<noteq> [] then
        if hd pat = 58 then
          match_loop (from_slash pat) (from_slash path) (AList.update (until_slash (tl pat)) (until_slash path) params)
        else if hd pat \<noteq> hd path then (False, params)
        else match_loop (tl pat) (tl path) params
      else (pat = [] \<and> path = [], params))"
  by pat_completeness auto

termination
proof (relation "measure (\<lambda>(pat, path, params). length pat)", simp, goal_cases)
  case (1 pat path params)
  have "from_slash pat = from_slash (tl pat)" using 1 by (cases pat) (auto simp: from_slash_def slash_def)
  then show ?case using 1 length_from_slash [of "tl pat"] by (cases pat) auto
next
  case (2 pat path params)
  then show ?case by (cases pat) auto
qed

declare match_loop.simps [simp del]

definition Router_match :: "bytes \<Rightarrow> bytes \<Rightarrow> bool \<times> (bytes \<times> bytes) list" where
  "Router_match pat path = (if pat = path then (True, []) else match_loop pat path [])"

record Route =
  rt_method :: bytes
  rt_pattern :: bytes
  rt_handler :: "HttpRequest \<Rightarrow> HttpResponse"

type_synonym Router = "Route list"

definition Router_route :: "bytes \<Rightarrow> bytes \<Rightarrow> (HttpRequest \<Rightarrow> HttpResponse) \<Rightarrow> Router \<Rightarrow> Router" where
  "Router_route m pat h routes = routes @ [\<lparr>rt_method = m, rt_pattern = pat, rt_handler = h\<rparr>]"

fun Router_dispatch :: "Router \<Rightarrow> HttpRequest \<Rightarrow> HttpResponse" where
  "Router_dispatch [] req =
     HttpResponse_new\<lparr>rs_status_code := 404, rs_status_text := str ''Not Found'', rs_body := str ''Not Found''\<rparr>"
| "Router_dispatch (r # rs) req =
     (if rt_method r = rq_method req \<and> fst (Router_match (rt_pattern r) (rq_path req))
      then rt_handler r req else Router_dispatch rs req)"

text \<open>A pattern that has no parameter matches itself only.\<close>

lemma match_loop_literal: "58 \<notin> set pat \<Longrightarrow> fst (match_loop pat path params) \<longleftrightarrow> pat = path"
proof (induction pat arbitrary: path params)
  case (Cons c cs)
  then show ?case by (cases path) (auto simp: match_loop.simps [of "c # cs"])
qed (auto simp: match_loop.simps)

lemma Router_match_literal: "58 \<notin> set pat \<Longrightarrow> fst (Router_match pat path) \<longleftrightarrow> pat = path"
  by (simp add: Router_match_def match_loop_literal)

text \<open>The segments of a path: \<open>/a/b\<close> is the empty segment, \<open>a\<close> and \<open>b\<close>.\<close>

fun join_segments :: "bytes list \<Rightarrow> bytes" where
  "join_segments [] = []"
| "join_segments [s] = s"
| "join_segments (s # t # ss) = s @ slash # join_segments (t # ss)"

definition is_param :: "bytes \<Rightarrow> bool" where
  "is_param p \<longleftrightarrow> p \<noteq> [] \<and> hd p = 58"

text \<open>
  What a pattern is meant to match: the same number of segments, a parameter against any
  segment and every other segment against itself. A parameter at the end of the pattern
  needs a segment that is not empty; one in the middle does not.
\<close>

fun route_matches :: "bytes list \<Rightarrow> bytes list \<Rightarrow> bool" where
  "route_matches [p] [s] = (if is_param p then s \<noteq> [] else p = s)"
| "route_matches (p # q # ps) (s # t # ss) = ((is_param p \<or> p = s) \<and> route_matches (q # ps) (t # ss))"
| "route_matches _ _ = False"

definition pattern_segment :: "bytes \<Rightarrow> bool" where
  "pattern_segment p \<longleftrightarrow> slash \<notin> set p \<and> (is_param p \<or> 58 \<notin> set p)"

definition segments_tail :: "bytes list \<Rightarrow> bytes" where
  "segments_tail ss = (if ss = [] then [] else slash # join_segments ss)"

lemma join_segments_Cons: "join_segments (s # ss) = s @ segments_tail ss"
  by (cases ss) (auto simp: segments_tail_def)

lemma match_loop_param:
  assumes "slash \<notin> set n" "slash \<notin> set s" "s @ segments_tail ss \<noteq> []"
  shows "fst (match_loop (58 # n @ segments_tail ps) (s @ segments_tail ss) params) =
    fst (match_loop (segments_tail ps) (segments_tail ss)
      (AList.update (until_slash (n @ segments_tail ps)) (until_slash (s @ segments_tail ss)) params))"
proof -
  have "from_slash (x @ segments_tail xs) = segments_tail xs" if "slash \<notin> set x" for x xs
    using that by (induction x) (auto simp: from_slash_def segments_tail_def)
  from this [of "58 # n" ps] this [of s ss] show ?thesis
    using assms by (subst match_loop.simps) (auto simp: slash_def)
qed

lemma match_loop_segment:
  assumes "58 \<notin> set p" "slash \<notin> set p" "slash \<notin> set s"
  shows "fst (match_loop (p @ segments_tail ps) (s @ segments_tail ss) params) \<longleftrightarrow>
    p = s \<and> fst (match_loop (segments_tail ps) (segments_tail ss) params)"
  using assms
proof (induction p arbitrary: s)
  case Nil
  then show ?case
    by (cases s) (auto simp: segments_tail_def match_loop.simps [of "[]"] match_loop.simps [of "47 # _"] slash_def)
next
  case (Cons c p)
  show ?case
  proof (cases s)
    case Nil
    then show ?thesis using Cons.prems
      by (auto simp: segments_tail_def match_loop.simps [of "c # _"])
  next
    case [simp]: (Cons d t)
    show ?thesis using Cons.prems Cons.IH [of t]
      by (auto simp: match_loop.simps [of "c # _"])
  qed
qed

lemma match_loop_tails:
  "fst (match_loop (segments_tail ps) (segments_tail ss) params) \<longleftrightarrow>
     (ps = [] \<and> ss = []) \<or> (ps \<noteq> [] \<and> ss \<noteq> [] \<and> fst (match_loop (join_segments ps) (join_segments ss) params))"
  by (auto simp: segments_tail_def match_loop.simps [of "[]"] match_loop.simps [of "47 # _"] slash_def)

lemma match_loop_route:
  assumes "list_all pattern_segment ps" "\<forall>s\<in>set ss. slash \<notin> set s" "ps \<noteq> []" "ss \<noteq> []"
  shows "fst (match_loop (join_segments ps) (join_segments ss) params) \<longleftrightarrow> route_matches ps ss"
  using assms
proof (induction ps arbitrary: ss params)
  case (Cons p ps)
  obtain s ss' where ss: "ss = s # ss'" using Cons.prems(4) by (cases ss) auto
  have rec: "fst (match_loop (segments_tail ps) (segments_tail ss') params) \<longleftrightarrow>
      (ps = [] \<and> ss' = []) \<or> (ps \<noteq> [] \<and> ss' \<noteq> [] \<and> route_matches ps ss')" for params
    using Cons.IH [of ss'] Cons.prems ss by (auto simp: match_loop_tails)
  have tails: "s @ segments_tail ss' = [] \<longleftrightarrow> s = [] \<and> ss' = []" by (auto simp: segments_tail_def)
  show ?case
  proof (cases "is_param p")
    case True
    then obtain n where n: "p = 58 # n" "slash \<notin> set n"
      using Cons.prems(1) by (cases p) (auto simp: is_param_def pattern_segment_def)
    show ?thesis
    proof (cases "s = [] \<and> ss' = []")
      case True
      then show ?thesis using ss n \<open>is_param p\<close>
        by (cases ps) (auto simp: segments_tail_def match_loop.simps [of "58 # _"])
    next
      case False
      then have "fst (match_loop (join_segments (p # ps)) (join_segments ss) params) \<longleftrightarrow>
          (ps = [] \<and> ss' = []) \<or> (ps \<noteq> [] \<and> ss' \<noteq> [] \<and> route_matches ps ss')"
        using match_loop_param [of n s ss' ps params] rec Cons.prems ss n tails by (auto simp: join_segments_Cons)
      then show ?thesis using False ss \<open>is_param p\<close> by (cases ps; cases ss') auto
    qed
  next
    case False
    then show ?thesis
      using match_loop_segment [of p s ps ss' params] rec Cons.prems ss
      by (cases ps; cases ss') (auto simp: join_segments_Cons pattern_segment_def)
  qed
qed simp

end
