(* ===== verification/Upstreams.thy ===== *)
theory Upstreams
  imports Http_Message
begin

text \<open>
  The upstream servers of the gateway and the policies that pick one: \<open>upstream.cpp\<close>,
  \<open>load_balancer.cpp\<close>, \<open>health_check.cpp\<close> and \<open>middleware.cpp\<close>. A \<open>shared_ptr<Upstream>\<close>
  is the index of the server in the vector of the \<open>UpstreamManager\<close>; the gateway fills that
  vector once, before any request. The locale \<open>load_balancer\<close> is the contract of the abstract
  class \<open>LoadBalancer\<close>. The main result is on the smooth weighted round robin: in a round of
  as many calls as the weights sum up to, each healthy server is picked exactly as often as
  its weight says.
\<close>

record Upstream =
  up_host :: bytes
  up_port :: int
  up_weight :: int
  up_active :: int
  up_healthy :: bool

record UpstreamManager =
  um_upstreams :: "Upstream list"
  um_current :: nat

definition UpstreamManager_new :: UpstreamManager where
  "UpstreamManager_new = \<lparr>um_upstreams = [], um_current = 0\<rparr>"

definition UpstreamManager_reload :: "Upstream list \<Rightarrow> UpstreamManager \<Rightarrow> UpstreamManager" where
  "UpstreamManager_reload ups m = m\<lparr>um_upstreams := ups, um_current := 0\<rparr>"

text \<open>
  The loop that \<open>UpstreamManager::next\<close> and \<open>RoundRobinLB::select\<close> share: the first healthy
  server at or behind position \<open>cur\<close>, going around; \<open>i\<close> counts the servers looked at.
\<close>

function rr_loop :: "Upstream list \<Rightarrow> nat \<Rightarrow> nat \<Rightarrow> nat option" where
  "rr_loop ups cur i =
     (if i < length ups then
        let idx = (cur + i) mod length ups
        in if up_healthy (ups ! idx) then Some idx else rr_loop ups cur (i + 1)
      else None)"
  by pat_completeness auto
termination by (relation "measure (\<lambda>(ups, cur, i). length ups - i)") auto

declare rr_loop.simps [simp del]

definition UpstreamManager_next :: "UpstreamManager \<Rightarrow> nat option \<times> UpstreamManager" where
  "UpstreamManager_next m =
     (case rr_loop (um_upstreams m) (um_current m) 0 of
        None \<Rightarrow> (None, m)
      | Some idx \<Rightarrow> (Some idx, m\<lparr>um_current := (idx + 1) mod length (um_upstreams m)\<rparr>))"

definition set_health :: "bytes \<Rightarrow> int \<Rightarrow> bool \<Rightarrow> Upstream \<Rightarrow> Upstream" where
  "set_health host port up u = (if up_host u = host \<and> up_port u = port then u\<lparr>up_healthy := up\<rparr> else u)"

definition UpstreamManager_markDown :: "bytes \<Rightarrow> int \<Rightarrow> UpstreamManager \<Rightarrow> UpstreamManager" where
  "UpstreamManager_markDown host port m = m\<lparr>um_upstreams := map (set_health host port False) (um_upstreams m)\<rparr>"

definition UpstreamManager_markUp :: "bytes \<Rightarrow> int \<Rightarrow> UpstreamManager \<Rightarrow> UpstreamManager" where
  "UpstreamManager_markUp host port m = m\<lparr>um_upstreams := map (set_health host port True) (um_upstreams m)\<rparr>"

section \<open>The policies\<close>

text \<open>\<open>RoundRobinLB\<close> keeps \<open>idx_\<close>; the result is the new value of \<open>idx_\<close> beside the pick.\<close>

definition RoundRobinLB_select :: "Upstream list \<Rightarrow> nat \<Rightarrow> nat option \<times> nat" where
  "RoundRobinLB_select ups idx =
     (if ups = [] then (None, idx)
      else case rr_loop ups idx 0 of
             None \<Rightarrow> (None, idx)
           | Some i \<Rightarrow> (Some i, (i + 1) mod length ups))"

text \<open>
  \<open>WeightedRoundRobinLB\<close> keeps a current weight per server. The loop carries the current
  weights, the total and the best index and weight so far; \<open>i\<close> is the index of the server
  at the head of the list.
\<close>

fun swrr_loop :: "Upstream list \<Rightarrow> nat \<Rightarrow> int list \<Rightarrow> int \<Rightarrow> nat option \<Rightarrow> int \<Rightarrow> int list \<times> int \<times> nat option" where
  "swrr_loop [] i cw tot bestIdx bestWeight = (cw, tot, bestIdx)"
| "swrr_loop (u # us) i cw tot bestIdx bestWeight =
     (if \<not> up_healthy u then swrr_loop us (i + 1) cw tot bestIdx bestWeight
      else
        let cw = cw[i := cw ! i + up_weight u];
            tot = tot + up_weight u
        in if bestWeight < cw ! i then swrr_loop us (i + 1) cw tot (Some i) (cw ! i)
           else swrr_loop us (i + 1) cw tot bestIdx bestWeight)"

definition resize_weights :: "nat \<Rightarrow> int list \<Rightarrow> int list" where
  "resize_weights n cw = take n cw @ replicate (n - length cw) 0"

definition WeightedRoundRobinLB_new :: "Upstream list \<Rightarrow> int list" where
  "WeightedRoundRobinLB_new ups = replicate (length ups) 0"

definition WeightedRoundRobinLB_select :: "Upstream list \<Rightarrow> int list \<Rightarrow> nat option \<times> int list" where
  "WeightedRoundRobinLB_select ups cw =
     (if ups = [] then (None, cw)
      else let cw = (if length cw \<noteq> length ups then resize_weights (length ups) cw else cw)
           in case swrr_loop ups 0 cw 0 None (- 1) of
                (cw, tot, None) \<Rightarrow> (None, cw)
              | (cw, tot, Some b) \<Rightarrow> (Some b, cw[b := cw ! b - tot]))"

fun least_loop :: "Upstream list \<Rightarrow> nat \<Rightarrow> nat option \<Rightarrow> int \<Rightarrow> nat option" where
  "least_loop [] i best minConn = best"
| "least_loop (u # us) i best minConn =
     (if \<not> up_healthy u then least_loop us (i + 1) best minConn
      else if up_active u < minConn then least_loop us (i + 1) (Some i) (up_active u)
      else least_loop us (i + 1) best minConn)"

definition LeastConnLB_select :: "Upstream list \<Rightarrow> nat option" where
  "LeastConnLB_select ups = (if ups = [] then None else least_loop ups 0 None (2 ^ 31 - 1))"

text \<open>
  \<open>ConsistentHashLB\<close>: \<open>std::hash<std::string>\<close> is the argument \<open>hash\<close>, whose 64-bit result
  is narrowed to 32 bits. The number of virtual nodes given to the constructor is not used.
\<close>

definition ring_key :: "Upstream \<Rightarrow> nat \<Rightarrow> bytes" where
  "ring_key u i = up_host u @ str '':'' @ int_to_string (up_port u) @ str '':'' @ to_digits i"

definition ConsistentHashLB_buildRing :: "(bytes \<Rightarrow> u64) \<Rightarrow> Upstream list \<Rightarrow> (u32 \<times> nat) list" where
  "ConsistentHashLB_buildRing hash ups =
     sort_by (\<lambda>a b. fst a < fst b)
       (concat (map (\<lambda>k. map (\<lambda>i. (ucast (hash (ring_key (ups ! k) i)), k)) [0..<160]) [0..<length ups]))"

definition ConsistentHashLB_select :: "(bytes \<Rightarrow> u64) \<Rightarrow> (u32 \<times> nat) list \<Rightarrow> nat option" where
  "ConsistentHashLB_select hash ring =
     (if ring = [] then None
      else let h = ucast (hash (str ''default''))
           in case lower_bound (\<lambda>e. fst e < h) ring of
                None \<Rightarrow> Some (snd (hd ring))
              | Some e \<Rightarrow> Some (snd e))"

section \<open>Health checks and middleware\<close>

text \<open>
  One round of the loop in \<open>HealthCheck::start\<close>: \<open>probe\<close> is the outcome of \<open>socket\<close> and
  \<open>connect\<close> for the server at an index. The thresholds of the constructor are not used.
\<close>

definition HealthCheck_round :: "(nat \<Rightarrow> bool) \<Rightarrow> UpstreamManager \<Rightarrow> UpstreamManager" where
  "HealthCheck_round probe m =
     fold (\<lambda>i m. let u = um_upstreams m ! i
                 in if probe i then UpstreamManager_markUp (up_host u) (up_port u) m
                    else UpstreamManager_markDown (up_host u) (up_port u) m)
       [0..<length (um_upstreams m)] m"

type_synonym Middleware = "HttpRequest \<Rightarrow> HttpResponse"

definition MiddlewareChain_add :: "Middleware \<Rightarrow> Middleware list \<Rightarrow> Middleware list" where
  "MiddlewareChain_add mw chain = chain @ [mw]"

fun MiddlewareChain_process :: "Middleware list \<Rightarrow> HttpRequest \<Rightarrow> HttpResponse" where
  "MiddlewareChain_process [] req = HttpResponse_new\<lparr>rs_status_code := 200\<rparr>"
| "MiddlewareChain_process (mw # mws) req =
     (let resp = mw req in if 400 \<le> rs_status_code resp then resp else MiddlewareChain_process mws req)"

section \<open>The contract of a policy\<close>

text \<open>
  What \<open>LoadBalancer::select\<close> promises: in the states \<open>inv\<close> allows, the picked server is
  one of the healthy ones, and there is a pick whenever a server is healthy.
\<close>

locale load_balancer =
  fixes select :: "Upstream list \<Rightarrow> 's \<Rightarrow> nat option \<times> 's"
    and inv :: "Upstream list \<Rightarrow> 's \<Rightarrow> bool"
  assumes inv_select: "inv ups s \<Longrightarrow> inv ups (snd (select ups s))"
    and select_healthy: "inv ups s \<Longrightarrow> fst (select ups s) = Some i \<Longrightarrow> i < length ups \<and> up_healthy (ups ! i)"
    and select_some: "inv ups s \<Longrightarrow> u \<in> set ups \<Longrightarrow> up_healthy u \<Longrightarrow> fst (select ups s) \<noteq> None"

text \<open>Successive calls of \<open>select\<close>.\<close>

fun select_run :: "('s \<Rightarrow> nat option \<times> 's) \<Rightarrow> nat \<Rightarrow> 's \<Rightarrow> nat option list \<times> 's" where
  "select_run sel 0 s = ([], s)"
| "select_run sel (Suc n) s = (case sel s of (r, s) \<Rightarrow> case select_run sel n s of (rs, s) \<Rightarrow> (r # rs, s))"

lemma select_run_add:
  "select_run sel (m + n) s =
     (case select_run sel m s of (rs, s) \<Rightarrow> case select_run sel n s of (rs', s) \<Rightarrow> (rs @ rs', s))"
  by (induction m arbitrary: s) (auto split: prod.splits)

context load_balancer
begin

lemma select_cases:
  assumes "inv ups s"
  obtains i where "fst (select ups s) = Some i" "i < length ups" "up_healthy (ups ! i)"
  | "fst (select ups s) = None" "\<forall>u\<in>set ups. \<not> up_healthy u"
  using select_healthy [OF assms] select_some [OF assms] by (cases "fst (select ups s)") auto

lemma run_healthy:
  assumes "inv ups s" "u \<in> set ups" "up_healthy u" "r \<in> set (fst (select_run (select ups) n s))"
  shows "\<exists>i. r = Some i \<and> i < length ups \<and> up_healthy (ups ! i)"
  using assms
proof (induction n arbitrary: s)
  case (Suc n)
  obtain r1 s1 where 1: "select ups s = (r1, s1)" by fastforce
  have "inv ups s1" using inv_select [OF Suc.prems(1)] 1 by simp
  moreover have "\<exists>i. r1 = Some i \<and> i < length ups \<and> up_healthy (ups ! i)"
    using select_cases [OF Suc.prems(1)] Suc.prems(2,3) 1 by (metis fst_conv)
  ultimately show ?case using Suc 1 by (auto split: prod.splits)
qed simp

end

section \<open>Round robin\<close>

lemma rr_loop_Some:
  "rr_loop ups cur i = Some idx \<Longrightarrow> idx < length ups \<and> up_healthy (ups ! idx)"
  by (induction ups cur i rule: rr_loop.induct)
    (subst (asm) (2) rr_loop.simps, auto simp: Let_def split: if_splits intro: mod_less_divisor)

lemma rr_loop_None:
  "rr_loop ups cur i = None \<longleftrightarrow> (\<forall>j. i \<le> j \<and> j < length ups \<longrightarrow> \<not> up_healthy (ups ! ((cur + j) mod length ups)))"
proof (induction ups cur i rule: rr_loop.induct)
  case (1 ups cur i)
  have split: "i \<le> j \<longleftrightarrow> j = i \<or> i + 1 \<le> j" for j by auto
  show ?case using 1 by (subst rr_loop.simps, subst split) (auto simp: Let_def)
qed

lemma mod_onto:
  assumes "k < (n :: nat)"
  shows "\<exists>j<n. (cur + j) mod n = k"
proof -
  have "(cur + (n - cur mod n + k) mod n) mod n = (cur mod n + (n - cur mod n) + k) mod n"
    by (metis add.assoc mod_add_left_eq mod_add_right_eq)
  also have "\<dots> = (n + k) mod n" using assms mod_less_divisor [of n cur] by (simp add: less_imp_le)
  finally show ?thesis using assms by (intro exI [of _ "(n - cur mod n + k) mod n"]) auto
qed

lemma rr_loop_healthy: "u \<in> set ups \<Longrightarrow> up_healthy u \<Longrightarrow> rr_loop ups cur 0 \<noteq> None"
  by (metis in_set_conv_nth le0 mod_onto rr_loop_None)

interpretation round_robin: load_balancer RoundRobinLB_select "\<lambda>_ _. True"
proof unfold_locales
  fix ups idx i
  assume "fst (RoundRobinLB_select ups idx) = Some i"
  then show "i < length ups \<and> up_healthy (ups ! i)"
    by (auto simp: RoundRobinLB_select_def dest: rr_loop_Some split: if_splits option.splits)
next
  fix ups :: "Upstream list" and idx u
  assume "u \<in> set ups" "up_healthy u"
  then show "fst (RoundRobinLB_select ups idx) \<noteq> None"
    using rr_loop_healthy [of u ups idx] by (auto simp: RoundRobinLB_select_def split: option.splits)
qed simp

text \<open>\<open>UpstreamManager::next\<close> is the same policy with the position kept in the manager.\<close>

lemma next_round_robin:
  "fst (UpstreamManager_next m) = fst (RoundRobinLB_select (um_upstreams m) (um_current m))"
  by (auto simp: UpstreamManager_next_def RoundRobinLB_select_def rr_loop.simps split: option.splits)

text \<open>With all servers healthy the picks go around the vector.\<close>

lemma rr_all_healthy:
  assumes "ups \<noteq> []" "\<forall>u\<in>set ups. up_healthy u" "idx < length ups"
  shows "RoundRobinLB_select ups idx = (Some idx, (idx + 1) mod length ups)"
  using assms by (simp add: RoundRobinLB_select_def rr_loop.simps Let_def)

section \<open>Least connections\<close>

lemma least_loop_spec:
  "least_loop us i best m = best \<and> (\<forall>u\<in>set us. up_healthy u \<longrightarrow> m \<le> up_active u) \<or>
   (\<exists>k<length us. least_loop us i best m = Some (i + k) \<and> up_healthy (us ! k) \<and> up_active (us ! k) < m \<and>
      (\<forall>u\<in>set us. up_healthy u \<longrightarrow> up_active (us ! k) \<le> up_active u))"
proof (induction us arbitrary: i best m)
  case (Cons u us)
  show ?case
  proof (cases "up_healthy u \<and> up_active u < m")
    case True
    from Cons [of "i + 1" "Some i" "up_active u"] show ?thesis
    proof (elim disjE exE conjE)
      assume "least_loop us (i + 1) (Some i) (up_active u) = Some i" "\<forall>v\<in>set us. up_healthy v \<longrightarrow> up_active u \<le> up_active v"
      then show ?thesis using True by (intro disjI2 exI [of _ 0]) auto
    next
      fix k
      assume "k < length us" "least_loop us (i + 1) (Some i) (up_active u) = Some (i + 1 + k)" "up_healthy (us ! k)"
        "up_active (us ! k) < up_active u" "\<forall>v\<in>set us. up_healthy v \<longrightarrow> up_active (us ! k) \<le> up_active v"
      then show ?thesis using True by (intro disjI2 exI [of _ "Suc k"]) auto
    qed
  next
    case False
    from Cons [of "i + 1" best m] show ?thesis
    proof (elim disjE exE conjE)
      assume "least_loop us (i + 1) best m = best" "\<forall>v\<in>set us. up_healthy v \<longrightarrow> m \<le> up_active v"
      then show ?thesis using False by (intro disjI1) auto
    next
      fix k
      assume "k < length us" "least_loop us (i + 1) best m = Some (i + 1 + k)" "up_healthy (us ! k)"
        "up_active (us ! k) < m" "\<forall>v\<in>set us. up_healthy v \<longrightarrow> up_active (us ! k) \<le> up_active v"
      then show ?thesis using False by (intro disjI2 exI [of _ "Suc k"]) auto
    qed
  qed
qed simp

lemma least_conn_minimal:
  assumes "LeastConnLB_select ups = Some i"
  shows "i < length ups \<and> up_healthy (ups ! i) \<and> (\<forall>u\<in>set ups. up_healthy u \<longrightarrow> up_active (ups ! i) \<le> up_active u)"
  using least_loop_spec [of ups 0 None "2 ^ 31 - 1"] assms by (auto simp: LeastConnLB_select_def split: if_splits)

interpretation least_conn: load_balancer "\<lambda>ups s. (LeastConnLB_select ups, s)"
  "\<lambda>ups _. \<forall>u\<in>set ups. up_active u < 2 ^ 31 - 1"
proof unfold_locales
  fix ups :: "Upstream list" and u
  assume "\<forall>u\<in>set ups. up_active u < 2 ^ 31 - 1" "u \<in> set ups" "up_healthy u"
  then show "fst (LeastConnLB_select ups, s) \<noteq> None" for s
    using least_loop_spec [of ups 0 None "2 ^ 31 - 1"] by (fastforce simp: LeastConnLB_select_def)
qed (use least_conn_minimal in auto)

section \<open>Smooth weighted round robin\<close>

text \<open>The weight a server takes part with, and the sum of all.\<close>

definition eff_weight :: "Upstream \<Rightarrow> int" where
  "eff_weight u = (if up_healthy u then up_weight u else 0)"

definition total_weight :: "Upstream list \<Rightarrow> int" where
  "total_weight ups = (\<Sum>i<length ups. eff_weight (ups ! i))"

lemma swrr_loop_length: "length (fst (swrr_loop us i cw t b w)) = length cw"
  by (induction us i cw t b w rule: swrr_loop.induct) (simp_all add: Let_def)

lemma swrr_loop_weights:
  assumes "i + length us \<le> length cw" "j < length cw"
  shows "fst (swrr_loop us i cw t b w) ! j =
    cw ! j + (if i \<le> j \<and> j < i + length us then eff_weight (us ! (j - i)) else 0)"
  using assms
proof (induction us arbitrary: i cw t b w)
  case (Cons u us)
  let ?r = "\<lambda>i us. if i \<le> j \<and> j < i + length us then eff_weight (us ! (j - i)) else 0"
  let ?cw = "cw[i := cw ! i + up_weight u]"
  have split: "?r i (u # us) = (if j = i then eff_weight u else 0) + ?r (i + 1) us"
    by (auto simp: nth_Cons')
  have "fst (swrr_loop us (i + 1) cw t b w) ! j = cw ! j + ?r (i + 1) us"
    "\<And>t b w. fst (swrr_loop us (i + 1) ?cw t b w) ! j = ?cw ! j + ?r (i + 1) us"
    using Cons.IH [of "i + 1"] Cons.prems by auto
  then show ?case unfolding split using Cons.prems
    by (cases "up_healthy u"; cases "w < ?cw ! i") (simp_all add: Let_def eff_weight_def nth_list_update)
qed simp

lemma swrr_loop_total: "fst (snd (swrr_loop us i cw t b w)) = t + sum_list (map eff_weight us)"
  by (induction us i cw t b w rule: swrr_loop.induct) (simp_all add: Let_def eff_weight_def)

lemma total_weight_list: "total_weight ups = sum_list (map eff_weight ups)"
  by (simp add: total_weight_def sum_list_sum_nth atLeast0LessThan)

text \<open>The best index: the loop keeps what it had, or finds a healthy server with a larger weight.\<close>

definition best_among :: "Upstream list \<Rightarrow> nat \<Rightarrow> int list \<Rightarrow> nat option \<Rightarrow> int \<Rightarrow> nat option \<Rightarrow> bool" where
  "best_among us i F b w r \<longleftrightarrow>
     r = b \<and> (\<forall>k<length us. up_healthy (us ! k) \<longrightarrow> F ! (i + k) \<le> w) \<or>
     (\<exists>j<length us. r = Some (i + j) \<and> up_healthy (us ! j) \<and> w < F ! (i + j) \<and>
        (\<forall>k<length us. up_healthy (us ! k) \<longrightarrow> F ! (i + k) \<le> F ! (i + j)))"

lemma best_among_skip:
  assumes "best_among us (i + 1) F b w r" "up_healthy u \<Longrightarrow> F ! i \<le> w"
  shows "best_among (u # us) i F b w r"
proof -
  consider (old) "r = b" "\<forall>k<length us. up_healthy (us ! k) \<longrightarrow> F ! (i + 1 + k) \<le> w"
    | (new) j where "j < length us" "r = Some (i + 1 + j)" "up_healthy (us ! j)" "w < F ! (i + 1 + j)"
      "\<forall>k<length us. up_healthy (us ! k) \<longrightarrow> F ! (i + 1 + k) \<le> F ! (i + 1 + j)"
    using assms(1) unfolding best_among_def by blast
  then show ?thesis
  proof cases
    case old
    then show ?thesis using assms(2) unfolding best_among_def by (intro disjI1) (auto simp: less_Suc_eq_0_disj)
  next
    case (new j)
    then show ?thesis using assms(2) unfolding best_among_def
      by (intro disjI2 exI [of _ "Suc j"]) (auto simp: less_Suc_eq_0_disj)
  qed
qed

lemma best_among_take:
  assumes "best_among us (i + 1) F (Some i) (F ! i) r" "up_healthy u" "w < F ! i"
  shows "best_among (u # us) i F b w r"
proof -
  consider (old) "r = Some i" "\<forall>k<length us. up_healthy (us ! k) \<longrightarrow> F ! (i + 1 + k) \<le> F ! i"
    | (new) j where "j < length us" "r = Some (i + 1 + j)" "up_healthy (us ! j)" "F ! i < F ! (i + 1 + j)"
      "\<forall>k<length us. up_healthy (us ! k) \<longrightarrow> F ! (i + 1 + k) \<le> F ! (i + 1 + j)"
    using assms(1) unfolding best_among_def by blast
  then show ?thesis
  proof cases
    case old
    then show ?thesis using assms(2,3) unfolding best_among_def
      by (intro disjI2 exI [of _ 0]) (auto simp: less_Suc_eq_0_disj)
  next
    case (new j)
    then show ?thesis using assms(2,3) unfolding best_among_def
      by (intro disjI2 exI [of _ "Suc j"]) (auto simp: less_Suc_eq_0_disj)
  qed
qed

lemma swrr_loop_best:
  assumes "i + length us \<le> length cw"
  shows "best_among us i (fst (swrr_loop us i cw t b w)) b w (snd (snd (swrr_loop us i cw t b w)))"
  using assms
proof (induction us arbitrary: i cw t b w)
  case (Cons u us)
  let ?cw = "cw[i := cw ! i + up_weight u]"
  have keep: "fst (swrr_loop us (i + 1) ?cw t' b' w') ! i = ?cw ! i" for t' b' w'
    using swrr_loop_weights [of "i + 1" us ?cw i] Cons.prems by simp
  consider (sick) "\<not> up_healthy u" | (better) "up_healthy u" "w < ?cw ! i" | (worse) "up_healthy u" "\<not> w < ?cw ! i" by blast
  then show ?case
  proof cases
    case sick
    then show ?thesis using best_among_skip [OF Cons.IH [of "i + 1" cw t b w], of u] Cons.prems by simp
  next
    case better
    let ?r = "swrr_loop us (i + 1) ?cw (t + up_weight u) (Some i) (?cw ! i)"
    have "best_among us (i + 1) (fst ?r) (Some i) (fst ?r ! i) (snd (snd ?r))"
      using Cons.IH [of "i + 1" ?cw] Cons.prems keep by simp
    then have "best_among (u # us) i (fst ?r) b w (snd (snd ?r))"
      by (rule best_among_take) (use better keep in auto)
    then show ?thesis using better by (simp add: Let_def)
  next
    case worse
    let ?r = "swrr_loop us (i + 1) ?cw (t + up_weight u) b w"
    have "best_among us (i + 1) (fst ?r) b w (snd (snd ?r))"
      using Cons.IH [of "i + 1" ?cw] Cons.prems by simp
    then have "best_among (u # us) i (fst ?r) b w (snd (snd ?r))"
      by (rule best_among_skip) (use worse keep in auto)
    then show ?thesis using worse by (simp add: Let_def)
  qed
qed (simp add: best_among_def)

text \<open>One call of \<open>select\<close>: the weights it adds, the server it picks and what it subtracts.\<close>

lemma swrr_select_cases:
  assumes "length cw = length ups" "WeightedRoundRobinLB_select ups cw = (r, cw')"
  shows "length cw' = length ups"
    and "r = None \<Longrightarrow> i < length ups \<Longrightarrow> up_healthy (ups ! i) \<Longrightarrow> cw ! i + up_weight (ups ! i) < 0"
    and "r = Some b \<Longrightarrow> b < length ups \<and> up_healthy (ups ! b) \<and> 0 \<le> cw ! b + up_weight (ups ! b)"
    and "r = Some b \<Longrightarrow> i < length ups \<Longrightarrow> up_healthy (ups ! i) \<Longrightarrow> cw ! i + up_weight (ups ! i) \<le> cw ! b + up_weight (ups ! b)"
    and "i < length ups \<Longrightarrow> cw' ! i = cw ! i + eff_weight (ups ! i) - (if r = Some i then total_weight ups else 0)"
proof -
  obtain F t b where F: "swrr_loop ups 0 cw 0 None (- 1) = (F, t, b)" by (metis prod_cases3)
  have w: "F ! j = cw ! j + eff_weight (ups ! j)" if "j < length ups" for j
    using swrr_loop_weights [of 0 ups cw j 0 None "- 1"] F that assms(1) by simp
  have t: "t = total_weight ups" using swrr_loop_total [of ups 0 cw 0 None "- 1"] F by (simp add: total_weight_list)
  have l: "length F = length ups" using swrr_loop_length [of ups 0 cw 0 None "- 1"] F assms(1) by simp
  have best: "best_among ups 0 F None (- 1) b" using swrr_loop_best [of 0 ups cw 0 None "- 1"] F assms(1) by simp
  have sel: "ups \<noteq> [] \<Longrightarrow> r = b \<and> cw' = (case b of None \<Rightarrow> F | Some b \<Rightarrow> F[b := F ! b - t])"
    "ups = [] \<Longrightarrow> r = None \<and> cw' = cw"
    using assms F by (auto simp: WeightedRoundRobinLB_select_def split: option.splits)
  show "length cw' = length ups" using sel l assms(1) by (cases "ups = []"; cases b) auto
  show "cw ! i + up_weight (ups ! i) < 0" if "r = None" "i < length ups" "up_healthy (ups ! i)"
    using best sel that w [of i] by (cases "ups = []") (auto simp: best_among_def eff_weight_def)
  show "b < length ups \<and> up_healthy (ups ! b) \<and> 0 \<le> cw ! b + up_weight (ups ! b)" if "r = Some b" for b
    using best sel that w [of b] by (cases "ups = []") (auto simp: best_among_def eff_weight_def)
  show "cw ! i + up_weight (ups ! i) \<le> cw ! b + up_weight (ups ! b)"
    if "r = Some b" "i < length ups" "up_healthy (ups ! i)" for b
    using best sel that w [of b] w [of i] by (cases "ups = []") (auto simp: best_among_def eff_weight_def)
  show "cw' ! i = cw ! i + eff_weight (ups ! i) - (if r = Some i then total_weight ups else 0)" if "i < length ups"
    using sel(1) that w [OF that] t l by (cases "ups = []"; cases b) (auto simp: nth_list_update)
qed

text \<open>
  The states of a balancer whose servers keep their health: the weights sum up to 0, a server
  that is down has weight 0, and no weight falls to the negated total.
\<close>

definition swrr_inv :: "Upstream list \<Rightarrow> int list \<Rightarrow> bool" where
  "swrr_inv ups cw \<longleftrightarrow>
     length cw = length ups \<and> (\<Sum>i<length ups. cw ! i) = 0 \<and>
     (\<forall>i<length ups. \<not> up_healthy (ups ! i) \<longrightarrow> cw ! i = 0) \<and>
     (\<forall>i<length ups. - total_weight ups < cw ! i)"

definition weights_ok :: "Upstream list \<Rightarrow> bool" where
  "weights_ok ups \<longleftrightarrow> (\<forall>u\<in>set ups. up_healthy u \<longrightarrow> 0 \<le> up_weight u) \<and> 0 < total_weight ups"

lemma eff_weight_nonneg: "weights_ok ups \<Longrightarrow> i < length ups \<Longrightarrow> 0 \<le> eff_weight (ups ! i)"
  by (simp add: weights_ok_def eff_weight_def)

lemma weights_ok_healthy:
  assumes "weights_ok ups"
  shows "\<exists>u\<in>set ups. up_healthy u"
proof (rule ccontr)
  assume "\<not> (\<exists>u\<in>set ups. up_healthy u)"
  then have "total_weight ups = 0" by (simp add: total_weight_def eff_weight_def)
  then show False using assms by (simp add: weights_ok_def)
qed

lemma swrr_inv_new: "weights_ok ups \<Longrightarrow> swrr_inv ups (WeightedRoundRobinLB_new ups)"
  by (simp add: swrr_inv_def WeightedRoundRobinLB_new_def weights_ok_def)

lemma swrr_select_inv:
  assumes "swrr_inv ups cw" "weights_ok ups" "WeightedRoundRobinLB_select ups cw = (r, cw')"
  shows "swrr_inv ups cw' \<and> (\<exists>b<length ups. r = Some b \<and> up_healthy (ups ! b))"
proof -
  let ?n = "length ups" and ?W = "total_weight ups"
  have l: "length cw = ?n" using assms(1) by (simp add: swrr_inv_def)
  note sel = swrr_select_cases [OF l assms(3)]
  have sumW: "(\<Sum>i<?n. cw ! i + eff_weight (ups ! i)) = ?W"
    using assms(1) by (simp add: swrr_inv_def sum.distrib total_weight_def)
  obtain k where k: "k < ?n" "0 < cw ! k + eff_weight (ups ! k)"
  proof (rule ccontr)
    assume "\<not> thesis"
    then have "\<forall>i<?n. cw ! i + eff_weight (ups ! i) \<le> 0" using that by (meson not_le)
    then have "(\<Sum>i<?n. cw ! i + eff_weight (ups ! i)) \<le> 0" by (intro sum_nonpos) auto
    then show False using sumW assms(2) by (simp add: weights_ok_def)
  qed
  then have hk: "up_healthy (ups ! k)" using assms(1) by (auto simp: swrr_inv_def eff_weight_def split: if_splits)
  with sel(2) [of k] k obtain b where b: "r = Some b" by (cases r) (auto simp: eff_weight_def)
  have hb: "b < ?n" "up_healthy (ups ! b)" using sel(3) [OF b] by auto
  have pos: "0 < cw ! b + eff_weight (ups ! b)"
    using sel(4) [OF b k(1) hk] k(2) hk hb by (simp add: eff_weight_def)
  have "(\<Sum>i<?n. cw' ! i) = (\<Sum>i<?n. cw ! i + eff_weight (ups ! i) - (if i = b then ?W else 0))"
    using sel(5) b by (intro sum.cong) auto
  also have "\<dots> = 0" using sumW hb(1) by (simp add: sum_subtractf sum.delta)
  finally have "(\<Sum>i<?n. cw' ! i) = 0" .
  moreover have "- ?W < cw' ! i" if "i < ?n" for i
    using assms(1) that sel(5) [OF that] pos b eff_weight_nonneg [OF assms(2) that]
    by (auto simp: swrr_inv_def split: if_splits)
  moreover have "cw' ! i = 0" if "i < ?n" "\<not> up_healthy (ups ! i)" for i
    using assms(1) that sel(5) [OF that(1)] b hb(2) by (auto simp: swrr_inv_def eff_weight_def)
  ultimately show ?thesis using sel(1) b hb by (simp add: swrr_inv_def)
qed

interpretation weighted: load_balancer WeightedRoundRobinLB_select "\<lambda>ups cw. weights_ok ups \<and> swrr_inv ups cw"
proof unfold_locales
  fix ups cw
  assume a: "weights_ok ups \<and> swrr_inv ups cw"
  obtain r cw' where s: "WeightedRoundRobinLB_select ups cw = (r, cw')" by fastforce
  note i = swrr_select_inv [OF _ _ s] a
  show "weights_ok ups \<and> swrr_inv ups (snd (WeightedRoundRobinLB_select ups cw))" using i s by simp
  show "i < length ups \<and> up_healthy (ups ! i)" if "fst (WeightedRoundRobinLB_select ups cw) = Some i" for i
    using i s that by auto
  show "fst (WeightedRoundRobinLB_select ups cw) \<noteq> None" for u using i s by auto
qed

text \<open>After \<open>n\<close> calls a server has gained \<open>n\<close> times its weight and paid the total for each pick.\<close>

lemma swrr_run:
  assumes "swrr_inv ups cw" "weights_ok ups" "select_run (WeightedRoundRobinLB_select ups) n cw = (rs, cw')"
  shows "swrr_inv ups cw' \<and> length rs = n \<and> set rs \<subseteq> Some ` {..<length ups} \<and>
    (\<forall>i<length ups. cw' ! i = cw ! i + int n * eff_weight (ups ! i) - total_weight ups * int (count_list rs (Some i)))"
  using assms(1,3)
proof (induction n arbitrary: cw rs)
  case (Suc n)
  obtain r cw1 where s: "WeightedRoundRobinLB_select ups cw = (r, cw1)" by fastforce
  obtain rs' where rs: "select_run (WeightedRoundRobinLB_select ups) n cw1 = (rs', cw')" "rs = r # rs'"
    using Suc.prems(2) s by (auto split: prod.splits)
  note i = swrr_select_inv [OF Suc.prems(1) assms(2) s]
  have l: "length cw = length ups" using Suc.prems(1) by (simp add: swrr_inv_def)
  from Suc.IH [OF _ rs(1)] i swrr_select_cases(5) [OF l s] rs(2) show ?case
    by (auto simp: algebra_simps)
qed simp

theorem swrr_round:
  assumes "weights_ok ups" "select_run (WeightedRoundRobinLB_select ups) (nat (total_weight ups)) (WeightedRoundRobinLB_new ups) = (rs, cw)"
  shows "cw = WeightedRoundRobinLB_new ups \<and> (\<forall>i<length ups. int (count_list rs (Some i)) = eff_weight (ups ! i))"
proof -
  let ?n = "length ups" and ?W = "total_weight ups" and ?c = "\<lambda>i. int (count_list rs (Some i))"
  have W: "0 < ?W" using assms(1) by (simp add: weights_ok_def)
  note r = swrr_run [OF swrr_inv_new [OF assms(1)] assms]
  have eq: "cw ! i = ?W * (eff_weight (ups ! i) - ?c i)" if "i < ?n" for i
    using r W that by (simp add: WeightedRoundRobinLB_new_def algebra_simps)
  have le: "?c i \<le> eff_weight (ups ! i)" if "i < ?n" for i
  proof -
    have "- ?W < cw ! i" using conjunct1 [OF r] that unfolding swrr_inv_def by blast
    then have "?W * (- 1) < ?W * (eff_weight (ups ! i) - ?c i)" using eq [OF that] by simp
    then have "- 1 < eff_weight (ups ! i) - ?c i" using W by (simp only: mult_less_cancel_left_pos)
    then show ?thesis by simp
  qed
  have "length rs = (\<Sum>x\<in>Some ` {..<?n}. count_list rs x)"
    using r sum_count_set [of rs "Some ` {..<?n}"] by auto
  also have "\<dots> = (\<Sum>i<?n. count_list rs (Some i))" by (simp add: sum.reindex)
  finally have "(\<Sum>i<?n. ?c i) = ?W" using r W by (simp flip: of_nat_sum)
  then have "(\<Sum>i<?n. eff_weight (ups ! i) - ?c i) = 0" by (simp add: sum_subtractf total_weight_def)
  then have z: "eff_weight (ups ! i) - ?c i = 0" if "i < ?n" for i
    using sum_nonneg_eq_0_iff [of "{..<?n}" "\<lambda>i. eff_weight (ups ! i) - ?c i"] le that by auto
  then have "cw ! i = 0" if "i < ?n" for i using eq that by simp
  then show ?thesis using z r by (auto simp: WeightedRoundRobinLB_new_def swrr_inv_def intro: nth_equalityI)
qed

text \<open>The balancer is back in its first state after a round, so the rounds repeat.\<close>

lemma swrr_rounds:
  assumes "weights_ok ups"
  shows "\<exists>rs. select_run (WeightedRoundRobinLB_select ups) (k * nat (total_weight ups)) (WeightedRoundRobinLB_new ups) =
      (rs, WeightedRoundRobinLB_new ups) \<and> (\<forall>i<length ups. int (count_list rs (Some i)) = int k * eff_weight (ups ! i))"
proof (induction k)
  case (Suc k)
  then obtain rs where rs: "select_run (WeightedRoundRobinLB_select ups) (k * nat (total_weight ups)) (WeightedRoundRobinLB_new ups) =
      (rs, WeightedRoundRobinLB_new ups)" "\<forall>i<length ups. int (count_list rs (Some i)) = int k * eff_weight (ups ! i)" by blast
  obtain rs' cw where r: "select_run (WeightedRoundRobinLB_select ups) (nat (total_weight ups)) (WeightedRoundRobinLB_new ups) = (rs', cw)" by fastforce
  note one = swrr_round [OF assms r]
  show ?case using rs r one select_run_add [of "WeightedRoundRobinLB_select ups" "nat (total_weight ups)" "k * nat (total_weight ups)"]
    by (intro exI [of _ "rs' @ rs"]) (auto simp: algebra_simps)
qed simp

text \<open>
  The guarantee needs servers that keep their health. When a server goes down while another
  one has just been picked, the remaining weight can be so negative that \<open>bestWeight = -1\<close>
  shuts the only healthy server out, and \<open>select\<close> returns a null pointer.
\<close>

definition demo_upstream :: "int \<Rightarrow> int \<Rightarrow> bool \<Rightarrow> Upstream" where
  "demo_upstream port weight up =
     \<lparr>up_host = str ''127.0.0.1'', up_port = port, up_weight = weight, up_active = 0, up_healthy = up\<rparr>"

lemma swrr_starves:
  "let both = [demo_upstream 8001 1 True, demo_upstream 8002 5 True];
       one = [demo_upstream 8001 1 True, demo_upstream 8002 5 False]
   in WeightedRoundRobinLB_select one (snd (select_run (WeightedRoundRobinLB_select both) 3 (WeightedRoundRobinLB_new both))) =
      (None, [- 2, 3])"
  by (simp add: WeightedRoundRobinLB_select_def WeightedRoundRobinLB_new_def demo_upstream_def numeral_3_eq_3)

section \<open>A round of health checks\<close>

definition address :: "Upstream \<Rightarrow> bytes \<times> int" where
  "address u = (up_host u, up_port u)"

lemma health_rounds:
  assumes "distinct (map address (um_upstreams m))" "k \<le> length (um_upstreams m)"
  shows "fold (\<lambda>i m. let u = um_upstreams m ! i
                 in if probe i then UpstreamManager_markUp (up_host u) (up_port u) m
                    else UpstreamManager_markDown (up_host u) (up_port u) m) [0..<k] m =
    m\<lparr>um_upstreams := map (\<lambda>i. if i < k then (um_upstreams m ! i)\<lparr>up_healthy := probe i\<rparr> else um_upstreams m ! i)
        [0..<length (um_upstreams m)]\<rparr>"
  using assms(2)
proof (induction k)
  case 0
  then show ?case by (simp add: map_nth)
next
  case (Suc k)
  let ?ups = "um_upstreams m"
  have "(up_host (?ups ! i) = up_host (?ups ! k) \<and> up_port (?ups ! i) = up_port (?ups ! k)) \<longleftrightarrow> i = k" if "i < length ?ups" for i
    using assms(1) Suc.prems that nth_eq_iff_index_eq [OF assms(1), of i k] by (auto simp: address_def)
  then show ?case using Suc
    by (auto simp: Let_def UpstreamManager_markUp_def UpstreamManager_markDown_def set_health_def less_Suc_eq)
qed

lemma HealthCheck_round_probes:
  assumes "distinct (map address (um_upstreams m))"
  shows "um_upstreams (HealthCheck_round probe m) =
    map (\<lambda>i. (um_upstreams m ! i)\<lparr>up_healthy := probe i\<rparr>) [0..<length (um_upstreams m)]"
  using health_rounds [OF assms order_refl, of probe] by (simp add: HealthCheck_round_def)

text \<open>A chain of middleware answers with the first error, or with 200.\<close>

lemma MiddlewareChain_first_error:
  "MiddlewareChain_process mws req =
     (case find (\<lambda>mw. 400 \<le> rs_status_code (mw req)) mws of None \<Rightarrow> HttpResponse_new | Some mw \<Rightarrow> mw req)"
  by (induction mws) (auto simp: Let_def HttpResponse_new_def)

end
