(* ===== verification/Connection_Pool.thy ===== *)
theory Connection_Pool
  imports Net_Io Upstreams
begin

text \<open>
  The pool of idle connections to the upstreams, \<open>connection_pool.cpp\<close>. A \<open>unique_ptr<Socket>\<close>
  is the descriptor it owns; \<open>cp_open\<close> is the set of open descriptors of the process, so that
  closing a socket shows. The invariant: the pools hold different open descriptors, and none
  of them holds more than \<open>max_idle\<close>.
\<close>

record ConnectionPool =
  cp_pools :: "(bytes \<times> nat list) list"
  cp_max_idle :: nat
  cp_open :: "nat list"

definition ConnectionPool_new :: "nat \<Rightarrow> nat list \<Rightarrow> ConnectionPool" where
  "ConnectionPool_new max_idle fds = \<lparr>cp_pools = [], cp_max_idle = max_idle, cp_open = fds\<rparr>"

definition pool_key :: "Upstream \<Rightarrow> bytes" where
  "pool_key up = up_host up @ str '':'' @ int_to_string (up_port up)"

definition idle_of :: "bytes \<Rightarrow> ConnectionPool \<Rightarrow> nat list" where
  "idle_of key p = (case map_of (cp_pools p) key of None \<Rightarrow> [] | Some q \<Rightarrow> q)"

text \<open>\<open>acquire\<close> takes the oldest idle socket or connects, with the answers of the system calls as an argument.\<close>

definition ConnectionPool_acquire :: "connect_answers \<Rightarrow> Upstream \<Rightarrow> ConnectionPool \<Rightarrow> nat option \<times> ConnectionPool" where
  "ConnectionPool_acquire a up p =
     (let key = pool_key up
      in case idle_of key p of
           fd # q \<Rightarrow> (Some fd, p\<lparr>cp_pools := AList.update key q (cp_pools p)\<rparr>)
         | [] \<Rightarrow>
             (case ca_socket a of
                None \<Rightarrow> (None, p)
              | Some fd \<Rightarrow>
                  if \<not> ca_pton a then (None, p)
                  else if \<not> connectWithTimeout a then (None, p)
                  else (Some fd, p\<lparr>cp_open := fd # cp_open p\<rparr>)))"

text \<open>\<open>release\<close> keeps the socket or, when the pool is full, lets the \<open>unique_ptr\<close> close it.\<close>

definition ConnectionPool_release :: "nat \<Rightarrow> Upstream \<Rightarrow> ConnectionPool \<Rightarrow> ConnectionPool" where
  "ConnectionPool_release fd up p =
     (let key = pool_key up; q = idle_of key p
      in if length q < cp_max_idle p
         then p\<lparr>cp_pools := AList.update key (q @ [fd]) (cp_pools p)\<rparr>
         else p\<lparr>cp_pools := AList.update key q (cp_pools p), cp_open := removeAll fd (cp_open p)\<rparr>)"

definition idle_pool_inv :: "ConnectionPool \<Rightarrow> bool" where
  "idle_pool_inv p \<longleftrightarrow>
     (\<forall>k. length (idle_of k p) \<le> cp_max_idle p \<and> distinct (idle_of k p) \<and> set (idle_of k p) \<subseteq> set (cp_open p)) \<and>
     (\<forall>k k'. k \<noteq> k' \<longrightarrow> set (idle_of k p) \<inter> set (idle_of k' p) = {}) \<and> distinct (cp_open p)"

text \<open>A descriptor that somebody holds: open and in no pool.\<close>

definition held :: "nat \<Rightarrow> ConnectionPool \<Rightarrow> bool" where
  "held fd p \<longleftrightarrow> fd \<in> set (cp_open p) \<and> (\<forall>k. fd \<notin> set (idle_of k p))"

lemma idle_of_update:
  "idle_of k (p\<lparr>cp_pools := AList.update key q (cp_pools p)\<rparr>) = (if k = key then q else idle_of k p)"
  by (simp add: idle_of_def update_conv')

lemma idle_of_open [simp]: "idle_of k (p\<lparr>cp_open := fds\<rparr>) = idle_of k p"
  by (simp add: idle_of_def)

lemma acquire_inv:
  assumes "idle_pool_inv p" "ConnectionPool_acquire a up p = (r, p')" "\<And>fd. ca_socket a = Some fd \<Longrightarrow> fd \<notin> set (cp_open p)"
  shows "idle_pool_inv p'" and "r = Some fd \<Longrightarrow> held fd p' \<and> \<not> held fd p"
    and "held h p \<Longrightarrow> held h p' \<and> r \<noteq> Some h"
proof -
  note i = assms(1) [unfolded idle_pool_inv_def]
  have "idle_pool_inv p' \<and> (r = Some fd \<longrightarrow> held fd p' \<and> \<not> held fd p) \<and> (held h p \<longrightarrow> held h p' \<and> r \<noteq> Some h)" for fd h
  proof (cases "idle_of (pool_key up) p")
    case Nil
    then consider "p' = p" "r = None"
      | fd' where "ca_socket a = Some fd'" "r = Some fd'" "p' = p\<lparr>cp_open := fd' # cp_open p\<rparr>"
      using assms(2) by (auto simp: ConnectionPool_acquire_def Let_def split: option.splits if_splits)
    then show ?thesis
    proof cases
      case 2
      have "fd' \<notin> set (idle_of k p)" for k using i assms(3) [OF 2(1)] by blast
      then show ?thesis using 2 i assms(3) [OF 2(1)] by (auto simp: idle_pool_inv_def held_def subset_insertI2)
    qed (use assms(1) in auto)
  next
    case (Cons fd' q)
    then have p': "r = Some fd'" "p' = p\<lparr>cp_pools := AList.update (pool_key up) q (cp_pools p)\<rparr>"
      using assms(2) by (auto simp: ConnectionPool_acquire_def Let_def)
    have c: "length (fd' # q) \<le> cp_max_idle p" "distinct (fd' # q)" "set (fd' # q) \<subseteq> set (cp_open p)"
      "\<And>k. k \<noteq> pool_key up \<Longrightarrow> set (idle_of k p) \<inter> set (fd' # q) = {}"
      using i Cons by metis+
    have upd: "idle_of k p' = (if k = pool_key up then q else idle_of k p)" for k by (simp add: p'(2) idle_of_update)
    have f: "cp_open p' = cp_open p" "cp_max_idle p' = cp_max_idle p" by (simp_all add: p'(2))
    have "\<not> held fd' p" "held h p \<Longrightarrow> h \<notin> set (fd' # q)" using Cons unfolding held_def by (metis list.set_intros(1), metis)
    moreover have "held fd' p'" using c f by (auto simp: held_def upd)
    moreover have "held h p \<Longrightarrow> held h p'" using calculation(2) f by (auto simp: held_def upd)
    moreover have "length (idle_of k p') \<le> cp_max_idle p' \<and> distinct (idle_of k p') \<and> set (idle_of k p') \<subseteq> set (cp_open p')" for k
      using i c(1-3) f by (simp add: upd)
    moreover have "set (idle_of k p') \<inter> set (idle_of k' p') = {}" if "k \<noteq> k'" for k k'
      using that i c(4) [of k] c(4) [of k'] by (auto simp: upd Int_commute)
    moreover have "distinct (cp_open p')" using i f by simp
    ultimately show ?thesis using p'(1) unfolding idle_pool_inv_def by blast
  qed
  then show "idle_pool_inv p'" and "r = Some fd \<Longrightarrow> held fd p' \<and> \<not> held fd p"
    and "held h p \<Longrightarrow> held h p' \<and> r \<noteq> Some h" by auto
qed

lemma release_inv:
  assumes "idle_pool_inv p" "held fd p"
  shows "idle_pool_inv (ConnectionPool_release fd up p)" and "\<not> held fd (ConnectionPool_release fd up p)"
    and "held h p \<Longrightarrow> h \<noteq> fd \<Longrightarrow> held h (ConnectionPool_release fd up p)"
proof -
  let ?q = "idle_of (pool_key up) p"
  note i = assms(1) [unfolded idle_pool_inv_def]
  have c: "length ?q \<le> cp_max_idle p" "distinct ?q" "set ?q \<subseteq> set (cp_open p)" "fd \<in> set (cp_open p)" "\<And>k. fd \<notin> set (idle_of k p)"
    using i assms(2) by (auto simp: held_def)
  have "idle_pool_inv (ConnectionPool_release fd up p) \<and> \<not> held fd (ConnectionPool_release fd up p) \<and>
      (held h p \<and> h \<noteq> fd \<longrightarrow> held h (ConnectionPool_release fd up p))" for h
  proof (cases "length ?q < cp_max_idle p")
    case True
    then show ?thesis using i c
      by (auto simp: idle_pool_inv_def held_def idle_of_update ConnectionPool_release_def Let_def)
  next
    case False
    have "idle_of k (p\<lparr>cp_pools := AList.update (pool_key up) ?q (cp_pools p), cp_open := removeAll fd (cp_open p)\<rparr>) = idle_of k p" for k
      by (simp add: idle_of_def update_conv')
    then show ?thesis using False i c
      by (auto simp: idle_pool_inv_def held_def ConnectionPool_release_def Let_def distinct_removeAll)
  qed
  then show "idle_pool_inv (ConnectionPool_release fd up p)" and "\<not> held fd (ConnectionPool_release fd up p)"
    and "held h p \<Longrightarrow> h \<noteq> fd \<Longrightarrow> held h (ConnectionPool_release fd up p)" by auto
qed

text \<open>A released connection is what the next \<open>acquire\<close> of an empty pool returns.\<close>

lemma release_then_acquire:
  assumes "idle_of (pool_key up) p = []" "0 < cp_max_idle p"
  shows "fst (ConnectionPool_acquire a up (ConnectionPool_release fd up p)) = Some fd"
  using assms by (simp add: ConnectionPool_acquire_def ConnectionPool_release_def Let_def idle_of_update)

end
