(* ===== verification/Io_Context.thy ===== *)
theory Io_Context
  imports Prelude
begin

text \<open>
  The epoll wrapper of the gateway's reactors, \<open>io_context.cpp\<close>. A watch is one-shot: \<open>poll\<close>
  takes the callback out of the table and the descriptor out of the epoll set before it
  calls the callback, which may register again. What a callback does is an argument: a new
  state of the program and the calls it makes on the context. The invariant says that the
  table and the epoll set have the same descriptors, so that no \<open>epoll_ctl\<close> of the code fails.
\<close>

record 'cb IOContext =
  io_interest :: "(int \<times> u32) list"
  io_callbacks :: "(int \<times> 'cb) list"

definition IOContext_new :: "'cb IOContext" where
  "IOContext_new = \<lparr>io_interest = [], io_callbacks = []\<rparr>"

text \<open>\<open>epoll_ctl\<close>: adding a descriptor that is there and changing one that is not there fail without effect.\<close>

definition ctl_add :: "int \<Rightarrow> u32 \<Rightarrow> (int \<times> u32) list \<Rightarrow> (int \<times> u32) list" where
  "ctl_add fd ev es = (if map_of es fd = None then AList.update fd ev es else es)"

definition ctl_mod :: "int \<Rightarrow> u32 \<Rightarrow> (int \<times> u32) list \<Rightarrow> (int \<times> u32) list" where
  "ctl_mod fd ev es = (if map_of es fd = None then es else AList.update fd ev es)"

definition edge_triggered :: "u32 \<Rightarrow> u32" where
  "edge_triggered events = events OR 2 ^ 31"

definition IOContext_watchOnce :: "int \<Rightarrow> u32 \<Rightarrow> 'cb \<Rightarrow> 'cb IOContext \<Rightarrow> 'cb IOContext" where
  "IOContext_watchOnce fd events cb io =
     (let ev = edge_triggered events
      in io\<lparr>io_interest := (if map_of (io_callbacks io) fd \<noteq> None then ctl_mod fd ev (io_interest io)
                             else ctl_add fd ev (io_interest io)),
            io_callbacks := AList.update fd cb (io_callbacks io)\<rparr>)"

definition IOContext_add :: "int \<Rightarrow> u32 \<Rightarrow> 'cb \<Rightarrow> 'cb IOContext \<Rightarrow> 'cb IOContext" where
  "IOContext_add fd events cb io = IOContext_watchOnce fd events cb io"

definition IOContext_modify :: "int \<Rightarrow> u32 \<Rightarrow> 'cb IOContext \<Rightarrow> 'cb IOContext" where
  "IOContext_modify fd events io = io\<lparr>io_interest := ctl_mod fd (edge_triggered events) (io_interest io)\<rparr>"

definition IOContext_remove :: "int \<Rightarrow> 'cb IOContext \<Rightarrow> 'cb IOContext" where
  "IOContext_remove fd io =
     io\<lparr>io_interest := AList.delete fd (io_interest io), io_callbacks := AList.delete fd (io_callbacks io)\<rparr>"

datatype 'cb IoCall = IoWatch int u32 'cb | IoModify int u32 | IoRemove int

fun io_call :: "'cb IoCall \<Rightarrow> 'cb IOContext \<Rightarrow> 'cb IOContext" where
  "io_call (IoWatch fd events cb) io = IOContext_watchOnce fd events cb io"
| "io_call (IoModify fd events) io = IOContext_modify fd events io"
| "io_call (IoRemove fd) io = IOContext_remove fd io"

type_synonym ('cb, 's) io_run = "'cb \<Rightarrow> u32 \<Rightarrow> 's \<Rightarrow> 's \<times> 'cb IoCall list"

text \<open>\<open>poll\<close> on the events that \<open>epoll_wait\<close> reported.\<close>

fun IOContext_poll :: "('cb, 's) io_run \<Rightarrow> (int \<times> u32) list \<Rightarrow> 's \<times> 'cb IOContext \<Rightarrow> 's \<times> 'cb IOContext" where
  "IOContext_poll run [] (st, io) = (st, io)"
| "IOContext_poll run ((fd, ev) # evs) (st, io) =
     (case map_of (io_callbacks io) fd of
        None \<Rightarrow> IOContext_poll run evs (st, io)
      | Some cb \<Rightarrow>
          (case run cb ev st of (st, calls) \<Rightarrow>
             IOContext_poll run evs (st, fold io_call calls (IOContext_remove fd io))))"

section \<open>Table and epoll set\<close>

definition io_inv :: "'cb IOContext \<Rightarrow> bool" where
  "io_inv io \<longleftrightarrow> dom (map_of (io_callbacks io)) = dom (map_of (io_interest io))"

lemma io_inv_same: "io_inv io \<Longrightarrow> map_of (io_callbacks io) fd = None \<longleftrightarrow> map_of (io_interest io) fd = None"
  by (auto simp: io_inv_def)

lemma io_call_inv: "io_inv io \<Longrightarrow> io_inv (io_call c io)"
  by (cases c) (auto simp: io_inv_def IOContext_watchOnce_def IOContext_modify_def IOContext_remove_def Let_def
      ctl_add_def ctl_mod_def update_conv' delete_conv' dom_def split: if_splits)

lemma io_calls_inv: "io_inv io \<Longrightarrow> io_inv (fold io_call calls io)"
  by (induction calls arbitrary: io) (auto simp: io_call_inv)

lemma poll_inv: "io_inv io \<Longrightarrow> io_inv (snd (IOContext_poll run evs (st, io)))"
proof (induction evs arbitrary: st io)
  case (Cons e evs)
  obtain fd ev where e: "e = (fd, ev)" by fastforce
  show ?case
  proof (cases "map_of (io_callbacks io) fd")
    case (Some cb)
    obtain st' calls where r: "run cb ev st = (st', calls)" by fastforce
    have "io_inv (fold io_call calls (IOContext_remove fd io))"
      using io_call_inv [OF Cons.prems, of "IoRemove fd"] by (intro io_calls_inv) simp
    then show ?thesis using Cons.IH Some r e by simp
  qed (use Cons e in simp)
qed simp

text \<open>In such a state \<open>watchOnce\<close> arms the descriptor, in the edge-triggered mode, whatever was registered before.\<close>

lemma watchOnce_arms:
  assumes "io_inv io"
  shows "map_of (io_interest (IOContext_watchOnce fd events cb io)) fd = Some (edge_triggered events)"
    and "map_of (io_callbacks (IOContext_watchOnce fd events cb io)) fd = Some cb"
  using io_inv_same [OF assms, of fd]
  by (auto simp: IOContext_watchOnce_def Let_def ctl_add_def ctl_mod_def update_conv')

text \<open>A watch fires once: unless a callback registers the descriptor again, it is gone after the poll.\<close>

definition watches :: "int \<Rightarrow> 'cb IoCall \<Rightarrow> bool" where
  "watches fd c = (case c of IoWatch fd' _ _ \<Rightarrow> fd' = fd | _ \<Rightarrow> False)"

lemma io_call_absent:
  "\<not> watches fd c \<Longrightarrow> map_of (io_callbacks io) fd = None \<Longrightarrow> map_of (io_callbacks (io_call c io)) fd = None"
  by (cases c) (auto simp: IOContext_watchOnce_def IOContext_modify_def IOContext_remove_def watches_def Let_def
      update_conv' delete_conv')

lemma io_calls_absent:
  "\<not> list_ex (watches fd) calls \<Longrightarrow> map_of (io_callbacks io) fd = None \<Longrightarrow>
   map_of (io_callbacks (fold io_call calls io)) fd = None"
  by (induction calls arbitrary: io) (auto simp: io_call_absent)

lemma poll_one_shot:
  assumes "\<And>cb ev st. \<not> list_ex (watches fd) (snd (run cb ev st))"
    "fd \<in> fst ` set evs \<or> map_of (io_callbacks io) fd = None"
  shows "map_of (io_callbacks (snd (IOContext_poll run evs (st, io)))) fd = None"
  using assms(2)
proof (induction evs arbitrary: st io)
  case (Cons e evs)
  obtain fd' ev where e: "e = (fd', ev)" by fastforce
  show ?case
  proof (cases "map_of (io_callbacks io) fd'")
    case None
    then show ?thesis using Cons e by (cases "fd' = fd") auto
  next
    case (Some cb)
    obtain st' calls where r: "run cb ev st = (st', calls)" by fastforce
    have "\<not> list_ex (watches fd) calls" using assms(1) [of cb ev st] r by simp
    then have "map_of (io_callbacks (fold io_call calls (IOContext_remove fd' io))) fd = None"
      if "fd' = fd \<or> map_of (io_callbacks io) fd = None"
      using that by (intro io_calls_absent) (auto simp: IOContext_remove_def delete_conv')
    then show ?thesis using Cons.IH [of "fold io_call calls (IOContext_remove fd' io)" st'] Cons.prems Some r e by auto
  qed
qed simp

end
