(* ===== verification/Http_Parser.thy ===== *)
theory Http_Parser
  imports Http_Message
begin

text \<open>
  The incremental request parser, \<open>parser.cpp\<close>. \<open>feed\<close> appends a piece of input to the
  buffer and works through it line by line; exceptions of \<open>substr\<close> and \<open>std::stoul\<close> leave
  \<open>feed\<close>, so its result is a sum beside the state of the parser. The lemmas show that the
  pieces in which a request arrives do not matter, that a printed request is read back, and
  what a malformed header line does.
\<close>

datatype ParseResult = kOk | kNeedMoreData | kError

datatype ParserState = kMethod | kPath | kVersion | kHeaderName | kHeaderValue | kBody | kDone

record HttpParser =
  hp_state :: ParserState
  hp_req :: HttpRequest
  hp_buffer :: bytes
  hp_content_length :: u64
  hp_chunked :: bool
  hp_header_name :: bytes

definition HttpParser_new :: HttpParser where
  "HttpParser_new = \<lparr>hp_state = kMethod, hp_req = HttpRequest_new, hp_buffer = [], hp_content_length = 0,
     hp_chunked = False, hp_header_name = []\<rparr>"

definition HttpParser_reset :: "HttpParser \<Rightarrow> HttpParser" where
  "HttpParser_reset p =
     p\<lparr>hp_state := kMethod, hp_req := HttpRequest_new, hp_buffer := [], hp_content_length := 0,
       hp_chunked := False, hp_header_name := []\<rparr>"

definition HttpParser_isComplete :: "HttpParser \<Rightarrow> bool" where
  "HttpParser_isComplete p \<longleftrightarrow> hp_state p = kDone"

section \<open>Lines\<close>

text \<open>The request line. The positions may be \<open>npos\<close>, and the sums with them wrap around.\<close>

definition parse_request_line :: "bytes \<Rightarrow> HttpRequest \<Rightarrow> std_exn + HttpRequest" where
  "parse_request_line line req =
     (let sp1 = find_char 32 line 0;
          sp2 = find_char 32 line (sp1 + 1)
      in case substr line 0 sp1 of Inl e \<Rightarrow> Inl e | Inr m \<Rightarrow>
         case substr line (sp1 + 1) (sp2 - sp1 - 1) of Inl e \<Rightarrow> Inl e | Inr fullPath \<Rightarrow>
         case substr line (sp2 + 1) npos of Inl e \<Rightarrow> Inl e | Inr ver \<Rightarrow>
         let req = req\<lparr>rq_method := m, rq_version := ver\<rparr>;
             qPos = find_char 63 fullPath 0
         in if qPos \<noteq> npos
            then case substr fullPath 0 qPos of Inl e \<Rightarrow> Inl e | Inr path \<Rightarrow>
                 case substr fullPath (qPos + 1) npos of Inl e \<Rightarrow> Inl e | Inr query \<Rightarrow>
                 Inr (req\<lparr>rq_path := path, rq_query := query\<rparr>)
            else Inr (req\<lparr>rq_path := fullPath\<rparr>))"

text \<open>
  One line in the states \<open>kMethod\<close> and \<open>kHeaderName\<close>; a line in another state is skipped.
  \<open>Some r\<close> leaves \<open>feed\<close> with the result or exception \<open>r\<close>.
\<close>

definition feed_header :: "HttpParser \<Rightarrow> bytes \<Rightarrow> (std_exn + ParseResult) option \<times> HttpParser" where
  "feed_header p line =
     (let colon = find_char 58 line 0
      in if colon = npos then (Some (Inr kError), p)
         else case substr line 0 colon of Inl e \<Rightarrow> (Some (Inl e), p) | Inr name \<Rightarrow>
              case substr line (colon + 2) npos of Inl e \<Rightarrow> (Some (Inl e), p) | Inr val \<Rightarrow>
              let p = p\<lparr>hp_req := (hp_req p)\<lparr>rq_headers := Headers_add name val (rq_headers (hp_req p))\<rparr>\<rparr>
              in if name = str ''Content-Length''
                 then case stoul val of Inl e \<Rightarrow> (Some (Inl e), p) | Inr n \<Rightarrow> (None, p\<lparr>hp_content_length := n\<rparr>)
                 else (None, p))"

definition feed_line :: "HttpParser \<Rightarrow> bytes \<Rightarrow> (std_exn + ParseResult) option \<times> HttpParser" where
  "feed_line p line =
     (if hp_state p = kMethod then
        case parse_request_line line (hp_req p) of
          Inl e \<Rightarrow> (Some (Inl e), p)
        | Inr req \<Rightarrow> (None, p\<lparr>hp_req := req, hp_state := kHeaderName\<rparr>)
      else if hp_state p = kHeaderName then
        if line = [] then
          if 0 < hp_content_length p \<or> hp_chunked p then (None, p\<lparr>hp_state := kBody\<rparr>)
          else (Some (Inr kOk), p\<lparr>hp_state := kDone\<rparr>)
        else feed_header p line
      else (None, p))"

lemma feed_line_frame [frame]:
  assumes "feed_line p line = (r, p')"
  shows "hp_buffer p' = hp_buffer p"
  using assms
  by (auto simp: feed_line_def feed_header_def Let_def split: if_splits sum.splits)

section \<open>feed\<close>

definition erase_read :: "nat \<Rightarrow> HttpParser \<Rightarrow> HttpParser" where
  "erase_read pos p = p\<lparr>hp_buffer := drop pos (hp_buffer p)\<rparr>"

function feed_loop :: "HttpParser \<Rightarrow> nat \<Rightarrow> (std_exn + ParseResult) \<times> HttpParser" where
  "feed_loop p pos =
     (if pos < length (hp_buffer p) then
        if hp_state p = kBody then
          if unat (hp_content_length p) \<le> length (hp_buffer p) - pos
          then (Inr kOk, p\<lparr>hp_req := (hp_req p)\<lparr>rq_body := take (unat (hp_content_length p)) (drop pos (hp_buffer p))\<rparr>,
                           hp_state := kDone\<rparr>)
          else (Inr kNeedMoreData, erase_read pos p)
        else
          case find_str CRLF (hp_buffer p) pos of
            None \<Rightarrow> (Inr kNeedMoreData, erase_read pos p)
          | Some lineEnd \<Rightarrow>
              (case feed_line p (take (lineEnd - pos) (drop pos (hp_buffer p))) of
                 (Some r, p) \<Rightarrow> (r, p)
               | (None, p) \<Rightarrow> feed_loop p (lineEnd + 2))
      else (Inr (if hp_state p = kDone then kOk else kNeedMoreData), erase_read pos p))"
  by pat_completeness auto

termination
proof (relation "measure (\<lambda>(p, pos). length (hp_buffer p) - pos)", simp, goal_cases)
  case (1 p pos lineEnd x p')
  from 1(3) have "pos \<le> lineEnd" by (simp add: find_str_Some)
  moreover have "hp_buffer p' = hp_buffer p" using feed_line_frame [of p _ _ p'] 1(4,5) by metis
  ultimately show ?case using 1(1) by simp
qed

declare feed_loop.simps [simp del]

definition HttpParser_feed :: "HttpParser \<Rightarrow> bytes \<Rightarrow> (std_exn + ParseResult) \<times> HttpParser" where
  "HttpParser_feed p input = feed_loop (p\<lparr>hp_buffer := hp_buffer p @ input\<rparr>) 0"

section \<open>The pieces of the input do not matter\<close>

text \<open>
  Two runs agree when they have the same outcome and leave the same parser, up to the part
  of the buffer that was already read: only a run that needs more data cuts it off.
\<close>

definition runs_agree ::
  "(std_exn + ParseResult) \<times> HttpParser \<Rightarrow> (std_exn + ParseResult) \<times> HttpParser \<Rightarrow> bool" where
  "runs_agree x y \<longleftrightarrow> fst x = fst y \<and> (snd x)\<lparr>hp_buffer := []\<rparr> = (snd y)\<lparr>hp_buffer := []\<rparr> \<and>
     (fst x = Inr kNeedMoreData \<longrightarrow> snd x = snd y)"

lemma runs_agree_refl [simp]: "runs_agree x x"
  by (simp add: runs_agree_def)

lemma runs_agree_sym: "runs_agree x y \<Longrightarrow> runs_agree y x"
  by (simp add: runs_agree_def)

lemma runs_agree_trans: "runs_agree x y \<Longrightarrow> runs_agree y z \<Longrightarrow> runs_agree x z"
  by (simp add: runs_agree_def)

lemma feed_line_buffer:
  "feed_line (p\<lparr>hp_buffer := b\<rparr>) line = (case feed_line p line of (r, p') \<Rightarrow> (r, p'\<lparr>hp_buffer := b\<rparr>))"
  by (simp add: feed_line_def feed_header_def Let_def split: sum.split)

lemma feed_loop_shift:
  assumes "k \<le> length (hp_buffer p)" "pos = k + i"
  shows "runs_agree (feed_loop p pos) (feed_loop (p\<lparr>hp_buffer := drop k (hp_buffer p)\<rparr>) i)"
  using assms
proof (induction p pos arbitrary: i rule: feed_loop.induct)
  case (1 p pos i)
  let ?q = "p\<lparr>hp_buffer := drop k (hp_buffer p)\<rparr>"
  note find = find_str_shift [OF 1(2), of CRLF i]
  have l: "pos < length (hp_buffer p) \<longleftrightarrow> i < length (hp_buffer p) - k" "drop i (drop k (hp_buffer p)) = drop pos (hp_buffer p)"
    using 1(2,3) by (auto simp: add.commute)
  show ?case
  proof (cases "pos < length (hp_buffer p) \<and> hp_state p \<noteq> kBody \<and> find_str CRLF (hp_buffer p) pos \<noteq> None")
    case True
    then obtain j where j: "find_str CRLF (drop k (hp_buffer p)) i = Some j" "find_str CRLF (hp_buffer p) pos = Some (k + j)"
      using find 1(3) by auto
    obtain r p' where fl: "feed_line p (take (k + j - pos) (drop pos (hp_buffer p))) = (r, p')" by fastforce
    have fl2: "feed_line ?q (take (j - i) (drop i (hp_buffer ?q))) = (r, p'\<lparr>hp_buffer := drop k (hp_buffer p)\<rparr>)"
      using fl 1(3) l(2) by (simp add: feed_line_buffer)
    have b: "hp_buffer p' = hp_buffer p" by (rule feed_line_frame [OF fl])
    show ?thesis
    proof (cases r)
      case None
      have "runs_agree (feed_loop p' (k + j + 2)) (feed_loop (p'\<lparr>hp_buffer := drop k (hp_buffer p')\<rparr>) (j + 2))"
        using 1(1) [OF _ _ j(2) fl [symmetric] None] True 1(2) b by simp
      moreover have "feed_loop p pos = feed_loop p' (k + j + 2)"
        using True j(2) fl None by (subst feed_loop.simps) simp
      moreover have "feed_loop ?q i = feed_loop (p'\<lparr>hp_buffer := drop k (hp_buffer p)\<rparr>) (j + 2)"
        using True j(1) fl2 None l by (subst feed_loop.simps) simp
      ultimately show ?thesis using b by simp
    next
      case (Some x)
      have "feed_loop p pos = (x, p')" using True j(2) fl Some by (subst feed_loop.simps) simp
      moreover have "feed_loop ?q i = (x, p'\<lparr>hp_buffer := drop k (hp_buffer p)\<rparr>)"
        using True j(1) fl2 Some l by (subst feed_loop.simps) simp
      ultimately show ?thesis using fl Some
        by (auto simp: runs_agree_def feed_line_def feed_header_def Let_def split: if_splits sum.splits)
    qed
  next
    case False
    then consider (fin) "\<not> pos < length (hp_buffer p)" | (body) "pos < length (hp_buffer p)" "hp_state p = kBody"
      | (none) "pos < length (hp_buffer p)" "hp_state p \<noteq> kBody" "find_str CRLF (hp_buffer p) pos = None"
          "find_str CRLF (drop k (hp_buffer p)) i = None"
      using find 1(3) by auto
    then show ?thesis
      by cases (use 1(2,3) l in \<open>simp_all add: feed_loop.simps [of p] feed_loop.simps [of ?q] runs_agree_def erase_read_def add.commute\<close>)
  qed
qed

lemma feed_loop_append:
  assumes "feed_loop p pos = (Inr kNeedMoreData, p')" "pos \<le> length (hp_buffer p)"
  shows "runs_agree (feed_loop (p\<lparr>hp_buffer := hp_buffer p @ b\<rparr>) pos) (feed_loop (p'\<lparr>hp_buffer := hp_buffer p' @ b\<rparr>) 0)"
  using assms
proof (induction p pos rule: feed_loop.induct)
  case (1 p pos)
  let ?b = "hp_buffer p @ b"
  show ?case
  proof (cases "pos < length (hp_buffer p) \<and> hp_state p \<noteq> kBody \<and> find_str CRLF (hp_buffer p) pos \<noteq> None")
    case True
    then obtain j where j: "find_str CRLF (hp_buffer p) pos = Some j" by auto
    have jl: "pos \<le> j" "j + 2 \<le> length (hp_buffer p)"
      using j by (auto simp: find_str_Some starts_with_def CRLF_def dest: arg_cong [where f = length])
    obtain r q where fl: "feed_line p (take (j - pos) (drop pos (hp_buffer p))) = (r, q)" by fastforce
    have "r = None"
      using 1(2) True j fl
      by (subst (asm) feed_loop.simps) (auto simp: feed_line_def feed_header_def Let_def split: if_splits sum.splits)
    note fl = fl [unfolded this]
    have q: "hp_buffer q = hp_buffer p" by (rule feed_line_frame [OF fl])
    have "feed_loop q (j + 2) = (Inr kNeedMoreData, p')" using 1(2) True j fl by (subst (asm) feed_loop.simps) simp
    then have ih: "runs_agree (feed_loop (q\<lparr>hp_buffer := ?b\<rparr>) (j + 2)) (feed_loop (p'\<lparr>hp_buffer := hp_buffer p' @ b\<rparr>) 0)"
      using 1(1) [OF _ _ j fl [symmetric] refl] True q jl by simp
    have "take (j - pos) (drop pos ?b) = take (j - pos) (drop pos (hp_buffer p))" using jl by simp
    then have "feed_loop (p\<lparr>hp_buffer := ?b\<rparr>) pos = feed_loop (q\<lparr>hp_buffer := ?b\<rparr>) (j + 2)"
      using True find_str_append [OF j, of b] fl jl
      by (subst feed_loop.simps) (simp add: feed_line_buffer)
    then show ?thesis using ih by simp
  next
    case False
    then have "p' = erase_read pos p"
      using 1(2) by (subst (asm) feed_loop.simps) (auto split: if_splits)
    then show ?thesis using feed_loop_shift [of pos "p\<lparr>hp_buffer := ?b\<rparr>" pos 0] 1(3)
      by (simp add: erase_read_def)
  qed
qed

text \<open>Feeding a request in two pieces is feeding it in one.\<close>

lemma feed_pieces:
  assumes "HttpParser_feed p a = (Inr kNeedMoreData, p')"
  shows "runs_agree (HttpParser_feed p (a @ b)) (HttpParser_feed p' b)"
  using feed_loop_append [of "p\<lparr>hp_buffer := hp_buffer p @ a\<rparr>" 0 p' b] assms
  by (simp add: HttpParser_feed_def)

text \<open>Successive calls of \<open>feed\<close>, until one does not ask for more.\<close>

fun feed_all :: "HttpParser \<Rightarrow> bytes list \<Rightarrow> (std_exn + ParseResult) \<times> HttpParser" where
  "feed_all p [] = (Inr kNeedMoreData, p)"
| "feed_all p (c # cs) =
     (case HttpParser_feed p c of
        (Inr kNeedMoreData, p') \<Rightarrow> feed_all p' cs
      | r \<Rightarrow> r)"

text \<open>A call that ended does not depend on what comes behind the part it read.\<close>

lemma feed_loop_final:
  assumes "feed_loop p pos = (r, p')" "r \<noteq> Inr kNeedMoreData" "hp_state p \<noteq> kDone"
  shows "runs_agree (feed_loop (p\<lparr>hp_buffer := hp_buffer p @ b\<rparr>) pos) (r, p')"
  using assms
proof (induction p pos rule: feed_loop.induct)
  case (1 p pos)
  let ?b = "hp_buffer p @ b"
  show ?case
  proof (cases "pos < length (hp_buffer p) \<and> hp_state p \<noteq> kBody \<and> find_str CRLF (hp_buffer p) pos \<noteq> None")
    case True
    then obtain j where j: "find_str CRLF (hp_buffer p) pos = Some j" by auto
    have jl: "pos \<le> j" "j + 2 \<le> length (hp_buffer p)"
      using j by (auto simp: find_str_Some starts_with_def CRLF_def dest: arg_cong [where f = length])
    obtain r' q where fl: "feed_line p (take (j - pos) (drop pos (hp_buffer p))) = (r', q)" by fastforce
    have q: "hp_buffer q = hp_buffer p" by (rule feed_line_frame [OF fl])
    have t: "take (j - pos) (drop pos ?b) = take (j - pos) (drop pos (hp_buffer p))" using jl by simp
    show ?thesis
    proof (cases r')
      case None
      note fl = fl [unfolded this]
      have "feed_loop q (j + 2) = (r, p')" using 1(2) True j fl by (subst (asm) feed_loop.simps) simp
      moreover have "hp_state q \<noteq> kDone"
        using fl 1(4) by (auto simp: feed_line_def feed_header_def Let_def split: if_splits sum.splits)
      moreover have "feed_loop (p\<lparr>hp_buffer := ?b\<rparr>) pos = feed_loop (q\<lparr>hp_buffer := ?b\<rparr>) (j + 2)"
        using True find_str_append [OF j, of b] fl jl t by (subst feed_loop.simps) (simp add: feed_line_buffer)
      ultimately show ?thesis using 1(1) [OF _ _ j fl [symmetric] refl] True q 1(3) by simp
    next
      case (Some x)
      have "(r, p') = (x, q)" using 1(2) True j fl Some by (subst (asm) feed_loop.simps) simp
      moreover have "feed_loop (p\<lparr>hp_buffer := ?b\<rparr>) pos = (x, q\<lparr>hp_buffer := ?b\<rparr>)"
        using True find_str_append [OF j, of b] fl jl t Some by (subst feed_loop.simps) (simp add: feed_line_buffer)
      ultimately show ?thesis using 1(3) by (simp add: runs_agree_def)
    qed
  next
    case False
    then show ?thesis using 1(2-)
      by (subst feed_loop.simps, subst (asm) feed_loop.simps) (auto simp: runs_agree_def split: if_splits)
  qed
qed

lemma feed_loop_not_done:
  "feed_loop p pos = (Inr kNeedMoreData, p') \<Longrightarrow> hp_state p \<noteq> kDone \<Longrightarrow> hp_state p' \<noteq> kDone"
proof (induction p pos rule: feed_loop.induct)
  case (1 p pos)
  have "hp_state q \<noteq> kDone" if "feed_line p line = (None, q)" for line q
    using that 1(3) by (auto simp: feed_line_def feed_header_def Let_def split: if_splits sum.splits)
  moreover have "r \<noteq> Inr kNeedMoreData" if "feed_line p line = (Some r, q)" for line q r
    using that by (auto simp: feed_line_def feed_header_def Let_def split: if_splits sum.splits)
  ultimately show ?case using 1
    by (subst (asm) (2) feed_loop.simps) (auto simp: erase_read_def split: if_splits option.splits prod.splits)
qed

lemma feed_all_concat:
  assumes "HttpParser_feed p [] = (Inr kNeedMoreData, p)" "hp_state p \<noteq> kDone"
  shows "runs_agree (feed_all p cs) (HttpParser_feed p (concat cs))"
  using assms
proof (induction cs arbitrary: p)
  case (Cons c cs)
  obtain r p' where r: "HttpParser_feed p c = (r, p')" by fastforce
  show ?case
  proof (cases "r = Inr kNeedMoreData")
    case True
    note r = r [unfolded True]
    have "HttpParser_feed p' [] = (Inr kNeedMoreData, p')"
      using feed_pieces [OF r, of "[]"] r by (cases "HttpParser_feed p' []") (auto simp: runs_agree_def)
    moreover have "hp_state p' \<noteq> kDone"
      using feed_loop_not_done [of "p\<lparr>hp_buffer := hp_buffer p @ c\<rparr>" 0 p'] r Cons.prems(2) by (simp add: HttpParser_feed_def)
    ultimately have "runs_agree (feed_all p' cs) (HttpParser_feed p' (concat cs))" by (rule Cons.IH)
    then show ?thesis using feed_pieces [OF r, of "concat cs"] r by (simp add: runs_agree_def)
  next
    case False
    have "feed_all p (c # cs) = (r, p')" using r False by (cases r; cases "projr r") (auto split: ParseResult.splits sum.splits)
    moreover have "runs_agree (HttpParser_feed p (c @ concat cs)) (r, p')"
      using feed_loop_final [of "p\<lparr>hp_buffer := hp_buffer p @ c\<rparr>" 0 r p' "concat cs"] r False Cons.prems(2)
      by (simp add: HttpParser_feed_def)
    ultimately show ?thesis by (simp add: runs_agree_def)
  qed
qed simp

section \<open>Reading back a printed request\<close>

definition print_field :: "bytes \<times> bytes \<Rightarrow> bytes" where
  "print_field f = fst f @ 58 # 32 # snd f @ CRLF"

definition request_target :: "HttpRequest \<Rightarrow> bytes" where
  "request_target r = rq_path r @ (if rq_query r = [] then [] else 63 # rq_query r)"

definition request_line :: "HttpRequest \<Rightarrow> bytes" where
  "request_line r = rq_method r @ 32 # request_target r @ 32 # rq_version r"

definition print_request :: "HttpRequest \<Rightarrow> bytes" where
  "print_request r =
     request_line r @ CRLF @ concat (map print_field (hdr_all (rq_headers r))) @ CRLF @ rq_body r"

definition add_fields :: "(bytes \<times> bytes) list \<Rightarrow> Headers \<Rightarrow> Headers" where
  "add_fields fs h = fold (\<lambda>f. Headers_add (fst f) (snd f)) fs h"

text \<open>
  A request that can be printed: no separator inside a part, headers as \<open>add\<close> builds them,
  and a \<open>Content-Length\<close> field, written that way, with the length of the body when there
  is a body.
\<close>

definition field_ok :: "nat \<Rightarrow> bytes \<times> bytes \<Rightarrow> bool" where
  "field_ok n f \<longleftrightarrow> 58 \<notin> set (fst f) \<and> 13 \<notin> set (fst f) \<and> 13 \<notin> set (snd f) \<and>
     (fst f = str ''Content-Length'' \<longrightarrow> stoul (snd f) = Inr (word_of_nat n))"

definition request_ok :: "HttpRequest \<Rightarrow> bool" where
  "request_ok r \<longleftrightarrow>
     32 \<notin> set (rq_method r) \<and> 32 \<notin> set (request_target r) \<and> 63 \<notin> set (rq_path r) \<and> 13 \<notin> set (request_line r) \<and>
     list_all (field_ok (length (rq_body r))) (hdr_all (rq_headers r)) \<and>
     rq_headers r = add_fields (hdr_all (rq_headers r)) Headers_new \<and>
     (rq_body r \<noteq> [] \<longrightarrow> str ''Content-Length'' \<in> fst ` set (hdr_all (rq_headers r))) \<and>
     length (print_request r) < 2 ^ 64 - 1"

lemma parse_request_line_ok:
  assumes "32 \<notin> set (rq_method r)" "32 \<notin> set (request_target r)" "63 \<notin> set (rq_path r)"
    "length (request_line r) < 2 ^ 64 - 1"
  shows "parse_request_line (request_line r) HttpRequest_new =
    Inr (HttpRequest_new\<lparr>rq_method := rq_method r, rq_version := rq_version r, rq_path := rq_path r, rq_query := rq_query r\<rparr>)"
proof -
  let ?m = "rq_method r" and ?t = "request_target r" and ?v = "rq_version r"
  have len: "length ?m + length ?t + length ?v + 2 < 2 ^ 64 - 1" using assms(4) by (simp add: request_line_def)
  have sp1: "find_char 32 (request_line r) 0 = word_of_nat (length ?m)"
    using find_char_first [OF assms(1)] by (simp add: request_line_def)
  have sp2: "find_char 32 (request_line r) (word_of_nat (length ?m) + 1) = word_of_nat (length ?m + 1 + length ?t)"
    using find_char_found [OF assms(2), of "?m @ [32]" ?v] len by (simp add: request_line_def add.commute)
  have m: "substr (request_line r) 0 (word_of_nat (length ?m)) = Inr ?m"
    using substr_prefix [of ?m] len by (simp add: request_line_def)
  have t: "substr (request_line r) (word_of_nat (length ?m) + 1) (word_of_nat (length ?m + 1 + length ?t) - word_of_nat (length ?m) - 1) = Inr ?t"
    using substr_middle [of "?m @ [32]" ?t "32 # ?v"] len by (simp add: request_line_def add.commute)
  have v: "substr (request_line r) (word_of_nat (length ?m + 1 + length ?t) + 1) npos = Inr ?v"
    using substr_rest [of "?m @ 32 # ?t @ [32]" ?v] len by (simp add: request_line_def algebra_simps)
  show ?thesis
  proof (cases "rq_query r = []")
    case True
    then have "find_char 63 ?t 0 = npos" using find_char_none assms(3) by (simp add: request_target_def)
    then show ?thesis using sp1 sp2 m t v True
      by (simp add: parse_request_line_def Let_def request_target_def HttpRequest_new_def)
  next
    case False
    have q: "find_char 63 ?t 0 = word_of_nat (length (rq_path r))"
      using find_char_first [OF assms(3)] False by (simp add: request_target_def)
    have "substr ?t 0 (word_of_nat (length (rq_path r))) = Inr (rq_path r)"
      using substr_prefix [of "rq_path r"] len by (simp add: request_target_def)
    moreover have "substr ?t (word_of_nat (length (rq_path r)) + 1) npos = Inr (rq_query r)"
      using substr_rest [of "rq_path r @ [63]" "rq_query r"] len False by (simp add: request_target_def algebra_simps)
    moreover have "(word_of_nat (length (rq_path r)) :: u64) \<noteq> npos"
    proof -
      have "length (rq_path r) < 2 ^ 64 - 1" using len by (simp add: request_target_def)
      then have "unat (word_of_nat (length (rq_path r)) :: u64) \<noteq> unat npos" by (simp add: unat_of_nat unat_npos)
      then show ?thesis by metis
    qed
    ultimately show ?thesis using sp1 sp2 m t v q
      by (simp add: parse_request_line_def Let_def)
  qed
qed

lemma find_crlf:
  assumes "13 \<notin> set line"
  shows "find_str CRLF (x @ line @ CRLF @ rest) (length x) = Some (length x + length line)"
proof -
  have "find_at (starts_with CRLF) (line @ CRLF @ rest) = Some (length line)"
    using assms by (induction line) (auto simp: starts_with_def CRLF_def)
  then show ?thesis by (simp add: find_str_def)
qed

lemma feed_loop_line:
  assumes "hp_buffer p = x @ line @ CRLF @ rest" "13 \<notin> set line" "hp_state p \<noteq> kBody" "feed_line p line = (r, p')"
  shows "feed_loop p (length x) =
    (case r of None \<Rightarrow> feed_loop p' (length (x @ line @ CRLF)) | Some r \<Rightarrow> (r, p'))"
  using assms find_crlf [OF assms(2), of x rest]
  by (cases r; subst feed_loop.simps) (simp_all add: CRLF_def add.assoc)

lemma feed_header_ok:
  assumes "field_ok n f" "length (print_field f) < 2 ^ 64 - 1"
  shows "feed_header p (fst f @ 58 # 32 # snd f) =
    (None, p\<lparr>hp_req := (hp_req p)\<lparr>rq_headers := Headers_add (fst f) (snd f) (rq_headers (hp_req p))\<rparr>,
      hp_content_length := (if fst f = str ''Content-Length'' then word_of_nat n else hp_content_length p)\<rparr>)"
proof -
  let ?l = "fst f @ 58 # 32 # snd f"
  have len: "length (fst f) + length (snd f) + 4 < 2 ^ 64 - 1" using assms(2) by (simp add: print_field_def CRLF_def)
  have c: "find_char 58 ?l 0 = word_of_nat (length (fst f))"
    using find_char_first assms(1) by (simp add: field_ok_def)
  moreover have "(word_of_nat (length (fst f)) :: u64) \<noteq> npos"
  proof -
    have "unat (word_of_nat (length (fst f)) :: u64) \<noteq> unat npos" using len by (simp add: unat_of_nat unat_npos)
    then show ?thesis by metis
  qed
  moreover have "substr ?l 0 (word_of_nat (length (fst f))) = Inr (fst f)"
    using substr_prefix [of "fst f"] len by simp
  moreover have "substr ?l (word_of_nat (length (fst f)) + 2) npos = Inr (snd f)"
    using substr_rest [of "fst f @ [58, 32]" "snd f"] len by (simp add: algebra_simps)
  ultimately show ?thesis using assms(1) by (simp add: feed_header_def Let_def field_ok_def)
qed

lemma feed_loop_fields:
  assumes "hp_buffer p = x @ concat (map print_field fs) @ rest" "hp_state p = kHeaderName"
    "list_all (field_ok n) fs" "length (hp_buffer p) < 2 ^ 64 - 1"
  shows "feed_loop p (length x) =
    feed_loop (p\<lparr>hp_req := (hp_req p)\<lparr>rq_headers := add_fields fs (rq_headers (hp_req p))\<rparr>,
      hp_content_length := (if str ''Content-Length'' \<in> fst ` set fs then word_of_nat n else hp_content_length p)\<rparr>)
      (length (x @ concat (map print_field fs)))"
  using assms
proof (induction fs arbitrary: x p)
  case Nil
  then show ?case by (simp add: add_fields_def)
next
  case (Cons f fs)
  let ?line = "fst f @ 58 # 32 # snd f"
  have "feed_line p ?line = feed_header p ?line" using Cons.prems(2) by (simp add: feed_line_def)
  also have "\<dots> = (None, p\<lparr>hp_req := (hp_req p)\<lparr>rq_headers := Headers_add (fst f) (snd f) (rq_headers (hp_req p))\<rparr>,
      hp_content_length := (if fst f = str ''Content-Length'' then word_of_nat n else hp_content_length p)\<rparr>)"
    (is "_ = (None, ?p)") using Cons.prems by (intro feed_header_ok) auto
  finally have step: "feed_loop p (length x) = feed_loop ?p (length (x @ print_field f))"
    using feed_loop_line [of p x ?line "concat (map print_field fs) @ rest" None ?p] Cons.prems
    by (auto simp: print_field_def [of f] field_ok_def [of n f])
  have rest: "hp_buffer ?p = (x @ print_field f) @ concat (map print_field fs) @ rest" "hp_state ?p = kHeaderName"
    "length (hp_buffer ?p) < 2 ^ 64 - 1" using Cons.prems by auto
  show ?case unfolding step
    using Cons.IH [OF rest(1,2) _ rest(3)] Cons.prems(3) by (auto simp: add_fields_def image_iff)
qed

lemma feed_printed:
  assumes "request_ok r"
  shows "\<exists>p. HttpParser_feed HttpParser_new (print_request r) = (Inr kOk, p) \<and> hp_req p = r \<and> hp_state p = kDone"
proof -
  let ?fs = "hdr_all (rq_headers r)" and ?x = "request_line r @ CRLF"
  let ?y = "?x @ concat (map print_field ?fs)"
  define q where "q = HttpRequest_new\<lparr>rq_method := rq_method r, rq_version := rq_version r, rq_path := rq_path r, rq_query := rq_query r\<rparr>"
  define p0 where "p0 = HttpParser_new\<lparr>hp_buffer := print_request r\<rparr>"
  define p1 where "p1 = p0\<lparr>hp_req := q, hp_state := kHeaderName\<rparr>"
  define p2 where "p2 = p1\<lparr>hp_req := q\<lparr>rq_headers := rq_headers r\<rparr>, hp_content_length := word_of_nat (length (rq_body r))\<rparr>"
  note ok = assms [unfolded request_ok_def]
  have len: "length (print_request r) < 2 ^ 64 - 1" using ok by simp
  have l1: "feed_line p0 (request_line r) = (None, p1)"
    using parse_request_line_ok [of r] ok len
    by (simp add: feed_line_def p0_def p1_def HttpParser_new_def q_def print_request_def)
  have "feed_loop p0 0 = feed_loop p1 (length ?x)"
    using feed_loop_line [OF _ _ _ l1, of "[]"] ok by (simp add: p0_def HttpParser_new_def print_request_def)
  also have "\<dots> = feed_loop p2 (length ?y)"
    using feed_loop_fields [of p1 ?x ?fs "CRLF @ rq_body r" "length (rq_body r)"] ok len
    by (auto simp: p1_def p2_def p0_def q_def print_request_def HttpRequest_new_def HttpParser_new_def)
  also have "\<exists>p. \<dots> = (Inr kOk, p) \<and> hp_req p = r \<and> hp_state p = kDone"
  proof (cases "rq_body r = []")
    case True
    have "feed_line p2 [] = (Some (Inr kOk), p2\<lparr>hp_state := kDone\<rparr>)"
      using True by (simp add: feed_line_def p2_def p1_def p0_def HttpParser_new_def)
    from feed_loop_line [OF _ _ _ this, of ?y] True show ?thesis
      by (simp add: p2_def p1_def p0_def print_request_def q_def HttpRequest_new_def)
  next
    case False
    have b: "length (rq_body r) < 2 ^ 64" using ok by (simp add: print_request_def)
    then have n: "unat (word_of_nat (length (rq_body r)) :: u64) = length (rq_body r)" by (simp add: unat_of_nat)
    then have "(0 :: u64) < word_of_nat (length (rq_body r))" using False by (simp add: word_less_nat_alt)
    then have "feed_line p2 [] = (None, p2\<lparr>hp_state := kBody\<rparr>)"
      by (simp add: feed_line_def p2_def p1_def p0_def)
    from feed_loop_line [OF _ _ _ this, of ?y]
    have "feed_loop p2 (length ?y) = feed_loop (p2\<lparr>hp_state := kBody\<rparr>) (length (?y @ CRLF))"
      by (simp add: p2_def p1_def p0_def print_request_def)
    moreover have "feed_loop (p2\<lparr>hp_state := kBody\<rparr>) (length (?y @ CRLF)) =
        (Inr kOk, p2\<lparr>hp_req := (hp_req p2)\<lparr>rq_body := rq_body r\<rparr>, hp_state := kDone\<rparr>)"
      using False n by (subst feed_loop.simps) (simp add: p2_def p1_def p0_def print_request_def)
    ultimately show ?thesis by (simp add: p2_def q_def)
  qed
  finally show ?thesis by (simp add: HttpParser_feed_def p0_def HttpParser_new_def)
qed

section \<open>A part of a request is not enough\<close>

definition needs_more :: "HttpParser \<Rightarrow> nat \<Rightarrow> bool" where
  "needs_more p pos \<longleftrightarrow> fst (feed_loop p pos) = Inr kNeedMoreData"

lemma starts_with_CRLF: "starts_with CRLF s \<longleftrightarrow> (\<exists>u. s = 13 # 10 # u)"
  by (cases s; cases "tl s") (auto simp: starts_with_def CRLF_def)

lemma find_crlf_short:
  assumes "13 \<notin> set line" "n < length line + 2"
  shows "find_str CRLF (x @ take n (line @ CRLF @ rest)) (length x) = None"
proof -
  define t where "t = take n (line @ CRLF @ rest)"
  have "\<not> starts_with CRLF (drop i t)" for i
  proof
    assume "starts_with CRLF (drop i t)"
    then obtain u where u: "drop i t = 13 # 10 # u" by (auto simp: starts_with_CRLF)
    then have "length t - i = length u + 2" by (metis length_drop length_Cons add_2_eq_Suc')
    then have l: "i + 1 < length t" by simp
    have "t ! i = 13" using u by (rule nth_via_drop)
    moreover have "i < n" using l by (simp add: t_def del: take_append)
    ultimately have "(line @ CRLF @ rest) ! i = 13" unfolding t_def by (metis nth_take)
    moreover have "length t \<le> n" by (simp add: t_def del: take_append)
    then have "i < length line" using l assms(2) by simp
    ultimately show False using assms(1) by (metis nth_append nth_mem)
  qed
  then have "find_at (starts_with CRLF) t = None" by (simp add: find_at_None)
  then show ?thesis by (simp add: find_str_def t_def)
qed

lemma needs_more_line:
  assumes "hp_buffer p = x @ take n (line @ CRLF @ rest)" "13 \<notin> set line" "hp_state p \<noteq> kBody" "hp_state p \<noteq> kDone"
    "feed_line p line = (None, p')" "length line + 2 \<le> n \<Longrightarrow> needs_more p' (length (x @ line @ CRLF))"
  shows "needs_more p (length x)"
proof (cases "n < length line + 2")
  case True
  then show ?thesis using find_crlf_short [OF assms(2) True, of x rest] assms(1,3,4)
    unfolding needs_more_def by (subst feed_loop.simps) simp
next
  case False
  then have "take n (line @ CRLF @ rest) = line @ CRLF @ take (n - (length line + 2)) rest"
    by (simp add: CRLF_def take_Cons')
  then show ?thesis using feed_loop_line [OF _ assms(2,3,5)] assms(1,6) False by (simp add: needs_more_def)
qed

lemma needs_more_end:
  assumes "hp_buffer p = x @ take n (CRLF @ body)" "n < length (CRLF @ body)" "hp_state p = kHeaderName" "length body < 2 ^ 64"
    "hp_content_length p = (if body = [] then 0 else word_of_nat (length body))" "\<not> hp_chunked p"
  shows "needs_more p (length x)"
proof (cases "n < 2")
  case True
  then show ?thesis using find_crlf_short [of "[]" n x body] assms(1,3)
    unfolding needs_more_def by (subst feed_loop.simps) simp
next
  case False
  define m where "m = n - 2"
  have b: "body \<noteq> []" "m < length body" using assms(2) False by (auto simp: CRLF_def m_def)
  have u: "unat (word_of_nat (length body) :: u64) = length body" using assms(4) by (simp add: unat_of_nat)
  then have pos: "(0 :: u64) < word_of_nat (length body)" using b(1) by (simp add: word_less_nat_alt)
  have buf: "hp_buffer p = x @ [] @ CRLF @ take m body" using assms(1) False by (simp add: CRLF_def m_def take_Cons' numeral_2_eq_2)
  have "feed_line p [] = (None, p\<lparr>hp_state := kBody\<rparr>)" using assms(3,5) b(1) pos by (simp add: feed_line_def)
  from feed_loop_line [OF buf _ _ this] assms(3)
  have "feed_loop p (length x) = feed_loop (p\<lparr>hp_state := kBody\<rparr>) (length (x @ CRLF))" by simp
  moreover have "fst (feed_loop (p\<lparr>hp_state := kBody\<rparr>) (length (x @ CRLF))) = Inr kNeedMoreData"
    using buf u b assms(5) by (subst feed_loop.simps) simp
  ultimately show ?thesis by (simp add: needs_more_def)
qed

lemma needs_more_fields:
  assumes "hp_buffer p = x @ take n (concat (map print_field fs) @ CRLF @ body)" "n < length (concat (map print_field fs) @ CRLF @ body)"
    "hp_state p = kHeaderName" "list_all (field_ok (length body)) fs" "\<not> hp_chunked p"
    "length (x @ concat (map print_field fs) @ CRLF @ body) < 2 ^ 64 - 1"
    "hp_content_length p = (if body = [] then 0 else word_of_nat (length body)) \<or> str ''Content-Length'' \<in> fst ` set fs"
  shows "needs_more p (length x)"
  using assms
proof (induction fs arbitrary: x p n)
  case Nil
  then show ?case by (intro needs_more_end [of p x n body]) auto
next
  case (Cons f fs)
  let ?line = "fst f @ 58 # 32 # snd f" and ?rest = "concat (map print_field fs) @ CRLF @ body"
  let ?p = "p\<lparr>hp_req := (hp_req p)\<lparr>rq_headers := Headers_add (fst f) (snd f) (rq_headers (hp_req p))\<rparr>,
      hp_content_length := (if fst f = str ''Content-Length'' then word_of_nat (length body) else hp_content_length p)\<rparr>"
  have all: "concat (map print_field (f # fs)) @ CRLF @ body = ?line @ CRLF @ ?rest" by (simp add: print_field_def [of f])
  have line: "feed_line p ?line = (None, ?p)"
    using feed_header_ok [of "length body" f p] Cons.prems(3,4,6) by (simp add: feed_line_def)
  have "13 \<notin> set ?line" using Cons.prems(4) by (auto simp: field_ok_def)
  moreover have "needs_more ?p (length (x @ ?line @ CRLF))" if n: "length ?line + 2 \<le> n"
  proof (rule Cons.IH)
    have "take n (?line @ CRLF @ ?rest) = ?line @ CRLF @ take (n - (length ?line + 2)) ?rest"
      using n by (simp add: CRLF_def take_Cons')
    then show "hp_buffer ?p = (x @ ?line @ CRLF) @ take (n - (length ?line + 2)) ?rest"
      using Cons.prems(1) unfolding all by simp
    show "n - (length ?line + 2) < length ?rest" using Cons.prems(2) n unfolding all by (simp add: CRLF_def)
    show "length ((x @ ?line @ CRLF) @ ?rest) < 2 ^ 64 - 1" using Cons.prems(6) unfolding all by simp
    show "hp_content_length ?p = (if body = [] then 0 else word_of_nat (length body)) \<or> str ''Content-Length'' \<in> fst ` set fs"
      using Cons.prems(7) by auto
  qed (use Cons.prems in auto)
  ultimately show ?case using needs_more_line [of p x n ?line ?rest ?p] Cons.prems(1,3) line unfolding all by simp
qed

lemma feed_part:
  assumes "request_ok r" "n < length (print_request r)"
  shows "fst (HttpParser_feed HttpParser_new (take n (print_request r))) = Inr kNeedMoreData"
proof -
  note ok = assms(1) [unfolded request_ok_def]
  let ?fs = "hdr_all (rq_headers r)" and ?rest = "concat (map print_field (hdr_all (rq_headers r))) @ CRLF @ rq_body r"
  define q where "q = HttpRequest_new\<lparr>rq_method := rq_method r, rq_version := rq_version r, rq_path := rq_path r, rq_query := rq_query r\<rparr>"
  define p0 where "p0 = HttpParser_new\<lparr>hp_buffer := take n (print_request r)\<rparr>"
  define p1 where "p1 = p0\<lparr>hp_req := q, hp_state := kHeaderName\<rparr>"
  have line: "feed_line p0 (request_line r) = (None, p1)"
    using parse_request_line_ok [of r] ok
    by (simp add: feed_line_def p0_def p1_def HttpParser_new_def q_def print_request_def)
  have "needs_more p1 (length ([] @ request_line r @ CRLF))" if m: "length (request_line r) + 2 \<le> n"
  proof (rule needs_more_fields)
    show "hp_buffer p1 = ([] @ request_line r @ CRLF) @ take (n - (length (request_line r) + 2)) (concat (map print_field ?fs) @ CRLF @ rq_body r)"
      using m by (simp add: p1_def p0_def print_request_def CRLF_def take_Cons')
    show "n - (length (request_line r) + 2) < length (concat (map print_field ?fs) @ CRLF @ rq_body r)"
      using assms(2) m by (simp add: print_request_def CRLF_def)
  qed (use ok in \<open>auto simp: p1_def p0_def HttpParser_new_def print_request_def\<close>)
  then have "needs_more p0 (length ([] :: bytes))"
    using needs_more_line [of p0 "[]" n "request_line r" ?rest p1] line ok
    by (simp add: p0_def HttpParser_new_def print_request_def)
  then show ?thesis by (simp add: needs_more_def HttpParser_feed_def p0_def HttpParser_new_def)
qed

section \<open>Malformed header lines\<close>

text \<open>
  A header line without a colon is an error; one that ends with its colon makes \<open>substr\<close>
  throw, since the code skips a blank behind the colon without looking for it.
\<close>

lemma feed_header_no_colon: "58 \<notin> set line \<Longrightarrow> feed_header p line = (Some (Inr kError), p)"
  using find_char_none [of 58 line] by (simp add: feed_header_def Let_def)

lemma feed_header_bare_colon:
  assumes "58 \<notin> set name" "length name < 2 ^ 64 - 2"
  shows "feed_header p (name @ [58]) = (Some (Inl out_of_range), p)"
proof -
  have u: "unat (word_of_nat (length name) :: u64) = length name" "unat (word_of_nat (length name) + 2 :: u64) = length name + 2"
    using assms(2) by (simp_all add: unat_of_nat unat_word_ariths)
  have "unat (word_of_nat (length name) :: u64) \<noteq> unat npos" using u(1) assms(2) unat_npos by simp
  then have "(word_of_nat (length name) :: u64) \<noteq> npos" by metis
  then show ?thesis using find_char_first [OF assms(1), of "[]"] u
    by (simp add: feed_header_def Let_def substr_def)
qed

text \<open>A \<open>Content-Length\<close> that \<open>std::stoul\<close> does not accept makes \<open>feed\<close> throw.\<close>

lemma feed_header_bad_length:
  assumes "stoul val = Inl e" "length val < 2 ^ 64 - 32"
  shows "fst (feed_header p (str ''Content-Length'' @ 58 # 32 # val)) = Some (Inl e)"
proof -
  let ?n = "str ''Content-Length''"
  have n: "58 \<notin> set ?n" "length ?n = 14" by (simp_all add: str_def)
  have "find_char 58 (?n @ 58 # 32 # val) 0 = word_of_nat (length ?n)" by (rule find_char_first [OF n(1)])
  moreover have "(word_of_nat (length ?n) :: u64) \<noteq> npos" by (simp add: n(2) npos_def)
  moreover have "substr (?n @ 58 # 32 # val) 0 (word_of_nat (length ?n)) = Inr ?n" using n(2) by (intro substr_prefix) simp
  moreover have "substr (?n @ 58 # 32 # val) (word_of_nat (length ?n) + 2) npos = Inr val"
    using substr_rest [of "?n @ [58, 32]" val] assms(2) n(2) by simp
  ultimately show ?thesis using assms(1) by (simp add: feed_header_def Let_def)
qed

lemma feed_bad_length:
  assumes "32 \<notin> set (rq_method r)" "32 \<notin> set (request_target r)" "63 \<notin> set (rq_path r)" "13 \<notin> set (request_line r)"
    "length (request_line r) < 2 ^ 64 - 1" "stoul val = Inl e" "13 \<notin> set val" "length val < 2 ^ 64 - 32"
  shows "fst (HttpParser_feed HttpParser_new (request_line r @ CRLF @ str ''Content-Length: '' @ val @ CRLF @ rest)) = Inl e"
proof -
  let ?h = "str ''Content-Length'' @ 58 # 32 # val"
  define p0 where "p0 = HttpParser_new\<lparr>hp_buffer := request_line r @ CRLF @ ?h @ CRLF @ rest\<rparr>"
  obtain q where "parse_request_line (request_line r) HttpRequest_new = Inr q" using parse_request_line_ok [OF assms(1-3,5)] by simp
  then have l1: "feed_line p0 (request_line r) = (None, p0\<lparr>hp_req := q, hp_state := kHeaderName\<rparr>)" (is "_ = (None, ?p1)")
    by (simp add: feed_line_def p0_def HttpParser_new_def)
  obtain p2 where l2: "feed_line ?p1 ?h = (Some (Inl e), p2)"
    using feed_header_bad_length [OF assms(6,8), of ?p1] by (cases "feed_header ?p1 ?h") (auto simp: feed_line_def)
  have "13 \<notin> set ?h" using assms(7) by (simp add: str_def)
  then have "feed_loop ?p1 (length (request_line r @ CRLF)) = (Inl e, p2)"
    using feed_loop_line [of ?p1 "request_line r @ CRLF" ?h rest, OF _ _ _ l2] by (simp add: p0_def)
  moreover have "feed_loop p0 0 = feed_loop ?p1 (length (request_line r @ CRLF))"
    using feed_loop_line [of p0 "[]", OF _ assms(4) _ l1] by (simp add: p0_def HttpParser_new_def)
  moreover have "str ''Content-Length: '' = str ''Content-Length'' @ [58, 32]" by (simp add: str_def)
  ultimately show ?thesis by (simp add: HttpParser_feed_def p0_def HttpParser_new_def)
qed

end
