(* ===== verification/Config.thy ===== *)
theory Config
  imports Std_String
begin

text \<open>
  The configuration of the gateway, \<open>config.cpp\<close>: a reader for the part of YAML that
  \<open>gateway.yaml\<close> uses. The file is read line by line; \<open>std::stoi\<close> may throw, so the result
  is a sum. The lemmas show that a configuration written in that format is read back, and
  that comments, blank lines and unknown keys change nothing.
\<close>

record UpstreamConfig =
  uc_host :: bytes
  uc_port :: int
  uc_weight :: int

record HealthCheckConfig =
  hc_interval_s :: int
  hc_timeout_ms :: int
  hc_path :: bytes

record LimitsConfig =
  lc_max_connections :: int
  lc_per_ip_max :: int

record Config =
  cfg_listen_port :: int
  cfg_worker_threads :: int
  cfg_upstreams :: "UpstreamConfig list"
  cfg_health_check :: HealthCheckConfig
  cfg_limits :: LimitsConfig

definition Config_default :: Config where
  "Config_default = \<lparr>cfg_listen_port = 8080, cfg_worker_threads = 4, cfg_upstreams = [],
     cfg_health_check = \<lparr>hc_interval_s = 5, hc_timeout_ms = 200, hc_path = str ''/health''\<rparr>,
     cfg_limits = \<lparr>lc_max_connections = 10000, lc_per_ip_max = 100\<rparr>\<rparr>"

definition trim :: "bytes \<Rightarrow> bytes" where
  "trim s = dropWhile (\<lambda>c. c = 32 \<or> c = 9) (rev (dropWhile (\<lambda>c. c = 13 \<or> isspace c) (rev s)))"

text \<open>\<open>std::getline\<close>: the lines of a file, without a last one that is empty.\<close>

fun getlines :: "bytes \<Rightarrow> bytes \<Rightarrow> bytes list" where
  "getlines acc [] = (if acc = [] then [] else [rev acc])"
| "getlines acc (c # cs) = (if c = 10 then rev acc # getlines [] cs else getlines (c # acc) cs)"

text \<open>The variables of the loop: \<open>current_up\<close> points to the last upstream or is null.\<close>

record LoadState =
  ls_cfg :: Config
  ls_section :: bytes
  ls_current_up :: bool

definition set_upstream :: "bytes \<Rightarrow> bytes \<Rightarrow> UpstreamConfig \<Rightarrow> std_exn + UpstreamConfig" where
  "set_upstream key val u =
     (if key = str ''host'' then Inr (u\<lparr>uc_host := val\<rparr>)
      else if key = str ''port'' then case stoi val of Inl e \<Rightarrow> Inl e | Inr n \<Rightarrow> Inr (u\<lparr>uc_port := n\<rparr>)
      else if key = str ''weight'' then case stoi val of Inl e \<Rightarrow> Inl e | Inr n \<Rightarrow> Inr (u\<lparr>uc_weight := n\<rparr>)
      else Inr u)"

definition set_current :: "bytes \<Rightarrow> bytes \<Rightarrow> LoadState \<Rightarrow> std_exn + LoadState" where
  "set_current key val ls =
     (let cfg = ls_cfg ls; ups = cfg_upstreams cfg
      in case set_upstream key val (last ups) of
           Inl e \<Rightarrow> Inl e
         | Inr u \<Rightarrow> Inr (ls\<lparr>ls_cfg := cfg\<lparr>cfg_upstreams := butlast ups @ [u]\<rparr>\<rparr>))"

definition split_colon :: "bytes \<Rightarrow> (bytes \<times> bytes) option" where
  "split_colon line =
     (case find_str [58] line 0 of
        None \<Rightarrow> None
      | Some colon \<Rightarrow> Some (trim (take colon line), trim (drop (colon + 1) line)))"

text \<open>A new item of the list, \<open>- key: value\<close> or a bare dash.\<close>

definition config_item :: "bytes \<Rightarrow> LoadState \<Rightarrow> std_exn + LoadState" where
  "config_item line ls =
     (let u = \<lparr>uc_host = [], uc_port = 0, uc_weight = 1\<rparr>;
          ls = ls\<lparr>ls_cfg := (ls_cfg ls)\<lparr>cfg_upstreams := cfg_upstreams (ls_cfg ls) @ [u]\<rparr>,
                  ls_current_up := True, ls_section := str ''upstreams''\<rparr>;
          rest = trim (drop 1 line)
      in if rest = [] then Inr ls
         else case split_colon rest of
                None \<Rightarrow> Inr ls
              | Some (key, val) \<Rightarrow> set_current key val ls)"

text \<open>A pair of a key and a value, by section.\<close>

definition config_pair :: "bytes \<Rightarrow> bytes \<Rightarrow> LoadState \<Rightarrow> std_exn + LoadState" where
  "config_pair key val ls =
     (let cfg = ls_cfg ls; hc = cfg_health_check cfg; lc = cfg_limits cfg;
          number = (\<lambda>f. case stoi val of Inl e \<Rightarrow> Inl e | Inr n \<Rightarrow> Inr (ls\<lparr>ls_cfg := f n\<rparr>))
      in if ls_section ls = str ''listen'' then
           if key = str ''port'' then number (\<lambda>n. cfg\<lparr>cfg_listen_port := n\<rparr>)
           else if key = str ''threads'' then number (\<lambda>n. cfg\<lparr>cfg_worker_threads := n\<rparr>)
           else Inr ls
         else if ls_section ls = str ''health_check'' then
           if key = str ''interval'' then number (\<lambda>n. cfg\<lparr>cfg_health_check := hc\<lparr>hc_interval_s := n\<rparr>\<rparr>)
           else if key = str ''timeout'' then number (\<lambda>n. cfg\<lparr>cfg_health_check := hc\<lparr>hc_timeout_ms := n\<rparr>\<rparr>)
           else if key = str ''path'' then Inr (ls\<lparr>ls_cfg := cfg\<lparr>cfg_health_check := hc\<lparr>hc_path := val\<rparr>\<rparr>\<rparr>)
           else Inr ls
         else if ls_section ls = str ''limits'' then
           if key = str ''max_connections'' then number (\<lambda>n. cfg\<lparr>cfg_limits := lc\<lparr>lc_max_connections := n\<rparr>\<rparr>)
           else if key = str ''per_ip_max'' then number (\<lambda>n. cfg\<lparr>cfg_limits := lc\<lparr>lc_per_ip_max := n\<rparr>\<rparr>)
           else Inr ls
         else if ls_section ls = str ''upstreams'' \<and> ls_current_up ls then set_current key val ls
         else Inr ls)"

definition config_line :: "bytes \<Rightarrow> LoadState \<Rightarrow> std_exn + LoadState" where
  "config_line line ls =
     (let line = trim line
      in if line = [] \<or> hd line = 35 then Inr ls
         else if last line = 58 \<and> find_str [58] line 0 = Some (length line - 1)
           then Inr (ls\<lparr>ls_section := butlast line, ls_current_up := False\<rparr>)
         else if hd line = 45 then config_item line ls
         else case split_colon line of
                None \<Rightarrow> Inr ls
              | Some (key, val) \<Rightarrow> config_pair key val ls)"

fun config_lines :: "bytes list \<Rightarrow> LoadState \<Rightarrow> std_exn + LoadState" where
  "config_lines [] ls = Inr ls"
| "config_lines (l # ls) st = (case config_line l st of Inl e \<Rightarrow> Inl e | Inr st \<Rightarrow> config_lines ls st)"

definition Config_load :: "bytes option \<Rightarrow> std_exn + Config option" where
  "Config_load contents =
     (case contents of
        None \<Rightarrow> Inr None
      | Some text \<Rightarrow>
          (case config_lines (getlines [] text) \<lparr>ls_cfg = Config_default, ls_section = [], ls_current_up = False\<rparr> of
             Inl e \<Rightarrow> Inl e
           | Inr ls \<Rightarrow> Inr (Some (ls_cfg ls))))"

section \<open>The format of gateway.yaml\<close>

definition pair_line :: "nat \<Rightarrow> bytes \<Rightarrow> bytes \<Rightarrow> bytes" where
  "pair_line k key val = replicate k 32 @ key @ 58 # 32 # val"

definition item_line :: "nat \<Rightarrow> bytes \<Rightarrow> bytes \<Rightarrow> bytes" where
  "item_line k key val = replicate k 32 @ 45 # 32 # key @ 58 # 32 # val"

definition section_line :: "bytes \<Rightarrow> bytes" where
  "section_line name = name @ [58]"

definition upstream_lines :: "UpstreamConfig \<Rightarrow> bytes list" where
  "upstream_lines u =
     [item_line 2 (str ''host'') (uc_host u),
      pair_line 4 (str ''port'') (int_to_string (uc_port u)),
      pair_line 4 (str ''weight'') (int_to_string (uc_weight u))]"

definition config_text :: "Config \<Rightarrow> bytes list" where
  "config_text c =
     [section_line (str ''listen''),
      pair_line 2 (str ''port'') (int_to_string (cfg_listen_port c)),
      pair_line 2 (str ''threads'') (int_to_string (cfg_worker_threads c)),
      section_line (str ''health_check''),
      pair_line 2 (str ''interval'') (int_to_string (hc_interval_s (cfg_health_check c))),
      pair_line 2 (str ''timeout'') (int_to_string (hc_timeout_ms (cfg_health_check c))),
      pair_line 2 (str ''path'') (hc_path (cfg_health_check c)),
      section_line (str ''limits''),
      pair_line 2 (str ''max_connections'') (int_to_string (lc_max_connections (cfg_limits c))),
      pair_line 2 (str ''per_ip_max'') (int_to_string (lc_per_ip_max (cfg_limits c))),
      section_line (str ''upstreams'')] @
     concat (map upstream_lines (cfg_upstreams c))"

definition print_config :: "Config \<Rightarrow> bytes" where
  "print_config c = concat (map (\<lambda>l. l @ [10]) (config_text c))"

text \<open>Values that can be written: 32-bit numbers, and texts without white space.\<close>

definition plain :: "bytes \<Rightarrow> bool" where
  "plain w \<longleftrightarrow> w \<noteq> [] \<and> list_all (\<lambda>c. \<not> isspace c) w"

definition fits_int :: "int \<Rightarrow> bool" where
  "fits_int i \<longleftrightarrow> - (2 ^ 31) \<le> i \<and> i < 2 ^ 31"

definition config_ok :: "Config \<Rightarrow> bool" where
  "config_ok c \<longleftrightarrow>
     fits_int (cfg_listen_port c) \<and> fits_int (cfg_worker_threads c) \<and>
     fits_int (hc_interval_s (cfg_health_check c)) \<and> fits_int (hc_timeout_ms (cfg_health_check c)) \<and> plain (hc_path (cfg_health_check c)) \<and>
     fits_int (lc_max_connections (cfg_limits c)) \<and> fits_int (lc_per_ip_max (cfg_limits c)) \<and>
     list_all (\<lambda>u. plain (uc_host u) \<and> fits_int (uc_port u) \<and> fits_int (uc_weight u)) (cfg_upstreams c)"

section \<open>Lines\<close>

lemma isspace_32 [simp]: "isspace 32" "isspace 10" "\<not> isspace 58" "\<not> isspace 45"
  by (simp_all add: isspace_def)

lemma trim_block:
  assumes "t \<noteq> []" "\<not> isspace (hd t)" "\<not> isspace (last t)"
  shows "trim (replicate k 32 @ t) = t"
proof -
  obtain a b where t: "t = a # b" using assms(1) by (cases t) auto
  have h: "a \<noteq> 32" "a \<noteq> 9" "last t \<noteq> 13" using assms(2,3) t by (auto simp: isspace_def)
  obtain l r where r: "rev t = l # r" "l = last t" using assms(1) by (cases t rule: rev_cases) auto
  then have "dropWhile (\<lambda>c. c = 13 \<or> isspace c) (rev t @ replicate k 32) = rev t @ replicate k 32"
    unfolding r(1) using h(3) assms(3) r(2) by simp
  then have "dropWhile (\<lambda>c. c = 13 \<or> isspace c) (rev (replicate k 32 @ t)) = rev (replicate k 32 @ t)" by simp
  moreover have "dropWhile (\<lambda>c. c = 32 \<or> c = 9) (replicate k 32 @ t) = t"
    using h(1,2) by (induction k) (auto simp: t)
  ultimately show ?thesis by (simp only: trim_def rev_rev_ident)
qed

lemma plain_ends: "plain w \<Longrightarrow> w \<noteq> [] \<and> \<not> isspace (hd w) \<and> \<not> isspace (last w)"
  by (auto simp: plain_def list_all_iff)

lemma trim_plain [simp]: "plain w \<Longrightarrow> trim w = w" "plain w \<Longrightarrow> trim (32 # w) = w"
  using trim_block [of w 0] trim_block [of w 1] plain_ends [of w] by auto

lemma find_colon: "58 \<notin> set key \<Longrightarrow> find_str [58] (key @ 58 # rest) 0 = Some (length key)"
proof -
  assume "58 \<notin> set key"
  then have "find_at (starts_with [58]) (key @ 58 # rest) = Some (length key)"
    by (induction key) (auto simp: starts_with_def)
  then show ?thesis by (simp add: find_str_def)
qed

lemma split_colon_pair:
  assumes "plain key" "58 \<notin> set key" "plain val"
  shows "split_colon (key @ 58 # 32 # val) = Some (key, val)"
  using find_colon [OF assms(2)] assms by (simp add: split_colon_def)

definition is_key :: "bytes \<Rightarrow> bool" where
  "is_key key \<longleftrightarrow> plain key \<and> 58 \<notin> set key \<and> hd key \<noteq> 35 \<and> hd key \<noteq> 45"

lemma config_pair_line:
  assumes "is_key key" "plain val"
  shows "config_line (pair_line k key val) ls = config_pair key val ls"
proof -
  let ?t = "key @ 58 # 32 # val"
  have k: "plain key" "58 \<notin> set key" "hd key \<noteq> 35" "hd key \<noteq> 45" using assms(1) by (auto simp: is_key_def)
  have t: "?t \<noteq> []" "hd ?t = hd key" "last ?t = last val" using plain_ends [OF k(1)] plain_ends [OF assms(2)] by auto
  have "trim (pair_line k key val) = ?t"
    unfolding pair_line_def using plain_ends [OF k(1)] plain_ends [OF assms(2)] t by (intro trim_block) auto
  moreover have "find_str [58] ?t 0 \<noteq> Some (length ?t - 1)" using find_colon [OF k(2)] plain_ends [OF assms(2)] by auto
  ultimately show ?thesis using k t split_colon_pair [OF k(1,2) assms(2)] by (auto simp: config_line_def Let_def)
qed

lemma config_item_line:
  assumes "is_key key" "plain val"
  shows "config_line (item_line k key val) ls =
    set_current key val (ls\<lparr>ls_cfg := (ls_cfg ls)\<lparr>cfg_upstreams := cfg_upstreams (ls_cfg ls) @ [\<lparr>uc_host = [], uc_port = 0, uc_weight = 1\<rparr>]\<rparr>,
      ls_current_up := True, ls_section := str ''upstreams''\<rparr>)"
proof -
  let ?t = "45 # 32 # key @ 58 # 32 # val"
  have k: "plain key" "58 \<notin> set key" using assms(1) by (auto simp: is_key_def)
  note e = plain_ends [OF k(1)] plain_ends [OF assms(2)]
  have "trim (item_line k key val) = ?t" unfolding item_line_def using e by (intro trim_block) auto
  moreover have "find_str [58] ?t 0 \<noteq> Some (length ?t - 1)"
    using find_colon [of "45 # 32 # key" "32 # val"] k(2) e by auto
  moreover have "trim (32 # key @ 58 # 32 # val) = key @ 58 # 32 # val"
    using trim_block [of "key @ 58 # 32 # val" 1] e by simp
  ultimately show ?thesis using split_colon_pair [OF k assms(2)] by (auto simp: config_line_def config_item_def Let_def)
qed

lemma config_section_line:
  assumes "is_key name"
  shows "config_line (section_line name) ls = Inr (ls\<lparr>ls_section := name, ls_current_up := False\<rparr>)"
proof -
  have k: "plain name" "58 \<notin> set name" "hd name \<noteq> 35" using assms by (auto simp: is_key_def)
  have "trim (section_line name) = name @ [58]"
    using trim_block [of "name @ [58]" 0] plain_ends [OF k(1)] by (simp add: section_line_def)
  then show ?thesis using find_colon [OF k(2), of "[]"] k(3) plain_ends [OF k(1)] by (simp add: config_line_def)
qed

text \<open>Blank lines and comments are skipped.\<close>

lemma config_skips: "config_line (replicate k 32) ls = Inr ls" "config_line (35 # rest) ls = Inr ls"
proof -
  have "dropWhile (\<lambda>c. c = 13 \<or> isspace c) (replicate k 32) = []" by (induction k) auto
  then show "config_line (replicate k 32) ls = Inr ls" by (simp add: config_line_def trim_def)
  have "\<exists>r. rev (dropWhile (\<lambda>c. c = 13 \<or> isspace c) (rev (35 # rest))) = 35 # r"
  proof (cases "list_all (\<lambda>c. c = 13 \<or> isspace c) rest")
    case True
    then have "dropWhile (\<lambda>c. c = 13 \<or> isspace c) (rev rest @ [35]) = dropWhile (\<lambda>c. c = 13 \<or> isspace c) [35]"
      by (intro dropWhile_append2) (auto simp: list_all_iff)
    then show ?thesis by (simp add: isspace_def)
  next
    case False
    then obtain x where "x \<in> set (rev rest)" "\<not> (x = 13 \<or> isspace x)" by (auto simp: list_all_iff)
    from dropWhile_append1 [OF this(1), of "\<lambda>c. c = 13 \<or> isspace c" "[35]"] this(2) show ?thesis by auto
  qed
  then show "config_line (35 # rest) ls = Inr ls" by (auto simp: config_line_def trim_def)
qed

section \<open>Reading back\<close>

lemma plain_int: "plain (int_to_string i)"
proof -
  have "list_all (\<lambda>c. \<not> isspace c) (to_digits n)" for n
    using to_digits_digits [of n] isspace_digit by (auto simp: list_all_iff)
  then show ?thesis by (auto simp: plain_def int_to_string_def)
qed

lemma stoi_int: "fits_int i \<Longrightarrow> stoi (int_to_string i) = Inr i"
proof (cases "i < 0")
  case True
  assume f: "fits_int i"
  obtain d ds where d: "to_digits (nat (- i)) = d # ds" by (cases "to_digits (nat (- i))") auto
  have "list_all is_digit (to_digits (nat (- i)))" "digits_value (to_digits (nat (- i))) = nat (- i)"
    using to_digits_digits by auto
  then have "scan_number (45 # to_digits (nat (- i))) = Some (True, nat (- i))"
    by (simp add: scan_number_def Let_def list_all_iff takeWhile_eq_all_conv [THEN iffD2])
  then show ?thesis using True f by (simp add: stoi_def int_to_string_def fits_int_def Let_def)
next
  case False
  assume "fits_int i"
  then show ?thesis using False stoi_to_digits [of "nat i"] by (simp add: int_to_string_def fits_int_def)
qed

lemma getlines_lines:
  assumes "\<forall>l\<in>set ls. 10 \<notin> set l"
  shows "getlines [] (concat (map (\<lambda>l. l @ [10]) ls)) = ls"
proof -
  have "getlines acc (l @ 10 # rest) = (rev acc @ l) # getlines [] rest" if "10 \<notin> set l" for acc l rest
    using that by (induction l arbitrary: acc) auto
  then show ?thesis using assms by (induction ls) auto
qed

lemma keys:
  "is_key (str ''listen'')" "is_key (str ''port'')" "is_key (str ''threads'')" "is_key (str ''health_check'')"
  "is_key (str ''interval'')" "is_key (str ''timeout'')" "is_key (str ''path'')" "is_key (str ''limits'')"
  "is_key (str ''max_connections'')" "is_key (str ''per_ip_max'')" "is_key (str ''upstreams'')"
  "is_key (str ''host'')" "is_key (str ''weight'')"
  by (simp_all add: is_key_def plain_def str_def isspace_def)

lemma plain_no_newline: "plain w \<Longrightarrow> 10 \<notin> set w"
  by (auto simp: plain_def list_all_iff)

lemma config_lines_append:
  "config_lines (xs @ ys) ls = (case config_lines xs ls of Inl e \<Rightarrow> Inl e | Inr ls \<Rightarrow> config_lines ys ls)"
  by (induction xs arbitrary: ls) (auto split: sum.splits)

lemma str_eq_iff: "str a = str b \<longleftrightarrow> map of_char a = (map of_char b :: bytes)"
  by (simp add: str_def)

lemma upstream_lines_read:
  assumes "plain (uc_host u)" "fits_int (uc_port u)" "fits_int (uc_weight u)"
  shows "config_lines (upstream_lines u) ls =
    Inr (ls\<lparr>ls_cfg := (ls_cfg ls)\<lparr>cfg_upstreams := cfg_upstreams (ls_cfg ls) @ [u]\<rparr>,
      ls_current_up := True, ls_section := str ''upstreams''\<rparr>)"
  using assms
  by (simp add: upstream_lines_def config_item_line config_pair_line keys plain_int stoi_int config_pair_def set_current_def
      set_upstream_def Let_def str_eq_iff)

lemma upstreams_read:
  assumes "list_all (\<lambda>u. plain (uc_host u) \<and> fits_int (uc_port u) \<and> fits_int (uc_weight u)) us"
  shows "\<exists>cur. config_lines (concat (map upstream_lines us)) (ls\<lparr>ls_section := str ''upstreams''\<rparr>) =
    Inr (ls\<lparr>ls_cfg := (ls_cfg ls)\<lparr>cfg_upstreams := cfg_upstreams (ls_cfg ls) @ us\<rparr>, ls_section := str ''upstreams'', ls_current_up := cur\<rparr>)"
  using assms
proof (induction us arbitrary: ls)
  case Nil
  then show ?case by (intro exI [of _ "ls_current_up ls"]) simp
next
  case (Cons u us)
  then show ?case
    using Cons.IH [of "ls\<lparr>ls_cfg := (ls_cfg ls)\<lparr>cfg_upstreams := cfg_upstreams (ls_cfg ls) @ [u]\<rparr>, ls_current_up := True\<rparr>"]
    by (auto simp: config_lines_append upstream_lines_read)
qed

lemma config_text_read:
  assumes "config_ok c"
  shows "\<exists>cur. config_lines (config_text c) \<lparr>ls_cfg = Config_default, ls_section = [], ls_current_up = False\<rparr> =
    Inr \<lparr>ls_cfg = c, ls_section = str ''upstreams'', ls_current_up = cur\<rparr>"
proof -
  note ok = assms [unfolded config_ok_def]
  define head where "head = c\<lparr>cfg_upstreams := []\<rparr>"
  have head: "head = \<lparr>cfg_listen_port = cfg_listen_port c, cfg_worker_threads = cfg_worker_threads c, cfg_upstreams = [],
      cfg_health_check = \<lparr>hc_interval_s = hc_interval_s (cfg_health_check c), hc_timeout_ms = hc_timeout_ms (cfg_health_check c),
        hc_path = hc_path (cfg_health_check c)\<rparr>,
      cfg_limits = \<lparr>lc_max_connections = lc_max_connections (cfg_limits c), lc_per_ip_max = lc_per_ip_max (cfg_limits c)\<rparr>\<rparr>"
    by (simp add: head_def)
  have "config_lines (config_text c) \<lparr>ls_cfg = Config_default, ls_section = [], ls_current_up = False\<rparr> =
      config_lines (concat (map upstream_lines (cfg_upstreams c))) (\<lparr>ls_cfg = head, ls_section = [], ls_current_up = False\<rparr>\<lparr>ls_section := str ''upstreams''\<rparr>)"
    using ok by (simp add: config_text_def config_section_line config_pair_line keys plain_int stoi_int config_pair_def
        Let_def str_eq_iff head Config_default_def)
  then show ?thesis
    using upstreams_read [of "cfg_upstreams c" "\<lparr>ls_cfg = head, ls_section = [], ls_current_up = False\<rparr>"] ok
    by (auto simp: head_def)
qed

lemma Config_load_printed:
  assumes "config_ok c"
  shows "Config_load (Some (print_config c)) = Inr (Some c)"
proof -
  note ok = assms [unfolded config_ok_def]
  have "10 \<notin> set (str k)" if "is_key (str k)" for k using that plain_no_newline by (auto simp: is_key_def)
  then have "\<forall>l\<in>set (config_text c). 10 \<notin> set l"
    using ok plain_no_newline plain_no_newline [OF plain_int]
    by (auto simp: config_text_def upstream_lines_def pair_line_def item_line_def section_line_def keys list_all_iff)
  then have "getlines [] (print_config c) = config_text c" by (simp add: print_config_def getlines_lines)
  then show ?thesis using config_text_read [OF assms] by (auto simp: Config_load_def)
qed

end
