(* ===== verification/Gateway.thy ===== *)
theory Gateway
  imports Http_Parser Upstreams Net_Io Config
begin

text \<open>
  The gateway program, \<open>skynet/gateway/main.cpp\<close>: reading a request, picking an upstream,
  forwarding the request and relaying the response, and the distribution of accepted
  connections over the sub reactors. A handler is a coroutine; it is modelled as the
  function it computes on the sockets' scripts, and \<open>None\<close> is a handler that stays suspended
  on a silent peer. The load balancer is any function with the type of \<open>select\<close>; \<open>main\<close>
  passes the smooth weighted round robin. An exception that leaves a handler ends the
  process, since \<open>DetachedTask\<close> calls \<open>std::terminate\<close>.
\<close>

section \<open>Headers of a response\<close>

definition toLowerCopy :: "bytes \<Rightarrow> bytes" where
  "toLowerCopy s = map tolower s"

definition parseContentLength :: "bytes \<Rightarrow> int" where
  "parseContentLength headers =
     (let lower = toLowerCopy headers
      in case find_str (str ''content-length:'') lower 0 of
           None \<Rightarrow> - 1
         | Some pos \<Rightarrow>
             let pos = pos + length (str ''content-length:'');
                 pos = pos + length (takeWhile (\<lambda>c. c = 32 \<or> c = 9) (drop pos lower))
             in case stoi (drop pos headers) of Inl _ \<Rightarrow> - 1 | Inr n \<Rightarrow> n)"

definition headerHas :: "bytes \<Rightarrow> bytes \<Rightarrow> bool" where
  "headerHas headers_lower needle \<longleftrightarrow> find_str needle headers_lower 0 \<noteq> None"

section \<open>Reading the request\<close>

definition kMaxRequestBytes :: nat where
  "kMaxRequestBytes = 2 ^ 20"

function read_request_loop ::
  "HttpParser \<Rightarrow> bytes \<Rightarrow> read_answer list \<Rightarrow> ((std_exn + bool) \<times> bytes \<times> read_answer list) option" where
  "read_request_loop p out as =
     (if kMaxRequestBytes \<le> length out then Some (Inr False, out, as)
      else case async_read_loop 8192 as of
             None \<Rightarrow> None
           | Some (Inl _, as') \<Rightarrow> Some (Inr False, out, as')
           | Some (Inr d, as') \<Rightarrow>
               if d = [] then Some (Inr False, out, as')
               else case HttpParser_feed p d of
                      (Inl e, p') \<Rightarrow> Some (Inl e, out @ d, as')
                    | (Inr kOk, p') \<Rightarrow> Some (Inr True, out @ d, as')
                    | (Inr kError, p') \<Rightarrow> Some (Inr False, out @ d, as')
                    | (Inr kNeedMoreData, p') \<Rightarrow> read_request_loop p' (out @ d) as')"
  by pat_completeness auto

termination
proof (relation "measures [\<lambda>(p, out, as). length as, \<lambda>(p, out, as). length (incoming as)]", goal_cases)
  case (2 p out as r res as' d)
  then show ?case using async_read_loop_less [of 8192 as "Inr d" as'] by auto
qed simp

declare read_request_loop.simps [simp del]

definition readFullHttpRequest :: "Socket \<Rightarrow> ((std_exn + bool) \<times> bytes \<times> Socket) option" where
  "readFullHttpRequest s =
     (case read_request_loop HttpParser_new [] (sk_reads s) of
        None \<Rightarrow> None
      | Some (r, out, as) \<Rightarrow> Some (r, out, s\<lparr>sk_reads := as\<rparr>))"

section \<open>Relaying the response\<close>

record Relay =
  rl_buf :: bytes
  rl_headers_done :: bool
  rl_content_length :: int
  rl_chunked :: bool
  rl_event_stream :: bool
  rl_body_start :: nat
  rl_already_sent :: nat

definition Relay_new :: Relay where
  "Relay_new = \<lparr>rl_buf = [], rl_headers_done = False, rl_content_length = - 1, rl_chunked = False,
     rl_event_stream = False, rl_body_start = 0, rl_already_sent = 0\<rparr>"

definition flush_new :: "nat \<Rightarrow> bytes \<Rightarrow> Socket \<Rightarrow> (bool \<times> Socket) option" where
  "flush_new from buf client =
     (if length buf \<le> from then Some (True, client) else asyncWriteAll (drop from buf) client)"

definition relay_done :: "Relay \<Rightarrow> bool" where
  "relay_done r \<longleftrightarrow>
     (0 \<le> rl_content_length r \<and> rl_body_start r + nat (rl_content_length r) \<le> length (rl_buf r)) \<or>
     (rl_chunked r \<and> find_str (CRLF @ str ''0'' @ CRLF @ CRLF) (rl_buf r) 0 \<noteq> None)"

text \<open>What the loop returns when the backend has closed or failed.\<close>

definition relay_eof :: "Relay \<Rightarrow> bool" where
  "relay_eof r \<longleftrightarrow> (rl_headers_done r \<and> relay_done r) \<or> 0 < rl_already_sent r \<or> rl_buf r \<noteq> []"

definition relay_headers :: "nat \<Rightarrow> Relay \<Rightarrow> Relay" where
  "relay_headers he r =
     (let head = take he (rl_buf r); lower = toLowerCopy head
      in r\<lparr>rl_headers_done := True, rl_body_start := he + 4,
           rl_content_length := parseContentLength head,
           rl_chunked := headerHas lower (str ''transfer-encoding: chunked''),
           rl_event_stream := headerHas lower (str ''content-type: text/event-stream'')\<rparr>)"

definition relay_trim :: "Relay \<Rightarrow> Relay" where
  "relay_trim r =
     (if rl_event_stream r \<and> 256 * 1024 < length (rl_buf r)
      then r\<lparr>rl_buf := drop (length (rl_buf r) - 64) (rl_buf r), rl_already_sent := 64, rl_body_start := 0\<rparr>
      else r)"

text \<open>
  One piece of the response: \<open>None\<close> in the first component when the loop goes on. The pair
  inside holds the state of the loop and the socket of the client.
\<close>

definition relay_piece :: "bytes \<Rightarrow> Relay \<Rightarrow> Socket \<Rightarrow> (bool option \<times> Relay \<times> Socket) option" where
  "relay_piece d r client =
     (let r = r\<lparr>rl_buf := rl_buf r @ d\<rparr>;
          buf = rl_buf r;
          send = (\<lambda>r next. case flush_new (rl_already_sent r) buf client of
              None \<Rightarrow> None
            | Some (ok, client) \<Rightarrow>
                if \<not> ok then Some (Some False, r, client)
                else let r = r\<lparr>rl_already_sent := length buf\<rparr>
                     in if relay_done r then Some (Some True, r, client) else Some (None, next r, client))
      in if \<not> rl_headers_done r then
           case find_str (CRLF @ CRLF) buf 0 of
             None \<Rightarrow> Some (if 64 * 1024 < length buf then Some False else None, r, client)
           | Some he \<Rightarrow> send (relay_headers he r) (\<lambda>r. r)
         else send r relay_trim)"

text \<open>
  The loop. \<open>run\<close> counts the tests of \<open>g_running\<close> that still find it set; \<open>None\<close> when nobody
  stops the gateway.
\<close>

function relay_loop :: "nat option \<Rightarrow> Relay \<Rightarrow> read_answer list \<Rightarrow> Socket \<Rightarrow> (bool \<times> read_answer list \<times> Socket) option" where
  "relay_loop run r as client =
     (if run = Some 0 then
        case flush_new (rl_already_sent r) (rl_buf r) client of
          None \<Rightarrow> None
        | Some (ok, client) \<Rightarrow> Some (ok, as, client)
      else
        case async_read_loop 8192 as of
          None \<Rightarrow> None
        | Some (Inl _, as') \<Rightarrow> Some (relay_eof r, as', client)
        | Some (Inr d, as') \<Rightarrow>
            if d = [] then Some (relay_eof r, as', client)
            else case relay_piece d r client of
                   None \<Rightarrow> None
                 | Some (Some ok, _, client) \<Rightarrow> Some (ok, as', client)
                 | Some (None, r, client) \<Rightarrow> relay_loop (map_option (\<lambda>n. n - 1) run) r as' client)"
  by pat_completeness auto

termination
proof (relation "measures [\<lambda>(run, r, as, client). length as, \<lambda>(run, r, as, client). length (incoming as)]", goal_cases)
  case (2 run r as client a res as' d)
  then show ?case using async_read_loop_less [of 8192 as "Inr d" as'] by auto
qed simp

declare relay_loop.simps [simp del]

definition relayResponse :: "nat option \<Rightarrow> Socket \<Rightarrow> Socket \<Rightarrow> (bool \<times> Socket \<times> Socket) option" where
  "relayResponse run backend client =
     (case relay_loop run Relay_new (sk_reads backend) client of
        None \<Rightarrow> None
      | Some (ok, as, client) \<Rightarrow> Some (ok, backend\<lparr>sk_reads := as\<rparr>, client))"

section \<open>Handling a client\<close>

record 's GatewayState =
  gw_upstreams :: "Upstream list"
  gw_lb :: 's
  gw_inflight :: int

datatype HandlerEnd = Returned | Terminated

definition simple_response :: "string \<Rightarrow> bytes" where
  "simple_response status =
     str ''HTTP/1.1 '' @ str status @ CRLF @ str ''Content-Length: 0'' @ CRLF @ str ''Connection: close'' @ CRLF @ CRLF"

text \<open>The request that goes to the backend: a \<open>Connection\<close> field is added when there is none.\<close>

definition forward_request :: "bytes \<Rightarrow> bytes" where
  "forward_request raw =
     (case find_str (CRLF @ CRLF) raw 0 of
        None \<Rightarrow> raw
      | Some he \<Rightarrow>
          if find_str (str ''connection:'') (toLowerCopy (take he raw)) 0 = None
          then take he raw @ CRLF @ str ''Connection: close'' @ drop he raw
          else raw)"

definition add_active :: "nat \<Rightarrow> int \<Rightarrow> 's GatewayState \<Rightarrow> 's GatewayState" where
  "add_active i n gw =
     gw\<lparr>gw_upstreams := (gw_upstreams gw)[i := (gw_upstreams gw ! i)\<lparr>up_active := up_active (gw_upstreams gw ! i) + n\<rparr>]\<rparr>"

text \<open>The end of a handler: the client is closed and the guard lowers \<open>g_inflight\<close>.\<close>

definition end_handler :: "Socket \<Rightarrow> Socket option \<Rightarrow> 's GatewayState \<Rightarrow> HandlerEnd \<times> Socket \<times> Socket option \<times> 's GatewayState" where
  "end_handler client backend gw =
     (Returned, Socket_close client, backend, gw\<lparr>gw_inflight := gw_inflight gw - 1\<rparr>)"

definition answer_and_end ::
  "string \<Rightarrow> Socket \<Rightarrow> Socket option \<Rightarrow> 's GatewayState \<Rightarrow> (HandlerEnd \<times> Socket \<times> Socket option \<times> 's GatewayState) option" where
  "answer_and_end status client backend gw =
     (case asyncWriteAll (simple_response status) client of
        None \<Rightarrow> None
      | Some (_, client) \<Rightarrow> Some (end_handler client backend gw))"

definition handleClient ::
  "(Upstream list \<Rightarrow> 's \<Rightarrow> nat option \<times> 's) \<Rightarrow> (Upstream \<Rightarrow> connect_answers) \<Rightarrow> (Upstream \<Rightarrow> Socket) \<Rightarrow> nat option \<Rightarrow>
   Socket \<Rightarrow> 's GatewayState \<Rightarrow> (HandlerEnd \<times> Socket \<times> Socket option \<times> 's GatewayState) option" where
  "handleClient select conn backend_of run client gw =
     (let gw = gw\<lparr>gw_inflight := gw_inflight gw + 1\<rparr>
      in case readFullHttpRequest client of
           None \<Rightarrow> None
         | Some (Inl e, raw, client) \<Rightarrow> Some (Terminated, client, None, gw)
         | Some (Inr False, raw, client) \<Rightarrow> answer_and_end ''400 Bad Request'' client None gw
         | Some (Inr True, raw, client) \<Rightarrow>
             (case select (gw_upstreams gw) (gw_lb gw) of
                (None, lb) \<Rightarrow> answer_and_end ''503 Service Unavailable'' client None (gw\<lparr>gw_lb := lb\<rparr>)
              | (Some i, lb) \<Rightarrow>
                  let gw = add_active i 1 (gw\<lparr>gw_lb := lb\<rparr>);
                      up = gw_upstreams gw ! i
                  in case asyncConnect (conn up) of
                       None \<Rightarrow> answer_and_end ''502 Bad Gateway'' client None (add_active i (- 1) gw)
                     | Some fd \<Rightarrow>
                         (case asyncWriteAll (forward_request raw) (backend_of up) of
                            None \<Rightarrow> None
                          | Some (False, backend) \<Rightarrow>
                              answer_and_end ''502 Bad Gateway'' client (Some (Socket_close backend)) (add_active i (- 1) gw)
                          | Some (True, backend) \<Rightarrow>
                              (case relayResponse run backend client of
                                 None \<Rightarrow> None
                               | Some (_, backend, client) \<Rightarrow>
                                   Some (end_handler client (Some (Socket_close backend)) (add_active i (- 1) gw))))))"

section \<open>Reactors\<close>

text \<open>
  A sub reactor drains its queue: a connection over the limit is closed, the others start a
  handler, which raises \<open>g_inflight\<close> until it has run to its end; \<open>at_once\<close> tells which do so
  before they suspend. The result: closed connections, started ones, the two counters.
\<close>

fun drain_pending :: "('k \<Rightarrow> bool) \<Rightarrow> int \<Rightarrow> 'k list \<Rightarrow> int \<times> int \<Rightarrow> 'k list \<times> 'k list \<times> int \<times> int" where
  "drain_pending at_once max_connections [] (inflight, accepted) = ([], [], inflight, accepted)"
| "drain_pending at_once max_connections (k # ks) (inflight, accepted) =
     (if max_connections \<le> inflight
      then (case drain_pending at_once max_connections ks (inflight, accepted) of
              (closed, started, cs) \<Rightarrow> (k # closed, started, cs))
      else (case drain_pending at_once max_connections ks (if at_once k then inflight else inflight + 1, accepted + 1) of
              (closed, started, cs) \<Rightarrow> (closed, k # started, cs)))"

text \<open>The accept loop hands connection \<open>idx\<close> to reactor \<open>idx mod n\<close>; a failed accept is \<open>None\<close>.\<close>

fun accept_loop :: "nat \<Rightarrow> 'k option list \<Rightarrow> 'k list list \<Rightarrow> 'k list list" where
  "accept_loop idx [] subs = subs"
| "accept_loop idx (None # cs) subs = accept_loop idx cs subs"
| "accept_loop idx (Some k # cs) subs =
     (let i = idx mod length subs in accept_loop (idx + 1) cs (subs[i := subs ! i @ [k]]))"

text \<open>What \<open>main\<close> makes of the configuration.\<close>

definition gateway_upstreams :: "Config \<Rightarrow> Upstream list" where
  "gateway_upstreams cfg =
     map (\<lambda>u. \<lparr>up_host = uc_host u, up_port = uc_port u, up_weight = uc_weight u, up_active = 0, up_healthy = True\<rparr>)
       (cfg_upstreams cfg)"

definition gateway_threads :: "Config \<Rightarrow> nat" where
  "gateway_threads cfg = (if 0 < cfg_worker_threads cfg then nat (cfg_worker_threads cfg) else 1)"

definition gateway_start :: "Config \<Rightarrow> int list GatewayState" where
  "gateway_start cfg =
     (let ups = um_upstreams (UpstreamManager_reload (gateway_upstreams cfg) UpstreamManager_new)
      in \<lparr>gw_upstreams = ups, gw_lb = WeightedRoundRobinLB_new ups, gw_inflight = 0\<rparr>)"

section \<open>The request arrives in any pieces\<close>

lemma read_request_from:
  assumes "request_ok r" "length (print_request r) \<le> kMaxRequestBytes"
    "HttpParser_feed HttpParser_new x = (Inr kNeedMoreData, p)" "x @ incoming as = print_request r" "no_failures as"
  shows "\<exists>as'. read_request_loop p x as = Some (Inr True, print_request r, as') \<and> incoming as' = []"
  using assms(3-5)
proof (induction "length (incoming as)" arbitrary: p x as rule: less_induct)
  case less
  let ?S = "print_request r"
  have full: "\<exists>q. HttpParser_feed HttpParser_new ?S = (Inr kOk, q)" using feed_printed [OF assms(1)] by blast
  then have ne: "incoming as \<noteq> []" using less.prems(1,2) by auto
  have "length x + length (incoming as) = length ?S" using less.prems(2) by (metis length_append)
  moreover have "0 < length (incoming as)" using ne by simp
  ultimately have small: "length x < kMaxRequestBytes" using assms(2) by linarith
  obtain d as' where d: "async_read_loop 8192 as = Some (Inr d, as')" "d \<noteq> []" "no_failures as'" "incoming as = d @ incoming as'"
    using async_read_loop_delivers [OF less.prems(3) ne, of 8192] by auto
  obtain res p' where f: "HttpParser_feed p d = (res, p')" by fastforce
  have agree: "runs_agree (HttpParser_feed HttpParser_new (x @ d)) (res, p')" using feed_pieces [OF less.prems(1), of d] f by simp
  have S: "(x @ d) @ incoming as' = ?S" using less.prems(2) d(4) by simp
  show ?case
  proof (cases "incoming as' = []")
    case True
    then have "res = Inr kOk" using full S agree by (auto simp: runs_agree_def)
    then show ?thesis using small d(1,2) f S True by (subst read_request_loop.simps) simp
  next
    case False
    have "take (length (x @ d)) ?S = x @ d" using S by (metis append_eq_conv_conj)
    moreover have "0 < length (incoming as')" using False by simp
    then have "length (x @ d) < length ?S" using arg_cong [OF S, of length] unfolding length_append by linarith
    ultimately have "fst (HttpParser_feed HttpParser_new (x @ d)) = Inr kNeedMoreData" using feed_part [OF assms(1), of "length (x @ d)"] by simp
    then have n: "res = Inr kNeedMoreData" "HttpParser_feed HttpParser_new (x @ d) = (Inr kNeedMoreData, p')"
      using agree by (auto simp: runs_agree_def prod_eq_iff)
    have "length (incoming as') < length (incoming as)" using d(2,4) by simp
    from less.hyps [OF this n(2) S d(3)] show ?thesis using small d(1,2) f n(1) by (subst read_request_loop.simps) simp
  qed
qed

lemma readFullHttpRequest_printed:
  assumes "request_ok r" "length (print_request r) \<le> kMaxRequestBytes" "incoming (sk_reads s) = print_request r" "no_failures (sk_reads s)"
  shows "\<exists>as. readFullHttpRequest s = Some (Inr True, print_request r, s\<lparr>sk_reads := as\<rparr>) \<and> incoming as = []"
proof -
  have "HttpParser_feed HttpParser_new [] = (Inr kNeedMoreData, HttpParser_new)"
    by (simp add: HttpParser_feed_def feed_loop.simps HttpParser_new_def erase_read_def)
  from read_request_from [OF assms(1,2) this, of "sk_reads s"] assms(3,4)
  show ?thesis by (auto simp: readFullHttpRequest_def)
qed

section \<open>The response is relayed unchanged\<close>

text \<open>
  The invariant of the relay loop for the bytes \<open>got\<close> read so far: the buffer is their end,
  and what lies in it before \<open>already_sent\<close> is what was written last. Before the end of the
  header nothing is written; behind it everything is.
\<close>

definition relay_inv :: "bytes \<Rightarrow> Relay \<Rightarrow> bytes \<Rightarrow> bool" where
  "relay_inv got r sent \<longleftrightarrow>
     (if rl_headers_done r then rl_already_sent r = length (rl_buf r) \<and> sent = got \<and> (\<exists>x. got = x @ rl_buf r)
      else rl_already_sent r = 0 \<and> sent = [] \<and> rl_buf r = got \<and> find_str (CRLF @ CRLF) got 0 = None)"

lemma flush_new_bytes:
  assumes "flush_new from buf client = Some (ok, client')"
  shows "\<exists>n. sk_written client' = sk_written client @ take n (drop from buf)"
    and "ok \<Longrightarrow> sk_written client' = sk_written client @ drop from buf"
    and "sk_closed client' = sk_closed client"
  using assms asyncWriteAll_bytes [of "drop from buf" client ok client']
  by (auto simp: flush_new_def split: if_splits)

lemma relay_send:
  assumes "rl_already_sent r = (if rl_headers_done r0 then length (rl_buf r0) else 0)" "relay_inv got r0 sent"
    "flush_new (rl_already_sent r) (rl_buf r0 @ d) client = Some (ok, client')" "sk_written client = base @ sent"
  shows "\<exists>sent'. sk_written client' = base @ sent' \<and> (\<exists>y. got @ d = sent' @ y) \<and> (ok \<longrightarrow> sent' = got @ d)"
proof -
  define z where "z = drop (rl_already_sent r) (rl_buf r0 @ d)"
  have new: "sent @ z = got @ d"
    using assms(1,2) by (auto simp: relay_inv_def z_def split: if_splits)
  obtain n where n: "sk_written client' = sk_written client @ take n z" "ok \<Longrightarrow> sk_written client' = sk_written client @ z"
    using flush_new_bytes [OF assms(3)] unfolding z_def by blast
  have "got @ d = (sent @ take n z) @ drop n z" using new by simp
  moreover have "sk_written client' = base @ (sent @ take n z)" using n(1) assms(4) by simp
  moreover have "ok \<Longrightarrow> sent @ take n z = got @ d" using n new by simp
  ultimately show ?thesis by blast
qed

lemma relay_piece_inv:
  assumes "relay_piece d r client = Some (res, r', client')" "relay_inv got r sent" "sk_written client = base @ sent"
  shows "\<exists>sent'. sk_written client' = base @ sent' \<and> (\<exists>y. got @ d = sent' @ y) \<and>
    (res = None \<longrightarrow> relay_inv (got @ d) r' sent') \<and> (res = Some True \<longrightarrow> sent' = got @ d)"
proof (cases "rl_headers_done r")
  case True
  let ?r = "r\<lparr>rl_buf := rl_buf r @ d\<rparr>"
  obtain ok cl where f: "flush_new (rl_already_sent ?r) (rl_buf r @ d) client = Some (ok, cl)"
    using assms(1) True by (auto simp: relay_piece_def Let_def split: option.splits)
  have already: "rl_already_sent ?r = (if rl_headers_done r then length (rl_buf r) else 0)"
    using True assms(2) by (simp add: relay_inv_def)
  obtain sent' where s: "sk_written cl = base @ sent'" "\<exists>y. got @ d = sent' @ y" "ok \<Longrightarrow> sent' = got @ d"
    using relay_send [OF already assms(2) f assms(3)] by blast
  obtain x where x: "got = x @ rl_buf r" using assms(2) True by (auto simp: relay_inv_def)
  have trim: "relay_inv (got @ d) (relay_trim (?r\<lparr>rl_already_sent := length (rl_buf r @ d)\<rparr>)) (got @ d)"
  proof -
    let ?b = "rl_buf r @ d"
    have "got @ d = (x @ take (length ?b - 64) ?b) @ drop (length ?b - 64) ?b"
      unfolding append.assoc append_take_drop_id using x by simp
    then have "\<exists>z. got @ d = z @ drop (length ?b - 64) ?b" by blast
    then show ?thesis using True x by (auto simp: relay_inv_def relay_trim_def simp del: drop_append)
  qed
  let ?r1 = "?r\<lparr>rl_already_sent := length (rl_buf r @ d)\<rparr>"
  have "relay_piece d r client =
      (if \<not> ok then Some (Some False, ?r, cl) else if relay_done ?r1 then Some (Some True, ?r1, cl) else Some (None, relay_trim ?r1, cl))"
    using True f by (simp add: relay_piece_def Let_def)
  then consider "\<not> ok" "res = Some False" "client' = cl" | "ok" "res = Some True" "client' = cl"
    | "ok" "res = None" "client' = cl" "r' = relay_trim ?r1"
    using assms(1) by (auto split: if_splits)
  then show ?thesis using s trim by cases (intro exI [of _ sent'], simp)+
next
  case False
  then have g: "rl_buf r = got" "sent = []" "rl_already_sent r = 0" using assms(2) by (auto simp: relay_inv_def)
  show ?thesis
  proof (cases "find_str (CRLF @ CRLF) (got @ d) 0")
    case None
    then show ?thesis using assms False g by (auto simp: relay_piece_def Let_def relay_inv_def split: if_splits)
  next
    case (Some he)
    let ?r = "relay_headers he (r\<lparr>rl_buf := got @ d\<rparr>)"
    have r: "rl_already_sent ?r = (if rl_headers_done r then length (rl_buf r) else 0)" "rl_headers_done ?r" "rl_buf ?r = got @ d"
      using False g by (simp_all add: relay_headers_def Let_def)
    obtain ok cl where f: "flush_new (rl_already_sent ?r) (rl_buf r @ d) client = Some (ok, cl)"
      using assms(1) False Some g by (auto simp: relay_piece_def Let_def split: option.splits)
    obtain sent' where s: "sk_written cl = base @ sent'" "\<exists>y. got @ d = sent' @ y" "ok \<Longrightarrow> sent' = got @ d"
      using relay_send [OF r(1) assms(2) f assms(3)] by blast
    let ?r1 = "?r\<lparr>rl_already_sent := length (got @ d)\<rparr>"
    have i: "relay_inv (got @ d) ?r1 (got @ d)" using r by (simp add: relay_inv_def)
    have "relay_piece d r client =
        (if \<not> ok then Some (Some False, ?r, cl) else if relay_done ?r1 then Some (Some True, ?r1, cl) else Some (None, ?r1, cl))"
      using False Some f g by (simp add: relay_piece_def Let_def)
    then consider "\<not> ok" "res = Some False" "client' = cl" | "ok" "res = Some True" "client' = cl"
      | "ok" "res = None" "client' = cl" "r' = ?r1"
      using assms(1) by (auto split: if_splits)
    then show ?thesis using s i by cases (intro exI [of _ sent'], simp)+
  qed
qed

text \<open>With a client that takes every byte, the loop gives up only on a header that does not end.\<close>

lemma flush_new_ok:
  assumes "flush_new from buf client = Some (ok, client')" "never_fails (sk_writes client)"
  shows "ok \<and> never_fails (sk_writes client')"
proof (cases "length buf \<le> from")
  case True
  then show ?thesis using assms by (simp add: flush_new_def)
next
  case False
  then obtain out ws where w: "async_write_loop (sk_written client) (drop from buf) (sk_writes client) = Some (ok, out, ws)" "sk_writes client' = ws"
    using assms(1) by (auto simp: flush_new_def asyncWriteAll_def split: option.splits)
  show ?thesis using async_write_loop_ok [OF assms(2) w(1)] w(2) by simp
qed

lemma relay_piece_ok:
  assumes "relay_piece d r client = Some (res, r', client')" "never_fails (sk_writes client)" "relay_inv got r sent"
  shows "never_fails (sk_writes client') \<and> (res = Some False \<longrightarrow> find_str (CRLF @ CRLF) (got @ d) 0 = None)"
  using assms flush_new_ok [OF _ assms(2)]
  by (auto simp: relay_piece_def Let_def relay_inv_def split: if_splits option.splits prod.splits; blast)

lemma relay_loop_bytes:
  assumes "relay_loop run r as client = Some (ok, as', client')" "relay_inv got r sent" "sk_written client = base @ sent"
  shows "\<exists>sent' D y. incoming as = D @ incoming as' \<and> sk_written client' = base @ sent' \<and> got @ D = sent' @ y \<and>
    ((ok \<or> never_fails (sk_writes client)) \<and> find_str (CRLF @ CRLF) (got @ D) 0 \<noteq> None \<longrightarrow> y = [])"
  using assms
proof (induction run r as client arbitrary: got sent rule: relay_loop.induct)
  case (1 run r as client)
  show ?case
  proof (cases "run = Some 0")
    case True
    obtain cl where f: "flush_new (rl_already_sent r) (rl_buf r @ []) client = Some (ok, cl)" "cl = client'" "as' = as"
      using 1(2) True by (subst (asm) relay_loop.simps) (auto split: option.splits)
    have a: "rl_already_sent r = (if rl_headers_done r then length (rl_buf r) else 0)"
      using 1(3) by (auto simp: relay_inv_def split: if_splits)
    obtain s2 y where "sk_written client' = base @ s2" "got = s2 @ y" "ok \<or> never_fails (sk_writes client) \<longrightarrow> s2 = got"
      using relay_send [OF a 1(3) f(1) 1(4)] f(2) flush_new_ok [OF f(1)] by auto
    then show ?thesis using f(3) by (intro exI [of _ s2] exI [of _ "[]"] exI [of _ y]) auto
  next
    case False
    obtain res as1 where x: "async_read_loop 8192 as = Some (res, as1)"
      using 1(2) False by (subst (asm) relay_loop.simps) (auto split: option.splits)
    have inc: "incoming as = (case res of Inr d \<Rightarrow> d | Inl _ \<Rightarrow> []) @ incoming as1" by (rule async_read_loop_bytes [OF x])
    show ?thesis
    proof (cases "\<exists>d. res = Inr d \<and> d \<noteq> []")
      case False
      then have "as' = as1" "client' = client" "(case res of Inr d \<Rightarrow> d | Inl _ \<Rightarrow> []) = []"
        using 1(2) \<open>run \<noteq> Some 0\<close> x by (subst (asm) relay_loop.simps, auto split: sum.splits)+
      moreover have "got = sent @ (if rl_headers_done r then [] else got)" using 1(3) by (auto simp: relay_inv_def)
      ultimately show ?thesis using inc 1(3,4)
        by (intro exI [of _ sent] exI [of _ "[]"] exI [of _ "if rl_headers_done r then [] else got"]) (auto simp: relay_inv_def)
    next
      case True
      then obtain d where d: "res = Inr d" "d \<noteq> []" by blast
      obtain res2 r2 cl2 where p: "relay_piece d r client = Some (res2, r2, cl2)"
        using 1(2) False x d by (subst (asm) relay_loop.simps) (auto split: option.splits)
      obtain sent' where s: "sk_written cl2 = base @ sent'" "\<exists>y. got @ d = sent' @ y"
        "res2 = None \<Longrightarrow> relay_inv (got @ d) r2 sent'" "res2 = Some True \<Longrightarrow> sent' = got @ d"
        using relay_piece_inv [OF p 1(3,4)] by blast
      show ?thesis
      proof (cases res2)
        case None
        have l: "relay_loop (map_option (\<lambda>n. n - 1) run) r2 as1 cl2 = Some (ok, as', client')"
          using 1(2) False x d p None by (subst (asm) relay_loop.simps) auto
        then obtain s2 D y where "incoming as1 = D @ incoming as'" "sk_written client' = base @ s2" "(got @ d) @ D = s2 @ y"
          "(ok \<or> never_fails (sk_writes cl2)) \<and> find_str (CRLF @ CRLF) ((got @ d) @ D) 0 \<noteq> None \<longrightarrow> y = []"
          using 1(1) [OF False x refl d(1,2) p refl None refl l s(3) [OF None] s(1)] by blast
        then show ?thesis using inc d relay_piece_ok [OF p _ 1(3)] by (intro exI [of _ s2] exI [of _ "d @ D"] exI [of _ y]) auto
      next
        case (Some b)
        have "ok = b" "as' = as1" "client' = cl2" using 1(2) False x d p Some by (subst (asm) relay_loop.simps, auto)+
        moreover obtain y where "got @ d = sent' @ y" using s(2) by blast
        ultimately show ?thesis using inc d s(1,4) Some relay_piece_ok [OF p _ 1(3)] by (intro exI [of _ sent'] exI [of _ d] exI [of _ y]) auto
      qed
    qed
  qed
qed

lemma relay_loop_closed: "relay_loop run r as client = Some (ok, as', client') \<Longrightarrow> sk_closed client' = sk_closed client"
proof (induction run r as client rule: relay_loop.induct)
  case (1 run r as client)
  have piece: "sk_closed cl = sk_closed client" if "relay_piece d r client = Some (x, r', cl)" for d x r' cl
    using that flush_new_bytes(3)
    by (auto simp: relay_piece_def Let_def split: if_splits option.splits prod.splits)
  show ?case using 1 piece
    by (subst (asm) (2) relay_loop.simps)
      (auto dest: flush_new_bytes(3) split: if_splits option.splits prod.splits sum.splits)
qed

lemma relayResponse_bytes:
  assumes "relayResponse run backend client = Some (ok, backend', client')"
  shows "\<exists>sent D rest. incoming (sk_reads backend) = D @ incoming (sk_reads backend') \<and>
    sk_written client' = sk_written client @ sent \<and> D = sent @ rest \<and>
    ((ok \<or> never_fails (sk_writes client)) \<and> find_str (CRLF @ CRLF) D 0 \<noteq> None \<longrightarrow> rest = [])"
proof -
  have "relay_inv [] Relay_new []" by (simp add: relay_inv_def Relay_new_def find_str_def starts_with_def CRLF_def)
  moreover obtain as where "relay_loop run Relay_new (sk_reads backend) client = Some (ok, as, client')" "backend' = backend\<lparr>sk_reads := as\<rparr>"
    using assms by (auto simp: relayResponse_def split: option.splits)
  ultimately show ?thesis using relay_loop_bytes [of run Relay_new "sk_reads backend" client ok as client' "[]" "[]" "sk_written client"] by auto
qed

section \<open>A handler leaves the counters as it found them\<close>

lemma add_active_back: "add_active i (- 1) (add_active i 1 gw) = gw"
proof (cases "i < length (gw_upstreams gw)")
  case True
  then show ?thesis by (simp add: add_active_def)
next
  case False
  then show ?thesis by (simp add: add_active_def list_update_beyond)
qed

lemma answer_and_end_effect:
  assumes "answer_and_end status client backend gw = Some (e, client', backend', gw')"
  shows "e = Returned \<and> sk_closed client' \<and> backend' = backend \<and> gw' = gw\<lparr>gw_inflight := gw_inflight gw - 1\<rparr>"
  using assms by (auto simp: answer_and_end_def end_handler_def Socket_close_def split: option.splits)

lemma handleClient_balanced:
  assumes "handleClient select conn backend_of run client gw = Some (Returned, client', backend', gw')"
  shows "gw_inflight gw' = gw_inflight gw \<and> gw_upstreams gw' = gw_upstreams gw \<and> sk_closed client' \<and>
    (case backend' of None \<Rightarrow> True | Some b \<Rightarrow> sk_closed b)"
proof -
  let ?gw = "gw\<lparr>gw_inflight := gw_inflight gw + 1\<rparr>"
  obtain res raw cl where r: "readFullHttpRequest client = Some (res, raw, cl)" "res = Inr True \<or> res = Inr False"
    using assms by (auto simp: handleClient_def Let_def split: option.splits sum.splits bool.splits)
  show ?thesis
  proof (cases "res = Inr True")
    case False
    then show ?thesis using assms r answer_and_end_effect by (fastforce simp: handleClient_def Let_def)
  next
    case True
    note r = r(1) [unfolded True]
    obtain pick lb where s: "select (gw_upstreams gw) (gw_lb gw) = (pick, lb)" by fastforce
    show ?thesis
    proof (cases pick)
      case None
      then show ?thesis using assms r s answer_and_end_effect by (fastforce simp: handleClient_def Let_def)
    next
      case (Some i)
      let ?g = "add_active i 1 (?gw\<lparr>gw_lb := lb\<rparr>)"
      let ?up = "gw_upstreams ?g ! i"
      have undo: "add_active i (- 1) ?g = ?gw\<lparr>gw_lb := lb\<rparr>" by (rule add_active_back)
      have h: "handleClient select conn backend_of run client gw =
          (case asyncConnect (conn ?up) of
             None \<Rightarrow> answer_and_end ''502 Bad Gateway'' cl None (?gw\<lparr>gw_lb := lb\<rparr>)
           | Some fd \<Rightarrow>
               (case asyncWriteAll (forward_request raw) (backend_of ?up) of
                  None \<Rightarrow> None
                | Some (False, backend) \<Rightarrow> answer_and_end ''502 Bad Gateway'' cl (Some (Socket_close backend)) (?gw\<lparr>gw_lb := lb\<rparr>)
                | Some (True, backend) \<Rightarrow>
                    (case relayResponse run backend cl of
                       None \<Rightarrow> None
                     | Some (_, backend, client) \<Rightarrow> Some (end_handler client (Some (Socket_close backend)) (?gw\<lparr>gw_lb := lb\<rparr>)))))"
        using r s Some by (simp add: handleClient_def Let_def undo split: option.split prod.split bool.split)
      show ?thesis using assms unfolding h
        by (auto simp: end_handler_def Socket_close_def dest!: answer_and_end_effect
            split: option.splits prod.splits bool.splits)
    qed
  qed
qed

section \<open>Handlers finish\<close>

text \<open>
  A peer that closes or fails at some point, and the number of answers in a script of writes
  that move a writer on: each takes a byte at least or ends the writing.
\<close>

definition ends :: "read_answer list \<Rightarrow> bool" where
  "ends as \<longleftrightarrow> REof \<in> set as \<or> RError \<in> set as"

definition answers :: "write_answer list \<Rightarrow> nat" where
  "answers ws = length (filter (\<lambda>w. w \<noteq> WEintr \<and> w \<noteq> WEagain) ws)"

lemma async_read_loop_returns:
  "ends as \<Longrightarrow> 0 < len \<Longrightarrow> \<exists>r as'. async_read_loop len as = Some (r, as') \<and> (\<forall>d. r = Inr d \<and> d \<noteq> [] \<longrightarrow> ends as')"
  by (induction len as rule: async_read_loop.induct) (auto simp: ends_def)

lemma async_write_loop_returns:
  "length dat \<le> answers ws \<Longrightarrow>
    \<exists>ok out' ws'. async_write_loop out dat ws = Some (ok, out', ws') \<and> answers ws \<le> answers ws' + length dat"
proof (induction out dat ws rule: async_write_loop.induct)
  case (3 out b bs n ws)
  show ?case
  proof (cases n)
    case 0
    then show ?thesis by (auto simp: answers_def)
  next
    case (Suc m)
    then have "length (drop n (b # bs)) \<le> answers ws" using 3(2) by (simp add: answers_def)
    from 3(1) [OF _ this] Suc show ?thesis by (auto simp: answers_def)
  qed
qed (auto simp: answers_def)

lemma asyncWriteAll_returns:
  assumes "length dat \<le> answers (sk_writes s)"
  shows "\<exists>ok s'. asyncWriteAll dat s = Some (ok, s') \<and> answers (sk_writes s) \<le> answers (sk_writes s') + length dat"
  using async_write_loop_returns [OF assms, of "sk_written s"] by (auto simp: asyncWriteAll_def)

lemma read_request_returns:
  "ends as \<Longrightarrow> \<exists>r out' as'. read_request_loop p out as = Some (r, out', as') \<and> length out' \<le> length out + length (incoming as)"
proof (induction p out as rule: read_request_loop.induct)
  case (1 p out as)
  obtain r as' where r: "async_read_loop 8192 as = Some (r, as')" "\<forall>d. r = Inr d \<and> d \<noteq> [] \<longrightarrow> ends as'"
    using async_read_loop_returns [OF 1(2), of 8192] by auto
  note b = async_read_loop_bytes [OF r(1)]
  show ?case
  proof (cases "kMaxRequestBytes \<le> length out \<or> (\<forall>d. r \<noteq> Inr d) \<or> r = Inr []")
    case True
    then show ?thesis using r(1) by (subst read_request_loop.simps) (auto split: sum.split)
  next
    case False
    then obtain d where d: "r = Inr d" "d \<noteq> []" by auto
    obtain res p' where f: "HttpParser_feed p d = (res, p')" by fastforce
    show ?thesis
    proof (cases "res = Inr kNeedMoreData")
      case True
      with 1(1) [OF _ r(1) _ d(1,2)] f False d r(2) show ?thesis
        using b r(1) by (subst read_request_loop.simps) (auto simp: add.assoc)
    next
      case no: False
      then show ?thesis using f False d b r(1)
        by (subst read_request_loop.simps) (auto split: sum.split ParseResult.split)
    qed
  qed
qed

definition unsent :: "Relay \<Rightarrow> nat" where
  "unsent r = length (rl_buf r) - rl_already_sent r"

lemma flush_new_returns:
  assumes "length buf - from \<le> answers (sk_writes client)"
  shows "\<exists>ok client'. flush_new from buf client = Some (ok, client') \<and>
    answers (sk_writes client) \<le> answers (sk_writes client') + (length buf - from)"
  using asyncWriteAll_returns [of "drop from buf" client] assms by (auto simp: flush_new_def)

lemma relay_piece_returns:
  assumes "unsent r + length d \<le> answers (sk_writes client)"
  shows "\<exists>res r' client'. relay_piece d r client = Some (res, r', client') \<and>
    (res = None \<longrightarrow> answers (sk_writes client) + unsent r' \<le> answers (sk_writes client') + unsent r + length d)"
proof -
  have "length (rl_buf r @ d) - rl_already_sent r \<le> unsent r + length d" by (simp add: unsent_def)
  with assms flush_new_returns [of "rl_buf r @ d" "rl_already_sent r" client] obtain ok client' where
    f: "flush_new (rl_already_sent r) (rl_buf r @ d) client = Some (ok, client')"
    "answers (sk_writes client) \<le> answers (sk_writes client') + unsent r + length d" by fastforce
  have h: "rl_already_sent (relay_headers he q) = rl_already_sent q" "rl_buf (relay_headers he q) = rl_buf q" for he q
    by (simp_all add: relay_headers_def Let_def)
  have t: "rl_already_sent q = length (rl_buf q) \<Longrightarrow> unsent (relay_trim q) = 0" for q
    by (simp add: relay_trim_def unsent_def)
  show ?thesis using f
    by (auto simp: relay_piece_def Let_def h t split: option.split) (auto simp: unsent_def h)
qed

lemma relay_loop_returns:
  "ends as \<Longrightarrow> unsent r + length (incoming as) \<le> answers (sk_writes client) \<Longrightarrow> \<exists>res. relay_loop run r as client = Some res"
proof (induction run r as client rule: relay_loop.induct)
  case (1 run r as client)
  obtain a as' where a: "async_read_loop 8192 as = Some (a, as')" "\<forall>d. a = Inr d \<and> d \<noteq> [] \<longrightarrow> ends as'"
    using async_read_loop_returns [OF 1(2), of 8192] by auto
  note b = async_read_loop_bytes [OF a(1)]
  have "length (rl_buf r) - rl_already_sent r \<le> answers (sk_writes client)" using 1(3) by (simp add: unsent_def)
  note fl = flush_new_returns [OF this]
  show ?case
  proof (cases "run = Some 0 \<or> (\<forall>d. a \<noteq> Inr d) \<or> a = Inr []")
    case True
    then show ?thesis using a(1) fl by (subst relay_loop.simps) (auto split: sum.split)
  next
    case False
    then obtain d where d: "a = Inr d" "d \<noteq> []" by auto
    have "unsent r + length d \<le> answers (sk_writes client)" using 1(3) b d by simp
    from relay_piece_returns [OF this] obtain res r' client' where p: "relay_piece d r client = Some (res, r', client')"
      "res = None \<Longrightarrow> answers (sk_writes client) + unsent r' \<le> answers (sk_writes client') + unsent r + length d" by blast
    show ?thesis
    proof (cases res)
      case None
      have "unsent r' + length (incoming as') \<le> answers (sk_writes client')" using p(2) [OF None] 1(3) b d by simp
      with 1(1) [OF _ a(1) _ d(1,2) p(1)] None False d a p(1) show ?thesis by (subst relay_loop.simps) auto
    next
      case (Some ok)
      then show ?thesis using False d a(1) p(1) by (subst relay_loop.simps) auto
    qed
  qed
qed

lemma forward_request_length: "length (forward_request raw) \<le> length raw + 19"
  by (auto simp: forward_request_def CRLF_def str_def split: option.split)

lemma simple_response_short:
  "status \<in> {''400 Bad Request'', ''503 Service Unavailable'', ''502 Bad Gateway''} \<Longrightarrow> length (simple_response status) \<le> 100"
  by (auto simp: simple_response_def str_def CRLF_def)

lemma answer_and_end_returns:
  "status \<in> {''400 Bad Request'', ''503 Service Unavailable'', ''502 Bad Gateway''} \<Longrightarrow> 100 \<le> answers (sk_writes client) \<Longrightarrow>
    \<exists>res. answer_and_end status client b gw = Some res"
  using asyncWriteAll_returns [of "simple_response status" client] simple_response_short [of status]
  by (fastforce simp: answer_and_end_def)

text \<open>
  The handler is done when the peers are: the client and the backends close or fail at some
  point, and the kernel keeps taking bytes. This holds for every balancer.
\<close>

lemma handleClient_returns:
  assumes "ends (sk_reads client)" "100 \<le> answers (sk_writes client)"
    "\<And>u. ends (sk_reads (backend_of u))" "\<And>u. length (incoming (sk_reads client)) + 19 \<le> answers (sk_writes (backend_of u))"
    "\<And>u. length (incoming (sk_reads (backend_of u))) \<le> answers (sk_writes client)"
  shows "\<exists>res. handleClient select conn backend_of run client gw = Some res"
proof -
  obtain r raw as where r: "readFullHttpRequest client = Some (r, raw, client\<lparr>sk_reads := as\<rparr>)"
    "length raw \<le> length (incoming (sk_reads client))"
    using read_request_returns [OF assms(1), of HttpParser_new "[]"] by (auto simp: readFullHttpRequest_def)
  have ans: "\<exists>res. answer_and_end status (client\<lparr>sk_reads := as\<rparr>) b gw = Some res"
    if "status \<in> {''400 Bad Request'', ''503 Service Unavailable'', ''502 Bad Gateway''}" for status b gw
    using answer_and_end_returns [OF that, of "client\<lparr>sk_reads := as\<rparr>"] assms(2) by simp
  have send: "\<exists>ok b. asyncWriteAll (forward_request raw) (backend_of u) = Some (ok, b) \<and> sk_reads b = sk_reads (backend_of u)" for u
  proof -
    have "length (forward_request raw) \<le> answers (sk_writes (backend_of u))"
      using forward_request_length [of raw] r(2) assms(4) [of u] by linarith
    from asyncWriteAll_returns [OF this] show ?thesis using asyncWriteAll_bytes(3) by blast
  qed
  have relay: "\<exists>res. relayResponse run b (client\<lparr>sk_reads := as\<rparr>) = Some res" if "sk_reads b = sk_reads (backend_of u)" for b u
    using relay_loop_returns [OF assms(3), of Relay_new u "client\<lparr>sk_reads := as\<rparr>" run] assms(5) [of u] that
    by (auto simp: relayResponse_def unsent_def Relay_new_def)
  define g where "g = gw\<lparr>gw_inflight := gw_inflight gw + 1\<rparr>"
  obtain pick lb where s: "select (gw_upstreams g) (gw_lb g) = (pick, lb)" by fastforce
  consider e where "r = Inl e" | "r = Inr False" | "r = Inr True" "pick = None" | i where "r = Inr True" "pick = Some i"
    by (cases r; cases pick) auto
  then show ?thesis
  proof cases
    case (4 i)
    let ?g = "add_active i 1 (g\<lparr>gw_lb := lb\<rparr>)"
    obtain ok b where w: "asyncWriteAll (forward_request raw) (backend_of (gw_upstreams ?g ! i)) = Some (ok, b)"
      "sk_reads b = sk_reads (backend_of (gw_upstreams ?g ! i))" using send by blast
    obtain ok' b' c' where "relayResponse run b (client\<lparr>sk_reads := as\<rparr>) = Some (ok', b', c')" using relay [OF w(2)] by auto
    then show ?thesis using r(1) s 4 w(1) ans [of "''502 Bad Gateway''"]
      by (cases "asyncConnect (conn (gw_upstreams ?g ! i))"; cases ok)
        (simp_all add: handleClient_def Let_def end_handler_def g_def [symmetric])
  qed (use r(1) s ans [of "''400 Bad Request''"] ans [of "''503 Service Unavailable''"] in \<open>auto simp: handleClient_def Let_def g_def [symmetric]\<close>)
qed

section \<open>A request through the gateway\<close>

context load_balancer
begin

text \<open>
  For every policy that keeps the contract: a request that arrives in any pieces goes to a
  healthy upstream, and what the backend answers goes to the client.
\<close>

lemma handler_forwards:
  assumes "request_ok r" "length (print_request r) \<le> kMaxRequestBytes"
    "incoming (sk_reads client) = print_request r" "no_failures (sk_reads client)"
    "inv (gw_upstreams gw) (gw_lb gw)" "handleClient select conn backend_of run client gw = Some (Returned, client', Some b, gw')"
    "\<And>u. never_fails (sk_writes (backend_of u))"
  shows "\<exists>i<length (gw_upstreams gw). up_healthy (gw_upstreams gw ! i) \<and>
    (let u = gw_upstreams gw ! i; backend = backend_of (u\<lparr>up_active := up_active u + 1\<rparr>)
     in sk_written b = sk_written backend @ forward_request (print_request r) \<and>
        (\<exists>D sent rest. incoming (sk_reads backend) = D @ incoming (sk_reads b) \<and> D = sent @ rest \<and>
           sk_written client' = sk_written client @ sent \<and>
           (never_fails (sk_writes client) \<and> find_str (CRLF @ CRLF) D 0 \<noteq> None \<longrightarrow> rest = [])))"
proof -
  let ?gw = "gw\<lparr>gw_inflight := gw_inflight gw + 1\<rparr>"
  obtain as where r: "readFullHttpRequest client = Some (Inr True, print_request r, client\<lparr>sk_reads := as\<rparr>)"
    using readFullHttpRequest_printed [OF assms(1-4)] by blast
  obtain pick lb where s: "select (gw_upstreams gw) (gw_lb gw) = (pick, lb)" by fastforce
  have "pick \<noteq> None"
    using assms(6) r s by (cases pick) (auto simp: handleClient_def Let_def dest!: answer_and_end_effect)
  then obtain i where i: "pick = Some i" by auto
  have h: "i < length (gw_upstreams gw)" "up_healthy (gw_upstreams gw ! i)" using select_healthy [OF assms(5)] s i by auto
  define u where "u = gw_upstreams gw ! i"
  define backend where "backend = backend_of (u\<lparr>up_active := up_active u + 1\<rparr>)"
  have up: "gw_upstreams (add_active i 1 (?gw\<lparr>gw_lb := lb\<rparr>)) ! i = u\<lparr>up_active := up_active u + 1\<rparr>"
    using h(1) by (simp add: add_active_def u_def)
  obtain ok b1 where w: "asyncWriteAll (forward_request (print_request r)) backend = Some (ok, b1)"
    using assms(6) r s i up
    by (auto simp: handleClient_def Let_def backend_def dest!: answer_and_end_effect split: option.splits)
  have ok: "ok" "sk_written b1 = sk_written backend @ forward_request (print_request r)" "sk_reads b1 = sk_reads backend"
  proof -
    show "ok" using flush_new_ok [of 0 "forward_request (print_request r)" backend ok b1] w assms(7)
      by (cases "forward_request (print_request r) = []") (auto simp: flush_new_def backend_def asyncWriteAll_def)
    then show "sk_written b1 = sk_written backend @ forward_request (print_request r)" "sk_reads b1 = sk_reads backend"
      using asyncWriteAll_bytes [OF w] by auto
  qed
  obtain b2 c2 ok2 where rel: "relayResponse run b1 (client\<lparr>sk_reads := as\<rparr>) = Some (ok2, b2, c2)" "b = Socket_close b2" "client' = Socket_close c2"
    using assms(6) r s i up w ok(1)
    by (auto simp: handleClient_def Let_def backend_def [symmetric] end_handler_def dest!: answer_and_end_effect split: option.splits prod.splits)
  have "sk_written b2 = sk_written b1" using rel(1) by (auto simp: relayResponse_def split: option.splits)
  then have "sk_written b = sk_written backend @ forward_request (print_request r)" using rel(2) ok(2) by (simp add: Socket_close_def)
  moreover have fields: "sk_written (client\<lparr>sk_reads := as\<rparr>) = sk_written client" "sk_writes (client\<lparr>sk_reads := as\<rparr>) = sk_writes client" by simp_all
  from relayResponse_bytes [OF rel(1), unfolded fields] obtain sent D rest where
    d: "incoming (sk_reads b1) = D @ incoming (sk_reads b2)" "sk_written c2 = sk_written client @ sent" "D = sent @ rest"
    "(ok2 \<or> never_fails (sk_writes client)) \<and> find_str (CRLF @ CRLF) D 0 \<noteq> None \<longrightarrow> rest = []"
    by blast
  have "incoming (sk_reads backend) = D @ incoming (sk_reads b)" "sk_written client' = sk_written client @ sent"
    using d(1,2) ok(3) rel(2,3) by (simp_all add: Socket_close_def)
  moreover have "never_fails (sk_writes client) \<and> find_str (CRLF @ CRLF) D 0 \<noteq> None \<longrightarrow> rest = []" using d(4) by blast
  moreover note d(3)
  ultimately have "sk_written b = sk_written backend @ forward_request (print_request r) \<and>
      (\<exists>D sent rest. incoming (sk_reads backend) = D @ incoming (sk_reads b) \<and> D = sent @ rest \<and>
         sk_written client' = sk_written client @ sent \<and>
         (never_fails (sk_writes client) \<and> find_str (CRLF @ CRLF) D 0 \<noteq> None \<longrightarrow> rest = []))" by blast
  then show ?thesis using h unfolding Let_def u_def [symmetric] backend_def [symmetric]
    by (intro exI [of _ i]) (simp add: u_def [symmetric] backend_def [symmetric])
qed

text \<open>
  And the client is served: with a healthy upstream that can be connected to, takes the
  request and closes the connection at some point, the handler runs to its regular end.
\<close>

lemma handler_serves:
  assumes "request_ok r" "length (print_request r) \<le> kMaxRequestBytes"
    "incoming (sk_reads client) = print_request r" "no_failures (sk_reads client)"
    "inv (gw_upstreams gw) (gw_lb gw)" "u \<in> set (gw_upstreams gw)" "up_healthy u"
    "\<And>u. asyncConnect (conn u) \<noteq> None" "\<And>u. never_fails (sk_writes (backend_of u))" "\<And>u. ends (sk_reads (backend_of u))"
    "\<And>u. length (print_request r) + 19 \<le> answers (sk_writes (backend_of u))"
    "\<And>u. length (incoming (sk_reads (backend_of u))) \<le> answers (sk_writes client)"
  shows "\<exists>client' b gw'. handleClient select conn backend_of run client gw = Some (Returned, client', Some b, gw')"
proof -
  obtain as where r: "readFullHttpRequest client = Some (Inr True, print_request r, client\<lparr>sk_reads := as\<rparr>)"
    using readFullHttpRequest_printed [OF assms(1-4)] by blast
  define g where "g = gw\<lparr>gw_inflight := gw_inflight gw + 1\<rparr>"
  obtain i lb where s: "select (gw_upstreams g) (gw_lb g) = (Some i, lb)"
    using select_some [OF assms(5-7)] by (cases "select (gw_upstreams g) (gw_lb g)") (auto simp: g_def)
  define v where "v = gw_upstreams (add_active i 1 (g\<lparr>gw_lb := lb\<rparr>)) ! i"
  obtain fd where c: "asyncConnect (conn v) = Some fd" using assms(8) [of v] by blast
  have "length (forward_request (print_request r)) \<le> answers (sk_writes (backend_of v))"
    using forward_request_length [of "print_request r"] assms(11) [of v] by linarith
  then obtain ok b where w: "asyncWriteAll (forward_request (print_request r)) (backend_of v) = Some (ok, b)"
    using asyncWriteAll_returns by blast
  then have ok: "ok" using async_write_loop_ok [OF assms(9) [of v], of "sk_written (backend_of v)" "forward_request (print_request r)" ok]
    by (fastforce simp: asyncWriteAll_def split: option.splits)
  obtain x b' c' where "relayResponse run b (client\<lparr>sk_reads := as\<rparr>) = Some (x, b', c')"
    using relay_loop_returns [OF assms(10) [of v], of Relay_new "client\<lparr>sk_reads := as\<rparr>" run] assms(12) [of v] asyncWriteAll_bytes(3) [OF w]
    by (auto simp: relayResponse_def unsent_def Relay_new_def)
  then show ?thesis using r s c w ok
    by (simp add: handleClient_def Let_def end_handler_def g_def [symmetric] v_def [symmetric])
qed

end

text \<open>
  A request whose \<open>Content-Length\<close> is not a number makes \<open>std::stoul\<close> throw; nothing on the
  way catches the exception, so one such request ends the whole gateway.
\<close>

lemma handler_terminates:
  assumes "fst (HttpParser_feed HttpParser_new d) = Inl e" "d \<noteq> []" "length d \<le> 8192" "sk_reads client = RData d # as"
  shows "handleClient select conn backend_of run client gw =
    Some (Terminated, client\<lparr>sk_reads := as\<rparr>, None, gw\<lparr>gw_inflight := gw_inflight gw + 1\<rparr>)"
proof -
  obtain p where "HttpParser_feed HttpParser_new d = (Inl e, p)" using assms(1) by (cases "HttpParser_feed HttpParser_new d") auto
  then show ?thesis using assms(2-)
    by (simp add: handleClient_def readFullHttpRequest_def read_request_loop.simps kMaxRequestBytes_def Let_def)
qed

section \<open>Distribution of connections\<close>

lemma drain_limit:
  assumes "drain_pending at_once max_connections ks (inflight, accepted) = (closed, started, inflight', accepted')" "inflight \<le> max_connections"
  shows "inflight' \<le> max_connections \<and> inflight \<le> inflight' \<and> accepted' = accepted + int (length started) \<and>
    mset ks = mset closed + mset started"
  using assms
proof (induction ks arbitrary: inflight accepted closed started)
  case (Cons k ks)
  let ?next = "if max_connections \<le> inflight then (inflight, accepted) else (if at_once k then inflight else inflight + 1, accepted + 1)"
  obtain cl st where r: "drain_pending at_once max_connections ks ?next = (cl, st, inflight', accepted')"
    "closed = (if max_connections \<le> inflight then k # cl else cl)" "started = (if max_connections \<le> inflight then st else k # st)"
    using Cons.prems(1) by (auto split: if_splits prod.splits)
  have "inflight' \<le> max_connections \<and> fst ?next \<le> inflight' \<and> accepted' = snd ?next + int (length st) \<and> mset ks = mset cl + mset st"
    using Cons.prems(2) by (intro Cons.IH) (simp_all only: prod.collapse r(1), auto)
  then show ?case using r(2,3) by (auto split: if_splits)
qed simp

lemma accept_loop_spread:
  assumes "subs \<noteq> []" "i < length subs"
  shows "accept_loop idx cs subs ! i =
    subs ! i @ map snd (filter (\<lambda>(j, _). j mod length subs = i) (enumerate idx (map the (filter (\<lambda>c. c \<noteq> None) cs))))"
  using assms
proof (induction cs arbitrary: idx subs)
  case (Cons c cs)
  then show ?case by (cases c) (auto simp: Let_def nth_list_update)
qed simp

end
