(* ===== verification/Loop_Thread.thy ===== *)
theory Loop_Thread
  imports Main
begin

text \<open>
  \<open>EventLoopThread\<close> of \<open>minikv/src/network/event_loop_thread.{h,cpp}\<close>: the thread that hosts an event
  loop, the call of \<open>startLoop\<close> that waits for it and the call of \<open>stop\<close> that ends it. The state is the
  pointer \<open>loop_\<close> (set or not), the flag \<open>running_\<close> of the hosted loop, the flag \<open>exiting_\<close> and the
  position of each of the three parties; a critical section or an access of an atomic flag is one
  step. The rounds of the loop itself are those of \<open>Reactor\<close>; they do not touch what is modelled here.

  The lemmas show that \<open>startLoop\<close> returns a loop that exists, that a \<open>stop\<close> which finds the loop
  running returns, and that a \<open>stop\<close> between the publication of \<open>loop_\<close> and the start of
  \<open>EventLoop::loop\<close> is overwritten there and then never returns.
\<close>

section \<open>Definitions\<close>

datatype host = NotStarted | Starting | Published | Looping | Leaving | Ended

datatype starter = StartIdle | StartWaits | StartReturned

datatype stopper = StopIdle | StopHas bool | StopJoins | StopReturned

record EventLoopThread =
  et_loop :: bool
  et_running :: bool
  et_exiting :: bool
  et_host :: host
  et_starter :: starter
  et_stopper :: stopper

definition EventLoopThread_new :: EventLoopThread where
  "EventLoopThread_new =
     \<lparr>et_loop = False, et_running = False, et_exiting = False, et_host = NotStarted, et_starter = StartIdle, et_stopper = StopIdle\<rparr>"

text \<open>\<open>startLoop\<close>: create the thread, then wait for \<open>loop_\<close>. \<open>None\<close> means that the caller has no step.\<close>

definition startLoop_step :: "EventLoopThread \<Rightarrow> EventLoopThread option" where
  "startLoop_step t =
     (case et_starter t of
        StartIdle \<Rightarrow> Some (t\<lparr>et_host := Starting, et_starter := StartWaits\<rparr>)
      | StartWaits \<Rightarrow> if et_loop t then Some (t\<lparr>et_starter := StartReturned\<rparr>) else None
      | StartReturned \<Rightarrow> None)"

text \<open>\<open>threadFunc\<close>: publish the loop, set \<open>running_\<close>, run until it is clear, withdraw the loop.\<close>

definition threadFunc_step :: "EventLoopThread \<Rightarrow> EventLoopThread option" where
  "threadFunc_step t =
     (case et_host t of
        Starting \<Rightarrow> Some (t\<lparr>et_host := Published, et_loop := True\<rparr>)
      | Published \<Rightarrow> Some (t\<lparr>et_host := Looping, et_running := True\<rparr>)
      | Looping \<Rightarrow> Some (if et_running t then t else t\<lparr>et_host := Leaving\<rparr>)
      | Leaving \<Rightarrow> Some (t\<lparr>et_host := Ended, et_loop := False\<rparr>)
      | _ \<Rightarrow> None)"

text \<open>\<open>stop\<close>: the critical section, \<open>loop->stop()\<close>, \<open>join\<close>. A thread that was never created is not joinable.\<close>

definition stop_step :: "EventLoopThread \<Rightarrow> EventLoopThread option" where
  "stop_step t =
     (case et_stopper t of
        StopIdle \<Rightarrow> Some (if et_exiting t then t\<lparr>et_stopper := StopReturned\<rparr>
                         else t\<lparr>et_exiting := True, et_stopper := StopHas (et_loop t)\<rparr>)
      | StopHas loop \<Rightarrow> Some (t\<lparr>et_running := (if loop then False else et_running t), et_stopper := StopJoins\<rparr>)
      | StopJoins \<Rightarrow> if et_host t = NotStarted \<or> et_host t = Ended then Some (t\<lparr>et_stopper := StopReturned\<rparr>) else None
      | StopReturned \<Rightarrow> None)"

inductive loop_thread_step :: "EventLoopThread \<Rightarrow> EventLoopThread \<Rightarrow> bool" where
  starts: "startLoop_step t = Some t' \<Longrightarrow> loop_thread_step t t'"
| hosts: "threadFunc_step t = Some t' \<Longrightarrow> loop_thread_step t t'"
| stops: "et_starter t = StartReturned \<Longrightarrow> stop_step t = Some t' \<Longrightarrow> loop_thread_step t t'"

inductive_cases loop_thread_stepE: "loop_thread_step t t'"

abbreviation loop_thread_run :: "EventLoopThread \<Rightarrow> EventLoopThread \<Rightarrow> bool" where
  "loop_thread_run \<equiv> loop_thread_step\<^sup>*\<^sup>*"

section \<open>The loop that is handed out exists\<close>

definition loop_thread_inv :: "EventLoopThread \<Rightarrow> bool" where
  "loop_thread_inv t \<longleftrightarrow>
     (et_loop t \<longleftrightarrow> et_host t \<in> {Published, Looping, Leaving}) \<and>
     (et_starter t = StartIdle \<longleftrightarrow> et_host t = NotStarted) \<and>
     (et_starter t = StartReturned \<longrightarrow> et_host t \<notin> {NotStarted, Starting}) \<and>
     (et_stopper t \<noteq> StopIdle \<longrightarrow> et_starter t = StartReturned \<and> et_exiting t) \<and>
     (et_stopper t = StopIdle \<longrightarrow> \<not> et_exiting t \<and> (et_host t = Looping \<longrightarrow> et_running t) \<and> et_host t \<notin> {Leaving, Ended})"

lemma startLoop_inv: "startLoop_step t = Some t' \<Longrightarrow> loop_thread_inv t \<Longrightarrow> loop_thread_inv t'"
  by (cases "et_starter t") (auto simp: loop_thread_inv_def startLoop_step_def split: if_splits)

lemma threadFunc_inv: "threadFunc_step t = Some t' \<Longrightarrow> loop_thread_inv t \<Longrightarrow> loop_thread_inv t'"
  by (cases "et_host t") (auto simp: loop_thread_inv_def threadFunc_step_def split: if_splits)

lemma stop_inv: "stop_step t = Some t' \<Longrightarrow> et_starter t = StartReturned \<Longrightarrow> loop_thread_inv t \<Longrightarrow> loop_thread_inv t'"
  by (cases "et_stopper t") (auto simp: loop_thread_inv_def stop_step_def split: if_splits)

lemmas loop_thread_defs = startLoop_step_def threadFunc_step_def stop_step_def

lemma loop_thread_step_inv: "loop_thread_step t t' \<Longrightarrow> loop_thread_inv t \<Longrightarrow> loop_thread_inv t'"
  by (elim loop_thread_stepE) (blast intro: startLoop_inv threadFunc_inv stop_inv)+

lemma loop_thread_run_inv: "loop_thread_run t t' \<Longrightarrow> loop_thread_inv t \<Longrightarrow> loop_thread_inv t'"
  by (induction rule: rtranclp_induct) (auto intro: loop_thread_step_inv)

lemma loop_thread_new_inv: "loop_thread_inv EventLoopThread_new"
  by (simp add: loop_thread_inv_def EventLoopThread_new_def)

text \<open>Until somebody calls \<open>stop\<close>, the loop that \<open>startLoop\<close> has returned is there.\<close>

lemma startLoop_gives_loop:
  "loop_thread_run EventLoopThread_new t \<Longrightarrow> et_starter t = StartReturned \<Longrightarrow> et_stopper t = StopIdle \<Longrightarrow> et_loop t"
  using loop_thread_run_inv [OF _ loop_thread_new_inv, of t] by (cases "et_host t") (auto simp: loop_thread_inv_def)

section \<open>Stopping\<close>

text \<open>A \<open>stop\<close> that is called while the loop is running returns: its two steps, three of the thread, and the join.\<close>

lemma stop_running_returns:
  assumes "loop_thread_inv t" "et_host t = Looping" "et_starter t = StartReturned" "et_stopper t = StopIdle"
  shows "\<exists>t'. loop_thread_run t t' \<and> et_stopper t' = StopReturned \<and> et_host t' = Ended"
proof -
  let ?t1 = "t\<lparr>et_exiting := True, et_stopper := StopHas True\<rparr>"
  let ?t2 = "?t1\<lparr>et_running := False, et_stopper := StopJoins\<rparr>"
  let ?t3 = "?t2\<lparr>et_host := Leaving\<rparr>"
  let ?t4 = "?t3\<lparr>et_host := Ended, et_loop := False\<rparr>"
  let ?t5 = "?t4\<lparr>et_stopper := StopReturned\<rparr>"
  have l: "et_loop t" "\<not> et_exiting t" using assms by (auto simp: loop_thread_inv_def)
  have "loop_thread_step t ?t1" "loop_thread_step ?t1 ?t2" "loop_thread_step ?t4 ?t5"
    using assms l by (auto intro!: loop_thread_step.stops simp: stop_step_def)
  moreover have "loop_thread_step ?t2 ?t3" "loop_thread_step ?t3 ?t4"
    using assms(2) by (auto intro!: loop_thread_step.hosts simp: threadFunc_step_def)
  ultimately have "loop_thread_run t ?t5" by (meson rtranclp.rtrancl_into_rtrancl rtranclp.rtrancl_refl)
  then show ?thesis by (intro exI [of _ ?t5]) simp
qed

text \<open>Once \<open>stop\<close> waits for a loop whose flag is set, nobody clears the flag any more.\<close>

definition stop_hangs :: "EventLoopThread \<Rightarrow> bool" where
  "stop_hangs t \<longleftrightarrow> et_stopper t = StopJoins \<and> et_host t = Looping \<and> et_running t \<and> et_starter t = StartReturned"

lemma stop_hangs_forever: "loop_thread_run t t' \<Longrightarrow> stop_hangs t \<Longrightarrow> stop_hangs t'"
proof (induction rule: rtranclp_induct)
  case (step t1 t2)
  then show ?case by (auto simp: stop_hangs_def loop_thread_defs elim!: loop_thread_stepE split: if_splits)
qed

lemma stop_can_hang: "\<exists>t. loop_thread_run EventLoopThread_new t \<and> stop_hangs t \<and> (\<forall>t'. loop_thread_run t t' \<longrightarrow> et_stopper t' \<noteq> StopReturned)"
proof -
  let ?t1 = "EventLoopThread_new\<lparr>et_host := Starting, et_starter := StartWaits\<rparr>"
  let ?t2 = "?t1\<lparr>et_host := Published, et_loop := True\<rparr>"
  let ?t3 = "?t2\<lparr>et_starter := StartReturned\<rparr>"
  let ?t4 = "?t3\<lparr>et_exiting := True, et_stopper := StopHas True\<rparr>"
  let ?t5 = "?t4\<lparr>et_running := False, et_stopper := StopJoins\<rparr>"
  let ?t6 = "?t5\<lparr>et_host := Looping, et_running := True\<rparr>"
  have "loop_thread_step EventLoopThread_new ?t1" "loop_thread_step ?t2 ?t3"
    by (auto intro!: loop_thread_step.starts simp: startLoop_step_def EventLoopThread_new_def)
  moreover have "loop_thread_step ?t1 ?t2" "loop_thread_step ?t5 ?t6"
    by (auto intro!: loop_thread_step.hosts simp: threadFunc_step_def)
  moreover have "loop_thread_step ?t3 ?t4" "loop_thread_step ?t4 ?t5"
    by (auto intro!: loop_thread_step.stops simp: stop_step_def EventLoopThread_new_def)
  ultimately have "loop_thread_run EventLoopThread_new ?t6" by (meson rtranclp.rtrancl_into_rtrancl rtranclp.rtrancl_refl)
  moreover have h: "stop_hangs ?t6" by (simp add: stop_hangs_def)
  moreover have "et_stopper t' \<noteq> StopReturned" if "loop_thread_run ?t6 t'" for t'
    using stop_hangs_forever [OF that h] by (simp add: stop_hangs_def)
  ultimately show ?thesis by blast
qed

end
