(* ===== verification/Ordered_Map.thy ===== *)
theory Ordered_Map
  imports Prelude
begin

text \<open>
  \<open>std::map\<close> as the list of its pairs in the order of the keys: assignment through \<open>operator[]\<close>,
  \<open>erase\<close> by key, and the position \<open>lower_bound\<close> finds. The lemmas relate them to finite maps;
  \<open>clockwise\<close> is the walk around a ring of keys that \<open>lower_bound\<close> with a wrap to \<open>begin()\<close> makes.
\<close>

section \<open>Definitions\<close>

fun map_put :: "'k::linorder \<Rightarrow> 'v \<Rightarrow> ('k \<times> 'v) list \<Rightarrow> ('k \<times> 'v) list" where
  "map_put k v [] = [(k, v)]"
| "map_put k v ((k', v') # kvs) =
     (if k = k' then (k, v) # kvs else if k < k' then (k, v) # (k', v') # kvs else (k', v') # map_put k v kvs)"

definition map_erase :: "'k::linorder \<Rightarrow> ('k \<times> 'v) list \<Rightarrow> ('k \<times> 'v) list" where
  "map_erase k kvs = filter (\<lambda>kv. fst kv \<noteq> k) kvs"

text \<open>
  \<open>it = m.lower_bound(k); if (it == m.end()) it = m.begin();\<close> and the value at \<open>it\<close>; \<open>None\<close> stands for
  reading through \<open>end()\<close>, which happens in the empty map only.
\<close>

definition ring_lookup :: "'k::linorder \<Rightarrow> ('k \<times> 'v) list \<Rightarrow> 'v option" where
  "ring_lookup k kvs =
     (case lower_bound (\<lambda>kv. fst kv < k) kvs of
        Some kv \<Rightarrow> Some (snd kv)
      | None \<Rightarrow> (case kvs of [] \<Rightarrow> None | kv # _ \<Rightarrow> Some (snd kv)))"

definition keys_sorted :: "('k::linorder \<times> 'v) list \<Rightarrow> bool" where
  "keys_sorted kvs \<longleftrightarrow> sorted_wrt (<) (map fst kvs)"

text \<open>The first key at or after \<open>k\<close>, and the least key when there is none.\<close>

definition clockwise :: "'k::linorder \<Rightarrow> 'k set \<Rightarrow> 'k" where
  "clockwise k D = (if \<exists>d\<in>D. k \<le> d then Min {d \<in> D. k \<le> d} else Min D)"

section \<open>Assignment and erasure\<close>

lemma map_of_map_put [simp]: "map_of (map_put k v kvs) = (map_of kvs)(k \<mapsto> v)"
  by (induction kvs) auto

lemma map_put_keys: "fst ` set (map_put k v kvs) = insert k (fst ` set kvs)"
proof (induction kvs)
  case (Cons kv kvs)
  then show ?case by (cases kv) (simp add: insert_commute)
qed simp

lemma map_put_sorted: "sorted_wrt (<) (map fst kvs) \<Longrightarrow> sorted_wrt (<) (map fst (map_put k v kvs))"
proof (induction kvs)
  case (Cons kv kvs)
  have "\<forall>x\<in>fst ` set (map_put k v kvs). fst kv < x" if "fst kv < k" using Cons.prems that map_put_keys [of k v kvs] by auto
  then show ?case using Cons by (cases kv) (auto simp: not_less_iff_gr_or_eq)
qed simp

lemma map_put_all: "\<forall>kv\<in>set kvs. P kv \<Longrightarrow> P (k, v) \<Longrightarrow> \<forall>kv\<in>set (map_put k v kvs). P kv"
  by (induction kvs) (auto split: if_splits)

lemma map_of_map_erase [simp]: "map_of (map_erase k kvs) = (map_of kvs)(k := None)"
  by (induction kvs) (auto simp: map_erase_def fun_eq_iff)

lemma map_put_keys_sorted [simp]: "keys_sorted kvs \<Longrightarrow> keys_sorted (map_put k v kvs)"
  by (simp add: keys_sorted_def map_put_sorted)

lemma map_erase_keys_sorted [simp]: "keys_sorted kvs \<Longrightarrow> keys_sorted (map_erase k kvs)"
  by (simp add: keys_sorted_def map_erase_def sorted_wrt_map sorted_wrt_filter)

section \<open>The walk around the ring\<close>

lemma clockwise_in: "finite D \<Longrightarrow> D \<noteq> {} \<Longrightarrow> clockwise k D \<in> D"
proof -
  assume D: "finite D" "D \<noteq> {}"
  show ?thesis
  proof (cases "\<exists>d\<in>D. k \<le> d")
    case True
    then have "{d \<in> D. k \<le> d} \<noteq> {}" by auto
    from Min_in [OF _ this] D(1) show ?thesis using True by (simp add: clockwise_def)
  next
    case False
    with Min_in [OF D] show ?thesis by (simp add: clockwise_def)
  qed
qed

lemma clockwise_subset:
  assumes fin: "finite E" and sub: "D \<subseteq> E" and got: "clockwise k E \<in> D"
  shows "clockwise k D = clockwise k E"
proof (cases "\<exists>d\<in>E. k \<le> d")
  case True
  let ?m = "Min {d \<in> E. k \<le> d}"
  have ne: "{d \<in> E. k \<le> d} \<noteq> {}" using True by auto
  have m: "?m \<in> {d \<in> E. k \<le> d}" "\<And>e. e \<in> E \<Longrightarrow> k \<le> e \<Longrightarrow> ?m \<le> e"
    using Min_in [OF _ ne] fin by simp_all
  have c: "clockwise k E = ?m" using True by (simp add: clockwise_def)
  have "Min {d \<in> D. k \<le> d} = ?m"
    using fin sub got m c by (intro Min_eqI) (auto intro: finite_subset)
  moreover have "\<exists>d\<in>D. k \<le> d" using got m(1) c by auto
  ultimately show ?thesis using c by (simp add: clockwise_def)
next
  case False
  then have c: "clockwise k E = Min E" by (simp add: clockwise_def)
  have "Min D = Min E" using fin sub got c by (intro Min_eqI) (auto intro: finite_subset)
  moreover have "\<not> (\<exists>d\<in>D. k \<le> d)" using False sub by blast
  ultimately show ?thesis using c by (simp add: clockwise_def)
qed

text \<open>\<open>ring_lookup\<close> answers with the value at the clockwise successor.\<close>

lemma ring_lookup_clockwise:
  assumes "keys_sorted kvs"
  shows "ring_lookup k kvs = (if kvs = [] then None else map_of kvs (clockwise k (dom (map_of kvs))))"
proof (cases "lower_bound (\<lambda>kv. fst kv < k) kvs")
  case None
  then have small: "\<forall>kv\<in>set kvs. fst kv < k" by (simp add: lower_bound_None)
  show ?thesis
  proof (cases kvs)
    case (Cons kv rest)
    have "Min (dom (map_of kvs)) = fst kv"
      using assms Cons by (intro Min_eqI) (auto simp: keys_sorted_def dom_map_of_conv_image_fst less_imp_le)
    moreover have "\<not> (\<exists>d\<in>dom (map_of kvs). k \<le> d)" using small by (auto simp: dom_map_of_conv_image_fst)
    ultimately show ?thesis using None Cons by (cases kv) (simp add: ring_lookup_def clockwise_def)
  qed (simp add: ring_lookup_def)
next
  case (Some kv)
  then obtain ys zs where s: "kvs = ys @ kv # zs" "\<forall>y\<in>set ys. fst y < k" "\<not> fst kv < k"
    by (rule lower_bound_SomeD)
  have ks: "dom (map_of kvs) = fst ` set kvs" by (rule dom_map_of_conv_image_fst)
  have "Min {d \<in> fst ` set kvs. k \<le> d} = fst kv"
    using assms s by (intro Min_eqI) (auto simp: keys_sorted_def sorted_wrt_append less_imp_le)
  moreover have "fst kv \<in> fst ` set kvs" "k \<le> fst kv" using s by simp_all
  ultimately have "clockwise k (dom (map_of kvs)) = fst kv" unfolding clockwise_def ks by auto
  moreover have "map_of kvs (fst kv) = Some (snd kv)"
    using assms s(1) by (intro map_of_is_SomeI) (simp_all add: keys_sorted_def strict_sorted_iff)
  ultimately show ?thesis using Some s(1) by (simp add: ring_lookup_def)
qed

end
