(* ===== verification/Course_Basics.thy ===== *)
theory Course_Basics
  imports Coding Ordered_Map
begin

text \<open>
  \<open>practice/module01_overview/main.cpp\<close>, \<open>module02_cpp_core/main.cpp\<close> and \<open>module13_interview/main.cpp\<close>: the call chain
  of a store that flushes its table after three keys, 64-bit varints, and an LRU cache of a
  list with a map of iterators into it. An iterator is the identity of a list node.

  The store answers like a map; a varint is read back whatever follows it; the cache keeps its list
  and its map in step, stays within its capacity and returns what was put last. With a capacity
  of zero \<open>put\<close> takes the back of an empty list, which is undefined.
\<close>

section \<open>The store of module 01\<close>

record ChainDB =
  cd_mem :: "(bytes \<times> bytes) list"
  cd_sstables :: "(bytes \<times> bytes) list list"

definition ChainDB_new :: ChainDB where
  "ChainDB_new = \<lparr>cd_mem = [], cd_sstables = []\<rparr>"

definition flush_threshold :: nat where
  "flush_threshold = 3"

definition flushMemTable :: "ChainDB \<Rightarrow> ChainDB" where
  "flushMemTable db = db\<lparr>cd_sstables := cd_sstables db @ [cd_mem db], cd_mem := []\<rparr>"

definition ChainDB_Put :: "bytes \<Rightarrow> bytes \<Rightarrow> ChainDB \<Rightarrow> ChainDB" where
  "ChainDB_Put key v db =
     (let db = db\<lparr>cd_mem := map_put key v (cd_mem db)\<rparr>
      in if flush_threshold \<le> length (cd_mem db) then flushMemTable db else db)"

fun sstables_Get :: "(bytes \<times> bytes) list list \<Rightarrow> bytes \<Rightarrow> bytes option" where
  "sstables_Get [] key = None"
| "sstables_Get (t # ts) key = (case map_of t key of Some v \<Rightarrow> Some v | None \<Rightarrow> sstables_Get ts key)"

definition ChainDB_Get :: "ChainDB \<Rightarrow> bytes \<Rightarrow> bytes option" where
  "ChainDB_Get db key =
     (case map_of (cd_mem db) key of Some v \<Rightarrow> Some v | None \<Rightarrow> sstables_Get (rev (cd_sstables db)) key)"

section \<open>Varints\<close>

function encodeVarint64 :: "u64 \<Rightarrow> bytes" where
  "encodeVarint64 v = (if 0x80 \<le> v then (ucast v OR 0x80) # encodeVarint64 (drop_bit 7 v) else [ucast v])"
  by pat_completeness auto

lemma unat_drop_bit_7_64: "unat (drop_bit 7 (v :: u64)) = unat v div 128"
  by (simp only: unat_drop_bit_eq) (simp add: drop_bit_eq_div)

termination encodeVarint64
  by (relation "measure unat") (auto simp: unat_drop_bit_7_64 word_le_nat_alt)

declare encodeVarint64.simps [simp del]

text \<open>The loop at index \<open>i\<close>, on the bytes from there on; \<open>None\<close> where the function returns 0.\<close>

fun decodeVarint64_loop :: "bytes \<Rightarrow> nat \<Rightarrow> u64 \<Rightarrow> (nat \<times> u64) option" where
  "decodeVarint64_loop [] i result = None"
| "decodeVarint64_loop (c # p) i result =
     (if 10 \<le> i then None
      else let result = result OR push_bit (7 * i) (ucast (c AND 0x7f))
           in if c AND 0x80 = 0 then Some (i + 1, result) else decodeVarint64_loop p (i + 1) result)"

definition decodeVarint64 :: "bytes \<Rightarrow> (nat \<times> u64) option" where
  "decodeVarint64 p = decodeVarint64_loop p 0 0"

section \<open>The LRU cache of module 13\<close>

record CourseLRU =
  cl_cap :: int
  cl_list :: "(nat \<times> int \<times> int) list"
  cl_map :: "int \<rightharpoonup> nat"
  cl_next :: nat

definition CourseLRU_new :: "int \<Rightarrow> CourseLRU" where
  "CourseLRU_new capacity = \<lparr>cl_cap = capacity, cl_list = [], cl_map = Map.empty, cl_next = 0\<rparr>"

definition lru_node_at :: "nat \<Rightarrow> (nat \<times> int \<times> int) list \<Rightarrow> (int \<times> int) option" where
  "lru_node_at n xs = map_of xs n"

text \<open>\<open>list_.splice(list_.begin(), list_, it)\<close>.\<close>

definition splice_begin :: "nat \<Rightarrow> (nat \<times> int \<times> int) list \<Rightarrow> (nat \<times> int \<times> int) list" where
  "splice_begin n xs = filter (\<lambda>x. fst x = n) xs @ filter (\<lambda>x. fst x \<noteq> n) xs"

definition CourseLRU_get :: "int \<Rightarrow> CourseLRU \<Rightarrow> (int \<times> CourseLRU) option" where
  "CourseLRU_get key c =
     (case cl_map c key of
        None \<Rightarrow> Some (- 1, c)
      | Some n \<Rightarrow> map_option (\<lambda>kv. (snd kv, c\<lparr>cl_list := splice_begin n (cl_list c)\<rparr>)) (lru_node_at n (cl_list c)))"

definition CourseLRU_put :: "int \<Rightarrow> int \<Rightarrow> CourseLRU \<Rightarrow> CourseLRU option" where
  "CourseLRU_put key v c =
     (case cl_map c key of
        Some n \<Rightarrow>
          Some (c\<lparr>cl_list := splice_begin n (map (\<lambda>(m, k, w). if m = n then (m, k, v) else (m, k, w)) (cl_list c))\<rparr>)
      | None \<Rightarrow>
          (let evicted = (if cl_cap c \<le> int (length (cl_list c))
                          then if cl_list c = [] then None
                               else Some (c\<lparr>cl_map := (cl_map c)(fst (snd (last (cl_list c))) := None),
                                           cl_list := butlast (cl_list c)\<rparr>)
                          else Some c)
           in map_option (\<lambda>c. c\<lparr>cl_list := (cl_next c, key, v) # cl_list c, cl_map := (cl_map c)(key \<mapsto> cl_next c),
                              cl_next := cl_next c + 1\<rparr>) evicted))"

definition keys_mru_to_lru :: "CourseLRU \<Rightarrow> int list" where
  "keys_mru_to_lru c = map (\<lambda>x. fst (snd x)) (cl_list c)"

section \<open>The store is a map\<close>

definition chain_inv :: "ChainDB \<Rightarrow> (bytes \<rightharpoonup> bytes) \<Rightarrow> bool" where
  "chain_inv db m \<longleftrightarrow> length (cd_mem db) < flush_threshold \<and> ChainDB_Get db = m"

lemma ChainDB_Put_inv:
  assumes "chain_inv db m"
  shows "chain_inv (ChainDB_Put k v db) (m(k \<mapsto> v))"
proof -
  have "m = ChainDB_Get db" using assms by (simp add: chain_inv_def)
  then have "ChainDB_Get (ChainDB_Put k v db) x = (m(k \<mapsto> v)) x" for x
    by (auto simp: ChainDB_Put_def flushMemTable_def ChainDB_Get_def Let_def split: option.split)
  moreover have "length (cd_mem (ChainDB_Put k v db)) < flush_threshold"
    by (simp add: ChainDB_Put_def flushMemTable_def flush_threshold_def Let_def)
  ultimately show ?thesis by (simp add: chain_inv_def fun_eq_iff)
qed

theorem ChainDB_is_map:
  "ChainDB_Get (fold (\<lambda>(k, v). ChainDB_Put k v) kvs ChainDB_new) = fold (\<lambda>(k, v) m. m(k \<mapsto> v)) kvs Map.empty"
proof -
  have "chain_inv db m \<Longrightarrow> chain_inv (fold (\<lambda>(k, v). ChainDB_Put k v) kvs db) (fold (\<lambda>(k, v) m. m(k \<mapsto> v)) kvs m)" for db m
    by (induction kvs arbitrary: db m) (auto intro: ChainDB_Put_inv)
  moreover have "chain_inv ChainDB_new Map.empty"
    by (simp add: chain_inv_def ChainDB_new_def flush_threshold_def ChainDB_Get_def fun_eq_iff)
  ultimately show ?thesis by (simp add: chain_inv_def)
qed

section \<open>Varints are read back\<close>

lemma varint64_group_bits:
  "(ucast (((ucast (v :: u64) :: byte) OR 128) AND 127) :: u64) = take_bit 7 v"
  "((ucast v :: byte) OR 128) AND 128 \<noteq> 0"
  "(ucast ((ucast v :: byte) AND 127) :: u64) = take_bit 7 v"
proof -
  have "take_bit 7 ((ucast v :: byte) OR 128) = take_bit 7 (ucast v)"
    by (rule bit_word_eqI) (simp only: bit_take_bit_iff bit_or_iff bit_128, auto)
  moreover show c: "(ucast ((ucast v :: byte) AND 127) :: u64) = take_bit 7 v"
    by (rule bit_word_eqI) (auto simp: and_127_take_bit bit_simps)
  ultimately show "(ucast (((ucast v :: byte) OR 128) AND 127) :: u64) = take_bit 7 v"
    by (simp only: and_127_take_bit)
  have "bit ((ucast v :: byte) OR 128) 7" by (simp only: bit_or_iff bit_128) simp
  then show "((ucast v :: byte) OR 128) AND 128 \<noteq> 0" by (simp only: byte_and_128) simp
qed

lemma small_take_bit: "v < 128 \<Longrightarrow> take_bit 7 (v :: u64) = v \<and> (ucast v :: byte) AND 128 = 0"
proof -
  assume "v < 128"
  then have v: "take_bit 7 v = v"
    by (simp add: word_unat_eq_iff unsigned_take_bit_eq take_bit_nat_eq_self_iff word_less_nat_alt)
  then have "\<not> bit v 7" by (metis bit_take_bit_iff less_irrefl)
  then show ?thesis using v by (simp only: byte_and_128 bit_ucast_iff) simp
qed

lemma push_bit_split_7_64: "push_bit s (take_bit 7 (v :: u64)) OR push_bit (s + 7) (drop_bit 7 v) = push_bit s v"
proof (rule bit_word_eqI)
  fix n
  show "bit (push_bit s (take_bit 7 v) OR push_bit (s + 7) (drop_bit 7 v)) n = bit (push_bit s v) n"
    by (cases "s + 7 \<le> n") (auto simp: bit_simps)
qed

lemma decodeVarint64_loop_encode:
  assumes "i < 10" "unat v < 2 ^ (64 - 7 * i)"
  shows "decodeVarint64_loop (encodeVarint64 v @ rest) i acc =
    Some (i + length (encodeVarint64 v), acc OR push_bit (7 * i) v)"
  using assms
proof (induction "unat v" arbitrary: v acc i rule: less_induct)
  case less
  show ?case
  proof (cases "0x80 \<le> v")
    case False
    then have "v < 128" by simp
    from small_take_bit [OF this] show ?thesis
      using less.prems(1) False varint64_group_bits(3) [of v] by (simp add: encodeVarint64.simps [of v])
  next
    case True
    then have big: "128 \<le> unat v" by (simp add: word_le_nat_alt)
    have "(2 :: nat) ^ 7 < 2 ^ (64 - 7 * i)" using big less.prems(2) by simp
    then have i: "7 < 64 - 7 * i" by (rule power_less_imp_less_exp [rotated]) simp
    then have "(2 :: nat) ^ (64 - 7 * i) = 128 * 2 ^ (64 - 7 * (i + 1))"
      using power_add [of "2 :: nat" 7 "64 - 7 * (i + 1)"] by simp
    then have fits: "unat (drop_bit 7 v) < 2 ^ (64 - 7 * (i + 1))"
      using less.prems(2) by (simp add: unat_drop_bit_7_64 less_mult_imp_div_less mult.commute)
    have smaller: "unat (drop_bit 7 v) < unat v" using big by (simp add: unat_drop_bit_7_64)
    have "acc OR push_bit (7 * i) (take_bit 7 v) OR push_bit (7 * (i + 1)) (drop_bit 7 v) = acc OR push_bit (7 * i) v"
      using push_bit_split_7_64 [of "7 * i" v] by (simp add: or.assoc add.commute)
    then show ?thesis
      using less.hyps [OF smaller, of "i + 1"] fits i True less.prems(1) varint64_group_bits(1,2) [of v]
      by (simp add: encodeVarint64.simps [of v] Let_def or.assoc)
  qed
qed

theorem decodeVarint64_encode: "decodeVarint64 (encodeVarint64 v @ rest) = Some (length (encodeVarint64 v), v)"
  using decodeVarint64_loop_encode [of 0 v rest 0] unsigned_less [of v] by (simp add: decodeVarint64_def)

text \<open>At most ten bytes, the size of the buffer that the caller passes.\<close>

lemma encodeVarint64_length: "unat v < 2 ^ (7 * n) \<Longrightarrow> 0 < n \<Longrightarrow> length (encodeVarint64 v) \<le> n"
proof (induction n arbitrary: v)
  case (Suc n)
  show ?case
  proof (cases "0x80 \<le> v")
    case True
    then have "128 \<le> unat v" by (simp add: word_le_nat_alt)
    then have n: "0 < n" using Suc.prems(1) by (cases n) auto
    have "unat (drop_bit 7 v) < 2 ^ (7 * n)"
      using Suc.prems(1) by (simp add: unat_drop_bit_7_64 power_add less_mult_imp_div_less mult.commute)
    from Suc.IH [OF this n] True show ?thesis by (simp add: encodeVarint64.simps [of v])
  qed (simp add: encodeVarint64.simps [of v])
qed simp

section \<open>The cache\<close>

definition lru_inv :: "CourseLRU \<Rightarrow> bool" where
  "lru_inv c \<longleftrightarrow> distinct (map fst (cl_list c)) \<and> distinct (keys_mru_to_lru c) \<and> (\<forall>x\<in>set (cl_list c). fst x < cl_next c) \<and>
     (\<forall>k n. cl_map c k = Some n \<longleftrightarrow> (\<exists>v. (n, k, v) \<in> set (cl_list c))) \<and> int (length (cl_list c)) \<le> cl_cap c"

definition lru_value :: "CourseLRU \<Rightarrow> int \<Rightarrow> int option" where
  "lru_value c = map_of (map snd (cl_list c))"

lemma lru_new_inv: "0 \<le> cap \<Longrightarrow> lru_inv (CourseLRU_new cap)"
  by (simp add: lru_inv_def CourseLRU_new_def keys_mru_to_lru_def)

lemma lru_hit:
  assumes "lru_inv c" "cl_map c k = Some n"
  obtains ys w zs where "cl_list c = ys @ (n, k, w) # zs" "n \<notin> fst ` set (ys @ zs)" "k \<notin> set (map (\<lambda>x. fst (snd x)) (ys @ zs))"
proof -
  from assms obtain w where "(n, k, w) \<in> set (cl_list c)" by (auto simp: lru_inv_def)
  then obtain ys zs where "cl_list c = ys @ (n, k, w) # zs" by (meson split_list)
  with assms(1) show thesis by (intro that) (auto simp: lru_inv_def keys_mru_to_lru_def)
qed

lemma splice_begin_split:
  assumes "n \<notin> fst ` set (ys @ zs)"
  shows "splice_begin n (ys @ (n, kv) # zs) = (n, kv) # ys @ zs"
proof -
  have "filter (\<lambda>x. fst x = n) xs = [] \<and> filter (\<lambda>x. fst x \<noteq> n) xs = xs" if "n \<notin> fst ` set xs" for xs :: "(nat \<times> int \<times> int) list"
    using that by (induction xs) auto
  from this [of ys] this [of zs] show ?thesis using assms by (simp add: splice_begin_def image_Un)
qed

lemma keys_of_map:
  assumes "lru_inv c"
  shows "cl_map c k = None \<longleftrightarrow> k \<notin> set (keys_mru_to_lru c)"
proof -
  have "(\<exists>n. cl_map c k = Some n) \<longleftrightarrow> (\<exists>n v. (n, k, v) \<in> set (cl_list c))" using assms by (auto simp: lru_inv_def)
  moreover have "k \<in> set (keys_mru_to_lru c) \<longleftrightarrow> (\<exists>n v. (n, k, v) \<in> set (cl_list c))"
    by (auto simp: keys_mru_to_lru_def image_iff) (metis fst_conv snd_conv)+
  ultimately show ?thesis by (metis not_Some_eq)
qed

lemma lru_move:
  assumes "lru_inv c" "cl_list c = ys @ (n, k, w) # zs"
  shows "lru_inv (c\<lparr>cl_list := (n, k, v) # ys @ zs\<rparr>)"
proof -
  have "(\<exists>u. (m, j, u) \<in> set ((n, k, v) # ys @ zs)) \<longleftrightarrow> (\<exists>u. (m, j, u) \<in> set (ys @ (n, k, w) # zs))" for m j by auto
  then show ?thesis using assms unfolding lru_inv_def keys_mru_to_lru_def by (simp add: ac_simps)
qed

lemma map_of_move: "k \<notin> fst ` set xs \<Longrightarrow> map_of (xs @ (k, w) # ys) = (map_of (xs @ ys))(k \<mapsto> w)"
  by (induction xs) (auto simp: fun_upd_twist)

theorem CourseLRU_get_hit:
  assumes "lru_inv c" "k \<in> set (keys_mru_to_lru c)"
  shows "\<exists>v c'. lru_value c k = Some v \<and> CourseLRU_get k c = Some (v, c') \<and> lru_inv c' \<and>
    keys_mru_to_lru c' = k # remove1 k (keys_mru_to_lru c) \<and> lru_value c' = lru_value c"
proof -
  obtain n where n: "cl_map c k = Some n" using keys_of_map [OF assms(1), of k] assms(2) by auto
  from lru_hit [OF assms(1) n] obtain ys w zs where l: "cl_list c = ys @ (n, k, w) # zs" "n \<notin> fst ` set (ys @ zs)"
    and k: "k \<notin> set (map (\<lambda>x. fst (snd x)) (ys @ zs))" by blast
  let ?c = "c\<lparr>cl_list := (n, k, w) # ys @ zs\<rparr>"
  have "lru_node_at n (cl_list c) = Some (k, w)" using l map_of_move [of n ys "(k, w)" zs] by (simp add: lru_node_at_def image_Un del: map_of_append)
  then have "CourseLRU_get k c = Some (w, ?c)"
    using n l splice_begin_split [OF l(2), of "(k, w)"] by (simp add: CourseLRU_get_def)
  moreover have "lru_value c = (map_of (map snd (ys @ zs)))(k \<mapsto> w)"
    using k l(1) map_of_move [of k "map snd ys" w "map snd zs"] by (simp add: lru_value_def image_image)
  moreover have "lru_value ?c = (map_of (map snd (ys @ zs)))(k \<mapsto> w)" by (simp add: lru_value_def)
  moreover have "keys_mru_to_lru ?c = k # remove1 k (keys_mru_to_lru c)"
    using k l(1) by (auto simp: keys_mru_to_lru_def remove1_append remove1_idem)
  ultimately show ?thesis using lru_move [OF assms(1) l(1), of w] by auto
qed

theorem CourseLRU_get_miss: "lru_inv c \<Longrightarrow> k \<notin> set (keys_mru_to_lru c) \<Longrightarrow> CourseLRU_get k c = Some (- 1, c)"
  by (simp add: CourseLRU_get_def keys_of_map [symmetric])

theorem CourseLRU_put_hit:
  assumes "lru_inv c" "k \<in> set (keys_mru_to_lru c)"
  shows "\<exists>c'. CourseLRU_put k v c = Some c' \<and> lru_inv c' \<and>
    keys_mru_to_lru c' = k # remove1 k (keys_mru_to_lru c) \<and> lru_value c' = (lru_value c)(k \<mapsto> v)"
proof -
  obtain n where n: "cl_map c k = Some n" using keys_of_map [OF assms(1), of k] assms(2) by auto
  from lru_hit [OF assms(1) n] obtain ys w zs where l: "cl_list c = ys @ (n, k, w) # zs" "n \<notin> fst ` set (ys @ zs)"
    and k: "k \<notin> set (map (\<lambda>x. fst (snd x)) (ys @ zs))" by blast
  let ?c = "c\<lparr>cl_list := (n, k, v) # ys @ zs\<rparr>"
  have "map (\<lambda>(m, k, w). if m = n then (m, k, v) else (m, k, w)) xs = xs" if "n \<notin> fst ` set xs" for xs
    using that by (induction xs) auto
  from this [of ys] this [of zs] have "map (\<lambda>(m, k, w). if m = n then (m, k, v) else (m, k, w)) (cl_list c) = ys @ (n, k, v) # zs"
    using l by (simp add: image_Un)
  then have "CourseLRU_put k v c = Some ?c"
    using n splice_begin_split [OF l(2), of "(k, v)"] by (simp add: CourseLRU_put_def)
  moreover have "lru_value c = (map_of (map snd (ys @ zs)))(k \<mapsto> w)"
    using k l(1) map_of_move [of k "map snd ys" w "map snd zs"] by (simp add: lru_value_def image_image)
  moreover have "lru_value ?c = (map_of (map snd (ys @ zs)))(k \<mapsto> v)" by (simp add: lru_value_def)
  moreover have "keys_mru_to_lru ?c = k # remove1 k (keys_mru_to_lru c)"
    using k l(1) by (auto simp: keys_mru_to_lru_def remove1_append remove1_idem)
  ultimately show ?thesis using lru_move [OF assms(1) l(1), of v] by auto
qed

text \<open>Room for one more node: the last node goes when the list is full.\<close>

lemma lru_drop_last:
  assumes "lru_inv c" "cl_list c = ys @ [(n, k, w)]"
  shows "lru_inv (c\<lparr>cl_map := (cl_map c)(k := None), cl_list := ys\<rparr>)"
proof -
  have k: "(m, k, u) \<notin> set ys" for m u using assms by (force simp: lru_inv_def keys_mru_to_lru_def)
  have "cl_map c j = Some m \<longleftrightarrow> (\<exists>u. (m, j, u) \<in> set ys)" if "j \<noteq> k" for j m
    using assms that by (auto simp: lru_inv_def)
  then show ?thesis using assms k by (auto simp: lru_inv_def keys_mru_to_lru_def)
qed

lemma lru_push_front:
  assumes "lru_inv c" "k \<notin> set (keys_mru_to_lru c)" "int (length (cl_list c)) < cl_cap c"
  shows "lru_inv (c\<lparr>cl_list := (cl_next c, k, v) # cl_list c, cl_map := (cl_map c)(k \<mapsto> cl_next c), cl_next := cl_next c + 1\<rparr>)"
proof -
  have k: "(m, k, u) \<notin> set (cl_list c)" for m u using assms(2) by (force simp: keys_mru_to_lru_def)
  have "cl_map c j = Some m \<longleftrightarrow> (\<exists>u. (m, j, u) \<in> set (cl_list c))" for j m using assms(1) by (auto simp: lru_inv_def)
  then show ?thesis
    using assms k unfolding lru_inv_def keys_mru_to_lru_def by (auto simp: less_Suc_eq)
qed

theorem CourseLRU_put_miss:
  assumes "lru_inv c" "k \<notin> set (keys_mru_to_lru c)" "0 < cl_cap c"
  shows "\<exists>c'. CourseLRU_put k v c = Some c' \<and> lru_inv c' \<and> lru_value c' k = Some v \<and>
    keys_mru_to_lru c' =
      k # (if cl_cap c \<le> int (length (keys_mru_to_lru c)) then butlast (keys_mru_to_lru c) else keys_mru_to_lru c)"
proof -
  have none: "cl_map c k = None" using keys_of_map [OF assms(1)] assms(2) by simp
  show ?thesis
  proof (cases "cl_cap c \<le> int (length (cl_list c))")
    case True
    then obtain ys n j w where l: "cl_list c = ys @ [(n, j, w)]"
      using assms(3) by (cases "cl_list c" rule: rev_cases) auto
    let ?e = "c\<lparr>cl_map := (cl_map c)(j := None), cl_list := ys\<rparr>"
    have "k \<notin> set (keys_mru_to_lru ?e)" "int (length (cl_list ?e)) < cl_cap ?e"
      using assms(1,2) l by (auto simp: keys_mru_to_lru_def lru_inv_def)
    from lru_push_front [OF lru_drop_last [OF assms(1) l] this, of v] show ?thesis
      using none True l by (auto simp: CourseLRU_put_def keys_mru_to_lru_def lru_value_def butlast_append)
  next
    case False
    then show ?thesis
      using lru_push_front [OF assms(1,2), of v] none by (auto simp: CourseLRU_put_def keys_mru_to_lru_def lru_value_def)
  qed
qed

text \<open>With a capacity of zero the first \<open>put\<close> has no defined behaviour.\<close>

lemma CourseLRU_put_no_capacity: "CourseLRU_put k v (CourseLRU_new 0) = None"
  by (simp add: CourseLRU_put_def CourseLRU_new_def)

end
