(* ===== verification/Course_Concurrency.thy ===== *)
theory Course_Concurrency
  imports Main "HOL-Library.Word"
begin

text \<open>
  \<open>practice/module03_modern_cpp/main.cpp\<close>: the ring buffer for one producer and one consumer, the thread
  pool whose destructor drains the queue, and the owning pointer. Every access of an atomic variable,
  every access of a buffer slot and every critical section is a step of its own, and the steps of the
  parties interleave freely. Ghost fields record what was pushed and popped, submitted and started.

  The lemmas show that the ring is a bounded queue (what is popped is what was pushed, in order, and
  at most \<open>Capacity - 1\<close> items wait), that the pool starts every task it was given before its last worker
  leaves, and that owning pointers never delete an object twice.
\<close>

unbundle bit_operations_syntax

section \<open>SpscRingBuffer\<close>

datatype 'a producer = PIdle | PTail 'a nat | PRoom 'a nat nat | PWrote 'a nat

datatype 'a consumer = CIdle | CHead nat | CFound nat | CRead nat 'a

record 'a SpscRingBuffer =
  rb_buf :: "'a list"
  rb_head :: nat
  rb_tail :: nat
  rb_prod :: "'a producer"
  rb_cons :: "'a consumer"
  rb_pushed :: "'a list"
  rb_popped :: "'a list"

definition kMask :: "nat \<Rightarrow> nat" where
  "kMask capacity = capacity - 1"

definition SpscRingBuffer_new :: "'a list \<Rightarrow> 'a SpscRingBuffer" where
  "SpscRingBuffer_new buf =
     \<lparr>rb_buf = buf, rb_head = 0, rb_tail = 0, rb_prod = PIdle, rb_cons = CIdle, rb_pushed = [], rb_popped = []\<rparr>"

text \<open>\<open>push\<close>: load the tail, load the head and compare, write the slot, store the tail.\<close>

definition push_begin :: "'a \<Rightarrow> 'a SpscRingBuffer \<Rightarrow> 'a SpscRingBuffer" where
  "push_begin item r = r\<lparr>rb_prod := PTail item (rb_tail r)\<rparr>"

definition push_step :: "nat \<Rightarrow> 'a SpscRingBuffer \<Rightarrow> 'a SpscRingBuffer" where
  "push_step capacity r =
     (case rb_prod r of
        PIdle \<Rightarrow> r
      | PTail item t \<Rightarrow>
          let nxt = (t + 1) AND kMask capacity
          in if nxt = rb_head r then r\<lparr>rb_prod := PIdle\<rparr> else r\<lparr>rb_prod := PRoom item t nxt\<rparr>
      | PRoom item t nxt \<Rightarrow> r\<lparr>rb_buf := (rb_buf r)[t := item], rb_prod := PWrote item nxt\<rparr>
      | PWrote item nxt \<Rightarrow> r\<lparr>rb_tail := nxt, rb_prod := PIdle, rb_pushed := rb_pushed r @ [item]\<rparr>)"

text \<open>\<open>pop\<close>: load the head, load the tail and compare, read the slot, store the head.\<close>

definition pop_begin :: "'a SpscRingBuffer \<Rightarrow> 'a SpscRingBuffer" where
  "pop_begin r = r\<lparr>rb_cons := CHead (rb_head r)\<rparr>"

definition pop_step :: "nat \<Rightarrow> 'a SpscRingBuffer \<Rightarrow> 'a SpscRingBuffer" where
  "pop_step capacity r =
     (case rb_cons r of
        CIdle \<Rightarrow> r
      | CHead h \<Rightarrow> if h = rb_tail r then r\<lparr>rb_cons := CIdle\<rparr> else r\<lparr>rb_cons := CFound h\<rparr>
      | CFound h \<Rightarrow> r\<lparr>rb_cons := CRead h (rb_buf r ! h)\<rparr>
      | CRead h v \<Rightarrow> r\<lparr>rb_head := (h + 1) AND kMask capacity, rb_cons := CIdle, rb_popped := rb_popped r @ [v]\<rparr>)"

inductive ring_step :: "nat \<Rightarrow> 'a SpscRingBuffer \<Rightarrow> 'a SpscRingBuffer \<Rightarrow> bool" for capacity where
  push: "rb_prod r = PIdle \<Longrightarrow> ring_step capacity r (push_begin item r)"
| produce: "rb_prod r \<noteq> PIdle \<Longrightarrow> ring_step capacity r (push_step capacity r)"
| pop: "rb_cons r = CIdle \<Longrightarrow> ring_step capacity r (pop_begin r)"
| consume: "rb_cons r \<noteq> CIdle \<Longrightarrow> ring_step capacity r (pop_step capacity r)"

section \<open>ThreadPool\<close>

datatype 't pool_worker = PwWaits | PwRuns 't | PwLeft

record 't DrainPool =
  dp_tasks :: "'t list"
  dp_stop :: bool
  dp_workers :: "'t pool_worker list"
  dp_submitted :: "'t list"
  dp_started :: "'t list"

definition DrainPool_new :: "nat \<Rightarrow> 't DrainPool" where
  "DrainPool_new n =
     \<lparr>dp_tasks = [], dp_stop = False, dp_workers = replicate (if n = 0 then 1 else n) PwWaits, dp_submitted = [], dp_started = []\<rparr>"

text \<open>\<open>submit\<close> asserts that the pool is not stopped; \<open>None\<close> is the failed assertion.\<close>

definition DrainPool_submit :: "'t \<Rightarrow> 't DrainPool \<Rightarrow> 't DrainPool option" where
  "DrainPool_submit t p =
     (if dp_stop p then None else Some (p\<lparr>dp_tasks := dp_tasks p @ [t], dp_submitted := dp_submitted p @ [t]\<rparr>))"

definition DrainPool_stop :: "'t DrainPool \<Rightarrow> 't DrainPool" where
  "DrainPool_stop p = p\<lparr>dp_stop := True\<rparr>"

definition DrainPool_worker :: "nat \<Rightarrow> 't DrainPool \<Rightarrow> 't DrainPool option" where
  "DrainPool_worker i p =
     (if length (dp_workers p) \<le> i then None
      else case dp_workers p ! i of
        PwWaits \<Rightarrow>
          (case dp_tasks p of
             [] \<Rightarrow> if dp_stop p then Some (p\<lparr>dp_workers := (dp_workers p)[i := PwLeft]\<rparr>) else None
           | t # ts \<Rightarrow> Some (p\<lparr>dp_tasks := ts, dp_started := dp_started p @ [t], dp_workers := (dp_workers p)[i := PwRuns t]\<rparr>))
      | PwRuns t \<Rightarrow> Some (p\<lparr>dp_workers := (dp_workers p)[i := PwWaits]\<rparr>)
      | PwLeft \<Rightarrow> None)"

inductive drain_step :: "'t DrainPool \<Rightarrow> 't DrainPool \<Rightarrow> bool" where
  submit: "DrainPool_submit t p = Some p' \<Longrightarrow> drain_step p p'"
| stop: "drain_step p (DrainPool_stop p)"
| work: "DrainPool_worker i p = Some p' \<Longrightarrow> drain_step p p'"

section \<open>UniquePtr\<close>

text \<open>
  Pointers by number, objects by address; \<open>up_live\<close> has the objects that exist. \<open>None\<close> is a second
  deletion. A pointer variable that does not exist (any more) owns nothing.
\<close>

record Pointers =
  up_live :: "nat set"
  up_ptr :: "nat \<Rightarrow> nat option"
  up_fresh :: nat

definition Pointers_new :: Pointers where
  "Pointers_new = \<lparr>up_live = {}, up_ptr = (\<lambda>_. None), up_fresh = 0\<rparr>"

definition delete_object :: "nat \<Rightarrow> Pointers \<Rightarrow> Pointers option" where
  "delete_object a s = (if a \<in> up_live s then Some (s\<lparr>up_live := up_live s - {a}\<rparr>) else None)"

definition UniquePtr_reset :: "nat \<Rightarrow> nat option \<Rightarrow> Pointers \<Rightarrow> Pointers option" where
  "UniquePtr_reset x p s =
     (case (case up_ptr s x of None \<Rightarrow> Some s | Some a \<Rightarrow> delete_object a s) of
        None \<Rightarrow> None
      | Some s \<Rightarrow> Some (s\<lparr>up_ptr := (up_ptr s)(x := p)\<rparr>))"

definition MakeUnique :: "nat \<Rightarrow> Pointers \<Rightarrow> Pointers" where
  "MakeUnique x s = s\<lparr>up_live := insert (up_fresh s) (up_live s), up_ptr := (up_ptr s)(x := Some (up_fresh s)), up_fresh := up_fresh s + 1\<rparr>"

definition UniquePtr_move :: "nat \<Rightarrow> nat \<Rightarrow> Pointers \<Rightarrow> Pointers" where
  "UniquePtr_move x other s = s\<lparr>up_ptr := (up_ptr s)(x := up_ptr s other, other := None)\<rparr>"

definition UniquePtr_assign :: "nat \<Rightarrow> nat \<Rightarrow> Pointers \<Rightarrow> Pointers option" where
  "UniquePtr_assign x other s =
     (if x = other then Some s
      else case UniquePtr_reset x None s of
        None \<Rightarrow> None
      | Some s \<Rightarrow> Some (s\<lparr>up_ptr := (up_ptr s)(x := up_ptr s other, other := None)\<rparr>))"

definition UniquePtr_release :: "nat \<Rightarrow> Pointers \<Rightarrow> nat option \<times> Pointers" where
  "UniquePtr_release x s = (up_ptr s x, s\<lparr>up_ptr := (up_ptr s)(x := None)\<rparr>)"

text \<open>
  What a program does with its pointers. A variable that is constructed is a new one, and what
  \<open>release\<close> returned is leaked or deleted by hand.
\<close>

datatype ptr_op = OpMake nat | OpMove nat nat | OpAssign nat nat | OpReset nat | OpRelease nat | OpDestroy nat

fun run_ptr_op :: "ptr_op \<Rightarrow> Pointers \<Rightarrow> Pointers option" where
  "run_ptr_op (OpMake x) s = (if up_ptr s x = None then Some (MakeUnique x s) else Some s)"
| "run_ptr_op (OpMove x y) s = (if up_ptr s x = None \<and> x \<noteq> y then Some (UniquePtr_move x y s) else Some s)"
| "run_ptr_op (OpAssign x y) s = UniquePtr_assign x y s"
| "run_ptr_op (OpReset x) s = UniquePtr_reset x None s"
| "run_ptr_op (OpRelease x) s = Some (snd (UniquePtr_release x s))"
| "run_ptr_op (OpDestroy x) s = UniquePtr_reset x None s"

fun ptr_ops :: "ptr_op list \<Rightarrow> Pointers \<Rightarrow> Pointers option" where
  "ptr_ops [] s = Some s"
| "ptr_ops (p # ps) s = (case run_ptr_op p s of None \<Rightarrow> None | Some s \<Rightarrow> ptr_ops ps s)"

section \<open>The ring is a bounded queue\<close>

lemma mask_mod: "capacity = 2 ^ k \<Longrightarrow> x AND kMask capacity = x mod (capacity :: nat)"
  by (simp only: kMask_def mask_eq_exp_minus_1 [symmetric] take_bit_eq_mask [symmetric] take_bit_eq_mod)

definition ring_window :: "nat \<Rightarrow> 'a SpscRingBuffer \<Rightarrow> 'a list \<Rightarrow> bool" where
  "ring_window capacity r w \<longleftrightarrow>
     length (rb_buf r) = capacity \<and> rb_head r < capacity \<and> length w < capacity \<and>
     rb_tail r = (rb_head r + length w) mod capacity \<and> rb_pushed r = rb_popped r @ w \<and>
     (\<forall>i<length w. rb_buf r ! ((rb_head r + i) mod capacity) = w ! i)"

definition prod_ok :: "nat \<Rightarrow> 'a SpscRingBuffer \<Rightarrow> 'a list \<Rightarrow> bool" where
  "prod_ok capacity r w =
     (case rb_prod r of
        PIdle \<Rightarrow> True
      | PTail item t \<Rightarrow> t = rb_tail r
      | PRoom item t nxt \<Rightarrow> t = rb_tail r \<and> nxt = (rb_tail r + 1) mod capacity \<and> length w + 1 < capacity
      | PWrote item nxt \<Rightarrow> nxt = (rb_tail r + 1) mod capacity \<and> length w + 1 < capacity \<and> rb_buf r ! rb_tail r = item)"

definition cons_ok :: "'a SpscRingBuffer \<Rightarrow> 'a list \<Rightarrow> bool" where
  "cons_ok r w =
     (case rb_cons r of
        CIdle \<Rightarrow> True
      | CHead h \<Rightarrow> h = rb_head r
      | CFound h \<Rightarrow> h = rb_head r \<and> w \<noteq> []
      | CRead h v \<Rightarrow> h = rb_head r \<and> w \<noteq> [] \<and> v = hd w)"

definition ring_inv :: "nat \<Rightarrow> 'a SpscRingBuffer \<Rightarrow> bool" where
  "ring_inv capacity r \<longleftrightarrow> (\<exists>w. ring_window capacity r w \<and> prod_ok capacity r w \<and> cons_ok r w)"

lemma mod_shift_neq: "i < j \<Longrightarrow> j < (c :: nat) \<Longrightarrow> (h + i) mod c \<noteq> (h + j) mod c"
proof
  assume a: "i < j" "j < c" "(h + i) mod c = (h + j) mod c"
  then have "c dvd (h + j) - (h + i)" by (intro mod_eq_dvd_iff_nat [THEN iffD1]) auto
  then show False using a(1,2) by (auto dest: dvd_imp_le)
qed

lemma ring_new_inv: "length buf = capacity \<Longrightarrow> 2 \<le> capacity \<Longrightarrow> ring_inv capacity (SpscRingBuffer_new buf)"
  by (auto simp: ring_inv_def ring_window_def prod_ok_def cons_ok_def SpscRingBuffer_new_def intro!: exI [of _ "[]"])

lemma push_step_inv:
  assumes "ring_inv capacity r" "capacity = 2 ^ k" "2 \<le> capacity" "rb_prod r \<noteq> PIdle"
  shows "ring_inv capacity (push_step capacity r)"
proof -
  obtain w where w: "ring_window capacity r w" "prod_ok capacity r w" "cons_ok r w" using assms(1) by (auto simp: ring_inv_def)
  note m = mask_mod [OF assms(2)]
  have tail: "rb_tail r < capacity" using w(1) assms(3) by (simp add: ring_window_def)
  show ?thesis
  proof (cases "rb_prod r")
    case (PTail item t)
    have "length w + 1 < capacity" if "(rb_tail r + 1) mod capacity \<noteq> rb_head r"
    proof (rule ccontr)
      assume "\<not> length w + 1 < capacity"
      then have "length w + 1 = capacity" using w(1) by (simp add: ring_window_def)
      then have "rb_head r + length w + 1 = rb_head r + capacity" by simp
      moreover have "(rb_tail r + 1) mod capacity = (rb_head r + length w + 1) mod capacity" using w(1) by (simp add: ring_window_def mod_Suc_eq)
      ultimately have "(rb_tail r + 1) mod capacity = (rb_head r + capacity) mod capacity" by (simp only:)
      then show False using that w(1) by (simp add: ring_window_def)
    qed
    then show ?thesis using w PTail m by (auto simp: ring_inv_def push_step_def Let_def ring_window_def prod_ok_def cons_ok_def intro!: exI [of _ w] split: consumer.splits)
  next
    case (PRoom item t nxt)
    then have t: "t = rb_tail r" "nxt = (rb_tail r + 1) mod capacity" "length w + 1 < capacity" using w(2) by (auto simp: prod_ok_def)
    have "(rb_buf r)[t := item] ! ((rb_head r + i) mod capacity) = w ! i" if "i < length w" for i
      using mod_shift_neq [OF that, of capacity "rb_head r"] w(1) t(1) that by (simp add: ring_window_def)
    then show ?thesis using w PRoom t tail
      by (auto simp: ring_inv_def push_step_def ring_window_def prod_ok_def cons_ok_def intro!: exI [of _ w] split: consumer.splits)
  next
    case (PWrote item nxt)
    then have n: "nxt = (rb_tail r + 1) mod capacity" "length w + 1 < capacity" "rb_buf r ! rb_tail r = item" using w(2) by (auto simp: prod_ok_def)
    have "ring_window capacity (push_step capacity r) (w @ [item])"
      using w(1) n PWrote by (auto simp: ring_window_def push_step_def nth_append mod_Suc_eq less_Suc_eq)
    moreover have "cons_ok (push_step capacity r) (w @ [item])" using w(3) PWrote by (auto simp: cons_ok_def push_step_def split: consumer.splits)
    ultimately show ?thesis using PWrote by (auto simp: ring_inv_def prod_ok_def push_step_def intro!: exI [of _ "w @ [item]"])
  qed (use assms(4) in simp)
qed

lemma pop_step_inv:
  assumes "ring_inv capacity r" "capacity = 2 ^ k" "2 \<le> capacity" "rb_cons r \<noteq> CIdle"
  shows "ring_inv capacity (pop_step capacity r)"
proof -
  obtain w where w: "ring_window capacity r w" "prod_ok capacity r w" "cons_ok r w" using assms(1) by (auto simp: ring_inv_def)
  note m = mask_mod [OF assms(2)]
  show ?thesis
  proof (cases "rb_cons r")
    case (CHead h)
    have "w \<noteq> []" if "rb_head r \<noteq> rb_tail r" using that w(1) by (auto simp: ring_window_def)
    then show ?thesis using w CHead by (auto simp: ring_inv_def pop_step_def ring_window_def prod_ok_def cons_ok_def intro!: exI [of _ w] split: producer.splits)
  next
    case (CFound h)
    then have "h = rb_head r" "w \<noteq> []" using w(3) by (auto simp: cons_ok_def)
    moreover from this have "rb_buf r ! h = hd w" using w(1) by (auto simp: ring_window_def hd_conv_nth)
    ultimately show ?thesis using w CFound by (auto simp: ring_inv_def pop_step_def ring_window_def prod_ok_def cons_ok_def intro!: exI [of _ w] split: producer.splits)
  next
    case (CRead h v)
    then have h: "h = rb_head r" "w \<noteq> []" "v = hd w" using w(3) by (auto simp: cons_ok_def)
    then obtain ws where ws: "w = v # ws" by (cases w) auto
    let ?h = "(rb_head r + 1) mod capacity"
    have sh: "(?h + i) mod capacity = (rb_head r + Suc i) mod capacity" for i by (simp add: mod_simps)
    have "ring_window capacity (pop_step capacity r) ws"
      unfolding ring_window_def using w(1) CRead h(1) m assms(3) sh by (auto simp: ring_window_def pop_step_def ws simp del: mod_Suc_eq)
    moreover have "prod_ok capacity (pop_step capacity r) ws" using w(2) CRead ws by (auto simp: prod_ok_def pop_step_def split: producer.splits)
    ultimately show ?thesis using CRead by (auto simp: ring_inv_def cons_ok_def pop_step_def intro!: exI [of _ ws])
  qed (use assms(4) in simp)
qed

lemma ring_step_inv:
  assumes "ring_step capacity r r'" "capacity = 2 ^ k" "2 \<le> capacity" "ring_inv capacity r"
  shows "ring_inv capacity r'"
  using assms(1)
proof cases
  case (push item)
  then show ?thesis using assms(4) by (auto simp: ring_inv_def ring_window_def prod_ok_def cons_ok_def push_begin_def split: consumer.splits)
next
  case produce
  then show ?thesis using push_step_inv [OF assms(4,2,3)] by simp
next
  case pop
  then show ?thesis using assms(4) by (auto simp: ring_inv_def ring_window_def prod_ok_def cons_ok_def pop_begin_def split: producer.splits)
next
  case consume
  then show ?thesis using pop_step_inv [OF assms(4,2,3)] by simp
qed

lemma ring_run_inv:
  assumes "(ring_step capacity)\<^sup>*\<^sup>* (SpscRingBuffer_new buf) r" "length buf = capacity" "capacity = 2 ^ k" "2 \<le> capacity"
  shows "ring_inv capacity r"
  using assms(1)
proof (induction rule: rtranclp_induct)
  case base
  show ?case by (rule ring_new_inv [OF assms(2,4)])
next
  case (step r1 r2)
  show ?case by (rule ring_step_inv [OF step(2) assms(3,4) step(3)])
qed

text \<open>The producer gives up only when \<open>Capacity - 1\<close> items wait, the consumer only when none does.\<close>

lemma push_fails_full:
  assumes "ring_window capacity r w" "prod_ok capacity r w" "capacity = 2 ^ k" "rb_prod r = PTail item t" "rb_prod (push_step capacity r) = PIdle"
  shows "length w = capacity - 1"
proof -
  have "(rb_head r + (length w + 1)) mod capacity = rb_head r mod capacity"
    using assms mask_mod [OF assms(3)] by (auto simp: push_step_def Let_def prod_ok_def ring_window_def mod_Suc_eq split: if_splits)
  then have "\<not> length w + 1 < capacity" using mod_shift_neq [of 0 "length w + 1" capacity "rb_head r"] by auto
  moreover have "length w < capacity" using assms(1) by (simp add: ring_window_def)
  ultimately show ?thesis by simp
qed

lemma pop_fails_empty:
  assumes "ring_window capacity r w" "cons_ok r w" "rb_cons r = CHead h" "rb_cons (pop_step capacity r) = CIdle"
  shows "w = []"
proof -
  have "(rb_head r + length w) mod capacity = (rb_head r + 0) mod capacity"
    using assms by (auto simp: pop_step_def cons_ok_def ring_window_def split: if_splits)
  then show ?thesis using mod_shift_neq [of 0 "length w" capacity "rb_head r"] assms(1) by (cases w) (auto simp: ring_window_def)
qed

lemma ring_fifo:
  assumes "ring_inv capacity r" "capacity = 2 ^ k"
  shows "\<exists>w. rb_pushed r = rb_popped r @ w \<and> length w < capacity \<and>
    (\<forall>item t. rb_prod r = PTail item t \<longrightarrow> rb_prod (push_step capacity r) = PIdle \<longrightarrow> length w = capacity - 1) \<and>
    (\<forall>h. rb_cons r = CHead h \<longrightarrow> rb_cons (pop_step capacity r) = CIdle \<longrightarrow> w = [])"
proof -
  from assms(1) obtain w where w: "ring_window capacity r w" "prod_ok capacity r w" "cons_ok r w" by (auto simp: ring_inv_def)
  have "rb_pushed r = rb_popped r @ w" "length w < capacity" using w(1) by (simp_all add: ring_window_def)
  then show ?thesis using push_fails_full [OF w(1,2) assms(2)] pop_fails_empty [OF w(1,3)] by blast
qed

section \<open>The pool drains its queue\<close>

definition drain_inv :: "'t DrainPool \<Rightarrow> bool" where
  "drain_inv p \<longleftrightarrow> dp_submitted p = dp_started p @ dp_tasks p \<and> (PwLeft \<in> set (dp_workers p) \<longrightarrow> dp_stop p \<and> dp_tasks p = [])"

lemma drain_worker_inv: "DrainPool_worker i p = Some p' \<Longrightarrow> drain_inv p \<Longrightarrow> drain_inv p'"
  by (auto simp: DrainPool_worker_def drain_inv_def split: if_splits pool_worker.splits list.splits dest!: set_update_subset_insert [THEN subsetD])

lemma drain_step_inv:
  assumes "drain_step p p'" "drain_inv p"
  shows "drain_inv p'"
  using assms(1)
proof cases
  case (work i)
  then show ?thesis using drain_worker_inv assms(2) by blast
qed (use assms(2) in \<open>auto simp: DrainPool_submit_def DrainPool_stop_def drain_inv_def split: if_splits\<close>)

text \<open>When the destructor has joined its workers, every submitted task was started, in order.\<close>

theorem drain_pool_complete:
  assumes "drain_step\<^sup>*\<^sup>* (DrainPool_new n) p" "dp_workers p = replicate m PwLeft" "0 < m"
  shows "dp_started p = dp_submitted p"
proof -
  have "drain_inv p"
    using assms(1)
  proof (induction rule: rtranclp_induct)
    case base
    show ?case by (simp add: drain_inv_def DrainPool_new_def)
  qed (rule drain_step_inv)
  then show ?thesis using assms(2,3) by (auto simp: drain_inv_def)
qed

section \<open>No object is deleted twice\<close>

definition owners_ok :: "Pointers \<Rightarrow> bool" where
  "owners_ok s \<longleftrightarrow> inj_on (up_ptr s) {x. up_ptr s x \<noteq> None} \<and> (\<forall>x a. up_ptr s x = Some a \<longrightarrow> a \<in> up_live s) \<and> (\<forall>a\<in>up_live s. a < up_fresh s)"

lemma UniquePtr_reset_ok:
  assumes "owners_ok s"
  shows "\<exists>s'. UniquePtr_reset x None s = Some s' \<and> owners_ok s' \<and> up_ptr s' = (up_ptr s)(x := None)"
proof (cases "up_ptr s x")
  case None
  then show ?thesis using assms by (auto simp: UniquePtr_reset_def fun_upd_idem)
next
  case (Some a)
  then have "a \<in> up_live s" using assms by (auto simp: owners_ok_def)
  moreover have "y = x" if "up_ptr s y = Some a" for y using assms Some that by (auto simp: owners_ok_def inj_on_def)
  ultimately show ?thesis using assms Some
    by (auto simp: UniquePtr_reset_def delete_object_def owners_ok_def inj_on_def split: if_splits)
qed

lemma UniquePtr_move_ok: "owners_ok s \<Longrightarrow> up_ptr s x = None \<Longrightarrow> x \<noteq> y \<Longrightarrow> owners_ok (UniquePtr_move x y s)"
  by (auto simp: owners_ok_def UniquePtr_move_def inj_on_def split: if_splits)

lemma MakeUnique_ok: "owners_ok s \<Longrightarrow> up_ptr s x = None \<Longrightarrow> owners_ok (MakeUnique x s)"
  by (fastforce simp: owners_ok_def MakeUnique_def inj_on_def split: if_splits)

lemma UniquePtr_assign_ok: "owners_ok s \<Longrightarrow> \<exists>s'. UniquePtr_assign x y s = Some s' \<and> owners_ok s'"
proof (cases "x = y")
  case False
  assume ok: "owners_ok s"
  obtain s1 where s1: "UniquePtr_reset x None s = Some s1" "owners_ok s1" "up_ptr s1 = (up_ptr s)(x := None)"
    using UniquePtr_reset_ok [OF ok] by blast
  then show ?thesis using UniquePtr_move_ok [OF s1(2), of x y] False by (simp add: UniquePtr_assign_def UniquePtr_move_def)
qed (simp add: UniquePtr_assign_def)

lemma run_ptr_op_ok: "owners_ok s \<Longrightarrow> \<exists>s'. run_ptr_op p s = Some s' \<and> owners_ok s'"
proof (cases p)
  case (OpRelease x)
  assume "owners_ok s"
  then show ?thesis using OpRelease by (auto simp: UniquePtr_release_def owners_ok_def inj_on_def split: if_splits)
qed (auto simp: MakeUnique_ok UniquePtr_move_ok UniquePtr_assign_ok dest: UniquePtr_reset_ok)

theorem unique_ptr_safe: "\<exists>s. ptr_ops ps Pointers_new = Some s \<and> owners_ok s"
proof -
  have "owners_ok s \<Longrightarrow> \<exists>s'. ptr_ops ps s = Some s' \<and> owners_ok s'" for s
  proof (induction ps arbitrary: s)
    case (Cons p ps)
    obtain s1 where "run_ptr_op p s = Some s1" "owners_ok s1" using run_ptr_op_ok [OF Cons.prems] by blast
    then show ?case using Cons.IH by simp
  qed simp
  moreover have "owners_ok Pointers_new" by (simp add: owners_ok_def Pointers_new_def)
  ultimately show ?thesis by blast
qed

end
