(* ===== verification/Course_Services.thy ===== *)
theory Course_Services
  imports Std_String
begin

text \<open>
  \<open>practice/module04_go_ts_concepts/main.cpp\<close> and \<open>practice/module12_microservices_concepts/main.cpp\<close>: a channel
  with \<open>Close\<close>, integers parsed into a result, Base64, signed tokens and a chain of
  middleware. \<open>b64encode\<close> shifts an \<open>int\<close> to the left past its width, which C++17 leaves undefined; the model
  keeps the low 32 bits, as the compilers do. The token bucket computes in floating point on
  the clock and is left out.

  A channel delivers what was sent, once and in order, and is drained before a receiver sees that
  it is closed; parsing gives back every printed number; \<open>b64encode\<close> is the encoding of RFC 4648; an issued token is
  accepted; a middleware that aborts keeps the request from the rest of the chain.
\<close>

section \<open>Channels\<close>

record 'a Channel =
  ch_q :: "'a list"
  ch_closed :: bool

definition Channel_new :: "'a Channel" where
  "Channel_new = \<lparr>ch_q = [], ch_closed = False\<rparr>"

definition Channel_Send :: "'a \<Rightarrow> 'a Channel \<Rightarrow> bool \<times> 'a Channel" where
  "Channel_Send v c = (if ch_closed c then (False, c) else (True, c\<lparr>ch_q := ch_q c @ [v]\<rparr>))"

text \<open>\<open>Recv\<close>: \<open>None\<close> while the caller waits, and otherwise what it returns.\<close>

definition Channel_Recv :: "'a Channel \<Rightarrow> ('a option \<times> 'a Channel) option" where
  "Channel_Recv c =
     (if \<not> (ch_closed c \<or> ch_q c \<noteq> []) then None
      else case ch_q c of [] \<Rightarrow> Some (None, c) | v # q \<Rightarrow> Some (Some v, c\<lparr>ch_q := q\<rparr>))"

definition Channel_Close :: "'a Channel \<Rightarrow> 'a Channel" where
  "Channel_Close c = c\<lparr>ch_closed := True\<rparr>"

text \<open>Senders and receivers in any interleaving, with the values whose \<open>Send\<close> returned true and the values received.\<close>

inductive channel_run :: "'a list \<Rightarrow> 'a list \<Rightarrow> 'a Channel \<Rightarrow> bool" where
  channel_start: "channel_run [] [] Channel_new"
| channel_send: "channel_run sent got c \<Longrightarrow> Channel_Send v c = (ok, c') \<Longrightarrow> channel_run (if ok then sent @ [v] else sent) got c'"
| channel_recv: "channel_run sent got c \<Longrightarrow> Channel_Recv c = Some (r, c') \<Longrightarrow>
    channel_run sent (case r of None \<Rightarrow> got | Some v \<Rightarrow> got @ [v]) c'"
| channel_close: "channel_run sent got c \<Longrightarrow> channel_run sent got (Channel_Close c)"

section \<open>Results\<close>

datatype ('t, 'e) Result = ResultOk 't | ResultErr 'e

fun is_ok :: "('t, 'e) Result \<Rightarrow> bool" where
  "is_ok (ResultOk v) = True"
| "is_ok (ResultErr e) = False"

text \<open>The number of characters \<open>std::stoi\<close> consumed.\<close>

definition stoi_idx :: "bytes \<Rightarrow> nat" where
  "stoi_idx s =
     (let t = dropWhile isspace s;
          u = (if t \<noteq> [] \<and> (hd t = 45 \<or> hd t = 43) then tl t else t)
      in length s - length u + length (takeWhile is_digit u))"

definition ParseIntLikeTS :: "bytes \<Rightarrow> (int, bytes) Result" where
  "ParseIntLikeTS s =
     (case stoi s of
        Inl e \<Rightarrow> ResultErr (str ''parse failed'')
      | Inr v \<Rightarrow> if stoi_idx s \<noteq> length s then ResultErr (str ''trailing junk'') else ResultOk v)"

section \<open>Base64 and tokens\<close>

definition B64 :: bytes where
  "B64 = str ''ABCDEFGHIJKLMNOPQRSTUVWXYZabcdefghijklmnopqrstuvwxyz0123456789+/''"

definition b64_char :: "u32 \<Rightarrow> byte" where
  "b64_char w = B64 ! unat (w AND 63)"

function b64_emit :: "u32 \<Rightarrow> bytes \<Rightarrow> int \<Rightarrow> bytes \<times> int" where
  "b64_emit val out valb =
     (if 0 \<le> valb then b64_emit val (out @ [b64_char (drop_bit (nat valb) val)]) (valb - 6) else (out, valb))"
  by pat_completeness auto
termination
  by (relation "measure (\<lambda>(val, out, valb). nat (valb + 6))") auto

declare b64_emit.simps [simp del]

definition b64_byte :: "bytes \<times> u32 \<times> int \<Rightarrow> byte \<Rightarrow> bytes \<times> u32 \<times> int" where
  "b64_byte s c =
     (let (out, val, valb) = s;
          val = push_bit 8 val + ucast c;
          (out, valb) = b64_emit val out (valb + 8)
      in (out, val, valb))"

definition b64encode :: "bytes \<Rightarrow> bytes" where
  "b64encode s =
     (let (out, val, valb) = foldl b64_byte ([], 0, - 6) s;
          out = (if - 6 < valb then out @ [b64_char (drop_bit (nat (valb + 8)) (push_bit 8 val))] else out)
      in out @ replicate ((4 - length out mod 4) mod 4) 61)"

text \<open>\<open>i % secret.size()\<close> divides by zero for an empty secret and any data: \<open>None\<close>.\<close>

definition toy_sign :: "bytes \<Rightarrow> bytes \<Rightarrow> bytes option" where
  "toy_sign data secret =
     (if data \<noteq> [] \<and> secret = [] then None
      else let h = foldl (\<lambda>h i. h * 131 + ucast (data ! i) + ucast (secret ! (i mod length secret))) (0 :: u32) [0..<length data]
           in Some (b64encode (to_digits (unat h))))"

definition token_body :: "bytes \<Rightarrow> bytes" where
  "token_body sub = b64encode (str ''{\"alg\":\"TOY\"}'') @ str ''.'' @ b64encode (str ''{\"sub\":\"'' @ sub @ str ''\"}'')"

definition IssueToken :: "bytes \<Rightarrow> bytes \<Rightarrow> bytes option" where
  "IssueToken sub secret = map_option (\<lambda>sig. token_body sub @ str ''.'' @ sig) (toy_sign (token_body sub) secret)"

definition VerifyToken :: "bytes \<Rightarrow> bytes \<Rightarrow> bool option" where
  "VerifyToken token secret =
     (if 46 \<notin> set token then Some False
      else let p2 = length (dropWhile (\<lambda>c. c \<noteq> 46) (rev token)) - 1
           in map_option (\<lambda>sig. drop (p2 + 1) token = sig) (toy_sign (take p2 token) secret))"

section \<open>Middleware\<close>

record Context =
  cx_path :: bytes
  cx_token :: bytes
  cx_body :: bytes
  cx_status :: int
  cx_aborted :: bool

definition abort_with :: "int \<Rightarrow> bytes \<Rightarrow> Context \<Rightarrow> Context" where
  "abort_with c m ctx = ctx\<lparr>cx_status := c, cx_body := m, cx_aborted := True\<rparr>"

type_synonym CtxHandler = "Context \<Rightarrow> Context"
type_synonym CtxMiddleware = "Context \<Rightarrow> CtxHandler \<Rightarrow> Context"

definition Chain :: "CtxMiddleware list \<Rightarrow> CtxHandler \<Rightarrow> CtxHandler" where
  "Chain mws final_handler =
     fold (\<lambda>mw next ctx. if \<not> cx_aborted ctx then mw ctx next else ctx) (rev mws) final_handler"

text \<open>\<open>Auth\<close> of \<open>main\<close>, with a secret that is not empty.\<close>

definition Auth :: "bytes \<Rightarrow> CtxMiddleware" where
  "Auth secret ctx next =
     (if VerifyToken (cx_token ctx) secret \<noteq> Some True then abort_with 401 (str ''unauthorized'') ctx else next ctx)"

section \<open>What a channel delivers\<close>

lemma channel_run_queue: "channel_run sent got c \<Longrightarrow> sent = got @ ch_q c"
  by (induction rule: channel_run.induct)
    (auto simp: Channel_new_def Channel_Send_def Channel_Recv_def Channel_Close_def split: if_splits list.splits)

theorem channel_drained:
  assumes "channel_run sent got c" "Channel_Recv c = Some (r, c')"
  shows "r = None \<Longrightarrow> got = sent \<and> ch_closed c" "r = Some v \<Longrightarrow> \<exists>rest. sent = got @ v # rest"
  using channel_run_queue [OF assms(1)] assms(2) by (auto simp: Channel_Recv_def split: if_splits list.splits)

section \<open>Parsing what was printed\<close>

theorem ParseIntLikeTS_printed:
  assumes "n < 2 ^ 31"
  shows "ParseIntLikeTS (to_digits n) = ResultOk (int n)"
    "c \<noteq> [] \<Longrightarrow> \<not> is_digit (hd c) \<Longrightarrow> ParseIntLikeTS (to_digits n @ c) = ResultErr (str ''trailing junk'')"
proof -
  obtain d ds where d: "to_digits n = d # ds" by (cases "to_digits n") auto
  have all: "list_all is_digit (to_digits n)" using to_digits_digits by auto
  from isspace_digit [of d] all d have h: "\<not> isspace d" "d \<noteq> 45" "d \<noteq> 43" by auto
  have tw: "takeWhile is_digit (to_digits n @ c) = to_digits n" if "c = [] \<or> \<not> is_digit (hd c)" for c
    using all that by (cases c) (auto simp: list_all_iff takeWhile_append2)
  have idx: "stoi_idx (to_digits n @ c) = length (to_digits n)" if "c = [] \<or> \<not> is_digit (hd c)" for c
    using tw [OF that] h by (simp add: stoi_idx_def d Let_def)
  have val: "stoi (to_digits n @ c) = Inr (int n)" if "c = [] \<or> \<not> is_digit (hd c)" for c
    using scan_number_to_digits [OF that, of n] assms by (simp add: stoi_def)
  show "ParseIntLikeTS (to_digits n) = ResultOk (int n)" using idx [of "[]"] val [of "[]"] by (simp add: ParseIntLikeTS_def)
  show "ParseIntLikeTS (to_digits n @ c) = ResultErr (str ''trailing junk'')" if "c \<noteq> []" "\<not> is_digit (hd c)"
    using idx [of c] val [of c] that by (simp add: ParseIntLikeTS_def)
qed

section \<open>Base64\<close>

text \<open>RFC 4648: three bytes give four digits of six bits, a shorter last group is padded.\<close>

definition b64_digit :: "nat \<Rightarrow> byte" where
  "b64_digit n = B64 ! n"

fun b64_spec :: "bytes \<Rightarrow> bytes" where
  "b64_spec (a # b # c # rest) =
     b64_digit (unat a div 4) # b64_digit (unat a mod 4 * 16 + unat b div 16) #
     b64_digit (unat b mod 16 * 4 + unat c div 64) # b64_digit (unat c mod 64) # b64_spec rest"
| "b64_spec [a, b] =
     [b64_digit (unat a div 4), b64_digit (unat a mod 4 * 16 + unat b div 16), b64_digit (unat b mod 16 * 4), 61]"
| "b64_spec [a] = [b64_digit (unat a div 4), b64_digit (unat a mod 4 * 16), 61, 61]"
| "b64_spec [] = []"

lemma unat_and_63: "unat (w AND 63 :: u32) = unat w mod 64"
proof -
  have "w AND 63 = take_bit 6 w" by (simp add: take_bit_eq_mask mask_eq_exp_minus_1)
  then show ?thesis by (simp only: unsigned_take_bit_eq) (simp add: take_bit_eq_mod)
qed

lemma b64_char_digit: "b64_char (drop_bit n w) = b64_digit (unat w div 2 ^ n mod 64)"
  by (simp only: b64_char_def b64_digit_def unat_and_63 unat_drop_bit_eq) (simp add: drop_bit_eq_div)

lemma unat_b64_val: "unat (push_bit 8 v + ucast (c :: byte) :: u32) = (unat v * 256 + unat c) mod 2 ^ 32"
proof -
  have "push_bit 8 v + ucast c = (word_of_nat (unat v * 256 + unat c) :: u32)"
    by (simp add: push_bit_eq_mult mult.commute)
  then show ?thesis by (simp only: unat_of_nat) simp
qed

lemma b64_emits:
  "b64_emit val out 2 = (out @ [b64_char (drop_bit 2 val)], - 4)"
  "b64_emit val out 4 = (out @ [b64_char (drop_bit 4 val)], - 2)"
  "b64_emit val out 6 = (out @ [b64_char (drop_bit 6 val), b64_char (drop_bit 0 val)], - 6)"
  by (simp_all add: b64_emit.simps)

lemma low_bits: "k \<le> 24 \<Longrightarrow> x mod 2 ^ 32 div 2 ^ k mod 64 = (x :: nat) div 2 ^ k mod 64"
proof -
  assume "k \<le> 24"
  then have "take_bit 6 (drop_bit k (take_bit 32 x)) = take_bit 6 (drop_bit k x)"
    by (intro bit_eqI) (auto simp: bit_simps)
  then show ?thesis by (simp add: take_bit_eq_mod drop_bit_eq_div)
qed

text \<open>The digit that a byte \<open>c\<close> behind the accumulated \<open>v\<close> gives at bit \<open>k\<close> does not see the bits that were shifted out.\<close>

lemma b64_digit_at:
  "k \<le> 24 \<Longrightarrow> b64_char (drop_bit k (push_bit 8 v + ucast (c :: byte))) = b64_digit ((unat v * 256 + unat c) div 2 ^ k mod 64)"
  by (simp only: b64_char_digit unat_b64_val low_bits)

lemma b64_val_mod: "unat (push_bit 8 v + ucast (c :: byte) :: u32) mod 4 = unat c mod 4"
  "unat (push_bit 8 v + ucast (c :: byte) :: u32) mod 16 = unat c mod 16"
proof -
  have "(x mod 2 ^ 32) mod 4 = x mod 4" "(x mod 2 ^ 32) mod 16 = x mod 16" for x :: nat
    by (simp_all add: mod_mod_cancel)
  moreover have "(unat v * 256 + unat c) mod 4 = unat c mod 4" "(unat v * 256 + unat c) mod 16 = unat c mod 16"
    using mod_mult_self3 [of "unat v * 64" 4 "unat c"] mod_mult_self3 [of "unat v * 16" 16 "unat c"]
    by (simp_all add: mult.commute)
  ultimately show "unat (push_bit 8 v + ucast (c :: byte) :: u32) mod 4 = unat c mod 4"
    "unat (push_bit 8 v + ucast (c :: byte) :: u32) mod 16 = unat c mod 16" by (simp_all only: unat_b64_val)
qed

lemma byte_less: "unat (c :: byte) < 256"
  using unsigned_less [of c] by simp

lemma six_bits:
  assumes "c < 256"
  shows "(x * 256 + c) div 4 mod 64 = c div 4" "(x * 256 + c) div 16 mod 64 = x mod 4 * 16 + c div 16"
    "(x * 256 + c) div 64 mod 64 = x mod 16 * 4 + c div 64" "(x * 256 + c) mod 64 = (c :: nat) mod 64"
proof -
  have d: "(x * 256 + c) div 4 = x * 64 + c div 4" "(x * 256 + c) div 16 = x * 16 + c div 16"
    "(x * 256 + c) div 64 = x * 4 + c div 64" by linarith+
  have lt: "c div 4 < 64" "c div 16 < 16" "c div 64 < 4" using assms by linarith+
  show "(x * 256 + c) div 4 mod 64 = c div 4" using lt by (simp add: d)
  show "(x * 256 + c) div 16 mod 64 = x mod 4 * 16 + c div 16"
    using mod_mult2_eq [of "x * 16 + c div 16" 16 4] lt by (simp add: d)
  show "(x * 256 + c) div 64 mod 64 = x mod 16 * 4 + c div 64"
    using mod_mult2_eq [of "x * 4 + c div 64" 4 16] lt by (simp add: d)
  show "(x * 256 + c) mod 64 = c mod 64" using mod_mult_self3 [of "x * 4" 64 c] by (simp add: mult.commute)
qed

lemma b64_chars:
  "b64_char (drop_bit 2 (push_bit 8 v + ucast (c :: byte))) = b64_digit (unat c div 4)"
  "b64_char (drop_bit 4 (push_bit 8 v + ucast (c :: byte))) = b64_digit (unat v mod 4 * 16 + unat c div 16)"
  "b64_char (drop_bit 6 (push_bit 8 v + ucast (c :: byte))) = b64_digit (unat v mod 16 * 4 + unat c div 64)"
  "b64_char (drop_bit 0 (push_bit 8 v + ucast (c :: byte))) = b64_digit (unat c mod 64)"
  using b64_digit_at [of 2 v c] b64_digit_at [of 4 v c] b64_digit_at [of 6 v c] b64_digit_at [of 0 v c]
    six_bits [OF byte_less [of c], of "unat v"] by simp_all

text \<open>One byte, in each of the three states of the loop.\<close>

lemma b64_bytes:
  "b64_byte (out, v, - 6) c = (out @ [b64_digit (unat c div 4)], push_bit 8 v + ucast c, - 4)"
  "b64_byte (out, v, - 4) c = (out @ [b64_digit (unat v mod 4 * 16 + unat c div 16)], push_bit 8 v + ucast c, - 2)"
  "b64_byte (out, v, - 2) c =
     (out @ [b64_digit (unat v mod 16 * 4 + unat c div 64), b64_digit (unat c mod 64)], push_bit 8 v + ucast c, - 6)"
  using b64_chars [of v c] by (simp_all only: b64_byte_def Let_def b64_emits prod.case) (simp_all add: b64_emits)

lemma b64_last:
  "b64_char (drop_bit 4 (push_bit 8 v)) = b64_digit (unat v mod 4 * 16)"
  "b64_char (drop_bit 6 (push_bit 8 v)) = b64_digit (unat v mod 16 * 4)"
  using b64_chars(2,3) [of v 0] by simp_all

lemma length_b64_spec: "length (b64_spec s) mod 4 = 0"
  by (induction s rule: b64_spec.induct) auto

text \<open>The loop on a suffix of the input.\<close>

lemma b64_loop:
  assumes "length out mod 4 = 0"
  shows "(let (out', val, valb) = foldl b64_byte (out, v, - 6) s;
              out' = (if - 6 < valb then out' @ [b64_char (drop_bit (nat (valb + 8)) (push_bit 8 val))] else out')
          in out' @ replicate ((4 - length out' mod 4) mod 4) 61) = out @ b64_spec s"
  using assms
proof (induction s arbitrary: out v rule: b64_spec.induct)
  case (1 a b c rest)
  then show ?case by (simp add: b64_bytes b64_val_mod)
next
  case (2 a b)
  then have "(3 + length out) mod 4 = 3" by presburger
  then show ?case by (simp add: b64_bytes b64_val_mod b64_last)
next
  case (3 a)
  then have "(2 + length out) mod 4 = 2" by presburger
  then show ?case by (simp add: b64_bytes b64_val_mod b64_last numeral_2_eq_2)
qed simp

theorem b64encode_rfc4648: "b64encode s = b64_spec s"
  using b64_loop [of "[]" 0 s] by (simp add: b64encode_def)

section \<open>Tokens\<close>

lemma B64_digits: "length B64 = 64" "46 \<notin> set B64"
  by (simp_all add: B64_def str_def)

lemma b64_digit_no_dot: "n < 64 \<Longrightarrow> b64_digit n \<noteq> 46"
  by (metis B64_digits b64_digit_def nth_mem)

lemma six_bits_less:
  "unat (a :: byte) div 4 < 64" "unat a mod 4 * 16 < 64" "unat a mod 16 * 4 < 64"
  "unat a mod 4 * 16 + unat (b :: byte) div 16 < 64" "unat a mod 16 * 4 + unat b div 64 < 64" "unat a mod 64 < 64"
proof -
  have "unat a mod 4 < 4" "unat a mod 16 < 16" "unat b div 16 < 16" "unat b div 64 < 4"
    using byte_less [of b] by (simp_all add: less_mult_imp_div_less)
  then show "unat a mod 4 * 16 < 64" "unat a mod 16 * 4 < 64"
    "unat a mod 4 * 16 + unat b div 16 < 64" "unat a mod 16 * 4 + unat b div 64 < 64" by linarith+
  show "unat a div 4 < 64" "unat a mod 64 < 64" using byte_less [of a] by (simp_all add: less_mult_imp_div_less)
qed

lemma b64_spec_no_dot: "46 \<notin> set (b64_spec s)"
  using b64_digit_no_dot [symmetric, OF six_bits_less(1)] b64_digit_no_dot [symmetric, OF six_bits_less(2)]
    b64_digit_no_dot [symmetric, OF six_bits_less(3)] b64_digit_no_dot [symmetric, OF six_bits_less(4)]
    b64_digit_no_dot [symmetric, OF six_bits_less(5)] b64_digit_no_dot [symmetric, OF six_bits_less(6)]
  by (induction s rule: b64_spec.induct) simp_all

lemma last_dot: "46 \<notin> set sig \<Longrightarrow> dropWhile (\<lambda>c. c \<noteq> 46) (rev (body @ 46 # sig)) = 46 # rev (body :: bytes)"
  by (simp, subst dropWhile_append2) auto

lemma last_dot_unique:
  assumes "body @ 46 # sig = body' @ 46 # (sig' :: bytes)" "46 \<notin> set sig" "46 \<notin> set sig'"
  shows "body = body'" "sig = sig'"
  using last_dot [OF assms(2), of body] last_dot [OF assms(3), of body'] assms(1) by auto

lemma toy_sign_no_dot: "toy_sign data secret = Some sig \<Longrightarrow> 46 \<notin> set sig"
  by (auto simp: toy_sign_def Let_def b64encode_rfc4648 b64_spec_no_dot split: if_splits)

lemma VerifyToken_split:
  assumes "46 \<notin> set sig"
  shows "VerifyToken (body @ str ''.'' @ sig) secret = map_option (\<lambda>s. sig = s) (toy_sign body secret)"
  using last_dot [OF assms, of body] by (simp add: VerifyToken_def str_def Let_def)

text \<open>A token is accepted under the secret it was issued with, and refused when its signature is replaced.\<close>

theorem VerifyToken_issued:
  assumes "secret \<noteq> []"
  shows "\<exists>token. IssueToken sub secret = Some token \<and> VerifyToken token secret = Some True"
    "IssueToken sub secret = Some (body @ str ''.'' @ sig) \<Longrightarrow> 46 \<notin> set sig \<Longrightarrow> 46 \<notin> set sig' \<Longrightarrow> sig' \<noteq> sig \<Longrightarrow>
       VerifyToken (body @ str ''.'' @ sig') secret = Some False"
proof -
  obtain s where s: "toy_sign (token_body sub) secret = Some s" using assms by (simp add: toy_sign_def Let_def)
  then show "\<exists>token. IssueToken sub secret = Some token \<and> VerifyToken token secret = Some True"
    using VerifyToken_split [OF toy_sign_no_dot [OF s]] by (simp add: IssueToken_def)
  assume t: "IssueToken sub secret = Some (body @ str ''.'' @ sig)" "46 \<notin> set sig" "46 \<notin> set sig'" "sig' \<noteq> sig"
  then have "token_body sub @ 46 # s = body @ 46 # sig" using s by (simp add: IssueToken_def str_def)
  from last_dot_unique [OF this toy_sign_no_dot [OF s] t(2)] have "sig = s \<and> body = token_body sub" by simp
  then show "VerifyToken (body @ str ''.'' @ sig') secret = Some False"
    using VerifyToken_split [OF t(3)] s t(4) by simp
qed

section \<open>The chain\<close>

lemma Chain_simps:
  "Chain [] h = h"
  "Chain (mw # mws) h ctx = (if cx_aborted ctx then ctx else mw ctx (Chain mws h))"
  by (simp_all add: Chain_def)

text \<open>A middleware that aborts stops the chain; one that passes the context on is transparent.\<close>

theorem Chain_stops:
  assumes "\<forall>mw\<in>set pre. \<forall>ctx next. mw ctx next = next ctx" "\<not> cx_aborted ctx"
    and "\<forall>next. mw ctx next = abort_with code msg ctx"
  shows "Chain (pre @ mw # post) h ctx = abort_with code msg ctx"
  using assms by (induction pre) (simp_all add: Chain_simps)

theorem Chain_auth:
  assumes "\<not> cx_aborted ctx" "secret \<noteq> []"
  shows "VerifyToken (cx_token ctx) secret = Some True \<Longrightarrow> Chain (Auth secret # mws) h ctx = Chain mws h ctx"
    "VerifyToken (cx_token ctx) secret = Some False \<Longrightarrow>
       Chain (Auth secret # mws) h ctx = abort_with 401 (str ''unauthorized'') ctx"
  using assms by (simp_all add: Chain_simps Auth_def)

end
