(* ===== verification/Course_Hash.thy ===== *)
theory Course_Hash
  imports Ordered_Map Bloom_Filter File_Names
begin

text \<open>
  \<open>practice/module06_bloom_hash/main.cpp\<close> and \<open>practice/module11_raft_sharding/main.cpp\<close>: MurmurHash2 over
  an \<open>int\<close> length, a Bloom filter with double hashing, rings of virtual nodes under two hash functions, and
  an election among the nodes of a cluster. \<open>OptimalBits\<close> and \<open>OptimalHashes\<close> compute in floating point;
  what they return is an argument of the constructor.

  The hash is the one the engine uses; a filter has no false negatives; a ring sends a key to
  the first virtual node clockwise, adding a node moves keys to that node only, and removing one moves
  the keys of that node only; in a fresh cluster every election is won, with one leader.
\<close>

section \<open>MurmurHash2\<close>

text \<open>The loop on \<open>data\<close> and \<open>len\<close>; \<open>memcpy\<close> of four bytes is a little-endian load.\<close>

function MurmurHash2_loop :: "bytes \<Rightarrow> int \<Rightarrow> u32 \<Rightarrow> bytes \<times> int \<times> u32" where
  "MurmurHash2_loop data len h =
     (if 4 \<le> len
      then let k = decodeFixed32 data;
               k = k * 0x5bd1e995;
               k = k XOR drop_bit 24 k;
               k = k * 0x5bd1e995;
               h = h * 0x5bd1e995;
               h = h XOR k
           in MurmurHash2_loop (drop 4 data) (len - 4) h
      else (data, len, h))"
  by pat_completeness auto
termination
  by (relation "measure (\<lambda>(data, len, h). nat len)") auto

declare MurmurHash2_loop.simps [simp del]

definition MurmurHash2 :: "bytes \<Rightarrow> int \<Rightarrow> u32 \<Rightarrow> u32" where
  "MurmurHash2 key len seed =
     (let (data, len, h) = MurmurHash2_loop key len (seed XOR word_of_int len);
          h = (if len = 3 then h XOR push_bit 16 (ucast (data ! 2)) else h);
          h = (if len = 3 \<or> len = 2 then h XOR push_bit 8 (ucast (data ! 1)) else h);
          h = (if len = 3 \<or> len = 2 \<or> len = 1 then (h XOR ucast (data ! 0)) * 0x5bd1e995 else h);
          h = h XOR drop_bit 13 h;
          h = h * 0x5bd1e995
      in h XOR drop_bit 15 h)"

text \<open>\<open>static_cast<int>(s.size())\<close> keeps the low 32 bits and reads them as signed.\<close>

definition HashKey :: "bytes \<Rightarrow> u32 \<Rightarrow> u32" where
  "HashKey s seed = MurmurHash2 s (sint (size_u32 s)) seed"

section \<open>The Bloom filter of module 06\<close>

record CourseBloom =
  cb_bits :: u64
  cb_k :: nat
  cb_storage :: "u8 list"

definition CourseBloom_new :: "u64 \<Rightarrow> nat \<Rightarrow> CourseBloom" where
  "CourseBloom_new optimal_bits optimal_hashes =
     (let bits = (if optimal_bits < 64 then 64 else optimal_bits);
          k = (if optimal_hashes < 1 then 1 else optimal_hashes)
      in \<lparr>cb_bits = bits, cb_k = k, cb_storage = replicate (unat ((bits + 7) div 8)) 0\<rparr>)"

definition CourseBloom_idx :: "CourseBloom \<Rightarrow> bytes \<Rightarrow> nat \<Rightarrow> nat" where
  "CourseBloom_idx bf key i =
     (let h1 = HashKey key 0x9747b28c;
          h2 = HashKey key 0x5bd1e995;
          h2 = (if h2 = 0 then 0x27d4eb2d else h2)
      in unat ((ucast h1 + word_of_nat i * ucast h2) mod cb_bits bf))"

definition CourseBloom_Add :: "bytes \<Rightarrow> CourseBloom \<Rightarrow> CourseBloom" where
  "CourseBloom_Add key bf =
     bf\<lparr>cb_storage := fold (\<lambda>i. set_bloom_bit (CourseBloom_idx bf key i)) [0..<cb_k bf] (cb_storage bf)\<rparr>"

definition CourseBloom_MightContain :: "CourseBloom \<Rightarrow> bytes \<Rightarrow> bool" where
  "CourseBloom_MightContain bf key =
     list_all (\<lambda>i. let idx = CourseBloom_idx bf key i
                   in cb_storage bf ! (idx div 8) AND push_bit (idx mod 8) 1 \<noteq> 0) [0..<cb_k bf]"

section \<open>Rings of virtual nodes\<close>

definition vnode :: "bytes \<Rightarrow> nat \<Rightarrow> bytes" where
  "vnode node i = node @ str ''#'' @ to_digits i"

type_synonym ring = "(u32 \<times> bytes) list"

text \<open>Module 06: nodes come and go, under MurmurHash2.\<close>

definition ConsistentHash_AddNode :: "nat \<Rightarrow> bytes \<Rightarrow> ring \<Rightarrow> ring" where
  "ConsistentHash_AddNode vnode_count node r =
     fold (\<lambda>i. map_put (HashKey (vnode node i) 0x9747b28c) node) [0..<vnode_count] r"

definition ConsistentHash_RemoveNode :: "nat \<Rightarrow> bytes \<Rightarrow> ring \<Rightarrow> ring" where
  "ConsistentHash_RemoveNode vnode_count node r =
     fold (\<lambda>i. map_erase (HashKey (vnode node i) 0x9747b28c)) [0..<vnode_count] r"

text \<open>\<open>GetNode\<close> asserts that the ring is not empty: \<open>None\<close>.\<close>

definition ConsistentHash_GetNode :: "ring \<Rightarrow> bytes \<Rightarrow> bytes option" where
  "ConsistentHash_GetNode r key = ring_lookup (HashKey key 0x9747b28c) r"

text \<open>Module 11: a fixed set of nodes, under FNV-1a.\<close>

definition Fnv_Hash :: "bytes \<Rightarrow> u32" where
  "Fnv_Hash s = foldl (\<lambda>h c. (h XOR ucast c) * 16777619) 2166136261 s"

definition ShardRing_new :: "bytes list \<Rightarrow> nat \<Rightarrow> ring" where
  "ShardRing_new nodes vnodes =
     fold (\<lambda>node. fold (\<lambda>i. map_put (Fnv_Hash (vnode node i)) node) [0..<vnodes]) nodes []"

definition ShardRing_Locate :: "ring \<Rightarrow> bytes \<Rightarrow> bytes option" where
  "ShardRing_Locate r key = ring_lookup (Fnv_Hash key) r"

section \<open>The election of module 11\<close>

datatype RaftRole = Follower | Candidate | Leader

record RaftNode =
  rn_id :: int
  rn_role :: RaftRole
  rn_current_term :: int
  rn_voted_for :: int
  rn_leader_id :: int

definition RaftNode_new :: "int \<Rightarrow> RaftNode" where
  "RaftNode_new i = \<lparr>rn_id = i, rn_role = Follower, rn_current_term = 0, rn_voted_for = - 1, rn_leader_id = - 1\<rparr>"

definition stand :: "int \<Rightarrow> RaftNode \<Rightarrow> RaftNode" where
  "stand candidate_id c = c\<lparr>rn_role := Candidate, rn_current_term := rn_current_term c + 1, rn_voted_for := candidate_id\<rparr>"

text \<open>The request for the vote of one node: the node and whether it voted for the candidate.\<close>

definition request_vote :: "int \<Rightarrow> int \<Rightarrow> RaftNode \<Rightarrow> RaftNode \<times> bool" where
  "request_vote term candidate_id n =
     (if rn_current_term n > term then (n, False)
      else let n = (if rn_current_term n < term
                    then n\<lparr>rn_current_term := term, rn_voted_for := - 1, rn_role := Follower\<rparr> else n)
           in if rn_voted_for n = - 1 \<or> rn_voted_for n = candidate_id
              then (n\<lparr>rn_voted_for := candidate_id\<rparr>, True) else (n, False))"

definition vote_round :: "int \<Rightarrow> nat \<Rightarrow> nat \<Rightarrow> RaftNode list \<times> nat \<Rightarrow> RaftNode list \<times> nat" where
  "vote_round term candidate_id i s =
     (let (nodes, votes) = s
      in if i = candidate_id then s
         else let (n, granted) = request_vote term (int candidate_id) (nodes ! i)
              in (nodes[i := n], if granted then votes + 1 else votes))"

definition follow :: "int \<Rightarrow> int \<Rightarrow> RaftNode \<Rightarrow> RaftNode" where
  "follow term candidate_id n =
     (let n = n\<lparr>rn_current_term := term, rn_leader_id := candidate_id\<rparr>
      in if rn_id n \<noteq> candidate_id then n\<lparr>rn_role := Follower\<rparr> else n)"

text \<open>An index outside of the vector is undefined behaviour: \<open>None\<close>.\<close>

definition TryElect :: "RaftNode list \<Rightarrow> nat \<Rightarrow> (bool \<times> RaftNode list) option" where
  "TryElect nodes candidate_id =
     (if length nodes \<le> candidate_id then None
      else let nodes = nodes[candidate_id := stand (int candidate_id) (nodes ! candidate_id)];
               term = rn_current_term (nodes ! candidate_id);
               (nodes, votes) = fold (vote_round term candidate_id) [0..<length nodes] (nodes, 1);
               majority = length nodes div 2 + 1
           in if majority \<le> votes
              then let nodes = nodes[candidate_id := (nodes ! candidate_id)\<lparr>rn_role := Leader\<rparr>]
                   in Some (True, map (follow term (int candidate_id)) nodes)
              else Some (False, nodes))"

definition cluster_new :: "nat \<Rightarrow> RaftNode list" where
  "cluster_new n = map (\<lambda>i. RaftNode_new (int i)) [0..<n]"

fun elections :: "nat list \<Rightarrow> RaftNode list \<Rightarrow> RaftNode list option" where
  "elections [] nodes = Some nodes"
| "elections (c # cs) nodes = (case TryElect nodes c of Some (True, nodes') \<Rightarrow> elections cs nodes' | _ \<Rightarrow> None)"

section \<open>The hash is the engine's\<close>

lemma MurmurHash2_loop_body:
  "int (length data) = len \<Longrightarrow>
     MurmurHash2_loop data len h = (let (h', rest) = murmur_body data h in (rest, int (length rest), h'))"
proof (induction data h arbitrary: len rule: murmur_body.induct)
  case (1 b0 b1 b2 b3 rest h)
  then show ?case
    by (subst MurmurHash2_loop.simps) (simp add: Let_def decodeFixed32_def split: prod.split)
qed (auto simp: MurmurHash2_loop.simps)

lemma murmur_body_rest: "murmur_body data h = (h', rest) \<Longrightarrow> length rest < 4"
  by (induction data h rule: murmur_body.induct) (auto simp: Let_def)

lemma sint_size_u32: "length s < 2 ^ 31 \<Longrightarrow> sint (size_u32 s) = int (length s)"
  by (simp add: size_u32_def signed_of_nat signed_take_bit_int_eq_self)

theorem HashKey_murmurHash2:
  assumes "length s < 2 ^ 31"
  shows "HashKey s seed = murmurHash2 s seed"
proof -
  obtain h rest where b: "murmur_body s (seed XOR word_of_int (int (length s))) = (h, rest)" by fastforce
  have "length rest < 4" using b by (rule murmur_body_rest)
  then have "length rest = 0 \<or> length rest = 1 \<or> length rest = 2 \<or> length rest = 3" by linarith
  moreover have "MurmurHash2_loop s (int (length s)) (seed XOR word_of_int (int (length s))) = (rest, int (length rest), h)"
    using b MurmurHash2_loop_body [OF refl, of s] by simp
  moreover have "size_u32 s = word_of_int (int (length s))" by (simp add: size_u32_def)
  ultimately show ?thesis
    using b unfolding HashKey_def sint_size_u32 [OF assms] by (auto simp: MurmurHash2_def murmurHash2_def murmur_tail_def Let_def)
qed

section \<open>No false negatives\<close>

definition course_bloom_ok :: "CourseBloom \<Rightarrow> bool" where
  "course_bloom_ok bf \<longleftrightarrow> 0 < cb_bits bf \<and> unat (cb_bits bf) \<le> 8 * length (cb_storage bf)"

lemma CourseBloom_new_ok:
  assumes "unat optimal_bits < 2 ^ 63"
  shows "course_bloom_ok (CourseBloom_new optimal_bits optimal_hashes)"
proof -
  let ?b = "if optimal_bits < 64 then 64 else optimal_bits"
  have b: "unat ?b < 2 ^ 63" "0 < ?b" using assms by (auto simp: not_less word_less_nat_alt word_le_nat_alt)
  then have "unat (?b + 7) = unat ?b + 7" by (subst unat_add_lem [THEN iffD1]) simp_all
  then have "unat ((?b + 7) div 8) = (unat ?b + 7) div 8" by (simp add: unat_div_distrib)
  then show ?thesis using b(2) by (simp add: course_bloom_ok_def CourseBloom_new_def Let_def)
qed

lemma CourseBloom_idx_bound:
  assumes "course_bloom_ok bf"
  shows "CourseBloom_idx bf key i div 8 < length (cb_storage bf)"
proof -
  have "CourseBloom_idx bf key i < unat (cb_bits bf)"
    using assms by (simp add: CourseBloom_idx_def Let_def unat_mod course_bloom_ok_def word_less_nat_alt)
  then show ?thesis using assms by (simp add: course_bloom_ok_def less_mult_imp_div_less)
qed

lemma CourseBloom_MightContain_bits:
  "CourseBloom_MightContain bf key \<longleftrightarrow> (\<forall>i<cb_k bf. bloom_bit (cb_storage bf) (CourseBloom_idx bf key i))"
  by (auto simp: CourseBloom_MightContain_def list_all_iff Let_def and_single_bit bloom_bit_def)

lemma CourseBloom_Add_fields [simp]:
  "cb_k (CourseBloom_Add key bf) = cb_k bf"
  "CourseBloom_idx (CourseBloom_Add key bf) = CourseBloom_idx bf"
  "course_bloom_ok (CourseBloom_Add key bf) = course_bloom_ok bf"
  by (auto simp: CourseBloom_Add_def CourseBloom_idx_def course_bloom_ok_def fun_eq_iff)

lemma CourseBloom_Add_contains:
  assumes "course_bloom_ok bf"
  shows "CourseBloom_MightContain (CourseBloom_Add key bf) key"
    "CourseBloom_MightContain bf key' \<Longrightarrow> CourseBloom_MightContain (CourseBloom_Add key bf) key'"
  using fold_set_bloom [of "[0..<cb_k bf]" "CourseBloom_idx bf key" "cb_storage bf"] CourseBloom_idx_bound [OF assms]
  by (simp_all add: CourseBloom_MightContain_bits) (simp_all add: CourseBloom_Add_def)

lemma CourseBloom_Adds_keep:
  "course_bloom_ok bf \<Longrightarrow> CourseBloom_MightContain bf key \<Longrightarrow> CourseBloom_MightContain (fold CourseBloom_Add keys bf) key"
  by (induction keys arbitrary: bf) (simp_all add: CourseBloom_Add_contains(2))

theorem CourseBloom_no_false_negatives:
  "course_bloom_ok bf \<Longrightarrow> key \<in> set keys \<Longrightarrow> CourseBloom_MightContain (fold CourseBloom_Add keys bf) key"
  by (induction keys arbitrary: bf) (auto simp: CourseBloom_Add_contains(1) intro: CourseBloom_Adds_keep)

section \<open>Rings\<close>

text \<open>The positions of a node's virtual nodes.\<close>

definition positions :: "nat \<Rightarrow> bytes \<Rightarrow> u32 set" where
  "positions vnode_count node = (\<lambda>i. HashKey (vnode node i) 0x9747b28c) ` {0..<vnode_count}"

lemma fold_map_put_same:
  "map_of (fold (\<lambda>i. map_put (f i) v) is r) = (\<lambda>h. if h \<in> f ` set is then Some v else map_of r h)"
  by (induction "is" arbitrary: r) (auto simp: fun_eq_iff)

lemma fold_map_erase:
  "map_of (fold (\<lambda>i. map_erase (f i)) is r) = (\<lambda>h. if h \<in> f ` set is then None else map_of r h)"
  by (induction "is" arbitrary: r) (auto simp: fun_eq_iff)

lemma fold_map_sorted:
  "keys_sorted r \<Longrightarrow> keys_sorted (fold (\<lambda>i. map_put (f i) v) is r)"
  "keys_sorted r \<Longrightarrow> keys_sorted (fold (\<lambda>i. map_erase (f i)) is r)"
  by (induction "is" arbitrary: r) simp_all

lemma AddNode_map:
  "map_of (ConsistentHash_AddNode c node r) = (\<lambda>h. if h \<in> positions c node then Some node else map_of r h)"
  "keys_sorted r \<Longrightarrow> keys_sorted (ConsistentHash_AddNode c node r)"
  by (simp_all add: ConsistentHash_AddNode_def positions_def fold_map_put_same fold_map_sorted)

lemma RemoveNode_map:
  "map_of (ConsistentHash_RemoveNode c node r) = (\<lambda>h. if h \<in> positions c node then None else map_of r h)"
  "keys_sorted r \<Longrightarrow> keys_sorted (ConsistentHash_RemoveNode c node r)"
  by (simp_all add: ConsistentHash_RemoveNode_def positions_def fold_map_erase fold_map_sorted)

lemma ring_lookup_sub:
  assumes "keys_sorted r" "keys_sorted r'" "r' \<noteq> []"
    and sub: "\<And>h. map_of r' h = None \<or> map_of r' h = map_of r h"
    and hit: "map_of r' (clockwise k (dom (map_of r))) \<noteq> None"
  shows "ring_lookup k r' = ring_lookup k r"
proof -
  let ?c = "clockwise k (dom (map_of r))"
  have "dom (map_of r') \<subseteq> dom (map_of r)" using sub by (metis domIff subsetI)
  then have c: "clockwise k (dom (map_of r')) = ?c"
    using hit by (intro clockwise_subset) (auto simp: finite_dom_map_of)
  have "map_of r' ?c = map_of r ?c" using sub [of ?c] hit by auto
  then show ?thesis using assms(1-3) hit sub [of ?c] by (auto simp: ring_lookup_clockwise c)
qed

theorem AddNode_moves_to_node:
  assumes "keys_sorted r" "r \<noteq> []"
  shows "ConsistentHash_GetNode (ConsistentHash_AddNode c node r) key \<in>
    {ConsistentHash_GetNode r key, Some node}"
proof -
  let ?r = "ConsistentHash_AddNode c node r" and ?h = "HashKey key 0x9747b28c"
  let ?c = "clockwise ?h (dom (map_of ?r))"
  have "dom (map_of r) \<subseteq> dom (map_of ?r)" by (auto simp: AddNode_map(1))
  moreover have "dom (map_of r) \<noteq> {}" using assms(2) by (cases r) auto
  ultimately have "dom (map_of ?r) \<noteq> {}" by blast
  then have ne: "?r \<noteq> []" and cin: "?c \<in> dom (map_of ?r)"
    using clockwise_in [of "dom (map_of ?r)"] by (auto simp: finite_dom_map_of)
  have look: "ConsistentHash_GetNode ?r key = map_of ?r ?c"
    using ne AddNode_map(2) [OF assms(1)] by (simp add: ConsistentHash_GetNode_def ring_lookup_clockwise)
  show ?thesis
  proof (cases "?c \<in> positions c node")
    case True
    then show ?thesis by (simp add: look) (simp add: AddNode_map(1))
  next
    case False
    then have "?c \<in> dom (map_of r)" using cin by (simp add: AddNode_map(1) dom_def)
    moreover have "dom (map_of r) \<subseteq> dom (map_of ?r)" by (auto simp: AddNode_map(1))
    ultimately have "clockwise ?h (dom (map_of r)) = ?c"
      by (intro clockwise_subset) (auto simp: finite_dom_map_of)
    then have "ConsistentHash_GetNode r key = map_of r ?c"
      using assms by (simp add: ConsistentHash_GetNode_def ring_lookup_clockwise)
    moreover have "map_of ?r ?c = map_of r ?c" using False by (simp add: AddNode_map(1))
    ultimately show ?thesis by (simp add: look)
  qed
qed

text \<open>
  A ring built by additions and removals: every position holds a node that stands there, so a
  removed node is never the answer until it is added again.
\<close>

datatype ring_op = RingAdd bytes | RingRemove bytes

fun run_ring_op :: "nat \<Rightarrow> ring_op \<Rightarrow> ring \<Rightarrow> ring" where
  "run_ring_op c (RingAdd node) r = ConsistentHash_AddNode c node r"
| "run_ring_op c (RingRemove node) r = ConsistentHash_RemoveNode c node r"

fun run_members :: "ring_op \<Rightarrow> bytes set \<Rightarrow> bytes set" where
  "run_members (RingAdd node) ns = insert node ns"
| "run_members (RingRemove node) ns = ns - {node}"

definition ring_ok :: "nat \<Rightarrow> bytes set \<Rightarrow> ring \<Rightarrow> bool" where
  "ring_ok c ns r \<longleftrightarrow> keys_sorted r \<and> (\<forall>h n. map_of r h = Some n \<longrightarrow> n \<in> ns \<and> h \<in> positions c n)"

lemma run_ring_op_ok: "ring_ok c ns r \<Longrightarrow> ring_ok c (run_members p ns) (run_ring_op c p r)"
  by (cases p) (auto simp: ring_ok_def AddNode_map RemoveNode_map)

lemma run_ring_ops_ok: "ring_ok c ns r \<Longrightarrow> ring_ok c (fold run_members ps ns) (fold (run_ring_op c) ps r)"
  by (induction ps arbitrary: ns r) (simp_all add: run_ring_op_ok)

theorem GetNode_member:
  assumes "fold (run_ring_op c) ps [] = r" "r \<noteq> []"
  shows "\<exists>n. ConsistentHash_GetNode r key = Some n \<and> n \<in> fold run_members ps {}"
proof -
  have "ring_ok c (fold run_members ps {}) r"
    using run_ring_ops_ok [of c "{}" "[]" ps] assms(1) by (simp add: ring_ok_def keys_sorted_def)
  moreover have "dom (map_of r) \<noteq> {}" using assms(2) by (cases r) auto
  ultimately show ?thesis
    using assms(2) clockwise_in [of "dom (map_of r)" "HashKey key 0x9747b28c"]
    by (auto simp: ring_ok_def ConsistentHash_GetNode_def ring_lookup_clockwise finite_dom_map_of dom_def)
qed

text \<open>Removal, when no other node holds one of the positions of the removed node.\<close>

theorem RemoveNode_moves_own_keys:
  assumes "keys_sorted r" "ConsistentHash_RemoveNode c node r \<noteq> []"
    and own: "\<And>h n. h \<in> positions c node \<Longrightarrow> map_of r h = Some n \<Longrightarrow> n = node"
    and other: "ConsistentHash_GetNode r key \<noteq> Some node"
  shows "ConsistentHash_GetNode (ConsistentHash_RemoveNode c node r) key = ConsistentHash_GetNode r key"
proof -
  let ?r = "ConsistentHash_RemoveNode c node r" and ?h = "HashKey key 0x9747b28c"
  let ?c = "clockwise ?h (dom (map_of r))"
  have "map_of ?r \<noteq> Map.empty" using assms(2) by (cases ?r) auto
  then have ne: "r \<noteq> []" by (auto simp: RemoveNode_map(1))
  then have "dom (map_of r) \<noteq> {}" by (cases r) auto
  then obtain n where n: "map_of r ?c = Some n"
    using clockwise_in [of "dom (map_of r)" ?h] by (auto simp: finite_dom_map_of)
  then have "n \<noteq> node" using other assms(1) ne by (simp add: ConsistentHash_GetNode_def ring_lookup_clockwise)
  then have "?c \<notin> positions c node" using own n by blast
  then show ?thesis
    unfolding ConsistentHash_GetNode_def using n assms(1,2)
    by (intro ring_lookup_sub) (auto simp: RemoveNode_map)
qed

text \<open>Module 11: \<open>Locate\<close> answers with one of the nodes the ring was built from.\<close>

lemma ShardRing_fold:
  "keys_sorted r \<Longrightarrow> \<forall>h n. map_of r h = Some n \<longrightarrow> n \<in> ns \<Longrightarrow>
     let r' = fold (\<lambda>node. fold (\<lambda>i. map_put (Fnv_Hash (vnode node i)) node) [0..<vnodes]) nodes r
     in keys_sorted r' \<and> (\<forall>h n. map_of r' h = Some n \<longrightarrow> n \<in> ns \<union> set nodes)"
proof (induction nodes arbitrary: r ns)
  case (Cons node nodes)
  let ?r = "fold (\<lambda>i. map_put (Fnv_Hash (vnode node i)) node) [0..<vnodes] r"
  have "\<forall>h n. map_of ?r h = Some n \<longrightarrow> n \<in> insert node ns" using Cons.prems(2) by (auto simp: fold_map_put_same)
  from Cons.IH [OF fold_map_sorted(1) [OF Cons.prems(1)] this] show ?case by (simp add: Let_def)
qed (auto simp: Let_def)

theorem ShardRing_Locate_member:
  assumes "nodes \<noteq> []" "0 < vnodes"
  shows "\<exists>n\<in>set nodes. ShardRing_Locate (ShardRing_new nodes vnodes) key = Some n"
proof -
  let ?r = "ShardRing_new nodes vnodes" and ?h = "Fnv_Hash key"
  have r: "keys_sorted ?r" "\<And>h n. map_of ?r h = Some n \<Longrightarrow> n \<in> set nodes"
    using ShardRing_fold [of "[]" "{}" vnodes nodes] by (auto simp: ShardRing_new_def keys_sorted_def Let_def)
  obtain ns node where n: "nodes = ns @ [node]" using assms(1) by (cases nodes rule: rev_cases) auto
  have "map_of ?r (Fnv_Hash (vnode node 0)) = Some node"
    using assms(2) by (auto simp: n ShardRing_new_def fold_map_put_same)
  then have ne: "dom (map_of ?r) \<noteq> {}" "?r \<noteq> []" by auto
  then show ?thesis
    using r clockwise_in [OF finite_dom_map_of ne(1), of ?h]
    by (auto simp: ShardRing_Locate_def ring_lookup_clockwise dom_def)
qed

section \<open>Elections\<close>

definition settled :: "int \<Rightarrow> RaftNode list \<Rightarrow> bool" where
  "settled t nodes \<longleftrightarrow> (\<forall>i<length nodes. rn_id (nodes ! i) = int i \<and> rn_current_term (nodes ! i) = t)"

definition follows :: "int \<Rightarrow> nat \<Rightarrow> RaftNode list \<Rightarrow> bool" where
  "follows t c nodes \<longleftrightarrow> (\<forall>i<length nodes. rn_role (nodes ! i) = (if i = c then Leader else Follower) \<and>
     rn_leader_id (nodes ! i) = int c \<and> rn_voted_for (nodes ! i) = int c)"

text \<open>After the first \<open>m\<close> requests of a candidate that is one term ahead, all \<open>m\<close> nodes voted for it.\<close>

definition voter :: "int \<Rightarrow> nat \<Rightarrow> RaftNode \<Rightarrow> RaftNode" where
  "voter t c n = n\<lparr>rn_current_term := t, rn_voted_for := int c, rn_role := Follower\<rparr>"

definition voted :: "int \<Rightarrow> nat \<Rightarrow> nat \<Rightarrow> RaftNode list \<Rightarrow> RaftNode list" where
  "voted t c m nodes = map (\<lambda>i. if i < m \<and> i \<noteq> c then voter t c (nodes ! i) else nodes ! i) [0..<length nodes]"

lemma length_voted [simp]: "length (voted t c m nodes) = length nodes"
  by (simp add: voted_def)

lemma voted_step:
  "voted t c 0 nodes = nodes"
  "voted t c (Suc c) nodes = voted t c c nodes"
  "m < length nodes \<Longrightarrow> m \<noteq> c \<Longrightarrow> voted t c (Suc m) nodes = (voted t c m nodes)[m := voter t c (nodes ! m)]"
  by (rule nth_equalityI, auto simp: voted_def nth_list_update less_Suc_eq)+

lemma vote_rounds:
  assumes "c < length nodes" "\<forall>i<length nodes. i \<noteq> c \<longrightarrow> rn_current_term (nodes ! i) < t" "m \<le> length nodes"
  shows "fold (vote_round t c) [0..<m] (nodes, 1) = (voted t c m nodes, 1 + card ({0..<m} - {c}))"
  using assms(3)
proof (induction m)
  case (Suc m)
  then have lt: "m < length nodes" by simp
  show ?case
  proof (cases "m = c")
    case True
    then have "{0..<Suc m} - {c} = {0..<m} - {c}" by auto
    then show ?thesis using Suc True by (simp add: vote_round_def voted_step)
  next
    case False
    then have "{0..<Suc m} - {c} = insert m ({0..<m} - {c})" by auto
    then have crd: "card ({0..<Suc m} - {c}) = Suc (card ({0..<m} - {c}))" by simp
    have "rn_current_term (nodes ! m) < t" using assms(2) lt False by simp
    then have "request_vote t (int c) (nodes ! m) = (voter t c (nodes ! m), True)"
      by (simp add: request_vote_def voter_def)
    moreover have "voted t c m nodes ! m = nodes ! m" using lt by (simp add: voted_def)
    ultimately show ?thesis using Suc False crd voted_step(3) [OF lt False] by (simp add: vote_round_def)
  qed
qed (simp add: voted_step)

theorem TryElect_settled:
  assumes "settled t nodes" "c < length nodes"
  shows "\<exists>nodes'. TryElect nodes c = Some (True, nodes') \<and> length nodes' = length nodes \<and>
    settled (t + 1) nodes' \<and> follows (t + 1) c nodes'"
proof -
  let ?n = "nodes[c := stand (int c) (nodes ! c)]" and ?t = "t + 1"
  have trm: "rn_current_term (?n ! c) = ?t" using assms by (simp add: stand_def settled_def)
  have others: "\<forall>i<length ?n. i \<noteq> c \<longrightarrow> rn_current_term (?n ! i) < ?t" using assms(1) by (simp add: settled_def)
  let ?v = "voted ?t c (length nodes) ?n"
  have v: "fold (vote_round ?t c) [0..<length ?n] (?n, 1) = (?v, length nodes)"
    using vote_rounds [of c ?n ?t "length nodes"] others assms(2) by (simp add: card_Diff_singleton)
  let ?l = "map (follow ?t (int c)) (?v[c := (?v ! c)\<lparr>rn_role := Leader\<rparr>])"
  have "length nodes div 2 + 1 \<le> length nodes" using assms(2) by linarith
  then have "TryElect nodes c = Some (True, ?l)"
    using v trm assms(2) by (simp add: TryElect_def Let_def)
  moreover have "length ?l = length nodes" by simp
  moreover have "settled ?t ?l" "follows ?t c ?l"
    using assms by (auto simp: settled_def follows_def follow_def stand_def voted_def voter_def Let_def nth_list_update)
  ultimately show ?thesis by blast
qed

text \<open>
  In a fresh cluster every election succeeds, whoever stands: the term is the number of
  elections, and the last candidate is the only leader.
\<close>

lemma elections_settled:
  assumes "settled t nodes" "\<forall>c\<in>set cs. c < length nodes"
  shows "\<exists>nodes'. elections cs nodes = Some nodes' \<and> length nodes' = length nodes \<and>
    settled (t + int (length cs)) nodes' \<and> (cs \<noteq> [] \<longrightarrow> follows (t + int (length cs)) (last cs) nodes')"
  using assms
proof (induction cs arbitrary: t nodes)
  case (Cons c cs)
  from TryElect_settled [OF Cons.prems(1), of c] Cons.prems(2) obtain n1
    where n1: "TryElect nodes c = Some (True, n1)" "length n1 = length nodes" "settled (t + 1) n1" "follows (t + 1) c n1" by auto
  from Cons.IH [OF n1(3)] Cons.prems(2) n1(2) obtain n2
    where "elections cs n1 = Some n2" "length n2 = length nodes" "settled (t + 1 + int (length cs)) n2"
      "cs \<noteq> [] \<longrightarrow> follows (t + 1 + int (length cs)) (last cs) n2" by auto
  then show ?case using n1 by (cases "cs = []") (auto simp: add.assoc)
qed auto

theorem elections_one_leader:
  assumes "\<forall>c\<in>set cs. c < n" "cs \<noteq> []"
  shows "\<exists>nodes. elections cs (cluster_new n) = Some nodes \<and> settled (int (length cs)) nodes \<and>
    follows (int (length cs)) (last cs) nodes"
  using elections_settled [of 0 "cluster_new n" cs] assms
  by (auto simp: settled_def cluster_new_def RaftNode_new_def)

end
