(* ===== verification/Course_Lsm.thy ===== *)
theory Course_Lsm
  imports Ordered_Map
begin

text \<open>
  \<open>practice/module07_lsm_engine/main.cpp\<close>: a small store with a text log, a sorted table in memory and one
  text file of key-value lines. The files are byte strings; \<open>std::getline\<close> and the stream operators are
  modelled on them. A sequence of puts, flushes and restarts behaves like a map as long as keys have
  no tab and no line break and values are not empty and have no line break; an empty value is lost by
  a restart, because the replay takes the missing third field for a damaged line.
\<close>

section \<open>Definitions\<close>

text \<open>One call of \<open>std::getline\<close>: the part before the delimiter and the rest; \<open>None\<close> at the end of the input.\<close>

definition getline :: "byte \<Rightarrow> bytes \<Rightarrow> (bytes \<times> bytes) option" where
  "getline delim s = (if s = [] then None else Some (takeWhile (\<lambda>c. c \<noteq> delim) s, drop 1 (dropWhile (\<lambda>c. c \<noteq> delim) s)))"

lemma getline_shorter: "getline d s = Some (l, rest) \<Longrightarrow> length rest < length s"
  using length_dropWhile_le [of "\<lambda>c. c \<noteq> d" s] by (cases s) (auto simp: getline_def split: if_splits)

function file_lines :: "bytes \<Rightarrow> bytes list" where
  "file_lines s = (case getline 10 s of None \<Rightarrow> [] | Some (l, rest) \<Rightarrow> l # file_lines rest)"
  by pat_completeness auto
termination
  by (relation "measure length") (auto dest: getline_shorter)

declare file_lines.simps [simp del]

definition put_line :: "bytes \<Rightarrow> bytes \<Rightarrow> bytes" where
  "put_line key v = str ''PUT'' @ [9] @ key @ [9] @ v @ [10]"

definition recover_line :: "bytes \<Rightarrow> (bytes \<times> bytes) list \<Rightarrow> (bytes \<times> bytes) list" where
  "recover_line line mem =
     (if line = [] then mem
      else case getline 9 line of
        None \<Rightarrow> mem
      | Some (op, rest) \<Rightarrow>
          (case getline 9 rest of
             None \<Rightarrow> mem
           | Some (key, rest) \<Rightarrow>
               (case getline 10 rest of
                  None \<Rightarrow> mem
                | Some (v, _) \<Rightarrow> if op = str ''PUT'' then map_put key v mem else mem)))"

definition WAL_Recover :: "bytes option \<Rightarrow> (bytes \<times> bytes) list \<Rightarrow> (bytes \<times> bytes) list" where
  "WAL_Recover f mem = (case f of None \<Rightarrow> mem | Some content \<Rightarrow> fold recover_line (file_lines content) mem)"

definition sst_line :: "bytes \<times> bytes \<Rightarrow> bytes" where
  "sst_line kv = fst kv @ [9] @ snd kv @ [10]"

definition SSTable_Write :: "(bytes \<times> bytes) list \<Rightarrow> bytes" where
  "SSTable_Write data = concat (map sst_line data)"

text \<open>A line of the table file; one without a tab is skipped.\<close>

definition split_line :: "bytes \<Rightarrow> (bytes \<times> bytes) option" where
  "split_line line =
     (if 9 \<notin> set line then None else Some (takeWhile (\<lambda>c. c \<noteq> 9) line, drop 1 (dropWhile (\<lambda>c. c \<noteq> 9) line)))"

fun sst_search :: "bytes list \<Rightarrow> bytes \<Rightarrow> bytes option" where
  "sst_search [] key = None"
| "sst_search (l # ls) key =
     (case split_line l of
        None \<Rightarrow> sst_search ls key
      | Some (k, v) \<Rightarrow> if k = key then Some v else sst_search ls key)"

definition SSTable_Get :: "bytes option \<Rightarrow> bytes \<Rightarrow> bytes option" where
  "SSTable_Get f key = (case f of None \<Rightarrow> None | Some content \<Rightarrow> sst_search (file_lines content) key)"

definition load_line :: "bytes \<Rightarrow> (bytes \<times> bytes) list \<Rightarrow> (bytes \<times> bytes) list" where
  "load_line line mem = (case split_line line of None \<Rightarrow> mem | Some (k, v) \<Rightarrow> map_put k v mem)"

definition LoadSSTIntoMem :: "bytes option \<Rightarrow> (bytes \<times> bytes) list" where
  "LoadSSTIntoMem f = (case f of None \<Rightarrow> [] | Some content \<Rightarrow> fold load_line (file_lines content) [])"

record MiniDB =
  md_wal :: "bytes option"
  md_sst :: "bytes option"
  md_mem :: "(bytes \<times> bytes) list"

text \<open>The constructor: load the table, replay the log, open the log for appending (which creates it).\<close>

definition MiniDB_open :: "bytes option \<Rightarrow> bytes option \<Rightarrow> MiniDB" where
  "MiniDB_open wal sst =
     \<lparr>md_wal = Some (case wal of None \<Rightarrow> [] | Some c \<Rightarrow> c), md_sst = sst, md_mem = WAL_Recover wal (LoadSSTIntoMem sst)\<rparr>"

definition MiniDB_Put :: "bytes \<Rightarrow> bytes \<Rightarrow> MiniDB \<Rightarrow> MiniDB" where
  "MiniDB_Put key v db =
     db\<lparr>md_wal := Some ((case md_wal db of None \<Rightarrow> [] | Some c \<Rightarrow> c) @ put_line key v), md_mem := map_put key v (md_mem db)\<rparr>"

definition MiniDB_Get :: "MiniDB \<Rightarrow> bytes \<Rightarrow> bytes option" where
  "MiniDB_Get db key = (case map_of (md_mem db) key of Some v \<Rightarrow> Some v | None \<Rightarrow> SSTable_Get (md_sst db) key)"

definition MiniDB_Flush :: "MiniDB \<Rightarrow> MiniDB" where
  "MiniDB_Flush db = db\<lparr>md_sst := Some (SSTable_Write (md_mem db)), md_wal := Some []\<rparr>"

definition MiniDB_restart :: "MiniDB \<Rightarrow> MiniDB" where
  "MiniDB_restart db = MiniDB_open (md_wal db) (md_sst db)"

datatype lsm_op = LsmPut bytes bytes | LsmFlush | LsmRestart

fun run_lsm_op :: "lsm_op \<Rightarrow> MiniDB \<Rightarrow> MiniDB" where
  "run_lsm_op (LsmPut k v) db = MiniDB_Put k v db"
| "run_lsm_op LsmFlush db = MiniDB_Flush db"
| "run_lsm_op LsmRestart db = MiniDB_restart db"

section \<open>Lines\<close>

lemma takeWhile_sep: "c \<notin> set xs \<Longrightarrow> takeWhile (\<lambda>x. x \<noteq> c) (xs @ c # ys) = xs"
  by (induction xs) auto

lemma dropWhile_sep: "c \<notin> set xs \<Longrightarrow> dropWhile (\<lambda>x. x \<noteq> c) (xs @ c # ys) = c # ys"
  by (induction xs) auto

lemma getline_sep: "c \<notin> set xs \<Longrightarrow> getline c (xs @ c # ys) = Some (xs, ys)"
  by (simp add: getline_def takeWhile_sep dropWhile_sep)

lemma getline_last: "c \<notin> set xs \<Longrightarrow> xs \<noteq> [] \<Longrightarrow> getline c xs = Some (xs, [])"
proof -
  assume a: "c \<notin> set xs" "xs \<noteq> []"
  then have "takeWhile (\<lambda>x. x \<noteq> c) xs = xs" "dropWhile (\<lambda>x. x \<noteq> c) xs = []" by (auto simp: takeWhile_eq_all_conv dropWhile_eq_Nil_conv)
  then show "getline c xs = Some (xs, [])" using a(2) by (simp add: getline_def del: dropWhile_eq_Nil_conv takeWhile_eq_all_conv)
qed

lemma file_lines_line: "10 \<notin> set l \<Longrightarrow> file_lines (l @ 10 # rest) = l # file_lines rest"
  by (subst file_lines.simps) (simp add: getline_sep)

lemma file_lines_Nil [simp]: "file_lines [] = []"
  by (subst file_lines.simps) (simp add: getline_def)

text \<open>A file that is empty or ends with a line break: its lines come before what is appended.\<close>

definition whole_lines :: "bytes \<Rightarrow> bool" where
  "whole_lines s \<longleftrightarrow> (\<exists>ls. s = concat (map (\<lambda>l. l @ [10]) ls) \<and> (\<forall>l\<in>set ls. 10 \<notin> set l))"

lemma file_lines_lines: "\<forall>l\<in>set ls. 10 \<notin> set l \<Longrightarrow> file_lines (concat (map (\<lambda>l. l @ [10]) ls) @ s) = ls @ file_lines s"
  by (induction ls) (simp_all add: file_lines_line)

lemma file_lines_append: "whole_lines s \<Longrightarrow> file_lines (s @ t) = file_lines s @ file_lines t"
  using file_lines_lines [of _ t] file_lines_lines [of _ "[]"] by (auto simp: whole_lines_def)

lemma whole_lines_append:
  assumes "whole_lines s" "10 \<notin> set l"
  shows "whole_lines (s @ l @ [10])"
proof -
  obtain ls where "s = concat (map (\<lambda>l. l @ [10]) ls)" "\<forall>l\<in>set ls. 10 \<notin> set l" using assms(1) by (auto simp: whole_lines_def)
  then show ?thesis unfolding whole_lines_def using assms(2) by (intro exI [of _ "ls @ [l]"]) auto
qed

section \<open>Reading back what was written\<close>

definition key_ok :: "bytes \<Rightarrow> bool" where
  "key_ok k \<longleftrightarrow> 9 \<notin> set k \<and> 10 \<notin> set k"

definition value_ok :: "bytes \<Rightarrow> bool" where
  "value_ok v \<longleftrightarrow> 10 \<notin> set v \<and> v \<noteq> []"

lemma recover_put_line:
  assumes "key_ok k" "value_ok v"
  shows "recover_line (str ''PUT'' @ [9] @ k @ [9] @ v) mem = map_put k v mem"
proof -
  have "9 \<notin> set (str ''PUT'')" by (simp add: str_def)
  then have "getline 9 (str ''PUT'' @ 9 # k @ 9 # v) = Some (str ''PUT'', k @ 9 # v)" by (rule getline_sep)
  moreover have "getline 9 (k @ 9 # v) = Some (k, v)" using assms(1) by (intro getline_sep) (simp add: key_ok_def)
  moreover have "getline 10 v = Some (v, [])" using assms(2) by (intro getline_last) (simp_all add: value_ok_def)
  ultimately show ?thesis by (simp add: recover_line_def)
qed

lemma put_line_text:
  assumes "key_ok k" "value_ok v"
  shows "put_line k v = (str ''PUT'' @ [9] @ k @ [9] @ v) @ [10]" "10 \<notin> set (str ''PUT'' @ [9] @ k @ [9] @ v)"
  using assms by (auto simp: put_line_def key_ok_def value_ok_def str_def)

lemma WAL_Recover_append:
  assumes "whole_lines c" "key_ok k" "value_ok v"
  shows "WAL_Recover (Some (c @ put_line k v)) mem = map_put k v (WAL_Recover (Some c) mem)"
proof -
  have "file_lines (put_line k v) = [str ''PUT'' @ [9] @ k @ [9] @ v]"
    using file_lines_line [OF put_line_text(2) [OF assms(2,3)], of "[]"] by (simp add: put_line_def)
  then show ?thesis using file_lines_append [OF assms(1)] recover_put_line [OF assms(2,3)] by (simp add: WAL_Recover_def)
qed

definition kvs_ok :: "(bytes \<times> bytes) list \<Rightarrow> bool" where
  "kvs_ok kvs \<longleftrightarrow> sorted_wrt (<) (map fst kvs) \<and> (\<forall>(k, v)\<in>set kvs. key_ok k \<and> value_ok v)"

lemma file_lines_sst: "kvs_ok kvs \<Longrightarrow> file_lines (SSTable_Write kvs) = map (\<lambda>(k, v). k @ [9] @ v) kvs"
proof -
  assume "kvs_ok kvs"
  then have "\<forall>l\<in>set (map (\<lambda>(k, v). k @ [9] @ v) kvs). 10 \<notin> set l" by (auto simp: kvs_ok_def key_ok_def value_ok_def)
  from file_lines_lines [OF this, of "[]"] show ?thesis by (simp add: SSTable_Write_def sst_line_def [abs_def] comp_def case_prod_unfold)
qed

lemma split_sst_line: "key_ok k \<Longrightarrow> split_line (k @ [9] @ v) = Some (k, v)"
  by (simp add: split_line_def key_ok_def takeWhile_sep dropWhile_sep)

lemma fold_map_put: "distinct (map fst kvs) \<Longrightarrow> map_of (fold (\<lambda>(k, v). map_put k v) kvs mem) = map_of mem ++ map_of kvs"
proof (induction kvs arbitrary: mem)
  case (Cons kv kvs)
  obtain k v where kv: "kv = (k, v)" by fastforce
  then have "map_of kvs k = None" using Cons.prems by (simp add: map_of_eq_None_iff)
  then have "map_of mem ++ (map_of kvs)(k \<mapsto> v) = (map_of mem)(k \<mapsto> v) ++ map_of kvs"
    by (auto simp: fun_eq_iff map_add_def split: option.split)
  then show ?case using Cons kv by (simp add: fun_upd_def)
qed simp

lemma fold_map_put_sorted: "sorted_wrt (<) (map fst mem) \<Longrightarrow> sorted_wrt (<) (map fst (fold (\<lambda>(k, v). map_put k v) kvs mem))"
  by (induction kvs arbitrary: mem) (auto simp: map_put_sorted)

lemma LoadSST_written:
  assumes "kvs_ok kvs"
  shows "map_of (LoadSSTIntoMem (Some (SSTable_Write kvs))) = map_of kvs" "kvs_ok (LoadSSTIntoMem (Some (SSTable_Write kvs)))"
proof -
  have f: "LoadSSTIntoMem (Some (SSTable_Write kvs)) = fold (\<lambda>(k, v). map_put k v) kvs []"
  proof -
    have "fold load_line (map (\<lambda>(k, v). k @ [9] @ v) kvs) mem = fold (\<lambda>(k, v). map_put k v) kvs mem"
      if "\<forall>(k, v)\<in>set kvs. key_ok k" for mem
      using that by (induction kvs arbitrary: mem) (auto simp: load_line_def split_sst_line [simplified])
    then show ?thesis using assms by (auto simp: LoadSSTIntoMem_def file_lines_sst kvs_ok_def)
  qed
  have "distinct (map fst kvs)" using assms by (simp add: kvs_ok_def strict_sorted_iff)
  then show m: "map_of (LoadSSTIntoMem (Some (SSTable_Write kvs))) = map_of kvs" by (simp add: f fold_map_put)
  have srt: "sorted_wrt (<) (map fst (fold (\<lambda>(k, v). map_put k v) kvs []))" by (rule fold_map_put_sorted) simp
  moreover have "key_ok k \<and> value_ok v" if "(k, v) \<in> set (fold (\<lambda>(k, v). map_put k v) kvs [])" for k v
  proof -
    have "map_of (fold (\<lambda>(k, v). map_put k v) kvs []) k = Some v" using srt that by (simp add: strict_sorted_iff)
    then have "(k, v) \<in> set kvs" using m f by (simp add: map_of_SomeD)
    then show ?thesis using assms by (auto simp: kvs_ok_def)
  qed
  ultimately show "kvs_ok (LoadSSTIntoMem (Some (SSTable_Write kvs)))" unfolding f by (auto simp: kvs_ok_def)
qed

lemma sst_search_written:
  assumes "kvs_ok kvs"
  shows "SSTable_Get (Some (SSTable_Write kvs)) key = map_of kvs key"
proof -
  have "sst_search (map (\<lambda>(k, v). k @ [9] @ v) kvs) key = map_of kvs key" if "\<forall>(k, v)\<in>set kvs. key_ok k"
    using that by (induction kvs) (auto simp: split_sst_line [simplified])
  then show ?thesis using assms by (auto simp: SSTable_Get_def file_lines_sst kvs_ok_def)
qed

section \<open>A store that behaves like a map\<close>

definition lsm_inv :: "MiniDB \<Rightarrow> (bytes \<rightharpoonup> bytes) \<Rightarrow> bool" where
  "lsm_inv db m \<longleftrightarrow>
     kvs_ok (md_mem db) \<and> map_of (md_mem db) = m \<and>
     (\<exists>base c. (md_sst db = None \<and> base = [] \<or> kvs_ok base \<and> md_sst db = Some (SSTable_Write base)) \<and>
        md_wal db = Some c \<and> whole_lines c \<and> dom (map_of base) \<subseteq> dom m \<and>
        kvs_ok (WAL_Recover (Some c) (LoadSSTIntoMem (md_sst db))) \<and> map_of (WAL_Recover (Some c) (LoadSSTIntoMem (md_sst db))) = m)"

lemma lsm_invE:
  assumes "lsm_inv db m"
  obtains base c where "kvs_ok (md_mem db)" "map_of (md_mem db) = m"
    "md_sst db = None \<and> base = [] \<or> kvs_ok base \<and> md_sst db = Some (SSTable_Write base)"
    "md_wal db = Some c" "whole_lines c" "dom (map_of base) \<subseteq> dom m"
    "kvs_ok (WAL_Recover (Some c) (LoadSSTIntoMem (md_sst db)))" "map_of (WAL_Recover (Some c) (LoadSSTIntoMem (md_sst db))) = m"
  using assms unfolding lsm_inv_def by blast

lemma kvs_ok_put: "kvs_ok kvs \<Longrightarrow> key_ok k \<Longrightarrow> value_ok v \<Longrightarrow> kvs_ok (map_put k v kvs)"
  using map_put_all [of kvs "\<lambda>(k, v). key_ok k \<and> value_ok v" k v] by (auto simp: kvs_ok_def map_put_sorted)

lemma lsm_open_inv: "lsm_inv (MiniDB_open None None) Map.empty"
  by (auto simp: lsm_inv_def MiniDB_open_def WAL_Recover_def LoadSSTIntoMem_def kvs_ok_def whole_lines_def intro: exI [of _ "[]"])

lemma lsm_put_inv:
  assumes "lsm_inv db m" "key_ok k" "value_ok v"
  shows "lsm_inv (MiniDB_Put k v db) (m(k \<mapsto> v))"
proof -
  obtain base c where i: "kvs_ok (md_mem db)" "map_of (md_mem db) = m"
    "md_sst db = None \<and> base = [] \<or> kvs_ok base \<and> md_sst db = Some (SSTable_Write base)"
    "md_wal db = Some c" "whole_lines c" "dom (map_of base) \<subseteq> dom m"
    "kvs_ok (WAL_Recover (Some c) (LoadSSTIntoMem (md_sst db)))" "map_of (WAL_Recover (Some c) (LoadSSTIntoMem (md_sst db))) = m"
    using assms(1) by (rule lsm_invE)
  have "whole_lines (c @ put_line k v)"
    using whole_lines_append [OF i(5) put_line_text(2) [OF assms(2,3)]] put_line_text(1) [OF assms(2,3)] by simp
  then show ?thesis unfolding lsm_inv_def
    using i assms(2,3) by (intro conjI exI [of _ base] exI [of _ "c @ put_line k v"])
      (auto simp: MiniDB_Put_def kvs_ok_put WAL_Recover_append)
qed

lemma lsm_flush_inv:
  assumes "lsm_inv db m"
  shows "lsm_inv (MiniDB_Flush db) m"
proof -
  obtain base c where i: "kvs_ok (md_mem db)" "map_of (md_mem db) = m" using assms by (rule lsm_invE)
  have "WAL_Recover (Some []) mem = mem" for mem by (simp add: WAL_Recover_def)
  moreover have "whole_lines []" by (simp add: whole_lines_def)
  ultimately show ?thesis unfolding lsm_inv_def
    using i LoadSST_written [OF i(1)] by (intro conjI exI [of _ "md_mem db"] exI [of _ "[]"]) (simp_all add: MiniDB_Flush_def)
qed

lemma lsm_restart_inv:
  assumes "lsm_inv db m"
  shows "lsm_inv (MiniDB_restart db) m"
proof -
  obtain base c where i: "md_sst db = None \<and> base = [] \<or> kvs_ok base \<and> md_sst db = Some (SSTable_Write base)"
    "md_wal db = Some c" "whole_lines c" "dom (map_of base) \<subseteq> dom m"
    "kvs_ok (WAL_Recover (Some c) (LoadSSTIntoMem (md_sst db)))" "map_of (WAL_Recover (Some c) (LoadSSTIntoMem (md_sst db))) = m"
    using assms by (rule lsm_invE)
  then show ?thesis unfolding lsm_inv_def
    by (intro conjI exI [of _ base] exI [of _ c]) (simp_all add: MiniDB_restart_def MiniDB_open_def)
qed

lemma lsm_get:
  assumes "lsm_inv db m"
  shows "MiniDB_Get db k = m k"
proof (cases "m k")
  case None
  obtain base c where i: "map_of (md_mem db) = m" "md_sst db = None \<and> base = [] \<or> kvs_ok base \<and> md_sst db = Some (SSTable_Write base)"
    "dom (map_of base) \<subseteq> dom m" using assms by (rule lsm_invE)
  have "map_of base k = None" using i(3) None by auto
  then have "SSTable_Get (md_sst db) k = None" using i(2) sst_search_written [of base k] by (auto simp: SSTable_Get_def)
  then show ?thesis using i(1) None by (simp add: MiniDB_Get_def)
next
  case (Some v)
  then show ?thesis using assms by (auto simp: MiniDB_Get_def lsm_inv_def)
qed

fun lsm_op_ok :: "lsm_op \<Rightarrow> bool" where
  "lsm_op_ok (LsmPut k v) = (key_ok k \<and> value_ok v)"
| "lsm_op_ok _ = True"

fun lsm_op_spec :: "lsm_op \<Rightarrow> (bytes \<rightharpoonup> bytes) \<Rightarrow> (bytes \<rightharpoonup> bytes)" where
  "lsm_op_spec (LsmPut k v) m = m(k \<mapsto> v)"
| "lsm_op_spec _ m = m"

theorem lsm_refines_map:
  assumes "list_all lsm_op_ok ops"
  shows "MiniDB_Get (fold run_lsm_op ops (MiniDB_open None None)) k = fold lsm_op_spec ops Map.empty k"
proof -
  have step: "lsm_inv (run_lsm_op p db) (lsm_op_spec p m)" if "lsm_inv db m" "lsm_op_ok p" for p db m
    using that by (cases p) (auto intro: lsm_put_inv lsm_flush_inv lsm_restart_inv)
  have "lsm_inv (fold run_lsm_op ops db) (fold lsm_op_spec ops m)" if "lsm_inv db m" for db m
    using that assms by (induction ops arbitrary: db m) (auto simp: step)
  from lsm_get [OF this [OF lsm_open_inv]] show ?thesis .
qed

text \<open>An empty value is there until the next restart.\<close>

lemma lsm_empty_value_lost:
  "MiniDB_Get (MiniDB_Put [97] [] (MiniDB_open None None)) [97] = Some []"
  "MiniDB_Get (MiniDB_restart (MiniDB_Put [97] [] (MiniDB_open None None))) [97] = None"
proof -
  have l: "file_lines (put_line [97] []) = [str ''PUT'' @ [9, 97, 9]]"
    using file_lines_line [of "str ''PUT'' @ [9, 97, 9]" "[]"] by (simp add: put_line_def str_def)
  show "MiniDB_Get (MiniDB_Put [97] [] (MiniDB_open None None)) [97] = Some []"
    by (simp add: MiniDB_Get_def MiniDB_Put_def MiniDB_open_def WAL_Recover_def LoadSSTIntoMem_def)
  have "recover_line (str ''PUT'' @ [9, 97, 9]) [] = []"
    by (simp add: recover_line_def getline_def str_def)
  then show "MiniDB_Get (MiniDB_restart (MiniDB_Put [97] [] (MiniDB_open None None))) [97] = None"
    by (simp add: MiniDB_Get_def MiniDB_restart_def MiniDB_Put_def MiniDB_open_def WAL_Recover_def LoadSSTIntoMem_def SSTable_Get_def l)
qed

end
