(* ===== verification/Course_Mvcc.thy ===== *)
theory Course_Mvcc
  imports Prelude
begin

text \<open>
  \<open>practice/module08_compaction_mvcc/main.cpp\<close>: internal keys with the inverted sequence number, a store
  that keeps all versions of a key and reads at a snapshot, and the merge of two sorted runs that
  drops the versions no snapshot from \<open>min_snapshot\<close> on can see. The lemmas show that keys are read back
  from their encoding, that a snapshot read returns the newest visible version, and that the merge
  changes no read at a snapshot that is not older than \<open>min_snapshot\<close>.
\<close>

section \<open>Internal keys\<close>

text \<open>The enumeration has the underlying type \<open>uint8_t\<close>, so a decoded type can be any byte.\<close>

definition kValue :: byte where "kValue = 1"
definition kDeletion :: byte where "kDeletion = 0"

record MvccKey =
  mk_user_key :: bytes
  mk_sequence :: u64
  mk_type :: byte

definition big_endian :: "u64 \<Rightarrow> bytes" where
  "big_endian w = map (\<lambda>i. ucast (drop_bit (8 * i) w)) (rev [0..<8])"

definition MvccKey_Encode :: "MvccKey \<Rightarrow> bytes" where
  "MvccKey_Encode ik = mk_user_key ik @ big_endian (NOT (mk_sequence ik)) @ [mk_type ik]"

definition MvccKey_Decode :: "bytes \<Rightarrow> MvccKey option" where
  "MvccKey_Decode enc =
     (if length enc < 9 then None
      else Some \<lparr>mk_user_key = take (length enc - 9) enc,
                 mk_sequence = NOT (foldl (\<lambda>acc b. push_bit 8 acc OR ucast b) 0 (take 8 (drop (length enc - 9) enc))),
                 mk_type = last enc\<rparr>)"

definition MvccKey_Compare :: "bytes \<Rightarrow> bytes \<Rightarrow> int option" where
  "MvccKey_Compare a b =
     (case (MvccKey_Decode a, MvccKey_Decode b) of
        (Some ka, Some kb) \<Rightarrow>
          Some (if mk_user_key ka < mk_user_key kb then -1
                else if mk_user_key ka > mk_user_key kb then 1
                else if mk_sequence ka > mk_sequence kb then -1
                else if mk_sequence ka < mk_sequence kb then 1
                else if mk_type ka < mk_type kb then -1
                else if mk_type ka > mk_type kb then 1
                else 0)
      | _ \<Rightarrow> None)"

section \<open>The store of versions\<close>

record MvccVersion =
  mv_seq :: u64
  mv_value :: bytes
  mv_deleted :: bool

type_synonym MvccStore = "bytes \<rightharpoonup> MvccVersion list"

definition push_version :: "bytes \<Rightarrow> MvccVersion \<Rightarrow> MvccStore \<Rightarrow> MvccStore" where
  "push_version key v m = m(key \<mapsto> (case m key of None \<Rightarrow> [] | Some vs \<Rightarrow> vs) @ [v])"

definition MvccStore_Put :: "bytes \<Rightarrow> u64 \<Rightarrow> bytes \<Rightarrow> MvccStore \<Rightarrow> MvccStore" where
  "MvccStore_Put key seq v = push_version key \<lparr>mv_seq = seq, mv_value = v, mv_deleted = False\<rparr>"

definition MvccStore_Delete :: "bytes \<Rightarrow> u64 \<Rightarrow> MvccStore \<Rightarrow> MvccStore" where
  "MvccStore_Delete key seq = push_version key \<lparr>mv_seq = seq, mv_value = [], mv_deleted = True\<rparr>"

text \<open>The loop of \<open>Get\<close>: \<open>best\<close> is the newest visible version so far.\<close>

fun best_version :: "u64 \<Rightarrow> MvccVersion option \<Rightarrow> MvccVersion list \<Rightarrow> MvccVersion option" where
  "best_version snap best [] = best"
| "best_version snap best (v # vs) =
     best_version snap
       (if mv_seq v \<le> snap then (case best of None \<Rightarrow> Some v | Some b \<Rightarrow> if mv_seq v > mv_seq b then Some v else best) else best) vs"

definition MvccStore_Get :: "MvccStore \<Rightarrow> bytes \<Rightarrow> u64 \<Rightarrow> bytes option" where
  "MvccStore_Get m key snap =
     (case m key of
        None \<Rightarrow> None
      | Some vs \<Rightarrow>
          (case best_version snap None vs of
             None \<Rightarrow> None
           | Some v \<Rightarrow> if mv_deleted v then None else Some (mv_value v)))"

section \<open>Merging two runs\<close>

record KvEntry =
  kv_user_key :: bytes
  kv_seq :: u64
  kv_type :: byte
  kv_value :: bytes

definition KvEntry_EncodeKey :: "KvEntry \<Rightarrow> bytes" where
  "KvEntry_EncodeKey e = MvccKey_Encode \<lparr>mk_user_key = kv_user_key e, mk_sequence = kv_seq e, mk_type = kv_type e\<rparr>"

definition kv_less :: "KvEntry \<Rightarrow> KvEntry \<Rightarrow> bool" where
  "kv_less x y = (case MvccKey_Compare (KvEntry_EncodeKey x) (KvEntry_EncodeKey y) of None \<Rightarrow> False | Some c \<Rightarrow> c < 0)"

fun merge_runs :: "KvEntry list \<Rightarrow> KvEntry list \<Rightarrow> KvEntry list" where
  "merge_runs a [] = a"
| "merge_runs [] b = b"
| "merge_runs (x # a) (y # b) = (if kv_less x y then x # merge_runs a (y # b) else y # merge_runs (x # a) b)"

fun keep_versions :: "u64 \<Rightarrow> bool \<Rightarrow> KvEntry list \<Rightarrow> KvEntry list" where
  "keep_versions min_snapshot kept_below [] = []"
| "keep_versions min_snapshot kept_below (e # es) =
     (if kv_seq e \<ge> min_snapshot then e # keep_versions min_snapshot kept_below es
      else if \<not> kept_below then e # keep_versions min_snapshot True es
      else keep_versions min_snapshot kept_below es)"

definition drop_tombstone :: "u64 \<Rightarrow> KvEntry list \<Rightarrow> KvEntry list" where
  "drop_tombstone min_snapshot keep =
     (if length keep = 1 \<and> kv_type (hd keep) = kDeletion \<and> kv_seq (hd keep) < min_snapshot then [] else keep)"

function compact_groups :: "u64 \<Rightarrow> KvEntry list \<Rightarrow> KvEntry list" where
  "compact_groups min_snapshot [] = []"
| "compact_groups min_snapshot (e # es) =
     drop_tombstone min_snapshot
       (keep_versions min_snapshot False (e # takeWhile (\<lambda>x. kv_user_key x = kv_user_key e) es)) @
     compact_groups min_snapshot (dropWhile (\<lambda>x. kv_user_key x = kv_user_key e) es)"
  by pat_completeness auto
termination
  by (relation "measure (\<lambda>(m, es). length es)") (auto simp: length_dropWhile_le le_imp_less_Suc)

definition CompactMerge :: "KvEntry list \<Rightarrow> KvEntry list \<Rightarrow> u64 \<Rightarrow> KvEntry list" where
  "CompactMerge a b min_snapshot = compact_groups min_snapshot (merge_runs a b)"

section \<open>Keys are read back from their encoding\<close>

lemma length_big_endian [simp]: "length (big_endian w) = 8"
  by (simp add: big_endian_def)

lemma big_endian_step: "push_bit 8 (drop_bit (8 * Suc j) w) OR ucast (ucast (drop_bit (8 * j) w) :: byte) = drop_bit (8 * j) (w :: u64)"
  by (rule bit_word_eqI) (auto simp: bit_simps)

lemma big_endian_fold:
  "foldl (\<lambda>acc b. push_bit 8 acc OR ucast b) (drop_bit (8 * k) w) (map (\<lambda>i. ucast (drop_bit (8 * i) w) :: byte) (rev [0..<k])) = (w :: u64)"
  by (induction k) (simp_all add: big_endian_step [simplified])

lemma big_endian_roundtrip: "foldl (\<lambda>acc b. push_bit 8 acc OR ucast b) (0 :: u64) (big_endian w) = w"
proof -
  have "drop_bit (8 * 8) w = 0" by (rule bit_word_eqI) (simp add: bit_simps)
  then show ?thesis using big_endian_fold [of 8 w] by (simp add: big_endian_def)
qed

lemma MvccKey_Decode_Encode: "MvccKey_Decode (MvccKey_Encode ik) = Some ik"
  by (simp add: MvccKey_Decode_def MvccKey_Encode_def big_endian_roundtrip)

lemma kv_less_iff:
  "kv_less x y \<longleftrightarrow> kv_user_key x < kv_user_key y \<or> kv_user_key x = kv_user_key y \<and>
     (kv_seq y < kv_seq x \<or> kv_seq x = kv_seq y \<and> kv_type x < kv_type y)"
  by (auto simp: kv_less_def MvccKey_Compare_def KvEntry_EncodeKey_def MvccKey_Decode_Encode)

section \<open>A snapshot read returns the newest visible version\<close>

text \<open>The version that a read of a list at a snapshot shall see.\<close>

definition newest_visible :: "u64 \<Rightarrow> MvccVersion list \<Rightarrow> MvccVersion option \<Rightarrow> bool" where
  "newest_visible snap vs r \<longleftrightarrow>
     (case r of
        None \<Rightarrow> \<forall>v\<in>set vs. snap < mv_seq v
      | Some v \<Rightarrow> v \<in> set vs \<and> mv_seq v \<le> snap \<and> (\<forall>u\<in>set vs. mv_seq u \<le> snap \<longrightarrow> mv_seq u \<le> mv_seq v))"

lemma best_version_newest: "newest_visible snap us best \<Longrightarrow> newest_visible snap (us @ vs) (best_version snap best vs)"
proof (induction vs arbitrary: us best)
  case (Cons v vs)
  let ?best = "if mv_seq v \<le> snap then (case best of None \<Rightarrow> Some v | Some b \<Rightarrow> if mv_seq v > mv_seq b then Some v else best) else best"
  have "newest_visible snap (us @ [v]) ?best"
    using Cons.prems by (auto simp: newest_visible_def not_le not_less split: option.splits)
  from Cons.IH [OF this] show ?case by simp
qed simp

lemma newest_visible_unique:
  assumes "newest_visible snap vs r" "newest_visible snap vs r'" "inj_on mv_seq (set vs)"
  shows "r = r'"
proof (cases r)
  case None
  then show ?thesis using assms(1,2) by (cases r') (auto simp: newest_visible_def)
next
  case (Some v)
  then obtain v' where v': "r' = Some v'" using assms(1,2) by (cases r') (auto simp: newest_visible_def)
  then have "mv_seq v = mv_seq v'" "v \<in> set vs" "v' \<in> set vs"
    using assms(1,2) Some by (auto simp: newest_visible_def intro: antisym)
  then show ?thesis using assms(3) Some v' by (auto dest: inj_onD)
qed

text \<open>The store that a run of entries fills.\<close>

definition run_entry :: "KvEntry \<Rightarrow> MvccStore \<Rightarrow> MvccStore" where
  "run_entry e m =
     (if kv_type e = kDeletion then MvccStore_Delete (kv_user_key e) (kv_seq e) m
      else MvccStore_Put (kv_user_key e) (kv_seq e) (kv_value e) m)"

definition run_store :: "KvEntry list \<Rightarrow> MvccStore" where
  "run_store es = fold run_entry es Map.empty"

definition version_of :: "KvEntry \<Rightarrow> MvccVersion" where
  "version_of e = \<lparr>mv_seq = kv_seq e, mv_value = (if kv_type e = kDeletion then [] else kv_value e), mv_deleted = (kv_type e = kDeletion)\<rparr>"

definition of_key :: "bytes \<Rightarrow> KvEntry list \<Rightarrow> KvEntry list" where
  "of_key k es = filter (\<lambda>e. kv_user_key e = k) es"

lemma version_of_seq [simp]: "mv_seq (version_of e) = kv_seq e"
  by (simp add: version_of_def)

lemma run_store_key: "run_store es k = (if of_key k es = [] then None else Some (map version_of (of_key k es)))"
proof (induction es rule: rev_induct)
  case (snoc e es)
  have "run_store (es @ [e]) k = run_entry e (run_store es) k" by (simp add: run_store_def)
  also have "\<dots> = (if kv_user_key e = k then Some ((case run_store es k of None \<Rightarrow> [] | Some vs \<Rightarrow> vs) @ [version_of e]) else run_store es k)"
    by (simp add: run_entry_def MvccStore_Delete_def MvccStore_Put_def push_version_def version_of_def)
  finally show ?case using snoc by (auto simp: of_key_def)
qed (simp add: run_store_def of_key_def)

definition visible_value :: "MvccVersion option \<Rightarrow> bytes option" where
  "visible_value r = (case r of None \<Rightarrow> None | Some v \<Rightarrow> if mv_deleted v then None else Some (mv_value v))"

theorem MvccStore_Get_newest:
  assumes "newest_visible snap (map version_of (of_key k es)) r" "inj_on kv_seq (set (of_key k es))"
  shows "MvccStore_Get (run_store es) k snap = visible_value r"
proof -
  let ?vs = "map version_of (of_key k es)"
  have "newest_visible snap ?vs (best_version snap None ?vs)"
    using best_version_newest [of snap "[]" None ?vs] by (simp add: newest_visible_def)
  moreover have "inj_on mv_seq (set ?vs)" using assms(2) by (auto simp: inj_on_def)
  ultimately have "best_version snap None ?vs = r" using assms(1) newest_visible_unique by blast
  then show ?thesis by (auto simp: MvccStore_Get_def run_store_key visible_value_def)
qed

section \<open>The merged run\<close>

definition seqs_distinct :: "KvEntry list \<Rightarrow> bool" where
  "seqs_distinct es \<longleftrightarrow> distinct (map (\<lambda>e. (kv_user_key e, kv_seq e)) es)"

definition run_sorted :: "KvEntry list \<Rightarrow> bool" where
  "run_sorted es \<longleftrightarrow> sorted_wrt kv_less es"

lemma mset_merge_runs: "mset (merge_runs a b) = mset a + mset b"
  by (induction a b rule: merge_runs.induct) auto

lemma set_merge_runs: "set (merge_runs a b) = set a \<union> set b"
  using mset_merge_runs [of a b] by (metis set_mset_mset set_mset_union)

lemma kv_less_trans: "kv_less x y \<Longrightarrow> kv_less y z \<Longrightarrow> kv_less x z"
  by (auto simp: kv_less_iff)

lemma merge_runs_sorted:
  assumes "run_sorted a" "run_sorted b" "\<forall>x\<in>set a. \<forall>y\<in>set b. kv_less x y \<or> kv_less y x"
  shows "run_sorted (merge_runs a b)"
  using assms
proof (induction a b rule: merge_runs.induct)
  case (3 x a y b)
  have h: "\<forall>z\<in>set a. kv_less x z" "\<forall>z\<in>set b. kv_less y z" using 3(3,4) by (auto simp: run_sorted_def)
  show ?case
  proof (cases "kv_less x y")
    case True
    then have "run_sorted (merge_runs a (y # b))" using 3 by (auto simp: run_sorted_def)
    then show ?thesis using True h by (auto simp: run_sorted_def set_merge_runs intro: kv_less_trans)
  next
    case False
    then have "kv_less y x" using 3(5) by auto
    moreover have "run_sorted (merge_runs (x # a) b)" using False 3 by (auto simp: run_sorted_def)
    ultimately show ?thesis using False h by (auto simp: run_sorted_def set_merge_runs intro: kv_less_trans)
  qed
qed (auto simp: run_sorted_def)

section \<open>What the groups keep\<close>

lemma keep_versions_subset: "set (keep_versions m kept es) \<subseteq> set es"
  by (induction es arbitrary: kept) (auto split: if_splits)

lemma keep_versions_above: "e \<in> set es \<Longrightarrow> m \<le> kv_seq e \<Longrightarrow> e \<in> set (keep_versions m kept es)"
  by (induction m kept es rule: keep_versions.induct) auto

lemma keep_versions_below:
  assumes "sorted_wrt (\<lambda>x y. kv_seq y < kv_seq x) es" "e \<in> set es" "kv_seq e < m" "\<forall>u\<in>set es. kv_seq u < m \<longrightarrow> kv_seq u \<le> kv_seq e"
  shows "e \<in> set (keep_versions m False es)"
  using assms
proof (induction es)
  case (Cons x es)
  show ?case
  proof (cases "e = x")
    case False
    then have "\<not> kv_seq x < m" using Cons.prems by (auto simp: not_le)
    then show ?thesis using Cons False by (auto simp: not_less)
  qed (use Cons.prems in auto)
qed simp

lemma drop_tombstone_Nil [simp]: "drop_tombstone m [] = []"
  by (simp add: drop_tombstone_def)

lemma drop_tombstone_subset: "set (drop_tombstone m es) \<subseteq> set es"
  by (simp add: drop_tombstone_def)

lemma of_key_all: "\<forall>e\<in>set es. kv_user_key e = k \<Longrightarrow> of_key k es = es" "\<forall>e\<in>set es. kv_user_key e \<noteq> k \<Longrightarrow> of_key k es = []"
  by (simp_all add: of_key_def filter_id_conv filter_empty_conv)

lemma of_key_append [simp]: "of_key k (xs @ ys) = of_key k xs @ of_key k ys"
  by (simp add: of_key_def)

lemma of_key_compact:
  assumes "sorted (map kv_user_key es)"
  shows "of_key k (compact_groups m es) = drop_tombstone m (keep_versions m False (of_key k es))"
  using assms
proof (induction m es rule: compact_groups.induct)
  case (2 m e es)
  let ?u = "kv_user_key e"
  let ?T = "e # takeWhile (\<lambda>x. kv_user_key x = ?u) es" and ?D = "dropWhile (\<lambda>x. kv_user_key x = ?u) es"
  let ?K = "drop_tombstone m (keep_versions m False ?T)"
  have T: "\<forall>x\<in>set ?T. kv_user_key x = ?u" by (auto dest: set_takeWhileD)
  then have K: "\<forall>x\<in>set ?K. kv_user_key x = ?u" using drop_tombstone_subset keep_versions_subset by blast
  have srt: "sorted (map kv_user_key ?D)" using 2(2) by (simp add: sorted_map sorted_wrt_dropWhile)
  have D: "\<forall>x\<in>set ?D. kv_user_key x \<noteq> ?u"
  proof (cases ?D)
    case (Cons d ds)
    then have "kv_user_key d \<noteq> ?u" using hd_dropWhile [of "\<lambda>x. kv_user_key x = ?u" es] by simp
    moreover have "?u \<le> kv_user_key d" using 2(2) Cons set_dropWhileD [of d "\<lambda>x. kv_user_key x = ?u" es] by simp
    ultimately show ?thesis using srt Cons by auto
  next
    case Nil
    then show ?thesis unfolding Nil by simp
  qed
  have "e # es = ?T @ ?D" by simp
  then have split: "of_key k (e # es) = of_key k ?T @ of_key k ?D" by (metis of_key_append)
  have eq: "of_key k (compact_groups m (e # es)) = of_key k ?K @ of_key k (compact_groups m ?D)" by simp
  note IH = 2(1) [OF srt]
  show ?case
  proof (cases "k = ?u")
    case True
    then have "of_key k (e # es) = ?T" unfolding split using of_key_all(1) [OF T] of_key_all(2) [OF D] by simp
    moreover have "of_key k (compact_groups m ?D) = []" using IH of_key_all(2) [OF D] True by simp
    ultimately show ?thesis unfolding eq using True of_key_all(1) [OF K] by simp
  next
    case False
    have "of_key k ?T = []" by (rule of_key_all(2)) (use T False in blast)
    moreover have "of_key k ?K = []" by (rule of_key_all(2)) (use K False in blast)
    ultimately show ?thesis unfolding eq split IH by simp
  qed
qed (simp add: of_key_def)

section \<open>The merge changes no visible read\<close>

lemma newest_kept:
  assumes "sorted_wrt (\<lambda>x y. kv_seq y < kv_seq x) es" "m \<le> snap" "newest_visible snap (map version_of es) r"
  shows "\<exists>r'. newest_visible snap (map version_of (drop_tombstone m (keep_versions m False es))) r' \<and> visible_value r' = visible_value r"
proof (cases r)
  case None
  then show ?thesis using assms(3) drop_tombstone_subset keep_versions_subset [of m False es]
    by (intro exI [of _ None]) (force simp: newest_visible_def)
next
  case (Some v)
  let ?K = "keep_versions m False es"
  obtain e where e: "e \<in> set es" "v = version_of e" "kv_seq e \<le> snap" "\<forall>u\<in>set es. kv_seq u \<le> snap \<longrightarrow> kv_seq u \<le> kv_seq e"
    using assms(3) Some by (auto simp: newest_visible_def)
  have below: "kv_seq u < m \<Longrightarrow> kv_seq u \<le> snap" for u using assms(2) by auto
  have K: "e \<in> set ?K"
    using keep_versions_above [OF e(1)] keep_versions_below [OF assms(1) e(1), of m] e(4) below by (cases "m \<le> kv_seq e") (auto simp: not_le)
  show ?thesis
  proof (cases "drop_tombstone m ?K = ?K")
    case True
    have "newest_visible snap (map version_of ?K) r"
      using K e keep_versions_subset [of m False es] Some by (auto simp: newest_visible_def)
    with True show ?thesis by auto
  next
    case False
    then have drop: "length ?K = 1" "kv_type (hd ?K) = kDeletion" "drop_tombstone m ?K = []" by (auto simp: drop_tombstone_def split: if_splits)
    then have "e = hd ?K" using K by (auto simp: length_Suc_conv)
    then have "visible_value r = None" using drop(2) Some e(2) by (simp add: visible_value_def version_of_def)
    with drop(3) show ?thesis by (intro exI [of _ None]) (simp add: newest_visible_def visible_value_def)
  qed
qed

lemma seqs_distinct_inj: "seqs_distinct es \<Longrightarrow> inj_on kv_seq (set (of_key k es))"
proof -
  assume "seqs_distinct es"
  then have "inj_on (\<lambda>e. (kv_user_key e, kv_seq e)) (set es)" by (simp add: seqs_distinct_def distinct_map)
  then show "inj_on kv_seq (set (of_key k es))" by (auto simp: inj_on_def of_key_def)
qed

lemma run_sorted_parts:
  assumes "run_sorted es" "seqs_distinct es"
  shows "sorted (map kv_user_key es)" "sorted_wrt (\<lambda>x y. kv_seq y < kv_seq x) (of_key k es)"
proof -
  show "sorted (map kv_user_key es)"
    using assms(1) unfolding run_sorted_def sorted_map by (rule sorted_wrt_mono_rel [rotated]) (auto simp: kv_less_iff)
  have "sorted_wrt kv_less (of_key k es)" using assms(1) by (simp add: run_sorted_def of_key_def sorted_wrt_filter)
  moreover have "distinct (map kv_seq (of_key k es))"
    using seqs_distinct_inj [OF assms(2)] assms(2) by (auto simp: distinct_map seqs_distinct_def of_key_def)
  ultimately show "sorted_wrt (\<lambda>x y. kv_seq y < kv_seq x) (of_key k es)"
  proof (induction es)
    case (Cons e es)
    then show ?case by (cases "kv_user_key e = k") (auto simp: of_key_def kv_less_iff)
  qed (simp add: of_key_def)
qed

lemma seqs_distinct_mset: "mset xs = mset ys \<Longrightarrow> seqs_distinct xs = seqs_distinct ys"
  unfolding seqs_distinct_def by (intro mset_eq_imp_distinct_iff) simp

theorem CompactMerge_reads:
  assumes "run_sorted a" "run_sorted b" "seqs_distinct (a @ b)" "min_snapshot \<le> snap"
  shows "MvccStore_Get (run_store (CompactMerge a b min_snapshot)) k snap = MvccStore_Get (run_store (a @ b)) k snap"
proof -
  let ?m = "merge_runs a b"
  have ms: "mset ?m = mset (a @ b)" by (simp add: mset_merge_runs)
  have tot: "\<forall>x\<in>set a. \<forall>y\<in>set b. kv_less x y \<or> kv_less y x"
    using assms(3) by (force simp: seqs_distinct_def kv_less_iff)
  have srt: "run_sorted ?m" by (rule merge_runs_sorted [OF assms(1,2) tot])
  have dist: "seqs_distinct ?m" using assms(3) seqs_distinct_mset [OF ms] by simp
  note parts = run_sorted_parts [OF srt dist]
  obtain r where r: "newest_visible snap (map version_of (of_key k ?m)) r"
    using best_version_newest [of snap "[]" None "map version_of (of_key k ?m)"] by (auto simp: newest_visible_def)
  obtain r' where r': "newest_visible snap (map version_of (of_key k (CompactMerge a b min_snapshot))) r'" "visible_value r' = visible_value r"
    using newest_kept [OF parts(2) assms(4) r] of_key_compact [OF parts(1)] by (auto simp: CompactMerge_def)
  have sub: "set (of_key k (CompactMerge a b min_snapshot)) \<subseteq> set (of_key k ?m)"
    using of_key_compact [OF parts(1), of k min_snapshot] drop_tombstone_subset keep_versions_subset unfolding CompactMerge_def by fastforce
  have "set (of_key k (a @ b)) = set (of_key k ?m)" using set_merge_runs [of a b] by (auto simp: of_key_def)
  then have "set (map version_of (of_key k (a @ b))) = set (map version_of (of_key k ?m))" by (simp only: set_map)
  then have "newest_visible snap (map version_of (of_key k (a @ b))) r" using r unfolding newest_visible_def by (simp only:)
  then show ?thesis
    using MvccStore_Get_newest [OF _ seqs_distinct_inj [OF assms(3)]] MvccStore_Get_newest [OF r'(1)] r'(2)
      inj_on_subset [OF seqs_distinct_inj [OF dist] sub] by simp
qed

end
