(* ===== verification/Course_Proxy.thy ===== *)
theory Course_Proxy
  imports Std_String
begin

text \<open>
  \<open>practice/module10_http_proxy/main.cpp\<close>: an incremental parser of HTTP requests, the smooth weighted
  round robin and a connection pool. The lemmas show that the pieces in which a request is fed do not
  matter (exceptions of \<open>std::stoul\<close> included), that the current weights of the balancer always add up to
  zero and that it picks a server with the largest weight, and that the pool never hands out a
  connection that is in use and never creates more than its maximum.
\<close>

section \<open>The parser\<close>

datatype PxState = PxRequestLine | PxHeaders | PxBody | PxDone | PxError

record PxRequest =
  px_method :: bytes
  px_path :: bytes
  px_version :: bytes
  px_headers :: "(bytes \<times> bytes) list"
  px_body :: bytes

record PxParser =
  pp_state :: PxState
  pp_req :: PxRequest
  pp_buf :: bytes
  pp_body_remain :: nat

definition PxParser_new :: PxParser where
  "PxParser_new =
     \<lparr>pp_state = PxRequestLine, pp_req = \<lparr>px_method = [], px_path = [], px_version = [], px_headers = [], px_body = []\<rparr>,
      pp_buf = [], pp_body_remain = 0\<rparr>"

text \<open>\<open>find\<close> and \<open>rfind\<close> of a character.\<close>

definition first_of :: "byte \<Rightarrow> bytes \<Rightarrow> nat option" where
  "first_of c s = (if c \<in> set s then Some (length (takeWhile (\<lambda>x. x \<noteq> c) s)) else None)"

definition last_of :: "byte \<Rightarrow> bytes \<Rightarrow> nat option" where
  "last_of c s = (if c \<in> set s then Some (length s - 1 - length (takeWhile (\<lambda>x. x \<noteq> c) (rev s))) else None)"

definition px_request_line :: "bytes \<Rightarrow> PxParser \<Rightarrow> PxParser" where
  "px_request_line line p =
     (case (first_of 32 line, last_of 32 line) of
        (Some s1, Some s2) \<Rightarrow>
          if s2 = s1 then p\<lparr>pp_state := PxError\<rparr>
          else p\<lparr>pp_req := (pp_req p)\<lparr>px_method := take s1 line, px_path := take (s2 - s1 - 1) (drop (s1 + 1) line),
                   px_version := drop (s2 + 1) line\<rparr>, pp_state := PxHeaders\<rparr>
      | _ \<Rightarrow> p\<lparr>pp_state := PxError\<rparr>)"

definition headers_end :: "PxParser \<Rightarrow> std_exn option \<times> PxParser" where
  "headers_end p =
     (case map_of (px_headers (pp_req p)) (str ''Content-Length'') of
        None \<Rightarrow> (None, p\<lparr>pp_state := PxDone\<rparr>)
      | Some v \<Rightarrow>
          (case stoul v of
             Inl ex \<Rightarrow> (Some ex, p)
           | Inr n \<Rightarrow> (None, p\<lparr>pp_body_remain := unat n, pp_state := (if n > 0 then PxBody else PxDone)\<rparr>)))"

definition header_line :: "bytes \<Rightarrow> PxParser \<Rightarrow> PxParser" where
  "header_line line p =
     (case first_of 58 line of
        None \<Rightarrow> p\<lparr>pp_state := PxError\<rparr>
      | Some colon \<Rightarrow>
          p\<lparr>pp_req := (pp_req p)\<lparr>px_headers :=
              AList.update (take colon line) (dropWhile (\<lambda>c. c = 32) (drop (colon + 1) line)) (px_headers (pp_req p))\<rparr>\<rparr>)"

text \<open>One round of the loop of \<open>feed\<close>: \<open>None\<close> is the return for lack of data, otherwise an exception or the new state.\<close>

definition px_round :: "PxParser \<Rightarrow> (std_exn option \<times> PxParser) option" where
  "px_round p =
     (case pp_state p of
        PxRequestLine \<Rightarrow>
          (case find_str [13, 10] (pp_buf p) 0 of
             None \<Rightarrow> None
           | Some pos \<Rightarrow> Some (None, px_request_line (take pos (pp_buf p)) (p\<lparr>pp_buf := drop (pos + 2) (pp_buf p)\<rparr>)))
      | PxHeaders \<Rightarrow>
          (case find_str [13, 10] (pp_buf p) 0 of
             None \<Rightarrow> None
           | Some pos \<Rightarrow>
               if pos = 0 then Some (headers_end (p\<lparr>pp_buf := drop 2 (pp_buf p)\<rparr>))
               else Some (None, header_line (take pos (pp_buf p)) (p\<lparr>pp_buf := drop (pos + 2) (pp_buf p)\<rparr>)))
      | PxBody \<Rightarrow>
          if length (pp_buf p) < pp_body_remain p then None
          else Some (None, p\<lparr>pp_req := (pp_req p)\<lparr>px_body := take (pp_body_remain p) (pp_buf p)\<rparr>,
                             pp_buf := drop (pp_body_remain p) (pp_buf p), pp_body_remain := 0, pp_state := PxDone\<rparr>)
      | _ \<Rightarrow> None)"

definition px_left :: "PxParser \<Rightarrow> nat" where
  "px_left p = 2 * length (pp_buf p) + (if pp_state p = PxBody then 1 else 0)"

lemma crlf_found: "find_str [13, 10] s 0 = Some pos \<Longrightarrow> pos + 2 \<le> length s"
  by (auto simp: find_str_Some starts_with_def dest: arg_cong [where f = length])

lemma line_frames:
  "pp_buf (px_request_line l p) = pp_buf p" "pp_buf (header_line l p) = pp_buf p" "pp_buf (snd (headers_end p)) = pp_buf p"
  "pp_state (px_request_line l p) \<noteq> PxBody" "pp_state p \<noteq> PxBody \<Longrightarrow> pp_state (header_line l p) \<noteq> PxBody"
  by (auto simp: px_request_line_def header_line_def headers_end_def split: option.splits sum.splits)

lemma headers_end_frame: "headers_end p = (ex, p') \<Longrightarrow> pp_buf p' = pp_buf p"
  using line_frames(3) [of p] by simp

lemma px_round_left: "px_round p = Some (ex, p') \<Longrightarrow> px_left p' < px_left p"
  using crlf_found [of "pp_buf p"]
  by (auto simp: px_round_def px_left_def line_frames dest!: headers_end_frame split: PxState.splits option.splits if_splits)

function px_loop :: "PxParser \<Rightarrow> std_exn option \<times> PxParser" where
  "px_loop p =
     (case px_round p of
        None \<Rightarrow> (None, p)
      | Some (Some ex, p') \<Rightarrow> (Some ex, p')
      | Some (None, p') \<Rightarrow> px_loop p')"
  by pat_completeness auto
termination
  by (relation "measure px_left") (auto dest: px_round_left)

declare px_loop.simps [simp del]

definition px_feed :: "PxParser \<Rightarrow> bytes \<Rightarrow> std_exn option \<times> PxParser" where
  "px_feed p data = px_loop (p\<lparr>pp_buf := pp_buf p @ data\<rparr>)"

definition px_ok :: "PxParser \<Rightarrow> bool" where
  "px_ok p \<longleftrightarrow> pp_state p = PxDone"

section \<open>The balancer\<close>

record PxUpstream =
  pu_name :: bytes
  pu_weight :: int
  pu_current :: int
  pu_effective :: int

definition PxUpstream_new :: "bytes \<Rightarrow> int \<Rightarrow> PxUpstream" where
  "PxUpstream_new n w = \<lparr>pu_name = n, pu_weight = w, pu_current = 0, pu_effective = w\<rparr>"

record SmoothWRR =
  sw_ups :: "PxUpstream list"
  sw_total :: int

definition SmoothWRR_new :: "PxUpstream list \<Rightarrow> SmoothWRR" where
  "SmoothWRR_new ups = \<lparr>sw_ups = ups, sw_total = foldl (\<lambda>t u. t + pu_effective u) 0 ups\<rparr>"

text \<open>The loop: \<open>best\<close> is the index and the current weight of the best server so far.\<close>

fun sw_loop :: "nat \<Rightarrow> (nat \<times> int) option \<Rightarrow> PxUpstream list \<Rightarrow> PxUpstream list \<times> (nat \<times> int) option" where
  "sw_loop i best [] = ([], best)"
| "sw_loop i best (u # us) =
     (let u = u\<lparr>pu_current := pu_current u + pu_effective u\<rparr>;
          best = (case best of
                    None \<Rightarrow> Some (i, pu_current u)
                  | Some (j, c) \<Rightarrow> if pu_current u > c then Some (i, pu_current u) else best)
      in case sw_loop (i + 1) best us of (us, best) \<Rightarrow> (u # us, best))"

text \<open>\<open>None\<close> is the failed assertion on an empty balancer.\<close>

definition SmoothWRR_next :: "SmoothWRR \<Rightarrow> (bytes \<times> SmoothWRR) option" where
  "SmoothWRR_next s =
     (case sw_loop 0 None (sw_ups s) of
        (us, None) \<Rightarrow> None
      | (us, Some (b, _)) \<Rightarrow>
          Some (pu_name (us ! b), s\<lparr>sw_ups := us[b := (us ! b)\<lparr>pu_current := pu_current (us ! b) - sw_total s\<rparr>]\<rparr>))"

section \<open>The pool\<close>

record ConnPool =
  cp_max :: nat
  cp_created :: nat
  cp_in_use :: nat
  cp_idle :: "nat list"

definition ConnPool_new :: "nat \<Rightarrow> ConnPool" where
  "ConnPool_new max_size = \<lparr>cp_max = max_size, cp_created = 0, cp_in_use = 0, cp_idle = []\<rparr>"

definition ConnPool_acquire :: "ConnPool \<Rightarrow> nat option \<times> ConnPool" where
  "ConnPool_acquire p =
     (if cp_idle p \<noteq> [] then (Some (last (cp_idle p)), p\<lparr>cp_idle := butlast (cp_idle p), cp_in_use := cp_in_use p + 1\<rparr>)
      else if cp_created p \<ge> cp_max p then (None, p)
      else (Some (cp_created p + 1), p\<lparr>cp_created := cp_created p + 1, cp_in_use := cp_in_use p + 1\<rparr>))"

definition ConnPool_release :: "nat \<Rightarrow> ConnPool \<Rightarrow> ConnPool option" where
  "ConnPool_release i p = (if cp_in_use p = 0 then None else Some (p\<lparr>cp_in_use := cp_in_use p - 1, cp_idle := cp_idle p @ [i]\<rparr>))"

section \<open>The pieces of a request do not matter\<close>

definition feed_more :: "bytes \<Rightarrow> PxParser \<Rightarrow> PxParser" where
  "feed_more b p = p\<lparr>pp_buf := pp_buf p @ b\<rparr>"

lemma more_frames:
  "px_request_line l (feed_more b p) = feed_more b (px_request_line l p)" "header_line l (feed_more b p) = feed_more b (header_line l p)"
  "headers_end (feed_more b p) = (case headers_end p of (ex, p) \<Rightarrow> (ex, feed_more b p))"
  by (auto simp: feed_more_def px_request_line_def header_line_def headers_end_def split: option.splits sum.splits)

lemma more_drop: "(feed_more b p)\<lparr>pp_buf := x @ b\<rparr> = feed_more b (p\<lparr>pp_buf := x\<rparr>)"
  by (simp add: feed_more_def)

lemma px_round_more:
  assumes "px_round p = Some (ex, p')"
  shows "px_round (feed_more b p) = Some (ex, feed_more b p')"
proof -
  have f: "find_str [13, 10] (pp_buf p @ b) 0 = Some pos \<and> pos + 2 \<le> length (pp_buf p)" if "find_str [13, 10] (pp_buf p) 0 = Some pos" for pos
    using find_str_append [OF that] crlf_found [OF that] by simp
  have m: "pp_state (feed_more b p) = pp_state p" "pp_buf (feed_more b p) = pp_buf p @ b" "pp_body_remain (feed_more b p) = pp_body_remain p" "pp_req (feed_more b p) = pp_req p"
    by (simp_all add: feed_more_def)
  show ?thesis
  proof (cases "pp_state p")
    case PxRequestLine
    then obtain pos where pos: "find_str [13, 10] (pp_buf p) 0 = Some pos" using assms by (auto simp: px_round_def split: option.splits)
    then show ?thesis using assms f [OF pos] PxRequestLine
      by (auto simp: px_round_def m more_drop more_frames)
  next
    case PxHeaders
    then obtain pos where pos: "find_str [13, 10] (pp_buf p) 0 = Some pos" using assms by (auto simp: px_round_def split: option.splits)
    then show ?thesis using assms f [OF pos] PxHeaders
      by (auto simp: px_round_def m more_drop more_frames split: if_splits)
  next
    case PxBody
    then show ?thesis using assms by (auto simp: px_round_def m feed_more_def split: if_splits)
  qed (use assms in \<open>simp_all add: px_round_def\<close>)
qed

lemma px_loop_more: "px_loop (feed_more b p) = (case px_loop p of (Some ex, p') \<Rightarrow> (Some ex, feed_more b p') | (None, p') \<Rightarrow> px_loop (feed_more b p'))"
proof (induction p rule: px_loop.induct)
  case (1 p)
  show ?case
  proof (cases "px_round p")
    case None
    then have "px_loop p = (None, p)" by (simp add: px_loop.simps [of p])
    then show ?thesis by simp
  next
    case (Some r)
    obtain ex p' where r: "r = (ex, p')" by fastforce
    note m = px_round_more [OF Some [unfolded r], of b]
    show ?thesis
    proof (cases ex)
      case None
      then have "px_loop p = px_loop p'" "px_loop (feed_more b p) = px_loop (feed_more b p')"
        using Some r m by (simp_all add: px_loop.simps [of p] px_loop.simps [of "feed_more b p"])
      then show ?thesis using 1 Some r None by simp
    next
      case (Some e)
      then show ?thesis using \<open>px_round p = Some r\<close> r m by (simp add: px_loop.simps [of p] px_loop.simps [of "feed_more b p"])
    qed
  qed
qed

theorem px_feed_append:
  "px_feed p (a @ b) = (case px_feed p a of (Some ex, p') \<Rightarrow> (Some ex, feed_more b p') | (None, p') \<Rightarrow> px_feed p' b)"
proof -
  have "px_feed q c = px_loop (feed_more c q)" for q c by (simp add: px_feed_def feed_more_def)
  moreover have "feed_more (a @ b) p = feed_more b (feed_more a p)" by (simp add: feed_more_def)
  ultimately show ?thesis using px_loop_more [of b "feed_more a p"] by (simp split: prod.split option.split)
qed

fun px_feed_all :: "PxParser \<Rightarrow> bytes list \<Rightarrow> std_exn option \<times> PxParser" where
  "px_feed_all p [] = (None, p)"
| "px_feed_all p (d # ds) = (case px_feed p d of (Some ex, p) \<Rightarrow> (Some ex, feed_more (concat ds) p) | (None, p) \<Rightarrow> px_feed_all p ds)"

theorem px_feed_pieces:
  assumes "ds \<noteq> []"
  shows "px_feed_all p ds = px_feed p (concat ds)"
  using assms
proof (induction ds arbitrary: p)
  case (Cons d ds)
  show ?case
  proof (cases "ds = []")
    case True
    then show ?thesis by (auto simp: feed_more_def split: prod.split option.split)
  next
    case False
    then show ?thesis using Cons.IH by (auto simp: px_feed_append split: prod.split option.split)
  qed
qed simp

section \<open>The weights of the balancer\<close>

lemma sw_loop_ups: "fst (sw_loop i best us) = map (\<lambda>u. u\<lparr>pu_current := pu_current u + pu_effective u\<rparr>) us"
  by (induction i best us rule: sw_loop.induct) (simp_all add: Let_def case_prod_unfold)

text \<open>The best server: its index is in range and nobody has a larger weight.\<close>

lemma sw_loop_best:
  assumes "sw_loop i best us = (us', r)"
    "\<And>j c. best = Some (j, c) \<Longrightarrow> j < i \<and> (\<forall>u\<in>set prev. pu_current u \<le> c) \<and> prev ! j \<in> set prev \<and> pu_current (prev ! j) = c"
    "best = None \<Longrightarrow> prev = []" "length prev = i"
  shows "(us = [] \<and> prev = [] \<longrightarrow> r = None) \<and> (us \<noteq> [] \<or> prev \<noteq> [] \<longrightarrow>
    (\<exists>b c. r = Some (b, c) \<and> b < i + length us \<and> pu_current ((prev @ us') ! b) = c \<and> (\<forall>u\<in>set (prev @ us'). pu_current u \<le> c)))"
  using assms
proof (induction us arbitrary: i best us' prev)
  case Nil
  then show ?case by (cases best) (auto simp: nth_append)
next
  case (Cons u us)
  let ?u = "u\<lparr>pu_current := pu_current u + pu_effective u\<rparr>"
  let ?best = "case best of None \<Rightarrow> Some (i, pu_current ?u) | Some (j, c) \<Rightarrow> if pu_current ?u > c then Some (i, pu_current ?u) else best"
  obtain us1 where l: "sw_loop (i + 1) ?best us = (us1, r)" "us' = ?u # us1"
    using Cons.prems(1) by (auto simp: Let_def split: prod.splits)
  have b: "j < i + 1 \<and> (\<forall>u\<in>set (prev @ [?u]). pu_current u \<le> c) \<and> (prev @ [?u]) ! j \<in> set (prev @ [?u]) \<and> pu_current ((prev @ [?u]) ! j) = c"
    if "?best = Some (j, c)" for j c
  proof (cases best)
    case None
    then show ?thesis using that Cons.prems(3,4) by auto
  next
    case (Some x)
    obtain j' c' where x: "x = (j', c')" by fastforce
    note p = Cons.prems(2) [OF Some [unfolded x]]
    show ?thesis
    proof (cases "pu_current ?u > c'")
      case True
      then have "j = i" "c = pu_current ?u" using that Some x by auto
      then show ?thesis using p True Cons.prems(4) by fastforce
    next
      case False
      then have "j = j'" "c = c'" using that Some x by auto
      then show ?thesis using p False Cons.prems(4) by (auto simp: nth_append)
    qed
  qed
  have "?best \<noteq> None" by (auto split: option.split)
  with Cons.IH [OF l(1), of "prev @ [?u]"] b Cons.prems(4)
  show ?case by (auto simp: l(2) split: option.splits)
qed

definition sum_current :: "PxUpstream list \<Rightarrow> int" where
  "sum_current us = sum_list (map pu_current us)"

lemma sum_list_update_int: "i < length xs \<Longrightarrow> sum_list (xs[i := y]) = sum_list xs - xs ! i + (y :: int)"
  by (induction xs arbitrary: i) (auto split: nat.split)

text \<open>A pick: a server with the largest current weight is returned, and the sum of the weights stays.\<close>

theorem SmoothWRR_next_correct:
  assumes "sw_ups s \<noteq> []" "sw_total s = sum_list (map pu_effective (sw_ups s))"
  shows "\<exists>n s'. SmoothWRR_next s = Some (n, s') \<and> n \<in> pu_name ` set (sw_ups s) \<and> sum_current (sw_ups s') = sum_current (sw_ups s) \<and>
    sw_total s' = sw_total s \<and> map pu_effective (sw_ups s') = map pu_effective (sw_ups s)"
proof -
  let ?us = "map (\<lambda>u. u\<lparr>pu_current := pu_current u + pu_effective u\<rparr>) (sw_ups s)"
  obtain r where r: "sw_loop 0 None (sw_ups s) = (?us, r)" using sw_loop_ups [of 0 None "sw_ups s"] by (metis prod.collapse)
  obtain b c where b: "r = Some (b, c)" "b < length (sw_ups s)"
    using sw_loop_best [OF r, of "[]"] assms(1) by auto
  have n: "pu_name (?us ! b) \<in> pu_name ` set (sw_ups s)" using b(2) by simp
  have "map pu_current (?us[b := (?us ! b)\<lparr>pu_current := pu_current (?us ! b) - sw_total s\<rparr>]) = (map pu_current ?us)[b := pu_current (?us ! b) - sw_total s]"
    by (simp add: map_update)
  then have "sum_current (?us[b := (?us ! b)\<lparr>pu_current := pu_current (?us ! b) - sw_total s\<rparr>]) = sum_list (map pu_current ?us) - sw_total s"
    using b(2) by (simp add: sum_current_def sum_list_update_int)
  also have "sum_list (map pu_current ?us) = sum_current (sw_ups s) + sum_list (map pu_effective (sw_ups s))"
    by (simp add: sum_current_def comp_def sum_list_addf)
  finally have sum: "sum_current (?us[b := (?us ! b)\<lparr>pu_current := pu_current (?us ! b) - sw_total s\<rparr>]) = sum_current (sw_ups s)"
    using assms(2) by simp
  have eff: "map pu_effective (?us[b := (?us ! b)\<lparr>pu_current := pu_current (?us ! b) - sw_total s\<rparr>]) = map pu_effective (sw_ups s)"
    using b(2) by (simp add: map_update comp_def) (metis list_update_id nth_map)
  show ?thesis using r b(1) n sum eff by (simp add: SmoothWRR_next_def)
qed

fun sw_picks :: "nat \<Rightarrow> SmoothWRR \<Rightarrow> bytes list" where
  "sw_picks 0 s = []"
| "sw_picks (Suc n) s = (case SmoothWRR_next s of None \<Rightarrow> [] | Some (x, s) \<Rightarrow> x # sw_picks n s)"

text \<open>The sequence that the program asserts for the weights 5, 1 and 1.\<close>

lemma sw_classic_sequence:
  "sw_picks 7 (SmoothWRR_new [PxUpstream_new [97] 5, PxUpstream_new [98] 1, PxUpstream_new [99] 1]) =
     [[97], [97], [98], [97], [99], [97], [97]]"
  by (simp add: SmoothWRR_new_def PxUpstream_new_def SmoothWRR_next_def Let_def eval_nat_numeral)

section \<open>Connections are handed out once\<close>

text \<open>A history of the pool, with the connections that are in use.\<close>

inductive pool_history :: "nat \<Rightarrow> ConnPool \<Rightarrow> nat set \<Rightarrow> bool" for n where
  fresh: "pool_history n (ConnPool_new n) {}"
| acquired: "pool_history n p out \<Longrightarrow> ConnPool_acquire p = (Some i, p') \<Longrightarrow> pool_history n p' (insert i out)"
| refused: "pool_history n p out \<Longrightarrow> ConnPool_acquire p = (None, p') \<Longrightarrow> pool_history n p' out"
| released: "pool_history n p out \<Longrightarrow> i \<in> out \<Longrightarrow> ConnPool_release i p = Some p' \<Longrightarrow> pool_history n p' (out - {i})"

lemma pool_history_inv:
  assumes "pool_history n p out"
  shows "finite out \<and> cp_in_use p = card out \<and> distinct (cp_idle p) \<and> set (cp_idle p) \<inter> out = {} \<and>
    set (cp_idle p) \<union> out = {1..cp_created p} \<and> cp_created p \<le> n \<and> cp_max p = n"
  using assms
proof (induction rule: pool_history.induct)
  case fresh
  then show ?case by (simp add: ConnPool_new_def)
next
  case (acquired p out i p')
  show ?case
  proof (cases "cp_idle p = []")
    case True
    then have p': "i = cp_created p + 1" "p' = p\<lparr>cp_created := cp_created p + 1, cp_in_use := cp_in_use p + 1\<rparr>" "cp_created p < cp_max p"
      using acquired(2) by (auto simp: ConnPool_acquire_def split: if_splits)
    have "i \<notin> out" using acquired.IH p'(1) True by auto
    then show ?thesis using acquired.IH p' True by auto
  next
    case False
    then obtain xs where xs: "cp_idle p = xs @ [i]" using acquired(2) by (metis ConnPool_acquire_def append_butlast_last_id fst_conv option.inject)
    then have p': "p' = p\<lparr>cp_idle := xs, cp_in_use := cp_in_use p + 1\<rparr>" using acquired(2) by (auto simp: ConnPool_acquire_def)
    then show ?thesis using acquired.IH xs by auto
  qed
next
  case (refused p out p')
  then show ?case by (auto simp: ConnPool_acquire_def split: if_splits)
next
  case (released p out i p')
  then have p': "p' = p\<lparr>cp_in_use := cp_in_use p - 1, cp_idle := cp_idle p @ [i]\<rparr>" by (auto simp: ConnPool_release_def split: if_splits)
  then show ?case using released by auto
qed

theorem pool_acquire_fresh:
  assumes "pool_history n p out" "ConnPool_acquire p = (Some i, p')"
  shows "i \<notin> out" "card (insert i out) \<le> n"
proof -
  note h = pool_history_inv [OF assms(1)]
  note h' = pool_history_inv [OF pool_history.acquired [OF assms]]
  show "i \<notin> out"
  proof
    assume "i \<in> out"
    then have "cp_in_use p' = cp_in_use p" using h h' by (simp add: insert_absorb)
    then show False using assms(2) by (auto simp: ConnPool_acquire_def split: if_splits)
  qed
  have "insert i out \<subseteq> {1..cp_created p'}" "cp_created p' \<le> n" using h' by auto
  then show "card (insert i out) \<le> n" using card_mono [of "{1..cp_created p'}" "insert i out"] by simp
qed

end
