(* ===== verification/Spec2Isabelle.thy ===== *)
theory Spec2Isabelle
  imports Server Db_Compaction Executor Thread_Pool Connection_Pool Io_Context Gateway Loop_Thread
    Course_Basics Course_Concurrency Course_Services Course_Hash Course_Lsm Course_Mvcc Course_Proxy
begin

text \<open>
  TitanKV: a verification of the storage engine MiniKV and of the HTTP gateway Skynet.

  \<^bold>\<open>The program.\<close> MiniKV (\<open>src/minikv\<close>) is a log-structured key-value store with a server in
  front of it. A write goes into a write-ahead log and into a memtable, a skip list of
  internal keys (user key, sequence number, type). A full memtable is frozen, given a new
  log, and written to a table file of level 0 by the flush thread; the MANIFEST records which
  tables are live, and compactions merge the tables of a level into one table of the next.
  Reads look into the memtables, newest first, and then into the tables through a block cache
  and Bloom filters. The server reads requests off its connections, hands them to a business
  pool or handles them in the event loop, and answers in order. Skynet (\<open>src/skynet\<close>) is a
  coroutine library with an HTTP gateway that reads a request, picks an upstream server by
  weight, forwards the request and relays the response.

  \<^bold>\<open>Conventions.\<close> A class is a record with the fields of the class, a method is a definition
  \<open>Class_method\<close> from the state to the new state and the result, in the order of the source.
  Bytes, 32-bit and 64-bit values are words, so that wrap-around is visible; sizes that only
  count what is in memory are natural numbers. A \<open>Status\<close> is a value, an exception is the left
  side of a sum, and \<open>None\<close> stands for a read outside an object (which the invariants exclude)
  or for a coroutine that waits for ever. Threads are steps of an inductive relation, one
  step per critical section. The operating system is a value of its own: files with the part
  that is synced, and a script of the outcome of every call (success, error, short write,
  halt); a crash keeps any prefix of the unsynced part of every file. Sockets carry scripts
  of the answers of the kernel. Third-party code is a parameter: Snappy and Zstandard
  (\<open>codec_lib\<close> with the hypothesis \<open>codec_ok\<close> that decompression inverts compression), the
  random levels of the skip list, \<open>std::hash\<close> in the consistent-hash balancer, and the
  answers of the system calls.

  \<^bold>\<open>Theories of the storage engine.\<close>

  \<^item> \<open>Prelude\<close>, \<open>Core_Types\<close>: machine types, strings and decimal numbers; \<open>Slice\<close>, \<open>Status\<close>,
    \<open>Options\<close>, \<open>WriteBatch\<close> (\<open>include/minikv\<close>).
  \<^item> \<open>Coding\<close>, \<open>Checksum\<close>, \<open>Internal_Key\<close>: the codecs of \<open>utils/coding.h\<close> with their round
    trips, CRC-32C with its bitwise reference and the detection of bursts, MurmurHash2, and
    internal keys with their order.
  \<^item> \<open>Skip_List\<close>, \<open>Memtable\<close>, \<open>Iterator_Spec\<close>: \<open>core/skip_list.h\<close> on a store of nodes with forward
    pointers, refined to an ordered association list; the memtable on top of it, and the
    contract of iterators as a locale that the memtable, table and merging iterators interpret.
  \<^item> \<open>Posix\<close>, \<open>Framed_Log\<close>, \<open>Wal\<close>, \<open>Manifest\<close>, \<open>Version\<close>, \<open>File_Names\<close>: the system calls, a locale
    for logs of framed records with interpretations for the write-ahead log, the MANIFEST and
    the request stream, \<open>core/wal.cpp\<close>, \<open>core/manifest.cpp\<close> and \<open>core/version.cpp\<close>, and the
    names of files.
  \<^item> \<open>Caches\<close>, \<open>Bloom_Filter\<close>, \<open>Compression\<close>, \<open>Block\<close>: \<open>utils/lru_cache.h\<close>,
    \<open>core/block_cache.h\<close>, \<open>core/bloom_filter.h\<close>, \<open>core/compression.cpp\<close>, \<open>core/block.cpp\<close>.
  \<^item> \<open>Sstable\<close>, \<open>Sstable_Roundtrip\<close>, \<open>Sstable_Iterator\<close>, \<open>Merging_Iterator\<close>, \<open>Compaction\<close>: table
    files, what a reader makes of what the builder wrote, the two iterators, and
    \<open>core/compaction.cpp\<close>.
  \<^item> \<open>Db_Impl\<close>, \<open>Db_Reads\<close>, \<open>Db_System\<close>, \<open>Db_Session\<close>, \<open>Db_Iterator\<close>: \<open>core/db_impl.cpp\<close>. \<open>Db_Impl\<close> has the
    operations, \<open>Db_Reads\<close> what a reader sees, \<open>Db_System\<close> the state machine of writers,
    flush thread and readers with its invariant \<open>sys_ok\<close>, \<open>Db_Session\<close> what \<open>open\<close>, \<open>put\<close> and \<open>get\<close>
    give on it, and \<open>Db_Iterator\<close> the iterator of a consistent database.
  \<^item> \<open>Db_Logs\<close>, \<open>Db_Recovery\<close>: the logs and synced files of a running database as a second invariant
    of the state machine, and \<open>DBImpl::recover\<close> after a crash between any two system calls.
  \<^item> \<open>Db_Compaction\<close>: the state machine of \<open>Db_System\<close> with the compaction thread of \<open>compactionLoop\<close> as
    further steps: it picks the files of a level and merges them later. Its invariant \<open>engine_inv\<close>
    says which writes a merge may drop, and gives what a reader finds.
  \<^item> \<open>Protocol\<close>, \<open>Reactor\<close>, \<open>Loop_Thread\<close>, \<open>Server\<close>: \<open>network/protocol.h\<close>, \<open>connection.cpp\<close>,
    \<open>event_loop.cpp\<close>, \<open>event_loop_thread.cpp\<close> and \<open>server.cpp\<close>: one connection with and without a
    business pool, the event loop, the thread that hosts it with the interleavings of its start and its
    stop, and the commands put, get, delete, scan, batch and delete-range.

  \<^bold>\<open>Theories of the gateway.\<close>

  \<^item> \<open>Std_String\<close>, \<open>Http_Message\<close>, \<open>Http_Parser\<close>: the string functions of the standard library that
    the sources call, with their exceptions; \<open>http/headers.cpp\<close>, \<open>request.h\<close>, \<open>response.cpp\<close>,
    \<open>router.cpp\<close>, and the incremental parser \<open>parser.cpp\<close>.
  \<^item> \<open>Upstreams\<close>: \<open>proxy/upstream.cpp\<close>, \<open>load_balancer.cpp\<close>, \<open>health_check.cpp\<close>, \<open>middleware.cpp\<close>;
    the locale \<open>load_balancer\<close> with interpretations for round robin, least connections and
    smooth weighted round robin.
  \<^item> \<open>Timer_Wheel\<close>, \<open>Executor\<close>, \<open>Thread_Pool\<close>, \<open>Io_Context\<close>: \<open>core/timer_wheel.cpp\<close>, \<open>executor.cpp\<close>,
    \<open>thread_pool.cpp\<close> and \<open>net/io_context.cpp\<close>.
  \<^item> \<open>Net_Io\<close>, \<open>Connection_Pool\<close>, \<open>Config\<close>, \<open>Gateway\<close>: \<open>net/io_awaitable.h\<close>, \<open>socket.cpp\<close>, \<open>tcp_stream.cpp\<close>,
    \<open>proxy/connection_pool.cpp\<close>, \<open>config/config.cpp\<close>, and \<open>gateway/main.cpp\<close>.

  \<^bold>\<open>Theories of the course\<close> (\<open>src/practice\<close>, stand-alone programs with small versions of the same parts).

  \<^item> \<open>Ordered_Map\<close>: \<open>std::map\<close> as an ordered list of pairs, and the walk around a ring of keys.
  \<^item> \<open>Course_Basics\<close> (modules 01, 02 and 13): the call chain of a store, varints, and an LRU cache whose list
    and map stay in step.
  \<^item> \<open>Course_Concurrency\<close> (module 03): the lock-free ring buffer with a step per load and store, a
    thread pool that drains its queue, and the ownership of \<open>UniquePtr\<close>: nothing is deleted twice.
  \<^item> \<open>Course_Services\<close> (modules 04 and 12): channels, parsing, Base64 against RFC 4648, tokens, middleware.
  \<^item> \<open>Course_Hash\<close> (modules 06 and 11): MurmurHash2 against the engine's, a Bloom filter, consistent hashing
    where only the keys of the node that comes or goes move, and elections with one leader.
  \<^item> \<open>Course_Lsm\<close> (module 07): a store with a text log and a text table that refines a map.
  \<^item> \<open>Course_Mvcc\<close> (module 08): version chains read at a snapshot, and a compaction that no live snapshot notices.
  \<^item> \<open>Course_Proxy\<close> (module 10): an incremental request parser that does not depend on the pieces it is
    fed, the smooth weighted round robin and a pool that never hands out a connection twice.

  \<^bold>\<open>What the theorems below show.\<close>

  \<^item> Storage structures: the write buffer reads the last write of a key, and the pointer-level
    skip list implements an ordered map; caches stay within their capacity and answer only
    what was put; Bloom filters have no false negatives; blocks, tables and
    compression read back what was written; the checksum is CRC-32C and detects bursts.
  \<^item> Durability: what the log and the MANIFEST hold after a crash at any system call, that file
    numbers are not reused, and that a database opens again after a crash with a prefix of its
    history that includes every write up to the last commit with a sync.
  \<^item> The database: in every interleaving of writers, flush thread and readers no acknowledged
    write is lost; with the compaction thread the files stay consistent and only obsolete writes
    are dropped; a get returns only what was put, and finds every key that was not deleted; a put
    is read back; what a get does with deletions in memory.
  \<^item> Compaction keeps what reads see in the merged tables; the iterators deliver every key.
  \<^item> The server: requests cut into any pieces are served in order, also with a business pool;
    malformed requests do no harm; batches, scans and a put followed by a get over the wire.
  \<^item> The gateway: requests are parsed from any pieces, served by a healthy upstream, and the
    response is relayed byte by byte; handlers finish when their peers do; the balancer is
    fair; timers follow their specification; configurations are read back.
  \<^item> The course: the ring buffer is a bounded queue, and compaction keeps what snapshots read.

  \<^bold>\<open>Bounds and fuel.\<close> No definition uses fuel: loops recurse over what they consume, with a
  termination proof where this is not structural. The theorems about table files assume that a
  table is smaller than \<open>2 ^ 31\<close> bytes, which keeps the 32-bit lengths and the signed casts of the
  code exact; sequence numbers are below \<open>2 ^ 56\<close>, the space of the trailer of an internal key;
  the timer theorem assumes that a history stays within the 64-bit counters. The state machine
  of the database has the outcome of every call in its script; where a theorem needs calls to
  succeed, it says so.

  \<^bold>\<open>Not modelled.\<close> The command-line programs, the terminal client and the benchmarks are input
  and output only. \<open>Acceptor\<close>, signal handlers and the creation of threads call the operating
  system and keep no state of their own. Logging is left out, as are \<open>noexcept\<close>, moves and
  reference counts: values are copied, and an object that several owners share has an
  identity. The memory model of C++ is taken as sequentially consistent; data races in the
  sources are listed with the findings. Of the course, the token bucket (floating point on the
  clock) and the modules 00, 05, 09 and 14, which repeat skip lists, filters and event loops, are left
  out, as are the tests under \<open>src/tests\<close> and \<open>src/practice/handwrite\<close>.
\<close>

section \<open>Concrete states for the examples\<close>

definition demo_manifest_os :: "fault list \<Rightarrow> os" where
  "demo_manifest_os fs =
     set_file \<lparr>os_files = [], os_dirs = [], os_faults = fs\<rparr> (str ''d/MANIFEST'') \<lparr>f_data = [], f_synced = 0\<rparr>"

definition demo_version :: Version where
  "demo_version = \<lparr>v_levels = replicate 8 [], v_next_file_number = 1,
     v_manifest = Some \<lparr>mf_path = str ''d/MANIFEST'', mf_fd = Some (str ''d/MANIFEST''), mf_levels = replicate 8 []\<rparr>\<rparr>"

text \<open>A ring of two slots after one complete push, and a version of a key.\<close>

definition demo_ring :: "nat SpscRingBuffer" where
  "demo_ring = (push_step 2 ^^ 3) (push_begin 7 (SpscRingBuffer_new [0, 0]))"

definition demo_kv :: "u64 \<Rightarrow> KvEntry" where
  "demo_kv s = \<lparr>kv_user_key = [97], kv_seq = s, kv_type = kValue, kv_value = [ucast s]\<rparr>"

text \<open>Codec libraries that store their input, with a marker byte in front.\<close>

definition demo_codec :: codec_lib where
  "demo_codec = \<lparr>snappy_RawCompress = (\<lambda>x. 0 # x), snappy_Uncompress = (\<lambda>c. Some (tl c)),
     zstd_compress = (\<lambda>x. Inr (0 # x)), zstd_decompress = (\<lambda>n c. Inr (tl c))\<rparr>"

lemma demo_codec_ok: "codec_ok demo_codec"
  by (simp add: codec_ok_def demo_codec_def)

text \<open>A table with one entry beside the MANIFEST.\<close>

definition demo_entry :: "bytes \<times> bytes" where
  "demo_entry = (InternalKeyEncode [97] 1 vtValue, [7])"

definition demo_table_os :: "fault list \<Rightarrow> os" where
  "demo_table_os fs =
     (case SSTableBuilder_new (demo_manifest_os []) (sst_path (str ''d'') 0 1) 4096 ctSnappy of (os1, sb) \<Rightarrow>
      case add_entries demo_codec os1 sb [demo_entry] of (os2, sb2) \<Rightarrow>
      case SSTableBuilder_finish demo_codec os2 sb2 of (os3, sb3, s) \<Rightarrow> os3\<lparr>os_faults := fs\<rparr>)"

text \<open>A database that is opened on an empty file system, and one with a put in a frozen memtable and the delete in the current one.\<close>

definition demo_empty_os :: os where
  "demo_empty_os = \<lparr>os_files = [], os_dirs = [], os_faults = []\<rparr>"

definition demo_opts :: Options where
  "demo_opts = Options_default\<lparr>db_path := str ''d''\<rparr>"

definition demo_deleted_db :: DBImpl where
  "demo_deleted_db =
     (snd (DBImpl_new demo_empty_os demo_opts (\<lambda>_. [])))\<lparr>
       db_memtable := Some (1, the (MemTable_run (MemTable_new 4096 []) [\<lparr>w_key = [97], w_value = [], w_seq = 2, w_delete = True\<rparr>])),
       db_immutables := [(0, the (MemTable_run (MemTable_new 4096 []) [\<lparr>w_key = [97], w_value = [1], w_seq = 1, w_delete = False\<rparr>]))],
       db_flush_queue := [\<lparr>fe_memtable = (0, the (MemTable_run (MemTable_new 4096 []) [\<lparr>w_key = [97], w_value = [1], w_seq = 1, w_delete = False\<rparr>])), fe_wals = []\<rparr>],
       db_seq := 2, db_next_mem := 2\<rparr>"

definition demo_entry_sync :: GroupEntry where
  "demo_entry_sync = \<lparr>ge_writer = 0, ge_batch = WriteBatch_put [] [97] [1], ge_opts = \<lparr>wopt_sync = True\<rparr>\<rparr>"

definition demo_state :: "os \<Rightarrow> DBImpl \<Rightarrow> bool" where
  "demo_state os db \<longleftrightarrow> idle db \<and> db_options db = demo_opts \<and> db_seq db = 0 \<and> v_next_file_number (db_version db) = 2 \<and>
     sys_ok demo_codec \<lparr>s_os = os, s_db = db, s_hist = [], s_flush = None\<rparr> [] []"

text \<open>A request with a body, a small configuration and a gateway with two upstreams.\<close>

definition demo_request :: HttpRequest where
  "demo_request = \<lparr>rq_method = str ''POST'', rq_path = str ''/kv'', rq_query = str ''a=1'', rq_version = str ''HTTP/1.1'',
     rq_headers = Headers_add (str ''Content-Length'') (str ''5'') (Headers_add (str ''Host'') (str ''h'') Headers_new),
     rq_body = str ''hello''\<rparr>"

definition demo_config :: Config where
  "demo_config = Config_default\<lparr>cfg_listen_port := 9000,
     cfg_upstreams := [\<lparr>uc_host = str ''127.0.0.1'', uc_port = 18080, uc_weight = 5\<rparr>, \<lparr>uc_host = str ''::1'', uc_port = 18081, uc_weight = - 1\<rparr>]\<rparr>"





section \<open>The write buffer\<close>



text \<open>
  C2. \<open>SkipList::put\<close>, which relinks the forward pointers of the search path, returns on every
  well-formed list, keeps it well-formed, and updates the entry list as an ordered map: the
  entry is replaced or inserted at its place in the internal key order.
\<close>

theorem skip_list_put_refines:
  assumes "SkipList_inv sl" "is_ikey key" "SkipList_entries sl = Some es"
  shows "\<exists>sl'. SkipList_put sl key val = Some sl' \<and> SkipList_inv sl' \<and>
    SkipList_entries sl' = Some (put_entries key val es)"
  using skip.put_content [OF assms(1,2), of val] skip.entries_content assms by auto

theorem skip_list_put_refines_witness:
  "\<exists>sl'. SkipList_put (SkipList_new [True, True, False]) [107, 1, 1, 0, 0, 0, 0, 0, 0] [118] = Some sl' \<and>
     SkipList_inv sl' \<and> SkipList_entries sl' = Some [([107, 1, 1, 0, 0, 0, 0, 0, 0], [118])]"
  using skip_list_put_refines [of "SkipList_new [True, True, False]" "[107, 1, 1, 0, 0, 0, 0, 0, 0]" "[]" "[118]"]
    skip.entries_content [of "SkipList_new [True, True, False]"]
  by (simp add: kTrailerBytes_def put_entries_def)

section \<open>Logs and crashes\<close>

text \<open>
  C3. Write-ahead log durability: in a session that appends some records, syncs, and appends
  more, a replay after any crash returns all records before the sync and, of the later ones, a
  prefix, in the order of the appends.
\<close>

theorem wal_synced_records_survive:
  assumes "wal_fd wal = Some p" "os_faults os = []" "file_of os p = Some new_file"
    "list_all wal_ok rs" "list_all wal_ok us"
    "crashed (wal_run (fst (WAL_sync (wal_run os wal rs) wal)) wal us) os'"
  shows "\<exists>j\<le>length us. WAL_replay os' wal = rs @ take j us"
  using assms by (rule wal_session_crash)

theorem wal_synced_records_survive_witness:
  "let os = set_file \<lparr>os_files = [], os_dirs = [], os_faults = []\<rparr> [119] new_file;
       wal = \<lparr>wal_path = [119], wal_fd = Some [119]\<rparr>
   in \<exists>j\<le>length [[3 :: byte]]. WAL_replay (wal_run (fst (WAL_sync (wal_run os wal [[1, 2]]) wal)) wal [[3]]) wal =
        [[1, 2]] @ take j [[3]]"
  unfolding Let_def
  by (rule wal_synced_records_survive [where p = "[119]", OF _ _ _ _ _ crashed_refl]) (simp_all add: wal_ok_def)

text \<open>
  C4. An append to the log under faults: whatever the two writes do, the file grows by a prefix
  of the record's frame, by the whole frame when the append reports success, and no other file
  changes.
\<close>

theorem wal_append_under_faults:
  assumes "wal_fd wal = Some fd" "wal_ok data" "file_of os fd \<noteq> None"
  shows "\<exists>k. content_of (fst (WAL_append os wal data)) fd = content_of os fd @ take k (wal_frame data) \<and>
    (Status_ok (snd (WAL_append os wal data)) \<longrightarrow> take k (wal_frame data) = wal_frame data) \<and>
    (\<forall>q. q \<noteq> fd \<longrightarrow> file_of (fst (WAL_append os wal data)) q = file_of os q)"
  using WAL_append_prefix [OF assms(1,2) prod.collapse [symmetric] assms(3)] by blast

theorem wal_append_under_faults_witness:
  "let os = set_file \<lparr>os_files = [], os_dirs = [], os_faults = [fOk, fShort 1]\<rparr> [119] new_file;
       wal = \<lparr>wal_path = [119], wal_fd = Some [119]\<rparr>
   in \<exists>k. content_of (fst (WAL_append os wal [1, 2])) [119] = content_of os [119] @ take k (wal_frame [1, 2]) \<and>
        (Status_ok (snd (WAL_append os wal [1, 2])) \<longrightarrow> take k (wal_frame [1, 2]) = wal_frame [1, 2]) \<and>
        (\<forall>q. q \<noteq> [119] \<longrightarrow> file_of (fst (WAL_append os wal [1, 2])) q = file_of os q)"
  unfolding Let_def by (rule wal_append_under_faults) (simp_all add: wal_ok_def)

text \<open>
  C5. The log format: a log cut off at any byte replays to exactly the records that are there
  in full.
\<close>

theorem wal_torn_tail_dropped:
  assumes "list_all wal_ok rs"
  shows "wal_parse (take n (concat (map wal_frame rs))) = complete_frames wal_frame n rs"
  using assms by (rule wal_log.parse_torn)

theorem wal_torn_tail_dropped_witness:
  "wal_parse (take 12 (concat (map wal_frame [[1], [2, 3]]))) = [[1]]"
  using wal_torn_tail_dropped [of "[[1], [2, 3]]" 12] by (simp add: wal_ok_def length_wal_frame)

text \<open>
  C6. \<open>Manifest::rewriteSnapshot\<close> is atomic: stop it by a crash between any two system calls, in
  the middle of a write or not at all, and let the crash take any unsynced data; the next
  \<open>Manifest::open\<close> still succeeds and finds the levels recorded before.
\<close>

theorem manifest_rewrite_crash_atomic:
  assumes "replays_to os (db @ str ''/MANIFEST'') (mf_levels m)" "mf_path m = db @ str ''/MANIFEST''"
    "plain_levels (mf_levels m)" "crash_script (os_faults os)"
    "crashed (fst (Manifest_rewriteSnapshot os m)) os'" "os_faults os' = []"
  shows "\<exists>os'' m'. Manifest_open os' (Manifest_new db) = (os'', m', Status_Ok) \<and> mf_levels m' = mf_levels m"
proof -
  obtain osr mr s where run: "Manifest_rewriteSnapshot os m = (osr, mr, s)" by (metis prod_cases3)
  have "recoverable osr (mf_path m) (mf_levels m)"
    by (rule rewriteSnapshot_recoverable [OF _ assms(3) _ run]) (use assms in simp_all)
  then have "recovers os' (mf_path (Manifest_new db)) (mf_levels m)"
    using recoverable_crash assms(2,5) run by (simp add: Manifest_new_def)
  from Manifest_open_recovers [OF this assms(6)] show ?thesis by (auto simp: Manifest_new_def)
qed

lemma demo_manifest_replays: "replays_to (demo_manifest_os fs) (str ''d/MANIFEST'') (replicate 8 [])"
  by (simp add: replays_to_def demo_manifest_os_def manifest_replay_loop.simps manifest_read_def Let_def)

lemma demo_faults: "os_faults (demo_manifest_os fs) = fs"
  by (simp add: demo_manifest_os_def)

lemma demo_path: "str ''d'' @ str ''/MANIFEST'' = str ''d/MANIFEST''"
  by (simp add: str_def)

theorem manifest_rewrite_crash_atomic_witness:
  "let m = \<lparr>mf_path = str ''d/MANIFEST'', mf_fd = Some (str ''d/MANIFEST''), mf_levels = replicate 8 []\<rparr>;
       os' = (fst (Manifest_rewriteSnapshot (demo_manifest_os [fOk, fOk, fOk, fHalt]) m))\<lparr>os_faults := []\<rparr>
   in \<exists>os'' m'. Manifest_open os' (Manifest_new (str ''d'')) = (os'', m', Status_Ok) \<and> mf_levels m' = mf_levels m"
  unfolding Let_def
  by (rule manifest_rewrite_crash_atomic [where os = "demo_manifest_os [fOk, fOk, fOk, fHalt]"])
    (simp_all add: demo_path demo_manifest_replays plain_levels_def demo_faults crashed_refl)

text \<open>
  C7. \<open>Version::addLevelFile\<close> and \<open>removeLevelFiles\<close> keep the version and its MANIFEST in
  agreement: after either, the synced MANIFEST replays to exactly the levels in memory, and no
  other file has changed.
\<close>

theorem version_edits_recorded:
  assumes "version_inv os v" "os_faults os = []" "0 \<le> level" "level < 8" "short_path p"
    "\<forall>meta\<in>set (v_levels v ! nat level). short_path (meta_path meta)"
  shows "version_inv (fst (Version_addLevelFile os v level p)) (snd (Version_addLevelFile os v level p)) \<and>
    version_inv (fst (Version_removeLevelFiles os v level ps)) (snd (Version_removeLevelFiles os v level ps)) \<and>
    (\<forall>q. q \<noteq> version_manifest_path v \<longrightarrow> file_of (fst (Version_addLevelFile os v level p)) q = file_of os q \<and>
       file_of (fst (Version_removeLevelFiles os v level ps)) q = file_of os q)"
  using addLevelFile_inv [OF assms(1,2,5,3,4)] removeLevelFiles_inv [OF assms(1,2,3,4,6), of ps] by simp

lemma demo_version_inv: "version_inv (demo_manifest_os fs) demo_version"
  using demo_manifest_replays [of fs]
  by (auto simp: version_inv_def demo_version_def manifest_inv_def demo_manifest_os_def intro!: exI [of _ "[]"])

lemma length_str: "length (str cs) = length cs"
  by (simp add: str_def)

lemma demo_levels: "v_levels demo_version = replicate 8 []"
  by (simp add: demo_version_def)

theorem version_edits_recorded_witness:
  "version_inv (fst (Version_addLevelFile (demo_manifest_os []) demo_version 0 (str ''d/level-0/1.sst'')))
      (snd (Version_addLevelFile (demo_manifest_os []) demo_version 0 (str ''d/level-0/1.sst'')))"
  by (rule conjunct1 [OF version_edits_recorded [where ps = "[]"]])
    (simp_all add: demo_version_inv demo_faults short_path_def demo_levels length_str)



section \<open>Encodings and checksums\<close>


text \<open>
  C10. The checksum detects every corruption confined to four consecutive bytes, which is what
  the log, MANIFEST and block readers rely on.
\<close>

theorem crc32c_detects_bursts:
  assumes "length v = length w" "length w \<le> 4" "v \<noteq> w" "length xs + length w + length ys < 2 ^ 31"
  shows "crc32c (xs @ v @ ys) (size_int (xs @ v @ ys)) \<noteq> crc32c (xs @ w @ ys) (size_int (xs @ w @ ys))"
  using crc_bitwise_detects [where s = "0xFFFFFFFF" and xs = xs and ys = ys, OF assms(1-3)] xor_left_cancel assms(1,4)
  by (auto simp: crc32c_whole)

theorem crc32c_detects_bursts_witness:
  "crc32c ([1, 2] @ [3] @ [4]) (size_int ([1, 2] @ [3 :: byte] @ [4])) \<noteq>
     crc32c ([1, 2] @ [7] @ [4]) (size_int ([1, 2] @ [7 :: byte] @ [4]))"
  by (rule crc32c_detects_bursts) simp_all

section \<open>Caches and filters\<close>

text \<open>
  C11. The Bloom filter never denies a key that was added, also after it was written to its
  file and loaded again.
\<close>

theorem bloom_no_false_negative:
  assumes "n \<le> 2 ^ 20" "k \<in> set ks" "os_faults os = []"
  shows "\<exists>bf. BloomFilter_load (BloomFilter_persist os (foldl BloomFilter_add (BloomFilter_default n) ks) p) p = Some bf \<and>
    BloomFilter_mightContain bf k"
proof -
  have "bf_num_hashes (foldl BloomFilter_add (BloomFilter_default n) ks) = 6 \<and>
      bf_bits_per_key (foldl BloomFilter_add (BloomFilter_default n) ks) = 12 \<and>
      length (bf_bits (foldl BloomFilter_add (BloomFilter_default n) ks)) = n * 12 div 8 + 1"
    by (induction ks rule: rev_induct) (simp_all add: BloomFilter_default_def BloomFilter_new_def Let_def)
  then have "BloomFilter_load (BloomFilter_persist os (foldl BloomFilter_add (BloomFilter_default n) ks) p) p =
      Some (foldl BloomFilter_add (BloomFilter_default n) ks)"
    using assms(1,3) by (intro BloomFilter_persist_load) simp_all
  then show ?thesis using BloomFilter_no_false_negatives [OF bloom_ok_default [OF assms(1)] assms(2)] by blast
qed

theorem bloom_no_false_negative_witness:
  "\<exists>bf. BloomFilter_load (BloomFilter_persist (demo_manifest_os []) (foldl BloomFilter_add (BloomFilter_default 4) [[1], [2]]) [98]) [98] =
      Some bf \<and> BloomFilter_mightContain bf [2]"
  by (rule bloom_no_false_negative) (simp_all add: demo_faults)

text \<open>
  C12. The LRU cache with a positive capacity: after \<open>put\<close> the key reads the new value, every
  other answer is one the cache gave before, and the number of entries stays within the capacity.
\<close>

theorem lru_put_then_get:
  assumes "LRUCache_inv c" "0 < lru_capacity c"
  shows "LRUCache_inv (LRUCache_put c k v) \<and> fst (LRUCache_get (LRUCache_put c k v) k) = Some v \<and>
    LRUCache_size (LRUCache_put c k v) \<le> lru_capacity c \<and>
    (\<forall>k' v'. k' \<noteq> k \<longrightarrow> fst (LRUCache_get (LRUCache_put c k v) k') = Some v' \<longrightarrow> fst (LRUCache_get c k') = Some v')"
proof -
  note p = LRUCache_put_correct [OF assms(1)]
  have "lru_capacity (LRUCache_put c k v) = lru_capacity c"
    by (simp add: LRUCache_put_def Let_def split: option.split)
  then have "LRUCache_size (LRUCache_put c k v) \<le> lru_capacity c"
    using p(1) [of k v] by (simp add: LRUCache_inv_def LRUCache_size_def)
  then show ?thesis
    using p(1) p(3) [OF assms(2)] p(2) [of k v] LRUCache_get_correct(1) [OF p(1)] LRUCache_get_correct(1) [OF assms(1)]
    by (fastforce split: if_splits)
qed

theorem lru_put_then_get_witness:
  "fst (LRUCache_get (LRUCache_put (LRUCache_new 2 :: (nat, nat) LRUCache) 1 10) 1) = Some 10"
  using lru_put_then_get [of "LRUCache_new 2 :: (nat, nat) LRUCache" 1 10]
  by (simp add: LRUCache_inv_def LRUCache_new_def linked_map_def)

text \<open>
  C13. The block cache: \<open>put\<close> keeps the index, the recency list and the byte count consistent,
  evicts until the byte count is within the capacity (or nothing is left), and never makes a
  lookup return data that was not put under that key.
\<close>

theorem block_cache_put_bounded:
  assumes "BlockCache_inv c"
  shows "BlockCache_inv (BlockCache_put c k d) \<and>
    (BlockCache_usedBytes (BlockCache_put c k d) \<le> bc_capacity_bytes c \<or> BlockCache_entryCount (BlockCache_put c k d) = 0) \<and>
    (\<forall>k' d'. fst (BlockCache_get (BlockCache_put c k d) k') = Some d' \<longrightarrow>
       (if k' = k then d' = d else fst (BlockCache_get c k') = Some d'))"
proof -
  note p = BlockCache_put_correct [OF assms, of k d]
  have "bc_list c' = [] \<Longrightarrow> BlockCache_inv c' \<Longrightarrow> BlockCache_entryCount c' = 0" for c'
    using linked_map_length [of "[]" "bc_map c'" "bc_next c'"]
    by (auto simp: BlockCache_inv_def BlockCache_entryCount_def)
  then show ?thesis
    using p(1) p(2) p(3) BlockCache_get_correct(1) [OF p(1)] BlockCache_get_correct(1) [OF assms]
    by (auto simp: BlockCache_usedBytes_def)
qed

theorem block_cache_put_bounded_witness:
  "BlockCache_usedBytes (BlockCache_put (BlockCache_new 2) \<lparr>bck_path = [1], bck_offset = 0\<rparr> [1, 2, 3]) \<le> 2 \<or>
   BlockCache_entryCount (BlockCache_put (BlockCache_new 2) \<lparr>bck_path = [1], bck_offset = 0\<rparr> [1, 2, 3]) = 0"
  using block_cache_put_bounded [OF BlockCache_inv_new, of 2 "\<lparr>bck_path = [1], bck_offset = 0\<rparr>" "[1, 2, 3]"]
  by (simp add: BlockCache_new_def)

section \<open>Tables\<close>

text \<open>
  C14. Blocks: what was added to a block builder is delivered by \<open>BlockReader::forEach\<close> on the
  finished block, entry by entry, although keys are stored prefix-compressed.
\<close>

theorem block_delivers_entries:
  assumes "list_all small_entry es"
    "length (snd (BlockBuilder_finish (foldl (\<lambda>bb (k, v). BlockBuilder_add bb k v) (BlockBuilder_new n) es))) < 2 ^ 32"
  shows "BlockReader_forEach (BlockReader_new
      (snd (BlockBuilder_finish (foldl (\<lambda>bb (k, v). BlockBuilder_add bb k v) (BlockBuilder_new n) es)))) = es"
proof -
  have "builder_inv (foldl (\<lambda>bb (k, v). BlockBuilder_add bb k v) (BlockBuilder_new n) es) es"
    using assms(1)
  proof (induction es rule: rev_induct)
    case (snoc e es)
    then show ?case by (cases e) (simp add: builder_inv_add)
  qed (simp add: builder_inv_new)
  then show ?thesis using assms(2) by (rule block_roundtrip)
qed

theorem block_delivers_entries_witness:
  "BlockReader_forEach (BlockReader_new
      (snd (BlockBuilder_finish (foldl (\<lambda>bb (k, v). BlockBuilder_add bb k v) (BlockBuilder_new 64)
        [([97, 98], [1]), ([97, 99], [2])])))) = [([97, 98], [1]), ([97, 99], [2])]"
  by (rule block_delivers_entries)
    (simp_all add: small_entry_def BlockBuilder_new_def BlockBuilder_add_def BlockBuilder_finish_def kRestartInterval_def
      entry_header_def Let_def encodeVariant32.simps size_u32_def)

text \<open>
  C15. Table files: build a table from entries in internal key order, finish it, open it, and
  look a user key up through any coherent block cache; the answer is the newest version of the
  key, nothing for a deleted or absent key, and the cache stays coherent.
\<close>

theorem table_lookup_after_build:
  assumes "codec_ok lib" "os_faults os = []" "table_weight es < 2 ^ 31" "is_sst p" "sorted_entries es"
    "SSTableBuilder_new os p bsize ctype = (os1, sb)" "add_entries lib os1 sb es = (os2, sb2)"
    "SSTableBuilder_finish lib os2 sb2 = (os3, sb3, s)" "cache_coherent lib os3 cache"
  shows "s = Status_Ok \<and> (\<exists>r cache'. SSTableReader_open os3 p = Some r \<and>
    SSTableReader_get lib os3 cache r uk =
      (case versions uk es of [] \<Rightarrow> None | (ik, v) # _ \<Rightarrow> if IsDeletion ik then None else Some v, cache') \<and>
    cache_coherent lib os3 cache')"
  using build_table(1,2) [OF assms(1-4,6-8)] table_get [of lib os3 p es cache uk] assms(5,9)
  by (simp add: memtable_scan_versions)

theorem table_lookup_after_build_witness:
  "let es = [(InternalKeyEncode [97] 1 vtValue, [7])];
       (os1, sb) = SSTableBuilder_new (demo_manifest_os []) (str ''1.sst'') 4096 ctSnappy;
       (os2, sb2) = add_entries demo_codec os1 sb es;
       (os3, sb3, s) = SSTableBuilder_finish demo_codec os2 sb2
   in s = Status_Ok \<and> (\<exists>r cache'. SSTableReader_open os3 (str ''1.sst'') = Some r \<and>
        SSTableReader_get demo_codec os3 None r [97] = (Some [7], cache'))"
proof -
  let ?es = "[(InternalKeyEncode [97] 1 vtValue, [7 :: byte])]"
  have "table_weight ?es < 2 ^ 31" "is_sst (str ''1.sst'')" "sorted_entries ?es"
    by (simp_all add: entry_weight_def is_sst_def str_def sorted_entries_def kTrailerBytes_def)
  note th = table_lookup_after_build [OF demo_codec_ok demo_faults this, where cache = None and uk = "[97]"]
  show ?thesis
    by (auto simp: Let_def cache_coherent_def versions_def split: prod.split dest!: th)
qed

text \<open>
  C16. The iterator over a table file delivers every entry once, in internal key order, and
  \<open>seek\<close> positions it at the first entry not before the target.
\<close>

theorem table_iterator_delivers:
  assumes "table_on_disk lib os p es" "sorted_entries es" "cache_coherent lib os cache" "length es \<le> n"
  shows "\<exists>r it cache'. SSTableReader_open os p = Some r \<and> SSTableIterator_new lib os cache (Some r) = (it, cache') \<and>
    iter_drain SSTableIterator_valid SSTableIterator_key SSTableIterator_value SSTableIterator_next n
      (SSTableIterator_seekToFirst it) = es \<and>
    iter_drain SSTableIterator_valid SSTableIterator_key SSTableIterator_value SSTableIterator_next n
      (SSTableIterator_seek it target) = dropWhile (\<lambda>e. InternalKeyCompare (fst e) target < 0) es"
proof -
  obtain r it cache' where it: "SSTableReader_open os p = Some r" "SSTableIterator_new lib os cache (Some r) = (it, cache')"
    "sti_ok it" "sti_rest it = es" "sti_rest (SSTableIterator_seekToFirst it) = es"
    using SSTableIterator_new_rest [OF assms(1-3)] by blast
  have ok: "sti_ok (SSTableIterator_seekToFirst it)" "sti_ok (SSTableIterator_seek it target)"
    using it(3) by (simp_all add: sti_ok_def SSTableIterator_seekToFirst_def SSTableIterator_seek_def)
  have "sti_entries it = es" using it(5) by (simp add: sti_rest_def SSTableIterator_seekToFirst_def)
  then have rest: "sti_rest (SSTableIterator_seek it target) = dropWhile (\<lambda>e. InternalKeyCompare (fst e) target < 0) es"
    by (simp add: SSTableIterator_seek_rest)
  then have "length (sti_rest (SSTableIterator_seek it target)) \<le> n"
    using order_trans [OF length_dropWhile_le assms(4)] by simp
  then show ?thesis
    using it sti.drain_rest [OF ok(1), of n] sti.drain_rest [OF ok(2), of n] rest assms(4) by auto
qed

lemma demo_table_on_disk:
  "table_on_disk demo_codec (demo_table_os fs) (sst_path (str ''d'') 0 1) [demo_entry]"
  "os_faults (demo_table_os fs) = fs"
  "q \<noteq> sst_path (str ''d'') 0 1 \<Longrightarrow> q \<noteq> sst_path (str ''d'') 0 1 @ str ''.bloom'' \<Longrightarrow>
     file_of (demo_table_os fs) q = file_of (demo_manifest_os []) q"
proof -
  let ?p = "sst_path (str ''d'') 0 1"
  obtain os1 sb where r1: "SSTableBuilder_new (demo_manifest_os []) ?p 4096 ctSnappy = (os1, sb)" by fastforce
  obtain os2 sb2 where r2: "add_entries demo_codec os1 sb [demo_entry] = (os2, sb2)" by fastforce
  obtain os3 sb3 s where r3: "SSTableBuilder_finish demo_codec os2 sb2 = (os3, sb3, s)" by (metis prod_cases3)
  note run = r1 r2 r3
  have w: "table_weight [demo_entry] < 2 ^ 31" "is_sst ?p"
    using is_sst_append [of "level_dir _ _ @ _ @ _"] by (simp_all add: demo_entry_def entry_weight_def sst_path_def)
  note b = build_table [OF demo_codec_ok demo_faults w run]
  have os: "demo_table_os fs = os3\<lparr>os_faults := fs\<rparr>" using run by (simp add: demo_table_os_def)
  show "os_faults (demo_table_os fs) = fs" by (simp add: os)
  show "table_on_disk demo_codec (demo_table_os fs) ?p [demo_entry]"
    by (rule table_on_disk_frame [OF b(1)]) (simp_all add: os)
  show "file_of (demo_table_os fs) q = file_of (demo_manifest_os []) q" if "q \<noteq> ?p" "q \<noteq> ?p @ str ''.bloom''"
    using b(4) that by (simp add: os)
qed

lemma demo_entry_sorted: "sorted_entries [demo_entry]"
  by (simp add: sorted_entries_def demo_entry_def kTrailerBytes_def)

theorem table_iterator_delivers_witness:
  "\<exists>r it cache'. SSTableReader_open (demo_table_os []) (sst_path (str ''d'') 0 1) = Some r \<and>
     SSTableIterator_new demo_codec (demo_table_os []) None (Some r) = (it, cache') \<and>
     iter_drain SSTableIterator_valid SSTableIterator_key SSTableIterator_value SSTableIterator_next 1
       (SSTableIterator_seekToFirst it) = [demo_entry]"
proof -
  have "cache_coherent demo_codec (demo_table_os []) None" "length [demo_entry] \<le> 1"
    by (simp_all add: cache_coherent_def)
  from table_iterator_delivers [OF demo_table_on_disk(1) demo_entry_sorted this] show ?thesis by blast
qed



section \<open>Compaction\<close>

text \<open>
  C18. A compaction that meets no fault: it reports success, the version with the new table in
  the next level and without the sources agrees with its MANIFEST, the new table holds the
  survivors of the merge, the sources are unlinked, the block cache stays coherent, and no other
  file changes.
\<close>

theorem compaction_merge_correct:
  assumes "merge_inputs lib os v cache cm src_level src_files ess"
  shows "\<exists>os' v' cache'. mergeLevelFiles lib os v cache cm src_level src_files = (os', v', cache', Status_Ok) \<and>
    version_inv os' v' \<and> cache_coherent lib os' cache' \<and> v_levels v' = merged_levels cm v src_level src_files ess \<and>
    (merged_entries ess \<noteq> [] \<longrightarrow> table_on_disk lib os' (merge_target cm v src_level) (merged_entries ess)) \<and>
    (\<forall>p\<in>set src_files. file_of os' p = None) \<and>
    (\<forall>q. q \<notin> set src_files \<and> q \<noteq> merge_target cm v src_level \<and> q \<noteq> merge_target cm v src_level @ str ''.bloom'' \<and>
       q \<noteq> version_manifest_path v \<longrightarrow> file_of os' q = file_of os q)"
  using mergeLevelFiles_ok [OF assms] by blast

lemma demo_merge_inputs:
  "merge_inputs demo_codec (demo_table_os []) demo_version None
     (CompactionManager_new (str ''d'') 4096 7 4) 0 [sst_path (str ''d'') 0 1] [[demo_entry]]"
proof -
  have "version_inv (demo_table_os []) demo_version"
    by (rule version_inv_frame [OF demo_version_inv [of "[]"]])
      (simp add: demo_version_def version_manifest_path_def demo_table_on_disk(3) flip: demo_path)
  moreover have "file_of (demo_table_os []) (sst_path (str ''d'') (Suc 0) 1) = None"
    by (subst demo_table_on_disk(3))
      (simp_all add: sst_path_inject demo_manifest_os_def file_of_def set_file_def flip: demo_path)
  moreover have "short_path (sst_path (str ''d'') (Suc 0) 1)"
    by (simp add: short_path_def sst_path_def level_dir_def to_digits.simps length_str)
  moreover have "v_next_file_number demo_version = 1" "version_manifest_path demo_version = str ''d/MANIFEST''"
    "table_weight [demo_entry] < 2 ^ 31"
    by (simp_all add: demo_version_def version_manifest_path_def demo_entry_def entry_weight_def)
  ultimately show ?thesis
    using demo_table_on_disk(1,2) [of "[]"] demo_entry_sorted demo_codec_ok
    by (auto simp: merge_inputs_def cache_coherent_def CompactionManager_new_def merge_target_def demo_levels demo_path)
qed

theorem compaction_merge_correct_witness:
  "\<exists>os' v' cache'. mergeLevelFiles demo_codec (demo_table_os []) demo_version None
      (CompactionManager_new (str ''d'') 4096 7 4) 0 [sst_path (str ''d'') 0 1] = (os', v', cache', Status_Ok) \<and>
    version_inv os' v' \<and> file_of os' (sst_path (str ''d'') 0 1) = None"
  using compaction_merge_correct [OF demo_merge_inputs] by auto



section \<open>The database\<close>

text \<open>
  C20. No acknowledged write is lost: open a database on an empty file system and let writers
  lead and follow group commits, the flush thread pop, build, erase and unlink, and readers
  read, in any interleaving; every write that was acknowledged is in a memtable that \<open>get\<close>
  searches or in a table that the version lists, can be opened and holds it.
\<close>

theorem db_no_write_lost:
  assumes "os_files os = []" "os_faults os = []" "open_ok opts dir" "codec_ok lib"
    "DBImpl_open os opts rngs = Some (os', Some db, st)"
    "(db_step lib)\<^sup>*\<^sup>* \<lparr>s_os = os', s_db = db, s_hist = [], s_flush = None\<rparr> s" "w \<in> set (s_hist s)"
  shows "in_memory (s_db s) w \<or> in_table lib (s_os s) (s_db s) w"
  using inv_keeps_writes [OF reachable_inv [OF assms(6) fresh_sys_inv [OF assms(1-5)]] assms(7)] .

lemma demo_open_ok: "open_ok demo_opts (str ''d'')"
  using dir_ok_short [of "str ''d''"] by (simp add: open_ok_def demo_opts_def Options_default_def str_def)

text \<open>The example database after \<open>open\<close>.\<close>

lemma demo_fresh: "\<exists>os db. DBImpl_open demo_empty_os demo_opts (\<lambda>_. []) = Some (os, Some db, Status_Ok) \<and> demo_state os db"
  using fresh_open [OF _ _ demo_open_ok demo_codec_ok, of demo_empty_os "\<lambda>_. []"]
  by (auto simp: demo_empty_os_def demo_state_def idle_def)

lemma demo_state_facts:
  assumes "demo_state os db"
  shows "sys_ok demo_codec \<lparr>s_os = os, s_db = db, s_hist = [], s_flush = None\<rparr> [] []" "idle db"
    "group_fits (write_lead db \<lparr>ge_writer = 0, ge_batch = WriteBatch_put [] [97] [1], ge_opts = opts\<rparr>)"
  using assms
  by (auto simp: demo_state_def group_fits_def write_lead_def numbers_left_def group_ops_def group_image_def op_image_def
      WriteBatch_put_def encodeFixed32_def idle_def)

text \<open>A first group commit in a new database: the state before it, and the commit.\<close>

lemma demo_lead:
  assumes "demo_state os db"
  defines "s0 \<equiv> \<lparr>s_os = os, s_db = db, s_hist = [], s_flush = None\<rparr>" and "db1 \<equiv> write_lead db demo_entry_sync"
  shows "(db_step demo_codec)\<^sup>*\<^sup>* s0 (s0\<lparr>s_db := db1\<rparr>)" "db_leader db1" "group_fits db1" "synced_group db1" "\<exists>r. write_commit os db1 = Some r"
    "ops_writes (db_seq db1 + 1) (group_ops (db_group db1)) = [\<lparr>w_key = [97], w_value = [1], w_seq = 1, w_delete = False\<rparr>]"
proof -
  note st = demo_state_facts [OF assms(1)]
  show "(db_step demo_codec)\<^sup>*\<^sup>* s0 (s0\<lparr>s_db := db1\<rparr>)"
    using db_step.lead [of s0 demo_codec demo_entry_sync] st(2) by (simp add: idle_def s0_def db1_def r_into_rtranclp)
  have "layers_ok db1 None [] []" using st(1) by (subst layers_ok_fields) (auto simp: sys_ok_def write_lead_def db1_def)
  then show "\<exists>r. write_commit os db1 = Some r" by (rule write_commit_total)
  show "db_leader db1" by (simp add: db1_def write_lead_def)
  show "group_fits db1" using st(3) by (simp add: db1_def demo_entry_sync_def)
  show "synced_group db1" using assms(1)
    by (simp add: synced_group_def db1_def write_lead_def demo_entry_sync_def demo_state_def demo_opts_def Options_default_def)
  show "ops_writes (db_seq db1 + 1) (group_ops (db_group db1)) = [\<lparr>w_key = [97], w_value = [1], w_seq = 1, w_delete = False\<rparr>]"
    using assms(1) by (simp add: demo_state_def idle_def write_lead_def group_ops_def WriteBatch_put_def db1_def demo_entry_sync_def)
qed

lemma demo_commit:
  "\<exists>os' db s. DBImpl_open demo_empty_os demo_opts (\<lambda>_. []) = Some (os', Some db, Status_Ok) \<and>
     (db_step demo_codec)\<^sup>*\<^sup>* \<lparr>s_os = os', s_db = db, s_hist = [], s_flush = None\<rparr> s \<and>
     s_hist s = [\<lparr>w_key = [97], w_value = [1], w_seq = 1, w_delete = False\<rparr>]"
proof -
  obtain os' db where op: "DBImpl_open demo_empty_os demo_opts (\<lambda>_. []) = Some (os', Some db, Status_Ok)" "demo_state os' db"
    using demo_fresh by blast
  note l = demo_lead [OF op(2)]
  let ?s1 = "\<lparr>s_os = os', s_db = write_lead db demo_entry_sync, s_hist = [], s_flush = None\<rparr>"
  obtain os2 db2 rs where "write_commit os' (write_lead db demo_entry_sync) = Some (os2, db2, rs)" using l(5) by (metis prod_cases3)
  then have "db_step demo_codec ?s1 (?s1\<lparr>s_os := os2, s_db := db2, s_hist := [\<lparr>w_key = [97], w_value = [1], w_seq = 1, w_delete = False\<rparr>]\<rparr>)"
    using db_step.commit [of ?s1 os2 db2 rs demo_codec] l(2,3,6) by simp
  with l(1) op(1) show ?thesis
    by (intro exI [of _ os'] exI [of _ db] exI [of _ "?s1\<lparr>s_os := os2, s_db := db2, s_hist := [\<lparr>w_key = [97], w_value = [1], w_seq = 1, w_delete = False\<rparr>]\<rparr>"])
      (auto intro: rtranclp.rtrancl_into_rtrancl)
qed

theorem db_no_write_lost_witness:
  "\<exists>os' db s w. DBImpl_open demo_empty_os demo_opts (\<lambda>_. []) = Some (os', Some db, Status_Ok) \<and>
     (db_step demo_codec)\<^sup>*\<^sup>* \<lparr>s_os = os', s_db = db, s_hist = [], s_flush = None\<rparr> s \<and> w \<in> set (s_hist s) \<and>
     (in_memory (s_db s) w \<or> in_table demo_codec (s_os s) (s_db s) w)"
proof -
  obtain os' db s where d: "DBImpl_open demo_empty_os demo_opts (\<lambda>_. []) = Some (os', Some db, Status_Ok)"
    "(db_step demo_codec)\<^sup>*\<^sup>* \<lparr>s_os = os', s_db = db, s_hist = [], s_flush = None\<rparr> s"
    "s_hist s = [\<lparr>w_key = [97], w_value = [1], w_seq = 1, w_delete = False\<rparr>]"
    using demo_commit by blast
  have "os_files demo_empty_os = []" "os_faults demo_empty_os = []" by (simp_all add: demo_empty_os_def)
  from db_no_write_lost [OF this demo_open_ok demo_codec_ok d(1,2), of "hd (s_hist s)"] d show ?thesis
    by (intro exI [of _ os'] exI [of _ db] exI [of _ s] exI [of _ "hd (s_hist s)"]) simp
qed


text \<open>The example: a put is committed and a compaction is requested.\<close>

lemma demo_engine:
  "\<exists>os' db e. DBImpl_open demo_empty_os demo_opts (\<lambda>_. []) = Some (os', Some db, Status_Ok) \<and>
     (engine_step demo_codec)\<^sup>*\<^sup>* \<lparr>e_sys = \<lparr>s_os = os', s_db = db, s_hist = [], s_flush = None\<rparr>, e_merge = None\<rparr> e \<and>
     s_hist (e_sys e) = [\<lparr>w_key = [97], w_value = [1], w_seq = 1, w_delete = False\<rparr>]"
proof -
  obtain os' db s where d: "DBImpl_open demo_empty_os demo_opts (\<lambda>_. []) = Some (os', Some db, Status_Ok)"
    "(db_step demo_codec)\<^sup>*\<^sup>* \<lparr>s_os = os', s_db = db, s_hist = [], s_flush = None\<rparr> s"
    "s_hist s = [\<lparr>w_key = [97], w_value = [1], w_seq = 1, w_delete = False\<rparr>]"
    using demo_commit by blast
  from rtranclp.rtrancl_into_rtrancl [OF engine_others [OF d(2), of None] engine_step.trigger] d(1,3) show ?thesis
    by (intro exI [of _ os'] exI [of _ db]) fastforce
qed

lemma demo_engine_facts: "os_files demo_empty_os = []" "os_faults demo_empty_os = []" "0 \<le> max_level demo_opts" "max_level demo_opts \<le> 7"
  by (simp_all add: demo_empty_os_def demo_opts_def Options_default_def)


text \<open>
  C22. Crash recovery: open a database on an empty file system, let writers, the flush thread and
  readers run in any interleaving, commit a group in which a writer asked for a sync, let them run
  on, and crash, at the end of a step or between two of its system calls: a table may be half
  built, a record of the log or of the MANIFEST half written, the next log already created, and
  whatever was not synced may be gone (except for Bloom filters, which are never synced). Then
  \<open>DB::open\<close> succeeds on what is left, with any options and any random numbers, and returns a
  database that satisfies the invariant; the writes it holds, in memory or in a table, are the
  first \<open>m\<close> writes of the history, in order, and include every write up to that commit.
\<close>

theorem db_crash_recovery:
  assumes "os_files os = []" "os_faults os = []" "open_ok opts dir" "codec_ok lib" "DBImpl_open os opts rngs = Some (os0, Some db0, st)"
    "(db_step lib)\<^sup>*\<^sup>* \<lparr>s_os = os0, s_db = db0, s_hist = [], s_flush = None\<rparr> s1"
    "db_leader (s_db s1)" "group_fits (s_db s1)" "synced_group (s_db s1)" "write_commit (s_os s1) (s_db s1) = Some (os2, db2, results)"
    "s2 = s1\<lparr>s_os := os2, s_db := db2, s_hist := s_hist s1 @ ops_writes (db_seq (s_db s1) + 1) (group_ops (db_group (s_db s1)))\<rparr>"
    "(db_step lib)\<^sup>*\<^sup>* s2 s" "reboots (s_db s) (s_os s) os'" "open_ok opts' dir" "0 \<le> max_level opts'"
  shows "\<exists>os'' db m hist. DBImpl_open os' opts' rngs' = Some (os'', Some db, Status_Ok) \<and>
    length (s_hist s2) \<le> m \<and> m \<le> length (s_hist s) \<and> map op_of hist = map op_of (take m (s_hist s)) \<and>
    (\<forall>w\<in>set hist. in_memory db w \<or> in_table lib os'' db w) \<and>
    sys_inv lib \<lparr>s_os = os'', s_db = db, s_hist = hist, s_flush = None\<rparr>"
proof -
  obtain os'' db m hist where r: "DBImpl_open os' opts' rngs' = Some (os'', Some db, Status_Ok)" "length (s_hist s2) \<le> m" "m \<le> length (s_hist s)"
    "map op_of hist = map op_of (take m (s_hist s))" "sys_inv lib \<lparr>s_os = os'', s_db = db, s_hist = hist, s_flush = None\<rparr>"
    using session_crash_recovery [OF assms(1-10,12,11,13-15), of rngs'] by blast
  then show ?thesis using inv_keeps_writes [OF r(5)] by auto
qed

theorem db_crash_recovery_witness:
  "\<exists>os0 db0 os2 db2 rs os' os'' db hist. DBImpl_open demo_empty_os demo_opts (\<lambda>_. []) = Some (os0, Some db0, Status_Ok) \<and>
     write_commit os0 (write_lead db0 demo_entry_sync) = Some (os2, db2, rs) \<and> reboots db2 os2 os' \<and>
     DBImpl_open os' demo_opts (\<lambda>_. [True]) = Some (os'', Some db, Status_Ok) \<and>
     map op_of hist = [\<lparr>op_type = kPut, op_key = [97], op_value = [1]\<rparr>] \<and> (\<forall>w\<in>set hist. in_memory db w \<or> in_table demo_codec os'' db w)"
proof -
  have e: "os_files demo_empty_os = []" "os_faults demo_empty_os = []" by (simp_all add: demo_empty_os_def)
  obtain os0 db0 where op: "DBImpl_open demo_empty_os demo_opts (\<lambda>_. []) = Some (os0, Some db0, Status_Ok)" "demo_state os0 db0"
    using demo_fresh by blast
  note l = demo_lead [OF op(2)]
  let ?db1 = "write_lead db0 demo_entry_sync" and ?w = "\<lparr>w_key = [97], w_value = [1], w_seq = 1, w_delete = False\<rparr>"
  let ?s1 = "\<lparr>s_os = os0, s_db = ?db1, s_hist = [], s_flush = None\<rparr>"
  obtain os2 db2 rs where c: "write_commit os0 ?db1 = Some (os2, db2, rs)" using l(5) by (metis prod_cases3)
  let ?s2 = "?s1\<lparr>s_os := os2, s_db := db2, s_hist := [?w]\<rparr>"
  have run: "(db_step demo_codec)\<^sup>*\<^sup>* \<lparr>s_os = os0, s_db = db0, s_hist = [], s_flush = None\<rparr> ?s1" using l(1) by simp
  have step: "db_step demo_codec ?s1 ?s2" using db_step.commit [of ?s1 os2 db2 rs demo_codec] l(2,3,6) c by simp
  have "log_inv demo_codec 0 ?s2"
    by (rule reachable_log_inv [OF rtranclp.rtrancl_into_rtrancl [OF run step] fresh_log_inv [OF e demo_open_ok demo_codec_ok op(1)]])
  then obtain k segs where i: "files_ok demo_codec os2 db2" "logs_ok demo_codec ?s2 k segs 0" by (auto simp: log_inv_def elim: sys_invE)
  have "os_faults os2 = []" using i(1) by (simp add: files_ok_def)
  moreover have "file_of os2 (next_log db2) = None" using fresh_log_unknown [OF i(2)] i(1) by (simp add: next_log_def)
  ultimately have r: "reboots db2 os2 (os2\<lparr>os_files := AList.clearjunk (os_files os2)\<rparr>)" by (rule reboots_same)
  have s2: "?s2 = ?s1\<lparr>s_os := os2, s_db := db2, s_hist := s_hist ?s1 @ ops_writes (db_seq (s_db ?s1) + 1) (group_ops (db_group (s_db ?s1)))\<rparr>"
    using l(6) by simp
  have pre: "db_leader (s_db ?s1)" "group_fits (s_db ?s1)" "synced_group (s_db ?s1)" "write_commit (s_os ?s1) (s_db ?s1) = Some (os2, db2, rs)"
    "reboots (s_db ?s2) (s_os ?s2) (os2\<lparr>os_files := AList.clearjunk (os_files os2)\<rparr>)" "0 \<le> max_level demo_opts"
    using l(2-4) c r by (simp_all add: demo_opts_def Options_default_def)
  obtain os'' db m hist where o: "DBImpl_open (os2\<lparr>os_files := AList.clearjunk (os_files os2)\<rparr>) demo_opts (\<lambda>_. [True]) = Some (os'', Some db, Status_Ok)"
    "length (s_hist ?s2) \<le> m" "map op_of hist = map op_of (take m (s_hist ?s2))" "\<forall>w\<in>set hist. in_memory db w \<or> in_table demo_codec os'' db w"
    using db_crash_recovery [OF e demo_open_ok demo_codec_ok op(1) run pre(1-4) s2 rtranclp.rtrancl_refl pre(5) demo_open_ok pre(6), of "\<lambda>_. [True]"] by blast
  have "map op_of hist = [\<lparr>op_type = kPut, op_key = [97], op_value = [1]\<rparr>]" using o(2,3) by (cases m) (simp_all add: op_of_def)
  with op(1) c r o(1,4) show ?thesis
    by (intro exI [of _ os0] exI [of _ db0] exI [of _ os2] exI [of _ db2] exI [of _ rs]
        exI [of _ "os2\<lparr>os_files := AList.clearjunk (os_files os2)\<rparr>"] exI [of _ os''] exI [of _ db] exI [of _ hist] conjI) assumption+
qed

text \<open>
  C23. Read your writes: in a state the invariant describes, with no write in progress, \<open>put\<close>
  returns Ok and a \<open>get\<close> of the key right after it returns Ok with the value, also when the
  put froze the memtable.
\<close>

theorem db_put_then_get:
  assumes "sys_ok lib s Ws ws" "idle (s_db s)"
    "group_fits (write_lead (s_db s) \<lparr>ge_writer = 0, ge_batch = WriteBatch_put [] k v, ge_opts = opts\<rparr>)"
  shows "\<exists>os' db'. DBImpl_put (s_os s) (s_db s) opts k v = Some (os', db', Status_Ok) \<and>
    DBImpl_get lib os' db' k = Some (Status_Ok, Some v, db')"
  using put_get assms by (auto simp: sys_ok_def)

theorem db_put_then_get_witness:
  "\<exists>os db os' db'. DBImpl_open demo_empty_os demo_opts (\<lambda>_. []) = Some (os, Some db, Status_Ok) \<and>
     DBImpl_put os db \<lparr>wopt_sync = True\<rparr> [97] [1] = Some (os', db', Status_Ok) \<and>
     DBImpl_get demo_codec os' db' [97] = Some (Status_Ok, Some [1], db')"
proof -
  obtain os db where op: "DBImpl_open demo_empty_os demo_opts (\<lambda>_. []) = Some (os, Some db, Status_Ok)" "demo_state os db"
    using demo_fresh by blast
  note st = demo_state_facts [OF op(2)]
  show ?thesis using db_put_then_get [OF st(1)] st(2,3) op(1) by simp
qed



text \<open>
  C25. What a reader finds while flushes and compactions run: in every state that a new database
  reaches, a get returns, whatever value it returns was put under that key, and a key that was put
  and never deleted is found. (Which of several values of an overwritten key is found depends on
  where its versions lie, because tables are searched oldest first.)
\<close>

theorem engine_get_answers:
  assumes "os_files os = []" "os_faults os = []" "open_ok opts dir" "codec_ok lib" "0 \<le> max_level opts" "max_level opts \<le> 7"
    "DBImpl_open os opts rngs = Some (os', Some db, st)"
    "(engine_step lib)\<^sup>*\<^sup>* \<lparr>e_sys = \<lparr>s_os = os', s_db = db, s_hist = [], s_flush = None\<rparr>, e_merge = None\<rparr> e"
    "hist = s_hist (e_sys e)"
  shows "\<exists>st r db'. DBImpl_get lib (s_os (e_sys e)) (s_db (e_sys e)) k = Some (st, r, db') \<and>
    st = (if r = None then Status_NotFound [] else Status_Ok) \<and>
    (\<forall>v. r = Some v \<longrightarrow> (\<exists>w\<in>set hist. w_key w = k \<and> w_value w = v \<and> \<not> w_delete w)) \<and>
    (k \<noteq> [] \<and> k \<in> w_key ` set hist \<and> (\<forall>w\<in>set hist. w_key w = k \<longrightarrow> \<not> w_delete w) \<longrightarrow> r \<noteq> None)"
proof -
  have "engine_inv lib e" using engine_reachable_inv [OF assms(8) fresh_engine [OF assms(1-7)]] .
  then show ?thesis by (rule engine_get [OF _ refl, of lib e k]) (auto simp: assms(9))
qed

theorem engine_get_answers_witness:
  "\<exists>os' db e db'. DBImpl_open demo_empty_os demo_opts (\<lambda>_. []) = Some (os', Some db, Status_Ok) \<and>
     (engine_step demo_codec)\<^sup>*\<^sup>* \<lparr>e_sys = \<lparr>s_os = os', s_db = db, s_hist = [], s_flush = None\<rparr>, e_merge = None\<rparr> e \<and>
     DBImpl_get demo_codec (s_os (e_sys e)) (s_db (e_sys e)) [97] = Some (Status_Ok, Some [1], db')"
proof -
  obtain os' db e where d: "DBImpl_open demo_empty_os demo_opts (\<lambda>_. []) = Some (os', Some db, Status_Ok)"
    "(engine_step demo_codec)\<^sup>*\<^sup>* \<lparr>e_sys = \<lparr>s_os = os', s_db = db, s_hist = [], s_flush = None\<rparr>, e_merge = None\<rparr> e"
    "s_hist (e_sys e) = [\<lparr>w_key = [97], w_value = [1], w_seq = 1, w_delete = False\<rparr>]"
    using demo_engine by blast
  note f = demo_engine_facts
  obtain st r db' where g: "DBImpl_get demo_codec (s_os (e_sys e)) (s_db (e_sys e)) [97] = Some (st, r, db')"
    "st = (if r = None then Status_NotFound [] else Status_Ok)" "\<forall>v. r = Some v \<longrightarrow> v = [1]" "r \<noteq> None"
    using engine_get_answers [OF f(1,2) demo_open_ok demo_codec_ok f(3,4) d(1,2) d(3) [symmetric], of "[97]"] by auto
  then have "st = Status_Ok" "r = Some [1]" by auto
  with d(1,2) g(1) show ?thesis by blast
qed

section \<open>The server\<close>

text \<open>
  C26. A connection without a business pool: however the network cuts a stream of complete
  requests and the beginning of a further one into reads, and however the kernel takes the
  answers, the handler runs over the requests one after the other, the answers leave in their
  order with nothing lost, and exactly the incomplete request stays in the buffer.
\<close>

theorem connection_reads_any_chunks:
  assumes "concat (map fst chunks) = concat raws @ tail" "list_all whole_request raws" "partial_request tail"
  shows "\<exists>c. feed handler chunks st (Connection_new False) = (fst (run_requests handler st raws), c) \<and> conn_read_buf c = tail \<and>
    conn_sent c @ conn_write_buf c = snd (run_requests handler st raws) \<and> \<not> shouldClose c"
  using feed_requests [of "Connection_new False" chunks raws tail handler st] assms
  by (simp add: Connection_new_def partial_request_def kRequestHeader_def shouldClose_def)

theorem connection_reads_any_chunks_witness:
  "\<exists>c. feed (\<lambda>st raw. (Suc st, [word_of_nat (length raw)])) [([75, 77, 2, 1, 0], [-1]), ([0, 0, 0, 0, 0, 0, 97, 75], [1])] 0
     (Connection_new False) = (1, c) \<and> conn_read_buf c = [75] \<and> conn_sent c @ conn_write_buf c = [12] \<and> \<not> shouldClose c"
proof -
  let ?h = "\<lambda>st raw. (Suc st, [word_of_nat (length raw) :: byte])"
  have raw: "encodeRequest Cmd_kGet [97] [] = [75, 77, 2, 1, 0, 0, 0, 0, 0, 0, 0, 97]"
    by (simp add: encodeRequest_def encode_request_def RequestHeader_bytes_def store16_def kProtocolMagic_def Cmd_u8_def
        encodeFixed32_def size_u32_def)
  have w: "list_all whole_request [encodeRequest Cmd_kGet [97] []]"
    using encode_request_whole [of "[97]" "[]" "Cmd_u8 Cmd_kGet"] by (simp add: encodeRequest_def)
  have p: "partial_request [75]" by (simp add: partial_request_def kRequestHeader_def)
  show ?thesis
    using connection_reads_any_chunks [of "[([75, 77, 2, 1, 0], [-1]), ([0, 0, 0, 0, 0, 0, 97, 75], [1])]"
        "[encodeRequest Cmd_kGet [97] []]" "[75]" ?h 0, OF _ w p]
    by (simp add: raw)
qed

text \<open>
  C27. A connection with a business pool keeps the order: whatever the interleaving of reads,
  pool threads, queued completions and closing, the requests handled are the first ones of the
  stream, each handled once and in order, and what was sent is a prefix of the answers a
  sequential run gives.
\<close>

theorem connection_pool_keeps_order:
  assumes "(conn_step handler)\<^sup>*\<^sup>* \<lparr>cs_state = st0, cs_conn = Connection_new True, cs_stream = [], cs_handled = []\<rparr> s"
    "cs_stream s = concat raws @ tail" "list_all whole_request raws" "partial_request tail"
  shows "\<exists>n rest. cs_handled s = take n raws \<and> cs_state s = fst (run_requests handler st0 (take n raws)) \<and>
    snd (run_requests handler st0 (take n raws)) = conn_sent (cs_conn s) @ rest"
  using assms by (rule pooled_requests)

theorem connection_pool_keeps_order_witness:
  "let raw = encodeRequest Cmd_kGet [97] []; handler = (\<lambda>st raw. (Suc st, raw));
       s0 = \<lparr>cs_state = 0, cs_conn = Connection_new True, cs_stream = [], cs_handled = []\<rparr>;
       (st, c) = onReadable handler (ReadBytes raw) [] 0 (Connection_new True);
       s = s0\<lparr>cs_state := st, cs_conn := c, cs_stream := raw\<rparr>
   in \<exists>n rest. cs_handled s = take n [raw] \<and> snd (run_requests handler 0 (take n [raw])) = conn_sent (cs_conn s) @ rest"
proof -
  let ?raw = "encodeRequest Cmd_kGet [97] []" and ?h = "\<lambda>st raw :: bytes. (Suc st, raw)"
  let ?s0 = "\<lparr>cs_state = 0, cs_conn = Connection_new True, cs_stream = [], cs_handled = []\<rparr>"
  have w: "list_all whole_request [?raw]" "partial_request []"
    using encode_request_whole [of "[97]" "[]" "Cmd_u8 Cmd_kGet"]
    by (simp_all add: encodeRequest_def partial_request_def kRequestHeader_def)
  obtain st c where r: "onReadable ?h (ReadBytes ?raw) [] 0 (Connection_new True) = (st, c)" by fastforce
  have "conn_step ?h ?s0 (?s0\<lparr>cs_state := st, cs_conn := c, cs_stream := ?raw\<rparr>)"
    using conn_step.readable [of ?s0 ?h "ReadBytes ?raw" "[]" st c] r by (simp add: Connection_new_def)
  then have "(conn_step ?h)\<^sup>*\<^sup>* ?s0 (?s0\<lparr>cs_state := st, cs_conn := c, cs_stream := ?raw\<rparr>)" by blast
  from connection_pool_keeps_order [OF this, of "[?raw]" "[]"] w r show ?thesis
    by (auto simp: Let_def)
qed

text \<open>
  C28. Bad requests do no harm: a request that is too short, has the wrong magic number or an
  unknown command, and a batch whose payload is too short for the operations it announces, are
  answered with an error and leave the database and its files as they were.
\<close>

theorem server_rejects_malformed:
  assumes "length raw < kRequestHeader \<or> hdr_magic (RequestHeader_at raw) \<noteq> kProtocolMagic \<or>
      Cmd_of_u8 (hdr_cmd (RequestHeader_at raw)) = None \<or>
      raw = encodeRequest Cmd_kBatch key val \<and> length key < 2 ^ 32 \<and> length val < 2 ^ 32 \<and>
        (length val < 4 \<or> length val < 4 + 9 * unat (decodeFixed32 val))"
  shows "\<exists>msg. processRequest lib os db raw = Some (os, db, encodeResponse Resp_kError msg)"
proof (cases "length raw < kRequestHeader \<or> hdr_magic (RequestHeader_at raw) \<noteq> kProtocolMagic \<or> Cmd_of_u8 (hdr_cmd (RequestHeader_at raw)) = None")
  case True
  then show ?thesis by (rule processRequest_rejects)
next
  case False
  then have b: "raw = encodeRequest Cmd_kBatch key val" "length key < 2 ^ 32" "length val < 2 ^ 32"
    "length val < 4 \<or> length val < 4 + 9 * unat (decodeFixed32 val)" using assms by auto
  have "\<exists>msg. process_batch os db val = Some (os, db, encodeResponse Resp_kError msg)"
  proof (cases "length val < 4")
    case False
    then have "length (drop 4 val) < 9 * unat (decodeFixed32 val)" using b(4) by simp
    then obtain msg where "parse_batch_ops (unat (decodeFixed32 val)) (drop 4 val) [] = Inl msg" using parse_batch_short by blast
    then show ?thesis using False by (auto simp: process_batch_def)
  qed (auto simp: process_batch_def)
  then show ?thesis using processRequest_commands [OF b(2,3), of lib os db Cmd_kBatch] by (simp add: b(1))
qed

theorem server_rejects_malformed_witness:
  "(\<exists>msg. processRequest demo_codec demo_empty_os demo_deleted_db [75, 77] =
      Some (demo_empty_os, demo_deleted_db, encodeResponse Resp_kError msg)) \<and>
   (\<exists>msg. processRequest demo_codec demo_empty_os demo_deleted_db (encodeRequest Cmd_kBatch [] [255, 255, 255, 255, 1]) =
      Some (demo_empty_os, demo_deleted_db, encodeResponse Resp_kError msg))"
  using server_rejects_malformed [of "[75, 77]" "[]" "[]"] server_rejects_malformed [of _ "[]" "[255, 255, 255, 255, 1]"]
  by (simp add: kRequestHeader_def decodeFixed32_def)

text \<open>
  C29. The batch command writes exactly the batch: the payload built from a list of puts and
  deletes is read back as that list and handed to one \<open>write\<close>.
\<close>

theorem server_batch_applied:
  assumes "list_all batch_op_ok ops" "length ops < 2 ^ 32" "length (batch_image ops) < 2 ^ 32" "length key < 2 ^ 32"
  shows "processRequest lib os db (encodeRequest Cmd_kBatch key (batch_image ops)) =
    (case DBImpl_write os db default_wopts ops of None \<Rightarrow> None | Some (os, db, s) \<Rightarrow> Some (os, db, status_response s))"
  using parse_batch_image [OF assms(1), of "[]" "[]"] assms(2)
  by (simp only: processRequest_commands [OF assms(4,3)])
    (simp add: process_batch_def batch_image_def unat_size_u32 del: parse_batch_ops.simps)

theorem server_batch_applied_witness:
  "let ops = WriteBatch_del (WriteBatch_put [] [97] [1]) [98] in
   processRequest demo_codec demo_empty_os demo_deleted_db (encodeRequest Cmd_kBatch [] (batch_image ops)) =
    (case DBImpl_write demo_empty_os demo_deleted_db default_wopts ops of None \<Rightarrow> None | Some (os, db, s) \<Rightarrow> Some (os, db, status_response s))"
  unfolding Let_def
  by (rule server_batch_applied)
    (simp_all add: WriteBatch_put_def WriteBatch_del_def batch_op_ok_def small_op_def batch_image_def batch_op_image_def)






section \<open>The gateway\<close>

lemma HttpParser_new_state: "hp_state HttpParser_new \<noteq> kDone"
  by (simp add: HttpParser_new_def)

text \<open>
  C33. The HTTP parser reads back what it is sent: a printable request, cut into pieces in any
  way, is complete after the last piece and not before, and the parsed request is the one
  that was printed, with its method, path, query, version, headers and body.
\<close>

theorem http_request_any_pieces:
  assumes "request_ok r" "concat pieces = print_request r"
  shows "\<exists>p. feed_all HttpParser_new pieces = (Inr kOk, p) \<and> hp_req p = r \<and> HttpParser_isComplete p \<and>
    (\<forall>n<length (print_request r). fst (HttpParser_feed HttpParser_new (take n (print_request r))) = Inr kNeedMoreData)"
proof -
  obtain q where q: "HttpParser_feed HttpParser_new (print_request r) = (Inr kOk, q)" "hp_req q = r" "hp_state q = kDone"
    using feed_printed [OF assms(1)] by blast
  have "HttpParser_feed HttpParser_new [] = (Inr kNeedMoreData, HttpParser_new)"
    by (simp add: HttpParser_feed_def feed_loop.simps HttpParser_new_def erase_read_def)
  from feed_all_concat [OF this, of pieces] have "runs_agree (feed_all HttpParser_new pieces) (Inr kOk, q)"
    using assms(2) q(1) HttpParser_new_state by simp
  then have "fst (feed_all HttpParser_new pieces) = Inr kOk" "hp_req (snd (feed_all HttpParser_new pieces)) = r"
    "hp_state (snd (feed_all HttpParser_new pieces)) = kDone"
    using q(2,3) by (auto simp: runs_agree_def dest: arg_cong [where f = hp_req] arg_cong [where f = hp_state])
  then show ?thesis using feed_part [OF assms(1)]
    by (cases "feed_all HttpParser_new pieces") (simp add: HttpParser_isComplete_def)
qed

lemma demo_request_ok: "request_ok demo_request"
proof -
  have "length (rq_body demo_request) = 5" by (simp add: demo_request_def str_def)
  moreover have "list_all (field_ok 5) (hdr_all (rq_headers demo_request))"
    by (simp add: demo_request_def Headers_add_def Headers_new_def field_ok_def str_def stoul_def scan_number_def isspace_def
        is_digit_def digits_value_def)
  ultimately have "list_all (field_ok (length (rq_body demo_request))) (hdr_all (rq_headers demo_request))" by simp
  then show ?thesis unfolding request_ok_def
    by (simp add: demo_request_def request_target_def request_line_def print_request_def print_field_def str_def
        Headers_add_def Headers_new_def add_fields_def CRLF_def)
qed

theorem http_request_any_pieces_witness:
  "\<exists>p. feed_all HttpParser_new [take 9 (print_request demo_request), drop 9 (print_request demo_request)] = (Inr kOk, p) \<and>
    rq_body (hp_req p) = str ''hello''"
  using http_request_any_pieces [OF demo_request_ok, of "[take 9 (print_request demo_request), drop 9 (print_request demo_request)]"]
  by (auto simp: demo_request_def)








text \<open>
  C37. Every history of timers, cancellations, advances of the clock and collections that
  stays within the 64-bit counters resumes what the specification resumes: a timer of \<open>ms\<close>
  milliseconds fires once, in the order of registration, at the first collection that is
  not before its deadline in ticks, and never after it was cancelled.
\<close>

theorem timer_wheel_histories:
  assumes "history_fits (unat tick) ops" "0 < tick" "0 < wheel_size"
  shows "fst (timer_run ops (TimerWheel_new wheel_size tick)) = fst (spec_run (unat tick) ops timers_new)"
  using timer_wheel_refines [OF assms(1,2)] .

theorem timer_wheel_histories_witness:
  "fst (timer_run [OpAdd 25 (7::nat), OpAdd 5 8, OpAdvance 10, OpCancel 2, OpExpire, OpAdvance 20, OpExpire, OpExpire]
      (TimerWheel_new 512 10)) = [[], [], [], [], [], [], [7], []]"
  using timer_wheel_histories [of 10 "[OpAdd 25 (7::nat), OpAdd 5 8, OpAdvance 10, OpCancel 2, OpExpire, OpAdvance 20, OpExpire, OpExpire]" 512]
  by (simp add: history_fits_def timers_new_def ceil_div_def)

text \<open>
  C38. A printable configuration that is written to the gateway's file is the one the
  program loads: every key, every section and the upstreams in their order.
\<close>

theorem gateway_config_roundtrip:
  assumes "config_ok c"
  shows "Config_load (Some (print_config c)) = Inr (Some c)"
  using Config_load_printed [OF assms] .

theorem gateway_config_roundtrip_witness:
  "config_ok demo_config \<and> Config_load (Some (print_config demo_config)) = Inr (Some demo_config)"
proof -
  have "config_ok demo_config"
    by (simp add: config_ok_def demo_config_def Config_default_def fits_int_def plain_def str_def isspace_def)
  then show ?thesis using gateway_config_roundtrip by simp
qed

section \<open>Exercises of the course\<close>

text \<open>
  C39. The single-producer, single-consumer ring of module 03: in every interleaving of the loads and stores
  of one \<open>push\<close> and one \<open>pop\<close>, the consumer gets what was pushed, in order and once, fewer than \<open>Capacity\<close>
  items wait, \<open>push\<close> gives up only when \<open>Capacity - 1\<close> items wait, and \<open>pop\<close> only when none does.
\<close>

theorem spsc_ring_fifo:
  assumes "(ring_step capacity)\<^sup>*\<^sup>* (SpscRingBuffer_new buf) r" "length buf = capacity" "capacity = 2 ^ k" "2 \<le> capacity"
  shows "\<exists>w. rb_pushed r = rb_popped r @ w \<and> length w < capacity \<and>
    (\<forall>item t. rb_prod r = PTail item t \<longrightarrow> rb_prod (push_step capacity r) = PIdle \<longrightarrow> length w = capacity - 1) \<and>
    (\<forall>h. rb_cons r = CHead h \<longrightarrow> rb_cons (pop_step capacity r) = CIdle \<longrightarrow> w = [])"
  using ring_fifo [OF ring_run_inv [OF assms] assms(3)] .

lemma demo_ring_run: "(ring_step 2)\<^sup>*\<^sup>* (SpscRingBuffer_new [0, 0]) demo_ring"
proof -
  let ?r = "SpscRingBuffer_new [0, 0] :: nat SpscRingBuffer"
  let ?s = "\<lambda>n. (push_step 2 ^^ n) (push_begin 7 ?r)"
  have p: "rb_prod (?s 0) \<noteq> PIdle" "rb_prod (?s 1) \<noteq> PIdle" "rb_prod (?s 2) \<noteq> PIdle"
    by (simp_all add: push_begin_def push_step_def SpscRingBuffer_new_def kMask_def numeral_2_eq_2)
  have "ring_step 2 ?r (?s 0)" by (simp add: ring_step.push SpscRingBuffer_new_def)
  moreover have "ring_step 2 (?s 0) (?s 1)" "ring_step 2 (?s 1) (?s 2)" "ring_step 2 (?s 2) (?s 3)"
    using p [THEN ring_step.produce, of 2] by (simp_all add: numeral_2_eq_2 numeral_3_eq_3)
  ultimately have "(ring_step 2)\<^sup>*\<^sup>* ?r (?s 3)" by (meson converse_rtranclp_into_rtranclp rtranclp.rtrancl_refl)
  then show ?thesis by (simp add: demo_ring_def)
qed

theorem spsc_ring_fifo_witness:
  "\<exists>w. rb_pushed demo_ring = rb_popped demo_ring @ w \<and> length w < 2"
  using spsc_ring_fifo [OF demo_ring_run, of 1] by (auto simp: demo_ring_def)

text \<open>
  C40. The compaction of module 08: two runs sorted by internal key, with a sequence number per version of a
  key, are merged into one run that every snapshot from the oldest live one on reads like the two
  runs together.
\<close>

theorem course_compaction_reads:
  assumes "run_sorted a" "run_sorted b" "seqs_distinct (a @ b)" "min_snapshot \<le> snap"
  shows "MvccStore_Get (run_store (CompactMerge a b min_snapshot)) k snap = MvccStore_Get (run_store (a @ b)) k snap"
  using CompactMerge_reads [OF assms] .

theorem course_compaction_reads_witness:
  "MvccStore_Get (run_store (CompactMerge [demo_kv 3] [demo_kv 1] 5)) [97] 9 = Some [3]"
proof -
  have "run_sorted [demo_kv 3]" "run_sorted [demo_kv 1]" "seqs_distinct ([demo_kv 3] @ [demo_kv 1])" "(5 :: u64) \<le> 9"
    by (simp_all add: run_sorted_def seqs_distinct_def demo_kv_def)
  from course_compaction_reads [OF this, of "[97]"] show ?thesis
    by (simp add: run_store_def run_entry_def demo_kv_def MvccStore_Get_def MvccStore_Put_def push_version_def kValue_def kDeletion_def)
qed

end
